(* ===== verification/D2PC_Prelude.thy ===== *)
theory D2PC_Prelude
  imports "HOL-Library.Word" "HOL-Library.AList"
begin

text \<open>
  Shared vocabulary of the development.

  \<^item> \<open>u64\<close> is the code's \<^verbatim>\<open>uint64_t\<close>: arithmetic wraps, comparison is unsigned.
  \<^item> \<open>ub\<close> names the ways a C++ step can leave the defined part of the language; a step that
    can do so returns \<open>ub + 'a\<close>, and \<open>bindr\<close> sequences such steps. A scalar that a constructor
    leaves without a value is an \<open>option\<close>; \<open>rd\<close> reads it. The one exception is the timestamp
    counter of a shard replica, whose unset value is an arbitrary argument of its constructor.
  \<^item> \<open>int32\<close> is the conversion of a \<^verbatim>\<open>uint64_t\<close> to \<^verbatim>\<open>int\<close>, \<open>umod\<close> the remainder of a
    \<^verbatim>\<open>uint64_t\<close> by an \<^verbatim>\<open>int\<close>.
  \<^item> A \<^verbatim>\<open>std::unordered_map\<close> that the code iterates or measures is an association list
    (\<open>AList.update\<close>, \<open>AList.delete\<close>, \<open>map_of\<close>): the list order stands for the iteration order,
    which the language leaves open. A \<^verbatim>\<open>std::map\<close> is an association list kept in
    ascending key order (\<open>smap_put\<close>). A container that is only searched is a map
    \<open>'k \<rightharpoonup> 'v\<close>.
  \<^item> The build defines \<^verbatim>\<open>NASSERT\<close> (src/Makefile), so \<^verbatim>\<open>ASSERT\<close> has no effect:
    no definition of the development branches on an assertion.
\<close>

type_synonym u64 = "64 word"

datatype ub =
    NullDeref
  | UseAfterFree
  | UninitRead
  | EndDeref
  | OutOfBounds
  | DivByZero
  | StackOverflow
  | BadCast

definition bindr :: "'e + 'a \<Rightarrow> ('a \<Rightarrow> 'e + 'b) \<Rightarrow> 'e + 'b" where
  "bindr r f = (case r of Inl e \<Rightarrow> Inl e | Inr a \<Rightarrow> f a)"

definition rd :: "'a option \<Rightarrow> ub + 'a" where
  "rd x = (case x of None \<Rightarrow> Inl UninitRead | Some v \<Rightarrow> Inr v)"

definition int32 :: "u64 \<Rightarrow> int" where
  "int32 x = sint (ucast x :: 32 word)"

definition umod :: "u64 \<Rightarrow> int \<Rightarrow> ub + u64" where
  "umod x n = (if (word_of_int n :: u64) = 0 then Inl DivByZero else Inr (x mod word_of_int n))"

named_theorems inv_intro \<open>preservation of the components' invariants\<close>
named_theorems frame \<open>fields an operation leaves alone\<close>

section \<open>Results\<close>

lemma bindr_Inl [simp]: "bindr (Inl e) f = Inl e"
  by (simp add: bindr_def)

lemma bindr_Inr [simp]: "bindr (Inr a) f = f a"
  by (simp add: bindr_def)

lemma bindr_eq_Inr: "bindr r f = Inr b \<longleftrightarrow> (\<exists>a. r = Inr a \<and> f a = Inr b)"
  by (cases r) simp_all

text \<open>A predicate holds in the state after a call, if the call returns one.\<close>

definition after :: "('s \<Rightarrow> bool) \<Rightarrow> 'e + 's \<Rightarrow> bool" where
  "after P r \<longleftrightarrow> (\<forall>s. r = Inr s \<longrightarrow> P s)"

lemma after_simps [simp]: "after P (Inl e)" "after P (Inr s) \<longleftrightarrow> P s"
  by (simp_all add: after_def)

lemma after_bindr: "after P r \<Longrightarrow> (\<And>s. P s \<Longrightarrow> after Q (g s)) \<Longrightarrow> after Q (bindr r g)"
  by (cases r) simp_all

lemma after_bindr_any: "(\<And>x. after Q (g x)) \<Longrightarrow> after Q (bindr r g)"
  by (cases r) simp_all

lemma after_if: "(b \<Longrightarrow> after P x) \<Longrightarrow> (\<not> b \<Longrightarrow> after P y) \<Longrightarrow> after P (if b then x else y)"
  by simp

lemma rd_simps [simp]: "rd None = Inl UninitRead" "rd (Some v) = Inr v"
  by (simp_all add: rd_def)

lemma rd_eq_Inr [simp]: "rd x = Inr v \<longleftrightarrow> x = Some v"
  by (cases x) simp_all

section \<open>Ordered association lists: std::map\<close>

primrec smap_put :: "'k::linorder \<Rightarrow> 'v \<Rightarrow> ('k \<times> 'v) list \<Rightarrow> ('k \<times> 'v) list" where
  "smap_put k v [] = [(k, v)]"
| "smap_put k v (p # m) =
     (if fst p < k then p # smap_put k v m
      else if fst p = k then (k, v) # m
      else (k, v) # p # m)"

abbreviation ascending :: "('k::linorder \<times> 'v) list \<Rightarrow> bool" where
  "ascending m \<equiv> sorted_wrt (<) (map fst m)"

lemma map_of_smap_put [simp]: "map_of (smap_put k v m) = (map_of m)(k \<mapsto> v)"
  by (induction m) (auto simp: fun_eq_iff)

lemma smap_put_nonempty [simp]: "smap_put k v m \<noteq> []"
  by (cases m) auto

lemma fst_set_smap_put: "fst ` set (smap_put k v m) = insert k (fst ` set m)"
  by (induction m) auto

lemma ascending_smap_put [inv_intro]: "ascending m \<Longrightarrow> ascending (smap_put k v m)"
proof (induction m)
  case Nil
  then show ?case by simp
next
  case (Cons p m)
  have keys: "set (map fst (smap_put k v m)) = insert k (fst ` set m)"
    by (simp add: fst_set_smap_put)
  show ?case
  proof (cases "fst p < k")
    case True
    then have "\<forall>x \<in> set (map fst (smap_put k v m)). fst p < x"
      using Cons.prems unfolding keys by auto
    with True Cons show ?thesis by simp
  next
    case False
    with Cons.prems show ?thesis by (auto intro: less_trans)
  qed
qed

lemma ascending_distinct: "ascending m \<Longrightarrow> distinct (map fst m)"
  by (simp add: strict_sorted_iff)

lemma ascending_delete [inv_intro]: "ascending m \<Longrightarrow> ascending (AList.delete k m)"
  by (simp add: AList.delete_eq sorted_wrt_map sorted_wrt_filter)

section \<open>Association lists: std::unordered_map\<close>

lemma map_of_delete [simp]: "map_of (AList.delete k m) = (map_of m)(k := None)"
  by (rule ext) (simp add: AList.delete_conv)

lemma map_of_update [simp]: "map_of (AList.update k v m) = (map_of m)(k \<mapsto> v)"
  by (rule ext) (simp add: AList.update_conv)

lemma length_update: "length (AList.update k v m) = (if k \<in> fst ` set m then length m else Suc (length m))"
  by (induction m) auto

lemma update_snoc: "k \<notin> fst ` set m \<Longrightarrow> AList.update k v m = m @ [(k, v)]"
  by (induction m) auto

lemma map_of_eq_None_keys: "map_of m k = None \<longleftrightarrow> k \<notin> fst ` set m"
  by (rule map_of_eq_None_iff)

lemma keys_update: "fst ` set (AList.update k v m) = insert k (fst ` set m)"
  by (induction m) auto

lemma set_update_subset: "set (AList.update k v m) \<subseteq> insert (k, v) (set m)"
  by (induction m) auto

lemma keys_delete: "fst ` set (AList.delete k m) = fst ` set m - {k}"
  by (induction m) auto

end
