(* ===== verification/Timestamps.thy ===== *)
theory Timestamps
  imports D2PC_Prelude
begin

text \<open>
  src/store/common/timestamp.h and timestamp.cc: a transaction timestamp is a pair of a clock
  value and the identifier of the replica that issued it, ordered by the clock value first.
  The comparison operators of the class are the operations of the type class \<open>linorder\<close>, so the
  ordered containers that the stores build over timestamps can use the library's order lemmas.
\<close>

datatype Timestamp = Timestamp (getTimestamp: u64) (getID: u64)

definition Timestamp_default :: Timestamp where
  "Timestamp_default = Timestamp 0 0"

definition Timestamp_of :: "u64 \<Rightarrow> Timestamp" where
  "Timestamp_of t = Timestamp t 0"

record TimestampMessage =
  tm_id :: u64
  tm_timestamp :: u64

definition Timestamp_of_msg :: "TimestampMessage \<Rightarrow> Timestamp" where
  "Timestamp_of_msg msg = Timestamp (tm_timestamp msg) (tm_id msg)"

definition setTimestamp :: "Timestamp \<Rightarrow> u64 \<Rightarrow> Timestamp" where
  "setTimestamp t v = Timestamp v (getID t)"

definition ts_eq :: "Timestamp \<Rightarrow> Timestamp \<Rightarrow> bool" where
  "ts_eq a b \<longleftrightarrow> getTimestamp a = getTimestamp b \<and> getID a = getID b"

definition ts_ne :: "Timestamp \<Rightarrow> Timestamp \<Rightarrow> bool" where
  "ts_ne a b \<longleftrightarrow> getTimestamp a \<noteq> getTimestamp b \<or> getID a \<noteq> getID b"

definition ts_gt :: "Timestamp \<Rightarrow> Timestamp \<Rightarrow> bool" where
  "ts_gt a b = (if getTimestamp a = getTimestamp b then getID a > getID b
                else getTimestamp a > getTimestamp b)"

definition ts_ge :: "Timestamp \<Rightarrow> Timestamp \<Rightarrow> bool" where
  "ts_ge a b = (if getTimestamp a = getTimestamp b then getID a \<ge> getID b
                else getTimestamp a \<ge> getTimestamp b)"

definition ts_lt :: "Timestamp \<Rightarrow> Timestamp \<Rightarrow> bool" where
  "ts_lt a b = (if getTimestamp a = getTimestamp b then getID a < getID b
                else getTimestamp a < getTimestamp b)"

definition ts_le :: "Timestamp \<Rightarrow> Timestamp \<Rightarrow> bool" where
  "ts_le a b = (if getTimestamp a = getTimestamp b then getID a \<le> getID b
                else getTimestamp a \<le> getTimestamp b)"

definition isValid :: "Timestamp \<Rightarrow> bool" where
  "isValid t \<longleftrightarrow> getTimestamp t > 0 \<and> getID t > 0"

definition Timestamp_serialize :: "Timestamp \<Rightarrow> TimestampMessage" where
  "Timestamp_serialize t = \<lparr>tm_id = getID t, tm_timestamp = getTimestamp t\<rparr>"

instantiation Timestamp :: linorder
begin

definition less_Timestamp :: "Timestamp \<Rightarrow> Timestamp \<Rightarrow> bool" where
  "less_Timestamp = ts_lt"

definition less_eq_Timestamp :: "Timestamp \<Rightarrow> Timestamp \<Rightarrow> bool" where
  "less_eq_Timestamp = ts_le"

instance
proof
  fix x y z :: Timestamp
  show "x < y \<longleftrightarrow> x \<le> y \<and> \<not> y \<le> x"
    by (auto simp: less_Timestamp_def ts_lt_def less_eq_Timestamp_def ts_le_def)
  show "x \<le> x"
    by (simp add: less_eq_Timestamp_def ts_le_def)
  show "x \<le> y \<Longrightarrow> y \<le> z \<Longrightarrow> x \<le> z"
    by (auto simp: less_eq_Timestamp_def ts_le_def split: if_splits)
  show "x \<le> y \<Longrightarrow> y \<le> x \<Longrightarrow> x = y"
    by (cases x; cases y) (auto simp: less_eq_Timestamp_def ts_le_def split: if_splits)
  show "x \<le> y \<or> y \<le> x"
    by (auto simp: less_eq_Timestamp_def ts_le_def)
qed

end

lemma less_Timestamp_iff [simp]:
  "Timestamp a i < Timestamp b j \<longleftrightarrow> (if a = b then i < j else a < b)"
  by (simp add: less_Timestamp_def ts_lt_def)

lemma less_eq_Timestamp_iff [simp]:
  "Timestamp a i \<le> Timestamp b j \<longleftrightarrow> (if a = b then i \<le> j else a \<le> b)"
  by (simp add: less_eq_Timestamp_def ts_le_def)

lemma ts_eq_iff: "ts_eq a b \<longleftrightarrow> a = b"
  by (cases a; cases b) (simp add: ts_eq_def)

lemma ts_ne_iff: "ts_ne a b \<longleftrightarrow> a \<noteq> b"
  by (cases a; cases b) (auto simp: ts_ne_def)

lemma ts_gt_iff: "ts_gt a b \<longleftrightarrow> b < a"
  by (auto simp: ts_gt_def less_Timestamp_def ts_lt_def)

lemma ts_ge_iff: "ts_ge a b \<longleftrightarrow> b \<le> a"
  by (auto simp: ts_ge_def less_eq_Timestamp_def ts_le_def)

lemma Timestamp_default_least [simp]: "Timestamp_default \<le> t"
  by (cases t) (simp add: Timestamp_default_def)

lemma Timestamp_roundtrip: "Timestamp_of_msg (Timestamp_serialize t) = t"
  by (simp add: Timestamp_of_msg_def Timestamp_serialize_def)

end
