(* ===== verification/Transactions.thy ===== *)
theory Transactions
  imports Timestamps
begin

text \<open>
  src/store/common/transaction.h and transaction.cc: the transaction object that clients build,
  that stores keep while a transaction is prepared, and that leaders keep while it is active.

  The read and the write set are \<^verbatim>\<open>unordered_map\<close>s, hence association lists. A scalar
  member that a constructor leaves without a value is \<open>None\<close>: \<open>txn_id\<close>, \<open>txn_in\<close> and
  \<open>txn_primary_shard\<close> have no default initialiser, and the constructor from a protobuf message
  sets none of them. The two \<^verbatim>\<open>timeval\<close> members feed a debug message only and are left out.
\<close>

text \<open>Reply codes of the stores (macros of transaction.h).\<close>

definition REPLY_OK :: int where "REPLY_OK = 0"
definition REPLY_FAIL :: int where "REPLY_FAIL = 1"
definition REPLY_RETRY :: int where "REPLY_RETRY = 2"
definition REPLY_ABSTAIN :: int where "REPLY_ABSTAIN = 3"
definition REPLY_TIMEOUT :: int where "REPLY_TIMEOUT = 4"
definition REPLY_NETWORK_FAILURE :: int where "REPLY_NETWORK_FAILURE = 5"
definition REPLY_MAX :: int where "REPLY_MAX = 6"
definition REPLY_ABORT :: int where "REPLY_ABORT = 7"
definition REPLY_HAS_PRECOMMIT :: int where "REPLY_HAS_PRECOMMIT = 8"

lemmas reply_codes [simp] = REPLY_OK_def REPLY_FAIL_def REPLY_RETRY_def REPLY_ABSTAIN_def
  REPLY_TIMEOUT_def REPLY_NETWORK_FAILURE_def REPLY_MAX_def REPLY_ABORT_def
  REPLY_HAS_PRECOMMIT_def

datatype Mode = MODE_UNKNOWN | MODE_OCC | MODE_LOCK | MODE_SPAN_OCC | MODE_SPAN_LOCK

datatype TpcMode = MODE_FAST | MODE_SLOW | MODE_PARALLEL | MODE_RC | MODE_CAROUSEL

record Transaction =
  txn_writeSet :: "(string \<times> string) list"
  txn_id :: "u64 option"
  txn_startTs :: Timestamp
  txn_commitTs :: Timestamp
  txn_readSet :: "(string \<times> Timestamp) list"
  txn_participants :: "u64 list"
  txn_primary_shard :: "u64 option"
  txn_out :: "u64 list"
  txn_in :: "u64 option"

text \<open>The four constructors of a fresh transaction.\<close>

definition Transaction_default :: Transaction where
  "Transaction_default = \<lparr>txn_writeSet = [], txn_id = Some 0, txn_startTs = Timestamp_default,
     txn_commitTs = Timestamp_default, txn_readSet = [], txn_participants = [],
     txn_primary_shard = None, txn_out = [], txn_in = Some 0\<rparr>"

definition Transaction_id :: "u64 \<Rightarrow> Transaction" where
  "Transaction_id i = Transaction_default\<lparr>txn_id := Some i\<rparr>"

definition Transaction_ts :: "u64 \<Rightarrow> u64 \<Rightarrow> u64 \<Rightarrow> Transaction" where
  "Transaction_ts i timestamp replica_id =
     (Transaction_id i)\<lparr>txn_commitTs := Timestamp timestamp replica_id\<rparr>"

definition Transaction_primary :: "u64 \<Rightarrow> u64 \<Rightarrow> u64 \<Rightarrow> u64 \<Rightarrow> Transaction" where
  "Transaction_primary i timestamp replica_id primary_shard =
     (Transaction_ts i timestamp replica_id)\<lparr>txn_primary_shard := Some primary_shard\<rparr>"

definition setCommitTs :: "Transaction \<Rightarrow> u64 \<Rightarrow> u64 \<Rightarrow> Transaction" where
  "setCommitTs t replica ts = t\<lparr>txn_commitTs := Timestamp ts replica\<rparr>"

definition setPrimaryShard :: "Transaction \<Rightarrow> int \<Rightarrow> Transaction" where
  "setPrimaryShard t shard = t\<lparr>txn_primary_shard := Some (word_of_int shard)\<rparr>"

definition increaseIn :: "Transaction \<Rightarrow> Transaction" where
  "increaseIn t = t\<lparr>txn_in := map_option (\<lambda>n. n + 1) (txn_in t)\<rparr>"

definition decreaseIn :: "Transaction \<Rightarrow> Transaction" where
  "decreaseIn t = t\<lparr>txn_in := map_option (\<lambda>n. if n > 0 then n - 1 else n) (txn_in t)\<rparr>"

definition setIn :: "Transaction \<Rightarrow> u64 \<Rightarrow> Transaction" where
  "setIn t i = t\<lparr>txn_in := Some i\<rparr>"

definition addOut :: "Transaction \<Rightarrow> u64 \<Rightarrow> Transaction" where
  "addOut t tid = t\<lparr>txn_out := txn_out t @ [tid]\<rparr>"

definition addReadSet :: "Transaction \<Rightarrow> string \<Rightarrow> Timestamp \<Rightarrow> Transaction" where
  "addReadSet t key readTime = t\<lparr>txn_readSet := AList.update key readTime (txn_readSet t)\<rparr>"

definition addWriteSet :: "Transaction \<Rightarrow> string \<Rightarrow> string \<Rightarrow> Transaction" where
  "addWriteSet t key val = t\<lparr>txn_writeSet := AList.update key val (txn_writeSet t)\<rparr>"

definition addParticipant :: "Transaction \<Rightarrow> u64 \<Rightarrow> Transaction" where
  "addParticipant t p = t\<lparr>txn_participants := txn_participants t @ [p]\<rparr>"

text \<open>The wire form (src/store/common/common-proto.proto) and both conversions.\<close>

record TransactionMessage =
  msg_readset :: "(string \<times> TimestampMessage) list"
  msg_writeset :: "(string \<times> string) list"

definition Transaction_serialize :: "Transaction \<Rightarrow> TransactionMessage" where
  "Transaction_serialize t =
     \<lparr>msg_readset = map (\<lambda>(k, ts). (k, Timestamp_serialize ts)) (txn_readSet t),
      msg_writeset = txn_writeSet t\<rparr>"

definition Transaction_of_msg :: "TransactionMessage \<Rightarrow> Transaction" where
  "Transaction_of_msg msg =
     (let t0 = Transaction_default\<lparr>txn_id := None, txn_in := None, txn_primary_shard := None\<rparr>;
          t1 = fold (\<lambda>(k, ts) t. addReadSet t k (Timestamp_of_msg ts)) (msg_readset msg) t0
      in fold (\<lambda>(k, v) t. addWriteSet t k v) (msg_writeset msg) t1)"

text \<open>The conversion back, used when a request carries no transaction (a protobuf default).\<close>

definition TransactionMessage_default :: TransactionMessage where
  "TransactionMessage_default = \<lparr>msg_readset = [], msg_writeset = []\<rparr>"

definition txn_wf :: "Transaction \<Rightarrow> bool" where
  "txn_wf t \<longleftrightarrow> distinct (map fst (txn_readSet t)) \<and> distinct (map fst (txn_writeSet t))"

lemmas txn_ctor_defs = Transaction_default_def Transaction_id_def Transaction_ts_def
  Transaction_primary_def

lemma txn_wf_ctor [simp]:
  "txn_wf Transaction_default" "txn_wf (Transaction_id i)" "txn_wf (Transaction_ts i a b)"
  "txn_wf (Transaction_primary i a b c)"
  by (simp_all add: txn_wf_def txn_ctor_defs)

lemma txn_wf_addReadSet [inv_intro]: "txn_wf t \<Longrightarrow> txn_wf (addReadSet t k ts)"
  by (simp add: txn_wf_def addReadSet_def distinct_update)

lemma txn_wf_addWriteSet [inv_intro]: "txn_wf t \<Longrightarrow> txn_wf (addWriteSet t k v)"
  by (simp add: txn_wf_def addWriteSet_def distinct_update)

lemma fold_addReadSet:
  "distinct (map fst (txn_readSet t) @ map fst rs) \<Longrightarrow>
   fold (\<lambda>(k, ts) t. addReadSet t k (f ts)) rs t =
   t\<lparr>txn_readSet := txn_readSet t @ map (\<lambda>(k, ts). (k, f ts)) rs\<rparr>"
  by (induction rs arbitrary: t) (auto simp: addReadSet_def update_snoc)

lemma fold_addWriteSet:
  "distinct (map fst (txn_writeSet t) @ map fst ws) \<Longrightarrow>
   fold (\<lambda>(k, v) t. addWriteSet t k v) ws t = t\<lparr>txn_writeSet := txn_writeSet t @ ws\<rparr>"
  by (induction ws arbitrary: t) (auto simp: addWriteSet_def update_snoc)

lemma map_fst_map_pair [simp]: "map (fst \<circ> (\<lambda>(k, v). (k, f v))) m = map fst m"
  by (induction m) auto

lemma Transaction_of_msg_serialize:
  assumes "txn_wf t"
  shows "Transaction_of_msg (Transaction_serialize t) =
         Transaction_default\<lparr>txn_id := None, txn_in := None, txn_primary_shard := None,
           txn_readSet := txn_readSet t, txn_writeSet := txn_writeSet t\<rparr>"
proof -
  have "map ((\<lambda>(k, ts). (k, Timestamp_of_msg ts)) \<circ> (\<lambda>(k, ts). (k, Timestamp_serialize ts)))
          (txn_readSet t) = txn_readSet t"
    by (auto simp: Timestamp_roundtrip intro!: map_idI)
  with assms show ?thesis
    by (simp add: Transaction_of_msg_def Transaction_serialize_def fold_addReadSet
        fold_addWriteSet txn_wf_def Transaction_default_def)
qed

lemma Transaction_of_msg_default [simp]:
  "Transaction_of_msg TransactionMessage_default =
   Transaction_default\<lparr>txn_id := None, txn_in := None, txn_primary_shard := None\<rparr>"
  by (simp add: Transaction_of_msg_def TransactionMessage_default_def)

section \<open>Properties\<close>

text \<open>Sending a transaction over the wire keeps its read set, with the timestamps read, and its
  write set.\<close>

lemma transaction_wire_roundtrip:
  assumes "txn_wf t"
  shows "txn_readSet (Transaction_of_msg (Transaction_serialize t)) = txn_readSet t \<and>
    txn_writeSet (Transaction_of_msg (Transaction_serialize t)) = txn_writeSet t"
  by (simp add: Transaction_of_msg_serialize [OF assms])

end
