(* ===== verification/VersionStore.thy ===== *)
theory VersionStore
  imports Transactions
begin

text \<open>
  src/store/common/backend/versionstore.h and versionstore.cc: the multi-version key-value store
  under both transactional stores. \<open>versions\<close> is \<^verbatim>\<open>std::set<VersionedValue>\<close>, a list in
  ascending order of write timestamp; an iterator into it is an index, \<open>None\<close> being
  \<^verbatim>\<open>end()\<close>. Reference parameters that a call may leave untouched are passed in and returned.
\<close>

type_synonym versions = "(Timestamp \<times> string) list"

record VersionedKVStore =
  vs_store :: "string \<rightharpoonup> versions"
  vs_lastReads :: "string \<rightharpoonup> (Timestamp \<rightharpoonup> Timestamp)"
  vs_precommits :: "string \<rightharpoonup> u64 list"

definition VersionedKVStore_new :: VersionedKVStore where
  "VersionedKVStore_new =
     \<lparr>vs_store = Map.empty, vs_lastReads = Map.empty, vs_precommits = Map.empty\<rparr>"

text \<open>
  \<^verbatim>\<open>set::insert\<close> under the ordering by write timestamp: an element equivalent to a stored
  one is not inserted. \<^verbatim>\<open>set::upper_bound\<close>: the first element above the bound.
\<close>

primrec vset_insert :: "Timestamp \<times> string \<Rightarrow> versions \<Rightarrow> versions" where
  "vset_insert x [] = [x]"
| "vset_insert x (y # ys) =
     (if fst x < fst y then x # y # ys
      else if fst y < fst x then y # vset_insert x ys
      else y # ys)"

definition vset_upper_bound :: "Timestamp \<Rightarrow> versions \<Rightarrow> nat" where
  "vset_upper_bound t vs = length (takeWhile (\<lambda>v. \<not> t < fst v) vs)"

definition vs_at :: "VersionedKVStore \<Rightarrow> string \<Rightarrow> versions" where
  "vs_at s key = (case vs_store s key of None \<Rightarrow> [] | Some vs \<Rightarrow> vs)"

definition inStore :: "VersionedKVStore \<Rightarrow> string \<Rightarrow> bool" where
  "inStore s key \<longleftrightarrow> vs_store s key \<noteq> None \<and> length (vs_at s key) > 0"

definition getValue :: "VersionedKVStore \<Rightarrow> string \<Rightarrow> Timestamp \<Rightarrow> nat option" where
  "getValue s key t =
     (let it = vset_upper_bound t (vs_at s key) in if it = 0 then None else Some (it - 1))"

definition vs_get :: "VersionedKVStore \<Rightarrow> string \<Rightarrow> (Timestamp \<times> string) option" where
  "vs_get s key = (if inStore s key then Some (last (vs_at s key)) else None)"

definition vs_get_dep :: "VersionedKVStore \<Rightarrow> string \<Rightarrow> Timestamp \<times> string \<Rightarrow> u64 \<Rightarrow>
    bool \<times> (Timestamp \<times> string) \<times> u64" where
  "vs_get_dep s key val tid =
     (if inStore s key then
        (case vs_precommits s key of
           None \<Rightarrow> (True, last (vs_at s key), 0)
         | Some ps \<Rightarrow> if ps = [] then (True, last (vs_at s key), 0) else (True, val, last ps))
      else (False, val, tid))"

definition vs_get_at :: "VersionedKVStore \<Rightarrow> string \<Rightarrow> Timestamp \<Rightarrow> (Timestamp \<times> string) option"
  where
  "vs_get_at s key t =
     (if inStore s key then
        (case getValue s key t of None \<Rightarrow> None | Some it \<Rightarrow> Some (vs_at s key ! it))
      else None)"

definition vs_getRange :: "VersionedKVStore \<Rightarrow> string \<Rightarrow> Timestamp \<Rightarrow> Timestamp \<times> Timestamp \<Rightarrow>
    bool \<times> (Timestamp \<times> Timestamp)" where
  "vs_getRange s key t rng =
     (if inStore s key then
        (case getValue s key t of
           None \<Rightarrow> (False, rng)
         | Some it \<Rightarrow>
             (True, fst (vs_at s key ! it),
              if it + 1 < length (vs_at s key) then fst (vs_at s key ! (it + 1)) else snd rng))
      else (False, rng))"

definition vs_put :: "VersionedKVStore \<Rightarrow> string \<Rightarrow> string \<Rightarrow> Timestamp \<Rightarrow> VersionedKVStore" where
  "vs_put s key val t =
     s\<lparr>vs_store := (vs_store s)(key \<mapsto> vset_insert (t, val) (vs_at s key))\<rparr>"

definition vs_commitGet ::
  "VersionedKVStore \<Rightarrow> string \<Rightarrow> Timestamp \<Rightarrow> Timestamp \<Rightarrow> VersionedKVStore" where
  "vs_commitGet s key readTime commit =
     (if inStore s key then
        (case getValue s key readTime of
           None \<Rightarrow> s
         | Some it \<Rightarrow>
             (let w = fst (vs_at s key ! it) in
              case vs_lastReads s key of
                None \<Rightarrow> s
              | Some m \<Rightarrow>
                  (case m w of
                     None \<Rightarrow> s
                   | Some r \<Rightarrow>
                       if r < commit
                       then s\<lparr>vs_lastReads := (vs_lastReads s)(key \<mapsto> m(w \<mapsto> commit))\<rparr>
                       else s)))
      else s)"

definition vs_preCommit :: "VersionedKVStore \<Rightarrow> string \<Rightarrow> u64 \<Rightarrow> VersionedKVStore" where
  "vs_preCommit s key tid =
     s\<lparr>vs_precommits := (vs_precommits s)
        (key \<mapsto> (case vs_precommits s key of None \<Rightarrow> [] | Some ps \<Rightarrow> ps) @ [tid])\<rparr>"

definition vs_commit :: "VersionedKVStore \<Rightarrow> string \<Rightarrow> u64 \<Rightarrow> VersionedKVStore" where
  "vs_commit s key tid =
     (if inStore s key then
        (case vs_precommits s key of
           None \<Rightarrow> s
         | Some ps \<Rightarrow>
             s\<lparr>vs_precommits := (vs_precommits s)(key \<mapsto> filter (\<lambda>p. p \<noteq> tid) ps)\<rparr>)
      else s)"

definition vs_getLastRead :: "VersionedKVStore \<Rightarrow> string \<Rightarrow> Timestamp option" where
  "vs_getLastRead s key =
     (if inStore s key then
        (case vs_lastReads s key of
           None \<Rightarrow> None
         | Some m \<Rightarrow> m (fst (last (vs_at s key))))
      else None)"

text \<open>The timestamped variant dereferences the iterator without looking at it.\<close>

definition vs_getLastRead_at ::
  "VersionedKVStore \<Rightarrow> string \<Rightarrow> Timestamp \<Rightarrow> ub + Timestamp option" where
  "vs_getLastRead_at s key t =
     (if inStore s key then
        (case vs_lastReads s key of
           None \<Rightarrow> Inr None
         | Some m \<Rightarrow>
             (case getValue s key t of
                None \<Rightarrow> Inl EndDeref
              | Some it \<Rightarrow> Inr (m (fst (vs_at s key ! it)))))
      else Inr None)"

text \<open>
  The loop that both transactional stores run when they commit: install every write of the
  transaction at the commit timestamp and take the transaction off the key's pre-commit list.
\<close>

definition commit_writes ::
  "u64 \<Rightarrow> Timestamp \<Rightarrow> (string \<times> string) list \<Rightarrow> VersionedKVStore \<Rightarrow> VersionedKVStore" where
  "commit_writes tid t ws s = fold (\<lambda>(k, v) s. vs_commit (vs_put s k v t) k tid) ws s"

definition precommit_writes ::
  "u64 \<Rightarrow> (string \<times> string) list \<Rightarrow> VersionedKVStore \<Rightarrow> VersionedKVStore" where
  "precommit_writes tid ws s = fold (\<lambda>(k, v) s. vs_preCommit s k tid) ws s"

definition vs_wf :: "VersionedKVStore \<Rightarrow> bool" where
  "vs_wf s \<longleftrightarrow> (\<forall>k. ascending (vs_at s k))"

section \<open>Version sets\<close>

lemma keys_vset_insert: "fst ` set (vset_insert x vs) = insert (fst x) (fst ` set vs)"
  by (induction vs) auto

lemma ascending_vset_insert [inv_intro]: "ascending vs \<Longrightarrow> ascending (vset_insert x vs)"
proof (induction vs)
  case Nil
  then show ?case by simp
next
  case (Cons y ys)
  then have "\<forall>w \<in> fst ` set (vset_insert x ys). fst y < fst x \<longrightarrow> fst y < w"
    by (auto simp: keys_vset_insert)
  with Cons show ?case by (auto intro: less_trans)
qed

lemma vset_insert_duplicate: "ascending vs \<Longrightarrow> fst x \<in> fst ` set vs \<Longrightarrow> vset_insert x vs = vs"
  by (induction vs) (auto dest: less_asym)

lemma map_of_vset_insert:
  "ascending vs \<Longrightarrow> t \<notin> fst ` set vs \<Longrightarrow> map_of (vset_insert (t, v) vs) = (map_of vs)(t \<mapsto> v)"
  by (induction vs) (auto simp: fun_eq_iff)

lemma takeWhile_ascending:
  "ascending vs \<Longrightarrow> takeWhile (\<lambda>v. \<not> t < fst v) vs = filter (\<lambda>v. fst v \<le> t) vs"
proof (induction vs)
  case (Cons y ys)
  then have "t < fst y \<Longrightarrow> filter (\<lambda>v. fst v \<le> t) ys = []"
    by (force simp: filter_empty_conv)
  with Cons show ?case by auto
qed simp

lemma filter_vset_insert_above:
  "u < fst x \<Longrightarrow> filter (\<lambda>v. fst v \<le> u) (vset_insert x vs) = filter (\<lambda>v. fst v \<le> u) vs"
  by (induction vs) auto

lemma vset_insert_newest:
  "(\<forall>w \<in> fst ` set vs. w < fst x) \<Longrightarrow> vset_insert x vs = vs @ [x]"
  by (induction vs) auto

lemma ascending_last_max: "ascending vs \<Longrightarrow> x \<in> set vs \<Longrightarrow> fst x \<le> fst (last vs)"
proof (induction vs)
  case (Cons y ys)
  show ?case
  proof (cases "ys = []")
    case False
    with Cons.prems have "fst y < fst (last ys)" by simp
    with Cons False show ?thesis by (auto dest: less_imp_le)
  qed (use Cons in simp)
qed simp

section \<open>The store\<close>

lemma vs_at_put [simp]:
  "vs_at (vs_put s k v t) k' = (if k' = k then vset_insert (t, v) (vs_at s k) else vs_at s k')"
  by (simp add: vs_put_def vs_at_def)

lemma vs_at_frame [simp]:
  "vs_at (vs_commit s k tid) = vs_at s" "vs_at (vs_preCommit s k tid) = vs_at s"
  "vs_at (vs_commitGet s k r c) = vs_at s"
  by (auto simp: vs_commit_def vs_preCommit_def vs_commitGet_def vs_at_def Let_def fun_eq_iff
      split: option.splits)

lemma inStore_iff: "inStore s k \<longleftrightarrow> vs_at s k \<noteq> []"
  by (auto simp: inStore_def vs_at_def split: option.splits)

lemma vset_insert_nonempty [simp]: "vset_insert x vs \<noteq> []"
  by (cases vs) auto

lemma vs_get_eq: "vs_get s k = (if vs_at s k = [] then None else Some (last (vs_at s k)))"
  by (simp add: vs_get_def inStore_iff)

lemma vs_get_at_eq:
  assumes "ascending (vs_at s k)"
  shows "vs_get_at s k t =
    (let old = filter (\<lambda>v. fst v \<le> t) (vs_at s k) in if old = [] then None else Some (last old))"
proof -
  let ?tw = "takeWhile (\<lambda>v. \<not> t < fst v) (vs_at s k)"
  have "?tw \<noteq> [] \<Longrightarrow> vs_at s k ! (length ?tw - 1) = last ?tw"
    by (simp add: last_conv_nth takeWhile_nth)
  then show ?thesis
    by (simp add: vs_get_at_def getValue_def vset_upper_bound_def inStore_iff Let_def
        takeWhile_ascending [OF assms, symmetric])
qed

lemma vs_reads_cong: "vs_at s = vs_at s' \<Longrightarrow> vs_get s = vs_get s' \<and> vs_get_at s = vs_get_at s'"
  by (auto simp: fun_eq_iff vs_get_eq vs_get_at_def getValue_def inStore_iff
      split: option.split)

lemma vs_wf_new [simp]: "vs_wf VersionedKVStore_new"
  by (simp add: vs_wf_def VersionedKVStore_new_def vs_at_def)

lemma vs_wf_put [inv_intro]: "vs_wf s \<Longrightarrow> vs_wf (vs_put s k v t)"
  by (simp add: vs_wf_def ascending_vset_insert)

lemma vs_wf_frame [simp]:
  "vs_wf (vs_commit s k tid) = vs_wf s" "vs_wf (vs_preCommit s k tid) = vs_wf s"
  "vs_wf (vs_commitGet s k r c) = vs_wf s"
  by (simp_all add: vs_wf_def)

section \<open>The interface the transactional stores rely on\<close>

locale mvstore =
  fixes latest :: "'s \<Rightarrow> string \<Rightarrow> (Timestamp \<times> string) option"
    and read_at :: "'s \<Rightarrow> string \<Rightarrow> Timestamp \<Rightarrow> (Timestamp \<times> string) option"
    and put :: "'s \<Rightarrow> string \<Rightarrow> string \<Rightarrow> Timestamp \<Rightarrow> 's"
    and unmark :: "'s \<Rightarrow> string \<Rightarrow> u64 \<Rightarrow> 's"
    and invar :: "'s \<Rightarrow> bool"
  assumes invar_put: "invar s \<Longrightarrow> invar (put s k v t)"
    and invar_unmark: "invar s \<Longrightarrow> invar (unmark s k i)"
    and latest_put: "invar s \<Longrightarrow> (\<And>w. w \<in> fst ` set_option (latest s k) \<Longrightarrow> w < t) \<Longrightarrow>
      latest (put s k v t) k' = (if k' = k then Some (t, v) else latest s k')"
    and latest_put_other: "k' \<noteq> k \<Longrightarrow> latest (put s k v t) k' = latest s k'"
    and latest_unmark: "latest (unmark s k i) = latest s"
    and read_at_put: "invar s \<Longrightarrow> u < t \<Longrightarrow> read_at (put s k v t) k' u = read_at s k' u"
    and read_at_unmark: "read_at (unmark s k i) = read_at s"
begin

lemma install_invar:
  "invar s \<Longrightarrow> invar (fold (\<lambda>(k, v) s. unmark (put s k v t) k i) ws s)"
  by (induction ws arbitrary: s) (auto simp: invar_put invar_unmark)

lemma install_read_at:
  "invar s \<Longrightarrow> u < t \<Longrightarrow>
   read_at (fold (\<lambda>(k, v) s. unmark (put s k v t) k i) ws s) k' u = read_at s k' u"
  by (induction ws arbitrary: s) (auto simp: invar_put invar_unmark read_at_put read_at_unmark)

lemma install_other:
  "k' \<notin> fst ` set ws \<Longrightarrow>
   latest (fold (\<lambda>(k, v) s. unmark (put s k v t) k i) ws s) k' = latest s k'"
  by (induction ws arbitrary: s) (auto simp: latest_put_other latest_unmark)

lemma install_latest:
  assumes "invar s" and "distinct (map fst ws)"
    and "\<And>k w v. k \<in> fst ` set ws \<Longrightarrow> latest s k = Some (w, v) \<Longrightarrow> w < t"
  shows "latest (fold (\<lambda>(k, v) s. unmark (put s k v t) k i) ws s) k' =
    (case map_of ws k' of None \<Rightarrow> latest s k' | Some v \<Rightarrow> Some (t, v))"
  using assms
proof (induction ws arbitrary: s)
  case Nil
  then show ?case by simp
next
  case (Cons p ws)
  obtain k v where p: "p = (k, v)" by (cases p)
  let ?s = "unmark (put s k v t) k i"
  have "w < t" if "w \<in> fst ` set_option (latest s k)" for w
    using that Cons.prems(3) [of k w] p by auto
  then have new: "latest ?s j = (if j = k then Some (t, v) else latest s j)" for j
    by (simp add: latest_unmark latest_put [OF Cons.prems(1)])
  have "latest (fold (\<lambda>(k, v) s. unmark (put s k v t) k i) ws ?s) k' =
    (case map_of ws k' of None \<Rightarrow> latest ?s k' | Some v \<Rightarrow> Some (t, v))"
  proof (rule Cons.IH)
    show "invar ?s" using Cons.prems(1) by (simp add: invar_put invar_unmark)
    show "distinct (map fst ws)" using Cons.prems(2) by simp
    show "w < t" if j: "j \<in> fst ` set ws" "latest ?s j = Some (w, u)" for j w u
    proof -
      have "j \<noteq> k" using j(1) Cons.prems(2) p by auto
      with j have "latest s j = Some (w, u)" by (simp add: new)
      with j(1) show ?thesis using Cons.prems(3) [of j w u] by simp
    qed
  qed
  moreover have "map_of ws k = None"
    using Cons.prems(2) p by (simp add: map_of_eq_None_iff)
  ultimately show ?case
    by (auto simp: p new split: option.splits)
qed

end

interpretation vkv: mvstore vs_get vs_get_at vs_put vs_commit vs_wf
proof unfold_locales
  fix s k v t and k' :: string
  assume "vs_wf s" and "\<And>w. w \<in> fst ` set_option (vs_get s k) \<Longrightarrow> w < t"
  then have "\<forall>w \<in> fst ` set (vs_at s k). w < t"
    using ascending_last_max [of "vs_at s k"]
    by (fastforce simp: vs_get_eq vs_wf_def split: if_splits)
  then show "vs_get (vs_put s k v t) k' = (if k' = k then Some (t, v) else vs_get s k')"
    by (simp add: vs_get_eq vset_insert_newest)
next
  fix s u t k v k'
  assume "vs_wf s" and "u < (t :: Timestamp)"
  then show "vs_get_at (vs_put s k v t) k' u = vs_get_at s k' u"
    by (simp add: vs_get_at_eq vs_wf_def ascending_vset_insert filter_vset_insert_above)
qed (simp_all add: vs_wf_put vs_get_eq fun_eq_iff vs_get_at_def getValue_def inStore_iff
    split: option.split)

section \<open>Committing and pre-committing a write set\<close>

lemma commit_writes_inStore: "inStore s k \<Longrightarrow> inStore (commit_writes i t ws s) k"
  unfolding commit_writes_def
  by (induction ws arbitrary: s) (simp_all add: inStore_iff case_prod_unfold)

lemma precommit_writes_vs_at [simp]: "vs_at (precommit_writes i ws s) = vs_at s"
  unfolding precommit_writes_def by (induction ws arbitrary: s) auto

lemma precommit_writes_store [simp]:
  "vs_wf (precommit_writes i ws s) = vs_wf s" "inStore (precommit_writes i ws s) = inStore s"
  "vs_get (precommit_writes i ws s) = vs_get s" "vs_get_at (precommit_writes i ws s) = vs_get_at s"
  by (simp_all add: vs_wf_def inStore_iff fun_eq_iff vs_get_eq vs_get_at_def getValue_def
      split: option.split)

lemma commit_writes_wf [inv_intro]: "vs_wf s \<Longrightarrow> vs_wf (commit_writes i t ws s)"
  unfolding commit_writes_def by (rule vkv.install_invar)

section \<open>Properties\<close>

text \<open>A timestamped read returns the newest version at or below the requested timestamp: the
  result is a stored version, not newer than \<open>t\<close>, and no other stored version lies between; and the
  read fails only when every version is newer than \<open>t\<close>.\<close>

lemma vs_get_at_newest:
  assumes "vs_wf s"
  shows "case vs_get_at s k t of
      Some x \<Rightarrow> x \<in> set (vs_at s k) \<and> fst x \<le> t \<and> (\<forall>y \<in> set (vs_at s k). fst y \<le> t \<longrightarrow> fst y \<le> fst x)
    | None \<Rightarrow> \<forall>y \<in> set (vs_at s k). t < fst y"
proof -
  have asc: "ascending (vs_at s k)" using assms by (simp add: vs_wf_def)
  let ?old = "filter (\<lambda>v. fst v \<le> t) (vs_at s k)"
  have old: "ascending ?old" using asc by (simp add: sorted_wrt_map sorted_wrt_filter)
  show ?thesis
  proof (cases "?old = []")
    case True
    then show ?thesis by (simp add: vs_get_at_eq [OF asc] filter_empty_conv not_le)
  next
    case False
    then have "last ?old \<in> set ?old" by (rule last_in_set)
    with False show ?thesis
      using ascending_last_max [OF old] by (auto simp: vs_get_at_eq [OF asc] Let_def)
  qed
qed

definition demo_store :: VersionedKVStore where
  "demo_store = vs_put (vs_put VersionedKVStore_new ''k'' ''a'' (Timestamp_of 3)) ''k'' ''b'' (Timestamp_of 7)"

lemma demo_store_wf: "vs_wf demo_store"
  by (simp add: demo_store_def vs_wf_put)

text \<open>C11. Committing a write set at a timestamp newer than the latest version of every written key
  makes exactly those values the latest ones, at that timestamp, and leaves the latest version of
  every other key and every snapshot below the commit timestamp as they were.\<close>

theorem commit_writes_installs:
  assumes "vs_wf s" and "distinct (map fst ws)"
    and "\<And>k w v. k \<in> fst ` set ws \<Longrightarrow> vs_get s k = Some (w, v) \<Longrightarrow> w < t"
  shows "vs_get (commit_writes i t ws s) k =
      (case map_of ws k of None \<Rightarrow> vs_get s k | Some v \<Rightarrow> Some (t, v)) \<and>
    (u < t \<longrightarrow> vs_get_at (commit_writes i t ws s) k u = vs_get_at s k u)"
  unfolding commit_writes_def
  by (simp add: vkv.install_latest [OF assms(1,2)] assms(3) vkv.install_read_at [OF assms(1)])

theorem commit_writes_installs_witness:
  "vs_get (commit_writes 1 (Timestamp_of 9) [(''k'', ''c'')] demo_store) ''k'' =
     Some (Timestamp_of 9, ''c'') \<and>
   vs_get_at (commit_writes 1 (Timestamp_of 9) [(''k'', ''c'')] demo_store) ''k'' (Timestamp_of 8) =
     Some (Timestamp_of 7, ''b'')"
proof -
  have latest: "vs_get demo_store ''k'' = Some (Timestamp_of 7, ''b'')"
    and old: "vs_get_at demo_store ''k'' (Timestamp_of 8) = Some (Timestamp_of 7, ''b'')"
    by code_simp+
  have newer: "w < Timestamp_of 9"
    if "k \<in> fst ` set [(''k'', ''c'')]" "vs_get demo_store k = Some (w, v)" for k w v
    using that latest by (auto simp: Timestamp_of_def)
  show ?thesis
    using commit_writes_installs [of demo_store "[(''k'', ''c'')]" "Timestamp_of 9" 1 "''k''" "Timestamp_of 8"]
      demo_store_wf newer old
    by (simp add: Timestamp_of_def)
qed

text \<open>A write at a timestamp that the key already has a version for is lost: the version set
  is unchanged (\<^verbatim>\<open>std::set::insert\<close> keeps the old element).\<close>

lemma vs_put_same_timestamp_lost:
  assumes "vs_wf s" and "t \<in> fst ` set (vs_at s k)"
  shows "vs_get (vs_put s k v t) = vs_get s \<and> vs_get_at (vs_put s k v t) = vs_get_at s"
proof (rule vs_reads_cong)
  show "vs_at (vs_put s k v t) = vs_at s"
    using assms by (auto simp: fun_eq_iff vs_wf_def vset_insert_duplicate)
qed

end
