(* ===== verification/TxnStores.thy ===== *)
theory TxnStores
  imports VersionStore
begin

text \<open>
  The contract of src/store/common/backend/txnstore.h that the replicated server relies on,
  whichever concurrency control implements it: a store keeps the transactions it has promised to
  commit (\<^verbatim>\<open>prepared\<close>) and those that have left concurrency control early
  (\<^verbatim>\<open>precommitted\<close>), and no two prepared transactions conflict. The two implementations,
  \<^verbatim>\<open>OCCStore\<close> and \<^verbatim>\<open>LockStore\<close>, interpret the locale \<open>txn_store\<close>.
\<close>

abbreviation reads :: "Transaction \<Rightarrow> string set" where
  "reads t \<equiv> fst ` set (txn_readSet t)"

abbreviation writes :: "Transaction \<Rightarrow> string set" where
  "writes t \<equiv> fst ` set (txn_writeSet t)"

definition conflict_free :: "(u64 \<rightharpoonup> Transaction) \<Rightarrow> bool" where
  "conflict_free P \<longleftrightarrow>
     (\<forall>i j t u. P i = Some t \<longrightarrow> P j = Some u \<longrightarrow> i \<noteq> j \<longrightarrow> writes t \<inter> (reads u \<union> writes u) = {})"

lemma conflict_free_empty [simp]: "conflict_free Map.empty"
  by (simp add: conflict_free_def)

lemma conflict_free_remove: "conflict_free P \<Longrightarrow> conflict_free (P(i := None))"
  by (auto simp: conflict_free_def)

lemma conflict_freeD:
  "conflict_free P \<Longrightarrow> P i = Some t \<Longrightarrow> P j = Some u \<Longrightarrow> i \<noteq> j \<Longrightarrow> k \<in> writes t \<Longrightarrow>
   k \<notin> reads u \<and> k \<notin> writes u"
  unfolding conflict_free_def by blast

locale txn_store =
  fixes invar :: "'s \<Rightarrow> bool"
    and prepared precommitted :: "'s \<Rightarrow> u64 \<rightharpoonup> Transaction"
    and known :: "'s \<Rightarrow> string \<Rightarrow> bool"
    and prepare :: "'c \<Rightarrow> 's \<Rightarrow> u64 \<Rightarrow> Transaction \<Rightarrow> ub + int \<times> 's"
    and commit :: "'s \<Rightarrow> u64 \<Rightarrow> u64 \<Rightarrow> 's"
    and precommit abort :: "'s \<Rightarrow> u64 \<Rightarrow> 's"
  assumes prepare_total: "invar s \<Longrightarrow> (\<And>k. k \<in> reads t \<Longrightarrow> known s k) \<Longrightarrow>
      \<exists>r s'. prepare c s i t = Inr (r, s') \<and> invar s'"
    and prepare_prepared: "invar s \<Longrightarrow> prepare c s i t = Inr (r, s') \<Longrightarrow>
      prepared s' = (if r = REPLY_OK \<and> prepared s i = None then (prepared s)(i \<mapsto> t) else prepared s)"
    and commit_invar: "invar s \<Longrightarrow> invar (commit s i ts)"
    and precommit_invar: "invar s \<Longrightarrow> invar (precommit s i)"
    and abort_invar: "invar s \<Longrightarrow> invar (abort s i)"
    and invar_conflict_free: "invar s \<Longrightarrow> conflict_free (prepared s)"
    and commit_prepared: "prepared (commit s i ts) =
      (if precommitted s i = None then (prepared s)(i := None) else prepared s)"
    and commit_precommitted: "precommitted (commit s i ts) = (precommitted s)(i := None)"
    and abort_prepared: "prepared (abort s i) =
      (if precommitted s i = None then (prepared s)(i := None) else prepared s)"
    and abort_precommitted: "precommitted (abort s i) = (precommitted s)(i := None)"
    and precommit_prepared: "prepared (precommit s i) = (prepared s)(i := None)"
    and precommit_precommitted: "precommitted (precommit s i) =
      (precommitted s)(i \<mapsto> (case prepared s i of None \<Rightarrow> Transaction_default | Some t \<Rightarrow> t))"
    and commit_none: "prepared s i = None \<Longrightarrow> precommitted s i = None \<Longrightarrow> commit s i ts = s"
    and abort_none: "prepared s i = None \<Longrightarrow> precommitted s i = None \<Longrightarrow> abort s i = s"
begin

text \<open>A prepared transaction and every other prepared transaction touch disjoint keys.\<close>

lemma prepared_isolated:
  "invar s \<Longrightarrow> prepared s i = Some t \<Longrightarrow> prepared s j = Some u \<Longrightarrow> i \<noteq> j \<Longrightarrow>
   writes t \<inter> (reads u \<union> writes u) = {}"
  using invar_conflict_free by (simp add: conflict_free_def)

text \<open>A transaction is finished once: the second decision changes nothing.\<close>

lemma commit_once:
  "prepared s i = None \<or> precommitted s i = None \<Longrightarrow> commit (commit s i ts) i ts' = commit s i ts"
  by (rule commit_none) (auto simp: commit_prepared commit_precommitted)

lemma abort_once:
  "prepared s i = None \<or> precommitted s i = None \<Longrightarrow> abort (abort s i) i = abort s i"
  by (rule abort_none) (auto simp: abort_prepared abort_precommitted)

lemma commit_then_abort:
  "prepared s i = None \<or> precommitted s i = None \<Longrightarrow> abort (commit s i ts) i = commit s i ts"
  by (rule abort_none) (auto simp: commit_prepared commit_precommitted)

lemma precommit_then_commit:
  "prepared (commit (precommit s i) i ts) i = None \<and> precommitted (commit (precommit s i) i ts) i = None"
  by (simp add: commit_prepared commit_precommitted precommit_prepared precommit_precommitted)

end

end
