(* ===== verification/OCCStore.thy ===== *)
theory OCCStore
  imports TxnStores
begin

text \<open>
  src/store/strongstore/occstore.h and occstore.cc: optimistic concurrency control. A prepare
  validates the read set against the committed versions and both sets against the transactions
  already prepared; \<^verbatim>\<open>PreCommit\<close> (the early end of concurrency control in D2PC) moves a
  transaction from \<^verbatim>\<open>prepared\<close> to \<^verbatim>\<open>precommitted\<close> and marks the keys it writes.
\<close>

record OCCStore =
  occ_store :: VersionedKVStore
  occ_prepared :: "(u64 \<times> Transaction) list"
  occ_precommitted :: "(u64 \<times> Transaction) list"

definition OCCStore_new :: OCCStore where
  "OCCStore_new = \<lparr>occ_store = VersionedKVStore_new, occ_prepared = [], occ_precommitted = []\<rparr>"

definition OCC_Get :: "OCCStore \<Rightarrow> u64 \<Rightarrow> string \<Rightarrow> Timestamp \<times> string \<Rightarrow> int \<times> (Timestamp \<times> string)" where
  "OCC_Get s i key val =
     (case vs_get (occ_store s) key of Some v \<Rightarrow> (REPLY_OK, v) | None \<Rightarrow> (REPLY_FAIL, val))"

definition OCC_Get_at ::
  "OCCStore \<Rightarrow> u64 \<Rightarrow> string \<Rightarrow> Timestamp \<Rightarrow> Timestamp \<times> string \<Rightarrow> int \<times> (Timestamp \<times> string)" where
  "OCC_Get_at s i key ts val =
     (case vs_get_at (occ_store s) key ts of Some v \<Rightarrow> (REPLY_OK, v) | None \<Rightarrow> (REPLY_FAIL, val))"

definition OCC_Get_dep :: "OCCStore \<Rightarrow> u64 \<Rightarrow> string \<Rightarrow> Timestamp \<times> string \<Rightarrow> u64 \<Rightarrow>
    int \<times> (Timestamp \<times> string) \<times> u64" where
  "OCC_Get_dep s i key val dep =
     (case vs_get_dep (occ_store s) key val dep of
        (found, v, d) \<Rightarrow> (if found then REPLY_OK else REPLY_FAIL, v, d))"

text \<open>The timestamped read with a dependency argument does not touch the dependency.\<close>

definition OCC_Get_at_dep :: "OCCStore \<Rightarrow> u64 \<Rightarrow> string \<Rightarrow> Timestamp \<Rightarrow> Timestamp \<times> string \<Rightarrow> u64 \<Rightarrow>
    int \<times> (Timestamp \<times> string) \<times> u64" where
  "OCC_Get_at_dep s i key ts val dep =
     (case vs_get_at (occ_store s) key ts of
        Some v \<Rightarrow> (REPLY_OK, v, dep)
      | None \<Rightarrow> (REPLY_FAIL, val, dep))"

definition getPreparedWrites :: "OCCStore \<Rightarrow> string set" where
  "getPreparedWrites s = set (concat (map (\<lambda>(i, t). map fst (txn_writeSet t)) (occ_prepared s)))"

definition getPreparedReadWrites :: "OCCStore \<Rightarrow> string set" where
  "getPreparedReadWrites s =
     set (concat (map (\<lambda>(i, t). map fst (txn_writeSet t) @ map fst (txn_readSet t)) (occ_prepared s)))"

definition OCC_Abort :: "OCCStore \<Rightarrow> u64 \<Rightarrow> Transaction \<Rightarrow> OCCStore" where
  "OCC_Abort s i txn =
     (if map_of (occ_precommitted s) i \<noteq> None
      then s\<lparr>occ_precommitted := AList.delete i (occ_precommitted s)\<rparr>
      else if map_of (occ_prepared s) i \<noteq> None
      then s\<lparr>occ_prepared := AList.delete i (occ_prepared s)\<rparr>
      else s)"

text \<open>The two validation loops; \<open>False\<close> is the early return after \<^verbatim>\<open>Abort(id)\<close>.\<close>

primrec occ_check_reads :: "VersionedKVStore \<Rightarrow> string set \<Rightarrow> (string \<times> Timestamp) list \<Rightarrow> bool" where
  "occ_check_reads st pWrites [] = True"
| "occ_check_reads st pWrites (r # rs) =
     (case vs_get st (fst r) of
        None \<Rightarrow> occ_check_reads st pWrites rs
      | Some cur \<Rightarrow>
          if ts_gt (fst cur) (snd r) then False
          else if fst r \<in> pWrites then False
          else occ_check_reads st pWrites rs)"

primrec occ_check_writes :: "string set \<Rightarrow> (string \<times> string) list \<Rightarrow> bool" where
  "occ_check_writes pRW [] = True"
| "occ_check_writes pRW (w # ws) = (if fst w \<in> pRW then False else occ_check_writes pRW ws)"

definition OCC_Prepare :: "OCCStore \<Rightarrow> u64 \<Rightarrow> Transaction \<Rightarrow> bool \<Rightarrow> int \<times> OCCStore" where
  "OCC_Prepare s i txn do_check =
     (if map_of (occ_prepared s) i \<noteq> None then (REPLY_OK, s)
      else if do_check \<and>
        \<not> occ_check_reads (occ_store s) (getPreparedWrites s) (txn_readSet txn)
      then (REPLY_FAIL, OCC_Abort s i Transaction_default)
      else if do_check \<and> \<not> occ_check_writes (getPreparedReadWrites s) (txn_writeSet txn)
      then (REPLY_FAIL, OCC_Abort s i Transaction_default)
      else (REPLY_OK, s\<lparr>occ_prepared := smap_put i txn (occ_prepared s)\<rparr>))"

definition OCC_Commit :: "OCCStore \<Rightarrow> u64 \<Rightarrow> u64 \<Rightarrow> OCCStore" where
  "OCC_Commit s i timestamp =
     (case map_of (occ_precommitted s) i of
        Some txn \<Rightarrow>
          s\<lparr>occ_store := commit_writes i (Timestamp_of timestamp) (txn_writeSet txn) (occ_store s),
            occ_precommitted := AList.delete i (occ_precommitted s)\<rparr>
      | None \<Rightarrow>
          (case map_of (occ_prepared s) i of
             Some txn \<Rightarrow>
               s\<lparr>occ_store := commit_writes i (Timestamp_of timestamp) (txn_writeSet txn) (occ_store s),
                 occ_prepared := AList.delete i (occ_prepared s)\<rparr>
           | None \<Rightarrow> s))"

text \<open>
  \<^verbatim>\<open>prepared[id]\<close> creates a default transaction when \<open>i\<close> is not prepared: the assertion in
  front of it is compiled out.
\<close>

definition OCC_PreCommit :: "OCCStore \<Rightarrow> u64 \<Rightarrow> OCCStore" where
  "OCC_PreCommit s i =
     (let txn = (case map_of (occ_prepared s) i of None \<Rightarrow> Transaction_default | Some t \<Rightarrow> t) in
      s\<lparr>occ_store := precommit_writes i (txn_writeSet txn) (occ_store s),
        occ_prepared := AList.delete i (occ_prepared s),
        occ_precommitted := smap_put i txn (occ_precommitted s)\<rparr>)"

definition OCC_Load :: "OCCStore \<Rightarrow> string \<Rightarrow> string \<Rightarrow> Timestamp \<Rightarrow> OCCStore" where
  "OCC_Load s key val ts = s\<lparr>occ_store := vs_put (occ_store s) key val ts\<rparr>"

section \<open>Validation\<close>

text \<open>What a prepare checks, stated without loops.\<close>

definition occ_valid :: "OCCStore \<Rightarrow> Transaction \<Rightarrow> bool" where
  "occ_valid s t \<longleftrightarrow>
     (\<forall>(k, ts) \<in> set (txn_readSet t). \<forall>w v. vs_get (occ_store s) k = Some (w, v) \<longrightarrow>
        w \<le> ts \<and> (\<forall>(j, u) \<in> set (occ_prepared s). k \<notin> writes u)) \<and>
     (\<forall>k \<in> writes t. \<forall>(j, u) \<in> set (occ_prepared s). k \<notin> reads u \<and> k \<notin> writes u)"

lemma occ_valid_read:
  assumes "occ_valid s t" "(k, ts) \<in> set (txn_readSet t)" "vs_get (occ_store s) k = Some (w, v)"
  shows "w \<le> ts" and "(j, u) \<in> set (occ_prepared s) \<Longrightarrow> k \<notin> writes u"
proof -
  have "w \<le> ts \<and> (\<forall>(j, u) \<in> set (occ_prepared s). k \<notin> writes u)"
    using assms(1) [unfolded occ_valid_def, THEN conjunct1, THEN bspec, OF assms(2)] assms(3) by simp
  then show "w \<le> ts" and "(j, u) \<in> set (occ_prepared s) \<Longrightarrow> k \<notin> writes u" by auto
qed

lemma occ_valid_write:
  assumes "occ_valid s t" "k \<in> writes t" "(j, u) \<in> set (occ_prepared s)"
  shows "k \<notin> reads u \<and> k \<notin> writes u"
  using assms(1) [unfolded occ_valid_def, THEN conjunct2, THEN bspec, OF assms(2), THEN bspec, OF assms(3)]
  by simp

lemma getPreparedWrites_iff:
  "k \<in> getPreparedWrites s \<longleftrightarrow> (\<exists>(j, u) \<in> set (occ_prepared s). k \<in> writes u)"
  by (force simp: getPreparedWrites_def)

lemma getPreparedReadWrites_iff:
  "k \<in> getPreparedReadWrites s \<longleftrightarrow> (\<exists>(j, u) \<in> set (occ_prepared s). k \<in> reads u \<or> k \<in> writes u)"
  by (force simp: getPreparedReadWrites_def)

lemma occ_check_reads_iff:
  "occ_check_reads st pW rs \<longleftrightarrow>
   (\<forall>(k, ts) \<in> set rs. \<forall>w v. vs_get st k = Some (w, v) \<longrightarrow> w \<le> ts \<and> k \<notin> pW)"
  by (induction rs) (auto simp: ts_gt_iff not_less split: option.splits)

lemma occ_check_writes_iff: "occ_check_writes pRW ws \<longleftrightarrow> (\<forall>k \<in> fst ` set ws. k \<notin> pRW)"
  by (induction ws) auto

lemma occ_checks_valid:
  "occ_check_reads (occ_store s) (getPreparedWrites s) (txn_readSet t) \<and>
   occ_check_writes (getPreparedReadWrites s) (txn_writeSet t) \<longleftrightarrow> occ_valid s t"
  by (auto simp: occ_valid_def occ_check_reads_iff occ_check_writes_iff getPreparedWrites_iff
      getPreparedReadWrites_iff split: prod.splits)

lemma OCC_Prepare_eq:
  "OCC_Prepare s i t True =
     (if map_of (occ_prepared s) i \<noteq> None then (REPLY_OK, s)
      else if occ_valid s t then (REPLY_OK, s\<lparr>occ_prepared := smap_put i t (occ_prepared s)\<rparr>)
      else (REPLY_FAIL, OCC_Abort s i Transaction_default))"
  unfolding OCC_Prepare_def occ_checks_valid [symmetric] by auto


section \<open>Invariant\<close>

text \<open>
  A read key stays in the store: versions are never removed. Hence a prepared reader is protected
  by the pending-write check, which the code runs only for keys it finds.
\<close>

definition occ_inv :: "OCCStore \<Rightarrow> bool" where
  "occ_inv s \<longleftrightarrow> vs_wf (occ_store s) \<and> ascending (occ_prepared s) \<and> ascending (occ_precommitted s) \<and>
     conflict_free (map_of (occ_prepared s)) \<and>
     (\<forall>i t k. map_of (occ_prepared s) i = Some t \<longrightarrow> k \<in> reads t \<longrightarrow> inStore (occ_store s) k)"

lemma map_of_ascending: "ascending m \<Longrightarrow> (k, v) \<in> set m \<longleftrightarrow> map_of m k = Some v"
  by (simp add: ascending_distinct)

lemma occ_inv_new [simp]: "occ_inv OCCStore_new"
  by (simp add: occ_inv_def OCCStore_new_def)

lemma occ_inv_Abort [inv_intro]: "occ_inv s \<Longrightarrow> occ_inv (OCC_Abort s i t)"
  unfolding occ_inv_def OCC_Abort_def
  by (simp add: ascending_delete conflict_free_remove)

lemma occ_inv_Commit [inv_intro]: "occ_inv s \<Longrightarrow> occ_inv (OCC_Commit s i ts)"
  unfolding occ_inv_def OCC_Commit_def
  by (simp add: ascending_delete conflict_free_remove commit_writes_wf commit_writes_inStore
      split: option.split)

lemma occ_inv_PreCommit [inv_intro]: "occ_inv s \<Longrightarrow> occ_inv (OCC_PreCommit s i)"
  unfolding occ_inv_def OCC_PreCommit_def
  by (simp add: ascending_delete ascending_smap_put conflict_free_remove Let_def)

lemma occ_inv_Load [inv_intro]: "occ_inv s \<Longrightarrow> occ_inv (OCC_Load s k v ts)"
  unfolding occ_inv_def OCC_Load_def
  by (simp add: vs_wf_put inStore_iff)

lemma occ_valid_conflict_free:
  assumes "occ_inv s" and "occ_valid s t" and "\<And>k. k \<in> reads t \<Longrightarrow> inStore (occ_store s) k"
  shows "conflict_free ((map_of (occ_prepared s))(i \<mapsto> t))"
proof -
  have asc: "ascending (occ_prepared s)" using assms(1) by (simp add: occ_inv_def)
  have new: "writes t \<inter> (reads u \<union> writes u) = {} \<and> writes u \<inter> (reads t \<union> writes t) = {}"
    if "map_of (occ_prepared s) j = Some u" for j u
  proof -
    have ju: "(j, u) \<in> set (occ_prepared s)" using that by (simp add: map_of_ascending asc)
    have r: "k \<notin> writes u" if k: "k \<in> reads t" for k
    proof -
      obtain x where x: "(k, x) \<in> set (txn_readSet t)" using k by auto
      have "vs_get (occ_store s) k \<noteq> None"
        using assms(3) [OF k] by (simp add: vs_get_def)
      then obtain w v where "vs_get (occ_store s) k = Some (w, v)" by auto
      from occ_valid_read(2) [OF assms(2) x this ju] show ?thesis .
    qed
    have "k \<notin> reads u \<and> k \<notin> writes u" if "k \<in> writes t" for k
      using occ_valid_write [OF assms(2) that ju] .
    with r show ?thesis unfolding disjoint_iff Un_iff by metis
  qed
  moreover have "conflict_free (map_of (occ_prepared s))" using assms(1) by (simp add: occ_inv_def)
  ultimately show ?thesis by (simp add: conflict_free_def)
qed

lemma occ_inv_Prepare [inv_intro]:
  assumes "occ_inv s" and "\<And>k. k \<in> reads t \<Longrightarrow> inStore (occ_store s) k"
  shows "occ_inv (snd (OCC_Prepare s i t True))"
proof (cases "map_of (occ_prepared s) i = None \<and> occ_valid s t")
  case True
  have "occ_inv (s\<lparr>occ_prepared := smap_put i t (occ_prepared s)\<rparr>)"
    unfolding occ_inv_def
  proof (intro conjI)
    show "conflict_free (map_of (occ_prepared (s\<lparr>occ_prepared := smap_put i t (occ_prepared s)\<rparr>)))"
      using occ_valid_conflict_free [OF assms(1) _ assms(2)] True by simp
    show "\<forall>j u k. map_of (occ_prepared (s\<lparr>occ_prepared := smap_put i t (occ_prepared s)\<rparr>)) j = Some u \<longrightarrow>
        k \<in> reads u \<longrightarrow> inStore (occ_store (s\<lparr>occ_prepared := smap_put i t (occ_prepared s)\<rparr>)) k"
      using assms unfolding occ_inv_def by simp
  qed (use assms(1) in \<open>simp_all add: occ_inv_def ascending_smap_put\<close>)
  with True show ?thesis by (simp add: OCC_Prepare_eq)
next
  case False
  with assms(1) show ?thesis by (auto simp: OCC_Prepare_eq occ_inv_Abort)
qed

interpretation occ: txn_store occ_inv "\<lambda>s. map_of (occ_prepared s)" "\<lambda>s. map_of (occ_precommitted s)"
  "\<lambda>s. inStore (occ_store s)" "\<lambda>c s i t. Inr (OCC_Prepare s i t True)" OCC_Commit OCC_PreCommit
  "\<lambda>s i. OCC_Abort s i Transaction_default"
proof unfold_locales
  fix s i t r s' and c :: unit
  assume "occ_inv s"
  show "\<exists>r s'. Inr (OCC_Prepare s i t True) = Inr (r, s') \<and> occ_inv s'"
    if "\<And>k. k \<in> reads t \<Longrightarrow> inStore (occ_store s) k"
    using occ_inv_Prepare [OF \<open>occ_inv s\<close>, of t i] that by (cases "OCC_Prepare s i t True") auto
  show "map_of (occ_prepared s') = (if r = REPLY_OK \<and> map_of (occ_prepared s) i = None
      then (map_of (occ_prepared s))(i \<mapsto> t) else map_of (occ_prepared s))"
    if "Inr (OCC_Prepare s i t True) = Inr (r, s')"
    using that by (auto simp: OCC_Prepare_eq OCC_Abort_def split: if_splits)
qed (auto simp only: occ_inv_Commit occ_inv_PreCommit occ_inv_Abort occ_inv_def [THEN iffD1],
    auto simp: OCC_Commit_def OCC_PreCommit_def OCC_Abort_def Let_def fun_upd_idem
      split: option.split)

section \<open>Properties\<close>

text \<open>C12. A checked prepare does exactly optimistic validation: it accepts a transaction that is
  not yet prepared if and only if no read key found in the store has a committed version newer than
  the one read or a pending prepared writer, and no written key is read or written by a prepared
  transaction; it then records the transaction and changes nothing else, and otherwise answers
  \<^verbatim>\<open>REPLY_FAIL\<close> and aborts. The order in which the sets are visited does not matter.\<close>

theorem occ_prepare_exact:
  "OCC_Prepare s i t True =
     (if map_of (occ_prepared s) i \<noteq> None then (REPLY_OK, s)
      else if occ_valid s t then (REPLY_OK, s\<lparr>occ_prepared := smap_put i t (occ_prepared s)\<rparr>)
      else (REPLY_FAIL, OCC_Abort s i Transaction_default))"
  by (rule OCC_Prepare_eq)

end
