(* ===== verification/LockServer.thy ===== *)
theory LockServer
  imports D2PC_Prelude
begin

text \<open>
  src/store/common/backend/lockserver.h and lockserver.cc: a multi-reader single-writer lock
  table with a FIFO wait queue per lock. \<^verbatim>\<open>gettimeofday\<close> is an input: every operation takes
  the clock value its queue pruning reads (\<open>now\<close>) and the one a new \<^verbatim>\<open>Waiter\<close> is stamped with
  (\<open>stamp\<close>). \<^verbatim>\<open>waiters[w]\<close> on a transaction without an entry default-constructs a waiter whose
  time has no value; reading that time is \<open>UninitRead\<close>.
\<close>

definition LOCK_WAIT_TIMEOUT :: int where
  "LOCK_WAIT_TIMEOUT = 5000"

datatype LockState = UNLOCKED | LOCKED_FOR_READ | LOCKED_FOR_WRITE | LOCKED_FOR_READ_WRITE

record timeval =
  tv_sec :: int
  tv_usec :: int

record Waiter =
  wt_write :: bool
  wt_waitTime :: timeval

record Lock =
  lk_state :: LockState
  lk_holders :: "u64 set"
  lk_waitQ :: "u64 list"
  lk_waiters :: "u64 \<rightharpoonup> Waiter"

record LockServer =
  ls_locks :: "string \<rightharpoonup> Lock"
  ls_readers :: u64
  ls_writers :: u64

definition Lock_new :: Lock where
  "Lock_new = \<lparr>lk_state = UNLOCKED, lk_holders = {}, lk_waitQ = [], lk_waiters = Map.empty\<rparr>"

definition LockServer_new :: LockServer where
  "LockServer_new = \<lparr>ls_locks = Map.empty, ls_readers = 0, ls_writers = 0\<rparr>"

definition checkTimeout :: "Waiter \<Rightarrow> timeval \<Rightarrow> bool" where
  "checkTimeout w now =
     (if tv_sec now > tv_sec (wt_waitTime w) then True
      else tv_usec now - tv_usec (wt_waitTime w) > LOCK_WAIT_TIMEOUT)"

definition waitForLock :: "Lock \<Rightarrow> u64 \<Rightarrow> bool \<Rightarrow> timeval \<Rightarrow> Lock" where
  "waitForLock l requester write stamp =
     (if lk_waiters l requester \<noteq> None then l
      else l\<lparr>lk_waiters := (lk_waiters l)(requester \<mapsto> \<lparr>wt_write = write, wt_waitTime = stamp\<rparr>),
             lk_waitQ := lk_waitQ l @ [requester]\<rparr>)"

text \<open>
  The loop shared by \<^verbatim>\<open>tryAcquireLock\<close> and \<^verbatim>\<open>isWriteNext\<close>: drop the front of the queue
  while its waiter has timed out. It stops at the first live waiter or at the empty queue.
\<close>

fun prune :: "timeval \<Rightarrow> u64 list \<Rightarrow> (u64 \<rightharpoonup> Waiter) \<Rightarrow> ub + u64 list \<times> (u64 \<rightharpoonup> Waiter)" where
  "prune now [] ws = Inr ([], ws)"
| "prune now (w # q) ws =
     (case ws w of
        None \<Rightarrow> Inl UninitRead
      | Some x \<Rightarrow> if checkTimeout x now then prune now q (ws(w := None)) else Inr (w # q, ws))"

definition pruneLock :: "Lock \<Rightarrow> timeval \<Rightarrow> ub + Lock" where
  "pruneLock l now =
     (case prune now (lk_waitQ l) (lk_waiters l) of
        Inl e \<Rightarrow> Inl e
      | Inr (q, ws) \<Rightarrow> Inr (l\<lparr>lk_waitQ := q, lk_waiters := ws\<rparr>))"

definition tryAcquireLock ::
  "Lock \<Rightarrow> u64 \<Rightarrow> bool \<Rightarrow> timeval \<Rightarrow> timeval \<Rightarrow> ub + bool \<times> Lock" where
  "tryAcquireLock l requester write now stamp =
     (if length (lk_waitQ l) = 0 then Inr (True, l)
      else case pruneLock l now of
             Inl e \<Rightarrow> Inl e
           | Inr l1 \<Rightarrow>
               (case lk_waitQ l1 of
                  [] \<Rightarrow> Inr (True, l1)
                | w # q \<Rightarrow>
                    if w = requester
                    then Inr (True, l1\<lparr>lk_waitQ := q, lk_waiters := (lk_waiters l1)(requester := None)\<rparr>)
                    else Inr (False, waitForLock l1 requester write stamp)))"

definition isWriteNext :: "Lock \<Rightarrow> timeval \<Rightarrow> ub + bool \<times> Lock" where
  "isWriteNext l now =
     (if length (lk_waitQ l) = 0 then Inr (False, l)
      else case pruneLock l now of
             Inl e \<Rightarrow> Inl e
           | Inr l1 \<Rightarrow>
               (case lk_waitQ l1 of
                  [] \<Rightarrow> Inr (False, l1)
                | w # q \<Rightarrow>
                    (case lk_waiters l1 w of
                       None \<Rightarrow> Inl UninitRead
                     | Some x \<Rightarrow> Inr (wt_write x, l1))))"

text \<open>\<^verbatim>\<open>locks[lock]\<close> creates a fresh lock for an unknown name.\<close>

definition lock_at :: "LockServer \<Rightarrow> string \<Rightarrow> Lock" where
  "lock_at s name = (case ls_locks s name of None \<Rightarrow> Lock_new | Some l \<Rightarrow> l)"

definition set_lock :: "LockServer \<Rightarrow> string \<Rightarrow> Lock \<Rightarrow> LockServer" where
  "set_lock s name l = s\<lparr>ls_locks := (ls_locks s)(name \<mapsto> l)\<rparr>"

definition lockForRead ::
  "LockServer \<Rightarrow> string \<Rightarrow> u64 \<Rightarrow> timeval \<Rightarrow> timeval \<Rightarrow> ub + bool \<times> LockServer" where
  "lockForRead s name requester now stamp =
     (let l = lock_at s name in
      case lk_state l of
        UNLOCKED \<Rightarrow>
          (case tryAcquireLock l requester False now stamp of
             Inl e \<Rightarrow> Inl e
           | Inr (True, l1) \<Rightarrow>
               Inr (True, (set_lock s name
                 (l1\<lparr>lk_state := LOCKED_FOR_READ, lk_holders := insert requester (lk_holders l1)\<rparr>))
                   \<lparr>ls_readers := ls_readers s + 1\<rparr>)
           | Inr (False, l1) \<Rightarrow> Inr (False, set_lock s name l1))
      | LOCKED_FOR_READ \<Rightarrow>
          if requester \<in> lk_holders l then Inr (True, set_lock s name l)
          else (case isWriteNext l now of
                  Inl e \<Rightarrow> Inl e
                | Inr (True, l1) \<Rightarrow>
                    Inr (False, set_lock s name (waitForLock l1 requester False stamp))
                | Inr (False, l1) \<Rightarrow>
                    Inr (True, (set_lock s name
                      (l1\<lparr>lk_holders := insert requester (lk_holders l1)\<rparr>))
                        \<lparr>ls_readers := ls_readers s + 1\<rparr>))
      | _ \<Rightarrow>
          if requester \<in> lk_holders l
          then Inr (True, (set_lock s name (l\<lparr>lk_state := LOCKED_FOR_READ_WRITE\<rparr>))
                 \<lparr>ls_readers := ls_readers s + 1\<rparr>)
          else Inr (False, set_lock s name (waitForLock l requester False stamp)))"

definition lockForWrite ::
  "LockServer \<Rightarrow> string \<Rightarrow> u64 \<Rightarrow> timeval \<Rightarrow> timeval \<Rightarrow> ub + bool \<times> LockServer" where
  "lockForWrite s name requester now stamp =
     (let l = lock_at s name in
      case lk_state l of
        UNLOCKED \<Rightarrow>
          (case tryAcquireLock l requester True now stamp of
             Inl e \<Rightarrow> Inl e
           | Inr (True, l1) \<Rightarrow>
               Inr (True, (set_lock s name
                 (l1\<lparr>lk_state := LOCKED_FOR_WRITE, lk_holders := insert requester (lk_holders l1)\<rparr>))
                   \<lparr>ls_writers := ls_writers s + 1\<rparr>)
           | Inr (False, l1) \<Rightarrow> Inr (False, set_lock s name l1))
      | LOCKED_FOR_READ \<Rightarrow>
          if card (lk_holders l) = 1 \<and> requester \<in> lk_holders l
          then Inr (True, (set_lock s name (l\<lparr>lk_state := LOCKED_FOR_READ_WRITE\<rparr>))
                 \<lparr>ls_writers := ls_writers s + 1\<rparr>)
          else Inr (False, set_lock s name (waitForLock l requester True stamp))
      | _ \<Rightarrow>
          if requester \<in> lk_holders l then Inr (True, set_lock s name l)
          else Inr (False, set_lock s name (waitForLock l requester True stamp)))"

definition releaseForRead :: "LockServer \<Rightarrow> string \<Rightarrow> u64 \<Rightarrow> LockServer" where
  "releaseForRead s name holder =
     (case ls_locks s name of
        None \<Rightarrow> s
      | Some l \<Rightarrow>
          if holder \<notin> lk_holders l then s
          else (case lk_state l of
                  UNLOCKED \<Rightarrow> s
                | LOCKED_FOR_WRITE \<Rightarrow> s
                | LOCKED_FOR_READ \<Rightarrow>
                    (let hs = lk_holders l - {holder} in
                     (set_lock s name
                       (l\<lparr>lk_holders := hs, lk_state := (if hs = {} then UNLOCKED else LOCKED_FOR_READ)\<rparr>))
                         \<lparr>ls_readers := ls_readers s - 1\<rparr>)
                | LOCKED_FOR_READ_WRITE \<Rightarrow>
                    (set_lock s name (l\<lparr>lk_state := LOCKED_FOR_WRITE\<rparr>))
                      \<lparr>ls_readers := ls_readers s - 1\<rparr>))"

definition releaseForWrite :: "LockServer \<Rightarrow> string \<Rightarrow> u64 \<Rightarrow> LockServer" where
  "releaseForWrite s name holder =
     (case ls_locks s name of
        None \<Rightarrow> s
      | Some l \<Rightarrow>
          if holder \<notin> lk_holders l then s
          else (case lk_state l of
                  UNLOCKED \<Rightarrow> s
                | LOCKED_FOR_READ \<Rightarrow> s
                | LOCKED_FOR_WRITE \<Rightarrow>
                    (set_lock s name
                      (l\<lparr>lk_holders := lk_holders l - {holder}, lk_state := UNLOCKED\<rparr>))
                        \<lparr>ls_writers := ls_writers s - 1\<rparr>
                | LOCKED_FOR_READ_WRITE \<Rightarrow>
                    (set_lock s name (l\<lparr>lk_state := LOCKED_FOR_READ\<rparr>))
                      \<lparr>ls_writers := ls_writers s - 1\<rparr>))"

section \<open>Specification: a reader-writer lock\<close>

text \<open>
  What a lock promises, without queues, clocks or counters: a set of readers and at most one
  writer. A read lock may be granted when no other transaction writes, a write lock when no
  other transaction reads or writes.
\<close>

type_synonym rwlock = "u64 set \<times> u64 option"

definition may_read :: "rwlock \<Rightarrow> u64 \<Rightarrow> bool" where
  "may_read L r \<longleftrightarrow> snd L \<in> {None, Some r}"

definition may_write :: "rwlock \<Rightarrow> u64 \<Rightarrow> bool" where
  "may_write L r \<longleftrightarrow> fst L \<subseteq> {r} \<and> snd L \<in> {None, Some r}"

definition lock_abs :: "Lock \<Rightarrow> rwlock" where
  "lock_abs l = (case lk_state l of
     UNLOCKED \<Rightarrow> ({}, None)
   | LOCKED_FOR_READ \<Rightarrow> (lk_holders l, None)
   | LOCKED_FOR_WRITE \<Rightarrow> ({}, Some (the_elem (lk_holders l)))
   | LOCKED_FOR_READ_WRITE \<Rightarrow> (lk_holders l, Some (the_elem (lk_holders l))))"

definition ls_abs :: "LockServer \<Rightarrow> string \<Rightarrow> rwlock" where
  "ls_abs s name = lock_abs (lock_at s name)"

definition lock_wf :: "Lock \<Rightarrow> bool" where
  "lock_wf l \<longleftrightarrow> distinct (lk_waitQ l) \<and> set (lk_waitQ l) = dom (lk_waiters l) \<and>
     (case lk_state l of
        UNLOCKED \<Rightarrow> lk_holders l = {}
      | LOCKED_FOR_READ \<Rightarrow> lk_holders l \<noteq> {}
      | _ \<Rightarrow> \<exists>h. lk_holders l = {h})"

definition ls_wf :: "LockServer \<Rightarrow> bool" where
  "ls_wf s \<longleftrightarrow> (\<forall>name. lock_wf (lock_at s name))"

section \<open>Queue operations\<close>

lemma lock_at_set_lock [simp]:
  "lock_at (set_lock s name l) n = (if n = name then l else lock_at s n)"
  by (simp add: lock_at_def set_lock_def)

lemma lock_at_counters [simp]:
  "lock_at (s\<lparr>ls_readers := r\<rparr>) = lock_at s" "lock_at (s\<lparr>ls_writers := w\<rparr>) = lock_at s"
  by (simp_all add: lock_at_def fun_eq_iff)

lemma lock_wf_new [simp]: "lock_wf Lock_new"
  by (simp add: lock_wf_def Lock_new_def)

text \<open>Pruning removes exactly the maximal prefix of timed-out waiters.\<close>

lemma prune_eq:
  "distinct q \<Longrightarrow> set q \<subseteq> dom ws \<Longrightarrow>
   prune now q ws =
     Inr (dropWhile (\<lambda>w. checkTimeout (the (ws w)) now) q,
          ws |` (- set (takeWhile (\<lambda>w. checkTimeout (the (ws w)) now) q)))"
proof (induction now q ws rule: prune.induct)
  case (1 now ws)
  then show ?case by (simp add: restrict_map_def)
next
  case (2 now w q ws)
  then obtain x where x: "ws w = Some x" by auto
  show ?case
  proof (cases "checkTimeout x now")
    case True
    let ?ws = "ws(w := None)"
    have w: "w \<notin> set q" using "2.prems" by simp
    have same: "dropWhile (\<lambda>v. checkTimeout (the (?ws v)) now) q =
        dropWhile (\<lambda>v. checkTimeout (the (ws v)) now) q"
      "takeWhile (\<lambda>v. checkTimeout (the (?ws v)) now) q =
        takeWhile (\<lambda>v. checkTimeout (the (ws v)) now) q"
      using w by (auto intro!: dropWhile_cong takeWhile_cong)
    have "set q \<subseteq> dom ?ws" using "2.prems" w by auto
    with "2.prems"(1) have "prune now q ?ws = Inr (dropWhile (\<lambda>v. checkTimeout (the (?ws v)) now) q,
        ?ws |` (- set (takeWhile (\<lambda>v. checkTimeout (the (?ws v)) now) q)))"
      by (intro "2.IH" [OF x True]) (auto simp: dom_def)
    moreover have "?ws |` (- A) = ws |` (- insert w A)" for A
      by (auto simp: restrict_map_def fun_eq_iff)
    ultimately show ?thesis unfolding same using x True by simp
  next
    case False
    with x show ?thesis by (simp add: restrict_map_def)
  qed
qed

lemma prune_wf:
  assumes "distinct q" and "set q = dom ws"
  shows "\<exists>q' ws'. prune now q ws = Inr (q', ws') \<and> distinct q' \<and> set q' = dom ws'"
proof -
  let ?P = "\<lambda>w. checkTimeout (the (ws w)) now"
  have "distinct (takeWhile ?P q @ dropWhile ?P q)" using assms(1) by simp
  then have disj: "distinct (dropWhile ?P q)"
    "set (takeWhile ?P q) \<inter> set (dropWhile ?P q) = {}"
    unfolding distinct_append by simp_all
  have "set q = set (takeWhile ?P q) \<union> set (dropWhile ?P q)"
    by (metis set_append takeWhile_dropWhile_id)
  with disj assms show ?thesis
    by (auto simp: prune_eq)
qed

lemma pruneLock_wf:
  assumes "lock_wf l"
  obtains q ws where "pruneLock l now = Inr (l\<lparr>lk_waitQ := q, lk_waiters := ws\<rparr>)"
    and "distinct q" and "set q = dom ws"
  using prune_wf [of "lk_waitQ l" "lk_waiters l" now] assms
  by (auto simp: lock_wf_def pruneLock_def)

text \<open>Queue operations touch neither the holders nor the state of a lock.\<close>

definition queue_step :: "Lock \<Rightarrow> Lock \<Rightarrow> bool" where
  "queue_step l l' \<longleftrightarrow> lk_state l' = lk_state l \<and> lk_holders l' = lk_holders l \<and>
     distinct (lk_waitQ l') \<and> set (lk_waitQ l') = dom (lk_waiters l')"

lemma queue_step_wf: "lock_wf l \<Longrightarrow> queue_step l l' \<Longrightarrow> lock_wf l'"
  by (auto simp: lock_wf_def queue_step_def split: LockState.splits)

lemma queue_step_abs: "queue_step l l' \<Longrightarrow> lock_abs l' = lock_abs l"
  by (auto simp: lock_abs_def queue_step_def split: LockState.splits)

lemma queue_step_refl: "lock_wf l \<Longrightarrow> queue_step l l"
  by (simp add: lock_wf_def queue_step_def)

lemma waitForLock_step: "queue_step l0 l \<Longrightarrow> queue_step l0 (waitForLock l r w stamp)"
  by (auto simp: waitForLock_def queue_step_def)

lemma tryAcquireLock_wf:
  assumes "lock_wf l"
  shows "\<exists>b l'. tryAcquireLock l r w now stamp = Inr (b, l') \<and> queue_step l l'"
proof -
  obtain q ws where "pruneLock l now = Inr (l\<lparr>lk_waitQ := q, lk_waiters := ws\<rparr>)"
    and "distinct q" and "set q = dom ws"
    using pruneLock_wf [OF assms] .
  then show ?thesis
    using queue_step_refl [OF assms]
    by (cases q) (auto simp: tryAcquireLock_def queue_step_def intro!: waitForLock_step
        [unfolded queue_step_def])
qed

lemma isWriteNext_wf:
  assumes "lock_wf l"
  shows "\<exists>b l'. isWriteNext l now = Inr (b, l') \<and> queue_step l l'"
proof -
  obtain q ws where "pruneLock l now = Inr (l\<lparr>lk_waitQ := q, lk_waiters := ws\<rparr>)"
    and "distinct q" and "set q = dom ws"
    using pruneLock_wf [OF assms] .
  then show ?thesis
    using queue_step_refl [OF assms]
    by (cases q) (auto simp: isWriteNext_def queue_step_def split: option.split)
qed

section \<open>The operations refine the specification\<close>

lemma the_elem_insert_empty [simp]: "the_elem (insert x {}) = x"
  by simp

lemmas lock_spec_defs = ls_abs_def lock_abs_def ls_wf_def lock_wf_def may_read_def may_write_def

lemma ls_wf_set_lock [inv_intro]: "ls_wf s \<Longrightarrow> lock_wf l \<Longrightarrow> ls_wf (set_lock s name l)"
  by (simp add: ls_wf_def)

lemma ls_wf_counters [simp]:
  "ls_wf (s\<lparr>ls_readers := r\<rparr>) = ls_wf s" "ls_wf (s\<lparr>ls_writers := w\<rparr>) = ls_wf s"
  by (simp_all add: ls_wf_def)

lemma ls_abs_set_lock [simp]: "ls_abs (set_lock s name l) = (ls_abs s)(name := lock_abs l)"
  by (simp add: ls_abs_def fun_eq_iff)

lemma lock_abs_state:
  "lk_state l = UNLOCKED \<Longrightarrow> lock_abs l = ({}, None)"
  "lk_state l = LOCKED_FOR_READ \<Longrightarrow> lock_abs l = (lk_holders l, None)"
  "lk_state l = LOCKED_FOR_WRITE \<Longrightarrow> lk_holders l = {h} \<Longrightarrow> lock_abs l = ({}, Some h)"
  "lk_state l = LOCKED_FOR_READ_WRITE \<Longrightarrow> lk_holders l = {h} \<Longrightarrow> lock_abs l = ({h}, Some h)"
  by (simp_all add: lock_abs_def)

lemma ls_abs_idem: "lock_abs l = ls_abs s name \<Longrightarrow> (ls_abs s)(name := lock_abs l) = ls_abs s"
  by simp

lemma ls_abs_counters [simp]:
  "ls_abs (s\<lparr>ls_readers := r\<rparr>) = ls_abs s" "ls_abs (s\<lparr>ls_writers := w\<rparr>) = ls_abs s"
  by (simp_all add: ls_abs_def fun_eq_iff)

text \<open>
  One statement per acquisition: it returns without undefined behaviour, keeps the table well
  formed, and either grants a lock the specification allows or leaves the specification state.
\<close>

definition grants :: "(rwlock \<Rightarrow> u64 \<Rightarrow> bool) \<Rightarrow> (rwlock \<Rightarrow> u64 \<Rightarrow> rwlock) \<Rightarrow> string \<Rightarrow> u64 \<Rightarrow>
    LockServer \<Rightarrow> ub + bool \<times> LockServer \<Rightarrow> bool" where
  "grants may upd name r s res \<longleftrightarrow>
     (case res of
        Inl _ \<Rightarrow> False
      | Inr (b, s') \<Rightarrow> ls_wf s' \<and>
          (if b then may (ls_abs s name) r \<and> ls_abs s' = (ls_abs s)(name := upd (ls_abs s name) r)
           else ls_abs s' = ls_abs s))"

abbreviation take_read :: "rwlock \<Rightarrow> u64 \<Rightarrow> rwlock" where
  "take_read L r \<equiv> (insert r (fst L), snd L)"

abbreviation take_write :: "rwlock \<Rightarrow> u64 \<Rightarrow> rwlock" where
  "take_write L r \<equiv> (fst L, Some r)"

lemma grants_refused:
  assumes "ls_wf s" and "queue_step (lock_at s name) l"
  shows "grants may upd name r s (Inr (False, set_lock s name l))"
  using assms queue_step_wf [of "lock_at s name" l] queue_step_abs [OF assms(2)]
  by (simp add: grants_def ls_wf_def fun_upd_idem ls_abs_def [of s name])

lemma grants_granted:
  assumes "ls_wf s" and "lock_wf l" and "may (ls_abs s name) r"
    and "lock_abs l = upd (ls_abs s name) r"
  shows "grants may upd name r s (Inr (True, set_lock s name l))"
    and "grants may upd name r s (Inr (True, set_lock s name l\<lparr>ls_readers := n\<rparr>))"
    and "grants may upd name r s (Inr (True, set_lock s name l\<lparr>ls_writers := n\<rparr>))"
  using assms by (simp_all add: grants_def ls_wf_set_lock)

lemma lockForRead_refines:
  assumes "ls_wf s"
  shows "grants may_read take_read name r s (lockForRead s name r now stamp)"
proof -
  define l where "l = lock_at s name"
  have wf: "lock_wf l" using assms by (simp add: ls_wf_def l_def)
  have abs: "ls_abs s name = lock_abs l" by (simp add: ls_abs_def l_def)
  note refused = grants_refused [OF assms, where name = name, folded l_def]
  note granted = grants_granted [OF assms, where name = name, unfolded abs]
  note wait = refused [OF waitForLock_step]
  show ?thesis
  proof (cases "lk_state l")
    case UNLOCKED
    obtain b l1 where t: "tryAcquireLock l r False now stamp = Inr (b, l1)" "queue_step l l1"
      using tryAcquireLock_wf [OF wf] by blast
    with UNLOCKED wf refused [OF t(2)] show ?thesis
      by (cases b) (auto simp: lockForRead_def l_def [symmetric] may_read_def lock_abs_state
          lock_wf_def queue_step_def intro!: granted)
  next
    case LOCKED_FOR_READ
    obtain b l1 where t: "isWriteNext l now = Inr (b, l1)" "queue_step l l1"
      using isWriteNext_wf [OF wf] by blast
    show ?thesis
    proof (cases "r \<in> lk_holders l")
      case True
      with LOCKED_FOR_READ wf show ?thesis
        by (auto simp: lockForRead_def l_def [symmetric] may_read_def lock_abs_state
            insert_absorb intro!: granted)
    next
      case False
      with LOCKED_FOR_READ wf t wait [OF t(2)] show ?thesis
        by (cases b) (auto simp: lockForRead_def l_def [symmetric] may_read_def lock_abs_state
            lock_wf_def queue_step_def intro!: granted)
    qed
  qed (use wf wait [OF queue_step_refl [OF wf]] in
      \<open>auto simp: lockForRead_def l_def [symmetric] may_read_def lock_abs_state
        lock_wf_def intro!: granted\<close>)
qed

lemma lockForWrite_refines:
  assumes "ls_wf s"
  shows "grants may_write take_write name r s (lockForWrite s name r now stamp)"
proof -
  define l where "l = lock_at s name"
  have wf: "lock_wf l" using assms by (simp add: ls_wf_def l_def)
  have abs: "ls_abs s name = lock_abs l" by (simp add: ls_abs_def l_def)
  note refused = grants_refused [OF assms, where name = name, folded l_def]
  note granted = grants_granted [OF assms, where name = name, unfolded abs]
  note wait = refused [OF waitForLock_step [OF queue_step_refl [OF wf]]]
  show ?thesis
  proof (cases "lk_state l")
    case UNLOCKED
    obtain b l1 where t: "tryAcquireLock l r True now stamp = Inr (b, l1)" "queue_step l l1"
      using tryAcquireLock_wf [OF wf] by blast
    with UNLOCKED wf refused [OF t(2)] show ?thesis
      by (cases b) (auto simp: lockForWrite_def l_def [symmetric] may_write_def lock_abs_state
          lock_wf_def queue_step_def intro!: granted)
  next
    case LOCKED_FOR_READ
    with wf wait show ?thesis
      by (auto simp: lockForWrite_def l_def [symmetric] may_write_def lock_abs_state
          lock_wf_def card_1_singleton_iff intro!: granted)
  qed (use wf wait in
      \<open>auto simp: lockForWrite_def l_def [symmetric] may_write_def lock_abs_state
        lock_wf_def intro!: granted\<close>)
qed

lemma releaseForRead_refines:
  assumes "ls_wf s"
  shows "ls_wf (releaseForRead s name h)"
    and "ls_abs (releaseForRead s name h) =
      (ls_abs s)(name := (fst (ls_abs s name) - {h}, snd (ls_abs s name)))"
proof -
  define l where "l = lock_at s name"
  have wf: "lock_wf l" using assms by (simp add: ls_wf_def l_def)
  have abs: "ls_abs s name = lock_abs l" by (simp add: ls_abs_def l_def)
  have "ls_wf (releaseForRead s name h) \<and> ls_abs (releaseForRead s name h) =
      (ls_abs s)(name := (fst (ls_abs s name) - {h}, snd (ls_abs s name)))"
  proof (cases "ls_locks s name")
    case None
    then have "l = Lock_new" by (simp add: l_def lock_at_def)
    with None assms abs show ?thesis
      by (simp add: releaseForRead_def lock_abs_def Lock_new_def fun_upd_idem)
  next
    case (Some k)
    then have k: "ls_locks s name = Some l" by (simp add: l_def lock_at_def)
    show ?thesis
    proof (cases "h \<in> lk_holders l")
      case False
      with wf have "fst (lock_abs l) - {h} = fst (lock_abs l)"
        by (cases "lk_state l") (auto simp: lock_abs_state lock_abs_def)
      with False k assms abs show ?thesis
        by (simp add: releaseForRead_def fun_upd_idem)
    next
      case True
      with k wf assms abs show ?thesis
        by (cases "lk_state l")
          (auto simp: releaseForRead_def lock_abs_def lock_wf_def Let_def fun_upd_idem
            intro!: ls_wf_set_lock)
    qed
  qed
  then show "ls_wf (releaseForRead s name h)"
    and "ls_abs (releaseForRead s name h) =
      (ls_abs s)(name := (fst (ls_abs s name) - {h}, snd (ls_abs s name)))" by simp_all
qed

lemma releaseForWrite_refines:
  assumes "ls_wf s"
  shows "ls_wf (releaseForWrite s name h)"
    and "ls_abs (releaseForWrite s name h) = (ls_abs s)(name :=
      (fst (ls_abs s name), if snd (ls_abs s name) = Some h then None else snd (ls_abs s name)))"
proof -
  define l where "l = lock_at s name"
  have wf: "lock_wf l" using assms by (simp add: ls_wf_def l_def)
  have abs: "ls_abs s name = lock_abs l" by (simp add: ls_abs_def l_def)
  have "ls_wf (releaseForWrite s name h) \<and> ls_abs (releaseForWrite s name h) = (ls_abs s)(name :=
      (fst (lock_abs l), if snd (lock_abs l) = Some h then None else snd (lock_abs l)))"
  proof (cases "ls_locks s name")
    case None
    then have "l = Lock_new" by (simp add: l_def lock_at_def)
    with None assms abs show ?thesis
      by (simp add: releaseForWrite_def lock_abs_def Lock_new_def fun_upd_idem)
  next
    case (Some k)
    then have k: "ls_locks s name = Some l" by (simp add: l_def lock_at_def)
    show ?thesis
    proof (cases "h \<in> lk_holders l")
      case False
      with wf have "snd (lock_abs l) \<noteq> Some h"
        by (cases "lk_state l") (auto simp: lock_abs_def lock_wf_def)
      with False k assms abs show ?thesis
        by (simp add: releaseForWrite_def fun_upd_idem)
    next
      case True
      with k wf assms abs show ?thesis
        by (cases "lk_state l")
          (auto simp: releaseForWrite_def lock_abs_def lock_wf_def fun_upd_idem
            intro!: ls_wf_set_lock)
    qed
  qed
  then show "ls_wf (releaseForWrite s name h)"
    and "ls_abs (releaseForWrite s name h) = (ls_abs s)(name :=
      (fst (ls_abs s name), if snd (ls_abs s name) = Some h then None else snd (ls_abs s name)))"
    by (simp_all add: abs)
qed

section \<open>The interface the locking store relies on\<close>

locale rw_locks =
  fixes view :: "'s \<Rightarrow> string \<Rightarrow> rwlock"
    and invar :: "'s \<Rightarrow> bool"
    and lockR lockW :: "'s \<Rightarrow> string \<Rightarrow> u64 \<Rightarrow> timeval \<Rightarrow> timeval \<Rightarrow> ub + bool \<times> 's"
    and relR relW :: "'s \<Rightarrow> string \<Rightarrow> u64 \<Rightarrow> 's"
  assumes lockR_total: "invar s \<Longrightarrow> \<exists>b s'. lockR s k r n t = Inr (b, s') \<and> invar s'"
    and lockR_yes: "invar s \<Longrightarrow> lockR s k r n t = Inr (True, s') \<Longrightarrow>
      may_read (view s k) r \<and> view s' = (view s)(k := take_read (view s k) r)"
    and lockR_no: "invar s \<Longrightarrow> lockR s k r n t = Inr (False, s') \<Longrightarrow> view s' = view s"
    and lockW_total: "invar s \<Longrightarrow> \<exists>b s'. lockW s k r n t = Inr (b, s') \<and> invar s'"
    and lockW_yes: "invar s \<Longrightarrow> lockW s k r n t = Inr (True, s') \<Longrightarrow>
      may_write (view s k) r \<and> view s' = (view s)(k := take_write (view s k) r)"
    and lockW_no: "invar s \<Longrightarrow> lockW s k r n t = Inr (False, s') \<Longrightarrow> view s' = view s"
    and relR_invar: "invar s \<Longrightarrow> invar (relR s k r)"
    and relR_view: "invar s \<Longrightarrow>
      view (relR s k r) = (view s)(k := (fst (view s k) - {r}, snd (view s k)))"
    and relW_invar: "invar s \<Longrightarrow> invar (relW s k r)"
    and relW_view: "invar s \<Longrightarrow> view (relW s k r) =
      (view s)(k := (fst (view s k), if snd (view s k) = Some r then None else snd (view s k)))"
    and writer_alone: "invar s \<Longrightarrow> snd (view s k) = Some w \<Longrightarrow> fst (view s k) \<subseteq> {w}"
begin

lemma lockR_invar: "invar s \<Longrightarrow> lockR s k r n t = Inr (b, s') \<Longrightarrow> invar s'"
  using lockR_total [of s k r n t] by auto

lemma lockW_invar: "invar s \<Longrightarrow> lockW s k r n t = Inr (b, s') \<Longrightarrow> invar s'"
  using lockW_total [of s k r n t] by auto

lemma lockR_writer:
  "invar s \<Longrightarrow> lockR s j q n t = Inr (b, s') \<Longrightarrow> snd (view s' k) = snd (view s k)"
  using lockR_yes lockR_no by (cases b) force+

lemma lockW_keeps_writer:
  assumes "invar s" and "lockW s j q n t = Inr (b, s')" and "snd (view s k) = Some r"
  shows "snd (view s' k) = Some r"
  using assms lockW_yes [of s j q n t s'] lockW_no [of s j q n t s']
  by (cases b) (auto simp: may_write_def)

lemma lockW_holds: "invar s \<Longrightarrow> lockW s k r n t = Inr (True, s') \<Longrightarrow> snd (view s' k) = Some r"
  using lockW_yes by force

lemma relR_writer: "invar s \<Longrightarrow> snd (view (relR s j q) k) = snd (view s k)"
  by (simp add: relR_view)

lemma relW_other_writer:
  "invar s \<Longrightarrow> snd (view s k) = Some r \<Longrightarrow> j \<noteq> k \<or> q \<noteq> r \<Longrightarrow> snd (view (relW s j q) k) = Some r"
  by (auto simp: relW_view)

lemma writer_excludes_reader:
  "invar s \<Longrightarrow> snd (view s k) = Some w \<Longrightarrow> q \<noteq> w \<Longrightarrow> \<exists>s'. lockR s k q n t = Inr (False, s')"
  using lockR_total [of s k q n t] lockR_yes [of s k q n t] by (auto simp: may_read_def)

lemma writer_excludes_writer:
  "invar s \<Longrightarrow> snd (view s k) = Some w \<Longrightarrow> q \<noteq> w \<Longrightarrow> \<exists>s'. lockW s k q n t = Inr (False, s')"
  using lockW_total [of s k q n t] lockW_yes [of s k q n t] by (auto simp: may_write_def)

text \<open>A call only ever adds to what transactions hold.\<close>

lemma lockR_grows:
  "invar s \<Longrightarrow> lockR s j q n t = Inr (b, s') \<Longrightarrow> fst (view s k) \<subseteq> fst (view s' k)"
  using lockR_yes lockR_no by (cases b) force+

lemma lockW_readers:
  "invar s \<Longrightarrow> lockW s j q n t = Inr (b, s') \<Longrightarrow> fst (view s' k) = fst (view s k)"
  using lockW_yes lockW_no by (cases b) force+

lemma lockR_holds: "invar s \<Longrightarrow> lockR s k r n t = Inr (True, s') \<Longrightarrow> r \<in> fst (view s' k)"
  using lockR_yes by force

text \<open>Releasing a list of locks, the second phase of two-phase locking.\<close>

lemma relW_all:
  "invar s \<Longrightarrow> invar (fold (\<lambda>k s. relW s k r) ks s) \<and>
   view (fold (\<lambda>k s. relW s k r) ks s) = (\<lambda>k. (fst (view s k),
     if k \<in> set ks \<and> snd (view s k) = Some r then None else snd (view s k)))"
  by (induction ks arbitrary: s) (auto simp: relW_invar relW_view fun_eq_iff)

lemma relR_all:
  "invar s \<Longrightarrow> invar (fold (\<lambda>k s. relR s k r) ks s) \<and>
   view (fold (\<lambda>k s. relR s k r) ks s) = (\<lambda>k. (if k \<in> set ks then fst (view s k) - {r}
     else fst (view s k), snd (view s k)))"
  by (induction ks arbitrary: s) (auto simp: relR_invar relR_view fun_eq_iff)

lemma reader_excludes_writer:
  "invar s \<Longrightarrow> r \<in> fst (view s k) \<Longrightarrow> q \<noteq> r \<Longrightarrow> \<exists>s'. lockW s k q n t = Inr (False, s')"
  using lockW_total [of s k q n t] lockW_yes [of s k q n t] by (fastforce simp: may_write_def)

end

lemma grants_cases:
  assumes "grants may upd name r s res"
  obtains (refused) s' where "res = Inr (False, s')" "ls_wf s'" "ls_abs s' = ls_abs s"
  | (granted) s' where "res = Inr (True, s')" "ls_wf s'" "may (ls_abs s name) r"
      "ls_abs s' = (ls_abs s)(name := upd (ls_abs s name) r)"
  using assms by (auto simp: grants_def split: sum.splits if_splits)

interpretation lks: rw_locks ls_abs ls_wf lockForRead lockForWrite releaseForRead releaseForWrite
proof unfold_locales
  fix s k r n t s'
  assume wf: "ls_wf s"
  note R = grants_cases [OF lockForRead_refines [OF wf, of k r n t]]
  note W = grants_cases [OF lockForWrite_refines [OF wf, of k r n t]]
  show "\<exists>b s'. lockForRead s k r n t = Inr (b, s') \<and> ls_wf s'"
    by (rule R) auto
  show "\<exists>b s'. lockForWrite s k r n t = Inr (b, s') \<and> ls_wf s'"
    by (rule W) auto
  show "may_read (ls_abs s k) r \<and> ls_abs s' = (ls_abs s)(k := take_read (ls_abs s k) r)"
    if "lockForRead s k r n t = Inr (True, s')"
    by (rule R) (use that in auto)
  show "ls_abs s' = ls_abs s" if "lockForRead s k r n t = Inr (False, s')"
    by (rule R) (use that in auto)
  show "may_write (ls_abs s k) r \<and> ls_abs s' = (ls_abs s)(k := take_write (ls_abs s k) r)"
    if "lockForWrite s k r n t = Inr (True, s')"
    by (rule W) (use that in auto)
  show "ls_abs s' = ls_abs s" if "lockForWrite s k r n t = Inr (False, s')"
    by (rule W) (use that in auto)
  show "fst (ls_abs s k) \<subseteq> {w}" if "snd (ls_abs s k) = Some w" for w
    using that wf
    by (cases "lk_state (lock_at s k)")
      (auto simp: ls_abs_def lock_abs_def ls_wf_def lock_wf_def dest!: spec [of _ k])
qed (simp_all add: releaseForRead_refines releaseForWrite_refines)

section \<open>Histories of lock operations\<close>

datatype lock_op =
    LockR string u64 timeval timeval
  | LockW string u64 timeval timeval
  | RelR string u64
  | RelW string u64

primrec lock_step :: "LockServer \<Rightarrow> lock_op \<Rightarrow> ub + LockServer" where
  "lock_step s (LockR k r n t) = map_sum id snd (lockForRead s k r n t)"
| "lock_step s (LockW k r n t) = map_sum id snd (lockForWrite s k r n t)"
| "lock_step s (RelR k r) = Inr (releaseForRead s k r)"
| "lock_step s (RelW k r) = Inr (releaseForWrite s k r)"

primrec lock_run :: "LockServer \<Rightarrow> lock_op list \<Rightarrow> ub + LockServer" where
  "lock_run s [] = Inr s"
| "lock_run s (x # xs) = bindr (lock_step s x) (\<lambda>s. lock_run s xs)"

lemma map_sum_snd_Inr: "map_sum id snd r = Inr s' \<longleftrightarrow> (\<exists>b. r = Inr (b, s'))"
  by (cases r) auto

lemma ls_wf_new [simp]: "ls_wf LockServer_new"
  by (simp add: ls_wf_def lock_at_def LockServer_new_def)

lemma lock_step_total: "ls_wf s \<Longrightarrow> \<exists>s'. lock_step s x = Inr s' \<and> ls_wf s'"
proof (cases x)
  case (LockR k r n t)
  then show "ls_wf s \<Longrightarrow> ?thesis" using lks.lockR_total [of s k r n t] by auto
next
  case (LockW k r n t)
  then show "ls_wf s \<Longrightarrow> ?thesis" using lks.lockW_total [of s k r n t] by auto
qed (simp_all add: lks.relR_invar lks.relW_invar)

lemma lock_run_total: "ls_wf s \<Longrightarrow> \<exists>s'. lock_run s xs = Inr s' \<and> ls_wf s'"
proof (induction xs arbitrary: s)
  case (Cons x xs)
  then obtain s1 where "lock_step s x = Inr s1" "ls_wf s1"
    using lock_step_total by blast
  with Cons.IH [of s1] show ?case by simp
qed simp

lemma lock_step_keeps_writer:
  assumes "ls_wf s" and "lock_step s x = Inr s'" and "snd (ls_abs s k) = Some w" and "x \<noteq> RelW k w"
  shows "snd (ls_abs s' k) = Some w"
proof (cases x)
  case (LockR j q n t)
  then obtain b where "lockForRead s j q n t = Inr (b, s')"
    using assms(2) by (auto simp: map_sum_snd_Inr)
  then show ?thesis using lks.lockR_writer [OF assms(1), of j q n t b s' k] assms(3) by simp
next
  case (LockW j q n t)
  then obtain b where "lockForWrite s j q n t = Inr (b, s')"
    using assms(2) by (auto simp: map_sum_snd_Inr)
  then show ?thesis by (rule lks.lockW_keeps_writer [OF assms(1) _ assms(3)])
next
  case (RelR j q)
  then show ?thesis using assms lks.relR_writer [OF assms(1), of j q k] by auto
next
  case (RelW j q)
  then show ?thesis using assms lks.relW_other_writer [OF assms(1,3), of j q] by auto
qed

lemma lock_run_keeps_writer:
  "ls_wf s \<Longrightarrow> lock_run s xs = Inr s' \<Longrightarrow> snd (ls_abs s k) = Some w \<Longrightarrow> RelW k w \<notin> set xs \<Longrightarrow>
   ls_wf s' \<and> snd (ls_abs s' k) = Some w"
proof (induction xs arbitrary: s)
  case (Cons x xs)
  obtain s1 where s1: "lock_step s x = Inr s1" "ls_wf s1"
    using lock_step_total [OF Cons.prems(1)] by blast
  with Cons.prems lock_step_keeps_writer [OF Cons.prems(1) s1(1) Cons.prems(3)] Cons.IH [of s1]
  show ?case by auto
qed simp

section \<open>Properties\<close>

text \<open>C5. Mutual exclusion over histories: after any history of lock operations from the empty
  table, once a write lock on \<open>k\<close> is granted to \<open>w\<close>, every request for \<open>k\<close> by another transaction
  is refused until \<open>w\<close> releases the write lock, whatever happens in between and whatever the clock
  says.\<close>

theorem write_lock_exclusive:
  assumes "lock_run LockServer_new xs = Inr s" and "lockForWrite s k w n t = Inr (True, s1)"
    and "lock_run s1 ys = Inr s2" and "RelW k w \<notin> set ys" and "q \<noteq> w"
  shows "\<exists>s3 s4. lockForRead s2 k q n' t' = Inr (False, s3) \<and> lockForWrite s2 k q n' t' = Inr (False, s4)"
proof -
  have s: "ls_wf s" using lock_run_total [OF ls_wf_new, of xs] assms(1) by simp
  have "snd (ls_abs s1 k) = Some w" by (rule lks.lockW_holds [OF s assms(2)])
  then have "ls_wf s2 \<and> snd (ls_abs s2 k) = Some w"
    by (rule lock_run_keeps_writer [OF lks.lockW_invar [OF s assms(2)] assms(3) _ assms(4)])
  with assms(5) show ?thesis
    using lks.writer_excludes_reader [of s2 k w q n' t'] lks.writer_excludes_writer [of s2 k w q n' t']
    by blast
qed

definition demo_now :: timeval where
  "demo_now = \<lparr>tv_sec = 10, tv_usec = 0\<rparr>"

definition demo_locked :: "bool \<times> LockServer" where
  "demo_locked = (case lockForWrite LockServer_new ''k'' 1 demo_now demo_now of
     Inl e \<Rightarrow> (False, LockServer_new) | Inr p \<Rightarrow> p)"

theorem write_lock_exclusive_witness:
  "\<exists>s2. lock_run (snd demo_locked) [LockR ''j'' 2 demo_now demo_now, RelR ''k'' 1, RelW ''k'' 2] = Inr s2 \<and>
     (\<exists>s3 s4. lockForRead s2 ''k'' 2 demo_now demo_now = Inr (False, s3) \<and>
        lockForWrite s2 ''k'' 2 demo_now demo_now = Inr (False, s4))"
proof -
  let ?ys = "[LockR ''j'' 2 demo_now demo_now, RelR ''k'' 1, RelW ''k'' 2]"
  have "fst demo_locked" by code_simp
  then have g: "lockForWrite LockServer_new ''k'' 1 demo_now demo_now = Inr (True, snd demo_locked)"
    by (auto simp: demo_locked_def split: sum.splits)
  then have "ls_wf (snd demo_locked)" by (rule lks.lockW_invar [OF ls_wf_new])
  then obtain s2 where s2: "lock_run (snd demo_locked) ?ys = Inr s2"
    using lock_run_total by blast
  with write_lock_exclusive [of "[]" LockServer_new "''k''" 1 demo_now demo_now "snd demo_locked" ?ys s2 2] g
  show ?thesis by auto
qed

text \<open>No history of lock operations, from the empty table and under any clock, reads the time of
  a waiter that has none: the table always answers, and it stays well formed.\<close>

lemma lock_histories_defined:
  "\<exists>s. lock_run LockServer_new xs = Inr s \<and> ls_wf s"
  by (rule lock_run_total) simp

text \<open>C13. The lock table implements a reader-writer lock: a read request answers, and either grants
  a lock the specification allows, adding the requester to the readers of that key, or leaves the
  readers and the writer of every key as they were.\<close>

theorem lockForRead_implements:
  assumes "ls_wf s"
  shows "\<exists>b s'. lockForRead s k r n t = Inr (b, s') \<and> ls_wf s' \<and>
    (if b then may_read (ls_abs s k) r \<and> ls_abs s' = (ls_abs s)(k := take_read (ls_abs s k) r)
     else ls_abs s' = ls_abs s)"
  by (rule grants_cases [OF lockForRead_refines [OF assms, of k r n t]]) auto

theorem lockForRead_implements_witness:
  "\<exists>b s'. lockForRead (snd demo_locked) ''k'' 1 demo_now demo_now = Inr (b, s') \<and> ls_wf s' \<and>
     (if b then may_read (ls_abs (snd demo_locked) ''k'') 1 \<and>
        ls_abs s' = (ls_abs (snd demo_locked))(''k'' := take_read (ls_abs (snd demo_locked) ''k'') 1)
      else ls_abs s' = ls_abs (snd demo_locked))"
proof -
  have "fst demo_locked" by code_simp
  then have "lockForWrite LockServer_new ''k'' 1 demo_now demo_now = Inr (True, snd demo_locked)"
    by (auto simp: demo_locked_def split: sum.splits)
  then show ?thesis
    by (intro lockForRead_implements) (rule lks.lockW_invar [OF ls_wf_new])
qed

text \<open>Waiters are served in order: a free lock with waiters goes to the requester exactly when
  it is the first waiter that has not timed out, or no live waiter is left.\<close>

lemma tryAcquireLock_fifo:
  assumes "lock_wf l"
  shows "\<exists>b l'. tryAcquireLock l r w now stamp = Inr (b, l') \<and>
    (b \<longleftrightarrow> (case dropWhile (\<lambda>x. checkTimeout (the (lk_waiters l x)) now) (lk_waitQ l) of
              [] \<Rightarrow> True | x # q \<Rightarrow> x = r))"
proof -
  have p: "prune now (lk_waitQ l) (lk_waiters l) =
      Inr (dropWhile (\<lambda>x. checkTimeout (the (lk_waiters l x)) now) (lk_waitQ l),
        lk_waiters l |` (- set (takeWhile (\<lambda>x. checkTimeout (the (lk_waiters l x)) now) (lk_waitQ l))))"
    using assms by (intro prune_eq) (auto simp: lock_wf_def)
  show ?thesis
    by (cases "dropWhile (\<lambda>x. checkTimeout (the (lk_waiters l x)) now) (lk_waitQ l)")
      (auto simp: tryAcquireLock_def pruneLock_def p simp del: dropWhile_eq_Nil_conv)
qed

text \<open>The timeout compares seconds and microseconds separately, so a waiter is dropped one
  microsecond after it queued when the wait crosses a second boundary, although the limit is 5000
  microseconds.\<close>

lemma checkTimeout_second_boundary:
  "checkTimeout \<lparr>wt_write = w, wt_waitTime = \<lparr>tv_sec = s, tv_usec = 999999\<rparr>\<rparr> \<lparr>tv_sec = s + 1, tv_usec = 0\<rparr>"
  by (simp add: checkTimeout_def)

end
