(* ===== verification/LockStore.thy ===== *)
theory LockStore
  imports TxnStores LockServer
begin

text \<open>
  src/store/strongstore/lockstore.h and lockstore.cc: two-phase locking. A prepare validates each
  read against the committed version, then takes a read lock for it, then a write lock for every
  written key; commit and pre-commit drop them. \<open>clk\<close> gives, for a read (\<open>False\<close>) or a write
  (\<open>True\<close>) lock on a key, the two clock values the lock table reads in that call.
\<close>

type_synonym lock_clock = "bool \<Rightarrow> string \<Rightarrow> timeval \<times> timeval"

record LockStore =
  lst_store :: VersionedKVStore
  lst_locks :: LockServer
  lst_prepared :: "(u64 \<times> Transaction) list"
  lst_precommitted :: "(u64 \<times> Transaction) list"

definition LockStore_new :: LockStore where
  "LockStore_new = \<lparr>lst_store = VersionedKVStore_new, lst_locks = LockServer_new,
     lst_prepared = [], lst_precommitted = []\<rparr>"

definition LS_Get :: "lock_clock \<Rightarrow> LockStore \<Rightarrow> u64 \<Rightarrow> string \<Rightarrow> Timestamp \<times> string \<Rightarrow>
    ub + int \<times> (Timestamp \<times> string) \<times> LockStore" where
  "LS_Get clk s i key val =
     (case vs_get (lst_store s) key of
        None \<Rightarrow> Inr (REPLY_FAIL, val, s)
      | Some v \<Rightarrow>
          bindr (lockForRead (lst_locks s) key i (fst (clk False key)) (snd (clk False key)))
            (\<lambda>(b, L). Inr (if b then REPLY_OK else REPLY_RETRY, v, s\<lparr>lst_locks := L\<rparr>)))"

definition LS_Get_at :: "lock_clock \<Rightarrow> LockStore \<Rightarrow> u64 \<Rightarrow> string \<Rightarrow> Timestamp \<Rightarrow> Timestamp \<times> string \<Rightarrow>
    ub + int \<times> (Timestamp \<times> string) \<times> LockStore" where
  "LS_Get_at clk s i key ts val = LS_Get clk s i key val"

text \<open>The read that reports a dependency takes no lock.\<close>

definition LS_Get_dep :: "LockStore \<Rightarrow> u64 \<Rightarrow> string \<Rightarrow> Timestamp \<times> string \<Rightarrow> u64 \<Rightarrow>
    int \<times> (Timestamp \<times> string) \<times> u64" where
  "LS_Get_dep s i key val dep =
     (case vs_get_dep (lst_store s) key val dep of
        (found, v, d) \<Rightarrow> (if found then REPLY_OK else REPLY_FAIL, v, d))"

definition LS_Get_at_dep :: "LockStore \<Rightarrow> u64 \<Rightarrow> string \<Rightarrow> Timestamp \<Rightarrow> Timestamp \<times> string \<Rightarrow> u64 \<Rightarrow>
    int \<times> (Timestamp \<times> string) \<times> u64" where
  "LS_Get_at_dep s i key ts val dep = LS_Get_dep s i key val dep"

definition dropLocks :: "LockServer \<Rightarrow> u64 \<Rightarrow> Transaction \<Rightarrow> LockServer" where
  "dropLocks L i txn =
     fold (\<lambda>k L. releaseForRead L k i) (map fst (txn_readSet txn))
       (fold (\<lambda>k L. releaseForWrite L k i) (map fst (txn_writeSet txn)) L)"

definition LS_Abort :: "LockStore \<Rightarrow> u64 \<Rightarrow> Transaction \<Rightarrow> LockStore" where
  "LS_Abort s i txn =
     (if map_of (lst_precommitted s) i \<noteq> None
      then s\<lparr>lst_precommitted := AList.delete i (lst_precommitted s)\<rparr>
      else case map_of (lst_prepared s) i of
             Some t \<Rightarrow> s\<lparr>lst_locks := dropLocks (lst_locks s) i t,
                         lst_prepared := AList.delete i (lst_prepared s)\<rparr>
           | None \<Rightarrow> s)"

text \<open>
  \<^verbatim>\<open>getLocks\<close>: the loop over the reads stops with \<open>None\<close> at a stale read (the early return
  \<^verbatim>\<open>REPLY_ABORT\<close>); a refused lock only sets the return value, and the loop goes on.
\<close>

primrec getReadLocks :: "lock_clock \<Rightarrow> VersionedKVStore \<Rightarrow> u64 \<Rightarrow> (string \<times> Timestamp) list \<Rightarrow>
    int \<Rightarrow> LockServer \<Rightarrow> ub + int option \<times> LockServer" where
  "getReadLocks clk st i [] ret L = Inr (Some ret, L)"
| "getReadLocks clk st i (r # rs) ret L =
     (case vs_get st (fst r) of
        None \<Rightarrow> getReadLocks clk st i rs ret L
      | Some cur \<Rightarrow>
          if ts_gt (fst cur) (snd r) then Inr (None, L)
          else bindr (lockForRead L (fst r) i (fst (clk False (fst r))) (snd (clk False (fst r))))
                 (\<lambda>(b, L). getReadLocks clk st i rs (if b then ret else REPLY_FAIL) L))"

primrec getWriteLocks :: "lock_clock \<Rightarrow> u64 \<Rightarrow> (string \<times> string) list \<Rightarrow> int \<Rightarrow> LockServer \<Rightarrow>
    ub + int \<times> LockServer" where
  "getWriteLocks clk i [] ret L = Inr (ret, L)"
| "getWriteLocks clk i (w # ws) ret L =
     bindr (lockForWrite L (fst w) i (fst (clk True (fst w))) (snd (clk True (fst w))))
       (\<lambda>(b, L). getWriteLocks clk i ws (if b then ret else REPLY_FAIL) L)"

definition getLocks :: "lock_clock \<Rightarrow> LockStore \<Rightarrow> u64 \<Rightarrow> Transaction \<Rightarrow> ub + int \<times> LockStore" where
  "getLocks clk s i txn =
     bindr (getReadLocks clk (lst_store s) i (txn_readSet txn) 0 (lst_locks s))
       (\<lambda>(ro, L).
          case ro of
            None \<Rightarrow> Inr (REPLY_ABORT, LS_Abort (s\<lparr>lst_locks := L\<rparr>) i txn)
          | Some ret \<Rightarrow>
              bindr (getWriteLocks clk i (txn_writeSet txn) ret L)
                (\<lambda>(ret, L). Inr (ret, s\<lparr>lst_locks := L\<rparr>)))"

definition LS_Prepare ::
  "lock_clock \<Rightarrow> LockStore \<Rightarrow> u64 \<Rightarrow> Transaction \<Rightarrow> bool \<Rightarrow> ub + int \<times> LockStore" where
  "LS_Prepare clk s i txn do_check =
     (if map_of (lst_prepared s) i \<noteq> None then Inr (REPLY_OK, s)
      else if do_check then
        bindr (getLocks clk s i txn)
          (\<lambda>(ret, s). Inr (ret, if ret = REPLY_OK
             then s\<lparr>lst_prepared := smap_put i txn (lst_prepared s)\<rparr> else s))
      else Inr (REPLY_OK, s\<lparr>lst_prepared := smap_put i txn (lst_prepared s)\<rparr>))"

definition LS_Commit :: "LockStore \<Rightarrow> u64 \<Rightarrow> u64 \<Rightarrow> LockStore" where
  "LS_Commit s i timestamp =
     (case map_of (lst_precommitted s) i of
        Some txn \<Rightarrow>
          s\<lparr>lst_store := commit_writes i (Timestamp_of timestamp) (txn_writeSet txn) (lst_store s),
            lst_precommitted := AList.delete i (lst_precommitted s)\<rparr>
      | None \<Rightarrow>
          (case map_of (lst_prepared s) i of
             Some txn \<Rightarrow>
               s\<lparr>lst_store := commit_writes i (Timestamp_of timestamp) (txn_writeSet txn) (lst_store s),
                 lst_locks := dropLocks (lst_locks s) i txn,
                 lst_prepared := AList.delete i (lst_prepared s)\<rparr>
           | None \<Rightarrow> s))"

definition LS_PreCommit :: "LockStore \<Rightarrow> u64 \<Rightarrow> LockStore" where
  "LS_PreCommit s i =
     (let txn = (case map_of (lst_prepared s) i of None \<Rightarrow> Transaction_default | Some t \<Rightarrow> t) in
      s\<lparr>lst_store := precommit_writes i (txn_writeSet txn) (lst_store s),
        lst_locks := dropLocks (lst_locks s) i txn,
        lst_prepared := AList.delete i (lst_prepared s),
        lst_precommitted := smap_put i txn (lst_precommitted s)\<rparr>)"

definition LS_Load :: "LockStore \<Rightarrow> string \<Rightarrow> string \<Rightarrow> Timestamp \<Rightarrow> LockStore" where
  "LS_Load s key val ts = s\<lparr>lst_store := vs_put (lst_store s) key val ts\<rparr>"

section \<open>What a transaction holds\<close>

definition holds :: "(string \<Rightarrow> rwlock) \<Rightarrow> u64 \<Rightarrow> string set \<Rightarrow> string set \<Rightarrow> bool" where
  "holds V i R W \<longleftrightarrow> (\<forall>k \<in> R. i \<in> fst (V k)) \<and> (\<forall>k \<in> W. snd (V k) = Some i)"

text \<open>\<open>V'\<close> keeps every lock of \<open>V\<close>.\<close>

definition grown :: "(string \<Rightarrow> rwlock) \<Rightarrow> (string \<Rightarrow> rwlock) \<Rightarrow> bool" where
  "grown V V' \<longleftrightarrow> (\<forall>k. fst (V k) \<subseteq> fst (V' k) \<and> (\<forall>w. snd (V k) = Some w \<longrightarrow> snd (V' k) = Some w))"

lemma grown_refl [simp]: "grown V V"
  by (simp add: grown_def)

lemma grown_trans: "grown U V \<Longrightarrow> grown V W \<Longrightarrow> grown U W"
  unfolding grown_def by blast

lemma holds_grown: "holds V i R W \<Longrightarrow> grown V V' \<Longrightarrow> holds V' i R W"
  unfolding holds_def grown_def by blast

lemma lockForRead_step:
  assumes "ls_wf L"
  shows "\<exists>b L'. lockForRead L k i n t = Inr (b, L') \<and> ls_wf L' \<and> grown (ls_abs L) (ls_abs L') \<and>
    (b \<longrightarrow> i \<in> fst (ls_abs L' k))"
proof -
  obtain b L' where r: "lockForRead L k i n t = Inr (b, L')" "ls_wf L'"
    using lks.lockR_total [OF assms, of k i n t] by blast
  moreover have "grown (ls_abs L) (ls_abs L')"
    using lks.lockR_grows [OF assms r(1)] lks.lockR_writer [OF assms r(1)] by (simp add: grown_def)
  moreover have "b \<longrightarrow> i \<in> fst (ls_abs L' k)"
    using lks.lockR_holds [OF assms] r(1) by auto
  ultimately show ?thesis by blast
qed

lemma lockForWrite_step:
  assumes "ls_wf L"
  shows "\<exists>b L'. lockForWrite L k i n t = Inr (b, L') \<and> ls_wf L' \<and> grown (ls_abs L) (ls_abs L') \<and>
    (b \<longrightarrow> snd (ls_abs L' k) = Some i)"
proof -
  obtain b L' where r: "lockForWrite L k i n t = Inr (b, L')" "ls_wf L'"
    using lks.lockW_total [OF assms, of k i n t] by blast
  moreover have "grown (ls_abs L) (ls_abs L')"
    using lks.lockW_readers [OF assms r(1)] lks.lockW_keeps_writer [OF assms r(1)]
    by (simp add: grown_def)
  moreover have "b \<longrightarrow> snd (ls_abs L' k) = Some i"
    using lks.lockW_holds [OF assms] r(1) by auto
  ultimately show ?thesis by blast
qed

text \<open>The read loop: no undefined step, locks only grow, and a zero result means every read found
  in the store is locked and current.\<close>

lemma getReadLocks_spec:
  "ls_wf L \<Longrightarrow> \<exists>ro L'. getReadLocks clk st i rs ret L = Inr (ro, L') \<and> ls_wf L' \<and>
     grown (ls_abs L) (ls_abs L') \<and>
     (ro = Some 0 \<longrightarrow> ret = 0 \<and> (\<forall>(k, ts) \<in> set rs. \<forall>w v. vs_get st k = Some (w, v) \<longrightarrow>
        i \<in> fst (ls_abs L' k) \<and> w \<le> ts))"
proof (induction rs arbitrary: ret L)
  case Nil
  then show ?case by simp
next
  case (Cons r rs)
  obtain k ts where r: "r = (k, ts)" by (cases r)
  consider "vs_get st k = None" | w v where "vs_get st k = Some (w, v)" "ts < w"
    | w v where "vs_get st k = Some (w, v)" "w \<le> ts"
    by (metis option.exhaust prod.exhaust not_less)
  then show ?case
  proof cases
    case 1
    then show ?thesis using Cons.IH [OF Cons.prems, of ret] by (auto simp: r)
  next
    case 2
    then show ?thesis using Cons.prems by (simp add: r ts_gt_iff)
  next
    case 3
    obtain b L1 where L1: "lockForRead L k i (fst (clk False k)) (snd (clk False k)) = Inr (b, L1)"
      "ls_wf L1" "grown (ls_abs L) (ls_abs L1)" "b \<longrightarrow> i \<in> fst (ls_abs L1 k)"
      using lockForRead_step [OF Cons.prems] by blast
    define ret' where "ret' = (if b then ret else REPLY_FAIL)"
    obtain ro L2 where L2: "getReadLocks clk st i rs ret' L1 = Inr (ro, L2)" "ls_wf L2"
      "grown (ls_abs L1) (ls_abs L2)"
      "ro = Some 0 \<longrightarrow> ret' = 0 \<and> (\<forall>(k, ts) \<in> set rs. \<forall>w v. vs_get st k = Some (w, v) \<longrightarrow>
        i \<in> fst (ls_abs L2 k) \<and> w \<le> ts)"
      using Cons.IH [OF L1(2), of ret'] by blast
    have "ro = Some 0 \<Longrightarrow> b \<and> ret = 0 \<and> i \<in> fst (ls_abs L2 k)"
      using L2(3,4) L1(4) by (auto simp: ret'_def grown_def split: if_splits)
    moreover have "getReadLocks clk st i (r # rs) ret L = Inr (ro, L2)"
      using 3 L1(1) L2(1) by (auto simp: r ts_gt_iff ret'_def simp del: reply_codes)
    ultimately show ?thesis
      using 3 L2 grown_trans [OF L1(3) L2(3)] by (auto simp: r)
  qed
qed

lemma getWriteLocks_spec:
  "ls_wf L \<Longrightarrow> \<exists>r L'. getWriteLocks clk i ws ret L = Inr (r, L') \<and> ls_wf L' \<and>
     grown (ls_abs L) (ls_abs L') \<and>
     (r = 0 \<longrightarrow> ret = 0 \<and> (\<forall>k \<in> fst ` set ws. snd (ls_abs L' k) = Some i))"
proof (induction ws arbitrary: ret L)
  case Nil
  then show ?case by simp
next
  case (Cons p ws)
  obtain k v where p: "p = (k, v)" by (cases p)
  obtain b L1 where L1: "lockForWrite L k i (fst (clk True k)) (snd (clk True k)) = Inr (b, L1)"
    "ls_wf L1" "grown (ls_abs L) (ls_abs L1)" "b \<longrightarrow> snd (ls_abs L1 k) = Some i"
    using lockForWrite_step [OF Cons.prems] by blast
  define ret' where "ret' = (if b then ret else REPLY_FAIL)"
  obtain r L2 where L2: "getWriteLocks clk i ws ret' L1 = Inr (r, L2)" "ls_wf L2"
    "grown (ls_abs L1) (ls_abs L2)"
    "r = 0 \<longrightarrow> ret' = 0 \<and> (\<forall>k \<in> fst ` set ws. snd (ls_abs L2 k) = Some i)"
    using Cons.IH [OF L1(2), of ret'] by blast
  have "r = 0 \<Longrightarrow> b \<and> ret = 0 \<and> snd (ls_abs L2 k) = Some i"
    using L2(3,4) L1(4) by (auto simp: ret'_def grown_def split: if_splits)
  moreover have "getWriteLocks clk i (p # ws) ret L = Inr (r, L2)"
    using L1(1) L2(1) by (simp add: p ret'_def del: reply_codes)
  ultimately show ?case
    using L2 grown_trans [OF L1(3) L2(3)] by (auto simp: p)
qed

lemma dropLocks_view:
  "ls_wf L \<Longrightarrow> ls_wf (dropLocks L i t) \<and> ls_abs (dropLocks L i t) = (\<lambda>k.
     (if k \<in> reads t then fst (ls_abs L k) - {i} else fst (ls_abs L k),
      if k \<in> writes t \<and> snd (ls_abs L k) = Some i then None else snd (ls_abs L k)))"
  unfolding dropLocks_def
  by (auto simp: lks.relW_all lks.relR_all fun_eq_iff)

lemma holds_dropLocks:
  "ls_wf L \<Longrightarrow> holds (ls_abs L) j R W \<Longrightarrow> j \<noteq> i \<Longrightarrow> holds (ls_abs (dropLocks L i t)) j R W"
  by (auto simp: holds_def dropLocks_view)

section \<open>Invariant\<close>

definition lst_inv :: "LockStore \<Rightarrow> bool" where
  "lst_inv s \<longleftrightarrow> vs_wf (lst_store s) \<and> ls_wf (lst_locks s) \<and>
     ascending (lst_prepared s) \<and> ascending (lst_precommitted s) \<and>
     (\<forall>i t. map_of (lst_prepared s) i = Some t \<longrightarrow>
        holds (ls_abs (lst_locks s)) i (reads t) (writes t))"

lemma lst_inv_new [simp]: "lst_inv LockStore_new"
  by (simp add: lst_inv_def LockStore_new_def)

lemma lst_inv_conflict_free:
  assumes "lst_inv s"
  shows "conflict_free (map_of (lst_prepared s))"
  unfolding conflict_free_def
proof (intro allI impI)
  fix i j t u
  assume "map_of (lst_prepared s) i = Some t" "map_of (lst_prepared s) j = Some u" "i \<noteq> j"
  with assms have i: "holds (ls_abs (lst_locks s)) i (reads t) (writes t)"
    and j: "holds (ls_abs (lst_locks s)) j (reads u) (writes u)" and wf: "ls_wf (lst_locks s)"
    by (simp_all add: lst_inv_def)
  have "k \<notin> reads u \<and> k \<notin> writes u" if k: "k \<in> writes t" for k
  proof -
    have w: "snd (ls_abs (lst_locks s) k) = Some i" using i k by (auto simp: holds_def)
    with lks.writer_alone [OF wf w] j \<open>i \<noteq> j\<close> show ?thesis by (auto simp: holds_def)
  qed
  then show "writes t \<inter> (reads u \<union> writes u) = {}"
    by (simp add: disjoint_iff)
qed

lemma lst_inv_locks:
  "lst_inv s \<Longrightarrow> ls_wf L \<Longrightarrow> grown (ls_abs (lst_locks s)) (ls_abs L) \<Longrightarrow> lst_inv (s\<lparr>lst_locks := L\<rparr>)"
  unfolding lst_inv_def by (auto intro: holds_grown)

lemma lst_inv_drop:
  "lst_inv s \<Longrightarrow> vs_wf st \<Longrightarrow> lst_inv (s\<lparr>lst_store := st, lst_locks := dropLocks (lst_locks s) i t,
     lst_prepared := AList.delete i (lst_prepared s)\<rparr>)"
  unfolding lst_inv_def
  by (auto simp: ascending_delete dropLocks_view [THEN conjunct1] intro: holds_dropLocks)

lemma lst_inv_store: "lst_inv s \<Longrightarrow> vs_wf st \<Longrightarrow> lst_inv (s\<lparr>lst_store := st\<rparr>)"
  by (simp add: lst_inv_def)

lemma lst_inv_precommitted:
  "lst_inv s \<Longrightarrow> ascending m \<Longrightarrow> lst_inv (s\<lparr>lst_precommitted := m\<rparr>)"
  by (simp add: lst_inv_def)

lemma lst_invD: "lst_inv s \<Longrightarrow> vs_wf (lst_store s)" "lst_inv s \<Longrightarrow> ls_wf (lst_locks s)"
  "lst_inv s \<Longrightarrow> ascending (lst_precommitted s)"
  by (simp_all add: lst_inv_def)

lemma lst_inv_Abort [inv_intro]: "lst_inv s \<Longrightarrow> lst_inv (LS_Abort s i t)"
  using lst_inv_drop [of s "lst_store s" i]
  by (auto simp: LS_Abort_def lst_invD lst_inv_precommitted ascending_delete split: option.split)

lemma lst_inv_Commit [inv_intro]: "lst_inv s \<Longrightarrow> lst_inv (LS_Commit s i ts)"
  using lst_inv_drop [of s _ i] lst_inv_precommitted [OF lst_inv_store]
  by (auto simp: LS_Commit_def lst_invD commit_writes_wf ascending_delete split: option.split)

lemma lst_inv_PreCommit [inv_intro]: "lst_inv s \<Longrightarrow> lst_inv (LS_PreCommit s i)"
  unfolding LS_PreCommit_def Let_def
  by (rule lst_inv_precommitted [OF lst_inv_drop]) (simp_all add: lst_invD ascending_smap_put)

lemma lst_inv_Load [inv_intro]: "lst_inv s \<Longrightarrow> lst_inv (LS_Load s k v ts)"
  by (simp add: LS_Load_def lst_inv_store lst_invD vs_wf_put)

text \<open>
  One lemma for a checked prepare: it is defined, it keeps the invariant, and it adds the
  transaction exactly when it answers \<^verbatim>\<open>REPLY_OK\<close>, in which case every read was current.
\<close>

lemma LS_Prepare_spec:
  assumes inv: "lst_inv s" and known: "\<And>k. k \<in> reads t \<Longrightarrow> inStore (lst_store s) k"
  shows "\<exists>r s'. LS_Prepare clk s i t True = Inr (r, s') \<and> lst_inv s' \<and>
    lst_store s' = lst_store s \<and>
    (r = REPLY_OK \<and> map_of (lst_prepared s) i = None \<longrightarrow>
       (\<forall>(k, ts) \<in> set (txn_readSet t). \<forall>w v. vs_get (lst_store s) k = Some (w, v) \<longrightarrow> w \<le> ts))"
proof (cases "map_of (lst_prepared s) i = None")
  case False
  then show ?thesis using inv by (auto simp: LS_Prepare_def)
next
  case new: True
  obtain ro L1 where rd: "getReadLocks clk (lst_store s) i (txn_readSet t) 0 (lst_locks s) = Inr (ro, L1)"
    "ls_wf L1" "grown (ls_abs (lst_locks s)) (ls_abs L1)"
    "ro = Some 0 \<longrightarrow> (\<forall>(k, ts) \<in> set (txn_readSet t). \<forall>w v. vs_get (lst_store s) k = Some (w, v) \<longrightarrow>
        i \<in> fst (ls_abs L1 k) \<and> w \<le> ts)"
    using getReadLocks_spec [OF lst_invD(2) [OF inv], of clk "lst_store s" i "txn_readSet t" 0] by blast
  show ?thesis
  proof (cases ro)
    case None
    with new rd(1) have "LS_Prepare clk s i t True =
        Inr (REPLY_ABORT, LS_Abort (s\<lparr>lst_locks := L1\<rparr>) i t)"
      by (simp add: LS_Prepare_def getLocks_def)
    moreover have "lst_store (LS_Abort (s\<lparr>lst_locks := L1\<rparr>) i t) = lst_store s"
      by (simp add: LS_Abort_def split: option.split)
    ultimately show ?thesis
      using lst_inv_Abort [OF lst_inv_locks [OF inv rd(2,3)], of i t] by simp
  next
    case (Some ret)
    obtain r L2 where wr: "getWriteLocks clk i (txn_writeSet t) ret L1 = Inr (r, L2)" "ls_wf L2"
      "grown (ls_abs L1) (ls_abs L2)"
      "r = 0 \<longrightarrow> ret = 0 \<and> (\<forall>k \<in> writes t. snd (ls_abs L2 k) = Some i)"
      using getWriteLocks_spec [OF rd(2), of clk i "txn_writeSet t" ret] by blast
    let ?s = "s\<lparr>lst_locks := L2\<rparr>"
    have inv2: "lst_inv ?s"
      using lst_inv_locks [OF inv wr(2) grown_trans [OF rd(3) wr(3)]] .
    have res: "LS_Prepare clk s i t True = Inr (r, if r = REPLY_OK
        then ?s\<lparr>lst_prepared := smap_put i t (lst_prepared s)\<rparr> else ?s)"
      using new rd(1) Some wr(1) by (simp add: LS_Prepare_def getLocks_def)
    show ?thesis
    proof (cases "r = 0")
      case True
      with wr(4) Some rd(4) have fresh: "\<forall>(k, ts) \<in> set (txn_readSet t). \<forall>w v.
          vs_get (lst_store s) k = Some (w, v) \<longrightarrow> i \<in> fst (ls_abs L1 k) \<and> w \<le> ts" by simp
      have "i \<in> fst (ls_abs L2 k)" if k: "k \<in> reads t" for k
      proof -
        obtain ts where "(k, ts) \<in> set (txn_readSet t)" using k by auto
        from fresh [THEN bspec, OF this] have "i \<in> fst (ls_abs L1 k)"
          using known [OF k] by (cases "last (vs_at (lst_store s) k)") (simp add: vs_get_def)
        with wr(3) show ?thesis by (auto simp: grown_def)
      qed
      then have "holds (ls_abs L2) i (reads t) (writes t)"
        using wr(4) True by (simp add: holds_def)
      then have "lst_inv (?s\<lparr>lst_prepared := smap_put i t (lst_prepared s)\<rparr>)"
        using inv2 by (simp add: lst_inv_def ascending_smap_put)
      with res True fresh show ?thesis by auto
    next
      case False
      with res inv2 show ?thesis by simp
    qed
  qed
qed

lemma lst_prepared_Abort_None:
  "map_of (lst_prepared s) i = None \<Longrightarrow> lst_prepared (LS_Abort s i t) = lst_prepared s"
  by (simp add: LS_Abort_def)

lemma LS_Prepare_prepared:
  "LS_Prepare clk s i t c = Inr (r, s') \<Longrightarrow> map_of (lst_prepared s') =
     (if r = REPLY_OK \<and> map_of (lst_prepared s) i = None
      then (map_of (lst_prepared s))(i \<mapsto> t) else map_of (lst_prepared s))"
  unfolding LS_Prepare_def getLocks_def
  by (cases "map_of (lst_prepared s) i"; cases c) (auto simp: bindr_eq_Inr lst_prepared_Abort_None
      split: option.splits)

interpretation lst: txn_store lst_inv "\<lambda>s. map_of (lst_prepared s)"
  "\<lambda>s. map_of (lst_precommitted s)" "\<lambda>s. inStore (lst_store s)"
  "\<lambda>clk s i t. LS_Prepare clk s i t True" LS_Commit LS_PreCommit
  "\<lambda>s i. LS_Abort s i Transaction_default"
proof unfold_locales
  fix s t clk i
  assume "lst_inv s" "\<And>k. k \<in> reads t \<Longrightarrow> inStore (lst_store s) k"
  then show "\<exists>r s'. LS_Prepare clk s i t True = Inr (r, s') \<and> lst_inv s'"
    using LS_Prepare_spec [of s t clk i] by blast
qed (auto simp only: lst_inv_Commit lst_inv_PreCommit lst_inv_Abort lst_inv_conflict_free
      LS_Prepare_prepared,
    auto simp: LS_Commit_def LS_PreCommit_def LS_Abort_def Let_def fun_upd_idem
      split: option.split)

end
