(* ===== verification/StoreServer.thy ===== *)
theory StoreServer
  imports OCCStore LockStore
begin

text \<open>
  src/store/strongstore/server.h and server.cc (class \<^verbatim>\<open>Server\<close>): the upcalls through which a
  replica drives its store. The base-class pointer \<^verbatim>\<open>TxnStore *store\<close> is the datatype
  \<open>TxnStore\<close>, virtual dispatch a case analysis. Requests and replies are the decoded protobuf
  messages of src/store/strongstore/strong-proto.proto: the byte encoding belongs to the protobuf
  library. An optional sub-message that is absent reads as its default instance.
\<close>

datatype TxnStore = OCC OCCStore | LOCK LockStore

datatype Operation = GET | PREPARE | COMMIT | ABORT | PRECOMMIT

record GetMessage =
  gm_key :: string
  gm_timestamp :: "TimestampMessage option"

record Request =
  rq_op :: Operation
  rq_txnid :: u64
  rq_get :: "GetMessage option"
  rq_prepare :: "TransactionMessage option"
  rq_commit :: "u64 option"
  rq_abort :: "TransactionMessage option"
  rq_precommit :: "u64 option"

definition Request_new :: "Operation \<Rightarrow> u64 \<Rightarrow> Request" where
  "Request_new op i = \<lparr>rq_op = op, rq_txnid = i, rq_get = None, rq_prepare = None,
     rq_commit = None, rq_abort = None, rq_precommit = None\<rparr>"

record Reply =
  rp_status :: int
  rp_value :: "string option"
  rp_timestamp :: "u64 option"
  rp_dependency :: "u64 option"

record Server =
  srv_mode :: Mode
  srv_tpcMode :: TpcMode
  srv_store :: TxnStore

text \<open>The constructor; the \<^verbatim>\<open>default\<close> branch aborts the process.\<close>

definition Server_new :: "Mode \<Rightarrow> TpcMode \<Rightarrow> Server option" where
  "Server_new mode tpc = (case mode of
     MODE_LOCK \<Rightarrow> Some \<lparr>srv_mode = mode, srv_tpcMode = tpc, srv_store = LOCK LockStore_new\<rparr>
   | MODE_SPAN_LOCK \<Rightarrow> Some \<lparr>srv_mode = mode, srv_tpcMode = tpc, srv_store = LOCK LockStore_new\<rparr>
   | MODE_OCC \<Rightarrow> Some \<lparr>srv_mode = mode, srv_tpcMode = tpc, srv_store = OCC OCCStore_new\<rparr>
   | MODE_SPAN_OCC \<Rightarrow> Some \<lparr>srv_mode = mode, srv_tpcMode = tpc, srv_store = OCC OCCStore_new\<rparr>
   | MODE_UNKNOWN \<Rightarrow> None)"

fun store_Get_dep :: "TxnStore \<Rightarrow> u64 \<Rightarrow> string \<Rightarrow> Timestamp \<times> string \<Rightarrow> u64 \<Rightarrow>
    int \<times> (Timestamp \<times> string) \<times> u64" where
  "store_Get_dep (OCC s) i key val dep = OCC_Get_dep s i key val dep"
| "store_Get_dep (LOCK s) i key val dep = LS_Get_dep s i key val dep"

fun store_Get_at_dep :: "TxnStore \<Rightarrow> u64 \<Rightarrow> string \<Rightarrow> Timestamp \<Rightarrow> Timestamp \<times> string \<Rightarrow> u64 \<Rightarrow>
    int \<times> (Timestamp \<times> string) \<times> u64" where
  "store_Get_at_dep (OCC s) i key ts val dep = OCC_Get_at_dep s i key ts val dep"
| "store_Get_at_dep (LOCK s) i key ts val dep = LS_Get_at_dep s i key ts val dep"

fun store_Prepare ::
  "lock_clock \<Rightarrow> TxnStore \<Rightarrow> u64 \<Rightarrow> Transaction \<Rightarrow> bool \<Rightarrow> ub + int \<times> TxnStore" where
  "store_Prepare clk (OCC s) i txn do_check = Inr (map_prod id OCC (OCC_Prepare s i txn do_check))"
| "store_Prepare clk (LOCK s) i txn do_check =
     map_sum id (map_prod id LOCK) (LS_Prepare clk s i txn do_check)"

fun store_Commit :: "TxnStore \<Rightarrow> u64 \<Rightarrow> u64 \<Rightarrow> TxnStore" where
  "store_Commit (OCC s) i ts = OCC (OCC_Commit s i ts)"
| "store_Commit (LOCK s) i ts = LOCK (LS_Commit s i ts)"

fun store_PreCommit :: "TxnStore \<Rightarrow> u64 \<Rightarrow> TxnStore" where
  "store_PreCommit (OCC s) i = OCC (OCC_PreCommit s i)"
| "store_PreCommit (LOCK s) i = LOCK (LS_PreCommit s i)"

fun store_Abort :: "TxnStore \<Rightarrow> u64 \<Rightarrow> Transaction \<Rightarrow> TxnStore" where
  "store_Abort (OCC s) i txn = OCC (OCC_Abort s i txn)"
| "store_Abort (LOCK s) i txn = LOCK (LS_Abort s i txn)"

fun store_Load :: "TxnStore \<Rightarrow> string \<Rightarrow> string \<Rightarrow> Timestamp \<Rightarrow> TxnStore" where
  "store_Load (OCC s) key val ts = OCC (OCC_Load s key val ts)"
| "store_Load (LOCK s) key val ts = LOCK (LS_Load s key val ts)"

section \<open>Upcalls\<close>

text \<open>\<open>GetUpcall\<close> leaves the store alone: both dependency reads are pure.\<close>

definition GetUpcall :: "Server \<Rightarrow> Request \<Rightarrow> Reply" where
  "GetUpcall sv request =
     (let g = (case rq_get request of None \<Rightarrow> \<lparr>gm_key = '''', gm_timestamp = None\<rparr> | Some g \<Rightarrow> g);
          val0 = (Timestamp_default, '''');
          r0 = \<lparr>rp_status = 0, rp_value = None, rp_timestamp = None, rp_dependency = None\<rparr>;
          (status, dep, r1) =
            (case gm_timestamp g of
               Some tm \<Rightarrow>
                 (case store_Get_at_dep (srv_store sv) (rq_txnid request) (gm_key g)
                         (Timestamp_of_msg tm) val0 0 of
                    (status, val, dep) \<Rightarrow>
                      (status, dep, if status = 0 then r0\<lparr>rp_value := Some (snd val)\<rparr> else r0))
             | None \<Rightarrow>
                 (case store_Get_dep (srv_store sv) (rq_txnid request) (gm_key g) val0 0 of
                    (status, val, dep) \<Rightarrow>
                      (status, dep, if status = 0
                         then r0\<lparr>rp_value := Some (snd val), rp_timestamp := Some (getTimestamp (fst val))\<rparr>
                         else r0)));
          r2 = (if srv_tpcMode sv = MODE_PARALLEL then r1\<lparr>rp_dependency := Some dep\<rparr> else r1)
      in r2\<lparr>rp_status := status\<rparr>)"

definition status_reply :: "int \<Rightarrow> Reply" where
  "status_reply st = \<lparr>rp_status = st, rp_value = None, rp_timestamp = None, rp_dependency = None\<rparr>"

text \<open>The reply, the out-parameter \<^verbatim>\<open>replicate\<close> and the new server.\<close>

definition PrepareUpcall ::
  "lock_clock \<Rightarrow> Server \<Rightarrow> Request \<Rightarrow> bool \<Rightarrow> ub + Reply \<times> bool \<times> Server" where
  "PrepareUpcall clk sv request do_check =
     (let msg = (case rq_prepare request of None \<Rightarrow> TransactionMessage_default | Some m \<Rightarrow> m) in
      bindr (store_Prepare clk (srv_store sv) (rq_txnid request) (Transaction_of_msg msg) do_check)
        (\<lambda>(status, st).
           Inr (status_reply status,
                status = REPLY_OK \<or> status = REPLY_HAS_PRECOMMIT,
                sv\<lparr>srv_store := st\<rparr>)))"

definition CommitUpcall :: "Server \<Rightarrow> Request \<Rightarrow> Reply \<times> Server" where
  "CommitUpcall sv request =
     (status_reply 0,
      sv\<lparr>srv_store := store_Commit (srv_store sv) (rq_txnid request)
           (case rq_commit request of None \<Rightarrow> 0 | Some ts \<Rightarrow> ts)\<rparr>)"

definition AbortUpcall :: "Server \<Rightarrow> Request \<Rightarrow> Reply \<times> Server" where
  "AbortUpcall sv request =
     (status_reply 0,
      sv\<lparr>srv_store := store_Abort (srv_store sv) (rq_txnid request)
           (Transaction_of_msg (case rq_abort request of None \<Rightarrow> TransactionMessage_default | Some m \<Rightarrow> m))\<rparr>)"

definition PreCommitUpcall :: "Server \<Rightarrow> Request \<Rightarrow> Reply \<times> Server" where
  "PreCommitUpcall sv request =
     (status_reply 0, sv\<lparr>srv_store := store_PreCommit (srv_store sv) (rq_txnid request)\<rparr>)"

definition Server_Load :: "Server \<Rightarrow> string \<Rightarrow> string \<Rightarrow> Timestamp \<Rightarrow> Server" where
  "Server_Load sv key val ts = sv\<lparr>srv_store := store_Load (srv_store sv) key val ts\<rparr>"

section \<open>The store behind the pointer meets the contract\<close>

fun store_inv :: "TxnStore \<Rightarrow> bool" where
  "store_inv (OCC s) = occ_inv s"
| "store_inv (LOCK s) = lst_inv s"

fun store_prepared :: "TxnStore \<Rightarrow> u64 \<rightharpoonup> Transaction" where
  "store_prepared (OCC s) = map_of (occ_prepared s)"
| "store_prepared (LOCK s) = map_of (lst_prepared s)"

fun store_precommitted :: "TxnStore \<Rightarrow> u64 \<rightharpoonup> Transaction" where
  "store_precommitted (OCC s) = map_of (occ_precommitted s)"
| "store_precommitted (LOCK s) = map_of (lst_precommitted s)"

fun store_versions :: "TxnStore \<Rightarrow> VersionedKVStore" where
  "store_versions (OCC s) = occ_store s"
| "store_versions (LOCK s) = lst_store s"

text \<open>An abort ignores the transaction it is handed.\<close>

lemma store_Abort_txn: "store_Abort s i t = store_Abort s i u"
  by (cases s) (simp_all add: OCC_Abort_def LS_Abort_def)

lemma store_Prepare_total:
  assumes "store_inv s" and "\<And>k. k \<in> reads t \<Longrightarrow> inStore (store_versions s) k"
  shows "\<exists>r s'. store_Prepare clk s i t True = Inr (r, s') \<and> store_inv s'"
proof (cases s)
  case (OCC x)
  then show ?thesis using assms occ.prepare_total [of x t i] by auto
next
  case (LOCK x)
  with assms obtain r x' where "LS_Prepare clk x i t True = Inr (r, x')" "lst_inv x'"
    using lst.prepare_total [of x t clk i] by auto
  with LOCK show ?thesis by simp
qed

lemma OCC_Prepare_prepared:
  "OCC_Prepare s i t c = (r, s') \<Longrightarrow> map_of (occ_prepared s') =
     (if r = REPLY_OK \<and> map_of (occ_prepared s) i = None
      then (map_of (occ_prepared s))(i \<mapsto> t) else map_of (occ_prepared s))"
  by (auto simp: OCC_Prepare_def OCC_Abort_def split: if_splits)

lemma store_Prepare_prepared:
  assumes "store_Prepare clk s i t c = Inr (r, s')"
  shows "store_prepared s' = (if r = REPLY_OK \<and> store_prepared s i = None
      then (store_prepared s)(i \<mapsto> t) else store_prepared s)"
proof (cases s)
  case (OCC x)
  with assms obtain x' where x': "OCC_Prepare x i t c = (r, x')" "s' = OCC x'"
    by (cases "OCC_Prepare x i t c") auto
  with OCC_Prepare_prepared [OF x'(1)] OCC show ?thesis by simp
next
  case (LOCK x)
  with assms obtain x' where x': "LS_Prepare clk x i t c = Inr (r, x')" "s' = LOCK x'"
    by (cases "LS_Prepare clk x i t c") auto
  with LS_Prepare_prepared [OF x'(1)] LOCK show ?thesis by simp
qed

lemma store_ops_inv [inv_intro]:
  "store_inv s \<Longrightarrow> store_inv (store_Commit s i ts)"
  "store_inv s \<Longrightarrow> store_inv (store_PreCommit s i)"
  "store_inv s \<Longrightarrow> store_inv (store_Abort s i t)"
  "store_inv s \<Longrightarrow> store_inv (store_Load s k v w)"
  by (cases s; simp add: inv_intro)+

lemma store_inv_conflict_free: "store_inv s \<Longrightarrow> conflict_free (store_prepared s)"
  by (cases s) (simp_all add: occ.invar_conflict_free lst.invar_conflict_free)

lemma store_Commit_view:
  "store_prepared (store_Commit s i ts) =
     (if store_precommitted s i = None then (store_prepared s)(i := None) else store_prepared s)"
  "store_precommitted (store_Commit s i ts) = (store_precommitted s)(i := None)"
  "store_prepared s i = None \<Longrightarrow> store_precommitted s i = None \<Longrightarrow> store_Commit s i ts = s"
  by (cases s; simp add: occ.commit_prepared lst.commit_prepared occ.commit_precommitted
      lst.commit_precommitted occ.commit_none lst.commit_none)+

lemma store_Abort_view:
  "store_prepared (store_Abort s i Transaction_default) =
     (if store_precommitted s i = None then (store_prepared s)(i := None) else store_prepared s)"
  "store_precommitted (store_Abort s i Transaction_default) = (store_precommitted s)(i := None)"
  "store_prepared s i = None \<Longrightarrow> store_precommitted s i = None \<Longrightarrow>
   store_Abort s i Transaction_default = s"
  by (cases s; simp add: occ.abort_prepared lst.abort_prepared occ.abort_precommitted
      lst.abort_precommitted occ.abort_none lst.abort_none)+

lemma store_PreCommit_view:
  "store_prepared (store_PreCommit s i) = (store_prepared s)(i := None)"
  "store_precommitted (store_PreCommit s i) = (store_precommitted s)
     (i \<mapsto> (case store_prepared s i of None \<Rightarrow> Transaction_default | Some t \<Rightarrow> t))"
  by (cases s; simp add: occ.precommit_prepared lst.precommit_prepared
      occ.precommit_precommitted lst.precommit_precommitted)+

interpretation tst: txn_store store_inv store_prepared store_precommitted
  "\<lambda>s. inStore (store_versions s)" "\<lambda>clk s i t. store_Prepare clk s i t True"
  store_Commit store_PreCommit "\<lambda>s i. store_Abort s i Transaction_default"
  by unfold_locales (simp_all only: store_Prepare_total store_Prepare_prepared store_ops_inv
      store_inv_conflict_free store_Commit_view store_Abort_view store_PreCommit_view)

section \<open>Reachable stores\<close>

text \<open>
  Every history of a store: any interleaving of its operations with any arguments. A prepare is
  checked at a leader and unchecked at a follower, and its transaction may read keys that the store
  does not have.
\<close>

inductive store_reach :: "TxnStore \<Rightarrow> bool" where
  new_occ: "store_reach (OCC OCCStore_new)"
| new_lock: "store_reach (LOCK LockStore_new)"
| load: "store_reach s \<Longrightarrow> store_reach (store_Load s k v ts)"
| prepare: "store_reach s \<Longrightarrow> store_Prepare clk s i t do_check = Inr (r, s') \<Longrightarrow> store_reach s'"
| commit: "store_reach s \<Longrightarrow> store_reach (store_Commit s i cts)"
| precommit: "store_reach s \<Longrightarrow> store_reach (store_PreCommit s i)"
| abort: "store_reach s \<Longrightarrow> store_reach (store_Abort s i u)"

text \<open>All that a store needs for its operations to be defined; unlike \<open>store_inv\<close> it survives the
  unchecked prepares of a follower.\<close>

fun store_ok :: "TxnStore \<Rightarrow> bool" where
  "store_ok (OCC s) = True"
| "store_ok (LOCK s) = ls_wf (lst_locks s)"

lemma LS_Abort_ok: "ls_wf (lst_locks s) \<Longrightarrow> ls_wf (lst_locks (LS_Abort s i t))"
  by (simp add: LS_Abort_def dropLocks_view split: option.split)

lemma getLocks_ok:
  assumes "ls_wf (lst_locks s)"
  shows "\<exists>r s'. getLocks clk s i t = Inr (r, s') \<and> ls_wf (lst_locks s')"
proof -
  obtain ro L where L: "getReadLocks clk (lst_store s) i (txn_readSet t) 0 (lst_locks s) = Inr (ro, L)" "ls_wf L"
    using getReadLocks_spec [OF assms] by blast
  show ?thesis
  proof (cases ro)
    case None
    then show ?thesis using L by (simp add: getLocks_def LS_Abort_ok)
  next
    case (Some ret)
    obtain r L' where "getWriteLocks clk i (txn_writeSet t) ret L = Inr (r, L')" "ls_wf L'"
      using getWriteLocks_spec [OF L(2)] by blast
    with L Some show ?thesis by (simp add: getLocks_def)
  qed
qed

lemma store_Prepare_ok:
  assumes "store_ok s"
  shows "\<exists>r s'. store_Prepare clk s i t c = Inr (r, s') \<and> store_ok s'"
proof (cases s)
  case (OCC x)
  then show ?thesis by (cases "OCC_Prepare x i t c") simp
next
  case (LOCK x)
  with assms obtain r x' where x': "getLocks clk x i t = Inr (r, x')" "ls_wf (lst_locks x')"
    using getLocks_ok [of x clk i t] by auto
  with LOCK assms show ?thesis by (simp add: LS_Prepare_def)
qed

lemma store_decide_ok:
  "store_ok s \<Longrightarrow> store_ok (store_Commit s i ts)" "store_ok s \<Longrightarrow> store_ok (store_Abort s i t)"
  "store_ok s \<Longrightarrow> store_ok (store_PreCommit s i)" "store_ok s \<Longrightarrow> store_ok (store_Load s k v w)"
  by (cases s; simp add: LS_Commit_def LS_PreCommit_def LS_Load_def LS_Abort_ok dropLocks_view Let_def
      split: option.split)+

lemma store_reach_ok: "store_reach s \<Longrightarrow> store_ok s"
proof (induction rule: store_reach.induct)
  case (prepare s clk i t c r s')
  then show ?case using store_Prepare_ok [of s clk i t c] by auto
qed (simp_all add: store_decide_ok LockStore_new_def)

text \<open>
  The histories of a leader's store: every prepare is checked, and its transaction reads only keys
  that the store has (src/store/common/frontend/bufferclient.cc records a read only when it succeeded).
  Isolation rests on both; what happens otherwise is shown below.
\<close>

inductive checked_reach :: "TxnStore \<Rightarrow> bool" where
  new_occ: "checked_reach (OCC OCCStore_new)"
| new_lock: "checked_reach (LOCK LockStore_new)"
| load: "checked_reach s \<Longrightarrow> checked_reach (store_Load s k v ts)"
| prepare: "checked_reach s \<Longrightarrow> (\<And>k. k \<in> reads t \<Longrightarrow> inStore (store_versions s) k) \<Longrightarrow>
    store_Prepare clk s i t True = Inr (r, s') \<Longrightarrow> checked_reach s'"
| commit: "checked_reach s \<Longrightarrow> checked_reach (store_Commit s i cts)"
| precommit: "checked_reach s \<Longrightarrow> checked_reach (store_PreCommit s i)"
| abort: "checked_reach s \<Longrightarrow> checked_reach (store_Abort s i u)"

lemma checked_reach_inv: "checked_reach s \<Longrightarrow> store_inv s"
proof (induction rule: checked_reach.induct)
  case (prepare s t clk i r s')
  then show ?case using tst.prepare_total [of s t clk i] by auto
qed (simp_all add: store_ops_inv)

lemma checked_reach_reach: "checked_reach s \<Longrightarrow> store_reach s"
  by (induction rule: checked_reach.induct) (auto intro: store_reach.intros)

lemma store_reads_stable:
  assumes inv: "store_inv s" and i: "store_prepared s i = Some t" and k: "k \<in> reads t \<union> writes t"
    and j: "j \<noteq> i" "store_precommitted s j = None"
  shows "vs_get (store_versions (store_Commit s j cts)) k = vs_get (store_versions s) k"
proof (cases "store_prepared s j")
  case None
  then have "store_Commit s j cts = s" using j(2) by (rule tst.commit_none)
  then show ?thesis by simp
next
  case (Some u)
  have "k \<notin> writes u"
    using tst.prepared_isolated [OF inv Some i j(1)] k by blast
  then have "vs_get (commit_writes j (Timestamp_of cts) (txn_writeSet u) (store_versions s)) k =
      vs_get (store_versions s) k"
    unfolding commit_writes_def by (rule vkv.install_other)
  with Some j(2) show ?thesis
    by (cases s) (simp_all add: OCC_Commit_def LS_Commit_def)
qed

section \<open>Properties\<close>

text \<open>C4. Isolation of prepared transactions at a leader, for both concurrency controls: in every
  store whose prepares were all checked and read only keys the store had, no prepared transaction
  writes a key that another prepared transaction reads or writes. Unchecked prepares, as a follower
  makes them, and prepares that read missing keys are excluded.\<close>

theorem prepared_never_conflict:
  assumes "checked_reach s" and "store_prepared s i = Some t" and "store_prepared s j = Some u"
    and "i \<noteq> j"
  shows "writes t \<inter> (reads u \<union> writes u) = {}"
  using tst.prepared_isolated [OF checked_reach_inv [OF assms(1)] assms(2-4)] .

definition demo_clk :: lock_clock where
  "demo_clk w k = (\<lparr>tv_sec = 1, tv_usec = 0\<rparr>, \<lparr>tv_sec = 1, tv_usec = 0\<rparr>)"

definition demo_x :: Transaction where
  "demo_x = addWriteSet (Transaction_id 1) ''x'' ''1''"

definition demo_y :: Transaction where
  "demo_y = addWriteSet (Transaction_id 2) ''y'' ''2''"

definition demo_two :: "TxnStore \<Rightarrow> TxnStore" where
  "demo_two s = (case store_Prepare demo_clk s 1 demo_x True of
     Inl e \<Rightarrow> s
   | Inr (r, s1) \<Rightarrow> (case store_Prepare demo_clk s1 2 demo_y True of Inl e \<Rightarrow> s | Inr (r, s2) \<Rightarrow> s2))"

lemma checked_reach_blind:
  "checked_reach s \<Longrightarrow> txn_readSet t = [] \<Longrightarrow> store_Prepare clk s i t True = Inr (r, s') \<Longrightarrow> checked_reach s'"
  by (erule checked_reach.prepare) auto

lemma demo_two_reach: "checked_reach s \<Longrightarrow> checked_reach (demo_two s)"
proof -
  have "txn_readSet demo_x = []" "txn_readSet demo_y = []" by code_simp+
  then show "checked_reach s \<Longrightarrow> ?thesis"
    by (auto simp: demo_two_def split: sum.split intro: checked_reach_blind)
qed

theorem prepared_never_conflict_witness:
  "store_prepared (demo_two (LOCK LockStore_new)) 1 = Some demo_x \<and>
   store_prepared (demo_two (LOCK LockStore_new)) 2 = Some demo_y \<and>
   writes demo_x \<inter> (reads demo_y \<union> writes demo_y) = {}"
proof -
  have r: "checked_reach (demo_two (LOCK LockStore_new))"
    by (rule demo_two_reach [OF checked_reach.new_lock])
  have p: "store_prepared (demo_two (LOCK LockStore_new)) 1 = Some demo_x"
    "store_prepared (demo_two (LOCK LockStore_new)) 2 = Some demo_y"
    by code_simp+
  show ?thesis
    using prepared_never_conflict [OF r p] p by simp
qed

text \<open>C14. A prepare, checked or not, never leaves the defined part of the language and always answers:
  in every store reachable by any operations, for any transaction, it returns a status and a
  reachable store, and the transaction is prepared afterwards exactly when the status is
  \<^verbatim>\<open>REPLY_OK\<close> or it was prepared before.\<close>

theorem prepare_answers:
  assumes "store_reach s"
  shows "\<exists>r s'. store_Prepare clk s i t do_check = Inr (r, s') \<and> store_reach s' \<and>
    (store_prepared s' i \<noteq> None \<longleftrightarrow> r = REPLY_OK \<or> store_prepared s i \<noteq> None)"
proof -
  obtain r s' where p: "store_Prepare clk s i t do_check = Inr (r, s')"
    using store_Prepare_ok [OF store_reach_ok [OF assms]] by blast
  moreover have "store_reach s'" by (rule store_reach.prepare [OF assms p])
  ultimately show ?thesis using store_Prepare_prepared [OF p] by auto
qed

theorem prepare_answers_witness:
  "\<exists>r s'. store_Prepare demo_clk (LOCK LockStore_new) 1 demo_x True = Inr (r, s') \<and> store_reach s' \<and>
    (store_prepared s' 1 \<noteq> None \<longleftrightarrow> r = REPLY_OK \<or> store_prepared (LOCK LockStore_new) 1 \<noteq> None)"
  by (rule prepare_answers [OF store_reach.new_lock])

text \<open>C10. While a transaction is prepared at a leader, a commit of any other transaction that has not
  left concurrency control early cannot change the latest version of a key it reads or writes: what
  its validation saw still holds when it commits. The store's prepares were all checked and read
  only keys the store had.\<close>

theorem prepared_reads_stay_valid:
  assumes "checked_reach s" and "store_prepared s i = Some t" and "k \<in> reads t \<union> writes t"
    and "j \<noteq> i" and "store_precommitted s j = None"
  shows "vs_get (store_versions (store_Commit s j cts)) k = vs_get (store_versions s) k"
  using store_reads_stable [OF checked_reach_inv [OF assms(1)] assms(2-5)] .

theorem prepared_reads_stay_valid_witness:
  "vs_get (store_versions (store_Commit (demo_two (OCC OCCStore_new)) 2 9)) ''x'' = None \<and>
   vs_get (store_versions (store_Commit (demo_two (OCC OCCStore_new)) 2 9)) ''y'' =
     Some (Timestamp_of 9, ''2'')"
proof -
  have r: "checked_reach (demo_two (OCC OCCStore_new))"
    by (rule demo_two_reach [OF checked_reach.new_occ])
  have p: "store_prepared (demo_two (OCC OCCStore_new)) 1 = Some demo_x"
    "''x'' \<in> reads demo_x \<union> writes demo_x" "(2 :: u64) \<noteq> 1"
    "store_precommitted (demo_two (OCC OCCStore_new)) 2 = None"
    by code_simp+
  have "vs_get (store_versions (demo_two (OCC OCCStore_new))) ''x'' = None"
    and "vs_get (store_versions (store_Commit (demo_two (OCC OCCStore_new)) 2 9)) ''y'' =
      Some (Timestamp_of 9, ''2'')"
    by code_simp+
  then show ?thesis
    using prepared_reads_stay_valid [OF r p, of 9] by simp
qed

text \<open>Both restrictions of a leader's histories are needed. A follower prepares without checks, so two
  conflicting transactions can be prepared there at once, the first one still waiting for its
  commit, and the commit of one changes what the other has read.\<close>

definition demo_read_x :: Transaction where
  "demo_read_x = addReadSet (addWriteSet (Transaction_id 2) ''y'' ''2'') ''x'' (Timestamp_of 0)"

lemma follower_prepares_conflict:
  "case store_Prepare demo_clk (OCC OCCStore_new) 1 demo_x False of
     Inl e \<Rightarrow> False
   | Inr (r, s1) \<Rightarrow> (case store_Prepare demo_clk s1 2 demo_read_x False of
       Inl e \<Rightarrow> False
     | Inr (r', s2) \<Rightarrow> r = REPLY_OK \<and> r' = REPLY_OK \<and>
         store_prepared s2 1 = Some demo_x \<and> store_prepared s2 2 = Some demo_read_x \<and>
         vs_get (store_versions s2) ''x'' = None \<and>
         vs_get (store_versions (store_Commit s2 1 9)) ''x'' = Some (Timestamp_of 9, ''1''))"
  by code_simp

text \<open>A checked prepare skips a read whose key the store does not have, also when a prepared
  transaction writes that key: both controls accept the two transactions of the previous example.\<close>

definition accepts_both :: "TxnStore \<Rightarrow> bool" where
  "accepts_both s =
     (case store_Prepare demo_clk s 1 demo_x True of
        Inl e \<Rightarrow> False
      | Inr (r, s1) \<Rightarrow> (case store_Prepare demo_clk s1 2 demo_read_x True of
          Inl e \<Rightarrow> False
        | Inr (r', s2) \<Rightarrow> r = REPLY_OK \<and> r' = REPLY_OK \<and>
            store_prepared s2 1 = Some demo_x \<and> store_prepared s2 2 = Some demo_read_x))"

lemma missing_read_skips_check: "accepts_both (OCC OCCStore_new) \<and> accepts_both (LOCK LockStore_new)"
  by code_simp

text \<open>A transaction is decided once: after a commit that removed it, a second commit or a late
  abort of the same transaction changes nothing in the store.\<close>

lemma decided_once:
  assumes "store_prepared s i = None \<or> store_precommitted s i = None"
  shows "store_Commit (store_Commit s i ts) i ts' = store_Commit s i ts \<and>
    store_Abort (store_Commit s i ts) i t = store_Commit s i ts"
  using tst.commit_once [OF assms] tst.commit_then_abort [OF assms]
  by (simp add: store_Abort_txn [of _ i t Transaction_default])




definition try_prepare :: "TxnStore \<Rightarrow> u64 \<Rightarrow> Transaction \<Rightarrow> int \<times> TxnStore" where
  "try_prepare s i t = (case store_Prepare demo_clk s i t True of Inl e \<Rightarrow> (REPLY_FAIL, s) | Inr p \<Rightarrow> p)"


text \<open>Aborting a pre-committed transaction leaves it on the pre-commit lists of the keys it
  wrote: a later read of such a key still answers with a dependency on the aborted transaction and
  no value.\<close>

lemma abort_keeps_precommit_mark:
  assumes "store_precommitted s i = Some t" and "inStore (store_versions s) k"
    and "vs_precommits (store_versions s) k = Some (ps @ [i])"
  shows "store_precommitted (store_Abort s i u) i = None \<and>
    vs_get_dep (store_versions (store_Abort s i u)) k val d = (True, val, i)"
  using assms
  by (cases s) (simp_all add: OCC_Abort_def LS_Abort_def vs_get_dep_def)

definition leak_txn :: Transaction where
  "leak_txn = addWriteSet (addWriteSet (Transaction_id 2) ''y'' ''2'') ''x'' ''2''"

definition leak_three :: Transaction where
  "leak_three = addWriteSet (Transaction_id 3) ''y'' ''3''"

text \<open>A refused prepare of the locking store keeps the locks it took, and the abort that follows
  does not release them: transaction 2 gets \<open>y\<close>, fails on \<open>x\<close> and is aborted, yet \<open>y\<close> stays locked
  against transaction 3.\<close>

lemma refused_prepare_leaks_locks:
  "let s1 = snd (try_prepare (LOCK LockStore_new) 1 demo_x);
       (r2, s2) = try_prepare s1 2 leak_txn;
       s3 = store_Abort (store_Abort s2 2 leak_txn) 1 demo_x
   in r2 = REPLY_FAIL \<and> store_prepared s3 1 = None \<and> store_prepared s3 2 = None \<and>
      fst (try_prepare s3 3 leak_three) = REPLY_FAIL"
  by code_simp

end
