(* ===== verification/Coordinator.thy ===== *)
theory Coordinator
  imports D2PC_Prelude
begin

text \<open>
  src/replication/commit/coordinator.h and coordinator.cc: a replica of the D2PC coordinator group.
  It collects the votes that shard replicas send, tells the co-located leaders to pre-commit once
  all participants voted \<^verbatim>\<open>PREPARED\<close>, forwards replication acknowledgements to the transaction's
  corresponding coordinator, and commits once every participant's log entry is on a majority.

  Messages are the decoded protobuf messages of src/replication/commit/commit-proto.proto. A handler
  takes the state and a message and returns the new state and the messages it sends, in order; a
  handler that fails has still sent what it sent before it failed, so a failure carries those
  messages too (\<open>co_res\<close>, sequenced by \<open>bindw\<close>). The
  outcome of a send is only logged by the code, so a send is its entry in that list. The map from
  transactions to \<^verbatim>\<open>PendingCommit *\<close> holds the pointed-to record: every pointer is reached through
  the map and deleted when its entry is erased. \<^verbatim>\<open>colocatedReplicateReplies\<close> is never used.
\<close>

datatype CommitResult = CR_COMMIT | CR_ABORT | CR_PRECOMMIT | CR_PREPARED

record CommitState =
  cs_commitState :: CommitResult
  cs_reachFaultTolerance :: bool

record BypassLeaderReply =
  bl_tid :: u64
  bl_shard :: u64
  bl_replica :: u64

record ReplicateReplyAndVote =
  rv_tid :: u64
  rv_shard :: u64
  rv_replica :: u64
  rv_vote :: CommitResult
  rv_participants :: "u64 list"
  rv_primaryShard :: u64
  rv_primaryCoordinator :: u64
  rv_timestamp :: u64
  rv_hasPreCommit :: bool

record Vote =
  vo_tid :: u64
  vo_vote :: CommitResult
  vo_shard :: u64
  vo_participants :: "u64 list"
  vo_primaryShard :: u64
  vo_primaryCoordinator :: u64
  vo_replica :: u64
  vo_timestamp :: u64

record BypassLeaderReplyUnion =
  bu_tid :: u64
  bu_shards :: "u64 list"
  bu_replica :: u64

record NotifyDecisionToPrimary =
  np_tid :: u64
  np_state :: CommitResult
  np_participants :: "u64 list"
  np_primaryShard :: u64
  np_timestamp :: u64

record RequestCommitResult =
  rc_tid :: u64
  rc_participants :: "u64 list"
  rc_primaryShard :: u64
  rc_shard :: u64

datatype co_msg =
    MReplicateReplyAndVote ReplicateReplyAndVote
  | MBypassLeaderReply BypassLeaderReply
  | MReplicateDecision u64 CommitResult u64
  | MReplyDecision u64 u64 u64
  | MBypassLeaderReplyUnion BypassLeaderReplyUnion
  | MVote Vote
  | MRequestCommitResult RequestCommitResult
  | MNotifyDecisionToPrimary NotifyDecisionToPrimary
  | MReplicateResult u64 u64 u64
  | MNotifyDependenciesAreCleared u64 u64

datatype co_out =
    ONotifyDecision u64 CommitResult u64
  | ONotifyReplicateResult u64 bool u64
  | OReplicateDecision u64 CommitResult u64
  | OReplyDecision u64 u64 u64
  | OBypassLeaderReply u64 u64 u64

datatype co_dest = ToShard nat int | ToCoordinator int | ToAllCoordinators

type_synonym co_sends = "(co_dest \<times> co_out) list"

record PendingCommit =
  pc_tid :: u64
  pc_participants :: "u64 list"
  pc_votes :: "(u64 \<times> CommitResult) list"
  pc_dependencies :: "(u64 \<times> bool) list"
  pc_replicateResults :: "(u64 \<times> BypassLeaderReply list) list"
  pc_commitDecisionReplies :: "u64 set"
  pc_majority :: nat
  pc_primary_shard :: "u64 option"
  pc_primary_coordinator :: "u64 option"
  pc_timestamp :: u64
  pc_state :: "CommitResult option"
  pc_reach_consensus :: bool
  pc_reach_fault_tolerance :: bool

record Coordinator =
  co_id :: u64
  co_n :: int
  co_quorum_size :: nat
  co_nshards :: nat
  co_pending :: "u64 \<rightharpoonup> PendingCommit"
  co_results :: "u64 \<rightharpoonup> CommitState"

definition Coordinator_new :: "nat \<Rightarrow> nat \<Rightarrow> u64 \<Rightarrow> Coordinator" where
  "Coordinator_new nshards nreplicas i =
     \<lparr>co_id = i, co_n = int nreplicas, co_quorum_size = nreplicas div 2 + 1, co_nshards = nshards,
      co_pending = Map.empty, co_results = Map.empty\<rparr>"

definition PendingCommit_new :: "nat \<Rightarrow> u64 \<Rightarrow> PendingCommit" where
  "PendingCommit_new majority tid =
     \<lparr>pc_tid = tid, pc_participants = [], pc_votes = [], pc_dependencies = [],
      pc_replicateResults = [], pc_commitDecisionReplies = {}, pc_majority = majority,
      pc_primary_shard = None, pc_primary_coordinator = None, pc_timestamp = 0, pc_state = None,
      pc_reach_consensus = False, pc_reach_fault_tolerance = False\<rparr>"

text \<open>
  Steps that send and may fail: \<open>tell\<close> sends, \<open>pure\<close> is a step that sends nothing, \<open>bindw\<close> runs
  one step after another and keeps the messages of both, also when the second one fails.
\<close>

type_synonym 'a co_res = "(ub \<times> co_sends) + 'a \<times> co_sends"

definition bindw :: "'a co_res \<Rightarrow> ('a \<Rightarrow> 'b co_res) \<Rightarrow> 'b co_res" where
  "bindw r f =
     (case r of
        Inl x \<Rightarrow> Inl x
      | Inr (a, o1) \<Rightarrow>
          (case f a of Inl (e, o2) \<Rightarrow> Inl (e, o1 @ o2) | Inr (b, o2) \<Rightarrow> Inr (b, o1 @ o2)))"

definition tell :: "co_sends \<Rightarrow> unit co_res" where
  "tell os = Inr ((), os)"

definition pure :: "ub + 'a \<Rightarrow> 'a co_res" where
  "pure r = (case r of Inl e \<Rightarrow> Inl (e, []) | Inr a \<Rightarrow> Inr (a, []))"

text \<open>The outcome of a step for a caller that stops at a failure, whatever was sent before.\<close>

definition co_outcome :: "'a co_res \<Rightarrow> ub + 'a \<times> co_sends" where
  "co_outcome r = (case r of Inl (e, os) \<Rightarrow> Inl e | Inr p \<Rightarrow> Inr p)"

text \<open>The messages a step has sent, whether it returns or fails.\<close>

definition co_sent :: "'a co_res \<Rightarrow> co_sends" where
  "co_sent r = (case r of Inl (e, os) \<Rightarrow> os | Inr (a, os) \<Rightarrow> os)"

text \<open>Bookkeeping on the two maps.\<close>

definition put_req :: "Coordinator \<Rightarrow> u64 \<Rightarrow> PendingCommit \<Rightarrow> Coordinator" where
  "put_req c tid req = c\<lparr>co_pending := (co_pending c)(tid \<mapsto> req)\<rparr>"

definition drop_req :: "Coordinator \<Rightarrow> u64 \<Rightarrow> Coordinator" where
  "drop_req c tid = c\<lparr>co_pending := (co_pending c)(tid := None)\<rparr>"

definition set_result :: "Coordinator \<Rightarrow> u64 \<Rightarrow> CommitResult \<Rightarrow> bool \<Rightarrow> Coordinator" where
  "set_result c tid st ft =
     c\<lparr>co_results := (co_results c)(tid \<mapsto> \<lparr>cs_commitState = st, cs_reachFaultTolerance = ft\<rparr>)\<rparr>"

section \<open>Checks\<close>

text \<open>
  \<^verbatim>\<open>req->votes[p]\<close> inserts the enumeration's zero value, \<^verbatim>\<open>COMMIT\<close>, for a participant that
  has not voted; the loop stops there.
\<close>

primrec check_votes :: "u64 list \<Rightarrow> (u64 \<times> CommitResult) list \<Rightarrow> bool \<times> (u64 \<times> CommitResult) list" where
  "check_votes [] votes = (True, votes)"
| "check_votes (p # ps) votes =
     (case map_of votes p of
        None \<Rightarrow> (False, AList.update p CR_COMMIT votes)
      | Some v \<Rightarrow> if v \<noteq> CR_PREPARED then (False, votes) else check_votes ps votes)"

definition ReachConsensus :: "PendingCommit \<Rightarrow> bool \<times> PendingCommit" where
  "ReachConsensus req =
     (if length (pc_votes req) \<noteq> length (pc_participants req) then (False, req)
      else case check_votes (pc_participants req) (pc_votes req) of
             (ok, votes) \<Rightarrow> (ok, req\<lparr>pc_votes := votes\<rparr>))"

primrec check_dependencies :: "u64 list \<Rightarrow> (u64 \<times> bool) list \<Rightarrow> bool" where
  "check_dependencies [] deps = True"
| "check_dependencies (p # ps) deps =
     (case map_of deps p of
        None \<Rightarrow> check_dependencies ps deps
      | Some d \<Rightarrow> if d then False else check_dependencies ps deps)"

definition AllParticipantsHaveNoPrecommitDependency :: "PendingCommit \<Rightarrow> bool" where
  "AllParticipantsHaveNoPrecommitDependency req =
     (if length (pc_dependencies req) \<noteq> length (pc_participants req) then False
      else check_dependencies (pc_participants req) (pc_dependencies req))"

definition ReachFaultTolerance :: "PendingCommit \<Rightarrow> bool" where
  "ReachFaultTolerance req =
     (if length (pc_participants req) \<le> 0 then False
      else if length (pc_replicateResults req) \<noteq> length (pc_participants req) then False
      else list_all (\<lambda>p. \<not> length (snd p) < pc_majority req) (pc_replicateResults req))"

section \<open>Notifications\<close>

definition shard_index :: "Coordinator \<Rightarrow> u64 \<Rightarrow> ub + nat" where
  "shard_index c p =
     (if 0 \<le> int32 p \<and> int32 p < int (co_nshards c) then Inr (nat (int32 p)) else Inl OutOfBounds)"

primrec notify_colocated :: "Coordinator \<Rightarrow> co_out \<Rightarrow> u64 list \<Rightarrow> unit co_res" where
  "notify_colocated c m [] = tell []"
| "notify_colocated c m (p # ps) =
     bindw (pure (umod p (co_n c))) (\<lambda>r.
     bindw (if r = co_id c
            then bindw (pure (shard_index c p)) (\<lambda>i. tell [(ToShard i (int32 (co_id c)), m)])
            else tell []) (\<lambda>_.
       notify_colocated c m ps))"

definition NotifyCommitDecision :: "Coordinator \<Rightarrow> PendingCommit \<Rightarrow> unit co_res" where
  "NotifyCommitDecision c req =
     bindw (pure (rd (pc_state req))) (\<lambda>st.
       notify_colocated c (ONotifyDecision (pc_tid req) st (pc_timestamp req)) (pc_participants req))"

text \<open>The shard is told before the state is read for the announcement to the group.\<close>

definition NotifyReplicateResult :: "Coordinator \<Rightarrow> PendingCommit \<Rightarrow> unit co_res" where
  "NotifyReplicateResult c req =
     bindw (pure (rd (pc_primary_shard req))) (\<lambda>ps.
     bindw (pure (shard_index c ps)) (\<lambda>i.
     bindw (tell [(ToShard i (int32 (co_id c)), ONotifyReplicateResult (pc_tid req) True (pc_timestamp req))]) (\<lambda>_.
     bindw (pure (rd (pc_state req))) (\<lambda>st.
       tell [(ToAllCoordinators, OReplicateDecision (pc_tid req) st (pc_timestamp req))]))))"

text \<open>The step that closes a transaction: record the result, notify, erase the request.\<close>

definition commit_req :: "Coordinator \<Rightarrow> u64 \<Rightarrow> PendingCommit \<Rightarrow> CommitResult \<Rightarrow> Coordinator co_res" where
  "commit_req c tid req st =
     bindw (NotifyReplicateResult c req) (\<lambda>_. Inr (drop_req (set_result c tid st True) tid, []))"

definition abort_req :: "Coordinator \<Rightarrow> u64 \<Rightarrow> PendingCommit \<Rightarrow> Coordinator co_res" where
  "abort_req c tid req =
     bindw (NotifyCommitDecision c req) (\<lambda>_. Inr (drop_req (set_result c tid CR_ABORT False) tid, []))"

section \<open>Handlers\<close>

text \<open>The record a vote is counted in: a fresh one, or the existing one updated.\<close>

definition vote_record ::
  "Coordinator \<Rightarrow> u64 \<Rightarrow> u64 list \<Rightarrow> u64 \<Rightarrow> u64 \<Rightarrow> u64 \<Rightarrow> PendingCommit" where
  "vote_record c tid participants primaryShard primaryCoordinator timestamp =
     (case co_pending c tid of
        None \<Rightarrow>
          (PendingCommit_new (co_quorum_size c) tid)
            \<lparr>pc_primary_shard := Some primaryShard, pc_primary_coordinator := Some primaryCoordinator,
             pc_participants := participants, pc_timestamp := timestamp\<rparr>
      | Some req \<Rightarrow>
          req\<lparr>pc_participants :=
                 (if length (pc_participants req) = 0 then participants else pc_participants req),
              pc_primary_shard := Some primaryShard, pc_primary_coordinator := Some (co_id c),
              pc_timestamp := (if timestamp > pc_timestamp req then timestamp else pc_timestamp req)\<rparr>)"

definition HandleReplicateReplyAndVote ::
  "Coordinator \<Rightarrow> ReplicateReplyAndVote \<Rightarrow> Coordinator co_res" where
  "HandleReplicateReplyAndVote c msg =
     (if co_results c (rv_tid msg) \<noteq> None then Inr (c, [])
      else
        let tid = rv_tid msg;
            req = vote_record c tid (rv_participants msg) (rv_primaryShard msg)
                    (rv_primaryCoordinator msg) (rv_timestamp msg);
            fwd = [(ToCoordinator (int32 (rv_primaryCoordinator msg)),
                    OBypassLeaderReply tid (rv_shard msg) (rv_replica msg))]
        in if rv_vote msg = CR_PREPARED then
             (case ReachConsensus
                     (req\<lparr>pc_votes := AList.update (rv_shard msg) (rv_vote msg) (pc_votes req),
                          pc_dependencies :=
                            AList.update (rv_shard msg) (rv_hasPreCommit msg) (pc_dependencies req)\<rparr>) of
                (False, req) \<Rightarrow> Inr (put_req c tid req, fwd)
              | (True, req) \<Rightarrow>
                  let req = req\<lparr>pc_state := Some CR_PREPARED, pc_reach_consensus := True\<rparr> in
                  bindw (NotifyCommitDecision c req) (\<lambda>_.
                  bindw (if pc_primary_coordinator req = Some (co_id c) \<and> pc_reach_fault_tolerance req \<and>
                            AllParticipantsHaveNoPrecommitDependency req
                         then commit_req c tid req CR_PREPARED
                         else Inr (put_req c tid req, [])) (\<lambda>c.
                    Inr (c, fwd))))
           else abort_req c tid (req\<lparr>pc_state := Some CR_ABORT, pc_reach_consensus := True\<rparr>))"

definition find_or_new :: "Coordinator \<Rightarrow> u64 \<Rightarrow> PendingCommit" where
  "find_or_new c tid =
     (case co_pending c tid of None \<Rightarrow> PendingCommit_new (co_quorum_size c) tid | Some req \<Rightarrow> req)"

definition replies_at :: "PendingCommit \<Rightarrow> u64 \<Rightarrow> BypassLeaderReply list" where
  "replies_at req shard = (case map_of (pc_replicateResults req) shard of None \<Rightarrow> [] | Some rs \<Rightarrow> rs)"

definition set_replies :: "PendingCommit \<Rightarrow> u64 \<Rightarrow> BypassLeaderReply list \<Rightarrow> PendingCommit" where
  "set_replies req shard rs =
     req\<lparr>pc_replicateResults := AList.update shard rs (pc_replicateResults req)\<rparr>"

definition already_received :: "PendingCommit \<Rightarrow> u64 \<Rightarrow> u64 \<Rightarrow> bool" where
  "already_received req shard replica = list_ex (\<lambda>p. bl_replica p = replica) (replies_at req shard)"

definition HandleBypassLeaderReply ::
  "Coordinator \<Rightarrow> BypassLeaderReply \<Rightarrow> Coordinator co_res" where
  "HandleBypassLeaderReply c msg =
     (let tid = bl_tid msg; shard = bl_shard msg in
      if co_results c tid \<noteq> None then Inr (c, [])
      else
        let req = find_or_new c tid in
        if already_received req shard (bl_replica msg)
        then Inr (put_req c tid (set_replies req shard (replies_at req shard)), [])
        else
          let req = set_replies req shard (replies_at req shard @ [msg]) in
          if ReachFaultTolerance req
          then let req = req\<lparr>pc_reach_fault_tolerance := True\<rparr> in
               if pc_reach_consensus req \<and> AllParticipantsHaveNoPrecommitDependency req
               then commit_req c tid req CR_COMMIT
               else Inr (put_req c tid req, [])
          else Inr (put_req c tid req, []))"

text \<open>
  The loop over the shards of a union reply. \<open>seen\<close> is the flag \<^verbatim>\<open>already_received\<close>, declared
  before the loop: once set it stays set for the remaining shards.
\<close>

primrec union_loop :: "Coordinator \<Rightarrow> u64 \<Rightarrow> u64 \<Rightarrow> u64 list \<Rightarrow> bool \<Rightarrow> PendingCommit \<Rightarrow>
    Coordinator co_res" where
  "union_loop c tid replica [] seen req = Inr (put_req c tid req, [])"
| "union_loop c tid replica (q # qs) seen req =
     (let seen = (seen \<or> already_received req q replica) in
      if seen then union_loop c tid replica qs seen (set_replies req q (replies_at req q))
      else
        let req = set_replies req q
              (replies_at req q @ [\<lparr>bl_tid = tid, bl_shard = q, bl_replica = replica\<rparr>]) in
        if ReachFaultTolerance req
        then let req = req\<lparr>pc_reach_fault_tolerance := True\<rparr> in
             if pc_reach_consensus req \<and> AllParticipantsHaveNoPrecommitDependency req
             then commit_req c tid req CR_COMMIT
             else union_loop c tid replica qs seen req
        else union_loop c tid replica qs seen req)"

definition HandleBypassLeaderReplyUnion ::
  "Coordinator \<Rightarrow> BypassLeaderReplyUnion \<Rightarrow> Coordinator co_res" where
  "HandleBypassLeaderReplyUnion c msg =
     (if co_results c (bu_tid msg) \<noteq> None then Inr (c, [])
      else union_loop c (bu_tid msg) (bu_replica msg) (bu_shards msg) False (find_or_new c (bu_tid msg)))"

definition HandleNotifyDependenciesAreCleared ::
  "Coordinator \<Rightarrow> u64 \<Rightarrow> u64 \<Rightarrow> Coordinator co_res" where
  "HandleNotifyDependenciesAreCleared c tid shard =
     (case co_pending c tid of
        None \<Rightarrow> Inr (c, [])
      | Some req \<Rightarrow>
          let req = req\<lparr>pc_dependencies := AList.update shard False (pc_dependencies req)\<rparr> in
          if AllParticipantsHaveNoPrecommitDependency req \<and> pc_reach_consensus req \<and>
             pc_reach_fault_tolerance req
          then bindw (pure (rd (pc_state req))) (\<lambda>st. commit_req c tid req st)
          else Inr (put_req c tid req, []))"

definition HandleReplicateDecision ::
  "Coordinator \<Rightarrow> u64 \<Rightarrow> CommitResult \<Rightarrow> u64 \<Rightarrow> Coordinator co_res" where
  "HandleReplicateDecision c tid state timestamp =
     (case co_pending c tid of
        None \<Rightarrow> Inr (c, [])
      | Some req \<Rightarrow>
          let req = req\<lparr>pc_state := Some state\<rparr>;
              c = put_req c tid req;
              c = set_result c tid (if state = CR_COMMIT then CR_COMMIT else CR_ABORT) False
          in bindw (pure (rd (pc_primary_shard req))) (\<lambda>ps.
             bindw (pure (umod ps (co_n c))) (\<lambda>r.
               let pcoord = int32 r in
               Inr (if (word_of_int pcoord :: u64) \<noteq> co_id c then drop_req c tid else c,
                    [(ToCoordinator pcoord, OReplyDecision tid (co_id c) (pc_timestamp req))]))))"

definition HandleReplyDecision :: "Coordinator \<Rightarrow> u64 \<Rightarrow> u64 \<Rightarrow> Coordinator \<times> co_sends" where
  "HandleReplyDecision c tid coordinatorid =
     (case co_pending c tid of
        None \<Rightarrow> (c, [])
      | Some req \<Rightarrow>
          if coordinatorid \<in> pc_commitDecisionReplies req then (c, [])
          else
            let replies = insert coordinatorid (pc_commitDecisionReplies req) in
            if card replies \<ge> pc_majority req then (drop_req c tid, [])
            else (put_req c tid (req\<lparr>pc_commitDecisionReplies := replies\<rparr>), []))"

definition HandleNotifyDecision ::
  "Coordinator \<Rightarrow> NotifyDecisionToPrimary \<Rightarrow> Coordinator co_res" where
  "HandleNotifyDecision c msg =
     (let tid = np_tid msg in
      case co_pending c tid of
        None \<Rightarrow> Inr (c, [])
      | Some req \<Rightarrow>
          if pc_reach_consensus req then Inr (c, [])
          else
            let req = req\<lparr>pc_reach_consensus := True, pc_state := Some (np_state msg)\<rparr>;
                req = (if length (pc_participants req) = 0
                       then req\<lparr>pc_primary_shard := Some (np_primaryShard msg),
                                pc_participants := np_participants msg\<rparr>
                       else req)
            in if np_state msg = CR_COMMIT then
                 let req = req\<lparr>pc_timestamp := np_timestamp msg\<rparr> in
                 if pc_reach_fault_tolerance req then commit_req c tid req (np_state msg)
                 else Inr (put_req c tid req, [])
               else abort_req c tid req)"

definition HandleRequestCommitResult ::
  "Coordinator \<Rightarrow> RequestCommitResult \<Rightarrow> Coordinator co_res" where
  "HandleRequestCommitResult c msg =
     (let tid = rc_tid msg in
      case co_pending c tid of
        None \<Rightarrow>
          let req = (PendingCommit_new (co_quorum_size c) tid)
                \<lparr>pc_primary_shard := Some (rc_primaryShard msg), pc_primary_coordinator := Some (co_id c),
                 pc_participants := rc_participants msg\<rparr> in
          if co_results c tid \<noteq> None
          then bindw (NotifyReplicateResult c req) (\<lambda>_. Inr (c, []))
          else Inr (put_req c tid req, [])
      | Some req \<Rightarrow>
          Inr (put_req c tid (req\<lparr>pc_participants :=
                  (if length (pc_participants req) = 0 then rc_participants msg else pc_participants req),
                pc_primary_shard := Some (rc_primaryShard msg)\<rparr>), []))"

definition HandleVote :: "Coordinator \<Rightarrow> Vote \<Rightarrow> Coordinator co_res" where
  "HandleVote c msg =
     (if co_results c (vo_tid msg) \<noteq> None then Inr (c, [])
      else
        let tid = vo_tid msg;
            req = vote_record c tid (vo_participants msg) (vo_primaryShard msg)
                    (vo_primaryCoordinator msg) (vo_timestamp msg)
        in if vo_vote msg = CR_PREPARED then
             (case ReachConsensus
                     (req\<lparr>pc_votes := AList.update (vo_shard msg) (vo_vote msg) (pc_votes req)\<rparr>) of
                (False, req) \<Rightarrow> Inr (put_req c tid req, [])
              | (True, req) \<Rightarrow>
                  let req = req\<lparr>pc_state := Some CR_PREPARED, pc_reach_consensus := True\<rparr> in
                  bindw (NotifyCommitDecision c req) (\<lambda>_.
                    if pc_primary_coordinator req = Some (co_id c) \<and> pc_reach_fault_tolerance req
                    then commit_req c tid req CR_PREPARED
                    else Inr (put_req c tid req, [])))
           else abort_req c tid (req\<lparr>pc_state := Some CR_ABORT, pc_reach_consensus := True\<rparr>))"

text \<open>The dispatcher; a \<^verbatim>\<open>ReplicateResult\<close> is parsed and dropped.\<close>

fun co_HandleMessage :: "Coordinator \<Rightarrow> co_msg \<Rightarrow> Coordinator co_res" where
  "co_HandleMessage c (MReplicateReplyAndVote m) = HandleReplicateReplyAndVote c m"
| "co_HandleMessage c (MBypassLeaderReply m) = HandleBypassLeaderReply c m"
| "co_HandleMessage c (MReplicateDecision tid st ts) = HandleReplicateDecision c tid st ts"
| "co_HandleMessage c (MReplyDecision tid i ts) = Inr (HandleReplyDecision c tid i)"
| "co_HandleMessage c (MBypassLeaderReplyUnion m) = HandleBypassLeaderReplyUnion c m"
| "co_HandleMessage c (MVote m) = HandleVote c m"
| "co_HandleMessage c (MRequestCommitResult m) = HandleRequestCommitResult c m"
| "co_HandleMessage c (MNotifyDecisionToPrimary m) = HandleNotifyDecision c m"
| "co_HandleMessage c (MReplicateResult tid s r) = Inr (c, [])"
| "co_HandleMessage c (MNotifyDependenciesAreCleared tid s) = HandleNotifyDependenciesAreCleared c tid s"

primrec co_run :: "Coordinator \<Rightarrow> co_msg list \<Rightarrow> Coordinator co_res" where
  "co_run c [] = Inr (c, [])"
| "co_run c (m # ms) =
     bindw (co_HandleMessage c m) (\<lambda>c. co_run c ms)"

section \<open>Evidence in the history of received messages\<close>

definition voted :: "co_msg set \<Rightarrow> u64 \<Rightarrow> u64 \<Rightarrow> bool" where
  "voted H tid p \<longleftrightarrow>
     (\<exists>m. MReplicateReplyAndVote m \<in> H \<and> rv_tid m = tid \<and> rv_shard m = p \<and> rv_vote m = CR_PREPARED) \<or>
     (\<exists>m. MVote m \<in> H \<and> vo_tid m = tid \<and> vo_shard m = p \<and> vo_vote m = CR_PREPARED)"

definition acked :: "co_msg set \<Rightarrow> u64 \<Rightarrow> u64 \<Rightarrow> u64 \<Rightarrow> bool" where
  "acked H tid shard replica \<longleftrightarrow>
     (\<exists>m. MBypassLeaderReply m \<in> H \<and> bl_tid m = tid \<and> bl_shard m = shard \<and> bl_replica m = replica) \<or>
     (\<exists>m. MBypassLeaderReplyUnion m \<in> H \<and> bu_tid m = tid \<and> shard \<in> set (bu_shards m) \<and>
        bu_replica m = replica)"

definition named :: "co_msg set \<Rightarrow> u64 \<Rightarrow> u64 list \<Rightarrow> bool" where
  "named H tid ps \<longleftrightarrow>
     (\<exists>m. MReplicateReplyAndVote m \<in> H \<and> rv_tid m = tid \<and> rv_participants m = ps) \<or>
     (\<exists>m. MVote m \<in> H \<and> vo_tid m = tid \<and> vo_participants m = ps) \<or>
     (\<exists>m. MRequestCommitResult m \<in> H \<and> rc_tid m = tid \<and> rc_participants m = ps)"

text \<open>Another coordinator has decided \<open>tid\<close> and told this one: a handler without a sender.\<close>

definition told :: "co_msg set \<Rightarrow> u64 \<Rightarrow> bool" where
  "told H tid \<longleftrightarrow> (\<exists>m. MNotifyDecisionToPrimary m \<in> H \<and> np_tid m = tid)"

text \<open>
  The transactions whose result is requested after this replica has recorded one and dropped the
  request, among the messages \<open>ms\<close> received from state \<open>c\<close> on.
\<close>

definition asked :: "Coordinator \<Rightarrow> co_msg \<Rightarrow> u64 set" where
  "asked c m =
     (case m of
        MRequestCommitResult x \<Rightarrow>
          (if co_pending c (rc_tid x) = None \<and> co_results c (rc_tid x) \<noteq> None then {rc_tid x} else {})
      | _ \<Rightarrow> {})"

primrec asked_again :: "Coordinator \<Rightarrow> co_msg list \<Rightarrow> u64 set" where
  "asked_again c [] = {}"
| "asked_again c (m # ms) =
     asked c m \<union> (case co_HandleMessage c m of Inl e \<Rightarrow> {} | Inr (c, os) \<Rightarrow> asked_again c ms)"

text \<open>\<open>n\<close> shards each have their log entry acknowledged by at least \<open>q\<close> distinct replicas.\<close>

definition replicated :: "co_msg set \<Rightarrow> u64 \<Rightarrow> nat \<Rightarrow> nat \<Rightarrow> bool" where
  "replicated H tid n q \<longleftrightarrow>
     (\<exists>S. finite S \<and> card S = n \<and> (\<forall>s \<in> S. \<exists>R. finite R \<and> q \<le> card R \<and> (\<forall>r \<in> R. acked H tid s r)))"

definition may_commit :: "co_msg set \<Rightarrow> nat \<Rightarrow> u64 \<Rightarrow> bool" where
  "may_commit H q tid \<longleftrightarrow>
     (\<exists>ps. ps \<noteq> [] \<and> named H tid ps \<and> (\<forall>p \<in> set ps. voted H tid p) \<and> replicated H tid (length ps) q)"

text \<open>Every named participant voted to commit.\<close>

definition may_precommit :: "co_msg set \<Rightarrow> u64 \<Rightarrow> bool" where
  "may_precommit H tid \<longleftrightarrow> (\<exists>ps. ps \<noteq> [] \<and> named H tid ps \<and> (\<forall>p \<in> set ps. voted H tid p))"

lemma evidence_mono:
  "H \<subseteq> H' \<Longrightarrow> voted H tid p \<Longrightarrow> voted H' tid p"
  "H \<subseteq> H' \<Longrightarrow> acked H tid s r \<Longrightarrow> acked H' tid s r"
  "H \<subseteq> H' \<Longrightarrow> named H tid ps \<Longrightarrow> named H' tid ps"
  "H \<subseteq> H' \<Longrightarrow> told H tid \<Longrightarrow> told H' tid"
  unfolding voted_def acked_def named_def told_def by blast+

lemma replicated_mono: "H \<subseteq> H' \<Longrightarrow> replicated H tid n q \<Longrightarrow> replicated H' tid n q"
  unfolding replicated_def by (elim exE conjE, intro exI conjI) (assumption, assumption, meson evidence_mono(2))

definition req_ok :: "co_msg set \<Rightarrow> nat \<Rightarrow> u64 \<Rightarrow> PendingCommit \<Rightarrow> bool" where
  "req_ok H q tid req \<longleftrightarrow> pc_tid req = tid \<and> pc_majority req = q \<and>
     distinct (map fst (pc_replicateResults req)) \<and>
     (\<forall>p. map_of (pc_votes req) p = Some CR_PREPARED \<longrightarrow> voted H tid p) \<and>
     (\<forall>s rs. map_of (pc_replicateResults req) s = Some rs \<longrightarrow>
        distinct (map bl_replica rs) \<and> (\<forall>r \<in> set rs. acked H tid s (bl_replica r))) \<and>
     (pc_participants req \<noteq> [] \<longrightarrow> told H tid \<or> named H tid (pc_participants req)) \<and>
     (pc_reach_consensus req \<longrightarrow>
        told H tid \<or> pc_participants req \<noteq> [] \<and> (\<forall>p \<in> set (pc_participants req). voted H tid p)) \<and>
     (pc_reach_fault_tolerance req \<longrightarrow>
        pc_participants req \<noteq> [] \<and> replicated H tid (length (pc_participants req)) q)"

definition co_inv :: "co_msg set \<Rightarrow> Coordinator \<Rightarrow> bool" where
  "co_inv H c \<longleftrightarrow> (\<forall>tid req. co_pending c tid = Some req \<longrightarrow> req_ok H (co_quorum_size c) tid req)"

lemma req_ok_mono: "H \<subseteq> H' \<Longrightarrow> req_ok H q tid req \<Longrightarrow> req_ok H' q tid req"
  unfolding req_ok_def by (meson evidence_mono replicated_mono)

lemma co_inv_mono: "H \<subseteq> H' \<Longrightarrow> co_inv H c \<Longrightarrow> co_inv H' c"
  unfolding co_inv_def by (meson req_ok_mono)

lemma co_inv_new: "co_inv H (Coordinator_new nshards nreplicas i)"
  by (simp add: co_inv_def Coordinator_new_def)

lemma co_maps [simp]:
  "co_pending (put_req c tid req) = (co_pending c)(tid \<mapsto> req)"
  "co_pending (drop_req c tid) = (co_pending c)(tid := None)"
  "co_pending (set_result c tid st ft) = co_pending c"
  "co_results (put_req c tid req) = co_results c"
  "co_results (drop_req c tid) = co_results c"
  "co_results (set_result c tid st ft) =
     (co_results c)(tid \<mapsto> \<lparr>cs_commitState = st, cs_reachFaultTolerance = ft\<rparr>)"
  by (simp_all add: put_req_def drop_req_def set_result_def)

lemma co_config [simp]:
  "co_quorum_size (put_req c tid req) = co_quorum_size c" "co_id (put_req c tid req) = co_id c"
  "co_n (put_req c tid req) = co_n c" "co_nshards (put_req c tid req) = co_nshards c"
  "co_quorum_size (drop_req c tid) = co_quorum_size c" "co_id (drop_req c tid) = co_id c"
  "co_n (drop_req c tid) = co_n c" "co_nshards (drop_req c tid) = co_nshards c"
  "co_quorum_size (set_result c tid st ft) = co_quorum_size c" "co_id (set_result c tid st ft) = co_id c"
  "co_n (set_result c tid st ft) = co_n c" "co_nshards (set_result c tid st ft) = co_nshards c"
  by (simp_all add: put_req_def drop_req_def set_result_def)

lemma co_inv_put [inv_intro]:
  "co_inv H c \<Longrightarrow> req_ok H (co_quorum_size c) tid req \<Longrightarrow> co_inv H (put_req c tid req)"
  by (simp add: co_inv_def)

lemma co_inv_drop [inv_intro]: "co_inv H c \<Longrightarrow> co_inv H (drop_req c tid)"
  by (simp add: co_inv_def)

lemma co_inv_set_result [inv_intro]: "co_inv H c \<Longrightarrow> co_inv H (set_result c tid st ft)"
  by (simp add: co_inv_def)

section \<open>Sending steps\<close>

lemma bindw_simps [simp]:
  "bindw (Inl x) f = Inl x" "bindw (Inr (a, [])) f = f a" "bindw (tell []) g = g ()"
  "bindw (pure (Inl e)) f = Inl (e, [])" "bindw (pure (Inr a)) f = f a"
  by (auto simp: bindw_def pure_def tell_def split: sum.split)

lemma bindw_eq_Inr:
  "bindw r f = Inr (b, os) \<longleftrightarrow> (\<exists>a o1 o2. r = Inr (a, o1) \<and> f a = Inr (b, o2) \<and> os = o1 @ o2)"
  by (auto simp: bindw_def split: sum.split prod.split)

lemma pure_eq_Inr: "pure r = Inr (a, os) \<longleftrightarrow> r = Inr a \<and> os = []"
  by (auto simp: pure_def split: sum.split)

lemma co_outcome_eq_Inr [simp]: "co_outcome r = Inr p \<longleftrightarrow> r = Inr p"
  by (auto simp: co_outcome_def split: sum.split)

lemma co_sent_simps [simp]:
  "co_sent (Inl x) = snd x" "co_sent (Inr (a, os)) = os" "co_sent (tell os) = os" "co_sent (pure r) = []"
  by (auto simp: co_sent_def tell_def pure_def split: sum.split prod.split)

lemma co_sent_bindw_Inr: "co_sent (bindw (Inr (a, os)) f) = os @ co_sent (f a)"
  by (auto simp: bindw_def co_sent_def split: sum.split)

lemma co_sent_bindw:
  "x \<in> set (co_sent (bindw r f)) \<Longrightarrow>
   x \<in> set (co_sent r) \<or> (\<exists>a os. r = Inr (a, os) \<and> x \<in> set (co_sent (f a)))"
  by (cases r) (auto simp: co_sent_bindw_Inr)

section \<open>The checks are sound\<close>

lemma check_votes_keys:
  "check_votes ps vs = (ok, vs') \<Longrightarrow> map_of vs' p = Some CR_PREPARED \<longleftrightarrow> map_of vs p = Some CR_PREPARED"
  by (induction ps) (auto split: option.splits if_splits)

lemma check_votes_true:
  "check_votes ps vs = (True, vs') \<longleftrightarrow> vs' = vs \<and> (\<forall>p \<in> set ps. map_of vs p = Some CR_PREPARED)"
  by (induction ps) (auto split: option.splits)

lemma ReachConsensus_req:
  "ReachConsensus req = (ok, req') \<Longrightarrow> \<exists>vs. req' = req\<lparr>pc_votes := vs\<rparr> \<and>
     (\<forall>p. map_of vs p = Some CR_PREPARED \<longleftrightarrow> map_of (pc_votes req) p = Some CR_PREPARED)"
  unfolding ReachConsensus_def
  by (auto simp: check_votes_keys split: if_splits prod.splits intro: exI [of _ "pc_votes req"])

lemma ReachConsensus_true:
  "ReachConsensus req = (True, req') \<longleftrightarrow>
   req' = req \<and> length (pc_votes req) = length (pc_participants req) \<and>
   (\<forall>p \<in> set (pc_participants req). map_of (pc_votes req) p = Some CR_PREPARED)"
proof (cases "check_votes (pc_participants req) (pc_votes req)")
  case (Pair ok vs)
  show ?thesis
  proof (cases ok)
    case True
    with Pair check_votes_true [of "pc_participants req" "pc_votes req" vs] show ?thesis
      by (auto simp: ReachConsensus_def)
  next
    case False
    with Pair check_votes_true [of "pc_participants req" "pc_votes req" "pc_votes req"] show ?thesis
      by (auto simp: ReachConsensus_def)
  qed
qed

lemma ReachFaultTolerance_replicated:
  assumes "req_ok H q tid req" and "ReachFaultTolerance req"
  shows "pc_participants req \<noteq> [] \<and> replicated H tid (length (pc_participants req)) q"
proof -
  let ?rr = "pc_replicateResults req"
  have d: "distinct (map fst ?rr)" and len: "length ?rr = length (pc_participants req)"
    and maj: "\<forall>p \<in> set ?rr. q \<le> length (snd p)" and ne: "pc_participants req \<noteq> []"
    using assms by (auto simp: req_ok_def ReachFaultTolerance_def list_all_iff not_less split: if_splits)
  have "\<exists>R. finite R \<and> q \<le> card R \<and> (\<forall>r \<in> R. acked H tid s r)" if s: "s \<in> fst ` set ?rr" for s
  proof -
    obtain rs where rs: "(s, rs) \<in> set ?rr" using s by auto
    then have "map_of ?rr s = Some rs" using d by simp
    with assms(1) have ok: "distinct (map bl_replica rs)" "\<forall>r \<in> set rs. acked H tid s (bl_replica r)"
      by (auto simp: req_ok_def)
    have "card (bl_replica ` set rs) = length rs"
      using distinct_card [OF ok(1)] by simp
    with ok(2) maj rs show ?thesis
      by (intro exI [of _ "bl_replica ` set rs"]) auto
  qed
  moreover have "card (fst ` set ?rr) = length (pc_participants req)"
    using distinct_card [OF d] len by simp
  ultimately show ?thesis unfolding replicated_def using ne
    by (metis (no_types, lifting) finite_imageI finite_set)
qed

section \<open>Every handler keeps the invariant\<close>

definition commit_sent :: "co_sends \<Rightarrow> u64 set" where
  "commit_sent os = {tid. \<exists>d b ts. (d, ONotifyReplicateResult tid b ts) \<in> set os}"

definition precommit_sent :: "co_sends \<Rightarrow> u64 set" where
  "precommit_sent os = {tid. \<exists>d ts. (d, ONotifyDecision tid CR_PREPARED ts) \<in> set os}"

definition sends_ok :: "co_msg set \<Rightarrow> nat \<Rightarrow> u64 set \<Rightarrow> co_sends \<Rightarrow> bool" where
  "sends_ok H q A os \<longleftrightarrow>
     (\<forall>tid \<in> commit_sent os. may_commit H q tid \<or> told H tid \<or> tid \<in> A) \<and>
     (\<forall>tid \<in> precommit_sent os. may_precommit H tid \<or> told H tid)"

definition step_ok :: "co_msg set \<Rightarrow> u64 set \<Rightarrow> Coordinator \<Rightarrow> Coordinator co_res \<Rightarrow> bool" where
  "step_ok H A c res \<longleftrightarrow> sends_ok H (co_quorum_size c) A (co_sent res) \<and>
     (\<forall>c' os. res = Inr (c', os) \<longrightarrow> co_inv H c' \<and> co_quorum_size c' = co_quorum_size c)"

lemma sent_simps:
  "commit_sent [] = {}" "commit_sent (xs @ ys) = commit_sent xs \<union> commit_sent ys"
  "precommit_sent [] = {}" "precommit_sent (xs @ ys) = precommit_sent xs \<union> precommit_sent ys"
  "commit_sent [(d, OBypassLeaderReply t s r)] = {}" "commit_sent [(d, OReplyDecision t s r)] = {}"
  "precommit_sent [(d, OBypassLeaderReply t s r)] = {}" "precommit_sent [(d, OReplyDecision t s r)] = {}"
  by (auto simp: commit_sent_def precommit_sent_def)

lemma sends_ok_simps [simp]:
  "sends_ok H q A []" "sends_ok H q A (xs @ ys) \<longleftrightarrow> sends_ok H q A xs \<and> sends_ok H q A ys"
  "sends_ok H q A [(d, OBypassLeaderReply t s r)]" "sends_ok H q A [(d, OReplyDecision t s r)]"
  by (auto simp: sends_ok_def sent_simps)

lemma sends_ok_mono: "sends_ok H q A os \<Longrightarrow> A \<subseteq> B \<Longrightarrow> sends_ok H q B os"
  by (auto simp: sends_ok_def)

lemma step_ok_mono: "step_ok H A c r \<Longrightarrow> A \<subseteq> B \<Longrightarrow> step_ok H B c r"
  by (auto simp: step_ok_def sends_ok_mono)

lemma notify_colocated_sends: "x \<in> set (co_sent (notify_colocated c m ps)) \<Longrightarrow> snd x = m"
  by (induction ps) (auto dest!: co_sent_bindw split: if_splits)

lemma NotifyCommitDecision_sends:
  "x \<in> set (co_sent (NotifyCommitDecision c req)) \<Longrightarrow>
   \<exists>st. pc_state req = Some st \<and> snd x = ONotifyDecision (pc_tid req) st (pc_timestamp req)"
  unfolding NotifyCommitDecision_def
  by (auto dest!: co_sent_bindw notify_colocated_sends simp: pure_eq_Inr)

lemma NotifyReplicateResult_sends:
  "x \<in> set (co_sent (NotifyReplicateResult c req)) \<Longrightarrow>
   snd x = ONotifyReplicateResult (pc_tid req) True (pc_timestamp req) \<or>
   (\<exists>st. pc_state req = Some st \<and> snd x = OReplicateDecision (pc_tid req) st (pc_timestamp req))"
  unfolding NotifyReplicateResult_def by (auto dest!: co_sent_bindw simp: pure_eq_Inr)

lemma NotifyCommitDecision_ok:
  assumes "pc_state req = Some CR_PREPARED \<Longrightarrow>
    told H (pc_tid req) \<or> req_ok H q tid req \<and> pc_reach_consensus req"
  shows "sends_ok H q A (co_sent (NotifyCommitDecision c req))"
proof -
  note sends = NotifyCommitDecision_sends [of _ c req]
  have "commit_sent (co_sent (NotifyCommitDecision c req)) = {}"
    unfolding commit_sent_def using sends by fastforce
  moreover have "may_precommit H t \<or> told H t"
    if t: "t \<in> precommit_sent (co_sent (NotifyCommitDecision c req))" for t
  proof -
    obtain d ts where "(d, ONotifyDecision t CR_PREPARED ts) \<in> set (co_sent (NotifyCommitDecision c req))"
      using t by (auto simp: precommit_sent_def)
    from sends [OF this] have "pc_state req = Some CR_PREPARED" "pc_tid req = t" by auto
    with assms show ?thesis unfolding req_ok_def may_precommit_def by blast
  qed
  ultimately show ?thesis by (simp add: sends_ok_def)
qed

lemma NotifyReplicateResult_ok:
  assumes "may_commit H q (pc_tid req) \<or> told H (pc_tid req) \<or> pc_tid req \<in> A"
  shows "sends_ok H q A (co_sent (NotifyReplicateResult c req))"
  using assms NotifyReplicateResult_sends [of _ c req]
  unfolding sends_ok_def commit_sent_def precommit_sent_def by fastforce

lemma step_ok_Inr:
  "step_ok H A c (Inr (c', os)) \<longleftrightarrow> co_inv H c' \<and> co_quorum_size c' = co_quorum_size c \<and>
     sends_ok H (co_quorum_size c) A os"
  by (auto simp: step_ok_def)

lemma step_ok_bindw:
  assumes "sends_ok H (co_quorum_size c) A (co_sent r)"
    and "\<And>a os. r = Inr (a, os) \<Longrightarrow> step_ok H A c (f a)"
  shows "step_ok H A c (bindw r f)"
proof (cases r)
  case (Inr p)
  then obtain a os where "r = Inr (a, os)" by (cases p) simp
  with assms show ?thesis by (auto simp: step_ok_def bindw_eq_Inr co_sent_bindw_Inr)
qed (use assms(1) in \<open>simp add: step_ok_def\<close>)

lemma step_ok_pure: "(\<And>a. r = Inr a \<Longrightarrow> step_ok H A c (f a)) \<Longrightarrow> step_ok H A c (bindw (pure r) f)"
  by (rule step_ok_bindw) (auto simp: pure_eq_Inr)

lemma step_ok_put:
  "co_inv H c \<Longrightarrow> req_ok H (co_quorum_size c) tid req \<Longrightarrow> sends_ok H (co_quorum_size c) A os \<Longrightarrow>
   step_ok H A c (Inr (put_req c tid req, os))"
  by (simp add: step_ok_Inr co_inv_put)

lemma step_ok_same: "co_inv H c \<Longrightarrow> step_ok H A c (Inr (c, []))"
  by (simp add: step_ok_Inr)

lemma step_ok_if:
  "(b \<Longrightarrow> step_ok H A c x) \<Longrightarrow> (\<not> b \<Longrightarrow> step_ok H A c y) \<Longrightarrow> step_ok H A c (if b then x else y)"
  by simp

text \<open>A step followed by a last message that decides nothing.\<close>

lemma step_ok_forward:
  assumes "step_ok H A c r" and "sends_ok H (co_quorum_size c) A os"
  shows "step_ok H A c (bindw r (\<lambda>c. Inr (c, os)))"
proof (cases r)
  case (Inr p)
  then obtain a o1 where "r = Inr (a, o1)" by (cases p) simp
  with assms show ?thesis by (auto simp: step_ok_def bindw_eq_Inr co_sent_bindw_Inr)
qed (use assms(1) in \<open>simp add: step_ok_def\<close>)

lemma req_ok_may_commit:
  "req_ok H q tid req \<Longrightarrow> pc_reach_consensus req \<Longrightarrow> pc_reach_fault_tolerance req \<Longrightarrow>
   may_commit H q tid \<or> told H tid"
  unfolding req_ok_def may_commit_def by blast

lemma commit_req_ok:
  assumes "co_inv H c" and "req_ok H (co_quorum_size c) tid req" and "pc_reach_consensus req"
    and "pc_reach_fault_tolerance req"
  shows "step_ok H A c (commit_req c tid req st)"
  unfolding commit_req_def
  using req_ok_may_commit [OF assms(2-4)] assms(1,2)
  by (intro step_ok_bindw NotifyReplicateResult_ok)
    (auto simp: step_ok_Inr req_ok_def co_inv_drop co_inv_set_result)

lemma abort_req_ok:
  assumes "co_inv H c" and "pc_state req \<noteq> Some CR_PREPARED \<or> told H (pc_tid req)"
  shows "step_ok H A c (abort_req c tid req)"
  unfolding abort_req_def
  using assms by (intro step_ok_bindw NotifyCommitDecision_ok) (auto simp: step_ok_Inr co_inv_drop co_inv_set_result)

lemma req_ok_vote_record:
  assumes "co_inv H c" and "named H tid ps"
  shows "req_ok H (co_quorum_size c) tid (vote_record c tid ps a b ts)"
  using assms
  by (auto simp: vote_record_def req_ok_def co_inv_def PendingCommit_new_def split: option.split)

lemma req_ok_find_or_new: "co_inv H c \<Longrightarrow> req_ok H (co_quorum_size c) tid (find_or_new c tid)"
  by (auto simp: find_or_new_def req_ok_def co_inv_def PendingCommit_new_def split: option.split)

text \<open>Counting a vote, with or without a dependency flag, and checking for consensus.\<close>

lemma req_ok_count:
  assumes "req_ok H q tid req" and "voted H tid p"
    and "ReachConsensus (req\<lparr>pc_votes := AList.update p CR_PREPARED (pc_votes req),
      pc_dependencies := d\<rparr>) = (ok, req')"
  shows "req_ok H q tid req'"
    and "ok \<Longrightarrow> req_ok H q tid (req'\<lparr>pc_state := Some st, pc_reach_consensus := True\<rparr>)"
proof -
  let ?r = "req\<lparr>pc_votes := AList.update p CR_PREPARED (pc_votes req), pc_dependencies := d\<rparr>"
  obtain vs where req': "req' = ?r\<lparr>pc_votes := vs\<rparr>"
    and vs: "map_of vs x = Some CR_PREPARED \<longleftrightarrow> map_of (pc_votes ?r) x = Some CR_PREPARED" for x
    using ReachConsensus_req [OF assms(3)] by blast
  have votes: "map_of vs x = Some CR_PREPARED \<Longrightarrow> voted H tid x" for x
    using vs [of x] assms(1,2) by (auto simp: req_ok_def split: if_splits)
  then show ok': "req_ok H q tid req'"
    using assms(1) by (simp add: req' req_ok_def)
  show "req_ok H q tid (req'\<lparr>pc_state := Some st, pc_reach_consensus := True\<rparr>)" if ok
  proof -
    have c: "req' = ?r" "length (pc_votes ?r) = length (pc_participants ?r)"
      "\<forall>x \<in> set (pc_participants ?r). map_of (pc_votes ?r) x = Some CR_PREPARED"
      using assms(3) that by (simp_all add: ReachConsensus_true)
    have "pc_participants req' \<noteq> []"
      using c(2) by (auto simp: req' length_update simp del: length_greater_0_conv split: if_splits)
    moreover have "\<forall>x \<in> set (pc_participants req'). voted H tid x"
      using c(3) votes vs by (simp add: req')
    ultimately show ?thesis using ok' by (simp add: req_ok_def)
  qed
qed

lemma HandleReplicateReplyAndVote_ok:
  assumes inv: "co_inv H c" and m: "MReplicateReplyAndVote msg \<in> H"
  shows "step_ok H A c (HandleReplicateReplyAndVote c msg)"
proof -
  let ?tid = "rv_tid msg" and ?q = "co_quorum_size c"
  define req where "req = vote_record c ?tid (rv_participants msg) (rv_primaryShard msg)
    (rv_primaryCoordinator msg) (rv_timestamp msg)"
  have req: "req_ok H ?q ?tid req"
    unfolding req_def using m by (intro req_ok_vote_record [OF inv]) (auto simp: named_def)
  consider "co_results c ?tid \<noteq> None" | "co_results c ?tid = None" "rv_vote msg \<noteq> CR_PREPARED"
    | "co_results c ?tid = None" "rv_vote msg = CR_PREPARED" by blast
  then show ?thesis
  proof cases
    case 3
    have v: "voted H ?tid (rv_shard msg)" using m 3 by (auto simp: voted_def)
    obtain ok req' where r: "ReachConsensus (req\<lparr>pc_votes := AList.update (rv_shard msg) CR_PREPARED
        (pc_votes req), pc_dependencies := AList.update (rv_shard msg) (rv_hasPreCommit msg)
        (pc_dependencies req)\<rparr>) = (ok, req')"
      by (rule prod.exhaust)
    note ok = req_ok_count [OF req v r]
    show ?thesis
    proof (cases ok)
      case True
      let ?r = "req'\<lparr>pc_state := Some CR_PREPARED, pc_reach_consensus := True\<rparr>"
      have ro: "req_ok H ?q ?tid ?r" by (rule ok(2) [OF True])
      have s: "sends_ok H ?q A (co_sent (NotifyCommitDecision c ?r))"
        using ro by (intro NotifyCommitDecision_ok [where tid = ?tid]) simp
      show ?thesis
        using 3 r True inv ro s
        by (auto simp: HandleReplicateReplyAndVote_def Let_def req_def [symmetric]
            intro!: step_ok_put step_ok_forward commit_req_ok step_ok_bindw [of H c A "NotifyCommitDecision c _"])
    next
      case False
      with 3 r ok(1) inv show ?thesis
        by (simp add: HandleReplicateReplyAndVote_def Let_def req_def [symmetric] step_ok_put)
    qed
  qed (auto simp: HandleReplicateReplyAndVote_def step_ok_same inv Let_def intro: abort_req_ok)
qed

lemma HandleVote_ok:
  assumes inv: "co_inv H c" and m: "MVote msg \<in> H"
  shows "step_ok H A c (HandleVote c msg)"
proof -
  let ?tid = "vo_tid msg" and ?q = "co_quorum_size c"
  define req where "req = vote_record c ?tid (vo_participants msg) (vo_primaryShard msg)
    (vo_primaryCoordinator msg) (vo_timestamp msg)"
  have req: "req_ok H ?q ?tid req"
    unfolding req_def using m by (intro req_ok_vote_record [OF inv]) (auto simp: named_def)
  consider "co_results c ?tid \<noteq> None" | "co_results c ?tid = None" "vo_vote msg \<noteq> CR_PREPARED"
    | "co_results c ?tid = None" "vo_vote msg = CR_PREPARED" by blast
  then show ?thesis
  proof cases
    case 3
    have v: "voted H ?tid (vo_shard msg)" using m 3 by (auto simp: voted_def)
    obtain ok req' where r: "ReachConsensus (req\<lparr>pc_votes := AList.update (vo_shard msg) CR_PREPARED
        (pc_votes req), pc_dependencies := pc_dependencies req\<rparr>) = (ok, req')"
      by (rule prod.exhaust)
    note ok = req_ok_count [OF req v r]
    show ?thesis
    proof (cases ok)
      case True
      let ?r = "req'\<lparr>pc_state := Some CR_PREPARED, pc_reach_consensus := True\<rparr>"
      have ro: "req_ok H ?q ?tid ?r" by (rule ok(2) [OF True])
      have s: "sends_ok H ?q A (co_sent (NotifyCommitDecision c ?r))"
        using ro by (intro NotifyCommitDecision_ok [where tid = ?tid]) simp
      show ?thesis
        using 3 r True inv ro s
        by (auto simp: HandleVote_def Let_def req_def [symmetric]
            intro!: step_ok_put step_ok_bindw commit_req_ok)
    next
      case False
      with 3 r ok(1) inv show ?thesis
        by (simp add: HandleVote_def Let_def req_def [symmetric] step_ok_put)
    qed
  qed (auto simp: HandleVote_def step_ok_same inv Let_def intro: abort_req_ok)
qed

lemma req_ok_set_replies:
  assumes "req_ok H q tid req" and "distinct (map bl_replica rs)"
    and "\<And>r. r \<in> set rs \<Longrightarrow> acked H tid s (bl_replica r)"
  shows "req_ok H q tid (set_replies req s rs)"
  using assms by (auto simp: req_ok_def set_replies_def distinct_update)

lemma replies_at_ok:
  "req_ok H q tid req \<Longrightarrow> distinct (map bl_replica (replies_at req s))"
  "req_ok H q tid req \<Longrightarrow> r \<in> set (replies_at req s) \<Longrightarrow> acked H tid s (bl_replica r)"
  by (auto simp: req_ok_def replies_at_def split: option.splits)

lemma req_ok_touch: "req_ok H q tid req \<Longrightarrow> req_ok H q tid (set_replies req s (replies_at req s))"
  by (rule req_ok_set_replies) (auto simp: replies_at_ok)

lemma req_ok_add_reply:
  assumes "req_ok H q tid req" and "\<not> already_received req s (bl_replica r)"
    and "acked H tid s (bl_replica r)"
  shows "req_ok H q tid (set_replies req s (replies_at req s @ [r]))"
  using assms(2,3)
  by (intro req_ok_set_replies [OF assms(1)])
    (auto simp: already_received_def list_ex_iff replies_at_ok [OF assms(1)])

lemma req_ok_fault_tolerant:
  assumes "req_ok H q tid req" and "ReachFaultTolerance req"
  shows "req_ok H q tid (req\<lparr>pc_reach_fault_tolerance := True\<rparr>)"
  using assms(1) ReachFaultTolerance_replicated [OF assms] unfolding req_ok_def by simp

lemma HandleBypassLeaderReply_ok:
  assumes inv: "co_inv H c" and m: "MBypassLeaderReply msg \<in> H"
  shows "step_ok H A c (HandleBypassLeaderReply c msg)"
proof -
  let ?tid = "bl_tid msg" and ?s = "bl_shard msg"
  have req: "req_ok H (co_quorum_size c) ?tid (find_or_new c ?tid)" by (rule req_ok_find_or_new [OF inv])
  have ack: "acked H ?tid ?s (bl_replica msg)" using m by (auto simp: acked_def)
  show ?thesis
    unfolding HandleBypassLeaderReply_def Let_def
    by (auto simp: step_ok_same inv intro!: step_ok_put commit_req_ok req_ok_touch
        req_ok_fault_tolerant req_ok_add_reply req ack)
qed

lemma union_loop_ok:
  assumes inv: "co_inv H c" and ack: "\<And>s. s \<in> set qs \<Longrightarrow> acked H tid s replica"
    and "req_ok H (co_quorum_size c) tid req"
  shows "step_ok H A c (union_loop c tid replica qs seen req)"
  using assms(2,3)
proof (induction qs arbitrary: seen req)
  case Nil
  then show ?case using inv by (simp add: step_ok_put)
next
  case (Cons q qs)
  let ?new = "\<lparr>bl_tid = tid, bl_shard = q, bl_replica = replica\<rparr>"
  let ?r = "set_replies req q (replies_at req q @ [?new])"
  have IH: "step_ok H A c (union_loop c tid replica qs seen' req')"
    if "req_ok H (co_quorum_size c) tid req'" for seen' req'
    using Cons.IH [of req' seen'] Cons.prems(1) that by simp
  show ?case
  proof (cases "seen \<or> already_received req q replica")
    case True
    then show ?thesis using IH [OF req_ok_touch [OF Cons.prems(2)]] by simp
  next
    case False
    have r: "req_ok H (co_quorum_size c) tid ?r"
      using False Cons.prems by (intro req_ok_add_reply) auto
    show ?thesis
    proof (cases "ReachFaultTolerance ?r")
      case True
      with False IH [OF req_ok_fault_tolerant [OF r True]] show ?thesis
        by (auto simp: Let_def intro!: commit_req_ok inv req_ok_fault_tolerant r)
    next
      case notft: False
      with False IH [OF r] show ?thesis by (simp add: Let_def)
    qed
  qed
qed

lemma HandleNotifyDependenciesAreCleared_ok:
  assumes inv: "co_inv H c"
  shows "step_ok H A c (HandleNotifyDependenciesAreCleared c tid s)"
proof (cases "co_pending c tid")
  case (Some req)
  let ?r = "req\<lparr>pc_dependencies := AList.update s False (pc_dependencies req)\<rparr>"
  have r: "req_ok H (co_quorum_size c) tid ?r" using inv Some by (simp add: co_inv_def req_ok_def)
  show ?thesis
    using Some r inv
    by (auto simp: HandleNotifyDependenciesAreCleared_def Let_def
        intro!: step_ok_pure commit_req_ok step_ok_put)
qed (simp add: HandleNotifyDependenciesAreCleared_def step_ok_same inv)

lemma HandleReplicateDecision_ok:
  assumes inv: "co_inv H c"
  shows "step_ok H A c (HandleReplicateDecision c tid st ts)"
proof (cases "co_pending c tid")
  case (Some req)
  have r: "req_ok H (co_quorum_size c) tid (req\<lparr>pc_state := Some st\<rparr>)"
    using inv Some by (simp add: co_inv_def req_ok_def)
  have "co_inv H (set_result (put_req c tid (req\<lparr>pc_state := Some st\<rparr>)) tid x False)" for x
    by (intro co_inv_set_result co_inv_put inv r)
  then show ?thesis
    using Some
    by (auto simp: HandleReplicateDecision_def Let_def step_ok_Inr co_inv_drop intro!: step_ok_pure)
qed (simp add: HandleReplicateDecision_def step_ok_same inv)

lemma HandleReplyDecision_ok:
  assumes inv: "co_inv H c"
  shows "step_ok H A c (Inr (HandleReplyDecision c tid i))"
  using inv unfolding HandleReplyDecision_def Let_def
  by (auto simp: step_ok_Inr co_inv_drop co_inv_def req_ok_def split: option.split)

lemma HandleNotifyDecision_ok:
  assumes inv: "co_inv H c" and m: "MNotifyDecisionToPrimary msg \<in> H"
  shows "step_ok H A c (HandleNotifyDecision c msg)"
proof (cases "co_pending c (np_tid msg)")
  case (Some req)
  have told: "told H (np_tid msg)" using m by (auto simp: told_def)
  let ?r = "req\<lparr>pc_reach_consensus := True, pc_state := Some (np_state msg)\<rparr>"
  let ?s = "if length (pc_participants ?r) = 0
     then ?r\<lparr>pc_primary_shard := Some (np_primaryShard msg), pc_participants := np_participants msg\<rparr> else ?r"
  have req: "req_ok H (co_quorum_size c) (np_tid msg) req" using inv Some by (simp add: co_inv_def)
  then have s: "req_ok H (co_quorum_size c) (np_tid msg) ?s" using told by (auto simp: req_ok_def)
  then have s': "req_ok H (co_quorum_size c) (np_tid msg) (?s\<lparr>pc_timestamp := ts\<rparr>)" for ts
    by (simp add: req_ok_def)
  have "pc_reach_consensus ?s" "pc_tid ?s = np_tid msg" using req by (auto simp: req_ok_def)
  with Some inv s' told show ?thesis
    unfolding HandleNotifyDecision_def Let_def Some option.case
    by (intro step_ok_if step_ok_same commit_req_ok step_ok_put abort_req_ok) auto
qed (simp add: HandleNotifyDecision_def step_ok_same inv)

lemma HandleRequestCommitResult_ok:
  assumes inv: "co_inv H c" and m: "MRequestCommitResult msg \<in> H"
  shows "step_ok H (asked c (MRequestCommitResult msg)) c (HandleRequestCommitResult c msg)"
proof (cases "co_pending c (rc_tid msg)")
  case None
  let ?r = "(PendingCommit_new (co_quorum_size c) (rc_tid msg))
      \<lparr>pc_primary_shard := Some (rc_primaryShard msg), pc_primary_coordinator := Some (co_id c),
       pc_participants := rc_participants msg\<rparr>"
  have "req_ok H (co_quorum_size c) (rc_tid msg) ?r"
    using m by (auto simp: req_ok_def PendingCommit_new_def named_def)
  moreover have "pc_tid ?r = rc_tid msg" by (simp add: PendingCommit_new_def)
  ultimately show ?thesis
    using None inv
    by (auto simp: HandleRequestCommitResult_def Let_def asked_def
        intro!: step_ok_put step_ok_same step_ok_bindw NotifyReplicateResult_ok)
next
  case (Some req)
  then have "req_ok H (co_quorum_size c) (rc_tid msg) (req\<lparr>pc_participants :=
      (if length (pc_participants req) = 0 then rc_participants msg else pc_participants req),
      pc_primary_shard := Some (rc_primaryShard msg)\<rparr>)"
    using inv m by (auto simp: co_inv_def req_ok_def named_def)
  with Some inv show ?thesis
    by (simp add: HandleRequestCommitResult_def Let_def step_ok_put)
qed

lemma co_HandleMessage_ok:
  assumes "co_inv H c" and "m \<in> H"
  shows "step_ok H (asked c m) c (co_HandleMessage c m)"
  using assms
  by (cases m) (auto simp: step_ok_same HandleReplicateReplyAndVote_ok HandleNotifyDecision_ok
      HandleVote_ok HandleBypassLeaderReply_ok HandleNotifyDependenciesAreCleared_ok
      HandleReplicateDecision_ok HandleReplyDecision_ok HandleRequestCommitResult_ok
      HandleBypassLeaderReplyUnion_def acked_def intro!: union_loop_ok req_ok_find_or_new)

lemma co_run_ok: "co_inv H c \<Longrightarrow> set ms \<subseteq> H \<Longrightarrow> step_ok H (asked_again c ms) c (co_run c ms)"
proof (induction ms arbitrary: c)
  case (Cons m ms)
  have one: "step_ok H (asked c m) c (co_HandleMessage c m)"
    using Cons.prems by (intro co_HandleMessage_ok) auto
  have sub: "sends_ok H (co_quorum_size c) (asked_again c (m # ms)) (co_sent (co_HandleMessage c m))"
    using one by (auto simp: step_ok_def elim: sends_ok_mono)
  show ?case unfolding co_run.simps
  proof (rule step_ok_bindw [OF sub])
    fix c1 os assume r: "co_HandleMessage c m = Inr (c1, os)"
    then have c1: "co_inv H c1" "co_quorum_size c1 = co_quorum_size c" using one by (simp_all add: step_ok_Inr)
    have "step_ok H (asked_again c (m # ms)) c1 (co_run c1 ms)"
      using Cons.IH [OF c1(1)] Cons.prems(2) r by (auto elim: step_ok_mono)
    with c1(2) show "step_ok H (asked_again c (m # ms)) c (co_run c1 ms)" by (simp add: step_ok_def)
  qed
qed (simp add: step_ok_same)

lemma co_run_snoc:
  "co_run c ms = Inr (c1, o1) \<Longrightarrow> co_HandleMessage c1 m = Inr (c2, o2) \<Longrightarrow> co_run c (ms @ [m]) = Inr (c2, o1 @ o2)"
  by (induction ms arbitrary: c o1) (auto simp: bindw_eq_Inr)

text \<open>A request for the result of a decided transaction always ends in the read of an unset state,
  so a run that returns has none.\<close>

lemma asked_fails: "tid \<in> asked c m \<Longrightarrow> \<exists>e. co_HandleMessage c m = Inl e"
  by (cases m) (auto simp: asked_def HandleRequestCommitResult_def Let_def NotifyReplicateResult_def
      PendingCommit_new_def bindw_def pure_def tell_def shard_index_def split: if_splits)

lemma asked_again_returns: "co_run c ms = Inr (c', os) \<Longrightarrow> asked_again c ms = {}"
proof (induction ms arbitrary: c os)
  case (Cons m ms)
  then obtain c1 o1 o2 where "co_HandleMessage c m = Inr (c1, o1)" "co_run c1 ms = Inr (c', o2)"
    by (auto simp: bindw_eq_Inr)
  moreover from this(1) have "asked c m = {}" using asked_fails [of _ c m] by fastforce
  ultimately show ?case using Cons.IH by simp
qed simp

definition is_notify_primary :: "co_msg \<Rightarrow> bool" where
  "is_notify_primary m = (case m of MNotifyDecisionToPrimary x \<Rightarrow> True | _ \<Rightarrow> False)"

lemma co_run_commit_sent:
  assumes "co_run (Coordinator_new nshards n i) ms = Inr (c, os)" and "\<not> list_ex is_notify_primary ms"
    and "tid \<in> commit_sent os"
  shows "may_commit (set ms) (n div 2 + 1) tid"
proof -
  have "step_ok (set ms) {} (Coordinator_new nshards n i) (Inr (c, os))"
    using co_run_ok [of _ "Coordinator_new nshards n i", OF co_inv_new order_refl, of ms] assms(1)
    by (simp add: asked_again_returns)
  moreover have "\<not> told (set ms) tid" using assms(2) by (auto simp: told_def list_ex_iff is_notify_primary_def)
  ultimately show ?thesis using assms(3) by (auto simp: step_ok_Inr sends_ok_def Coordinator_new_def)
qed

section \<open>Properties\<close>

text \<open>C3. Safety of the commit decision: whatever messages a coordinator replica receives, in any
  order and with any duplication, and whether or not a handler fails on the last of them, it tells a
  shard that transaction \<open>tid\<close> is committed only in three cases. Every participant named for \<open>tid\<close>
  has voted \<^verbatim>\<open>PREPARED\<close> and as many shards as there are participants each have had their log entry
  acknowledged by a majority of distinct replicas; or a \<^verbatim>\<open>NotifyDecisionToPrimary\<close> for \<open>tid\<close> has
  been received, whose handler takes the decision from the message; or the result of \<open>tid\<close> was
  requested after this replica had recorded one, to which it answers commit whatever it recorded.\<close>

theorem coordinator_commit_safe:
  assumes "(d, ONotifyReplicateResult tid b ts) \<in> set (co_sent (co_run (Coordinator_new nshards n i) ms))"
  shows "may_commit (set ms) (n div 2 + 1) tid \<or> told (set ms) tid \<or>
    tid \<in> asked_again (Coordinator_new nshards n i) ms"
proof -
  have "tid \<in> commit_sent (co_sent (co_run (Coordinator_new nshards n i) ms))"
    using assms by (auto simp: commit_sent_def)
  with co_run_ok [of _ "Coordinator_new nshards n i", OF co_inv_new order_refl, of ms] show ?thesis
    by (auto simp: step_ok_def sends_ok_def Coordinator_new_def)
qed

text \<open>C9. Safety of the pre-commit decision: whatever messages a coordinator replica receives, and
  whether or not a handler fails on the last of them, it tells a leader to pre-commit \<open>tid\<close> only if
  every participant named for \<open>tid\<close> has voted \<^verbatim>\<open>PREPARED\<close>, or a \<^verbatim>\<open>NotifyDecisionToPrimary\<close> for
  \<open>tid\<close> has been received: that handler passes the state in the message on without any vote.\<close>

theorem coordinator_precommit_safe:
  assumes "(d, ONotifyDecision tid CR_PREPARED ts) \<in> set (co_sent (co_run (Coordinator_new nshards n i) ms))"
  shows "may_precommit (set ms) tid \<or> told (set ms) tid"
proof -
  have "tid \<in> precommit_sent (co_sent (co_run (Coordinator_new nshards n i) ms))"
    using assms by (auto simp: precommit_sent_def)
  with co_run_ok [of _ "Coordinator_new nshards n i", OF co_inv_new order_refl, of ms] show ?thesis
    by (auto simp: step_ok_def sends_ok_def)
qed

text \<open>A concrete run: two participants, three coordinator replicas, transaction 5, primary shard 0.\<close>

definition ex_vote :: "u64 \<Rightarrow> u64 \<Rightarrow> co_msg" where
  "ex_vote shard replica = MReplicateReplyAndVote \<lparr>rv_tid = 5, rv_shard = shard, rv_replica = replica,
     rv_vote = CR_PREPARED, rv_participants = [0, 1], rv_primaryShard = 0, rv_primaryCoordinator = 0,
     rv_timestamp = 3, rv_hasPreCommit = False\<rparr>"

definition ex_ack :: "u64 \<Rightarrow> u64 \<Rightarrow> co_msg" where
  "ex_ack shard replica = MBypassLeaderReply \<lparr>bl_tid = 5, bl_shard = shard, bl_replica = replica\<rparr>"

definition ex_run :: "co_msg list" where
  "ex_run = [ex_ack 1 2, ex_vote 0 0, ex_vote 1 0, ex_ack 0 0, ex_ack 1 0, ex_ack 0 0, ex_ack 0 1]"

definition ex_out :: co_sends where
  "ex_out = co_sent (co_run (Coordinator_new 2 3 0) ex_run)"

lemma ex_run_result:
  "(ToShard 0 0, ONotifyReplicateResult 5 True 3) \<in> set ex_out"
  "(ToShard 0 0, ONotifyDecision 5 CR_PREPARED 3) \<in> set ex_out"
  "\<not> isl (co_run (Coordinator_new 2 3 0) ex_run)"
  by code_simp+

lemma ex_run_untold: "\<not> told (set ex_run) 5"
  by (auto simp: told_def ex_run_def ex_vote_def ex_ack_def)

theorem coordinator_commit_safe_witness: "may_commit (set ex_run) (3 div 2 + 1) 5"
proof -
  obtain c os where "co_run (Coordinator_new 2 3 0) ex_run = Inr (c, os)"
    using ex_run_result(3) by (cases "co_run (Coordinator_new 2 3 0) ex_run") auto
  then have "asked_again (Coordinator_new 2 3 0) ex_run = {}" by (rule asked_again_returns)
  with coordinator_commit_safe [OF ex_run_result(1) [unfolded ex_out_def]] ex_run_untold show ?thesis by blast
qed

theorem coordinator_precommit_safe_witness: "may_precommit (set ex_run) 5"
  using coordinator_precommit_safe [OF ex_run_result(2) [unfolded ex_out_def]] ex_run_untold by blast

text \<open>The two other cases of the commit decision do occur: a replica that has recorded an abort tells
  the primary shard that the transaction is committed when it is asked for the result, and a decision
  received for a transaction without a vote is passed on to the leaders.\<close>

definition ex_abort :: co_msg where
  "ex_abort = MVote \<lparr>vo_tid = 5, vo_vote = CR_ABORT, vo_shard = 1, vo_participants = [0, 1], vo_primaryShard = 0,
     vo_primaryCoordinator = 0, vo_replica = 1, vo_timestamp = 3\<rparr>"

definition ex_request :: co_msg where
  "ex_request = MRequestCommitResult \<lparr>rc_tid = 5, rc_participants = [0, 1], rc_primaryShard = 0, rc_shard = 0\<rparr>"

lemma aborted_reported_committed:
  "(case co_run (Coordinator_new 2 3 0) [ex_abort] of
      Inl e \<Rightarrow> False | Inr (c, os) \<Rightarrow> map_option cs_commitState (co_results c 5) = Some CR_ABORT) \<and>
   co_run (Coordinator_new 2 3 0) [ex_abort, ex_request] =
     Inl (UninitRead, [(ToShard 0 0, ONotifyDecision 5 CR_ABORT 3), (ToShard 0 0, ONotifyReplicateResult 5 True 0)])"
proof (rule conjI)
  have "\<not> isl r \<or> r = Inl (projl r)" for r :: "Coordinator co_res" by (cases r) auto
  moreover have "isl (co_run (Coordinator_new 2 3 0) [ex_abort, ex_request])" by code_simp
  moreover have "projl (co_run (Coordinator_new 2 3 0) [ex_abort, ex_request]) =
     (UninitRead, [(ToShard 0 0, ONotifyDecision 5 CR_ABORT 3), (ToShard 0 0, ONotifyReplicateResult 5 True 0)])"
    by code_simp
  ultimately show "co_run (Coordinator_new 2 3 0) [ex_abort, ex_request] =
     Inl (UninitRead, [(ToShard 0 0, ONotifyDecision 5 CR_ABORT 3), (ToShard 0 0, ONotifyReplicateResult 5 True 0)])"
    by metis
qed code_simp

lemma told_precommits_without_votes:
  "(ToShard 0 0, ONotifyDecision 5 CR_PREPARED 0) \<in> set (co_sent (co_run (Coordinator_new 2 3 0)
     [ex_ack 0 0, MNotifyDecisionToPrimary \<lparr>np_tid = 5, np_state = CR_PREPARED, np_participants = [0, 1],
        np_primaryShard = 0, np_timestamp = 3\<rparr>]))"
  by code_simp

text \<open>A decided transaction is closed: once a result is recorded, votes and acknowledgements for
  it change nothing and send nothing.\<close>

lemma decided_ignores_votes:
  assumes "co_results c tid \<noteq> None"
  shows "(rv_tid m = tid \<longrightarrow> co_HandleMessage c (MReplicateReplyAndVote m) = Inr (c, [])) \<and>
    (vo_tid v = tid \<longrightarrow> co_HandleMessage c (MVote v) = Inr (c, [])) \<and>
    (bl_tid a = tid \<longrightarrow> co_HandleMessage c (MBypassLeaderReply a) = Inr (c, [])) \<and>
    (bu_tid u = tid \<longrightarrow> co_HandleMessage c (MBypassLeaderReplyUnion u) = Inr (c, []))"
  using assms
  by (auto simp: HandleReplicateReplyAndVote_def HandleVote_def HandleBypassLeaderReply_def
      HandleBypassLeaderReplyUnion_def Let_def)

definition ex_waiting :: Coordinator where
  "ex_waiting = (case co_run (Coordinator_new 2 3 1) [ex_vote 0 1, ex_vote 1 1] of
     Inl e \<Rightarrow> Coordinator_new 2 3 1 | Inr p \<Rightarrow> fst p)"

text \<open>A committed transaction is recorded as aborted by the rest of the group: the announcement
  that follows a commit carries the state \<^verbatim>\<open>PREPARED\<close>, and a coordinator that is still waiting
  for the transaction takes every state but \<^verbatim>\<open>COMMIT\<close> for an abort.\<close>

lemma committed_recorded_as_abort:
  "(ToAllCoordinators, OReplicateDecision 5 CR_PREPARED 3) \<in> set ex_out \<and>
   (case co_HandleMessage ex_waiting (MReplicateDecision 5 CR_PREPARED 3) of
      Inl e \<Rightarrow> False
    | Inr (c, os) \<Rightarrow> map_option cs_commitState (co_results c 5) = Some CR_ABORT)"
  by code_simp

text \<open>Asking for the result of a decided transaction is undefined: with no pending request the
  handler notifies from a fresh record whose state was never set. The primary shard has been told
  by then that the transaction is committed.\<close>

lemma request_after_decision_uninitialised:
  assumes "co_pending c (rc_tid m) = None" and "co_results c (rc_tid m) \<noteq> None"
    and "shard_index c (rc_primaryShard m) = Inr k"
  shows "co_HandleMessage c (MRequestCommitResult m) =
    Inl (UninitRead, [(ToShard k (int32 (co_id c)), ONotifyReplicateResult (rc_tid m) True 0)])"
  using assms
  by (simp add: HandleRequestCommitResult_def Let_def NotifyReplicateResult_def PendingCommit_new_def
      bindw_def pure_def tell_def)

end
