(* ===== verification/LRLog.thy ===== *)
theory LRLog
  imports D2PC_Prelude
begin

text \<open>
  src/replication/lr/log.h and log.cc: the transaction log of a shard replica. \<^verbatim>\<open>entries\<close> is a
  \<^verbatim>\<open>std::map\<close>, \<^verbatim>\<open>storedEntries\<close> the insertion order. The members of a log entry that its
  default constructor leaves without a value are \<open>None\<close>. Assigning into the map uses the implicit
  copy assignment, which copies every member; the user-written copy constructor initialises
  \<^verbatim>\<open>txn\<close> from itself (\<open>LogEntry_copy\<close>). \<^verbatim>\<open>is_replica\<close> is never used.
\<close>

datatype LogEntryState =
  LOG_STATE_COMMIT | LOG_STATE_ABORT | LOG_STATE_APPLY | LOG_STATE_PREPAREOK | LOG_STATE_UNDECIDE

record LogEntry =
  le_term :: "u64 option"
  le_id :: "u64 option"
  le_txn :: "u64 option"
  le_ts :: "u64 option"
  le_state :: "LogEntryState option"
  le_wset :: "(string \<times> string) list"

record LogEntryProto =
  lp_wset :: "(string \<times> string) list"
  lp_state :: LogEntryState
  lp_timestamp :: u64
  lp_term :: u64
  lp_lsn :: u64
  lp_txnid :: u64

record Log =
  lg_entries :: "(u64 \<times> LogEntry) list"
  lg_storedEntries :: "u64 list"
  lg_start :: u64
  lg_last :: "u64 option"

definition LogEntry_default :: LogEntry where
  "LogEntry_default = \<lparr>le_term = None, le_id = None, le_txn = None, le_ts = None, le_state = None,
     le_wset = []\<rparr>"

definition LogEntry_ts :: "u64 \<Rightarrow> u64 \<Rightarrow> u64 \<Rightarrow> u64 \<Rightarrow> LogEntry" where
  "LogEntry_ts term i txn ts = \<lparr>le_term = Some term, le_id = Some i, le_txn = Some txn,
     le_ts = Some ts, le_state = None, le_wset = []\<rparr>"

definition LogEntry_full ::
  "u64 \<Rightarrow> u64 \<Rightarrow> u64 \<Rightarrow> (string \<times> string) list \<Rightarrow> LogEntryState \<Rightarrow> u64 \<Rightarrow> LogEntry" where
  "LogEntry_full term i txn wset state ts = \<lparr>le_term = Some term, le_id = Some i, le_txn = Some txn,
     le_ts = Some ts, le_state = Some state, le_wset = wset\<rparr>"

definition LogEntry_copy :: "LogEntry \<Rightarrow> LogEntry" where
  "LogEntry_copy x = x\<lparr>le_txn := None\<rparr>"

definition entry_addWriteSet :: "LogEntry \<Rightarrow> string \<Rightarrow> string \<Rightarrow> LogEntry" where
  "entry_addWriteSet e key val = e\<lparr>le_wset := AList.update key val (le_wset e)\<rparr>"

definition setState :: "LogEntry \<Rightarrow> LogEntryState \<Rightarrow> LogEntry" where
  "setState e newstate = e\<lparr>le_state := Some newstate\<rparr>"

definition Log_new :: "u64 \<Rightarrow> Log" where
  "Log_new start = \<lparr>lg_entries = [], lg_storedEntries = [], lg_start = start, lg_last = Some start\<rparr>"

text \<open>The key \<^verbatim>\<open>entry.id\<close> of an entry without an identifier is an uninitialised read.\<close>

definition Log_Add_entry :: "Log \<Rightarrow> LogEntry \<Rightarrow> ub + Log" where
  "Log_Add_entry l e =
     bindr (rd (le_id e)) (\<lambda>i.
       Inr (l\<lparr>lg_entries := smap_put i e (lg_entries l), lg_storedEntries := lg_storedEntries l @ [i]\<rparr>))"

text \<open>The leader's append: the new log sequence number and the log.\<close>

definition Log_Add :: "Log \<Rightarrow> u64 \<Rightarrow> u64 \<Rightarrow> (string \<times> string) list \<Rightarrow> LogEntryState \<Rightarrow> u64 \<Rightarrow>
    ub + u64 \<times> Log" where
  "Log_Add l term txn wset state ts =
     bindr (rd (lg_last l)) (\<lambda>i.
     bindr (Log_Add_entry (l\<lparr>lg_last := Some (i + 1)\<rparr>) (LogEntry_full term i txn wset state ts)) (\<lambda>l.
       Inr (i, l)))"

definition entry_of_proto :: "LogEntryProto \<Rightarrow> LogEntry" where
  "entry_of_proto p =
     fold (\<lambda>(k, v) e. entry_addWriteSet e k v) (lp_wset p)
       (setState (LogEntry_ts (lp_term p) (lp_lsn p) (lp_txnid p) (lp_timestamp p)) (lp_state p))"

definition Log_Add_proto :: "Log \<Rightarrow> LogEntryProto \<Rightarrow> ub + Log" where
  "Log_Add_proto l p = Log_Add_entry l (entry_of_proto p)"

primrec add_protos :: "Log \<Rightarrow> LogEntryProto list \<Rightarrow> ub + Log" where
  "add_protos l [] = Inr l"
| "add_protos l (p # ps) = bindr (Log_Add_entry l (entry_of_proto p)) (\<lambda>l. add_protos l ps)"

definition Log_of_proto :: "LogEntryProto list \<Rightarrow> u64 \<Rightarrow> ub + Log" where
  "Log_of_proto ps start = add_protos ((Log_new start)\<lparr>lg_last := None\<rparr>) ps"

definition log_Find :: "Log \<Rightarrow> u64 \<Rightarrow> LogEntry option" where
  "log_Find l i = map_of (lg_entries l) i"

definition set_entry :: "Log \<Rightarrow> u64 \<Rightarrow> LogEntry \<Rightarrow> Log" where
  "set_entry l i e = l\<lparr>lg_entries := smap_put i e (lg_entries l)\<rparr>"

definition SetStatus :: "Log \<Rightarrow> u64 \<Rightarrow> LogEntryState \<Rightarrow> bool \<times> Log" where
  "SetStatus l i state =
     (case log_Find l i of
        None \<Rightarrow> (False, l)
      | Some e \<Rightarrow> (True, set_entry l i (setState e state)))"

definition log_Last :: "Log \<Rightarrow> ub + LogEntry option" where
  "log_Last l =
     (if lg_entries l = [] then Inr None
      else if lg_storedEntries l = [] then Inl EndDeref
      else Inr (log_Find l (last (lg_storedEntries l))))"

definition LastLsn :: "Log \<Rightarrow> ub + u64" where
  "LastLsn l =
     (if lg_entries l = [] then Inr (lg_start l - 1)
      else if lg_storedEntries l = [] then Inl EndDeref
      else Inr (last (lg_storedEntries l)))"

definition FirstLsn :: "Log \<Rightarrow> ub + u64" where
  "FirstLsn l = (case lg_storedEntries l of [] \<Rightarrow> Inl EndDeref | i # is \<Rightarrow> Inr i)"

definition log_Empty :: "Log \<Rightarrow> bool" where
  "log_Empty l \<longleftrightarrow> lg_entries l = []"

definition log_Remove :: "Log \<Rightarrow> u64 \<Rightarrow> Log" where
  "log_Remove l i = l\<lparr>lg_entries := AList.delete i (lg_entries l)\<rparr>"

definition entry_proto :: "LogEntry \<Rightarrow> ub + LogEntryProto" where
  "entry_proto e =
     bindr (rd (le_term e)) (\<lambda>term.
     bindr (rd (le_id e)) (\<lambda>i.
     bindr (rd (le_txn e)) (\<lambda>txn.
     bindr (rd (le_state e)) (\<lambda>state.
     bindr (rd (le_ts e)) (\<lambda>ts.
       Inr \<lparr>lp_wset = le_wset e, lp_state = state, lp_timestamp = ts, lp_term = term, lp_lsn = i,
            lp_txnid = txn\<rparr>)))))"

primrec entries_proto :: "(u64 \<times> LogEntry) list \<Rightarrow> ub + LogEntryProto list" where
  "entries_proto [] = Inr []"
| "entries_proto (p # ps) =
     bindr (entry_proto (snd p)) (\<lambda>x. bindr (entries_proto ps) (\<lambda>xs. Inr (x # xs)))"

definition log_ToProto :: "Log \<Rightarrow> ub + LogEntryProto list" where
  "log_ToProto l = entries_proto (lg_entries l)"

text \<open>\<^verbatim>\<open>entries[id]\<close> inserts a default entry for an unknown number.\<close>

definition EntryToProto :: "Log \<Rightarrow> u64 \<Rightarrow> ub + LogEntryProto \<times> Log" where
  "EntryToProto l i =
     (case log_Find l i of
        None \<Rightarrow> bindr (entry_proto LogEntry_default) (\<lambda>p. Inr (p, set_entry l i LogEntry_default))
      | Some e \<Rightarrow> bindr (entry_proto e) (\<lambda>p. Inr (p, l)))"

text \<open>The overload that takes the entry by value goes through the copy constructor.\<close>

definition EntryToProto_value :: "LogEntry \<Rightarrow> ub + LogEntryProto" where
  "EntryToProto_value e = entry_proto (LogEntry_copy e)"

section \<open>Invariant of a leader's log\<close>

text \<open>A log the leader only appends to: sequence numbers count up from the start.\<close>

definition log_wf :: "Log \<Rightarrow> bool" where
  "log_wf l \<longleftrightarrow> ascending (lg_entries l) \<and> fst ` set (lg_entries l) = set (lg_storedEntries l) \<and>
     (\<forall>i e. map_of (lg_entries l) i = Some e \<longrightarrow> le_id e = Some i)"

lemma log_wf_new [simp]: "log_wf (Log_new start)"
  by (simp add: log_wf_def Log_new_def)

lemma Log_Add_entry_wf [inv_intro]:
  assumes "log_wf l" and "Log_Add_entry l e = Inr l'"
  shows "log_wf l'"
proof -
  obtain i where i: "le_id e = Some i" and l': "l' = l\<lparr>lg_entries := smap_put i e (lg_entries l),
      lg_storedEntries := lg_storedEntries l @ [i]\<rparr>"
    using assms(2) by (auto simp: Log_Add_entry_def bindr_eq_Inr)
  show ?thesis
    using assms(1) i unfolding log_wf_def l' by (simp add: ascending_smap_put fst_set_smap_put)
qed

lemma SetStatus_wf [inv_intro]: "log_wf l \<Longrightarrow> log_wf (snd (SetStatus l i st))"
proof -
  assume wf: "log_wf l"
  show ?thesis
  proof (cases "log_Find l i")
    case (Some e)
    then have "i \<in> fst ` set (lg_entries l)" by (auto simp: log_Find_def dest: map_of_SomeD intro: rev_image_eqI)
    with wf Some show ?thesis
      by (auto simp: SetStatus_def set_entry_def log_wf_def ascending_smap_put fst_set_smap_put setState_def
          log_Find_def insert_absorb)
  qed (simp add: SetStatus_def wf)
qed

lemma fold_entry_addWriteSet:
  "distinct (map fst (le_wset e) @ map fst ws) \<Longrightarrow>
   fold (\<lambda>(k, v) e. entry_addWriteSet e k v) ws e = e\<lparr>le_wset := le_wset e @ ws\<rparr>"
proof (induction ws arbitrary: e)
  case (Cons p ws)
  have "AList.update (fst p) (snd p) (le_wset e) = le_wset e @ [p]"
    using Cons.prems by (simp add: update_snoc)
  with Cons show ?case by (cases p) (auto simp: entry_addWriteSet_def)
qed simp

lemma entry_of_proto_eq:
  "distinct (map fst (lp_wset p)) \<Longrightarrow> entry_of_proto p =
   LogEntry_full (lp_term p) (lp_lsn p) (lp_txnid p) (lp_wset p) (lp_state p) (lp_timestamp p)"
  by (simp add: entry_of_proto_def fold_entry_addWriteSet setState_def LogEntry_ts_def LogEntry_full_def)

lemma entry_proto_of_proto:
  "distinct (map fst (lp_wset p)) \<Longrightarrow> entry_proto (entry_of_proto p) = Inr p"
  by (simp add: entry_of_proto_eq entry_proto_def LogEntry_full_def)

section \<open>Properties\<close>

text \<open>The leader's append gives the entry the next log sequence number, under which it is found
  again with all its members, and leaves every other entry as it was.\<close>

lemma log_add_find:
  assumes "Log_Add l term txn wset st ts = Inr (i, l')"
  shows "lg_last l = Some i \<and> lg_last l' = Some (i + 1) \<and>
    log_Find l' = (log_Find l)(i \<mapsto> LogEntry_full term i txn wset st ts) \<and>
    LastLsn l' = Inr i"
proof -
  have "lg_entries l' \<noteq> []"
    using assms by (auto simp: Log_Add_def Log_Add_entry_def bindr_eq_Inr LogEntry_full_def)
  with assms show ?thesis
    by (auto simp: Log_Add_def Log_Add_entry_def bindr_eq_Inr LogEntry_full_def log_Find_def fun_eq_iff LastLsn_def)
qed

text \<open>C18. Replication keeps a log entry: what a follower stores from the message the leader builds
  for sequence number \<open>i\<close> is the leader's entry, member for member.\<close>

theorem log_replication_roundtrip:
  assumes "log_Find l i = Some (LogEntry_full term i txn wset st ts)" and "distinct (map fst wset)"
  shows "\<exists>p. EntryToProto l i = Inr (p, l) \<and> lp_lsn p = i \<and>
    (\<exists>l'. Log_Add_proto f p = Inr l' \<and>
       log_Find l' i = Some (LogEntry_full term i txn wset st ts) \<and>
       (\<forall>j. j \<noteq> i \<longrightarrow> log_Find l' j = log_Find f j))"
proof -
  let ?p = "\<lparr>lp_wset = wset, lp_state = st, lp_timestamp = ts, lp_term = term, lp_lsn = i, lp_txnid = txn\<rparr>"
  have "EntryToProto l i = Inr (?p, l)"
    using assms(1) by (simp add: EntryToProto_def entry_proto_def LogEntry_full_def)
  moreover have "entry_of_proto ?p = LogEntry_full term i txn wset st ts"
    using assms(2) by (simp add: entry_of_proto_eq)
  then have "Log_Add_proto f ?p = Inr (f\<lparr>lg_entries := smap_put i (LogEntry_full term i txn wset st ts) (lg_entries f),
      lg_storedEntries := lg_storedEntries f @ [i]\<rparr>)"
    by (simp add: Log_Add_proto_def Log_Add_entry_def LogEntry_full_def)
  ultimately show ?thesis by (auto simp: log_Find_def)
qed

theorem log_replication_roundtrip_witness:
  "\<exists>p l'. EntryToProto (set_entry (Log_new 0) 4 (LogEntry_full 1 4 7 [(''x'', ''1'')] LOG_STATE_PREPAREOK 9)) 4 =
       Inr (p, set_entry (Log_new 0) 4 (LogEntry_full 1 4 7 [(''x'', ''1'')] LOG_STATE_PREPAREOK 9)) \<and>
     Log_Add_proto (Log_new 0) p = Inr l' \<and>
     log_Find l' 4 = Some (LogEntry_full 1 4 7 [(''x'', ''1'')] LOG_STATE_PREPAREOK 9)"
proof -
  let ?e = "LogEntry_full 1 4 7 [(''x'', ''1'')] LOG_STATE_PREPAREOK 9"
  have "log_Find (set_entry (Log_new 0) 4 ?e) 4 = Some ?e"
    by (simp add: log_Find_def set_entry_def)
  from log_replication_roundtrip [OF this, of "Log_new 0"] show ?thesis by auto
qed

text \<open>Sending a log entry by value sends no transaction identifier: the copy constructor
  initialises the member from itself, whatever the entry.\<close>

lemma copied_entry_has_no_txn:
  assumes "entry_proto e = Inr p"
  shows "EntryToProto_value e = Inl UninitRead"
  using assms by (auto simp: EntryToProto_value_def LogEntry_copy_def entry_proto_def bindr_eq_Inr)

end
