(* ===== verification/QuorumSets.thy ===== *)
theory QuorumSets
  imports D2PC_Prelude "HOL-Library.Signed_Division"
begin

text \<open>
  The arithmetic of quorums in src/lib/configuration.cc (\<^verbatim>\<open>QuorumSize\<close>,
  \<^verbatim>\<open>FastQuorumSize\<close>, \<^verbatim>\<open>GetLeaderIndex\<close>) and the reply collector of
  src/replication/common/quorumset.h. The two nested \<^verbatim>\<open>std::map\<close>s are ordered association
  lists; \<^verbatim>\<open>messages[vs]\<close> creates an empty inner map.
\<close>

definition QuorumSize :: "int \<Rightarrow> int" where
  "QuorumSize f = f + 1"

definition FastQuorumSize :: "int \<Rightarrow> int" where
  "FastQuorumSize f = f + (f + 1) sdiv 2 + 1"

definition GetLeaderIndex :: "u64 \<Rightarrow> int \<Rightarrow> ub + int" where
  "GetLeaderIndex view n = map_sum id int32 (umod view n)"

record ('k, 'm) QuorumSet =
  qs_numRequired :: int
  qs_messages :: "('k \<times> (int \<times> 'm) list) list"

definition QuorumSet_new :: "int \<Rightarrow> ('k, 'm) QuorumSet" where
  "QuorumSet_new required = \<lparr>qs_numRequired = required, qs_messages = []\<rparr>"

definition qs_Clear :: "('k, 'm) QuorumSet \<Rightarrow> ('k, 'm) QuorumSet" where
  "qs_Clear q = q\<lparr>qs_messages := []\<rparr>"

definition qs_Clear_at :: "('k::linorder, 'm) QuorumSet \<Rightarrow> 'k \<Rightarrow> ('k, 'm) QuorumSet" where
  "qs_Clear_at q vs = q\<lparr>qs_messages := smap_put vs [] (qs_messages q)\<rparr>"

definition NumRequired :: "('k, 'm) QuorumSet \<Rightarrow> int" where
  "NumRequired q = qs_numRequired q"

definition qs_at :: "('k::linorder, 'm) QuorumSet \<Rightarrow> 'k \<Rightarrow> (int \<times> 'm) list" where
  "qs_at q vs = (case map_of (qs_messages q) vs of None \<Rightarrow> [] | Some m \<Rightarrow> m)"

definition GetMessages ::
  "('k::linorder, 'm) QuorumSet \<Rightarrow> 'k \<Rightarrow> (int \<times> 'm) list \<times> ('k, 'm) QuorumSet" where
  "GetMessages q vs = (qs_at q vs, q\<lparr>qs_messages := smap_put vs (qs_at q vs) (qs_messages q)\<rparr>)"

definition CheckForQuorum ::
  "('k::linorder, 'm) QuorumSet \<Rightarrow> 'k \<Rightarrow> (int \<times> 'm) list option \<times> ('k, 'm) QuorumSet" where
  "CheckForQuorum q vs =
     (let m = qs_at q vs in
      (if int (length m) \<ge> qs_numRequired q then Some m else None,
       q\<lparr>qs_messages := smap_put vs m (qs_messages q)\<rparr>))"

text \<open>The overload without an argument: the first key that has a quorum.\<close>

definition CheckForQuorum_any :: "('k::linorder, 'm) QuorumSet \<Rightarrow> (int \<times> 'm) list option" where
  "CheckForQuorum_any q =
     map_option snd (find (\<lambda>p. int (length (snd p)) \<ge> qs_numRequired q) (qs_messages q))"

definition AddAndCheckForQuorum :: "('k::linorder, 'm) QuorumSet \<Rightarrow> 'k \<Rightarrow> int \<Rightarrow> 'm \<Rightarrow>
    (int \<times> 'm) list option \<times> ('k, 'm) QuorumSet" where
  "AddAndCheckForQuorum q vs replicaIdx msg =
     CheckForQuorum (q\<lparr>qs_messages := smap_put vs (smap_put replicaIdx msg (qs_at q vs)) (qs_messages q)\<rparr>) vs"

definition qs_Add :: "('k::linorder, 'm) QuorumSet \<Rightarrow> 'k \<Rightarrow> int \<Rightarrow> 'm \<Rightarrow> ('k, 'm) QuorumSet" where
  "qs_Add q vs replicaIdx msg = snd (AddAndCheckForQuorum q vs replicaIdx msg)"

section \<open>Contents\<close>

definition qs_wf :: "('k::linorder, 'm) QuorumSet \<Rightarrow> bool" where
  "qs_wf q \<longleftrightarrow> ascending (qs_messages q) \<and> (\<forall>vs. ascending (qs_at q vs))"

lemma FastQuorumSize_nat: "FastQuorumSize (int f) = int (f + (f + 1) div 2 + 1)"
proof -
  have "(int f + 1) sdiv 2 = (int f + 1) div 2" by (simp add: signed_divide_int_def)
  then show ?thesis unfolding FastQuorumSize_def by (simp add: zdiv_int)
qed

lemma qs_at_update:
  "qs_at (q\<lparr>qs_messages := smap_put vs m (qs_messages q)\<rparr>) k = (if k = vs then m else qs_at q k)"
  by (simp add: qs_at_def)

lemma qs_at_Add:
  "qs_at (qs_Add q vs r msg) k = (if k = vs then smap_put r msg (qs_at q vs) else qs_at q k)"
  by (simp add: qs_Add_def AddAndCheckForQuorum_def CheckForQuorum_def Let_def qs_at_update)
    (simp add: qs_at_def)

lemma qs_wf_new [simp]: "qs_wf (QuorumSet_new n)"
  by (simp add: qs_wf_def QuorumSet_new_def qs_at_def)

lemma qs_wf_Add [inv_intro]: "qs_wf q \<Longrightarrow> qs_wf (qs_Add q vs r msg)"
  by (auto simp: qs_wf_def qs_at_Add ascending_smap_put)
    (auto simp: qs_Add_def AddAndCheckForQuorum_def CheckForQuorum_def Let_def ascending_smap_put)

lemma qs_new_at [simp]: "qs_at (QuorumSet_new n) k = []"
  by (simp add: QuorumSet_new_def qs_at_def)

text \<open>The number of collected replies is the number of distinct repliers.\<close>

lemma qs_count: "qs_wf q \<Longrightarrow> length (qs_at q vs) = card (fst ` set (qs_at q vs))"
  using distinct_card [OF ascending_distinct [of "qs_at q vs"]] by (simp add: qs_wf_def)

section \<open>Intersection\<close>

text \<open>What a protocol needs of a quorum system, and the two systems of the configuration.\<close>

locale quorum_system =
  fixes universe :: "'a set" and quorum :: "'a set \<Rightarrow> bool"
  assumes finite_universe: "finite universe"
    and quorum_subset: "quorum Q \<Longrightarrow> Q \<subseteq> universe"
    and quorum_meet: "quorum Q \<Longrightarrow> quorum R \<Longrightarrow> Q \<inter> R \<noteq> {}"
begin

text \<open>If every member of a quorum has stored a value, every other quorum finds it.\<close>

lemma quorum_reads_write:
  assumes "quorum Q" and "\<And>r. r \<in> Q \<Longrightarrow> stored r" and "quorum R"
  obtains r where "r \<in> R" and "stored r"
  using quorum_meet [OF assms(1,3)] assms(2) by blast

lemma quorum_nonempty: "quorum Q \<Longrightarrow> Q \<noteq> {}"
  using quorum_meet [of Q Q] by auto

end

definition replica_quorum :: "nat \<Rightarrow> nat set \<Rightarrow> bool" where
  "replica_quorum f Q \<longleftrightarrow> Q \<subseteq> {..<2 * f + 1} \<and> int (card Q) \<ge> QuorumSize (int f)"

definition majority_quorum :: "nat \<Rightarrow> nat set \<Rightarrow> bool" where
  "majority_quorum n Q \<longleftrightarrow> Q \<subseteq> {..<n} \<and> card Q \<ge> n div 2 + 1"

lemma large_subsets_meet:
  assumes "finite U" and "Q \<subseteq> U" and "R \<subseteq> U" and "card U < card Q + card R"
  shows "Q \<inter> R \<noteq> {}"
proof
  assume "Q \<inter> R = {}"
  then have "card (Q \<union> R) = card Q + card R"
    using assms by (intro card_Un_disjoint) (auto dest: finite_subset)
  moreover have "card (Q \<union> R) \<le> card U" using assms by (intro card_mono) auto
  ultimately show False using assms(4) by simp
qed

interpretation lr_quorum: quorum_system "{..<2 * f + 1}" "replica_quorum f" for f :: nat
proof unfold_locales
  fix Q R :: "nat set"
  assume "replica_quorum f Q" "replica_quorum f R"
  then show "Q \<inter> R \<noteq> {}"
    by (intro large_subsets_meet [of "{..<2 * f + 1}"]) (auto simp: replica_quorum_def QuorumSize_def)
qed (auto simp: replica_quorum_def)

interpretation co_quorum: quorum_system "{..<n}" "majority_quorum n" for n :: nat
proof unfold_locales
  fix Q R :: "nat set"
  assume "majority_quorum n Q" "majority_quorum n R"
  then show "Q \<inter> R \<noteq> {}"
    by (intro large_subsets_meet [of "{..<n}"]) (auto simp: majority_quorum_def)
qed (auto simp: majority_quorum_def)

section \<open>Properties\<close>

text \<open>C17. Two quorums of the size the configuration computes share a replica when there are
  \<open>2 f + 1\<close> of them, and a fast quorum meets the intersection of any classic quorum with any other
  fast quorum.\<close>

theorem quorums_intersect:
  assumes "Q \<subseteq> {..<2 * f + 1}" and "R \<subseteq> {..<2 * f + 1}" and "S \<subseteq> {..<2 * f + 1}"
    and "int (card Q) \<ge> QuorumSize (int f)" and "int (card R) \<ge> FastQuorumSize (int f)"
    and "int (card S) \<ge> FastQuorumSize (int f)"
  shows "Q \<inter> R \<inter> S \<noteq> {}"
proof -
  let ?U = "{..<2 * f + 1}"
  have cR: "card R \<ge> f + (f + 1) div 2 + 1" and cS: "card S \<ge> f + (f + 1) div 2 + 1"
    using assms(5,6) unfolding FastQuorumSize_nat by simp_all
  have cQ: "card Q \<ge> f + 1" using assms(4) by (simp add: QuorumSize_def)
  have fin: "finite R" "finite S" using assms(2,3) finite_subset by auto
  have "card (R \<union> S) \<le> 2 * f + 1"
    using card_mono [of ?U "R \<union> S"] assms(2,3) by simp
  moreover have "card (R \<union> S) + card (R \<inter> S) = card R + card S"
    using card_Un_Int [OF fin] by simp
  ultimately have "card (R \<inter> S) \<ge> f + 1" using cR cS by linarith
  then have "Q \<inter> (R \<inter> S) \<noteq> {}"
    using cQ assms(1,2) by (intro large_subsets_meet [of ?U]) auto
  then show ?thesis by (simp add: Int_assoc)
qed

theorem quorums_intersect_witness: "{0, 1} \<inter> {0, 1, 2} \<inter> {0, 1, 2} \<noteq> ({} :: nat set)"
proof -
  have "{0, 1} \<subseteq> {..<2 * 1 + 1 :: nat}" "{0, 1, 2} \<subseteq> {..<2 * 1 + 1 :: nat}"
    "int (card {0, 1 :: nat}) \<ge> QuorumSize (int 1)" "int (card {0, 1, 2 :: nat}) \<ge> FastQuorumSize (int 1)"
    unfolding FastQuorumSize_nat by (auto simp: QuorumSize_def)
  then show ?thesis using quorums_intersect by blast
qed

text \<open>The reply collector counts distinct repliers: after any sequence of additions, a key has a
  quorum exactly when at least \<open>numRequired\<close> different replicas have replied for it, and a repeated
  reply replaces the earlier one.\<close>

lemma quorumset_counts_replicas:
  "let q = fold (\<lambda>(vs, r, m) q. qs_Add q vs r m) xs (QuorumSet_new req) in
   (fst (CheckForQuorum q k) \<noteq> None \<longleftrightarrow> int (card {r. \<exists>m. (k, r, m) \<in> set xs}) \<ge> req) \<and>
   map_of (qs_at q k) r = map_of (rev (map snd (filter (\<lambda>x. fst x = k) xs))) r"
proof -
  define q where "q = fold (\<lambda>(vs, r, m) q. qs_Add q vs r m) xs (QuorumSet_new req)"
  have num: "qs_numRequired (qs_Add p vs r m) = qs_numRequired p" for p :: "('a, 'b) QuorumSet" and vs r m
    by (simp add: qs_Add_def AddAndCheckForQuorum_def CheckForQuorum_def Let_def)
  have gen: "qs_wf p \<Longrightarrow> let p' = fold (\<lambda>(vs, r, m) q. qs_Add q vs r m) ys p in
      qs_wf p' \<and> qs_numRequired p' = qs_numRequired p \<and>
      map_of (qs_at p' k) = map_of (qs_at p k) ++ map_of (rev (map snd (filter (\<lambda>x. fst x = k) ys)))"
    for p :: "('a, 'b) QuorumSet" and ys
    by (induction ys arbitrary: p) (auto simp: Let_def qs_wf_Add num qs_at_Add fun_eq_iff map_add_def
        split: option.split)
  have q: "qs_wf q" "qs_numRequired q = req"
    "map_of (qs_at q k) = map_of (rev (map snd (filter (\<lambda>x. fst x = k) xs)))"
    using gen [of "QuorumSet_new req" xs] by (simp_all add: q_def Let_def QuorumSet_new_def [of req] qs_wf_def qs_at_def)
  have "fst ` set (qs_at q k) = dom (map_of (qs_at q k))" by (simp add: dom_map_of_conv_image_fst)
  also have "\<dots> = {r. \<exists>m. (k, r, m) \<in> set xs}" by (force simp: q(3) dom_map_of_conv_image_fst)
  finally have "length (qs_at q k) = card {r. \<exists>m. (k, r, m) \<in> set xs}" using qs_count [OF q(1)] by simp
  then show ?thesis unfolding q_def [symmetric] Let_def
    using q(2,3) by (simp add: CheckForQuorum_def Let_def)
qed

end
