(* ===== verification/LRReplica.thy ===== *)
theory LRReplica
  imports StoreServer Coordinator LRLog QuorumSets
begin

text \<open>
  src/replication/lr/replica.h and replica.cc: a replica of a shard. The leader prepares, replicates
  and commits transactions, followers replicate the log and apply decisions; in parallel mode the
  leader also tracks which transactions read the writes of a pre-committed one.

  \<^item> Messages are decoded protobuf messages; an absent field has its proto3 default. A message
    handed to a transport is appended to \<open>lr_sent\<close>. Whether the transport could send the \<open>n\<close>-th
    message, the clock values of the lock table and the recursion depth the stack allows are given
    by an environment (\<open>Env\<close>).
  \<^item> \<^verbatim>\<open>activeTxns\<close>, \<^verbatim>\<open>clientList\<close> and \<^verbatim>\<open>prepareClientList\<close> hold pointers and are read
    with \<^verbatim>\<open>operator[]\<close>, which inserts \<^verbatim>\<open>NULL\<close>: they map to an option, \<open>None\<close> being
    \<^verbatim>\<open>NULL\<close>. A null dereference, a use after free and an index outside \<^verbatim>\<open>shardTransport\<close> are
    results of type \<open>ub\<close>.
  \<^item> A \<^verbatim>\<open>unique_ptr<Timeout>\<close> is an option of the callback it runs and whether it is armed.
  \<^item> The constructor leaves \<^verbatim>\<open>current_ts\<close> without a value, although \<^verbatim>\<open>increaseTs\<close> and two handlers read
    it: strictly speaking the first prepare of every replica is undefined. This is the one
    uninitialised member that is not an option: \<open>LRReplica_new\<close> takes the value found there as an
    argument, no read of it is a failure, and every result holds for all its values. \<^verbatim>\<open>last_transaction\<close>,
    \<^verbatim>\<open>mode\<close> and the members that measure critical-path times are never read by a decision.
\<close>

type_synonym addr = nat

datatype CommitMode = CM_SLOW | CM_FAST | CM_PARALLEL | CM_CAROUSEL | CM_RC

datatype ReplyState = REP_OK | REP_FAIL | REP_TIMEOUT | REP_NETWORK_FAILURE

record PrepareTransaction =
  pm_tid :: u64
  pm_wset :: "(string \<times> string) list"
  pm_rset :: "(string \<times> Timestamp) list"
  pm_participants :: "u64 list"
  pm_primaryShard :: u64
  pm_mode :: CommitMode

record PrepareTransactionReply =
  pr_tid :: u64
  pr_state :: LogEntryState
  pr_shard :: u64
  pr_timestamp :: u64
  pr_reachFaultTolerance :: int
  pr_replica :: u64

record ReplicateTransaction =
  rt_txnLog :: LogEntryProto
  rt_term :: u64
  rt_replicaID :: int
  rt_primaryCoordinator :: u64
  rt_participants :: "u64 list"
  rt_primaryShard :: u64
  rt_vote :: LogEntryState
  rt_hasPreCommit :: bool

record ReplicateTransactionReply =
  rr_lsn :: u64
  rr_term :: u64
  rr_replicaID :: int
  rr_txnid :: u64

record CommitMsg =
  cm_tid :: u64
  cm_state :: LogEntryState
  cm_timestamp :: u64

record ReplicateCommit =
  rcm_tid :: u64
  rcm_lsn :: u64
  rcm_state :: LogEntryState
  rcm_timestamp :: u64

record ReadKeyVersion =
  rk_key :: string
  rk_value :: string
  rk_timestamp :: u64

record GetDataReply =
  gd_tid :: u64
  gd_keys :: "ReadKeyVersion list"
  gd_replicaid :: u64
  gd_state :: ReplyState

datatype lr_msg =
    LReplicateTransaction ReplicateTransaction
  | LReplicateTransactionReply ReplicateTransactionReply
  | LPrepareTransaction PrepareTransaction
  | LPrepareTransactionReply PrepareTransactionReply
  | LCommit CommitMsg
  | LReplicateCommit ReplicateCommit
  | LGetData u64 "string list"
  | LNotifyDecision u64 CommitResult u64
  | LNotifyReplicateResult u64 bool u64
  | LParallelModeCommit u64 "u64 list"

datatype lr_out =
    SReplicateTransaction ReplicateTransaction
  | SReplicateTransactionReply ReplicateTransactionReply
  | SPrepareTransaction PrepareTransaction
  | SPrepareTransactionReply PrepareTransactionReply
  | SReplicateCommit ReplicateCommit
  | SGetDataReply GetDataReply
  | SParallelModeCommitReply u64 LogEntryState u64
  | SCoordinator co_msg

datatype lr_dest = DAddr addr | DReplicas | DShard nat int | DCoordinator int | DCoordinators

datatype timer_cb = CB_ResendReplicateTxn | CB_ResendPrepareOK | CB_ResendPrepare

type_synonym timer = "(timer_cb \<times> bool) option"

record PendingTransaction =
  pt_lsn :: u64
  pt_tid :: u64
  pt_quorum :: "(u64, ReplicateTransactionReply) QuorumSet"
  pt_majority :: nat
  pt_finalResult :: "LogEntryState option"
  pt_timer :: timer
  pt_participants :: "u64 list"
  pt_primary_shard :: "u64 option"
  pt_send_confirms :: bool
  pt_reach_consensus :: bool
  pt_reach_commit_decision :: bool
  pt_parallel_mode :: bool
  pt_is_participant :: bool
  pt_has_precommit :: bool

record PendingPrepare =
  pp_tid :: u64
  pp_timestamp :: u64
  pp_txn :: Transaction
  pp_participant_replies :: "(u64 \<times> LogEntryState) list"
  pp_participants :: "u64 list"
  pp_finalDecision :: "LogEntryState option"
  pp_timer :: timer
  pp_region_replicies :: "(u64 \<times> LogEntryState) list"

record LRReplica =
  lr_n :: int
  lr_f :: int
  lr_replica_id :: u64
  lr_shard_id :: u64
  lr_leader :: u64
  lr_nshards :: int
  lr_ntransports :: nat
  lr_tpcMode :: TpcMode
  lr_isLeader :: bool
  lr_term :: u64
  lr_log :: Log
  lr_current_ts :: u64
  lr_store :: Server
  lr_pendingTxns :: "u64 \<rightharpoonup> PendingTransaction"
  lr_pendingPrepares :: "u64 \<rightharpoonup> PendingPrepare"
  lr_activeTxns :: "u64 \<rightharpoonup> Transaction option"
  lr_committedTxns :: "u64 \<rightharpoonup> LogEntryState \<times> u64"
  lr_inDependency :: "u64 \<rightharpoonup> int"
  lr_clientList :: "u64 \<rightharpoonup> addr option"
  lr_prepareClientList :: "u64 \<rightharpoonup> addr option"
  lr_sent :: "(lr_dest \<times> lr_out) list"

record Env =
  env_net :: "nat \<Rightarrow> bool"
  env_clk :: lock_clock
  env_depth :: nat

definition PendingTransaction_new ::
  "timer \<Rightarrow> int \<Rightarrow> u64 \<Rightarrow> u64 \<Rightarrow> u64 list \<Rightarrow> u64 option \<Rightarrow> PendingTransaction" where
  "PendingTransaction_new timer majority lsn tid participants primary_shard =
     \<lparr>pt_lsn = lsn, pt_tid = tid, pt_quorum = QuorumSet_new majority,
      pt_majority = unat (word_of_int majority :: u64), pt_finalResult = None, pt_timer = timer,
      pt_participants = participants, pt_primary_shard = primary_shard, pt_send_confirms = False,
      pt_reach_consensus = False, pt_reach_commit_decision = False, pt_parallel_mode = False,
      pt_is_participant = True, pt_has_precommit = False\<rparr>"

text \<open>The second constructor, with the two members its only caller sets at once.\<close>

definition PendingTransaction_parallel :: "int \<Rightarrow> u64 \<Rightarrow> u64 \<Rightarrow> PendingTransaction" where
  "PendingTransaction_parallel majority lsn tid =
     (PendingTransaction_new None majority lsn tid [] None)\<lparr>pt_parallel_mode := True\<rparr>"

definition PendingPrepare_new :: "timer \<Rightarrow> u64 list \<Rightarrow> u64 \<Rightarrow> Transaction \<Rightarrow> PendingPrepare" where
  "PendingPrepare_new timer participants tid txn =
     \<lparr>pp_tid = tid, pp_timestamp = 0, pp_txn = txn, pp_participant_replies = [],
      pp_participants = participants, pp_finalDecision = None, pp_timer = timer,
      pp_region_replicies = []\<rparr>"

definition LRReplica_new :: "int \<Rightarrow> int \<Rightarrow> u64 \<Rightarrow> u64 \<Rightarrow> u64 \<Rightarrow> int \<Rightarrow> nat \<Rightarrow> TpcMode \<Rightarrow> Server \<Rightarrow> u64 \<Rightarrow>
    LRReplica" where
  "LRReplica_new n f replica_id leader shard nshards ntransports tpc store ts0 =
     \<lparr>lr_n = n, lr_f = f, lr_replica_id = replica_id, lr_shard_id = shard, lr_leader = leader,
      lr_nshards = nshards, lr_ntransports = ntransports, lr_tpcMode = tpc,
      lr_isLeader = (replica_id = leader), lr_term = 0, lr_log = Log_new 0, lr_current_ts = ts0,
      lr_store = store, lr_pendingTxns = Map.empty, lr_pendingPrepares = Map.empty,
      lr_activeTxns = Map.empty, lr_committedTxns = Map.empty, lr_inDependency = Map.empty,
      lr_clientList = Map.empty, lr_prepareClientList = Map.empty, lr_sent = []\<rparr>"

section \<open>Access to the maps, the transports and the timers\<close>

definition lr_send :: "Env \<Rightarrow> LRReplica \<Rightarrow> lr_dest \<Rightarrow> lr_out \<Rightarrow> bool \<times> LRReplica" where
  "lr_send env s d m = (env_net env (length (lr_sent s)), s\<lparr>lr_sent := lr_sent s @ [(d, m)]\<rparr>)"

definition shard_transport :: "LRReplica \<Rightarrow> u64 \<Rightarrow> ub + nat" where
  "shard_transport s i = (if unat i < lr_ntransports s then Inr (unat i) else Inl OutOfBounds)"

definition touch :: "('k \<rightharpoonup> 'v option) \<Rightarrow> 'k \<Rightarrow> ('k \<rightharpoonup> 'v option)" where
  "touch m k = (case m k of None \<Rightarrow> m(k \<mapsto> None) | Some p \<Rightarrow> m)"

definition deref :: "('k \<rightharpoonup> 'v option) \<Rightarrow> 'k \<Rightarrow> ub + 'v" where
  "deref m k = (case m k of Some (Some v) \<Rightarrow> Inr v | _ \<Rightarrow> Inl NullDeref)"

definition active :: "LRReplica \<Rightarrow> u64 \<Rightarrow> ub + Transaction" where
  "active s tid = deref (lr_activeTxns s) tid"

definition put_pending :: "LRReplica \<Rightarrow> u64 \<Rightarrow> PendingTransaction \<Rightarrow> LRReplica" where
  "put_pending s tid req = s\<lparr>lr_pendingTxns := (lr_pendingTxns s)(tid \<mapsto> req)\<rparr>"

definition erase_pending :: "LRReplica \<Rightarrow> u64 \<Rightarrow> LRReplica" where
  "erase_pending s tid = s\<lparr>lr_pendingTxns := (lr_pendingTxns s)(tid := None)\<rparr>"

definition erase_active :: "LRReplica \<Rightarrow> u64 \<Rightarrow> LRReplica" where
  "erase_active s tid = s\<lparr>lr_activeTxns := (lr_activeTxns s)(tid := None)\<rparr>"

definition erase_client :: "LRReplica \<Rightarrow> u64 \<Rightarrow> LRReplica" where
  "erase_client s tid = s\<lparr>lr_clientList := (lr_clientList s)(tid := None)\<rparr>"

definition set_active :: "LRReplica \<Rightarrow> u64 \<Rightarrow> Transaction \<Rightarrow> LRReplica" where
  "set_active s tid t = s\<lparr>lr_activeTxns := (lr_activeTxns s)(tid \<mapsto> Some t)\<rparr>"

definition timer_Reset :: "timer \<Rightarrow> ub + timer" where
  "timer_Reset t = (case t of None \<Rightarrow> Inl NullDeref | Some (cb, a) \<Rightarrow> Inr (Some (cb, True)))"

definition timer_Stop :: "timer \<Rightarrow> ub + timer" where
  "timer_Stop t = (case t of None \<Rightarrow> Inl NullDeref | Some (cb, a) \<Rightarrow> Inr (Some (cb, False)))"

definition increaseTs :: "LRReplica \<Rightarrow> u64 \<times> LRReplica" where
  "increaseTs s = (lr_current_ts s + 1, s\<lparr>lr_current_ts := lr_current_ts s + 1\<rparr>)"

definition raise_ts :: "LRReplica \<Rightarrow> u64 \<Rightarrow> LRReplica" where
  "raise_ts s ts = (if ts > lr_current_ts s then s\<lparr>lr_current_ts := ts\<rparr> else s)"

text \<open>The shard of a key: characters are signed, hence the sign extension.\<close>

definition key_hash :: "string \<Rightarrow> u64" where
  "key_hash key = fold (\<lambda>c h. (push_bit 5 h + h) + scast (of_char c :: 8 word)) key 5381"

definition key_to_shard :: "LRReplica \<Rightarrow> string \<Rightarrow> ub + u64" where
  "key_to_shard s key = umod (key_hash key) (lr_nshards s)"

definition send_to_primary :: "Env \<Rightarrow> LRReplica \<Rightarrow> u64 \<Rightarrow> lr_out \<Rightarrow> ub + bool \<times> LRReplica" where
  "send_to_primary env s shard m =
     bindr (umod shard (lr_n s)) (\<lambda>l.
     bindr (shard_transport s shard) (\<lambda>i. Inr (lr_send env s (DShard i (int32 l)) m)))"

section \<open>Replicating a transaction\<close>

definition ReplicateTxn :: "Env \<Rightarrow> LRReplica \<Rightarrow> PendingTransaction \<Rightarrow> ub + LRReplica" where
  "ReplicateTxn env s req =
     bindr (EntryToProto (lr_log s) (pt_lsn req)) (\<lambda>(p, l).
     bindr (rd (pt_primary_shard req)) (\<lambda>ps.
     bindr (umod ps (lr_n s)) (\<lambda>pc.
       case lr_send env (s\<lparr>lr_log := l\<rparr>) DReplicas
              (SReplicateTransaction \<lparr>rt_txnLog = p, rt_term = lr_term s,
                 rt_replicaID = int32 (lr_replica_id s), rt_primaryCoordinator = word_of_int (int32 pc),
                 rt_participants = pt_participants req, rt_primaryShard = ps,
                 rt_vote = LOG_STATE_PREPAREOK, rt_hasPreCommit = pt_has_precommit req\<rparr>) of
         (True, s) \<Rightarrow>
           bindr (timer_Reset (pt_timer req)) (\<lambda>t. Inr (put_pending s (pt_tid req) (req\<lparr>pt_timer := t\<rparr>)))
       | (False, s) \<Rightarrow> Inr (erase_pending s (pt_tid req)))))"

definition ResendReplicateTxn :: "Env \<Rightarrow> LRReplica \<Rightarrow> u64 \<Rightarrow> ub + LRReplica" where
  "ResendReplicateTxn env s tid =
     (if lr_tpcMode s = MODE_RC then Inr s
      else case lr_pendingTxns s tid of None \<Rightarrow> Inl NullDeref | Some req \<Rightarrow> ReplicateTxn env s req)"

definition InvokeReplicateTxn :: "Env \<Rightarrow> LRReplica \<Rightarrow> u64 \<Rightarrow> u64 \<Rightarrow> bool \<Rightarrow> ub + LRReplica" where
  "InvokeReplicateTxn env s tid lsn hasPreCommit =
     (case lr_pendingTxns s tid of
        None \<Rightarrow>
          bindr (active s tid) (\<lambda>txn.
            let req = (PendingTransaction_new
                   (if lr_tpcMode s = MODE_RC then None else Some (CB_ResendReplicateTxn, False))
                   (QuorumSize (lr_f s)) lsn tid (txn_participants txn) (txn_primary_shard txn))
                     \<lparr>pt_has_precommit := hasPreCommit\<rparr>;
                s = put_pending s tid req
            in if lr_tpcMode s \<noteq> MODE_RC then ReplicateTxn env s req else Inr s)
      | Some req \<Rightarrow>
          if lr_tpcMode s \<noteq> MODE_RC \<and> pt_timer req = None then
            bindr (active s tid) (\<lambda>txn.
              let req = req\<lparr>pt_timer := Some (CB_ResendReplicateTxn, False), pt_lsn := lsn,
                    pt_majority := unat (word_of_int (QuorumSize (lr_f s)) :: u64),
                    pt_participants := txn_participants txn,
                    pt_primary_shard := txn_primary_shard txn, pt_has_precommit := hasPreCommit\<rparr>
              in ReplicateTxn env (put_pending s tid req) req)
          else ResendReplicateTxn env s tid)"

definition prepare_reply :: "LRReplica \<Rightarrow> u64 \<Rightarrow> LogEntryState \<Rightarrow> u64 \<Rightarrow> PrepareTransactionReply" where
  "prepare_reply s tid st ts =
     \<lparr>pr_tid = tid, pr_state = st, pr_shard = lr_shard_id s, pr_timestamp = ts,
      pr_reachFaultTolerance = 0, pr_replica = 0\<rparr>"

text \<open>A follower receives a log entry from the leader.\<close>

definition HandleReplicateTransaction ::
  "Env \<Rightarrow> LRReplica \<Rightarrow> addr \<Rightarrow> ReplicateTransaction \<Rightarrow> ub + LRReplica" where
  "HandleReplicateTransaction env s remote msg =
     (let p = rt_txnLog msg; lsn = lp_lsn p; tid = lp_txnid p; s = raise_ts s (lp_timestamp p) in
      bindr
        (case log_Find (lr_log s) lsn of
           Some e \<Rightarrow> Inr s
         | None \<Rightarrow>
             bindr (Log_Add_proto (lr_log s) p) (\<lambda>l.
               case log_Find l lsn of
                 None \<Rightarrow> Inl NullDeref
               | Some e \<Rightarrow>
                   bindr (rd (le_ts e)) (\<lambda>ts.
                     let txn = fold (\<lambda>q t. addParticipant t q) (rt_participants msg)
                           (fold (\<lambda>(k, v) t. addWriteSet t k v) (lp_wset p)
                             (Transaction_ts tid ts (word_of_int (rt_replicaID msg))));
                         s = set_active (s\<lparr>lr_log := l\<rparr>) tid txn
                     in bindr (PrepareUpcall (env_clk env) (lr_store s)
                                 ((Request_new PREPARE tid)\<lparr>rq_prepare := Some (Transaction_serialize txn)\<rparr>)
                                 (lr_isLeader s))
                          (\<lambda>(rep, replicate, sv). Inr (s\<lparr>lr_store := sv\<rparr>)))))
        (\<lambda>s.
           let s = snd (lr_send env s (DAddr remote) (SReplicateTransactionReply
                     \<lparr>rr_lsn = lsn, rr_term = lr_term s, rr_replicaID = int32 (lr_replica_id s), rr_txnid = tid\<rparr>))
           in if lr_tpcMode s = MODE_PARALLEL
              then Inr (snd (lr_send env s (DCoordinator (int32 (lr_replica_id s)))
                     (SCoordinator (MReplicateReplyAndVote
                       \<lparr>rv_tid = tid, rv_shard = lr_shard_id s, rv_replica = lr_replica_id s,
                        rv_vote = (if rt_vote msg = LOG_STATE_PREPAREOK then CR_PREPARED else CR_COMMIT),
                        rv_participants = rt_participants msg, rv_primaryShard = rt_primaryShard msg,
                        rv_primaryCoordinator = rt_primaryCoordinator msg, rv_timestamp = 0,
                        rv_hasPreCommit = rt_hasPreCommit msg\<rparr>))))
              else Inr s))"

text \<open>The leader has a quorum of replies.\<close>

definition HandleConsensus :: "Env \<Rightarrow> LRReplica \<Rightarrow> u64 \<Rightarrow> PendingTransaction \<Rightarrow> ub + LRReplica" where
  "HandleConsensus env s tid req =
     bindr (active s tid) (\<lambda>txn.
       let reply = (prepare_reply s tid LOG_STATE_PREPAREOK (getTimestamp (txn_commitTs txn)))
                     \<lparr>pr_replica := lr_replica_id s\<rparr>
       in if lr_tpcMode s = MODE_SLOW then
            bindr (rd (pt_primary_shard req)) (\<lambda>ps.
            bindr (send_to_primary env s ps (SPrepareTransactionReply reply)) (\<lambda>(ok, s).
              Inr (if ok then put_pending s tid (req\<lparr>pt_timer := Some (CB_ResendPrepareOK, False)\<rparr>)
                   else erase_active (erase_pending s tid) tid)))
          else if lr_tpcMode s = MODE_PARALLEL \<and> \<not> pt_has_precommit req then Inr s
          else
            let reply = (if lr_tpcMode s = MODE_CAROUSEL then reply\<lparr>pr_reachFaultTolerance := 1\<rparr> else reply) in
            bindr (deref (lr_clientList s) tid) (\<lambda>a.
              case lr_send env s (DAddr a) (SPrepareTransactionReply reply) of
                (True, s) \<Rightarrow> Inr (put_pending s tid (req\<lparr>pt_timer := Some (CB_ResendPrepareOK, True)\<rparr>))
              | (False, s) \<Rightarrow> Inr (erase_client (erase_active (erase_pending s tid) tid) tid)))"

definition HandleReplicateTransactionReply ::
  "Env \<Rightarrow> LRReplica \<Rightarrow> ReplicateTransactionReply \<Rightarrow> ub + LRReplica" where
  "HandleReplicateTransactionReply env s msg =
     (let tid = rr_txnid msg in
      case lr_pendingTxns s tid of
        None \<Rightarrow> Inr s
      | Some req \<Rightarrow>
          if pt_reach_consensus req then Inr s
          else
            case GetMessages (qs_Add (pt_quorum req) (rr_term msg) (rr_replicaID msg) msg) (rr_term msg) of
              (msgs, q) \<Rightarrow>
                let req = req\<lparr>pt_quorum := q\<rparr> in
                if length msgs \<ge> pt_majority req then
                  let req = req\<lparr>pt_reach_consensus := True, pt_finalResult := Some LOG_STATE_PREPAREOK\<rparr>
                  in HandleConsensus env (put_pending s tid req) tid req
                else Inr (put_pending s tid req))"

definition ResendPrepareOK :: "Env \<Rightarrow> LRReplica \<Rightarrow> u64 \<Rightarrow> ub + LRReplica" where
  "ResendPrepareOK env s tid =
     (case lr_pendingTxns s tid of
        None \<Rightarrow> Inr s
      | Some req \<Rightarrow>
          bindr (active s tid) (\<lambda>txn.
            let reply = prepare_reply s tid LOG_STATE_PREPAREOK (getTimestamp (txn_commitTs txn));
                reset = (\<lambda>(ok, s). if ok
                  then bindr (timer_Reset (pt_timer req)) (\<lambda>t. Inr (put_pending s tid (req\<lparr>pt_timer := t\<rparr>)))
                  else Inr s)
            in if lr_tpcMode s = MODE_SLOW
               then bindr (rd (pt_primary_shard req)) (\<lambda>ps.
                    bindr (send_to_primary env s ps (SPrepareTransactionReply reply)) reset)
               else bindr (deref (lr_clientList s) tid) (\<lambda>a.
                      reset (lr_send env s (DAddr a) (SPrepareTransactionReply reply)))))"

section \<open>Committing and aborting\<close>

definition abort_upcall :: "LRReplica \<Rightarrow> Request \<Rightarrow> LRReplica" where
  "abort_upcall s rq = s\<lparr>lr_store := snd (AbortUpcall (lr_store s) rq)\<rparr>"

text \<open>
  The loop of \<^verbatim>\<open>CascadeAbort\<close> over the transactions that depend on \<open>tid\<close>; \<open>rec\<close> is the
  recursive call. The vote names \<open>tid\<close>, carries \<^verbatim>\<open>PREPARED\<close> and sets nothing else.
\<close>

primrec cascade_outs :: "(u64 \<Rightarrow> LRReplica \<Rightarrow> ub + LRReplica) \<Rightarrow> Env \<Rightarrow> u64 \<Rightarrow> u64 list \<Rightarrow> LRReplica \<Rightarrow>
    ub + LRReplica" where
  "cascade_outs rec env tid [] s = Inr s"
| "cascade_outs rec env tid (x # xs) s =
     (if lr_activeTxns s x \<noteq> None then
        bindr (rec x s) (\<lambda>s.
          cascade_outs rec env tid xs (snd (lr_send env s DCoordinators (SCoordinator (MVote
            \<lparr>vo_tid = tid, vo_vote = CR_PREPARED, vo_shard = lr_shard_id s, vo_participants = [],
             vo_primaryShard = 0, vo_primaryCoordinator = 0, vo_replica = 0, vo_timestamp = 0\<rparr>)))))
      else cascade_outs rec env tid xs (s\<lparr>lr_inDependency := (lr_inDependency s)(x \<mapsto> -1)\<rparr>))"

primrec cascade :: "nat \<Rightarrow> Env \<Rightarrow> u64 \<Rightarrow> LRReplica \<Rightarrow> ub + LRReplica" where
  "cascade 0 env tid s = Inl StackOverflow"
| "cascade (Suc d) env tid s =
     (let s = abort_upcall s (Request_new ABORT tid) in
      if lr_pendingTxns s tid = None then Inr s
      else bindr (active s tid) (\<lambda>txn. cascade_outs (cascade d env) env tid (txn_out txn) s))"

definition CascadeAbort :: "Env \<Rightarrow> LRReplica \<Rightarrow> u64 \<Rightarrow> ub + LRReplica" where
  "CascadeAbort env s tid = cascade (env_depth env) env tid s"

text \<open>When a transaction commits, the transactions that read its writes lose one dependency.\<close>

primrec notify_outs :: "Env \<Rightarrow> PendingTransaction \<Rightarrow> u64 list \<Rightarrow> LRReplica \<Rightarrow> ub + LRReplica" where
  "notify_outs env req [] s = Inr s"
| "notify_outs env req (x # xs) s =
     (if lr_activeTxns s x \<noteq> None then
        bindr (active s x) (\<lambda>t.
        bindr (rd (txn_in (decreaseIn t))) (\<lambda>n.
          let s = set_active s x (decreaseIn t) in
          if n = 0 then
            bindr (rd (pt_primary_shard req)) (\<lambda>ps.
            bindr (umod ps (lr_n s)) (\<lambda>c.
              notify_outs env req xs (snd (lr_send env s (DCoordinator (int32 c))
                (SCoordinator (MNotifyDependenciesAreCleared x (lr_shard_id s)))))))
          else notify_outs env req xs s))
      else
        notify_outs env req xs (s\<lparr>lr_inDependency := (lr_inDependency s)
          (x \<mapsto> (case lr_inDependency s x of None \<Rightarrow> 0 | Some n \<Rightarrow> n) - 1)\<rparr>))"

definition notifyForFollowingDependenies :: "Env \<Rightarrow> LRReplica \<Rightarrow> u64 \<Rightarrow> ub + LRReplica" where
  "notifyForFollowingDependenies env s tid =
     (case lr_pendingTxns s tid of
        None \<Rightarrow> Inr s
      | Some req \<Rightarrow> bindr (active s tid) (\<lambda>txn. notify_outs env req (txn_out txn) s))"

primrec send_region :: "Env \<Rightarrow> lr_out \<Rightarrow> u64 list \<Rightarrow> LRReplica \<Rightarrow> ub + LRReplica" where
  "send_region env m [] s = Inr s"
| "send_region env m (p # ps) s =
     bindr (shard_transport s p) (\<lambda>i.
       send_region env m ps (snd (lr_send env s (DShard i (int32 (lr_replica_id s))) m)))"

text \<open>The log is indexed with the transaction identifier here, not with the sequence number.\<close>

definition notifyCommitToReplica ::
  "Env \<Rightarrow> LRReplica \<Rightarrow> PendingTransaction \<Rightarrow> CommitMsg \<Rightarrow> ub + PendingTransaction \<times> LRReplica" where
  "notifyCommitToReplica env s req msg =
     (let s = s\<lparr>lr_log := snd (SetStatus (lr_log s) (pt_tid req) (cm_state msg))\<rparr>;
          m = SReplicateCommit \<lparr>rcm_tid = cm_tid msg, rcm_lsn = pt_lsn req, rcm_state = cm_state msg,
                rcm_timestamp = cm_timestamp msg\<rparr>
      in if lr_tpcMode s = MODE_RC
         then bindr (send_region env m (pt_participants req) s) (\<lambda>s. Inr (req, s))
         else case lr_send env s DReplicas m of
                (ok, s) \<Rightarrow> Inr (if ok then req\<lparr>pt_send_confirms := True\<rparr> else req, s))"

definition applyToStore ::
  "LRReplica \<Rightarrow> PendingTransaction \<Rightarrow> CommitMsg \<Rightarrow> ub + PendingTransaction \<times> LRReplica" where
  "applyToStore s req msg =
     (let req = req\<lparr>pt_reach_commit_decision := True\<rparr>; tid = cm_tid msg;
          s = s\<lparr>lr_activeTxns := touch (lr_activeTxns s) tid\<rparr>
      in case cm_state msg of
           LOG_STATE_COMMIT \<Rightarrow>
             Inr (req, s\<lparr>lr_store := snd (CommitUpcall (lr_store s)
               ((Request_new COMMIT tid)\<lparr>rq_commit := Some (cm_timestamp msg)\<rparr>))\<rparr>)
         | LOG_STATE_ABORT \<Rightarrow>
             bindr (active s tid) (\<lambda>txn.
               Inr (req, abort_upcall s ((Request_new ABORT tid)\<lparr>rq_abort := Some (Transaction_serialize txn)\<rparr>)))
         | _ \<Rightarrow> Inr (req, s))"

definition HandleCommit :: "Env \<Rightarrow> LRReplica \<Rightarrow> CommitMsg \<Rightarrow> ub + LRReplica" where
  "HandleCommit env s msg =
     (let tid = cm_tid msg in
      case lr_pendingTxns s tid of
        None \<Rightarrow> Inr s
      | Some req \<Rightarrow>
          let s = raise_ts s (cm_timestamp msg) in
          bindr
            (if \<not> pt_is_participant req then Inr (erase_pending s tid)
             else
               case log_Find (lr_log s) (pt_lsn req) of
                 None \<Rightarrow> Inl NullDeref
               | Some e \<Rightarrow>
                   let s = s\<lparr>lr_log := set_entry (lr_log s) (pt_lsn req) (e\<lparr>le_ts := Some (cm_timestamp msg)\<rparr>)\<rparr> in
                   bindr (if pt_send_confirms req then Inr (req, s) else notifyCommitToReplica env s req msg)
                     (\<lambda>(req, s).
                   bindr (if pt_reach_commit_decision req then Inr (req, s) else applyToStore s req msg)
                     (\<lambda>(req, s).
                   let s = put_pending (s\<lparr>lr_activeTxns := touch (lr_activeTxns s) tid\<rparr>) tid req in
                   bindr (if cm_state msg = LOG_STATE_COMMIT then notifyForFollowingDependenies env s tid
                          else CascadeAbort env s tid)
                     (\<lambda>s.
                   let s' = s; s = erase_pending s tid in
                   bindr (if lr_tpcMode s \<noteq> MODE_PARALLEL then active s' tid else Inr Transaction_default)
                     (\<lambda>txn.
                       Inr ((erase_active s tid)\<lparr>lr_committedTxns := (lr_committedTxns s)
                              (tid \<mapsto> (cm_state msg, cm_timestamp msg))\<rparr>)))))) 
            (\<lambda>s. Inr (erase_client s tid)))"

definition HandleReplicateCommit :: "LRReplica \<Rightarrow> ReplicateCommit \<Rightarrow> ub + LRReplica" where
  "HandleReplicateCommit s msg =
     (if lr_isLeader s \<and> lr_tpcMode s \<noteq> MODE_RC then Inr s
      else
        let tid = rcm_tid msg;
            s = (if lr_tpcMode s = MODE_RC
                 then s\<lparr>lr_log := snd (SetStatus (lr_log s) (rcm_lsn msg) (rcm_state msg))\<rparr> else s);
            s = s\<lparr>lr_activeTxns := touch (lr_activeTxns s) tid\<rparr>
        in case active s tid of
             Inl e \<Rightarrow> Inr s
           | Inr txn \<Rightarrow>
               let s = (case rcm_state msg of
                     LOG_STATE_COMMIT \<Rightarrow>
                       s\<lparr>lr_store := snd (CommitUpcall (lr_store s)
                         ((Request_new COMMIT tid)\<lparr>rq_commit := Some (rcm_timestamp msg)\<rparr>))\<rparr>
                   | LOG_STATE_ABORT \<Rightarrow>
                       abort_upcall s ((Request_new ABORT tid)\<lparr>rq_abort := Some (Transaction_serialize txn)\<rparr>)
                   | _ \<Rightarrow> s)
               in Inr (erase_active s tid))"

text \<open>
  Never called: votes for the transactions blocked on a committed one. The loop ends at the first
  one that is not pending.
\<close>

primrec VoteForNext :: "Env \<Rightarrow> u64 list \<Rightarrow> LRReplica \<Rightarrow> ub + LRReplica" where
  "VoteForNext env [] s = Inr s"
| "VoteForNext env (tid # nexts) s =
     (case lr_pendingTxns s tid of
        None \<Rightarrow> Inr s
      | Some req \<Rightarrow>
          bindr (rd (pt_primary_shard req)) (\<lambda>ps.
            let s = snd (lr_send env s DCoordinators (SCoordinator (MVote
                  \<lparr>vo_tid = tid, vo_vote = CR_PREPARED, vo_shard = lr_shard_id s,
                   vo_participants = pt_participants req, vo_primaryShard = ps,
                   vo_primaryCoordinator = 0, vo_replica = lr_replica_id s, vo_timestamp = 0\<rparr>)))
            in if pt_reach_consensus req then
                 bindr (active s tid) (\<lambda>txn.
                   let reply = (prepare_reply s tid LOG_STATE_PREPAREOK (getTimestamp (txn_commitTs txn)))
                                 \<lparr>pr_replica := lr_replica_id s\<rparr>
                   in if lr_clientList s tid = None then VoteForNext env nexts s
                      else bindr (deref (lr_clientList s) tid) (\<lambda>a.
                        case lr_send env s (DAddr a) (SPrepareTransactionReply reply) of
                          (True, s) \<Rightarrow> VoteForNext env nexts
                             (put_pending s tid (req\<lparr>pt_timer := Some (CB_ResendPrepareOK, True)\<rparr>))
                        | (False, s) \<Rightarrow> VoteForNext env nexts
                             (erase_client (erase_active (erase_pending s tid) tid) tid)))
               else VoteForNext env nexts s))"

section \<open>Reads\<close>

text \<open>The loop over the requested keys; the flag is \<^verbatim>\<open>success\<close>.\<close>

primrec read_keys :: "u64 \<Rightarrow> string list \<Rightarrow> ReadKeyVersion list \<Rightarrow> LRReplica \<Rightarrow>
    bool \<times> ReadKeyVersion list \<times> LRReplica" where
  "read_keys tid [] acc s = (True, acc, s)"
| "read_keys tid (key # keys) acc s =
     (let rep = GetUpcall (lr_store s)
            ((Request_new GET tid)\<lparr>rq_get := Some \<lparr>gm_key = key, gm_timestamp = None\<rparr>\<rparr>);
          kv = \<lparr>rk_key = key, rk_value = '''',
                rk_timestamp = (case rp_timestamp rep of None \<Rightarrow> 0 | Some t \<Rightarrow> t)\<rparr>;
          val = (case rp_value rep of None \<Rightarrow> '''' | Some v \<Rightarrow> v);
          dep = (case rp_dependency rep of None \<Rightarrow> 0 | Some d \<Rightarrow> d)
      in if rp_status rep = 0 then
           if lr_tpcMode s = MODE_PARALLEL then
             if dep > 0 then
               let s = s\<lparr>lr_activeTxns := touch (lr_activeTxns s) dep\<rparr> in
               case active s dep of
                 Inl e \<Rightarrow> read_keys tid keys (acc @ [kv]) s
               | Inr dtxn \<Rightarrow>
                   let kv = (case map_of (txn_writeSet dtxn) key of
                         None \<Rightarrow> kv | Some v \<Rightarrow> kv\<lparr>rk_value := v\<rparr>);
                       s = set_active s dep (addOut dtxn tid);
                       s = s\<lparr>lr_inDependency := (lr_inDependency s)
                             (tid \<mapsto> (case lr_inDependency s tid of None \<Rightarrow> 0 | Some n \<Rightarrow> n) + 1)\<rparr>
                   in read_keys tid keys (acc @ [kv]) s
             else read_keys tid keys (acc @ [kv\<lparr>rk_value := val\<rparr>]) s
           else read_keys tid keys (acc @ [kv\<lparr>rk_value := val\<rparr>]) s
         else (False, acc, s))"

definition HandleRead :: "Env \<Rightarrow> LRReplica \<Rightarrow> addr \<Rightarrow> u64 \<Rightarrow> string list \<Rightarrow> ub + LRReplica" where
  "HandleRead env s remote tid keys =
     (case read_keys tid keys [] s of
        (success, kvs, s) \<Rightarrow>
          Inr (snd (lr_send env s (DAddr remote) (SGetDataReply
            \<lparr>gd_tid = tid, gd_keys = kvs, gd_replicaid = lr_replica_id s,
             gd_state = (if success then REP_OK else REP_FAIL)\<rparr>))))"

section \<open>Decisions from the coordinator group\<close>

definition lr_PreCommit :: "LRReplica \<Rightarrow> u64 \<Rightarrow> LRReplica" where
  "lr_PreCommit s tid =
     s\<lparr>lr_store := snd (PreCommitUpcall (lr_store s) (Request_new PRECOMMIT tid))\<rparr>"

definition HandleDecisionFromCoordinatorReplica ::
  "Env \<Rightarrow> LRReplica \<Rightarrow> u64 \<Rightarrow> CommitResult \<Rightarrow> u64 \<Rightarrow> ub + LRReplica" where
  "HandleDecisionFromCoordinatorReplica env s tid state timestamp =
     (case lr_pendingTxns s tid of
        None \<Rightarrow> Inr s
      | Some req \<Rightarrow>
          bindr (if state = CR_PREPARED then Inr (lr_PreCommit s (pt_tid req))
                 else bindr (CascadeAbort env s tid) (\<lambda>s. Inr (erase_pending s tid)))
            (\<lambda>s.
               bindr (if lr_activeTxns s tid \<noteq> None then active s tid else Inr Transaction_default) (\<lambda>txn.
                 Inr (s\<lparr>lr_committedTxns := (lr_committedTxns s)(tid \<mapsto> (LOG_STATE_COMMIT, timestamp))\<rparr>))))"

definition HandleParallelCommitResult ::
  "Env \<Rightarrow> LRReplica \<Rightarrow> u64 \<Rightarrow> u64 \<Rightarrow> LogEntryState \<Rightarrow> ub + LRReplica" where
  "HandleParallelCommitResult env s tid timestamp res =
     (case lr_pendingTxns s tid of
        None \<Rightarrow> Inr s
      | Some req \<Rightarrow>
          bindr (deref (lr_clientList s) tid) (\<lambda>a.
            Inr (erase_client (snd (lr_send env s (DAddr a) (SParallelModeCommitReply tid res timestamp))) tid)))"

definition HandleReplicateResultFromCoordinatorReplica ::
  "Env \<Rightarrow> LRReplica \<Rightarrow> u64 \<Rightarrow> u64 \<Rightarrow> ub + LRReplica" where
  "HandleReplicateResultFromCoordinatorReplica env s tid timestamp =
     bindr (HandleParallelCommitResult env s tid timestamp LOG_STATE_COMMIT) (\<lambda>s.
       HandleCommit env s \<lparr>cm_tid = tid, cm_state = LOG_STATE_COMMIT, cm_timestamp = timestamp\<rparr>)"

definition HandleParallelModeCommit :: "Env \<Rightarrow> LRReplica \<Rightarrow> addr \<Rightarrow> u64 \<Rightarrow> u64 list \<Rightarrow> LRReplica" where
  "HandleParallelModeCommit env s remote tid participants =
     (case lr_pendingTxns s tid of
        None \<Rightarrow>
          let req = (PendingTransaction_parallel (QuorumSize (lr_f s)) (- 1) tid)\<lparr>pt_is_participant := False\<rparr>;
              s = put_pending s tid req;
              s = s\<lparr>lr_clientList := (lr_clientList s)(tid \<mapsto> Some remote)\<rparr>
          in snd (lr_send env s (DCoordinator (int32 (lr_replica_id s)))
               (SCoordinator (MRequestCommitResult \<lparr>rc_tid = tid, rc_participants = participants,
                  rc_primaryShard = 0, rc_shard = 0\<rparr>)))
      | Some req \<Rightarrow> put_pending s tid (req\<lparr>pt_parallel_mode := True\<rparr>))"

section \<open>The primary shard as two-phase-commit coordinator (slow and RC mode)\<close>

definition PrepareTransaction_default :: PrepareTransaction where
  "PrepareTransaction_default = \<lparr>pm_tid = 0, pm_wset = [], pm_rset = [], pm_participants = [],
     pm_primaryShard = 0, pm_mode = CM_SLOW\<rparr>"

text \<open>
  \<^verbatim>\<open>reqMsgs[shard]\<close> creates a default message for a shard that is not a participant. The value
  of a write is stored with \<^verbatim>\<open>set_key\<close>: it replaces the key, and the value field stays empty.
\<close>

definition add_piece :: "u64 \<Rightarrow> (PrepareTransaction \<Rightarrow> PrepareTransaction) \<Rightarrow>
    (u64 \<times> PrepareTransaction) list \<Rightarrow> (u64 \<times> PrepareTransaction) list" where
  "add_piece i f ms =
     AList.update i (f (case map_of ms i of None \<Rightarrow> PrepareTransaction_default | Some m \<Rightarrow> m)) ms"

primrec split_writes :: "LRReplica \<Rightarrow> (string \<times> string) list \<Rightarrow> (u64 \<times> PrepareTransaction) list \<Rightarrow>
    ub + (u64 \<times> PrepareTransaction) list" where
  "split_writes s [] ms = Inr ms"
| "split_writes s (w # ws) ms =
     bindr (key_to_shard s (fst w)) (\<lambda>h.
       split_writes s ws (add_piece (word_of_int (int32 h))
         (\<lambda>m. m\<lparr>pm_wset := pm_wset m @ [(snd w, '''')]\<rparr>) ms))"

primrec split_reads :: "LRReplica \<Rightarrow> (string \<times> Timestamp) list \<Rightarrow> (u64 \<times> PrepareTransaction) list \<Rightarrow>
    ub + (u64 \<times> PrepareTransaction) list" where
  "split_reads s [] ms = Inr ms"
| "split_reads s (r # rs) ms =
     bindr (key_to_shard s (fst r)) (\<lambda>h.
       split_reads s rs (add_piece (word_of_int (int32 h)) (\<lambda>m. m\<lparr>pm_rset := pm_rset m @ [r]\<rparr>) ms))"

text \<open>The send loop; \<open>gone\<close> records that a failed send has deleted the request.\<close>

primrec send_pieces :: "Env \<Rightarrow> u64 \<Rightarrow> (u64 \<times> PrepareTransaction) list \<Rightarrow> bool \<Rightarrow> LRReplica \<Rightarrow>
    ub + LRReplica" where
  "send_pieces env tid [] gone s = Inr s"
| "send_pieces env tid (p # ps) gone s =
     bindr (if lr_tpcMode s = MODE_SLOW then map_sum id int32 (umod (fst p) (lr_n s))
            else if lr_tpcMode s = MODE_RC then Inr (int32 (lr_replica_id s)) else Inr (- 1)) (\<lambda>sendto.
     bindr (shard_transport s (fst p)) (\<lambda>i.
       case lr_send env s (DShard i sendto) (SPrepareTransaction (snd p)) of
         (ok, s) \<Rightarrow>
           if gone then Inl UseAfterFree
           else case lr_pendingPrepares s tid of
                  None \<Rightarrow> Inl NullDeref
                | Some req \<Rightarrow>
                    if ok then
                      bindr (timer_Reset (pp_timer req)) (\<lambda>t.
                        send_pieces env tid ps gone (s\<lparr>lr_pendingPrepares :=
                          (lr_pendingPrepares s)(tid \<mapsto> req\<lparr>pp_timer := t\<rparr>)\<rparr>))
                    else send_pieces env tid ps True
                           (s\<lparr>lr_pendingPrepares := (lr_pendingPrepares s)(tid := None)\<rparr>)))"

definition SendPrepare :: "Env \<Rightarrow> LRReplica \<Rightarrow> u64 \<Rightarrow> ub + LRReplica" where
  "SendPrepare env s tid =
     (case lr_pendingPrepares s tid of
        None \<Rightarrow> Inl NullDeref
      | Some req \<Rightarrow>
          let ms = fold (\<lambda>p ms. AList.update p (PrepareTransaction_default
                     \<lparr>pm_tid := tid, pm_primaryShard := lr_shard_id s\<rparr>) ms) (pp_participants req) []
          in bindr (split_writes s (txn_writeSet (pp_txn req)) ms) (\<lambda>ms.
             bindr (split_reads s (txn_readSet (pp_txn req)) ms) (\<lambda>ms.
               send_pieces env tid ms False s)))"

definition ResendPrepare :: "Env \<Rightarrow> LRReplica \<Rightarrow> u64 \<Rightarrow> ub + LRReplica" where
  "ResendPrepare env s tid = SendPrepare env s tid"

definition txn_of_prepare :: "Transaction \<Rightarrow> PrepareTransaction \<Rightarrow> Transaction" where
  "txn_of_prepare t msg =
     fold (\<lambda>p t. addParticipant t p) (pm_participants msg)
       (fold (\<lambda>(k, ts) t. addReadSet t k ts) (pm_rset msg)
         (fold (\<lambda>(k, v) t. addWriteSet t k v) (pm_wset msg) t))"

definition lr_HandlePrepare :: "Env \<Rightarrow> LRReplica \<Rightarrow> addr \<Rightarrow> PrepareTransaction \<Rightarrow> ub + LRReplica" where
  "lr_HandlePrepare env s remote msg =
     (let tid = pm_tid msg;
          s = s\<lparr>lr_prepareClientList := (lr_prepareClientList s)(tid \<mapsto> Some remote)\<rparr>
      in case lr_pendingPrepares s tid of
           None \<Rightarrow>
             let txn = txn_of_prepare (Transaction_id tid) msg;
                 req = PendingPrepare_new (Some (CB_ResendPrepare, False)) (txn_participants txn) tid txn
             in SendPrepare env (s\<lparr>lr_pendingPrepares := (lr_pendingPrepares s)(tid \<mapsto> req)\<rparr>) tid
         | Some req \<Rightarrow> SendPrepare env s tid)"

text \<open>\<^verbatim>\<open>participant_replies[p]\<close> inserts the zero value, \<^verbatim>\<open>LOG_STATE_COMMIT\<close>.\<close>

primrec check_replies :: "u64 list \<Rightarrow> (u64 \<times> LogEntryState) list \<Rightarrow> bool \<times> (u64 \<times> LogEntryState) list" where
  "check_replies [] rs = (True, rs)"
| "check_replies (p # ps) rs =
     (case map_of rs p of
        None \<Rightarrow> (False, AList.update p LOG_STATE_COMMIT rs)
      | Some v \<Rightarrow> if v \<noteq> LOG_STATE_PREPAREOK then (False, rs) else check_replies ps rs)"

definition ReachFinalDecision :: "PendingPrepare \<Rightarrow> bool \<times> PendingPrepare" where
  "ReachFinalDecision req =
     (if length (pp_participant_replies req) < length (pp_participants req) then (False, req)
      else case check_replies (pp_participants req) (pp_participant_replies req) of
             (ok, rs) \<Rightarrow> (ok, req\<lparr>pp_participant_replies := rs\<rparr>))"

definition ReachConsensusOnFinalDecision :: "LRReplica \<Rightarrow> PendingPrepare \<Rightarrow> bool \<times> PendingPrepare" where
  "ReachConsensusOnFinalDecision s req =
     (let majority = QuorumSize (lr_f s);
          okCount = length (filter (\<lambda>p. snd p = LOG_STATE_PREPAREOK) (pp_region_replicies req));
          failCount = length (filter (\<lambda>p. snd p \<noteq> LOG_STATE_PREPAREOK) (pp_region_replicies req))
      in if length (pp_region_replicies req) \<ge> unat (word_of_int majority :: u64) then
           if int okCount \<ge> majority then (True, req\<lparr>pp_finalDecision := Some LOG_STATE_PREPAREOK\<rparr>)
           else if int failCount \<ge> majority then (True, req\<lparr>pp_finalDecision := Some LOG_STATE_ABORT\<rparr>)
           else (False, req)
         else (False, req))"

definition put_prepare :: "LRReplica \<Rightarrow> u64 \<Rightarrow> PendingPrepare \<Rightarrow> LRReplica" where
  "put_prepare s tid req = s\<lparr>lr_pendingPrepares := (lr_pendingPrepares s)(tid \<mapsto> req)\<rparr>"

text \<open>
  In slow mode the request is deleted and its member \<^verbatim>\<open>tid\<close> read right after: the state reached
  by then is \<open>final_decision\<close>.
\<close>

definition final_decision :: "Env \<Rightarrow> LRReplica \<Rightarrow> PendingPrepare \<Rightarrow> ub + LRReplica" where
  "final_decision env s req =
     bindr (rd (pp_finalDecision req)) (\<lambda>dec.
     bindr (deref (lr_prepareClientList s) (pp_tid req)) (\<lambda>a.
       let tid = pp_tid req;
           reply = (prepare_reply s tid dec (pp_timestamp req))\<lparr>pr_replica := lr_replica_id s\<rparr>;
           s = put_prepare (snd (lr_send env s (DAddr a) (SPrepareTransactionReply reply))) tid req
       in if lr_tpcMode s = MODE_RC then
            let req = req\<lparr>pp_region_replicies := AList.update (lr_replica_id s) dec (pp_region_replicies req)\<rparr> in
            case lr_send env s DReplicas (SPrepareTransactionReply reply) of
              (True, s) \<Rightarrow> bindr (timer_Stop (pp_timer req)) (\<lambda>t. Inr (put_prepare s tid (req\<lparr>pp_timer := t\<rparr>)))
            | (False, s) \<Rightarrow> Inr (put_prepare s tid req)
          else if lr_tpcMode s = MODE_SLOW then
            bindr (HandleCommit env s \<lparr>cm_tid = tid, cm_state = dec, cm_timestamp = pp_timestamp req\<rparr>) (\<lambda>s.
              Inr (s\<lparr>lr_pendingPrepares := (lr_pendingPrepares s)(tid := None)\<rparr>))
          else Inr s))"

definition ReplyFinalDecision :: "Env \<Rightarrow> LRReplica \<Rightarrow> PendingPrepare \<Rightarrow> ub + LRReplica" where
  "ReplyFinalDecision env s req =
     bindr (final_decision env s req) (\<lambda>s'. if lr_tpcMode s = MODE_SLOW then Inl UseAfterFree else Inr s')"

definition HandlePrepareTransactionReply ::
  "Env \<Rightarrow> LRReplica \<Rightarrow> PrepareTransactionReply \<Rightarrow> ub + LRReplica" where
  "HandlePrepareTransactionReply env s msg =
     (let tid = pr_tid msg in
      case lr_pendingPrepares s tid of
        None \<Rightarrow> Inr s
      | Some req \<Rightarrow>
          if pr_shard msg = lr_shard_id s \<and> pr_replica msg \<noteq> lr_replica_id s then
            case ReachConsensusOnFinalDecision s
                   (req\<lparr>pp_region_replicies := AList.update (pr_replica msg) (pr_state msg) (pp_region_replicies req),
                        pp_timestamp := max (pp_timestamp req) (pr_timestamp msg)\<rparr>) of
              (False, req) \<Rightarrow> Inr (put_prepare s tid req)
            | (True, req) \<Rightarrow>
                bindr (timer_Stop (pp_timer req)) (\<lambda>t.
                bindr (rd (pp_finalDecision req)) (\<lambda>dec.
                bindr (HandleCommit env (put_prepare s tid (req\<lparr>pp_timer := t\<rparr>))
                         \<lparr>cm_tid = pp_tid req, cm_state = dec, cm_timestamp = pp_timestamp req\<rparr>) (\<lambda>s.
                  Inl UseAfterFree)))
          else if pr_state msg = LOG_STATE_PREPAREOK then
            if map_of (pp_participant_replies req) (pr_shard msg) \<noteq> None then Inr s
            else
              case ReachFinalDecision
                     (req\<lparr>pp_participant_replies :=
                            AList.update (pr_shard msg) (pr_state msg) (pp_participant_replies req),
                          pp_timestamp := max (pp_timestamp req) (pr_timestamp msg)\<rparr>) of
                (False, req) \<Rightarrow> Inr (put_prepare s tid req)
              | (True, req) \<Rightarrow>
                  bindr (timer_Stop (pp_timer req)) (\<lambda>t.
                    ReplyFinalDecision env s
                      (req\<lparr>pp_timer := t, pp_finalDecision := Some LOG_STATE_PREPAREOK\<rparr>))
          else ReplyFinalDecision env s (req\<lparr>pp_finalDecision := Some LOG_STATE_ABORT\<rparr>))"

section \<open>Preparing a transaction\<close>

text \<open>The answer to a repeated request of a decided or replicated transaction.\<close>

definition answer_again ::
  "Env \<Rightarrow> LRReplica \<Rightarrow> addr \<Rightarrow> PrepareTransaction \<Rightarrow> PrepareTransactionReply \<Rightarrow> ub + LRReplica" where
  "answer_again env s remote msg reply =
     (if lr_tpcMode s = MODE_SLOW
      then bindr (send_to_primary env s (pm_primaryShard msg) (SPrepareTransactionReply reply)) (\<lambda>(ok, s). Inr s)
      else Inr (snd (lr_send env s (DAddr remote) (SPrepareTransactionReply reply))))"

definition leader_replicate :: "Env \<Rightarrow> LRReplica \<Rightarrow> addr \<Rightarrow> u64 \<Rightarrow> Transaction \<Rightarrow> ub + LRReplica" where
  "leader_replicate env s remote tid txn =
     (let s = set_active (s\<lparr>lr_clientList := (lr_clientList s)(tid \<mapsto> Some remote)\<rparr>) tid txn in
      bindr (Log_Add (lr_log s) (lr_term s) tid (txn_writeSet txn) LOG_STATE_PREPAREOK
               (getTimestamp (txn_commitTs txn))) (\<lambda>(lsn, l).
      bindr (rd (txn_in txn)) (\<lambda>n.
        InvokeReplicateTxn env (s\<lparr>lr_log := l\<rparr>) tid lsn (n > 0))))"

definition prepare_new :: "Env \<Rightarrow> LRReplica \<Rightarrow> addr \<Rightarrow> PrepareTransaction \<Rightarrow> ub + LRReplica" where
  "prepare_new env s remote msg =
     (let tid = pm_tid msg;
          (ts, s) = increaseTs s;
          txn = txn_of_prepare (Transaction_primary tid ts (lr_replica_id s) (pm_primaryShard msg)) msg;
          txn = setIn txn (word_of_int (case lr_inDependency s tid of None \<Rightarrow> 0 | Some n \<Rightarrow> n));
          s = s\<lparr>lr_inDependency := (lr_inDependency s)(tid := None)\<rparr>;
          do_check = (lr_isLeader s \<or> lr_tpcMode s = MODE_CAROUSEL \<or> lr_tpcMode s = MODE_RC)
      in bindr (PrepareUpcall (env_clk env) (lr_store s)
                  ((Request_new PREPARE tid)\<lparr>rq_prepare := Some (Transaction_serialize txn)\<rparr>) do_check)
           (\<lambda>(rep, replicate, sv).
              let s = s\<lparr>lr_store := sv\<rparr>;
                  ok_reply = (prepare_reply s tid LOG_STATE_PREPAREOK ts)\<lparr>pr_replica := lr_replica_id s\<rparr>
              in if \<not> replicate then
                   Inr (snd (lr_send env s (DAddr remote) (SPrepareTransactionReply
                     ((prepare_reply s tid LOG_STATE_ABORT 0)\<lparr>pr_replica := lr_replica_id s,
                        pr_reachFaultTolerance := (if lr_tpcMode s = MODE_CAROUSEL \<and> lr_isLeader s then 1 else 0)\<rparr>))))
                 else
                   bindr (if lr_tpcMode s = MODE_RC
                          then bindr (shard_transport s (pm_primaryShard msg)) (\<lambda>i.
                                 Inr (lr_send env s (DShard i (int32 (lr_replica_id s)))
                                        (SPrepareTransactionReply ok_reply)))
                          else Inr (True, s))
                     (\<lambda>(ok, s).
                        if \<not> ok then Inr s
                        else
                          let s = (if lr_tpcMode s = MODE_CAROUSEL
                                   then snd (lr_send env s (DAddr remote) (SPrepareTransactionReply ok_reply))
                                   else s)
                          in if lr_isLeader s then leader_replicate env s remote tid txn else Inr s)))"

definition HandlePrepareTxn :: "Env \<Rightarrow> LRReplica \<Rightarrow> addr \<Rightarrow> PrepareTransaction \<Rightarrow> ub + LRReplica" where
  "HandlePrepareTxn env s remote msg =
     (let tid = pm_tid msg in
      if (pm_mode msg = CM_SLOW \<or> pm_mode msg = CM_RC) \<and> pm_primaryShard msg = lr_shard_id s \<and>
         lr_pendingPrepares s tid = None
      then lr_HandlePrepare env s remote msg
      else if lr_inDependency s tid = Some (- 1)
      then Inr (s\<lparr>lr_inDependency := (lr_inDependency s)(tid := None)\<rparr>)
      else
        case lr_committedTxns s tid of
          Some (st, ts) \<Rightarrow> answer_again env s remote msg (prepare_reply s tid st ts)
        | None \<Rightarrow>
            (case lr_pendingTxns s tid of
               Some req \<Rightarrow>
                 if pt_reach_consensus req then
                   bindr (rd (pt_finalResult req)) (\<lambda>st.
                   bindr (active s tid) (\<lambda>txn.
                     let reply = prepare_reply s tid st (getTimestamp (txn_commitTs txn)) in
                     answer_again env s remote msg
                       (if lr_tpcMode s = MODE_CAROUSEL
                        then reply\<lparr>pr_replica := lr_replica_id s, pr_reachFaultTolerance := 1\<rparr> else reply)))
                 else prepare_new env s remote msg
             | None \<Rightarrow> prepare_new env s remote msg))"

section \<open>Dispatch and timers\<close>

fun lr_HandleMessage :: "Env \<Rightarrow> LRReplica \<Rightarrow> addr \<Rightarrow> lr_msg \<Rightarrow> ub + LRReplica" where
  "lr_HandleMessage env s remote (LReplicateTransaction m) = HandleReplicateTransaction env s remote m"
| "lr_HandleMessage env s remote (LReplicateTransactionReply m) = HandleReplicateTransactionReply env s m"
| "lr_HandleMessage env s remote (LPrepareTransaction m) = HandlePrepareTxn env s remote m"
| "lr_HandleMessage env s remote (LPrepareTransactionReply m) = HandlePrepareTransactionReply env s m"
| "lr_HandleMessage env s remote (LCommit m) = HandleCommit env s m"
| "lr_HandleMessage env s remote (LReplicateCommit m) = HandleReplicateCommit s m"
| "lr_HandleMessage env s remote (LGetData tid keys) = HandleRead env s remote tid keys"
| "lr_HandleMessage env s remote (LNotifyDecision tid st ts) =
     HandleDecisionFromCoordinatorReplica env s tid st ts"
| "lr_HandleMessage env s remote (LNotifyReplicateResult tid ok ts) =
     HandleReplicateResultFromCoordinatorReplica env s tid ts"
| "lr_HandleMessage env s remote (LParallelModeCommit tid ps) =
     Inr (HandleParallelModeCommit env s remote tid ps)"

text \<open>A timer that is armed runs its callback.\<close>

definition lr_timeout_txn :: "Env \<Rightarrow> LRReplica \<Rightarrow> u64 \<Rightarrow> ub + LRReplica" where
  "lr_timeout_txn env s tid =
     (case lr_pendingTxns s tid of
        None \<Rightarrow> Inr s
      | Some req \<Rightarrow>
          (case pt_timer req of
             Some (CB_ResendReplicateTxn, True) \<Rightarrow> ResendReplicateTxn env s tid
           | Some (CB_ResendPrepareOK, True) \<Rightarrow> ResendPrepareOK env s tid
           | _ \<Rightarrow> Inr s))"

definition lr_timeout_prepare :: "Env \<Rightarrow> LRReplica \<Rightarrow> u64 \<Rightarrow> ub + LRReplica" where
  "lr_timeout_prepare env s tid =
     (case lr_pendingPrepares s tid of
        None \<Rightarrow> Inr s
      | Some req \<Rightarrow>
          (case pp_timer req of
             Some (CB_ResendPrepare, True) \<Rightarrow> ResendPrepare env s tid
           | _ \<Rightarrow> Inr s))"

section \<open>Frames\<close>

lemmas lr_map_defs = put_pending_def erase_pending_def erase_active_def erase_client_def
  set_active_def put_prepare_def raise_ts_def lr_send_def abort_upcall_def

lemma lr_send_snd [simp]: "snd (lr_send env s d m) = s\<lparr>lr_sent := lr_sent s @ [(d, m)]\<rparr>"
  by (simp add: lr_send_def)

lemma raise_ts_frame [simp]:
  "lr_pendingTxns (raise_ts s t) = lr_pendingTxns s" "lr_log (raise_ts s t) = lr_log s"
  "lr_store (raise_ts s t) = lr_store s" "lr_activeTxns (raise_ts s t) = lr_activeTxns s"
  "lr_tpcMode (raise_ts s t) = lr_tpcMode s" "lr_sent (raise_ts s t) = lr_sent s"
  "lr_isLeader (raise_ts s t) = lr_isLeader s" "lr_shard_id (raise_ts s t) = lr_shard_id s"
  "lr_replica_id (raise_ts s t) = lr_replica_id s" "lr_term (raise_ts s t) = lr_term s"
  "lr_committedTxns (raise_ts s t) = lr_committedTxns s" "lr_n (raise_ts s t) = lr_n s"
  "lr_f (raise_ts s t) = lr_f s" "lr_pendingPrepares (raise_ts s t) = lr_pendingPrepares s"
  "lr_clientList (raise_ts s t) = lr_clientList s" "lr_ntransports (raise_ts s t) = lr_ntransports s"
  by (simp_all add: raise_ts_def)

text \<open>Two replica states that differ only in bookkeeping of dependencies, sends and active
  transactions.\<close>

definition same_core :: "LRReplica \<Rightarrow> LRReplica \<Rightarrow> bool" where
  "same_core s s' \<longleftrightarrow> lr_pendingTxns s' = lr_pendingTxns s \<and> lr_pendingPrepares s' = lr_pendingPrepares s \<and>
     lr_log s' = lr_log s \<and> lr_committedTxns s' = lr_committedTxns s \<and> lr_tpcMode s' = lr_tpcMode s \<and>
     lr_shard_id s' = lr_shard_id s \<and> lr_f s' = lr_f s \<and> lr_clientList s' = lr_clientList s \<and>
     lr_isLeader s' = lr_isLeader s"

definition only_coordinator_sends :: "LRReplica \<Rightarrow> LRReplica \<Rightarrow> bool" where
  "only_coordinator_sends s s' \<longleftrightarrow>
     (\<exists>ms. lr_sent s' = lr_sent s @ map (\<lambda>(d, m). (d, SCoordinator m)) ms)"

lemma same_core_refl [simp]: "same_core s s"
  by (simp add: same_core_def)

lemma same_core_trans: "same_core a b \<Longrightarrow> same_core b c \<Longrightarrow> same_core a c"
  by (simp add: same_core_def)

lemma only_coordinator_sends_refl [simp]: "only_coordinator_sends s s"
  by (auto simp: only_coordinator_sends_def intro: exI [of _ "[]"])

lemma only_coordinator_sends_trans:
  "only_coordinator_sends a b \<Longrightarrow> only_coordinator_sends b c \<Longrightarrow> only_coordinator_sends a c"
  unfolding only_coordinator_sends_def by (metis append_assoc map_append)

lemma only_coordinator_sends_same: "lr_sent s' = lr_sent s \<Longrightarrow> only_coordinator_sends s s'"
  by (auto simp: only_coordinator_sends_def intro: exI [of _ "[]"])

lemma only_coordinator_sends_snoc:
  "lr_sent s' = lr_sent s @ [(d, SCoordinator m)] \<Longrightarrow> only_coordinator_sends s s'"
  by (auto simp: only_coordinator_sends_def intro: exI [of _ "[(d, m)]"])

lemma notify_outs_frame:
  "notify_outs env req xs s = Inr s' \<Longrightarrow>
   same_core s s' \<and> lr_store s' = lr_store s \<and> only_coordinator_sends s s'"
proof (induction xs arbitrary: s)
  case (Cons x xs)
  show ?case
  proof (cases "lr_activeTxns s x = None")
    case True
    with Cons.prems Cons.IH show ?thesis
      by (fastforce simp: same_core_def only_coordinator_sends_def)
  next
    case False
    then obtain t :: Transaction and n where t: "active s x = Inr t" "txn_in (decreaseIn t) = Some n"
      using Cons.prems by (auto simp: bindr_eq_Inr)
    let ?s = "set_active s x (decreaseIn t)"
    show ?thesis
    proof (cases "n = 0")
      case True
      then obtain c where r: "notify_outs env req xs (?s\<lparr>lr_sent := lr_sent ?s @
          [(DCoordinator (int32 c), SCoordinator (MNotifyDependenciesAreCleared x (lr_shard_id ?s)))]\<rparr>) = Inr s'"
        using Cons.prems False t by (auto simp: bindr_eq_Inr Let_def)
      have "only_coordinator_sends s (?s\<lparr>lr_sent := lr_sent ?s @
          [(DCoordinator (int32 c), SCoordinator (MNotifyDependenciesAreCleared x (lr_shard_id ?s)))]\<rparr>)"
        by (rule only_coordinator_sends_snoc) (simp add: set_active_def)
      with Cons.IH [OF r] show ?thesis
        by (auto simp: same_core_def set_active_def intro: only_coordinator_sends_trans)
    next
      case pos: False
      then have "notify_outs env req xs ?s = Inr s'" using Cons.prems False t by (simp add: Let_def)
      from Cons.IH [OF this] show ?thesis
        by (simp add: same_core_def set_active_def only_coordinator_sends_def)
    qed
  qed
qed simp

lemma cascade_outs_frame:
  assumes rec: "\<And>x s s'. rec x s = Inr s' \<Longrightarrow> same_core s s' \<and> only_coordinator_sends s s'"
  shows "cascade_outs rec env tid xs s = Inr s' \<Longrightarrow> same_core s s' \<and> only_coordinator_sends s s'"
proof (induction xs arbitrary: s)
  case (Cons x xs)
  show ?case
  proof (cases "lr_activeTxns s x = None")
    case True
    with Cons.prems Cons.IH show ?thesis
      by (fastforce simp: same_core_def only_coordinator_sends_def)
  next
    case False
    then obtain s1 where s1: "rec x s = Inr s1" using Cons.prems by (auto simp: bindr_eq_Inr)
    let ?m = "MVote \<lparr>vo_tid = tid, vo_vote = CR_PREPARED, vo_shard = lr_shard_id s1, vo_participants = [],
      vo_primaryShard = 0, vo_primaryCoordinator = 0, vo_replica = 0, vo_timestamp = 0\<rparr>"
    let ?s2 = "s1\<lparr>lr_sent := lr_sent s1 @ [(DCoordinators, SCoordinator ?m)]\<rparr>"
    have "cascade_outs rec env tid xs ?s2 = Inr s'" using Cons.prems False s1 by simp
    from Cons.IH [OF this] have "same_core ?s2 s'" "only_coordinator_sends ?s2 s'" by auto
    moreover have "only_coordinator_sends s1 ?s2"
      by (rule only_coordinator_sends_snoc) simp
    ultimately show ?thesis
      using rec [OF s1] by (auto simp: same_core_def intro: only_coordinator_sends_trans)
  qed
qed simp

lemma cascade_frame: "cascade d env tid s = Inr s' \<Longrightarrow> same_core s s' \<and> only_coordinator_sends s s'"
proof (induction d arbitrary: tid s s')
  case (Suc d)
  let ?s = "abort_upcall s (Request_new ABORT tid)"
  have s: "same_core s ?s" "only_coordinator_sends s ?s"
    by (simp_all add: same_core_def abort_upcall_def only_coordinator_sends_same)
  show ?case
  proof (cases "lr_pendingTxns ?s tid")
    case None
    with Suc.prems s show ?thesis by (simp add: Let_def)
  next
    case (Some req)
    with Suc.prems obtain txn :: Transaction where outs: "cascade_outs (cascade d env) env tid (txn_out txn) ?s = Inr s'"
      by (auto simp: Let_def bindr_eq_Inr)
    have "same_core ?s s' \<and> only_coordinator_sends ?s s'"
      by (rule cascade_outs_frame [OF _ outs]) (rule Suc.IH)
    with s show ?thesis
      by (blast intro: same_core_trans only_coordinator_sends_trans)
  qed
qed simp

end
