(* ===== verification/Promises.thy ===== *)
theory Promises
  imports Transactions
begin

text \<open>
  src/store/common/promise.h and promise.cc: the object on which the application thread waits until
  the transport thread replies. A getter blocks until \<^verbatim>\<open>done\<close> is set; here it is a partial
  function, \<open>None\<close> meaning that the caller is still blocked. \<^verbatim>\<open>tid\<close> and
  \<^verbatim>\<open>participantNumber\<close> are set by the constructor for prepare requests only.
\<close>

record Promise =
  prm_done :: bool
  prm_timeout :: int
  prm_reply :: int
  prm_tid :: "u64 option"
  prm_preparereplies :: "(int \<times> int) list"
  prm_participantNumber :: "int option"
  prm_reachFinalDecision :: bool
  prm_fail :: bool
  prm_timestamp :: Timestamp
  prm_value :: string

definition Promise_timeout :: "int \<Rightarrow> Promise" where
  "Promise_timeout timeoutMS =
     \<lparr>prm_done = False, prm_timeout = timeoutMS, prm_reply = 0, prm_tid = None,
      prm_preparereplies = [], prm_participantNumber = None, prm_reachFinalDecision = False,
      prm_fail = False, prm_timestamp = Timestamp_default, prm_value = ''''\<rparr>"

definition Promise_default :: Promise where
  "Promise_default = Promise_timeout 1000"

definition Promise_prepare :: "u64 \<Rightarrow> int list \<Rightarrow> int \<Rightarrow> Promise" where
  "Promise_prepare i participants timeoutMS =
     (Promise_timeout timeoutMS)\<lparr>prm_tid := Some i,
        prm_participantNumber := Some (sint (of_nat (length participants) :: 32 word))\<rparr>"

definition GetTimeout :: "Promise \<Rightarrow> int" where
  "GetTimeout p = prm_timeout p"

definition GetTid :: "Promise \<Rightarrow> ub + u64" where
  "GetTid p = rd (prm_tid p)"

definition ReplyInternal :: "Promise \<Rightarrow> int \<Rightarrow> Promise" where
  "ReplyInternal p r = p\<lparr>prm_done := True, prm_reply := r\<rparr>"

definition Reply_status :: "Promise \<Rightarrow> int \<Rightarrow> Promise" where
  "Reply_status p r = ReplyInternal p r"

definition Reply_ts :: "Promise \<Rightarrow> int \<Rightarrow> Timestamp \<Rightarrow> Promise" where
  "Reply_ts p r t = ReplyInternal (p\<lparr>prm_reachFinalDecision := True, prm_timestamp := t\<rparr>) r"

definition Reply_value :: "Promise \<Rightarrow> int \<Rightarrow> string \<Rightarrow> Promise" where
  "Reply_value p r v = ReplyInternal (p\<lparr>prm_value := v\<rparr>) r"

definition Reply_ts_value :: "Promise \<Rightarrow> int \<Rightarrow> Timestamp \<Rightarrow> string \<Rightarrow> Promise" where
  "Reply_ts_value p r t v = ReplyInternal (p\<lparr>prm_value := v, prm_timestamp := t\<rparr>) r"

text \<open>
  The reply of one shard of several. The comparison of the \<^verbatim>\<open>size_t\<close> with the \<^verbatim>\<open>int\<close>
  converts the latter to an unsigned 64-bit number.
\<close>

definition Reply_shard :: "Promise \<Rightarrow> int \<Rightarrow> int \<Rightarrow> Timestamp \<Rightarrow> ub + Promise" where
  "Reply_shard p s r t =
     (if r \<noteq> REPLY_OK then Inr (Reply_status (p\<lparr>prm_fail := True\<rparr>) r)
      else
        let p = p\<lparr>prm_preparereplies := AList.update s r (prm_preparereplies p),
                  prm_timestamp := (if prm_timestamp p < t then t else prm_timestamp p)\<rparr>
        in bindr (rd (prm_participantNumber p)) (\<lambda>n.
             Inr (if (of_nat (length (prm_preparereplies p)) :: u64) = word_of_int n
                  then p\<lparr>prm_done := True\<rparr> else p)))"

definition Reply_decision :: "Promise \<Rightarrow> int \<Rightarrow> Timestamp \<Rightarrow> Promise" where
  "Reply_decision p r t = ReplyInternal (p\<lparr>prm_reachFinalDecision := True, prm_timestamp := t\<rparr>) r"

definition GetReply :: "Promise \<Rightarrow> int option" where
  "GetReply p = (if prm_done p then Some (prm_reply p) else None)"

definition GetTimestamp :: "Promise \<Rightarrow> Timestamp option" where
  "GetTimestamp p = (if prm_done p then Some (prm_timestamp p) else None)"

definition GetValue :: "Promise \<Rightarrow> string option" where
  "GetValue p = (if prm_done p then Some (prm_value p) else None)"

definition GetPrepareReply :: "Promise \<Rightarrow> int option" where
  "GetPrepareReply p =
     (if \<not> prm_done p then None
      else if prm_fail p then Some (prm_reply p)
      else if prm_reachFinalDecision p then Some (prm_reply p)
      else case find (\<lambda>q. snd q \<noteq> REPLY_OK) (prm_preparereplies p) of
             Some q \<Rightarrow> Some (snd q)
           | None \<Rightarrow> Some REPLY_OK)"

definition HasReachFinalDecision :: "Promise \<Rightarrow> bool" where
  "HasReachFinalDecision p = prm_reachFinalDecision p"

definition Promise_Reset :: "Promise \<Rightarrow> Promise" where
  "Promise_Reset p = p\<lparr>prm_done := False\<rparr>"

lemmas reply_defs = ReplyInternal_def Reply_status_def Reply_ts_def Reply_value_def
  Reply_ts_value_def Reply_decision_def

section \<open>Collecting the replies of the shards\<close>

text \<open>The replies of shards in the order in which they arrive.\<close>

primrec shard_replies :: "(int \<times> int \<times> Timestamp) list \<Rightarrow> Promise \<Rightarrow> ub + Promise" where
  "shard_replies [] p = Inr p"
| "shard_replies (x # xs) p = bindr (Reply_shard p (fst x) (fst (snd x)) (snd (snd x))) (shard_replies xs)"

definition ok_replies :: "(int \<times> int \<times> Timestamp) list \<Rightarrow> (int \<times> Timestamp) set" where
  "ok_replies xs = {(s, t). (s, REPLY_OK, t) \<in> set xs}"

definition refused :: "(int \<times> int \<times> Timestamp) list \<Rightarrow> int list" where
  "refused xs = filter (\<lambda>r. r \<noteq> REPLY_OK) (map (fst \<circ> snd) xs)"

lemma shard_replies_append:
  "shard_replies (xs @ ys) p = bindr (shard_replies xs p) (shard_replies ys)"
  by (induction xs arbitrary: p) (auto simp: bindr_def split: sum.split)

text \<open>What the object knows after the replies \<open>xs\<close>, all of them below \<open>2 ^ 64\<close> in number.\<close>

definition collected :: "nat \<Rightarrow> u64 \<Rightarrow> (int \<times> int \<times> Timestamp) list \<Rightarrow> Promise \<Rightarrow> bool" where
  "collected n i xs p \<longleftrightarrow>
     prm_tid p = Some i \<and> prm_participantNumber p = Some (int n) \<and> \<not> prm_reachFinalDecision p \<and>
     distinct (map fst (prm_preparereplies p)) \<and> fst ` set (prm_preparereplies p) = fst ` ok_replies xs \<and>
     (\<forall>q \<in> set (prm_preparereplies p). snd q = REPLY_OK) \<and>
     (prm_fail p \<longleftrightarrow> refused xs \<noteq> []) \<and> (refused xs \<noteq> [] \<longrightarrow> prm_reply p = last (refused xs)) \<and>
     (prm_done p \<longleftrightarrow> refused xs \<noteq> [] \<or> n \<le> card (fst ` ok_replies xs)) \<and>
     prm_timestamp p = Max (insert Timestamp_default (snd ` ok_replies xs))"

lemma ok_replies_snoc:
  "ok_replies (xs @ [(s, r, t)]) = (if r = REPLY_OK then insert (s, t) (ok_replies xs) else ok_replies xs)"
  by (auto simp: ok_replies_def)

lemma refused_snoc: "refused (xs @ [(s, r, t)]) = (if r = REPLY_OK then refused xs else refused xs @ [r])"
  by (simp add: refused_def)

lemma finite_ok_replies [simp]: "finite (ok_replies xs)"
proof -
  have "ok_replies xs \<subseteq> (\<lambda>(s, r, t). (s, t)) ` set xs" by (force simp: ok_replies_def)
  then show ?thesis by (rule finite_subset) simp
qed

lemma of_nat_eq_u64:
  "a < 2 ^ 64 \<Longrightarrow> b < 2 ^ 64 \<Longrightarrow> (of_nat a :: u64) = word_of_int (int b) \<longleftrightarrow> a = b"
  by (simp add: word_of_nat_eq_iff take_bit_nat_eq_self)

lemma card_ok_replies: "card (fst ` ok_replies xs) \<le> length xs"
proof -
  have "fst ` ok_replies xs \<subseteq> set (map fst xs)" by (force simp: ok_replies_def)
  then have "card (fst ` ok_replies xs) \<le> card (set (map fst xs))" by (rule card_mono [rotated]) simp
  also have "\<dots> \<le> length xs" by (metis card_length length_map)
  finally show ?thesis .
qed

lemma length_distinct_keys: "distinct (map fst m) \<Longrightarrow> length m = card (fst ` set m)"
  by (metis distinct_card length_map set_map)

lemma Max_insert_ts:
  fixes T :: "Timestamp set"
  assumes "finite T"
  shows "Max (insert Timestamp_default (insert t T)) =
    (let m = Max (insert Timestamp_default T) in if m < t then t else m)"
proof -
  have "Max (insert t (insert Timestamp_default T)) = max t (Max (insert Timestamp_default T))"
    using assms by (intro Max_insert) auto
  then show ?thesis by (auto simp: insert_commute [of _ t] Let_def max_def)
qed

lemma Reply_shard_collected:
  assumes c: "collected n i xs p" and n: "0 < n" "n < 2 ^ 31" and xs: "length xs < 2 ^ 63"
  shows "\<exists>p'. Reply_shard p s r t = Inr p' \<and> collected n i (xs @ [(s, r, t)]) p'"
proof (cases "r = REPLY_OK")
  case False
  with c show ?thesis
    by (auto simp: Reply_shard_def collected_def ok_replies_snoc refused_snoc reply_defs)
next
  case True
  let ?m = "AList.update s r (prm_preparereplies p)"
  let ?T = "if prm_timestamp p < t then t else prm_timestamp p"
  have m: "distinct (map fst ?m)" "fst ` set ?m = fst ` ok_replies (xs @ [(s, r, t)])"
    using c True by (auto simp: collected_def distinct_update keys_update ok_replies_snoc)
  have "length ?m \<le> length (xs @ [(s, r, t)])"
    using length_distinct_keys [OF m(1)] card_ok_replies [of "xs @ [(s, r, t)]"] m(2) by simp
  with xs have "length ?m < 2 ^ 64" by simp
  with n have eq: "(of_nat (length ?m) :: u64) = word_of_int (int n) \<longleftrightarrow> length ?m = n"
    by (intro of_nat_eq_u64) auto
  have ok: "\<forall>q \<in> set ?m. snd q = REPLY_OK"
    using c True by (auto simp: collected_def dest!: set_update_subset [THEN subsetD])
  have T: "?T = Max (insert Timestamp_default (snd ` ok_replies (xs @ [(s, r, t)])))"
    using c True Max_insert_ts [of "snd ` ok_replies xs" t] unfolding collected_def ok_replies_snoc by (simp only: if_True image_insert snd_conv Let_def finite_imageI finite_ok_replies) simp
  let ?p = "p\<lparr>prm_preparereplies := ?m, prm_timestamp := ?T\<rparr>"
  have dn: "length ?m = n \<or> prm_done p \<longleftrightarrow> refused xs \<noteq> [] \<or> n \<le> card (fst ` set ?m)"
    using c True length_update [of s r "prm_preparereplies p"] length_distinct_keys [OF m(1)]
      length_distinct_keys [of "prm_preparereplies p"]
    by (auto simp: collected_def split: if_splits)
  have "Reply_shard p s r t = Inr (if length ?m = n then ?p\<lparr>prm_done := True\<rparr> else ?p)"
    using c True eq by (simp add: Reply_shard_def collected_def Let_def)
  moreover have "collected n i (xs @ [(s, r, t)]) (if length ?m = n then ?p\<lparr>prm_done := True\<rparr> else ?p)"
    using c True m ok T dn by (auto simp: collected_def refused_snoc)
  ultimately show ?thesis by blast
qed

lemma shard_replies_collected:
  assumes "0 < length ps" "length ps < 2 ^ 31" and "length xs < 2 ^ 63"
  shows "\<exists>p. shard_replies xs (Promise_prepare i ps ms) = Inr p \<and> collected (length ps) i xs p"
  using assms(3)
proof (induction xs rule: rev_induct)
  case Nil
  have "sint (of_nat (length ps) :: 32 word) = int (length ps)"
    using assms(2) by (simp add: signed_of_nat signed_take_bit_int_eq_self)
  with assms(1) show ?case
    by (simp add: Promise_prepare_def Promise_timeout_def collected_def ok_replies_def refused_def)
next
  case (snoc x xs)
  then obtain p where "shard_replies xs (Promise_prepare i ps ms) = Inr p" "collected (length ps) i xs p"
    by auto
  moreover obtain s r t where "x = (s, r, t)" by (cases x)
  moreover have "length xs < 2 ^ 63" using snoc.prems by simp
  ultimately show ?case
    using Reply_shard_collected [OF _ assms(1,2), of i xs p s r t] by (auto simp: shard_replies_append)
qed

section \<open>Properties\<close>

text \<open>What waiting for a prepare returns: after any replies of shards, in any order and with
  repetitions, the application thread is still blocked as long as no shard has refused and fewer
  different shards than participants have accepted; then it gets the code of the last refusal, or
  \<^verbatim>\<open>REPLY_OK\<close> if there was none, and the highest timestamp of the acceptances.\<close>

lemma promise_collects_replies:
  assumes "0 < length ps" and "length ps < 2 ^ 31" and "length xs < 2 ^ 63"
  shows "\<exists>p. shard_replies xs (Promise_prepare i ps ms) = Inr p \<and>
    GetPrepareReply p =
      (if refused xs \<noteq> [] then Some (last (refused xs))
       else if length ps \<le> card (fst ` ok_replies xs) then Some REPLY_OK else None) \<and>
    (GetPrepareReply p \<noteq> None \<longrightarrow>
       GetTimestamp p = Some (Max (insert Timestamp_default (snd ` ok_replies xs))))"
proof -
  obtain p where p: "shard_replies xs (Promise_prepare i ps ms) = Inr p" "collected (length ps) i xs p"
    using shard_replies_collected [OF assms] by blast
  have "find (\<lambda>q. snd q \<noteq> REPLY_OK) (prm_preparereplies p) = None"
    using p(2) by (auto simp: collected_def find_None_iff)
  with p(2) have "GetPrepareReply p = (if refused xs \<noteq> [] then Some (last (refused xs))
       else if length ps \<le> card (fst ` ok_replies xs) then Some REPLY_OK else None)"
    by (auto simp: GetPrepareReply_def collected_def simp del: reply_codes)
  with p show ?thesis
    by (auto simp: collected_def GetTimestamp_def GetPrepareReply_def)
qed

end
