(* ===== verification/LRClients.thy ===== *)
theory LRClients
  imports LRReplica Promises
begin

text \<open>
  src/replication/lr/client.h and client.cc: the client end of the shard protocol, one object per
  shard. An operation returns the new object and what it did to the outside: messages handed to the
  transport (\<open>CSend\<close>) and continuations called. Whether the transport could send is an argument.

  \<^item> \<^verbatim>\<open>pendingReqs\<close> holds objects of two classes, told apart by the constructors of
    \<open>PendingRequest\<close>. A failed \<^verbatim>\<open>dynamic_cast\<close> gives a null pointer; a \<^verbatim>\<open>static_cast\<close>
    to the wrong class is undefined (\<open>BadCast\<close>).
  \<^item> The continuations are those of \<^verbatim>\<open>ShardClient\<close>, so a call of one is an output and only the
    presence of an error continuation is stored.
  \<^item> \<open>lc_timers\<close> lists the armed \<^verbatim>\<open>Timeout\<close> objects by the callback they run. A timer runs
    its callback again and again until it is stopped, also when its request has been overwritten in
    \<^verbatim>\<open>pendingReqs\<close> and leaked.
  \<^item> \<^verbatim>\<open>PendingPrepare::state\<close> has no initial value.
\<close>

datatype ErrorCode = TIMEOUT | MISMATCHED_CONSENSUS_VIEWS

record ClientPrepare =
  cp_tid :: u64
  cp_continuationInvoked :: bool
  cp_txn :: Transaction
  cp_leader :: int
  cp_has_error :: bool
  cp_state :: "LogEntryState option"
  cp_timestamp :: u64
  cp_replicaReplies :: "(u64 \<times> LogEntryState) list"
  cp_reachFaultTolerance :: bool

record ClientGetData =
  cg_tid :: u64
  cg_has_error :: bool

record ClientParallelCommit =
  cx_tid :: u64
  cx_participants :: "u64 list"
  cx_has_error :: bool

datatype PendingRequest = ReqPrepare ClientPrepare | ReqGetData ClientGetData

datatype lrc_timer = TPrepare u64 | TGetData u64 | TParallelCommit u64

record LRClient =
  lc_f :: int
  lc_tpcMode :: TpcMode
  lc_pendingReqs :: "u64 \<rightharpoonup> PendingRequest"
  lc_pendingParallelCommits :: "u64 \<rightharpoonup> ClientParallelCommit"
  lc_timers :: "lrc_timer list"

datatype lrc_dest = ToReplica int | ToAllReplicas

datatype lrc_out =
    CSend lrc_dest lr_msg
  | CPrepareCallback u64 u64 int u64
  | CGetCallback "(string \<times> u64) list" "string list" int
  | CParallelCommitCallback u64 int u64
  | CPrepareError u64 ErrorCode
  | CGetError u64 ErrorCode
  | CParallelCommitError u64 ErrorCode

type_synonym lrc_res = "ub + LRClient \<times> lrc_out list"

definition LRClient_new :: "int \<Rightarrow> TpcMode \<Rightarrow> LRClient" where
  "LRClient_new f tpc = \<lparr>lc_f = f, lc_tpcMode = tpc, lc_pendingReqs = Map.empty,
     lc_pendingParallelCommits = Map.empty, lc_timers = []\<rparr>"

definition ClientPrepare_new :: "u64 \<Rightarrow> u64 \<Rightarrow> Transaction \<Rightarrow> bool \<Rightarrow> ClientPrepare" where
  "ClientPrepare_new tid leader txn has_error =
     \<lparr>cp_tid = tid, cp_continuationInvoked = False, cp_txn = txn, cp_leader = int32 leader,
      cp_has_error = has_error, cp_state = None, cp_timestamp = 0, cp_replicaReplies = [],
      cp_reachFaultTolerance = False\<rparr>"

definition lc_put :: "LRClient \<Rightarrow> u64 \<Rightarrow> PendingRequest \<Rightarrow> LRClient" where
  "lc_put s tid r = s\<lparr>lc_pendingReqs := (lc_pendingReqs s)(tid \<mapsto> r)\<rparr>"

definition lc_erase :: "LRClient \<Rightarrow> u64 \<Rightarrow> LRClient" where
  "lc_erase s tid = s\<lparr>lc_pendingReqs := (lc_pendingReqs s)(tid := None)\<rparr>"

definition start_timer :: "LRClient \<Rightarrow> lrc_timer \<Rightarrow> LRClient" where
  "start_timer s t = s\<lparr>lc_timers := t # lc_timers s\<rparr>"

definition stop_timer :: "LRClient \<Rightarrow> lrc_timer \<Rightarrow> LRClient" where
  "stop_timer s t = s\<lparr>lc_timers := remove1 t (lc_timers s)\<rparr>"

fun LogEntryState_int :: "LogEntryState \<Rightarrow> int" where
  "LogEntryState_int LOG_STATE_COMMIT = 0"
| "LogEntryState_int LOG_STATE_ABORT = 1"
| "LogEntryState_int LOG_STATE_APPLY = 2"
| "LogEntryState_int LOG_STATE_PREPAREOK = 3"
| "LogEntryState_int LOG_STATE_UNDECIDE = 4"

fun ReplyState_int :: "ReplyState \<Rightarrow> int" where
  "ReplyState_int REP_OK = 0"
| "ReplyState_int REP_FAIL = 1"
| "ReplyState_int REP_TIMEOUT = 2"
| "ReplyState_int REP_NETWORK_FAILURE = 3"

section \<open>Prepare\<close>

text \<open>The switch that sets the mode has no case for RC, which leaves the field at zero: slow.\<close>

fun commit_mode :: "TpcMode \<Rightarrow> CommitMode" where
  "commit_mode MODE_SLOW = CM_SLOW"
| "commit_mode MODE_FAST = CM_FAST"
| "commit_mode MODE_PARALLEL = CM_PARALLEL"
| "commit_mode MODE_CAROUSEL = CM_CAROUSEL"
| "commit_mode MODE_RC = CM_SLOW"

definition prepare_msg :: "TpcMode \<Rightarrow> Transaction \<Rightarrow> ub + PrepareTransaction" where
  "prepare_msg tpc txn =
     bindr (rd (txn_id txn)) (\<lambda>tid.
     bindr (rd (txn_primary_shard txn)) (\<lambda>ps.
       Inr \<lparr>pm_tid = tid, pm_wset = txn_writeSet txn, pm_rset = txn_readSet txn,
            pm_participants = txn_participants txn, pm_primaryShard = ps, pm_mode = commit_mode tpc\<rparr>))"

definition cl_SendPrepare :: "bool \<Rightarrow> LRClient \<Rightarrow> u64 \<Rightarrow> ClientPrepare \<Rightarrow> lrc_res" where
  "cl_SendPrepare ok s leader req =
     bindr (prepare_msg (lc_tpcMode s) (cp_txn req)) (\<lambda>msg.
       let d = (if lc_tpcMode s = MODE_CAROUSEL \<or> lc_tpcMode s = MODE_RC then ToAllReplicas
                else ToReplica (int32 leader));
           tid = pm_tid msg
       in Inr (if ok then start_timer s (TPrepare tid) else lc_erase s tid,
               [CSend d (LPrepareTransaction msg)]))"

definition InvokePrepare :: "bool \<Rightarrow> LRClient \<Rightarrow> Transaction \<Rightarrow> u64 \<Rightarrow> bool \<Rightarrow> lrc_res" where
  "InvokePrepare ok s sub_txn leader has_error =
     bindr (rd (txn_id sub_txn)) (\<lambda>tid.
       let req = ClientPrepare_new tid leader sub_txn has_error
       in cl_SendPrepare ok (lc_put s tid (ReqPrepare req)) leader req)"

definition PrepareTimeoutCallback :: "LRClient \<Rightarrow> u64 \<Rightarrow> lrc_res" where
  "PrepareTimeoutCallback s tid =
     (case lc_pendingReqs s tid of
        None \<Rightarrow> Inr (s, [])
      | Some (ReqGetData g) \<Rightarrow> Inl BadCast
      | Some (ReqPrepare req) \<Rightarrow>
          Inr (lc_erase (stop_timer s (TPrepare tid)) tid,
               if cp_has_error req then [CPrepareError tid TIMEOUT] else []))"

definition count_state :: "(LogEntryState \<Rightarrow> bool) \<Rightarrow> (u64 \<times> LogEntryState) list \<Rightarrow> int" where
  "count_state P m = int (length (filter (\<lambda>p. P (snd p)) m))"

definition CarouselCheck :: "int \<Rightarrow> ClientPrepare \<Rightarrow> bool \<times> ClientPrepare" where
  "CarouselCheck f req =
     (if cp_reachFaultTolerance req then (True, req)
      else
        let superMajority = FastQuorumSize f; m = cp_replicaReplies req in
        if length m \<ge> unat (word_of_int superMajority :: u64) then
          let okCount = count_state (\<lambda>x. x = LOG_STATE_PREPAREOK) m;
              failCount = count_state (\<lambda>x. x \<noteq> LOG_STATE_PREPAREOK) m;
              leaderReply = map_of m (word_of_int (cp_leader req))
          in if okCount \<ge> superMajority \<and> leaderReply \<noteq> None
             then (True, req\<lparr>cp_state := Some LOG_STATE_PREPAREOK\<rparr>)
             else if failCount \<ge> superMajority \<and> leaderReply \<noteq> None
             then (True, req\<lparr>cp_state := Some LOG_STATE_ABORT\<rparr>)
             else (False, req)
        else (False, req))"

definition RCCheck :: "int \<Rightarrow> ClientPrepare \<Rightarrow> bool \<times> ClientPrepare" where
  "RCCheck f req =
     (let majority = QuorumSize f; m = cp_replicaReplies req in
      if length m \<ge> unat (word_of_int majority :: u64) then
        let okCount = count_state (\<lambda>x. x = LOG_STATE_PREPAREOK) m;
            failCount = count_state (\<lambda>x. x \<noteq> LOG_STATE_PREPAREOK) m
        in if okCount \<ge> majority then (True, req\<lparr>cp_state := Some LOG_STATE_PREPAREOK\<rparr>)
           else if failCount \<ge> majority then (True, req\<lparr>cp_state := Some LOG_STATE_ABORT\<rparr>)
           else (False, req)
      else (False, req))"

text \<open>What a reply changes in the request, and whether the handler goes on to the continuation.\<close>

definition prepare_reply_step :: "LRClient \<Rightarrow> ClientPrepare \<Rightarrow> PrepareTransactionReply \<Rightarrow> bool \<times> ClientPrepare" where
  "prepare_reply_step s req msg =
     (if lc_tpcMode s = MODE_CAROUSEL \<or> lc_tpcMode s = MODE_RC then
        let req = req\<lparr>cp_replicaReplies := AList.update (pr_replica msg) (pr_state msg) (cp_replicaReplies req),
                      cp_timestamp := (if pr_timestamp msg > cp_timestamp req then pr_timestamp msg
                                       else cp_timestamp req)\<rparr>
        in if lc_tpcMode s = MODE_CAROUSEL then
             case CarouselCheck (lc_f s) req of
               (True, req) \<Rightarrow> (True, req)
             | (False, req) \<Rightarrow>
                 (False, if pr_reachFaultTolerance msg = 1
                         then req\<lparr>cp_state := Some (pr_state msg), cp_reachFaultTolerance := True,
                                  cp_timestamp := pr_timestamp msg\<rparr>
                         else req)
           else RCCheck (lc_f s) req
      else (True, req\<lparr>cp_state := Some (pr_state msg), cp_timestamp := pr_timestamp msg\<rparr>))"

definition HandlePrepareTxnReply :: "LRClient \<Rightarrow> PrepareTransactionReply \<Rightarrow> lrc_res" where
  "HandlePrepareTxnReply s msg =
     (let tid = pr_tid msg in
      case lc_pendingReqs s tid of
        None \<Rightarrow> Inr (s, [])
      | Some (ReqGetData g) \<Rightarrow> Inl NullDeref
      | Some (ReqPrepare req) \<Rightarrow>
          (case prepare_reply_step s req msg of
             (False, req) \<Rightarrow> Inr (lc_put s tid (ReqPrepare req), [])
           | (True, req) \<Rightarrow>
               bindr (if cp_continuationInvoked req then Inr []
                      else bindr (rd (cp_state req)) (\<lambda>st.
                        Inr [CPrepareCallback tid (pr_shard msg)
                               (if st = LOG_STATE_PREPAREOK then 0 else 1) (cp_timestamp req)]))
                 (\<lambda>out. Inr (lc_erase (stop_timer s (TPrepare tid)) tid, out))))"

section \<open>Parallel-mode commit\<close>

definition InvokeParallelCommit :: "bool \<Rightarrow> LRClient \<Rightarrow> u64 \<Rightarrow> u64 list \<Rightarrow> u64 \<Rightarrow> bool \<Rightarrow> lrc_res" where
  "InvokeParallelCommit ok s tid participants replica_id has_error =
     (let req = \<lparr>cx_tid = tid, cx_participants = participants, cx_has_error = has_error\<rparr> in
      Inr (if ok then start_timer (s\<lparr>lc_pendingParallelCommits := (lc_pendingParallelCommits s)(tid \<mapsto> req)\<rparr>)
                        (TParallelCommit tid)
           else s,
           [CSend (ToReplica (int32 replica_id)) (LParallelModeCommit tid participants)]))"

definition erase_parallel :: "LRClient \<Rightarrow> u64 \<Rightarrow> LRClient" where
  "erase_parallel s tid = s\<lparr>lc_pendingParallelCommits := (lc_pendingParallelCommits s)(tid := None)\<rparr>"

definition ParallelModeCommit_timeout :: "LRClient \<Rightarrow> u64 \<Rightarrow> lrc_res" where
  "ParallelModeCommit_timeout s tid =
     (case lc_pendingParallelCommits s tid of
        None \<Rightarrow> Inr (s, [])
      | Some req \<Rightarrow>
          Inr (erase_parallel (stop_timer s (TParallelCommit tid)) tid,
               if cx_has_error req then [CParallelCommitError tid TIMEOUT] else []))"

definition HandleParallelModeCommitReply :: "LRClient \<Rightarrow> u64 \<Rightarrow> LogEntryState \<Rightarrow> u64 \<Rightarrow> lrc_res" where
  "HandleParallelModeCommitReply s tid st ts =
     (case lc_pendingParallelCommits s tid of
        None \<Rightarrow> Inr (s, [])
      | Some req \<Rightarrow>
          let s = erase_parallel (stop_timer s (TParallelCommit tid)) tid;
              out = [CParallelCommitCallback tid (LogEntryState_int st) ts]
          in case lc_pendingReqs s tid of
               None \<Rightarrow> Inr (s, out)
             | Some (ReqGetData g) \<Rightarrow> Inl NullDeref
             | Some (ReqPrepare r) \<Rightarrow> Inr (lc_erase (stop_timer s (TPrepare tid)) tid, out))"

section \<open>Reads and decisions\<close>

definition InvokeGetData :: "bool \<Rightarrow> LRClient \<Rightarrow> u64 \<Rightarrow> string list \<Rightarrow> u64 \<Rightarrow> bool \<Rightarrow> lrc_res" where
  "InvokeGetData ok s tid keys replica_id has_error =
     Inr (if ok then lc_put (start_timer s (TGetData tid)) tid (ReqGetData \<lparr>cg_tid = tid, cg_has_error = has_error\<rparr>)
          else s,
          [CSend (ToReplica (int32 replica_id)) (LGetData tid keys)])"

definition GetDateTimeoutCallback :: "LRClient \<Rightarrow> u64 \<Rightarrow> lrc_res" where
  "GetDateTimeoutCallback s tid =
     (case lc_pendingReqs s tid of
        None \<Rightarrow> Inr (s, [])
      | Some (ReqPrepare r) \<Rightarrow> Inl BadCast
      | Some (ReqGetData req) \<Rightarrow>
          Inr (lc_erase (stop_timer s (TGetData tid)) tid,
               if cg_has_error req then [CGetError tid TIMEOUT] else []))"

definition HandleGetDataReply :: "LRClient \<Rightarrow> GetDataReply \<Rightarrow> lrc_res" where
  "HandleGetDataReply s msg =
     (let tid = gd_tid msg in
      case lc_pendingReqs s tid of
        None \<Rightarrow> Inr (s, [])
      | Some (ReqPrepare r) \<Rightarrow> Inl NullDeref
      | Some (ReqGetData req) \<Rightarrow>
          Inr (lc_erase (stop_timer s (TGetData tid)) tid,
               [CGetCallback (map (\<lambda>k. (rk_key k, rk_timestamp k)) (gd_keys msg)) (map rk_value (gd_keys msg))
                  (ReplyState_int (gd_state msg))]))"

text \<open>The decision carries no timestamp: the field keeps its default. The timer is never started.\<close>

definition InvokeCommit :: "LRClient \<Rightarrow> u64 \<Rightarrow> u64 \<Rightarrow> LogEntryState \<Rightarrow> lrc_res" where
  "InvokeCommit s tid leader st =
     Inr (s, [CSend (ToReplica (int32 leader)) (LCommit \<lparr>cm_tid = tid, cm_state = st, cm_timestamp = 0\<rparr>)])"

section \<open>Dispatch, timers and histories\<close>

datatype lrc_msg =
    MPrepareReply PrepareTransactionReply
  | MGetDataReply GetDataReply
  | MParallelModeCommitReply u64 LogEntryState u64

fun lrc_ReceiveMessage :: "LRClient \<Rightarrow> lrc_msg \<Rightarrow> lrc_res" where
  "lrc_ReceiveMessage s (MPrepareReply m) = HandlePrepareTxnReply s m"
| "lrc_ReceiveMessage s (MGetDataReply m) = HandleGetDataReply s m"
| "lrc_ReceiveMessage s (MParallelModeCommitReply tid st ts) = HandleParallelModeCommitReply s tid st ts"

definition lrc_fire :: "LRClient \<Rightarrow> lrc_timer \<Rightarrow> lrc_res" where
  "lrc_fire s t =
     (if t \<in> set (lc_timers s) then
        case t of
          TPrepare tid \<Rightarrow> PrepareTimeoutCallback s tid
        | TGetData tid \<Rightarrow> GetDateTimeoutCallback s tid
        | TParallelCommit tid \<Rightarrow> ParallelModeCommit_timeout s tid
      else Inr (s, []))"

datatype lrc_event =
    IPrepare bool Transaction u64 bool
  | IParallelCommit bool u64 "u64 list" u64 bool
  | IGetData bool u64 "string list" u64 bool
  | ICommit u64 u64 LogEntryState
  | RMessage lrc_msg
  | RTimer lrc_timer

fun lrc_step :: "LRClient \<Rightarrow> lrc_event \<Rightarrow> lrc_res" where
  "lrc_step s (IPrepare ok txn leader e) = InvokePrepare ok s txn leader e"
| "lrc_step s (IParallelCommit ok tid ps r e) = InvokeParallelCommit ok s tid ps r e"
| "lrc_step s (IGetData ok tid keys r e) = InvokeGetData ok s tid keys r e"
| "lrc_step s (ICommit tid leader st) = InvokeCommit s tid leader st"
| "lrc_step s (RMessage m) = lrc_ReceiveMessage s m"
| "lrc_step s (RTimer t) = lrc_fire s t"

primrec lrc_run :: "lrc_event list \<Rightarrow> LRClient \<Rightarrow> lrc_res" where
  "lrc_run [] s = Inr (s, [])"
| "lrc_run (e # es) s =
     bindr (lrc_step s e) (\<lambda>(s, out). bindr (lrc_run es s) (\<lambda>(s', out'). Inr (s', out @ out')))"

section \<open>What the client has heard\<close>

fun event_replies :: "lrc_event \<Rightarrow> PrepareTransactionReply list" where
  "event_replies (RMessage (MPrepareReply m)) = [m]"
| "event_replies e = []"

definition heard :: "lrc_event list \<Rightarrow> PrepareTransactionReply set" where
  "heard es = set (concat (map event_replies es))"

definition ok_voters :: "PrepareTransactionReply set \<Rightarrow> u64 \<Rightarrow> u64 set" where
  "ok_voters H tid = {pr_replica m |m. m \<in> H \<and> pr_tid m = tid \<and> pr_state m = LOG_STATE_PREPAREOK}"

definition backed :: "int \<Rightarrow> TpcMode \<Rightarrow> PrepareTransactionReply set \<Rightarrow> u64 \<Rightarrow> bool" where
  "backed f tpc H tid \<longleftrightarrow>
     (if tpc = MODE_RC then QuorumSize f \<le> int (card (ok_voters H tid))
      else if tpc = MODE_CAROUSEL then FastQuorumSize f \<le> int (card (ok_voters H tid)) \<or>
        (\<exists>m. m \<in> H \<and> pr_tid m = tid \<and> pr_state m = LOG_STATE_PREPAREOK \<and> pr_reachFaultTolerance m = 1)
      else ok_voters H tid \<noteq> {})"

definition request_heard :: "PrepareTransactionReply set \<Rightarrow> u64 \<Rightarrow> ClientPrepare \<Rightarrow> bool" where
  "request_heard H tid req \<longleftrightarrow>
     distinct (map fst (cp_replicaReplies req)) \<and>
     (\<forall>r st. (r, st) \<in> set (cp_replicaReplies req) \<longrightarrow>
        (\<exists>m. m \<in> H \<and> pr_tid m = tid \<and> pr_replica m = r \<and> pr_state m = st)) \<and>
     (cp_reachFaultTolerance req \<longrightarrow>
        (\<exists>m. m \<in> H \<and> pr_tid m = tid \<and> pr_reachFaultTolerance m = 1 \<and> cp_state req = Some (pr_state m)))"

definition client_heard :: "PrepareTransactionReply set \<Rightarrow> LRClient \<Rightarrow> bool" where
  "client_heard H s \<longleftrightarrow> (\<forall>tid req. lc_pendingReqs s tid = Some (ReqPrepare req) \<longrightarrow> request_heard H tid req)"

lemmas lrc_map_defs = lc_put_def lc_erase_def start_timer_def stop_timer_def erase_parallel_def

lemma request_heard_mono: "request_heard H tid req \<Longrightarrow> H \<subseteq> H' \<Longrightarrow> request_heard H' tid req"
  unfolding request_heard_def by (intro conjI) blast+

lemma client_heard_mono: "client_heard H s \<Longrightarrow> H \<subseteq> H' \<Longrightarrow> client_heard H' s"
  unfolding client_heard_def using request_heard_mono by blast

lemma finite_ok_voters: "finite H \<Longrightarrow> finite (ok_voters H tid)"
  by (auto simp: ok_voters_def)

lemma ok_voters_mono: "H \<subseteq> H' \<Longrightarrow> ok_voters H tid \<subseteq> ok_voters H' tid"
  unfolding ok_voters_def by blast

lemma backed_mono:
  assumes "backed f tpc H tid" "H \<subseteq> H'" "finite H'"
  shows "backed f tpc H' tid"
proof -
  have "card (ok_voters H tid) \<le> card (ok_voters H' tid)"
    using assms by (intro card_mono finite_ok_voters ok_voters_mono)
  with assms ok_voters_mono [OF assms(2), of tid] show ?thesis
    unfolding backed_def by (auto split: if_splits)
qed

lemma count_ok_voters:
  assumes "request_heard H tid req" and "finite H"
  shows "count_state (\<lambda>x. x = LOG_STATE_PREPAREOK) (cp_replicaReplies req) \<le> int (card (ok_voters H tid))"
proof -
  let ?m = "filter (\<lambda>p. snd p = LOG_STATE_PREPAREOK) (cp_replicaReplies req)"
  have "length ?m = card (fst ` set ?m)"
    using assms(1) by (intro length_distinct_keys distinct_map_filter) (simp add: request_heard_def)
  moreover have "fst ` set ?m \<subseteq> ok_voters H tid"
    using assms(1) unfolding request_heard_def ok_voters_def by fastforce
  ultimately show ?thesis
    unfolding count_state_def using card_mono [OF finite_ok_voters [OF assms(2)]] by (metis of_nat_mono)
qed

lemma request_heard_reply:
  assumes "request_heard H tid req" and "m \<in> H" "pr_tid m = tid"
  shows "request_heard H tid (req\<lparr>cp_replicaReplies := AList.update (pr_replica m) (pr_state m) (cp_replicaReplies req),
      cp_timestamp := ts\<rparr>)"
  using assms set_update_subset [of "pr_replica m" "pr_state m" "cp_replicaReplies req"]
  unfolding request_heard_def by (auto simp: distinct_update)

lemma prepare_reply_step_heard:
  assumes r: "request_heard H tid req" and m: "m \<in> H" "pr_tid m = tid" and H: "finite H"
    and step: "prepare_reply_step s req m = (c, req')"
  shows "(\<not> c \<longrightarrow> request_heard H tid req') \<and>
    (c \<and> cp_state req' = Some LOG_STATE_PREPAREOK \<longrightarrow> backed (lc_f s) (lc_tpcMode s) H tid)"
proof -
  let ?req = "req\<lparr>cp_replicaReplies := AList.update (pr_replica m) (pr_state m) (cp_replicaReplies req),
    cp_timestamp := (if pr_timestamp m > cp_timestamp req then pr_timestamp m else cp_timestamp req)\<rparr>"
  have r': "request_heard H tid ?req" using r m by (rule request_heard_reply)
  note votes = count_ok_voters [OF r' H]
  consider (car) "lc_tpcMode s = MODE_CAROUSEL" | (rc) "lc_tpcMode s = MODE_RC"
    | (other) "lc_tpcMode s \<noteq> MODE_CAROUSEL" "lc_tpcMode s \<noteq> MODE_RC" by blast
  then show ?thesis
  proof cases
    case car
    with step r' m votes show ?thesis
      by (auto simp: prepare_reply_step_def CarouselCheck_def backed_def request_heard_def Let_def
          split: if_splits prod.splits)
  next
    case rc
    with step r' votes show ?thesis
      by (auto simp: prepare_reply_step_def RCCheck_def backed_def Let_def split: if_splits)
  next
    case other
    with step m show ?thesis
      by (auto simp: prepare_reply_step_def backed_def ok_voters_def)
  qed
qed

lemma prepare_request_heard:
  assumes "client_heard H s" and "lc_pendingReqs s' = (lc_pendingReqs s)(tid := r)"
    and "\<And>req. r = Some (ReqPrepare req) \<Longrightarrow> request_heard H tid req"
  shows "client_heard H s'"
  using assms by (auto simp: client_heard_def)

definition callbacks_backed :: "int \<Rightarrow> TpcMode \<Rightarrow> PrepareTransactionReply set \<Rightarrow> lrc_out list \<Rightarrow> bool" where
  "callbacks_backed f tpc H out \<longleftrightarrow>
     (\<forall>tid shard ts. CPrepareCallback tid shard 0 ts \<in> set out \<longrightarrow> backed f tpc H tid)"

definition same_setup :: "LRClient \<Rightarrow> LRClient \<Rightarrow> bool" where
  "same_setup s s' \<longleftrightarrow> lc_f s' = lc_f s \<and> lc_tpcMode s' = lc_tpcMode s"

lemma HandlePrepareTxnReply_heard:
  assumes "client_heard H s" "m \<in> H" "finite H" and step: "HandlePrepareTxnReply s m = Inr (s', out)"
  shows "client_heard H s' \<and> same_setup s s' \<and> callbacks_backed (lc_f s) (lc_tpcMode s) H out"
proof (cases "lc_pendingReqs s (pr_tid m)")
  case None
  with step assms(1) show ?thesis
    by (simp add: HandlePrepareTxnReply_def same_setup_def callbacks_backed_def)
next
  case (Some r)
  then obtain req where r: "r = ReqPrepare req"
    using step by (cases r) (auto simp: HandlePrepareTxnReply_def)
  obtain c req' where c: "prepare_reply_step s req m = (c, req')" by (cases "prepare_reply_step s req m")
  have "request_heard H (pr_tid m) req" using assms(1) Some r by (simp add: client_heard_def)
  note h = prepare_reply_step_heard [OF this assms(2) refl assms(3) c]
  show ?thesis
  proof (cases c)
    case True
    with step Some r c h show ?thesis
      by (auto simp: HandlePrepareTxnReply_def Let_def same_setup_def callbacks_backed_def bindr_eq_Inr lrc_map_defs
          intro!: prepare_request_heard [OF assms(1), of _ "pr_tid m" None] split: if_splits)
  next
    case False
    with step Some r c h show ?thesis
      by (auto simp: HandlePrepareTxnReply_def Let_def same_setup_def callbacks_backed_def lrc_map_defs
          intro!: prepare_request_heard [OF assms(1), of _ "pr_tid m" "Some (ReqPrepare req')"])
  qed
qed

lemma lrc_step_heard:
  assumes H: "client_heard H s" "finite H" and step: "lrc_step s e = Inr (s', out)"
  shows "client_heard (H \<union> set (event_replies e)) s' \<and> same_setup s s' \<and>
    callbacks_backed (lc_f s) (lc_tpcMode s) (H \<union> set (event_replies e)) out"
proof (cases e)
  case (RMessage msg)
  show ?thesis
  proof (cases msg)
    case (MPrepareReply m)
    have "client_heard (insert m H) s" using H(1) by (rule client_heard_mono) blast
    from HandlePrepareTxnReply_heard [OF this, of m s' out] H(2) step RMessage MPrepareReply show ?thesis
      by simp
  next
    case (MGetDataReply g)
    with step RMessage H show ?thesis
      by (auto simp: HandleGetDataReply_def same_setup_def callbacks_backed_def lrc_map_defs client_heard_def Let_def
          split: option.splits PendingRequest.splits if_splits)
  next
    case (MParallelModeCommitReply tid st ts)
    with step RMessage H show ?thesis
      by (auto simp: HandleParallelModeCommitReply_def same_setup_def callbacks_backed_def lrc_map_defs
          client_heard_def Let_def split: option.splits PendingRequest.splits if_splits)
  qed
next
  case (RTimer t)
  with step H show ?thesis
    by (auto simp: lrc_fire_def PrepareTimeoutCallback_def GetDateTimeoutCallback_def ParallelModeCommit_timeout_def
        same_setup_def callbacks_backed_def lrc_map_defs client_heard_def
        split: option.splits PendingRequest.splits if_splits lrc_timer.splits)
next
  case (IPrepare ok txn leader err)
  with step H show ?thesis
    by (auto simp: InvokePrepare_def cl_SendPrepare_def bindr_eq_Inr same_setup_def callbacks_backed_def
        lrc_map_defs client_heard_def request_heard_def ClientPrepare_new_def Let_def split: if_splits)
qed (use step H in \<open>auto simp: InvokeParallelCommit_def InvokeGetData_def InvokeCommit_def same_setup_def
    callbacks_backed_def lrc_map_defs client_heard_def Let_def split: if_splits\<close>)

lemma heard_Cons: "heard (e # es) = set (event_replies e) \<union> heard es"
  by (simp add: heard_def)

lemma lrc_run_heard:
  assumes "client_heard H s" "finite H" and "lrc_run es s = Inr (s', out)"
  shows "callbacks_backed (lc_f s) (lc_tpcMode s) (H \<union> heard es) out"
  using assms
proof (induction es arbitrary: H s out)
  case Nil
  then show ?case by (simp add: callbacks_backed_def)
next
  case (Cons e es)
  from Cons.prems(3) obtain s1 o1 o2 where step: "lrc_step s e = Inr (s1, o1)"
    and run: "lrc_run es s1 = Inr (s', o2)" and out: "out = o1 @ o2"
    by (auto simp: bindr_eq_Inr)
  let ?H = "H \<union> set (event_replies e)"
  have h: "client_heard ?H s1" "same_setup s s1" "callbacks_backed (lc_f s) (lc_tpcMode s) ?H o1"
    using lrc_step_heard [OF Cons.prems(1,2) step] by auto
  have fin: "finite (H \<union> heard (e # es))" using Cons.prems(2) by (simp add: heard_def)
  have "callbacks_backed (lc_f s1) (lc_tpcMode s1) (?H \<union> heard es) o2"
    using Cons.IH [OF h(1) _ run] Cons.prems(2) by simp
  moreover have "callbacks_backed (lc_f s) (lc_tpcMode s) (H \<union> heard (e # es)) o1"
    using h(3) unfolding callbacks_backed_def heard_Cons
    by (blast intro: backed_mono [OF _ _ fin [unfolded heard_Cons]])
  ultimately show ?case
    using h(2) unfolding callbacks_backed_def same_setup_def heard_Cons out by (simp add: Un_assoc) blast
qed

section \<open>One outcome per request\<close>

fun outcome :: "u64 \<Rightarrow> lrc_out \<Rightarrow> bool" where
  "outcome tid (CPrepareCallback t shard st ts) = (t = tid)"
| "outcome tid (CPrepareError t err) = (t = tid)"
| "outcome tid o1 = False"

fun invocation :: "u64 \<Rightarrow> lrc_event \<Rightarrow> bool" where
  "invocation tid (IPrepare ok txn leader err) = (txn_id txn = Some tid)"
| "invocation tid e = False"

definition open_prepare :: "LRClient \<Rightarrow> u64 \<Rightarrow> nat" where
  "open_prepare s tid = (case lc_pendingReqs s tid of Some (ReqPrepare req) \<Rightarrow> 1 | _ \<Rightarrow> 0)"

lemma open_prepare_le: "open_prepare s tid \<le> 1"
  by (auto simp: open_prepare_def split: option.split PendingRequest.split)

lemma lrc_step_outcomes:
  assumes "lrc_step s e = Inr (s', out)"
  shows "length (filter (outcome tid) out) + open_prepare s' tid \<le> open_prepare s tid + (if invocation tid e then 1 else 0)"
proof (cases e)
  case (RMessage msg)
  with assms show ?thesis
    by (cases msg) (auto simp: HandlePrepareTxnReply_def HandleGetDataReply_def HandleParallelModeCommitReply_def
        open_prepare_def lrc_map_defs Let_def bindr_eq_Inr
        split: option.splits PendingRequest.splits if_splits prod.splits bool.splits)
next
  case (RTimer t)
  with assms show ?thesis
    by (auto simp: lrc_fire_def PrepareTimeoutCallback_def GetDateTimeoutCallback_def ParallelModeCommit_timeout_def
        open_prepare_def lrc_map_defs split: option.splits PendingRequest.splits if_splits lrc_timer.splits)
next
  case (IPrepare ok txn leader err)
  with assms open_prepare_le [of s' tid] show ?thesis
    by (auto simp: InvokePrepare_def cl_SendPrepare_def prepare_msg_def bindr_eq_Inr open_prepare_def
        lrc_map_defs Let_def split: if_splits option.splits PendingRequest.splits)
qed (use assms in \<open>auto simp: InvokeParallelCommit_def InvokeGetData_def InvokeCommit_def open_prepare_def
    lrc_map_defs Let_def split: if_splits option.splits PendingRequest.splits\<close>)

lemma lrc_run_outcomes:
  "lrc_run es s = Inr (s', out) \<Longrightarrow>
   length (filter (outcome tid) out) + open_prepare s' tid \<le> open_prepare s tid + length (filter (invocation tid) es)"
proof (induction es arbitrary: s out)
  case (Cons e es)
  from Cons.prems obtain s1 o1 o2 where step: "lrc_step s e = Inr (s1, o1)"
    and run: "lrc_run es s1 = Inr (s', o2)" and out: "out = o1 @ o2"
    by (auto simp: bindr_eq_Inr)
  from lrc_step_outcomes [OF step, of tid] Cons.IH [OF run] out show ?case by auto
qed simp

section \<open>Properties\<close>

text \<open>C19. When the client of a shard reports a transaction as prepared, the shard has voted for it: in
  any history of invocations, messages and timeouts, a positive continuation of a prepare request
  is backed by a positive reply for the transaction; in RC mode by positive replies of \<open>f + 1\<close>
  different replicas; in Carousel mode by those of a fast quorum, or by a positive reply that the
  leader has marked as replicated.\<close>

theorem client_prepare_backed:
  assumes "lrc_run es (LRClient_new f tpc) = Inr (s, out)"
    and "CPrepareCallback tid shard 0 ts \<in> set out"
  shows "backed f tpc (heard es) tid"
proof -
  have "client_heard {} (LRClient_new f tpc)" by (simp add: client_heard_def LRClient_new_def)
  from lrc_run_heard [OF this _ assms(1)] assms(2) show ?thesis
    by (auto simp: callbacks_backed_def LRClient_new_def)
qed

definition demo_vote :: "u64 \<Rightarrow> LogEntryState \<Rightarrow> PrepareTransactionReply" where
  "demo_vote r st = \<lparr>pr_tid = 9, pr_state = st, pr_shard = 0, pr_timestamp = 7, pr_reachFaultTolerance = 0, pr_replica = r\<rparr>"

definition demo_votes :: "lrc_event list" where
  "demo_votes = [IPrepare True (Transaction_primary 9 0 0 0) 0 True,
     RMessage (MPrepareReply (demo_vote 0 LOG_STATE_PREPAREOK)),
     RMessage (MPrepareReply (demo_vote 1 LOG_STATE_ABORT)),
     RMessage (MPrepareReply (demo_vote 2 LOG_STATE_PREPAREOK))]"

theorem client_prepare_backed_witness:
  "\<exists>s out. lrc_run demo_votes (LRClient_new 1 MODE_RC) = Inr (s, out) \<and>
     CPrepareCallback 9 0 0 7 \<in> set out \<and> 2 \<le> card (ok_voters (heard demo_votes) 9)"
proof -
  let ?r = "lrc_run demo_votes (LRClient_new 1 MODE_RC)"
  have "\<not> isl ?r" "CPrepareCallback 9 0 0 7 \<in> set (snd (projr ?r))" by code_simp+
  then obtain s out where r: "?r = Inr (s, out)" and c: "CPrepareCallback 9 0 0 7 \<in> set out"
    by (cases ?r) auto
  from client_prepare_backed [OF r c] r c show ?thesis
    by (auto simp: backed_def QuorumSize_def)
qed

text \<open>A prepare request has at most one outcome: in any history, the continuation and the error
  continuation together are called for a transaction at most as often as it was submitted.\<close>

lemma client_prepare_outcome_once:
  assumes "lrc_run es (LRClient_new f tpc) = Inr (s, out)"
  shows "length (filter (outcome tid) out) \<le> length (filter (invocation tid) es)"
  using lrc_run_outcomes [OF assms, of tid] by (simp add: open_prepare_def LRClient_new_def)

text \<open>A read reply that arrives after its timeout crashes the client if the transaction has gone on
  to prepare: both requests share one table, the reply finds the prepare request under the
  identifier of the transaction, and the null pointer of the failed cast is dereferenced.\<close>

lemma late_read_reply_crashes:
  assumes "txn_id txn = Some tid" and "txn_primary_shard txn = Some ps" and "gd_tid m = tid"
  shows "lrc_run [IGetData True tid keys r err, RTimer (TGetData tid), IPrepare True txn leader err',
      RMessage (MGetDataReply m)] (LRClient_new f tpc) = Inl NullDeref"
  using assms
  by (simp add: InvokeGetData_def LRClient_new_def lrc_map_defs lrc_fire_def GetDateTimeoutCallback_def
      InvokePrepare_def cl_SendPrepare_def prepare_msg_def ClientPrepare_new_def HandleGetDataReply_def Let_def)

text \<open>Carousel's slow path waits for one reply too many: the leader's reply that the transaction is
  replicated leaves the request pending and calls nothing; the next reply of any replica, whatever
  it says, completes it with the leader's answer.\<close>

lemma carousel_slow_path_waits:
  assumes "lc_tpcMode s = MODE_CAROUSEL" and "lc_pendingReqs s (pr_tid m) = Some (ReqPrepare req)"
    and "\<not> cp_continuationInvoked req" and "pr_reachFaultTolerance m = 1"
    and "\<not> fst (prepare_reply_step s req m)"
  shows "\<exists>s1. HandlePrepareTxnReply s m = Inr (s1, []) \<and>
    (\<forall>m2. pr_tid m2 = pr_tid m \<longrightarrow> (\<exists>s2 ts. HandlePrepareTxnReply s1 m2 =
       Inr (s2, [CPrepareCallback (pr_tid m) (pr_shard m2)
                   (if pr_state m = LOG_STATE_PREPAREOK then 0 else 1) ts])))"
proof -
  obtain req' where step: "prepare_reply_step s req m = (False, req')"
    using assms(5) by (cases "prepare_reply_step s req m") auto
  have req': "cp_reachFaultTolerance req'" "cp_state req' = Some (pr_state m)" "\<not> cp_continuationInvoked req'"
    using step assms(1,3,4)
    by (auto simp: prepare_reply_step_def CarouselCheck_def Let_def split: if_splits prod.splits)
  let ?s1 = "lc_put s (pr_tid m) (ReqPrepare req')"
  have "HandlePrepareTxnReply s m = Inr (?s1, [])"
    using assms(2) step by (simp add: HandlePrepareTxnReply_def)
  moreover have "\<exists>s2 ts. HandlePrepareTxnReply ?s1 m2 =
      Inr (s2, [CPrepareCallback (pr_tid m) (pr_shard m2) (if pr_state m = LOG_STATE_PREPAREOK then 0 else 1) ts])"
    if "pr_tid m2 = pr_tid m" for m2
    using that assms(1) req'
    by (simp add: HandlePrepareTxnReply_def lc_put_def prepare_reply_step_def CarouselCheck_def Let_def)
  ultimately show ?thesis by blast
qed

end
