(* ===== verification/ShardClients.thy ===== *)
theory ShardClients
  imports LRClients "HOL-Library.Signed_Division"
begin

text \<open>
  src/store/strongstore/shardclient.cc and src/store/common/frontend/bufferclient.cc: the client of
  one shard, which turns operations into requests and continuations into replies of promises, and
  the buffer in front of it, which keeps the read and the write set of the ongoing transaction.

  \<^item> Promises are shared between the application thread, which creates, reads and destroys them, and
    the clients of the shards, which keep pointers to them: they live in a heap, an address without
    a promise being one that has been destroyed.
  \<^item> \<^verbatim>\<open>transport->Timer(0, ...)\<close> hands work to the transport thread; such work is a value of type
    \<open>sc_action\<close> that is run later.
  \<^item> In \<^verbatim>\<open>GetCallback\<close> the call \<^verbatim>\<open>Reply(state, Timestamp(), "")\<close> selects the overload whose
    last parameter is \<^verbatim>\<open>bool\<close>, the conversion of a pointer to \<^verbatim>\<open>bool\<close> being preferred to the
    one to \<^verbatim>\<open>std::string\<close>.
  \<^item> \<^verbatim>\<open>blockingBegin\<close> stays null, and \<^verbatim>\<open>Put\<close> of this class only panics and has no caller.
\<close>

type_synonym ptr = nat

type_synonym heap = "ptr \<rightharpoonup> Promise"

definition load :: "heap \<Rightarrow> ptr \<Rightarrow> ub + Promise" where
  "load h p = (case h p of None \<Rightarrow> Inl UseAfterFree | Some q \<Rightarrow> Inr q)"

record ShardClient =
  sc_shard :: int
  sc_replica :: int
  sc_leader :: int
  sc_tpcMode :: TpcMode
  sc_client :: LRClient
  sc_waiting :: "ptr option"

datatype sc_action =
    AGetData u64 "string list" "ptr option"
  | APrepare Transaction "ptr option"
  | AParallelCommit u64 Transaction "ptr option"

text \<open>\<open>n\<close> and \<open>f\<close> come from the configuration file of the shard.\<close>

definition ShardClient_new :: "TpcMode \<Rightarrow> int \<Rightarrow> int \<Rightarrow> u64 \<Rightarrow> int \<Rightarrow> int \<Rightarrow> ub + ShardClient" where
  "ShardClient_new tpc n f client_id shard closestReplica =
     bindr (if closestReplica = - 1 then map_sum id int32 (umod client_id n) else Inr closestReplica) (\<lambda>replica.
       if n = 0 then Inl DivByZero
       else Inr \<lparr>sc_shard = shard, sc_replica = replica, sc_leader = shard smod n, sc_tpcMode = tpc,
                 sc_client = LRClient_new f tpc, sc_waiting = None\<rparr>)"

section \<open>Requests\<close>

definition sc_Get :: "u64 \<Rightarrow> string \<Rightarrow> ptr option \<Rightarrow> sc_action" where
  "sc_Get i key promise = AGetData i [key] promise"

definition sc_MultiGet :: "u64 \<Rightarrow> string list \<Rightarrow> ptr option \<Rightarrow> sc_action" where
  "sc_MultiGet i keys promise = AGetData i keys promise"

definition sc_Get_at :: "u64 \<Rightarrow> string \<Rightarrow> Timestamp \<Rightarrow> ptr option \<Rightarrow> sc_action" where
  "sc_Get_at i key timestamp promise = sc_Get i key promise"

definition sc_Prepare :: "u64 \<Rightarrow> Transaction \<Rightarrow> Timestamp \<Rightarrow> ptr option \<Rightarrow> sc_action" where
  "sc_Prepare i txn timestamp promise = APrepare txn promise"

definition sc_ParallelModeCommit :: "u64 \<Rightarrow> Transaction \<Rightarrow> ptr option \<Rightarrow> sc_action" where
  "sc_ParallelModeCommit i txn promise = AParallelCommit i txn promise"

definition sc_lift :: "ShardClient \<Rightarrow> lrc_res \<Rightarrow> ub + ShardClient \<times> lrc_out list" where
  "sc_lift s r = bindr r (\<lambda>(c, out). Inr (s\<lparr>sc_client := c\<rparr>, out))"

text \<open>The work that the transport thread does for a request.\<close>

fun run_action :: "bool \<Rightarrow> ShardClient \<Rightarrow> sc_action \<Rightarrow> ub + ShardClient \<times> lrc_out list" where
  "run_action ok s (AGetData i keys promise) =
     sc_lift (s\<lparr>sc_waiting := promise\<rparr>)
       (InvokeGetData ok (sc_client s) i keys (word_of_int (sc_replica s)) True)"
| "run_action ok s (APrepare txn promise) =
     sc_lift (s\<lparr>sc_waiting := promise\<rparr>)
       (InvokePrepare ok (sc_client s) txn (word_of_int (sc_leader s)) True)"
| "run_action ok s (AParallelCommit i txn promise) =
     sc_lift (s\<lparr>sc_waiting := promise\<rparr>)
       (InvokeParallelCommit ok (sc_client s) i (txn_participants txn) (word_of_int (sc_leader s)) False)"

text \<open>The timestamp of \<^verbatim>\<open>Commit\<close> and the transaction of \<^verbatim>\<open>Abort\<close> are not used.\<close>

definition sc_Commit :: "ShardClient \<Rightarrow> u64 \<Rightarrow> Transaction \<Rightarrow> u64 \<Rightarrow> ub + ShardClient \<times> lrc_out list" where
  "sc_Commit s i txn timestamp =
     sc_lift (s\<lparr>sc_waiting := None\<rparr>) (InvokeCommit (sc_client s) i (word_of_int (sc_leader s)) LOG_STATE_COMMIT)"

definition sc_Abort :: "ShardClient \<Rightarrow> u64 \<Rightarrow> Transaction \<Rightarrow> ub + ShardClient \<times> lrc_out list" where
  "sc_Abort s i txn =
     sc_lift (s\<lparr>sc_waiting := None\<rparr>) (InvokeCommit (sc_client s) i (word_of_int (sc_leader s)) LOG_STATE_ABORT)"

section \<open>Continuations\<close>

definition sc_GetTimeout :: "heap \<Rightarrow> ShardClient \<Rightarrow> u64 \<Rightarrow> ub + heap \<times> ShardClient" where
  "sc_GetTimeout h s tid =
     (case sc_waiting s of
        None \<Rightarrow> Inr (h, s)
      | Some w \<Rightarrow> bindr (load h w) (\<lambda>p. Inr (h(w \<mapsto> Reply_status p REPLY_TIMEOUT), s\<lparr>sc_waiting := None\<rparr>)))"

definition GetCallback ::
  "heap \<Rightarrow> ShardClient \<Rightarrow> (string \<times> u64) list \<Rightarrow> string list \<Rightarrow> int \<Rightarrow> ub + heap \<times> ShardClient" where
  "GetCallback h s readKey values st =
     (case sc_waiting s of
        None \<Rightarrow> Inr (h, s)
      | Some w \<Rightarrow> bindr (load h w) (\<lambda>p.
          case values of
            [] \<Rightarrow> Inr (h(w \<mapsto> Reply_decision p st Timestamp_default), s\<lparr>sc_waiting := None\<rparr>)
          | v # vs \<Rightarrow>
              (case readKey of
                 [] \<Rightarrow> Inl OutOfBounds
               | k # ks \<Rightarrow> Inr (h(w \<mapsto> Reply_ts_value p st (Timestamp_of (snd k)) v), s\<lparr>sc_waiting := None\<rparr>))))"

definition reply_timestamp :: "u64 \<Rightarrow> Timestamp" where
  "reply_timestamp ts = (if ts > 0 then Timestamp ts 0 else Timestamp_default)"

definition PrepareCallback :: "heap \<Rightarrow> ShardClient \<Rightarrow> u64 \<Rightarrow> u64 \<Rightarrow> int \<Rightarrow> u64 \<Rightarrow> ub + heap \<times> ShardClient" where
  "PrepareCallback h s tid shard st ts =
     (case sc_waiting s of
        None \<Rightarrow> Inr (h, s)
      | Some w \<Rightarrow> bindr (load h w) (\<lambda>p. bindr (GetTid p) (\<lambda>wtid.
          if tid \<noteq> wtid \<or> HasReachFinalDecision p then Inr (h, s)
          else if sc_tpcMode s = MODE_SLOW \<or> sc_tpcMode s = MODE_RC
          then Inr (h(w \<mapsto> Reply_ts p st (reply_timestamp ts)), s\<lparr>sc_waiting := None\<rparr>)
          else bindr (Reply_shard p (int32 shard) st (reply_timestamp ts)) (\<lambda>p'. Inr (h(w \<mapsto> p'), s)))))"

definition PrepareTimeout :: "heap \<Rightarrow> ShardClient \<Rightarrow> u64 \<Rightarrow> ub + heap \<times> ShardClient" where
  "PrepareTimeout h s tid =
     (case sc_waiting s of
        None \<Rightarrow> Inr (h, s)
      | Some w \<Rightarrow> bindr (load h w) (\<lambda>p. bindr (GetTid p) (\<lambda>wtid.
          if wtid = tid
          then bindr (Reply_shard p (sc_shard s) REPLY_TIMEOUT Timestamp_default) (\<lambda>p'. Inr (h(w \<mapsto> p'), s))
          else Inr (h, s))))"

definition ParallelModeCommitCallback :: "heap \<Rightarrow> ShardClient \<Rightarrow> u64 \<Rightarrow> int \<Rightarrow> u64 \<Rightarrow> ub + heap \<times> ShardClient" where
  "ParallelModeCommitCallback h s tid st ts =
     (case sc_waiting s of
        None \<Rightarrow> Inr (h, s)
      | Some w \<Rightarrow> bindr (load h w) (\<lambda>p. bindr (GetTid p) (\<lambda>wtid.
          if wtid = tid
          then Inr (h(w \<mapsto> Reply_decision p st (reply_timestamp ts)), s\<lparr>sc_waiting := None\<rparr>)
          else Inr (h, s))))"

text \<open>Continuations are called while the request is handled; messages go to the network.\<close>

fun sc_callback :: "heap \<Rightarrow> ShardClient \<Rightarrow> lrc_out \<Rightarrow> ub + heap \<times> ShardClient" where
  "sc_callback h s (CSend d m) = Inr (h, s)"
| "sc_callback h s (CPrepareCallback tid shard st ts) = PrepareCallback h s tid shard st ts"
| "sc_callback h s (CGetCallback ks vs st) = GetCallback h s ks vs st"
| "sc_callback h s (CParallelCommitCallback tid st ts) = ParallelModeCommitCallback h s tid st ts"
| "sc_callback h s (CPrepareError tid err) = PrepareTimeout h s tid"
| "sc_callback h s (CGetError tid err) = sc_GetTimeout h s tid"
| "sc_callback h s (CParallelCommitError tid err) = Inr (h, s)"

primrec sc_callbacks :: "heap \<Rightarrow> ShardClient \<Rightarrow> lrc_out list \<Rightarrow> ub + heap \<times> ShardClient" where
  "sc_callbacks h s [] = Inr (h, s)"
| "sc_callbacks h s (x # xs) = bindr (sc_callback h s x) (\<lambda>(h, s). sc_callbacks h s xs)"

fun sends :: "lrc_out list \<Rightarrow> (lrc_dest \<times> lr_msg) list" where
  "sends [] = []"
| "sends (CSend d m # xs) = (d, m) # sends xs"
| "sends (x # xs) = sends xs"

section \<open>The buffer\<close>

record BufferClient =
  bc_txnclient :: ShardClient
  bc_txn :: Transaction
  bc_tid :: "u64 option"

definition BufferClient_new :: "ShardClient \<Rightarrow> BufferClient" where
  "BufferClient_new s = \<lparr>bc_txnclient = s, bc_txn = Transaction_default, bc_tid = None\<rparr>"

definition bc_Begin :: "BufferClient \<Rightarrow> u64 \<Rightarrow> BufferClient" where
  "bc_Begin b tid = b\<lparr>bc_txn := Transaction_id tid, bc_tid := Some tid\<rparr>"

text \<open>
  \<^verbatim>\<open>Get\<close> up to the point where the caller starts to wait: a buffered write answers at once, a key
  that was read before is read again without another entry in the read set, and for a fresh key the
  entry is made when the reply is there (\<open>bc_read\<close>).
\<close>

datatype get_path = Buffered | Again | Fresh

definition bc_Get :: "heap \<Rightarrow> BufferClient \<Rightarrow> string \<Rightarrow> ptr \<Rightarrow> ub + heap \<times> sc_action list \<times> get_path" where
  "bc_Get h b key promise =
     (case map_of (txn_writeSet (bc_txn b)) key of
        Some v \<Rightarrow> bindr (load h promise) (\<lambda>p. Inr (h(promise \<mapsto> Reply_value p REPLY_OK v), [], Buffered))
      | None \<Rightarrow>
          bindr (rd (bc_tid b)) (\<lambda>tid.
            case map_of (txn_readSet (bc_txn b)) key of
              Some ts \<Rightarrow> Inr (h, [sc_Get_at tid key ts (Some promise)], Again)
            | None \<Rightarrow> Inr (h, [sc_Get tid key (Some promise)], Fresh)))"

definition bc_MultiGet :: "BufferClient \<Rightarrow> string list \<Rightarrow> ptr \<Rightarrow> ub + sc_action" where
  "bc_MultiGet b keys promise = bindr (rd (bc_tid b)) (\<lambda>tid. Inr (sc_MultiGet tid keys (Some promise)))"

definition bc_read :: "BufferClient \<Rightarrow> string list \<Rightarrow> Promise \<Rightarrow> BufferClient" where
  "bc_read b keys p =
     (if prm_reply p = REPLY_OK
      then b\<lparr>bc_txn := fold (\<lambda>k t. addReadSet t k (prm_timestamp p)) keys (bc_txn b)\<rparr> else b)"

definition bc_Put :: "BufferClient \<Rightarrow> string \<Rightarrow> string \<Rightarrow> BufferClient" where
  "bc_Put b key val = b\<lparr>bc_txn := addWriteSet (bc_txn b) key val\<rparr>"

definition bc_Prepare :: "BufferClient \<Rightarrow> Timestamp \<Rightarrow> ptr \<Rightarrow> ub + sc_action" where
  "bc_Prepare b timestamp promise =
     bindr (rd (bc_tid b)) (\<lambda>tid. Inr (sc_Prepare tid (bc_txn b) timestamp (Some promise)))"

definition bc_ParallelModeCommit :: "BufferClient \<Rightarrow> ptr \<Rightarrow> ub + sc_action" where
  "bc_ParallelModeCommit b promise =
     bindr (rd (bc_tid b)) (\<lambda>tid. Inr (sc_ParallelModeCommit tid (bc_txn b) (Some promise)))"

definition bc_lift :: "BufferClient \<Rightarrow> ub + ShardClient \<times> lrc_out list \<Rightarrow> ub + BufferClient \<times> lrc_out list" where
  "bc_lift b r = bindr r (\<lambda>(s, out). Inr (b\<lparr>bc_txnclient := s\<rparr>, out))"

definition bc_Commit :: "BufferClient \<Rightarrow> u64 \<Rightarrow> ub + BufferClient \<times> lrc_out list" where
  "bc_Commit b timestamp =
     bindr (rd (bc_tid b)) (\<lambda>tid. bc_lift b (sc_Commit (bc_txnclient b) tid (bc_txn b) timestamp))"

definition bc_Abort :: "BufferClient \<Rightarrow> ub + BufferClient \<times> lrc_out list" where
  "bc_Abort b =
     bindr (rd (bc_tid b)) (\<lambda>tid. bc_lift b (sc_Abort (bc_txnclient b) tid Transaction_default))"

definition SetParticipants :: "BufferClient \<Rightarrow> int list \<Rightarrow> BufferClient" where
  "SetParticipants b participants =
     b\<lparr>bc_txn := fold (\<lambda>p t. addParticipant t (word_of_int p)) participants (bc_txn b)\<rparr>"

definition SetPrimaryShard :: "BufferClient \<Rightarrow> int \<Rightarrow> BufferClient" where
  "SetPrimaryShard b shard = b\<lparr>bc_txn := setPrimaryShard (bc_txn b) shard\<rparr>"

definition bc_AddReadSet :: "BufferClient \<Rightarrow> string \<Rightarrow> Timestamp \<Rightarrow> BufferClient" where
  "bc_AddReadSet b key readTime = b\<lparr>bc_txn := addReadSet (bc_txn b) key readTime\<rparr>"

definition bc_AddWriteSet :: "BufferClient \<Rightarrow> string \<Rightarrow> string \<Rightarrow> BufferClient" where
  "bc_AddWriteSet b key val = b\<lparr>bc_txn := addWriteSet (bc_txn b) key val\<rparr>"

end
