(* ===== verification/Clocks.thy ===== *)
theory Clocks
  imports LockServer
begin

text \<open>
  src/store/common/truetime.cc: the simulated TrueTime clock. The value of \<^verbatim>\<open>gettimeofday\<close> and
  the random number of the constructor are arguments. A time is one 64-bit number, seconds in the
  upper and microseconds in the lower half.
\<close>

record TrueTime =
  tt_simError :: u64
  tt_simSkew :: u64

definition TrueTime_default :: TrueTime where
  "TrueTime_default = \<lparr>tt_simError = 0, tt_simSkew = 0\<rparr>"

definition TrueTime_new :: "u64 \<Rightarrow> u64 \<Rightarrow> u64 \<Rightarrow> TrueTime" where
  "TrueTime_new skew errorBound r =
     \<lparr>tt_simError = errorBound, tt_simSkew = (if skew = 0 then 0 else r mod skew - skew div 2)\<rparr>"

text \<open>
  \<^verbatim>\<open>now.tv_usec += simSkew\<close> adds in unsigned arithmetic and converts back to a signed 64-bit
  number.
\<close>

definition skewed :: "TrueTime \<Rightarrow> timeval \<Rightarrow> timeval" where
  "skewed tt now =
     (let usec = sint ((word_of_int (tv_usec now) :: u64) + tt_simSkew tt) in
      if usec > 999999 then \<lparr>tv_sec = tv_sec now + 1, tv_usec = usec - 1000000\<rparr>
      else if usec < 0 then \<lparr>tv_sec = tv_sec now - 1, tv_usec = usec + 1000000\<rparr>
      else \<lparr>tv_sec = tv_sec now, tv_usec = usec\<rparr>)"

definition encode_time :: "timeval \<Rightarrow> u64" where
  "encode_time t = or (push_bit 32 (word_of_int (tv_sec t))) (word_of_int (tv_usec t))"

definition GetTime :: "TrueTime \<Rightarrow> timeval \<Rightarrow> u64" where
  "GetTime tt now = encode_time (skewed tt now)"

definition GetTimeAndError :: "TrueTime \<Rightarrow> timeval \<Rightarrow> u64 \<times> u64" where
  "GetTimeAndError tt now = (GetTime tt now, tt_simError tt)"

section \<open>The time shown\<close>

abbreviation micros :: "timeval \<Rightarrow> int" where
  "micros t \<equiv> tv_sec t * 1000000 + tv_usec t"

definition normal_time :: "timeval \<Rightarrow> bool" where
  "normal_time t \<longleftrightarrow> 1 \<le> tv_sec t \<and> tv_sec t < 2 ^ 32 - 2 \<and> 0 \<le> tv_usec t \<and> tv_usec t < 1000000"

lemma skewed_micros:
  assumes t: "normal_time t" and sk: "\<bar>sint (tt_simSkew tt)\<bar> \<le> 1000000"
  shows "micros (skewed tt t) = micros t + sint (tt_simSkew tt) \<and>
    0 \<le> tv_usec (skewed tt t) \<and> tv_usec (skewed tt t) < 1000000 \<and>
    0 \<le> tv_sec (skewed tt t) \<and> tv_sec (skewed tt t) < 2 ^ 32"
proof -
  let ?d = "sint (tt_simSkew tt)"
  have "(word_of_int (tv_usec t) :: u64) + tt_simSkew tt = word_of_int (tv_usec t + ?d)" by simp
  moreover have "signed_take_bit 63 (tv_usec t + ?d) = tv_usec t + ?d"
    using t sk by (intro signed_take_bit_int_eq_self) (auto simp: normal_time_def)
  ultimately have "sint ((word_of_int (tv_usec t) :: u64) + tt_simSkew tt) = tv_usec t + ?d"
    by (simp only: signed_of_int) simp
  with t sk show ?thesis by (auto simp: skewed_def normal_time_def Let_def)
qed

lemma or_shifted:
  fixes s u :: int
  assumes "0 \<le> u" "u < 2 ^ 32"
  shows "or (push_bit 32 s) u = s * 2 ^ 32 + u"
proof -
  have u: "take_bit 32 u = u" using assms by (simp add: take_bit_int_eq_self)
  have "and (push_bit 32 s) u = 0"
  proof (rule bit_eqI)
    fix n
    show "bit (and (push_bit 32 s) u) n \<longleftrightarrow> bit 0 n"
      using bit_take_bit_iff [of 32 u n] by (auto simp: u bit_simps)
  qed
  from disjunctive_add_eq_or [OF this] show ?thesis by (simp add: push_bit_eq_mult)
qed

lemma encode_time_value:
  assumes "0 \<le> tv_sec t" "tv_sec t < 2 ^ 32" "0 \<le> tv_usec t" "tv_usec t < 1000000"
  shows "uint (encode_time t) = tv_sec t * 2 ^ 32 + tv_usec t"
proof -
  have s: "take_bit 64 (tv_sec t * 2 ^ 32) = tv_sec t * 2 ^ 32" "take_bit 64 (tv_usec t) = tv_usec t"
    "take_bit 64 (tv_sec t) = tv_sec t"
    using assms by (auto intro!: take_bit_int_eq_self)
  have "uint (push_bit 32 (word_of_int (tv_sec t) :: u64)) = push_bit 32 (tv_sec t)"
    using s(1,3) assms(1) by (simp add: push_bit_eq_mult uint_word_ariths unsigned_of_int take_bit_eq_mod)
  moreover have "uint (word_of_int (tv_usec t) :: u64) = tv_usec t"
    using s(2) by (simp add: unsigned_of_int assms)
  ultimately show ?thesis
    using assms or_shifted [of "tv_usec t" "tv_sec t"]
    by (simp add: encode_time_def unsigned_or_eq)
qed

lemma split_micros:
  fixes s u m :: int
  assumes "0 \<le> u" "u < m"
  shows "(s * m + u) div m = s" "(s * m + u) mod m = u"
  using assms by auto

lemma encoded_mono:
  fixes a b :: int
  assumes "a \<le> b"
  shows "a div 1000000 * 2 ^ 32 + a mod 1000000 \<le> b div 1000000 * 2 ^ 32 + b mod 1000000"
proof (cases "a div 1000000 = b div 1000000")
  case True
  moreover have "a mod 1000000 \<le> b mod 1000000"
    using assms True by (simp add: minus_div_mult_eq_mod [symmetric])
  ultimately show ?thesis by simp
next
  case False
  then have "a div 1000000 + 1 \<le> b div 1000000" using assms zdiv_mono1 [of a b 1000000] by simp
  then have "(a div 1000000 + 1) * 2 ^ 32 \<le> b div 1000000 * 2 ^ 32" by (rule mult_right_mono) simp
  moreover have "a mod 1000000 < 1000000" "0 \<le> b mod 1000000" by auto
  ultimately show ?thesis by (simp add: distrib_right)
qed

lemma GetTime_value:
  assumes "normal_time t" and "\<bar>sint (tt_simSkew tt)\<bar> \<le> 1000000"
  shows "uint (GetTime tt t) = (micros t + sint (tt_simSkew tt)) div 1000000 * 2 ^ 32 +
    (micros t + sint (tt_simSkew tt)) mod 1000000"
proof -
  let ?k = "skewed tt t"
  note k = skewed_micros [OF assms]
  have "(tv_sec ?k * 1000000 + tv_usec ?k) div 1000000 = tv_sec ?k"
    "(tv_sec ?k * 1000000 + tv_usec ?k) mod 1000000 = tv_usec ?k"
    using k split_micros [of "tv_usec ?k" 1000000 "tv_sec ?k"] by simp_all
  with k encode_time_value [of ?k] show ?thesis by (simp add: GetTime_def)
qed

section \<open>Properties\<close>

text \<open>C25. The simulated clock shows the skewed time of day and never runs backwards: with a skew of at
  most a second either way, its value is the number of whole seconds in the upper half and the
  microseconds in the lower half, and a later time of day gives a value that is not lower.\<close>

theorem truetime_monotone:
  assumes "normal_time t1" and "normal_time t2" and "\<bar>sint (tt_simSkew tt)\<bar> \<le> 1000000"
    and "micros t1 \<le> micros t2"
  shows "GetTime tt t1 \<le> GetTime tt t2 \<and> uint (and (GetTime tt t1) 0xffffffff) < 1000000 \<and>
    uint (drop_bit 32 (GetTime tt t1)) = (micros t1 + sint (tt_simSkew tt)) div 1000000"
proof -
  let ?a = "micros t1 + sint (tt_simSkew tt)" and ?b = "micros t2 + sint (tt_simSkew tt)"
  note v = GetTime_value [OF assms(1,3)] GetTime_value [OF assms(2,3)]
  have "?a div 1000000 * 2 ^ 32 + ?a mod 1000000 \<le> ?b div 1000000 * 2 ^ 32 + ?b mod 1000000"
    using assms(4) by (intro encoded_mono) simp
  then have "GetTime tt t1 \<le> GetTime tt t2" by (simp add: word_le_def v)
  moreover have "uint (and (GetTime tt t1) 0xffffffff) = ?a mod 1000000"
  proof -
    have "(0xffffffff :: u64) = mask 32" by (simp add: mask_eq_exp_minus_1)
    then have "uint (and (GetTime tt t1) 0xffffffff) = take_bit 32 (uint (GetTime tt t1))"
      by (simp only: take_bit_eq_mask [symmetric] unsigned_take_bit_eq)
    also have "\<dots> = ?a mod 1000000" by (simp add: v take_bit_eq_mod)
    finally show ?thesis .
  qed
  moreover have "uint (drop_bit 32 (GetTime tt t1)) = ?a div 1000000"
  proof -
    have "uint (drop_bit 32 (GetTime tt t1)) = drop_bit 32 (uint (GetTime tt t1))"
      using take_bit_int_eq_self [OF uint_ge_0, of "GetTime tt t1" 64] uint_lt2p [of "GetTime tt t1"]
      unfolding unsigned_drop_bit_eq by simp
    also have "\<dots> = ?a div 1000000"
      using split_micros(1) [of "?a mod 1000000" "2 ^ 32" "?a div 1000000"] pos_mod_bound [of 1000000 ?a]
      by (simp add: v drop_bit_eq_div)
    finally show ?thesis .
  qed
  ultimately show ?thesis by simp
qed

theorem truetime_monotone_witness:
  "GetTime (TrueTime_new 100 10 7) \<lparr>tv_sec = 1000, tv_usec = 3\<rparr> \<le> GetTime (TrueTime_new 100 10 7) \<lparr>tv_sec = 1000, tv_usec = 4\<rparr>"
proof -
  have "sint (tt_simSkew (TrueTime_new 100 10 7)) = - 43" by code_simp
  then have "\<bar>sint (tt_simSkew (TrueTime_new 100 10 7))\<bar> \<le> 1000000" by simp
  moreover have "normal_time \<lparr>tv_sec = 1000, tv_usec = 3\<rparr>" "normal_time \<lparr>tv_sec = 1000, tv_usec = 4\<rparr>"
    by (simp_all add: normal_time_def)
  ultimately show ?thesis using truetime_monotone by fastforce
qed

end
