(* ===== verification/TxnClients.thy ===== *)
theory TxnClients
  imports ShardClients Clocks
begin

text \<open>
  src/store/strongstore/client.cc and client.h, with the routing of keys in
  src/store/common/frontend/client.h: the transaction client. Two threads work on its objects. The
  application thread runs the operations and blocks on promises; where it is blocked is the member
  \<open>cl_app\<close>. The transport thread runs the work handed to it (\<open>cl_actions\<close>, in any order), handles
  messages and timeouts. A step of one of them is a value of \<open>cl_event\<close>; an operation of the
  application while it is blocked cannot occur and changes nothing.

  \<^item> The random client identifier, the clock values and the outcome of sends are arguments.
  \<^item> \<^verbatim>\<open>bclient\<close> is a vector whose storage is reserved and then written through
    \<^verbatim>\<open>operator[]\<close>; it is modelled as an array of \<^verbatim>\<open>nshards\<close> elements.
  \<^item> In TPC-C mode the shard of a key is computed from a member of the JSON text in the key; the JSON
    library is a parameter \<open>json\<close>: it parses a text and gives the numbers of its members by name, or an
    error.
  \<^item> The promise of a read lives on the stack of the operation, the one of a prepare on the heap until
    the reply has been read.
\<close>

definition GET_TIMEOUT :: int where "GET_TIMEOUT = 1000"
definition PUT_TIMEOUT :: int where "PUT_TIMEOUT = 250"
definition PREPARE_TIMEOUT :: int where "PREPARE_TIMEOUT = 1000"
definition COMMIT_RETRIES :: nat where "COMMIT_RETRIES = 5"
definition ware_per_shard :: u64 where "ware_per_shard = 10"

type_synonym json = "string \<Rightarrow> ub + (string \<Rightarrow> ub + u64)"

text \<open>The member that holds the warehouse of a row, by table; \<open>None\<close> for an unexpected table.\<close>

definition warehouse :: "json \<Rightarrow> string \<Rightarrow> string \<Rightarrow> ub + u64 option" where
  "warehouse parse table key =
     (if table = ''W'' then bindr (parse key) (\<lambda>doc. map_sum id Some (doc ''W_ID''))
      else if table = ''C'' then bindr (parse key) (\<lambda>doc. map_sum id Some (doc ''C_W_ID''))
      else if table = ''D'' then bindr (parse key) (\<lambda>doc. map_sum id Some (doc ''D_W_ID''))
      else if table = ''O'' then bindr (parse key) (\<lambda>doc. map_sum id Some (doc ''O_W_ID''))
      else if table = ''NO'' then bindr (parse key) (\<lambda>doc. map_sum id Some (doc ''NO_W_ID''))
      else if table = ''I'' then bindr (parse key) (\<lambda>doc. Inr (Some 1))
      else if table = ''S'' then bindr (parse key) (\<lambda>doc. map_sum id Some (doc ''S_W_ID''))
      else if table = ''OL'' then bindr (parse key) (\<lambda>doc. map_sum id Some (doc ''OL_W_ID''))
      else Inr None)"

definition client_key_to_shard :: "json \<Rightarrow> string \<Rightarrow> u64 \<Rightarrow> ub + u64" where
  "client_key_to_shard parse key nshards =
     (if nshards = 0 then
        if CHR ''{'' \<in> set key then
          bindr (warehouse parse (takeWhile (\<lambda>c. c \<noteq> CHR ''{'') key) (dropWhile (\<lambda>c. c \<noteq> CHR ''{'') key)) (\<lambda>w.
          bindr (rd w) (\<lambda>i. Inr ((i - 1) div ware_per_shard)))
        else Inr 0
      else Inr (key_hash key mod nshards))"

datatype app =
    Idle
  | InGet nat string ptr get_path
  | InMultiGet nat "string list" "(nat \<times> string list) list" ptr
  | InPrepare ptr nat
  | InCommitWait timeval u64 u64 nat

datatype api_result =
    RGet int string
  | RMultiGet int "string option"
  | RPut int
  | RCommit bool

record Client =
  cl_t_id :: u64
  cl_nshards :: int
  cl_nreplicas :: int
  cl_close_replica :: int
  cl_participants :: "int list"
  cl_mode :: Mode
  cl_tpcMode :: TpcMode
  cl_tpcc :: bool
  cl_json :: json
  cl_timeServer :: TrueTime
  cl_commit_sleep :: "int option"
  cl_v :: "int list"
  cl_bclient :: "BufferClient list"
  cl_heap :: heap
  cl_next :: ptr
  cl_actions :: "(nat \<times> sc_action) list"
  cl_app :: app
  cl_value :: "string option"
  cl_results :: "api_result list"
  cl_sent :: "(nat \<times> lrc_dest \<times> lr_msg) list"

text \<open>\<open>shards\<close> gives \<open>n\<close> and \<open>f\<close> of the configuration of each shard.\<close>

primrec make_bclients :: "TpcMode \<Rightarrow> u64 \<Rightarrow> int \<Rightarrow> int \<Rightarrow> (int \<times> int) list \<Rightarrow> ub + BufferClient list" where
  "make_bclients tpc cid closest i [] = Inr []"
| "make_bclients tpc cid closest i (c # cs) =
     bindr (ShardClient_new tpc (fst c) (snd c) cid i closest) (\<lambda>s.
     bindr (make_bclients tpc cid closest (i + 1) cs) (\<lambda>bs. Inr (BufferClient_new s # bs)))"

definition Client_new :: "Mode \<Rightarrow> TpcMode \<Rightarrow> (int \<times> int) list \<Rightarrow> int \<Rightarrow> int \<Rightarrow> TrueTime \<Rightarrow> bool \<Rightarrow>
    json \<Rightarrow> u64 \<Rightarrow> ub + Client" where
  "Client_new md tpc shards closest n tt tpcc jf client_id =
     bindr (make_bclients tpc client_id closest 0 shards) (\<lambda>bs.
       Inr \<lparr>cl_t_id = client_id div 10000 * 10000, cl_nshards = int (length shards), cl_nreplicas = n,
            cl_close_replica = closest, cl_participants = [], cl_mode = md, cl_tpcMode = tpc,
            cl_tpcc = tpcc, cl_json = jf, cl_timeServer = tt, cl_commit_sleep = None, cl_v = [],
            cl_bclient = bs, cl_heap = Map.empty, cl_next = 0, cl_actions = [], cl_app = Idle,
            cl_value = None, cl_results = [], cl_sent = []\<rparr>)"

section \<open>Access\<close>

definition bclient :: "Client \<Rightarrow> int \<Rightarrow> ub + nat \<times> BufferClient" where
  "bclient c i =
     (if 0 \<le> i \<and> nat i < length (cl_bclient c) then Inr (nat i, cl_bclient c ! nat i) else Inl OutOfBounds)"

definition put_bclient :: "Client \<Rightarrow> nat \<Rightarrow> BufferClient \<Rightarrow> Client" where
  "put_bclient c i b = c\<lparr>cl_bclient := (cl_bclient c)[i := b]\<rparr>"

definition add_action :: "Client \<Rightarrow> nat \<Rightarrow> sc_action \<Rightarrow> Client" where
  "add_action c i a = c\<lparr>cl_actions := cl_actions c @ [(i, a)]\<rparr>"

definition new_promise :: "Client \<Rightarrow> Promise \<Rightarrow> ptr \<times> Client" where
  "new_promise c p =
     (cl_next c, c\<lparr>cl_heap := (cl_heap c)(cl_next c \<mapsto> p), cl_next := cl_next c + 1\<rparr>)"

definition delete_promise :: "Client \<Rightarrow> ptr \<Rightarrow> Client" where
  "delete_promise c p = c\<lparr>cl_heap := (cl_heap c)(p := None)\<rparr>"

definition return :: "Client \<Rightarrow> api_result \<Rightarrow> Client" where
  "return c r = c\<lparr>cl_app := Idle, cl_results := cl_results c @ [r]\<rparr>"

definition shard_of_key :: "Client \<Rightarrow> string \<Rightarrow> ub + int" where
  "shard_of_key c key =
     map_sum id int32 (client_key_to_shard (cl_json c) key (if cl_tpcc c then 0 else word_of_int (cl_nshards c)))"

definition add_participant :: "Client \<Rightarrow> int \<Rightarrow> Client" where
  "add_participant c i =
     (if i \<in> set (cl_participants c) then c else c\<lparr>cl_participants := cl_participants c @ [i]\<rparr>)"

section \<open>Begin, reads and writes\<close>

definition cl_Begin :: "Client \<Rightarrow> Client" where
  "cl_Begin c =
     (let t = cl_t_id c + 1 in
      c\<lparr>cl_t_id := t, cl_participants := [], cl_commit_sleep := Some (- 1),
        cl_bclient := map (\<lambda>b. bc_Begin b t) (cl_bclient c), cl_v := []\<rparr>)"

definition cl_Get :: "Client \<Rightarrow> string \<Rightarrow> ub + Client" where
  "cl_Get c key =
     bindr (shard_of_key c key) (\<lambda>i.
       let c = add_participant c i; (p, c) = new_promise c (Promise_timeout GET_TIMEOUT) in
       bindr (bclient c i) (\<lambda>(j, b).
       bindr (bc_Get (cl_heap c) b key p) (\<lambda>(h, acts, path).
         Inr (fold (\<lambda>a c. add_action c j a) acts (c\<lparr>cl_heap := h, cl_app := InGet j key p path\<rparr>)))))"

definition resume_Get :: "Client \<Rightarrow> nat \<Rightarrow> string \<Rightarrow> ptr \<Rightarrow> get_path \<Rightarrow> ub + Client" where
  "resume_Get c j key p path =
     bindr (load (cl_heap c) p) (\<lambda>q.
       if \<not> prm_done q then Inr c
       else
         let c = (if path = Fresh then put_bclient c j (bc_read (cl_bclient c ! j) [key] q) else c)
         in Inr (return (delete_promise c p) (RGet (prm_reply q) (prm_value q))))"

primrec group_keys :: "Client \<Rightarrow> string list \<Rightarrow> (nat \<times> string list) list \<Rightarrow>
    ub + Client \<times> (nat \<times> string list) list" where
  "group_keys c [] g = Inr (c, g)"
| "group_keys c (k # ks) g =
     bindr (shard_of_key c k) (\<lambda>i.
       if 0 \<le> i \<and> nat i < length g
       then group_keys (add_participant c i) ks (g[nat i := (nat i, snd (g ! nat i) @ [k])])
       else Inl OutOfBounds)"

text \<open>
  The loop over the shards: \<open>multi_next\<close> goes to the next shard that has keys. At the end, and for an
  empty list of keys, the reply of the promise is waited for once more.
\<close>

fun multi_next :: "Client \<Rightarrow> ptr \<Rightarrow> (nat \<times> string list) list \<Rightarrow> ub + Client" where
  "multi_next c p [] = Inr (c\<lparr>cl_app := InMultiGet 0 [] [] p\<rparr>)"
| "multi_next c p ((j, keys) # g) =
     (if keys = [] then multi_next c p g
      else
        bindr (load (cl_heap c) p) (\<lambda>q.
        bindr (bclient c (int j)) (\<lambda>(j, b).
        bindr (bc_MultiGet b keys p) (\<lambda>a.
          Inr (add_action (c\<lparr>cl_heap := (cl_heap c)(p \<mapsto> Promise_Reset q),
                             cl_app := InMultiGet j keys g p\<rparr>) j a)))))"

definition cl_MultiGet :: "Client \<Rightarrow> string list \<Rightarrow> ub + Client" where
  "cl_MultiGet c keys =
     bindr (group_keys c keys (map (\<lambda>i. (i, [])) [0..<length (cl_bclient c)])) (\<lambda>(c, g).
       let (p, c) = new_promise c (Promise_timeout GET_TIMEOUT) in multi_next (c\<lparr>cl_value := None\<rparr>) p g)"

definition resume_MultiGet :: "Client \<Rightarrow> nat \<Rightarrow> string list \<Rightarrow> (nat \<times> string list) list \<Rightarrow> ptr \<Rightarrow> ub + Client" where
  "resume_MultiGet c j keys g p =
     bindr (load (cl_heap c) p) (\<lambda>q.
       if \<not> prm_done q then Inr c
       else if keys = [] then Inr (return (delete_promise c p) (RMultiGet (prm_reply q) (cl_value c)))
       else
         let c = put_bclient c j (bc_read (cl_bclient c ! j) keys q) in
         if prm_reply q = 1 then Inr (return (delete_promise c p) (RMultiGet (prm_reply q) (cl_value c)))
         else multi_next (c\<lparr>cl_value := Some (prm_value q)\<rparr>) p g)"

definition cl_Put :: "Client \<Rightarrow> string \<Rightarrow> string \<Rightarrow> ub + Client" where
  "cl_Put c key val =
     bindr (shard_of_key c key) (\<lambda>i.
       let c = add_participant c i in
       bindr (bclient c i) (\<lambda>(j, b).
         Inr (return (put_bclient c j (bc_Put b key val)) (RPut REPLY_OK))))"

section \<open>Commit\<close>

definition irem :: "int \<Rightarrow> int \<Rightarrow> ub + int" where
  "irem a b = (if b = 0 then Inl DivByZero else Inr (a smod b))"

text \<open>The last of \<open>ps\<close> whose leader is in the region of the client.\<close>

primrec close_shard :: "int \<Rightarrow> int \<Rightarrow> int list \<Rightarrow> int \<Rightarrow> ub + int" where
  "close_shard n close [] acc = Inr acc"
| "close_shard n close (p # ps) acc =
     bindr (irem p n) (\<lambda>r. close_shard n close ps (if r = close then p else acc))"

definition primary_shard :: "Client \<Rightarrow> ub + int \<times> bool" where
  "primary_shard c =
     (if cl_tpcMode c = MODE_SLOW \<or> cl_tpcMode c = MODE_RC then
        if cl_participants c = [] then Inl DivByZero
        else Inr (cl_participants c ! (unat (cl_t_id c) mod length (cl_participants c)), False)
      else if cl_tpcMode c = MODE_PARALLEL then
        bindr (close_shard (cl_nreplicas c) (cl_close_replica c) (cl_participants c) (- 1)) (\<lambda>ps.
          if ps = - 1 then
            bindr (close_shard (cl_nreplicas c) (cl_close_replica c) [0..cl_nshards c - 1] (- 1)) (\<lambda>ps. Inr (ps, True))
          else Inr (ps, False))
      else Inr (- 1, False))"

text \<open>Slow and RC mode: the primary shard gets the read and write sets of all participants.\<close>

primrec gather :: "Client \<Rightarrow> int \<Rightarrow> int list \<Rightarrow> ub + Client" where
  "gather c ps [] = Inr c"
| "gather c ps (p # qs) =
     bindr (bclient c p) (\<lambda>(i, b).
     bindr (bclient c ps) (\<lambda>(j, pb).
       let pb = fold (\<lambda>(k, ts) b. bc_AddReadSet b k ts) (txn_readSet (bc_txn b)) pb;
           pb = fold (\<lambda>(k, v) b. bc_AddWriteSet b k v) (txn_writeSet (bc_txn b)) pb
       in gather (put_bclient c j pb) ps qs))"

definition prepare_primary :: "Client \<Rightarrow> int \<Rightarrow> ptr \<Rightarrow> ub + Client" where
  "prepare_primary c ps p =
     bindr (bclient c ps) (\<lambda>(j, b).
     bindr (gather (put_bclient c j (SetParticipants b (cl_participants c))) ps (cl_participants c)) (\<lambda>c.
       let b = SetPrimaryShard (cl_bclient c ! j) ps in
       bindr (bc_Prepare b Timestamp_default p) (\<lambda>a. Inr (add_action (put_bclient c j b) j a))))"

text \<open>Fast, parallel and Carousel mode: one request per participant.\<close>

primrec prepare_each :: "Client \<Rightarrow> int \<Rightarrow> ptr \<Rightarrow> int list \<Rightarrow> ub + Client" where
  "prepare_each c ps p [] = Inr c"
| "prepare_each c ps p (q # qs) =
     bindr (bclient c q) (\<lambda>(j, b).
       let b = SetPrimaryShard (SetParticipants b (cl_participants c)) ps in
       bindr (bc_Prepare b Timestamp_default p) (\<lambda>a.
       bindr (if q = ps then map_sum id (\<lambda>x. [x]) (bc_ParallelModeCommit b p) else Inr []) (\<lambda>as.
         prepare_each (fold (\<lambda>a c. add_action c j a) (a # as) (put_bclient c j b)) ps p qs)))"

definition prepare_nonparticipant :: "Client \<Rightarrow> int \<Rightarrow> ptr \<Rightarrow> ub + Client" where
  "prepare_nonparticipant c ps p =
     bindr (bclient c ps) (\<lambda>(j, b).
       let b = SetParticipants b (cl_participants c) in
       bindr (bc_ParallelModeCommit b p) (\<lambda>a. Inr (add_action (put_bclient c j b) j a)))"

text \<open>
  \<^verbatim>\<open>Prepare\<close> up to the point where it waits; \<open>None\<close> means that it returns 0 at once, there being no
  participants (the promise is then leaked).
\<close>

definition cl_Prepare :: "Client \<Rightarrow> ub + Client \<times> ptr option" where
  "cl_Prepare c =
     bindr (primary_shard c) (\<lambda>(ps, notParticipant).
       let (p, c) = new_promise c (Promise_prepare (cl_t_id c) (cl_participants c) PREPARE_TIMEOUT) in
       if cl_tpcMode c = MODE_SLOW \<or> cl_tpcMode c = MODE_RC
       then bindr (prepare_primary c ps p) (\<lambda>c. Inr (c, Some p))
       else if cl_participants c = [] then Inr (c, None)
       else
         bindr (prepare_each c ps p (cl_participants c)) (\<lambda>c.
         bindr (if notParticipant \<and> cl_tpcMode c = MODE_PARALLEL then prepare_nonparticipant c ps p else Inr c)
           (\<lambda>c. Inr (c, Some p))))"

text \<open>Sending the decision to the participants.\<close>

primrec send_decision :: "(BufferClient \<Rightarrow> ub + BufferClient \<times> lrc_out list) \<Rightarrow> Client \<Rightarrow> int list \<Rightarrow> ub + Client" where
  "send_decision f c [] = Inr c"
| "send_decision f c (p # ps) =
     bindr (bclient c p) (\<lambda>(j, b).
     bindr (f b) (\<lambda>(b, out).
       send_decision f ((put_bclient c j b)\<lparr>cl_sent := cl_sent c @ map (\<lambda>m. (j, m)) (sends out)\<rparr>) ps))"

definition cl_Abort :: "Client \<Rightarrow> ub + Client" where
  "cl_Abort c = send_decision bc_Abort c (cl_participants c)"

definition finish_commit :: "Client \<Rightarrow> u64 \<Rightarrow> nat \<Rightarrow> ub + Client" where
  "finish_commit c ts retry =
     bindr (send_decision (\<lambda>b. bc_Commit b ts) c (cl_participants c)) (\<lambda>c.
       Inr (return (c\<lparr>cl_v := cl_v c @ [int retry]\<rparr>) (RCommit True)))"

definition finish_abort :: "Client \<Rightarrow> nat \<Rightarrow> ub + Client" where
  "finish_abort c retry =
     bindr (cl_Abort c) (\<lambda>c. Inr (return (c\<lparr>cl_v := cl_v c @ [int retry]\<rparr>) (RCommit False)))"

text \<open>The commit wait of the Spanner modes: the timestamp and the time to wait in microseconds.\<close>

definition commit_wait :: "u64 \<Rightarrow> u64 \<Rightarrow> u64 \<Rightarrow> u64 \<times> u64" where
  "commit_wait ts now err =
     (if now > ts then (now, err)
      else (ts, err + ((drop_bit 32 ts - drop_bit 32 now) * 1000000 +
                       (and ts 0xffffffff - and now 0xffffffff))))"

definition decide :: "Client \<Rightarrow> timeval \<Rightarrow> timeval \<Rightarrow> int \<Rightarrow> u64 \<Rightarrow> nat \<Rightarrow> ub + Client" where
  "decide c t1 tnow status ts retry =
     (if status = REPLY_OK then
        if cl_mode c = MODE_SPAN_OCC \<or> cl_mode c = MODE_SPAN_LOCK then
          let (now, err) = GetTimeAndError (cl_timeServer c) tnow; (ts, err) = commit_wait ts now err
          in Inr (c\<lparr>cl_commit_sleep := Some (int32 err), cl_app := InCommitWait t1 err ts retry\<rparr>)
        else finish_commit c ts retry
      else finish_abort c retry)"

definition try_prepare :: "Client \<Rightarrow> timeval \<Rightarrow> timeval \<Rightarrow> nat \<Rightarrow> ub + Client" where
  "try_prepare c t1 tnow retry =
     bindr (cl_Prepare c) (\<lambda>(c, po).
       case po of
         None \<Rightarrow> decide c t1 tnow 0 0 retry
       | Some p \<Rightarrow> Inr (c\<lparr>cl_app := InPrepare p retry\<rparr>))"

definition cl_Commit :: "Client \<Rightarrow> timeval \<Rightarrow> timeval \<Rightarrow> ub + Client" where
  "cl_Commit c t1 tnow = try_prepare c t1 tnow 0"

definition resume_Prepare :: "Client \<Rightarrow> timeval \<Rightarrow> timeval \<Rightarrow> ptr \<Rightarrow> nat \<Rightarrow> ub + Client" where
  "resume_Prepare c t1 tnow p retry =
     bindr (load (cl_heap c) p) (\<lambda>q.
       case GetPrepareReply q of
         None \<Rightarrow> Inr c
       | Some status \<Rightarrow>
           let ts = getTimestamp (prm_timestamp q); c = delete_promise c p in
           if status = REPLY_OK \<or> status = REPLY_ABORT \<or> status = REPLY_FAIL
           then decide c t1 tnow status ts retry
           else if retry + 1 < COMMIT_RETRIES then try_prepare c t1 tnow (retry + 1)
           else decide c t1 tnow status ts (retry + 1))"

definition resume_CommitWait :: "Client \<Rightarrow> timeval \<Rightarrow> timeval \<Rightarrow> u64 \<Rightarrow> u64 \<Rightarrow> nat \<Rightarrow> ub + Client" where
  "resume_CommitWait c t2 t1 err ts retry =
     (if (tv_sec t2 - tv_sec t1) * 1000000 + (tv_usec t2 - tv_usec t1) > sint err
      then finish_commit c ts retry else Inr c)"

section \<open>The two threads\<close>

datatype cl_event =
    ABegin
  | AGet string
  | AMultiGet "string list"
  | APut string string
  | ACommit timeval timeval
  | AAbort
  | AResume timeval timeval
  | TRun nat bool
  | TMessage nat lrc_msg
  | TTimer nat lrc_timer

definition cl_resume :: "Client \<Rightarrow> timeval \<Rightarrow> timeval \<Rightarrow> ub + Client" where
  "cl_resume c t1 tnow =
     (case cl_app c of
        Idle \<Rightarrow> Inr c
      | InGet j key p path \<Rightarrow> resume_Get c j key p path
      | InMultiGet j keys g p \<Rightarrow> resume_MultiGet c j keys g p
      | InPrepare p retry \<Rightarrow> resume_Prepare c t1 tnow p retry
      | InCommitWait t0 err ts retry \<Rightarrow> resume_CommitWait c tnow t0 err ts retry)"

text \<open>The transport thread works on the client of shard \<open>j\<close>.\<close>

definition on_shard :: "Client \<Rightarrow> nat \<Rightarrow> (ShardClient \<Rightarrow> ub + ShardClient \<times> lrc_out list) \<Rightarrow> ub + Client" where
  "on_shard c j f =
     (if j < length (cl_bclient c) then
        bindr (f (bc_txnclient (cl_bclient c ! j))) (\<lambda>(s, out).
        bindr (sc_callbacks (cl_heap c) s out) (\<lambda>(h, s).
          Inr ((put_bclient c j ((cl_bclient c ! j)\<lparr>bc_txnclient := s\<rparr>))
                 \<lparr>cl_heap := h, cl_sent := cl_sent c @ map (\<lambda>m. (j, m)) (sends out)\<rparr>)))
      else Inr c)"

definition run_deferred :: "Client \<Rightarrow> nat \<Rightarrow> bool \<Rightarrow> ub + Client" where
  "run_deferred c k ok =
     (if k < length (cl_actions c) then
        let (j, a) = cl_actions c ! k;
            c = c\<lparr>cl_actions := take k (cl_actions c) @ drop (Suc k) (cl_actions c)\<rparr>
        in on_shard c j (\<lambda>s. run_action ok s a)
      else Inr c)"

definition app_event :: "Client \<Rightarrow> (Client \<Rightarrow> ub + Client) \<Rightarrow> ub + Client" where
  "app_event c f = (if cl_app c = Idle then f c else Inr c)"

fun cl_step :: "Client \<Rightarrow> cl_event \<Rightarrow> ub + Client" where
  "cl_step c ABegin = app_event c (\<lambda>c. Inr (cl_Begin c))"
| "cl_step c (AGet key) = app_event c (\<lambda>c. cl_Get c key)"
| "cl_step c (AMultiGet keys) = app_event c (\<lambda>c. cl_MultiGet c keys)"
| "cl_step c (APut key val) = app_event c (\<lambda>c. cl_Put c key val)"
| "cl_step c (ACommit t1 tnow) = app_event c (\<lambda>c. cl_Commit c t1 tnow)"
| "cl_step c AAbort = app_event c cl_Abort"
| "cl_step c (AResume t1 tnow) = cl_resume c t1 tnow"
| "cl_step c (TRun k ok) = run_deferred c k ok"
| "cl_step c (TMessage j m) = on_shard c j (\<lambda>s. sc_lift s (lrc_ReceiveMessage (sc_client s) m))"
| "cl_step c (TTimer j t) = on_shard c j (\<lambda>s. sc_lift s (lrc_fire (sc_client s) t))"

primrec cl_run :: "cl_event list \<Rightarrow> Client \<Rightarrow> ub + Client" where
  "cl_run [] c = Inr c"
| "cl_run (e # es) c = bindr (cl_step c e) (cl_run es)"

end
