(* ===== verification/ClientFast.thy ===== *)
theory ClientFast
  imports TxnClients
begin

text \<open>
  The transaction client in fast mode, over all interleavings of the application thread and the
  transport thread: what the client has received when it decides to commit.
\<close>

section \<open>Effects of continuations\<close>

lemma load_Inr [simp]: "load h p = Inr q \<longleftrightarrow> h p = Some q"
  by (simp add: load_def split: option.split)

fun get_continuation :: "lrc_out \<Rightarrow> bool" where
  "get_continuation (CGetCallback ks vs st) = True"
| "get_continuation (CGetError tid err) = True"
| "get_continuation x = False"

text \<open>A continuation does nothing or replies to the promise its shard waits for. It keeps the identity of
  the promise; as that of a read has no transaction identifier, only a read continuation replies to
  it.\<close>

definition callback_effect :: "bool \<Rightarrow> heap \<Rightarrow> ShardClient \<Rightarrow> heap \<Rightarrow> ShardClient \<Rightarrow> bool" where
  "callback_effect g h s h' s' \<longleftrightarrow> (h' = h \<and> s' = s) \<or>
     (\<exists>w q q'. sc_waiting s = Some w \<and> h w = Some q \<and> h' = h(w \<mapsto> q') \<and>
        (s' = s \<or> s' = s\<lparr>sc_waiting := None\<rparr>) \<and> prm_tid q' = prm_tid q \<and> (g \<or> prm_tid q \<noteq> None))"

lemma callback_effectI:
  "sc_waiting s = Some w \<Longrightarrow> h w = Some q \<Longrightarrow> s' = s \<or> s' = s\<lparr>sc_waiting := None\<rparr> \<Longrightarrow>
   prm_tid q' = prm_tid q \<Longrightarrow> g \<or> prm_tid q \<noteq> None \<Longrightarrow> callback_effect g h s (h(w \<mapsto> q')) s'"
  by (auto simp: callback_effect_def)

lemma callback_effect_same [simp]: "callback_effect g h s h s"
  by (simp add: callback_effect_def)

lemma Reply_shard_frame:
  "Reply_shard p s r t = Inr p' \<Longrightarrow> prm_tid p' = prm_tid p \<and> prm_participantNumber p' = prm_participantNumber p \<and>
     prm_reachFinalDecision p' = prm_reachFinalDecision p"
  by (auto simp: Reply_shard_def Let_def bindr_eq_Inr reply_defs split: if_splits)

lemma sc_callback_effect:
  assumes "sc_callback h s x = Inr (h', s')"
  shows "callback_effect (get_continuation x) h s h' s'"
proof (cases "sc_waiting s")
  case None
  with assms show ?thesis
    by (cases x) (auto simp: PrepareCallback_def GetCallback_def ParallelModeCommitCallback_def PrepareTimeout_def
        sc_GetTimeout_def)
next
  case (Some w)
  show ?thesis
  proof (cases "\<exists>ks vs st. x = CGetCallback ks vs st")
    case True
    then obtain ks vs st where x: "x = CGetCallback ks vs st" by blast
    with assms Some show ?thesis
      by (cases vs; cases ks)
        (auto simp: GetCallback_def bindr_eq_Inr reply_defs intro!: callback_effectI)
  next
    case False
    with assms Some show ?thesis
      by (cases x) (auto simp: PrepareCallback_def ParallelModeCommitCallback_def PrepareTimeout_def GetTid_def
          sc_GetTimeout_def bindr_eq_Inr reply_defs intro!: callback_effectI dest: Reply_shard_frame split: if_splits)
  qed
qed

section \<open>The invariant\<close>

abbreviation shard_client :: "Client \<Rightarrow> nat \<Rightarrow> ShardClient" where
  "shard_client c j \<equiv> bc_txnclient (cl_bclient c ! j)"

fun act_ptr :: "sc_action \<Rightarrow> ptr option" where
  "act_ptr (AGetData i keys p) = p"
| "act_ptr (APrepare txn p) = p"
| "act_ptr (AParallelCommit i txn p) = p"

fun is_get :: "sc_action \<Rightarrow> bool" where
  "is_get (AGetData i keys p) = True"
| "is_get a = False"

fun is_parallel :: "sc_action \<Rightarrow> bool" where
  "is_parallel (AParallelCommit i txn p) = True"
| "is_parallel a = False"

definition fast_setup :: "Client \<Rightarrow> bool" where
  "fast_setup c \<longleftrightarrow> cl_tpcMode c = MODE_FAST \<and> length (cl_bclient c) < 2 ^ 31 \<and>
     (\<forall>j < length (cl_bclient c). sc_tpcMode (shard_client c j) = MODE_FAST \<and>
        lc_tpcMode (sc_client (shard_client c j)) = MODE_FAST \<and>
        lc_pendingParallelCommits (sc_client (shard_client c j)) = Map.empty) \<and>
     (\<forall>x \<in> set (cl_actions c). \<not> is_parallel (snd x))"

definition parts_ok :: "Client \<Rightarrow> bool" where
  "parts_ok c \<longleftrightarrow> distinct (cl_participants c) \<and> set (cl_participants c) \<subseteq> {0..<int (length (cl_bclient c))}"

definition fresh :: "Client \<Rightarrow> bool" where
  "fresh c \<longleftrightarrow> (\<forall>x \<in> set (cl_actions c). \<forall>p. act_ptr (snd x) = Some p \<longrightarrow> p < cl_next c) \<and>
     (\<forall>j < length (cl_bclient c). \<forall>p. sc_waiting (shard_client c j) = Some p \<longrightarrow> p < cl_next c) \<and>
     dom (cl_heap c) \<subseteq> {..<cl_next c}"

definition get_actions :: "Client \<Rightarrow> (nat \<times> sc_action) list" where
  "get_actions c = filter (\<lambda>x. is_get (snd x)) (cl_actions c)"

definition pending_gets :: "Client \<Rightarrow> (nat \<times> u64) set" where
  "pending_gets c = {(j, tid). j < length (cl_bclient c) \<and>
     (\<exists>g. lc_pendingReqs (sc_client (shard_client c j)) tid = Some (ReqGetData g))}"

definition no_gets :: "Client \<Rightarrow> bool" where
  "no_gets c \<longleftrightarrow> get_actions c = [] \<and> pending_gets c = {}"

definition one_get :: "Client \<Rightarrow> bool" where
  "one_get c \<longleftrightarrow> no_gets c \<or> (length (get_actions c) = 1 \<and> pending_gets c = {}) \<or>
     (get_actions c = [] \<and> (\<exists>x. pending_gets c = {x}))"

fun read_promise :: "app \<Rightarrow> ptr option" where
  "read_promise (InGet j key p path) = Some p"
| "read_promise (InMultiGet j keys g p) = Some p"
| "read_promise a = None"

definition gets_ok :: "Client \<Rightarrow> bool" where
  "gets_ok c \<longleftrightarrow> one_get c \<and>
     (case read_promise (cl_app c) of
        None \<Rightarrow> no_gets c
      | Some p \<Rightarrow> \<exists>q. cl_heap c p = Some q \<and> prm_tid q = None \<and> (prm_done q \<longrightarrow> no_gets c))"

text \<open>The votes among the messages delivered so far: shard, and reply of a replica.\<close>

definition shard_voted :: "(nat \<times> PrepareTransactionReply) set \<Rightarrow> u64 \<Rightarrow> int \<Rightarrow> bool" where
  "shard_voted H tid q \<longleftrightarrow> (\<exists>m. (nat q, m) \<in> H \<and> pr_tid m = tid \<and> pr_state m = LOG_STATE_PREPAREOK)"

definition all_voted :: "(nat \<times> PrepareTransactionReply) set \<Rightarrow> Client \<Rightarrow> bool" where
  "all_voted H c \<longleftrightarrow> (\<forall>q \<in> set (cl_participants c). shard_voted H (cl_t_id c) q)"

definition promise_ok :: "(nat \<times> PrepareTransactionReply) set \<Rightarrow> u64 \<Rightarrow> int list \<Rightarrow> Promise \<Rightarrow> bool" where
  "promise_ok H tid ps q \<longleftrightarrow> prm_tid q = Some tid \<and> prm_participantNumber q = Some (int (length ps)) \<and>
     \<not> prm_reachFinalDecision q \<and> (prm_fail q \<longrightarrow> prm_reply q \<noteq> REPLY_OK) \<and>
     distinct (map fst (prm_preparereplies q)) \<and> fst ` set (prm_preparereplies q) \<subseteq> set ps \<and>
     (\<forall>s \<in> fst ` set (prm_preparereplies q). shard_voted H tid s) \<and>
     (prm_done q \<and> \<not> prm_fail q \<longrightarrow> length ps \<le> length (prm_preparereplies q))"

definition prepare_ok :: "(nat \<times> PrepareTransactionReply) set \<Rightarrow> Client \<Rightarrow> ptr \<Rightarrow> bool" where
  "prepare_ok H c p \<longleftrightarrow> (\<exists>q. cl_heap c p = Some q \<and> promise_ok H (cl_t_id c) (cl_participants c) q) \<and>
     (\<forall>x \<in> set (cl_actions c). act_ptr (snd x) = Some p \<longrightarrow> int (fst x) \<in> set (cl_participants c)) \<and>
     (\<forall>j < length (cl_bclient c). sc_waiting (shard_client c j) = Some p \<longrightarrow> int j \<in> set (cl_participants c))"

definition cl_inv :: "(nat \<times> PrepareTransactionReply) set \<Rightarrow> Client \<Rightarrow> bool" where
  "cl_inv H c \<longleftrightarrow> fast_setup c \<and> parts_ok c \<and> fresh c \<and> gets_ok c \<and>
     (case cl_app c of
        InPrepare p retry \<Rightarrow> prepare_ok H c p
      | InCommitWait t1 err ts retry \<Rightarrow> all_voted H c
      | _ \<Rightarrow> True)"

section \<open>Monotonicity and small facts\<close>

lemma shard_voted_mono: "shard_voted H tid q \<Longrightarrow> H \<subseteq> H' \<Longrightarrow> shard_voted H' tid q"
  unfolding shard_voted_def by blast

lemma promise_ok_mono: "promise_ok H tid ps q \<Longrightarrow> H \<subseteq> H' \<Longrightarrow> promise_ok H' tid ps q"
  unfolding promise_ok_def using shard_voted_mono by blast

lemma cl_inv_mono: "cl_inv H c \<Longrightarrow> H \<subseteq> H' \<Longrightarrow> cl_inv H' c"
  unfolding cl_inv_def prepare_ok_def all_voted_def using promise_ok_mono shard_voted_mono
  by (auto split: app.splits)

lemma promise_ok_Reply:
  assumes ok: "promise_ok H tid ps q" and ps: "length ps < 2 ^ 31" "distinct ps"
    and r: "Reply_shard q s r t = Inr q'" "r = REPLY_OK \<Longrightarrow> s \<in> set ps \<and> shard_voted H tid s"
  shows "promise_ok H tid ps q'"
proof (cases "r = REPLY_OK")
  case False
  then have "q' = q\<lparr>prm_fail := True, prm_done := True, prm_reply := r\<rparr>"
    using r(1) by (simp add: Reply_shard_def reply_defs)
  with ok False show ?thesis by (simp add: promise_ok_def)
next
  case True
  let ?m = "AList.update s r (prm_preparereplies q)"
  let ?q = "q\<lparr>prm_preparereplies := ?m, prm_timestamp := (if prm_timestamp q < t then t else prm_timestamp q)\<rparr>"
  have m: "distinct (map fst ?m)" "fst ` set ?m \<subseteq> set ps" "\<forall>x \<in> fst ` set ?m. shard_voted H tid x"
    using ok r(2) True by (auto simp: promise_ok_def distinct_update keys_update)
  have "length ?m \<le> length ps"
    using length_distinct_keys [OF m(1)] card_mono [OF _ m(2)] distinct_card [OF ps(2)] by simp
  then have "(of_nat (length ?m) :: u64) = word_of_int (int (length ps)) \<longleftrightarrow> length ?m = length ps"
    using ps(1) by (intro of_nat_eq_u64) auto
  then have q': "q' = (if length ?m = length ps then ?q\<lparr>prm_done := True\<rparr> else ?q)"
    using r(1) True ok by (auto simp: Reply_shard_def promise_ok_def Let_def)
  have "length (prm_preparereplies q) \<le> length ?m" by (simp add: length_update)
  with ok m show ?thesis by (simp add: q' promise_ok_def) linarith
qed

lemma prepare_reply_all_voted:
  assumes "promise_ok H tid ps q" "distinct ps" "GetPrepareReply q = Some REPLY_OK"
  shows "\<forall>x \<in> set ps. shard_voted H tid x"
proof -
  have "\<not> prm_fail q" "prm_done q"
    using assms by (auto simp: promise_ok_def GetPrepareReply_def split: if_splits)
  with assms have k: "length ps \<le> length (prm_preparereplies q)" "fst ` set (prm_preparereplies q) \<subseteq> set ps"
    "distinct (map fst (prm_preparereplies q))"
    by (auto simp: promise_ok_def)
  have "card (set ps) \<le> card (fst ` set (prm_preparereplies q))"
    using k length_distinct_keys [OF k(3)] distinct_card [OF assms(2)] by simp
  with k(2) have "fst ` set (prm_preparereplies q) = set ps" by (intro card_seteq) auto
  with assms(1) show ?thesis by (simp add: promise_ok_def)
qed

section \<open>The transport thread\<close>

definition upd_shard :: "Client \<Rightarrow> nat \<Rightarrow> ShardClient \<Rightarrow> heap \<Rightarrow> (nat \<times> lrc_dest \<times> lr_msg) list \<Rightarrow> Client" where
  "upd_shard c j s h out = (put_bclient c j ((cl_bclient c ! j)\<lparr>bc_txnclient := s\<rparr>))
     \<lparr>cl_heap := h, cl_sent := cl_sent c @ out\<rparr>"

lemma upd_shard_simps [simp]:
  "length (cl_bclient (upd_shard c j s h out)) = length (cl_bclient c)"
  "cl_tpcMode (upd_shard c j s h out) = cl_tpcMode c" "cl_actions (upd_shard c j s h out) = cl_actions c"
  "cl_participants (upd_shard c j s h out) = cl_participants c" "cl_next (upd_shard c j s h out) = cl_next c"
  "cl_heap (upd_shard c j s h out) = h" "cl_app (upd_shard c j s h out) = cl_app c"
  "cl_t_id (upd_shard c j s h out) = cl_t_id c" "cl_results (upd_shard c j s h out) = cl_results c"
  by (simp_all add: upd_shard_def put_bclient_def)

lemma shard_client_upd [simp]:
  "j < length (cl_bclient c) \<Longrightarrow>
   shard_client (upd_shard c j s h out) k = (if k = j then s else shard_client c k)"
  by (simp add: upd_shard_def put_bclient_def nth_list_update)

lemma on_shard_Inr:
  "on_shard c j f = Inr c' \<longleftrightarrow> (\<not> j < length (cl_bclient c) \<and> c' = c) \<or>
     (j < length (cl_bclient c) \<and> (\<exists>s out h s'. f (shard_client c j) = Inr (s, out) \<and>
        sc_callbacks (cl_heap c) s out = Inr (h, s') \<and> c' = upd_shard c j s' h (map (\<lambda>m. (j, m)) (sends out))))"
  by (auto simp: on_shard_def upd_shard_def bindr_eq_Inr)

definition gets :: "LRClient \<Rightarrow> u64 set" where
  "gets s = {tid. \<exists>g. lc_pendingReqs s tid = Some (ReqGetData g)}"

lemma pending_gets_alt: "pending_gets c = (SIGMA j:{..<length (cl_bclient c)}. gets (sc_client (shard_client c j)))"
  by (auto simp: pending_gets_def gets_def)

text \<open>What a message or a timer does to the client of a shard in fast mode.\<close>

fun vote_callback :: "(nat \<times> PrepareTransactionReply) set \<Rightarrow> nat \<Rightarrow> lrc_out \<Rightarrow> bool" where
  "vote_callback H j (CPrepareCallback tid shard st ts) \<longleftrightarrow> int32 shard = int j \<and>
     (st = REPLY_OK \<longrightarrow> shard_voted H tid (int j))"
| "vote_callback H j (CPrepareError tid err) \<longleftrightarrow> True"
| "vote_callback H j x \<longleftrightarrow> False"

definition fast_effect :: "(nat \<times> PrepareTransactionReply) set \<Rightarrow> nat \<Rightarrow> LRClient \<Rightarrow> LRClient \<Rightarrow> lrc_out list \<Rightarrow> bool" where
  "fast_effect H j s s' out \<longleftrightarrow> lc_tpcMode s' = lc_tpcMode s \<and>
     lc_pendingParallelCommits s' = lc_pendingParallelCommits s \<and> gets s' \<subseteq> gets s \<and>
     (out = [] \<or> (\<exists>x. out = [x] \<and>
        (if get_continuation x then \<exists>tid. tid \<in> gets s \<and> gets s' = gets s - {tid} else vote_callback H j x)))"

lemma fast_effectI:
  assumes "lc_tpcMode s' = lc_tpcMode s" "lc_pendingParallelCommits s' = lc_pendingParallelCommits s"
    and "lc_pendingReqs s' = (lc_pendingReqs s)(tid := None)"
  shows "fast_effect H j s s' []"
    and "lc_pendingReqs s tid = Some (ReqGetData g) \<Longrightarrow> get_continuation x \<Longrightarrow> fast_effect H j s s' [x]"
    and "\<not> get_continuation x \<Longrightarrow> vote_callback H j x \<Longrightarrow> fast_effect H j s s' [x]"
proof -
  have "gets s' = gets s - {tid}" using assms(3) by (auto simp: gets_def)
  with assms(1,2) show "fast_effect H j s s' []"
    and "lc_pendingReqs s tid = Some (ReqGetData g) \<Longrightarrow> get_continuation x \<Longrightarrow> fast_effect H j s s' [x]"
    and "\<not> get_continuation x \<Longrightarrow> vote_callback H j x \<Longrightarrow> fast_effect H j s s' [x]"
    by (auto simp: fast_effect_def) (auto simp: gets_def)
qed

lemma fast_effect_same [simp]: "fast_effect H j s s []"
  by (simp add: fast_effect_def)

lemma fast_receive:
  assumes "lc_tpcMode s = MODE_FAST" "lc_pendingParallelCommits s = Map.empty"
    and "lrc_ReceiveMessage s m = Inr (s', out)"
    and "\<And>pm. m = MPrepareReply pm \<Longrightarrow> (j, pm) \<in> H \<and> int32 (pr_shard pm) = int j"
  shows "fast_effect H j s s' out"
proof (cases m)
  case (MPrepareReply pm)
  have "shard_voted H (pr_tid pm) (int j)" if "pr_state pm = LOG_STATE_PREPAREOK"
    using assms(4) [OF MPrepareReply] that by (auto simp: shard_voted_def)
  with assms MPrepareReply assms(4) [OF MPrepareReply] show ?thesis
    by (auto simp: HandlePrepareTxnReply_def prepare_reply_step_def Let_def bindr_eq_Inr lrc_map_defs
        intro!: fast_effectI(1,3) [where tid = "pr_tid pm"] split: option.splits PendingRequest.splits if_splits)
next
  case (MGetDataReply g)
  with assms show ?thesis
    by (auto simp: HandleGetDataReply_def Let_def lrc_map_defs
        intro!: fast_effectI(2) [where tid = "gd_tid g"] split: option.splits PendingRequest.splits)
next
  case (MParallelModeCommitReply tid st ts)
  with assms show ?thesis
    by (auto simp: HandleParallelModeCommitReply_def)
qed

lemma fast_fire:
  assumes "lc_pendingParallelCommits s = Map.empty" and "lrc_fire s t = Inr (s', out)"
  shows "fast_effect H j s s' out"
proof (cases t)
  case (TPrepare tid)
  with assms show ?thesis
    by (auto simp: lrc_fire_def PrepareTimeoutCallback_def lrc_map_defs
        intro!: fast_effectI(1,3) [where tid = tid] split: option.splits PendingRequest.splits if_splits)
next
  case (TGetData tid)
  with assms show ?thesis
    by (auto simp: lrc_fire_def GetDateTimeoutCallback_def lrc_map_defs
        intro!: fast_effectI(1,2) [where tid = tid] split: option.splits PendingRequest.splits if_splits)
next
  case (TParallelCommit tid)
  with assms show ?thesis
    by (auto simp: lrc_fire_def ParallelModeCommit_timeout_def split: if_splits)
qed

lemma one_get_pending: "one_get c \<Longrightarrow> x \<in> pending_gets c \<Longrightarrow> get_actions c = [] \<and> pending_gets c = {x}"
  by (auto simp: one_get_def no_gets_def)

lemma one_get_subset:
  assumes "one_get c" "get_actions c' = get_actions c" "pending_gets c' \<subseteq> pending_gets c"
  shows "one_get c'"
  using assms by (auto simp: one_get_def no_gets_def subset_singleton_iff)

text \<open>A message or a timer at one shard keeps the invariant.\<close>

lemma callback_promise_ok:
  assumes ok: "promise_ok H tid ps q" "length ps < 2 ^ 31" "distinct ps"
    and x: "vote_callback H j x" "int j \<in> set ps" and s: "sc_tpcMode s = MODE_FAST" "sc_waiting s = Some p" "h p = Some q"
    and step: "sc_callback h s x = Inr (h', s')"
  shows "\<exists>q'. h' p = Some q' \<and> promise_ok H tid ps q'"
proof (cases x)
  case (CPrepareCallback t shard st ts)
  have "prm_tid q = Some tid" using ok(1) by (simp add: promise_ok_def)
  with step CPrepareCallback s have "h' = h \<or> t = tid \<and>
      (\<exists>q'. Reply_shard q (int32 shard) st (reply_timestamp ts) = Inr q' \<and> h' = h(p \<mapsto> q'))"
    by (auto simp: PrepareCallback_def GetTid_def bindr_eq_Inr split: if_splits)
  then consider "h' = h" | q' where "t = tid" "Reply_shard q (int32 shard) st (reply_timestamp ts) = Inr q'" "h' = h(p \<mapsto> q')"
    by blast
  then show ?thesis
  proof cases
    case 2
    have "promise_ok H tid ps q'"
      by (rule promise_ok_Reply [OF ok 2(2)]) (use x 2(1) CPrepareCallback in auto)
    with 2 show ?thesis by simp
  qed (use s(3) ok in auto)
next
  case (CPrepareError t err)
  with step s have "h' = h \<or> (\<exists>q'. Reply_shard q (sc_shard s) REPLY_TIMEOUT Timestamp_default = Inr q' \<and> h' = h(p \<mapsto> q'))"
    by (auto simp: PrepareTimeout_def bindr_eq_Inr split: if_splits)
  then show ?thesis using s(3) ok(1) promise_ok_Reply [OF ok, of "sc_shard s" REPLY_TIMEOUT Timestamp_default]
    by auto
qed (use x(1) in auto)

lemma callback_effect_frame:
  "callback_effect g h s h' s' \<Longrightarrow> sc_client s' = sc_client s \<and> sc_tpcMode s' = sc_tpcMode s \<and> dom h' = dom h \<and>
     (sc_waiting s' = None \<or> sc_waiting s' = sc_waiting s) \<and> (\<forall>p. sc_waiting s \<noteq> Some p \<longrightarrow> h' p = h p)"
  unfolding callback_effect_def by (elim disjE exE conjE) (simp_all add: insert_absorb domI)

lemma callback_effect_read:
  "callback_effect g h s h' s' \<Longrightarrow> h p = Some q \<Longrightarrow> prm_tid q = None \<Longrightarrow>
   \<exists>q'. h' p = Some q' \<and> prm_tid q' = None \<and> (\<not> g \<longrightarrow> q' = q)"
  unfolding callback_effect_def by (elim disjE exE conjE) (auto split: if_splits)

lemma participants_bound:
  assumes "cl_inv H c"
  shows "length (cl_participants c) < 2 ^ 31" "distinct (cl_participants c)"
proof -
  have "distinct (cl_participants c)" "set (cl_participants c) \<subseteq> {0..<int (length (cl_bclient c))}"
    using assms by (auto simp: cl_inv_def parts_ok_def)
  then show "distinct (cl_participants c)" "length (cl_participants c) < 2 ^ 31"
    using card_mono [of "{0..<int (length (cl_bclient c))}" "set (cl_participants c)"] assms
    by (auto simp: distinct_card cl_inv_def fast_setup_def)
qed

text \<open>The continuation of a message or timer: a read continuation takes away the pending read, any
  other one is the vote of a shard.\<close>

definition shard_callback :: "(nat \<times> PrepareTransactionReply) set \<Rightarrow> nat \<Rightarrow> LRClient \<Rightarrow> bool \<Rightarrow> heap \<Rightarrow> ShardClient \<Rightarrow>
    heap \<Rightarrow> ShardClient \<Rightarrow> bool" where
  "shard_callback H j lc0 g h s h' s' \<longleftrightarrow> callback_effect g h s h' s' \<and>
     (g \<longrightarrow> (\<exists>tid. tid \<in> gets lc0 \<and> gets (sc_client s) = gets lc0 - {tid})) \<and>
     (\<not> g \<longrightarrow> h' \<noteq> h \<longrightarrow> (\<exists>x. vote_callback H j x \<and> sc_callback h s x = Inr (h', s')))"

lemma fast_callback:
  assumes "fast_effect H j lc0 (sc_client s) out" and "sc_callbacks h s out = Inr (h', s')"
  shows "\<exists>g. shard_callback H j lc0 g h s h' s'"
proof (cases out)
  case Nil
  with assms show ?thesis by (auto simp: shard_callback_def intro: exI [of _ False])
next
  case (Cons x xs)
  with assms have x: "out = [x]" "if get_continuation x then \<exists>tid. tid \<in> gets lc0 \<and>
      gets (sc_client s) = gets lc0 - {tid} else vote_callback H j x" "sc_callback h s x = Inr (h', s')"
    by (auto simp: fast_effect_def bindr_eq_Inr)
  then have "shard_callback H j lc0 (get_continuation x) h s h' s'"
    using sc_callback_effect [OF x(3)] unfolding shard_callback_def by (cases "get_continuation x") auto
  then show ?thesis ..
qed

lemma fast_shard_prepare:
  assumes inv: "cl_inv H c" and j: "j < length (cl_bclient c)" and app: "cl_app c = InPrepare p r"
    and cb: "shard_callback H j lc0 False (cl_heap c) ((shard_client c j)\<lparr>sc_client := lc\<rparr>) h s"
  shows "prepare_ok H (upd_shard c j s h ms) p"
proof -
  let ?s0 = "(shard_client c j)\<lparr>sc_client := lc\<rparr>"
  have ce: "callback_effect False (cl_heap c) ?s0 h s" using cb by (simp add: shard_callback_def)
  note fr = callback_effect_frame [OF ce]
  have ok: "prepare_ok H c p" using inv app by (simp add: cl_inv_def)
  then obtain q where q: "cl_heap c p = Some q" "promise_ok H (cl_t_id c) (cl_participants c) q"
    by (auto simp: prepare_ok_def)
  have "\<exists>q'. h p = Some q' \<and> promise_ok H (cl_t_id c) (cl_participants c) q'"
  proof (cases "h = cl_heap c \<or> sc_waiting (shard_client c j) \<noteq> Some p")
    case True
    with fr q show ?thesis by auto
  next
    case False
    then obtain x where x: "vote_callback H j x" "sc_callback (cl_heap c) ?s0 x = Inr (h, s)"
      using cb by (auto simp: shard_callback_def)
    have "int j \<in> set (cl_participants c)" using ok j False by (auto simp: prepare_ok_def)
    moreover have "sc_tpcMode ?s0 = MODE_FAST" using inv j by (simp add: cl_inv_def fast_setup_def)
    ultimately show ?thesis
      using callback_promise_ok [OF q(2) participants_bound [OF inv] x(1) _ _ _ q(1) x(2)] False by auto
  qed
  with ok fr j show ?thesis by (auto simp: prepare_ok_def)
qed

lemma fast_shard_gets:
  assumes inv: "cl_inv H c" and j: "j < length (cl_bclient c)"
    and sub: "gets (sc_client s) \<subseteq> gets (sc_client (shard_client c j))"
    and cb: "shard_callback H j (sc_client (shard_client c j)) g (cl_heap c) s0 h s" and s: "sc_client s0 = sc_client s"
  shows "gets_ok (upd_shard c j s h ms) \<and> (g \<longrightarrow> \<not> no_gets c)"
proof -
  let ?c = "upd_shard c j s h ms"
  have sub': "pending_gets ?c \<subseteq> pending_gets c" "get_actions ?c = get_actions c"
    using sub j by (auto simp: pending_gets_alt get_actions_def split: if_splits)
  have go: "one_get c" "gets_ok c" using inv by (auto simp: cl_inv_def gets_ok_def)
  have og: "one_get ?c" using one_get_subset [OF go(1) sub'(2,1)] .
  have nog: "no_gets ?c" if "no_gets c" using that sub' by (auto simp: no_gets_def)
  have gg: "no_gets ?c \<and> \<not> no_gets c" if "g"
  proof -
    from that cb s obtain tid where t: "tid \<in> gets (sc_client (shard_client c j))"
      "gets (sc_client s) = gets (sc_client (shard_client c j)) - {tid}" by (auto simp: shard_callback_def)
    then have "(j, tid) \<in> pending_gets c" using j by (auto simp: pending_gets_alt)
    with one_get_pending [OF go(1)] have p: "get_actions c = []" "pending_gets c = {(j, tid)}" by auto
    then have "(j, tid) \<notin> pending_gets ?c" using t j by (auto simp: pending_gets_alt)
    with p sub' show ?thesis by (auto simp: no_gets_def)
  qed
  have "gets_ok ?c"
  proof (cases "read_promise (cl_app c)")
    case None
    with go og nog show ?thesis by (auto simp: gets_ok_def)
  next
    case (Some p)
    with go obtain q where q: "cl_heap c p = Some q" "prm_tid q = None" "prm_done q \<longrightarrow> no_gets c"
      by (auto simp: gets_ok_def)
    moreover have "callback_effect g (cl_heap c) s0 h s" using cb by (simp add: shard_callback_def)
    ultimately have "\<exists>q'. h p = Some q' \<and> prm_tid q' = None \<and> (\<not> g \<longrightarrow> q' = q)"
      by (intro callback_effect_read)
    with q gg nog og Some show ?thesis by (auto simp: gets_ok_def)
  qed
  with gg show ?thesis by blast
qed

lemma fast_shard_step:
  assumes inv: "cl_inv H c" and j: "j < length (cl_bclient c)"
    and eff: "fast_effect H j (sc_client (shard_client c j)) lc out"
    and cb: "sc_callbacks (cl_heap c) ((shard_client c j)\<lparr>sc_client := lc\<rparr>) out = Inr (h, s)"
  shows "cl_inv H (upd_shard c j s h ms)"
proof -
  let ?s0 = "(shard_client c j)\<lparr>sc_client := lc\<rparr>" and ?c = "upd_shard c j s h ms"
  obtain g where g: "shard_callback H j (sc_client (shard_client c j)) g (cl_heap c) ?s0 h s"
    using fast_callback [OF _ cb, of H j "sc_client (shard_client c j)"] eff by auto
  then have fr: "sc_client s = lc" "sc_tpcMode s = sc_tpcMode (shard_client c j)" "dom h = dom (cl_heap c)"
    "sc_waiting s = None \<or> sc_waiting s = sc_waiting (shard_client c j)"
    by (auto simp: shard_callback_def dest!: callback_effect_frame)
  have su: "fast_setup ?c" using inv eff j fr by (auto simp: cl_inv_def fast_setup_def fast_effect_def)
  have parts: "parts_ok ?c" using inv by (simp add: cl_inv_def parts_ok_def)
  have fresh: "fresh ?c" using inv j fr by (auto simp: cl_inv_def fresh_def)
  have gets: "gets_ok ?c \<and> (g \<longrightarrow> \<not> no_gets c)"
    using eff fr by (intro fast_shard_gets [OF inv j _ g]) (auto simp: fast_effect_def)
  have "prepare_ok H ?c p" if app: "cl_app c = InPrepare p r" for p r
  proof -
    have "no_gets c" using inv app by (simp add: cl_inv_def gets_ok_def)
    with gets g show ?thesis by (intro fast_shard_prepare [OF inv j app]) simp
  qed
  then show ?thesis
    using inv su parts fresh gets by (auto simp: cl_inv_def all_voted_def split: app.splits)
qed

text \<open>Work that the application has handed over.\<close>

lemma run_action_effect:
  assumes "run_action ok s a = Inr (s', out)" and "\<not> is_parallel a"
  shows "sc_waiting s' = act_ptr a \<and> sc_tpcMode s' = sc_tpcMode s \<and>
    lc_tpcMode (sc_client s') = lc_tpcMode (sc_client s) \<and>
    lc_pendingParallelCommits (sc_client s') = lc_pendingParallelCommits (sc_client s) \<and>
    (if is_get a then \<exists>tid. gets (sc_client s') \<subseteq> insert tid (gets (sc_client s))
     else gets (sc_client s') \<subseteq> gets (sc_client s)) \<and> (\<exists>d m. out = [CSend d m])"
  using assms
  by (cases a) (auto simp: sc_lift_def InvokeGetData_def InvokePrepare_def cl_SendPrepare_def prepare_msg_def
      bindr_eq_Inr gets_def lrc_map_defs Let_def split: if_splits)

lemma filter_remove_nth:
  assumes "k < length xs"
  shows "filter P (take k xs @ drop (Suc k) xs) = (if P (xs ! k) then filter P (take k xs) @ filter P (drop (Suc k) xs)
     else filter P xs)"
  using assms by (subst (3) id_take_nth_drop [OF assms]) simp

lemma one_get_run:
  assumes k: "k < length (cl_actions c)" "cl_actions c ! k = (j, a)" and c': "cl_actions c' = take k (cl_actions c) @ drop (Suc k) (cl_actions c)"
    and og: "one_get c"
    and pend: "if is_get a then \<exists>tid. pending_gets c' \<subseteq> insert (j, tid) (pending_gets c) else pending_gets c' \<subseteq> pending_gets c"
  shows "one_get c' \<and> (no_gets c \<longrightarrow> no_gets c' \<and> \<not> is_get a)"
proof (cases "is_get a")
  case True
  let ?f = "filter (\<lambda>x. is_get (snd x))"
  have "get_actions c = ?f (take k (cl_actions c)) @ (j, a) # ?f (drop (Suc k) (cl_actions c))"
    unfolding get_actions_def using True k by (subst id_take_nth_drop [OF k(1)]) simp
  with og have "?f (take k (cl_actions c)) = []" "?f (drop (Suc k) (cl_actions c)) = []" "pending_gets c = {}" "\<not> no_gets c"
    by (auto simp: one_get_def no_gets_def)
  with pend True c' show ?thesis
    by (auto simp: one_get_def no_gets_def get_actions_def subset_singleton_iff)
next
  case False
  then have "get_actions c' = get_actions c"
    using k c' by (simp add: get_actions_def filter_remove_nth del: filter_append)
  with pend False one_get_subset [OF og this] show ?thesis by (auto simp: no_gets_def)
qed

lemma run_deferred_inv:
  assumes inv: "cl_inv H c" and step: "run_deferred c k ok = Inr c'"
  shows "cl_inv H c'"
proof (cases "k < length (cl_actions c)")
  case False
  with step inv show ?thesis by (simp add: run_deferred_def)
next
  case k: True
  obtain j a where a: "cl_actions c ! k = (j, a)" by (cases "cl_actions c ! k")
  let ?acts = "take k (cl_actions c) @ drop (Suc k) (cl_actions c)"
  let ?d = "c\<lparr>cl_actions := ?acts\<rparr>"
  have mem: "(j, a) \<in> set (cl_actions c)" using k a nth_mem by fastforce
  have sub: "set ?acts \<subseteq> set (cl_actions c)" by (auto dest: in_set_takeD in_set_dropD)
  have np: "\<not> is_parallel a" using inv mem by (auto simp: cl_inv_def fast_setup_def)
  have on: "on_shard ?d j (\<lambda>s. run_action ok s a) = Inr c'" using step k a by (simp add: run_deferred_def Let_def)
  show ?thesis
  proof (cases "j < length (cl_bclient c)")
    case False
    with on have c': "c' = ?d" by (simp add: on_shard_Inr)
    have "one_get c" using inv by (simp add: cl_inv_def gets_ok_def)
    moreover have "pending_gets ?d = pending_gets c" by (simp add: pending_gets_def)
    ultimately have "one_get ?d \<and> (no_gets c \<longrightarrow> no_gets ?d \<and> \<not> is_get a)"
      by (intro one_get_run [OF k a]) auto
    then show ?thesis
      using inv sub unfolding c'
      by (auto simp: cl_inv_def fast_setup_def parts_ok_def fresh_def gets_ok_def prepare_ok_def all_voted_def
          split: app.splits option.splits)
  next
    case j: True
    from on j obtain s out h s' where r: "run_action ok (shard_client c j) a = Inr (s, out)"
      "sc_callbacks (cl_heap c) s out = Inr (h, s')"
      "c' = upd_shard ?d j s' h (map (\<lambda>m. (j, m)) (sends out))"
      by (auto simp: on_shard_Inr)
    note e = run_action_effect [OF r(1) np]
    from e r(2) have h: "h = cl_heap c" "s' = s" by auto
    have c': "cl_actions c' = ?acts" "cl_app c' = cl_app c" "cl_heap c' = cl_heap c" using r(3) h by simp_all
    have w: "\<forall>i < length (cl_bclient c). sc_waiting (shard_client c' i) = (if i = j then act_ptr a else sc_waiting (shard_client c i))"
      using e j h r(3) by simp
    have pend: "if is_get a then \<exists>tid. pending_gets c' \<subseteq> insert (j, tid) (pending_gets c) else pending_gets c' \<subseteq> pending_gets c"
      using e j h r(3) by (fastforce simp: pending_gets_alt split: if_splits)
    have og: "one_get c' \<and> (no_gets c \<longrightarrow> no_gets c' \<and> \<not> is_get a)"
      using one_get_run [OF k a c'(1) _ pend] inv by (auto simp: cl_inv_def gets_ok_def)
    have "fast_setup c'" using inv e j h sub r(3) by (auto simp: cl_inv_def fast_setup_def)
    moreover have "parts_ok c'" using inv r(3) by (simp add: cl_inv_def parts_ok_def)
    moreover have "fresh c'"
    proof -
      have "\<forall>p. act_ptr a = Some p \<longrightarrow> p < cl_next c" using inv mem by (auto simp: cl_inv_def fresh_def)
      then show ?thesis using inv sub w unfolding cl_inv_def fresh_def r(3) by (auto simp: h)
    qed
    moreover have "gets_ok c'"
      using inv og c' by (auto simp: cl_inv_def gets_ok_def split: option.splits)
    moreover have "prepare_ok H c' p" if "cl_app c = InPrepare p r" for p r
    proof -
      have ok: "prepare_ok H c p" using inv that by (simp add: cl_inv_def)
      then have "act_ptr a = Some p \<longrightarrow> int j \<in> set (cl_participants c)" using mem by (auto simp: prepare_ok_def)
      then show ?thesis using ok sub w unfolding prepare_ok_def r(3) by (auto simp: h)
    qed
    ultimately show ?thesis
      using inv c' r(3) by (auto simp: cl_inv_def all_voted_def split: app.splits)
  qed
qed

section \<open>The application thread\<close>

text \<open>Steps that leave the clients of the shards and the promises alone and hand over the work \<open>new\<close>.\<close>

definition app_frame :: "Client \<Rightarrow> Client \<Rightarrow> (nat \<times> sc_action) list \<Rightarrow> bool" where
  "app_frame c c' new \<longleftrightarrow> cl_tpcMode c' = cl_tpcMode c \<and> cl_mode c' = cl_mode c \<and>
     length (cl_bclient c') = length (cl_bclient c) \<and>
     (\<forall>j < length (cl_bclient c). shard_client c' j = shard_client c j) \<and>
     cl_actions c' = cl_actions c @ new \<and> cl_participants c' = cl_participants c \<and> cl_next c' = cl_next c \<and>
     cl_heap c' = cl_heap c \<and> cl_app c' = cl_app c \<and> cl_t_id c' = cl_t_id c \<and>
     cl_results c' = cl_results c \<and> cl_sent c' = cl_sent c \<and> cl_json c' = cl_json c \<and>
     cl_nshards c' = cl_nshards c \<and> cl_tpcc c' = cl_tpcc c"

lemma app_frame_refl [simp]: "app_frame c c []"
  by (simp add: app_frame_def)

lemma app_frame_trans: "app_frame a b xs \<Longrightarrow> app_frame b c ys \<Longrightarrow> app_frame a c (xs @ ys)"
  by (simp add: app_frame_def)

lemma app_frame_put:
  "bc_txnclient b = shard_client c j \<Longrightarrow> app_frame c (put_bclient c j b) []"
  unfolding app_frame_def put_bclient_def by simp (metis nth_list_update_eq nth_list_update_neq)

lemma app_frame_add: "app_frame c (add_action c j a) [(j, a)]"
  by (simp add: app_frame_def add_action_def)

lemma bclient_Inr [simp]:
  "bclient c i = Inr (j, b) \<longleftrightarrow> 0 \<le> i \<and> nat i < length (cl_bclient c) \<and> j = nat i \<and> b = cl_bclient c ! nat i"
  by (auto simp: bclient_def)

lemma bc_txnclient_frame [simp]:
  "bc_txnclient (SetParticipants b ps) = bc_txnclient b" "bc_txnclient (SetPrimaryShard b s) = bc_txnclient b"
  "bc_txnclient (bc_Put b k v) = bc_txnclient b" "bc_txnclient (bc_read b ks q) = bc_txnclient b"
  "bc_txnclient (bc_Begin b t) = bc_txnclient b"
  by (simp_all add: SetParticipants_def SetPrimaryShard_def bc_Put_def bc_read_def bc_Begin_def)

definition prepare_work :: "Client \<Rightarrow> ptr \<Rightarrow> nat \<times> sc_action \<Rightarrow> bool" where
  "prepare_work c p x \<longleftrightarrow> (\<exists>txn. snd x = APrepare txn (Some p)) \<and> int (fst x) \<in> set (cl_participants c)"

lemma prepare_each_frame:
  "prepare_each c (- 1) p qs = Inr c' \<Longrightarrow> set qs \<subseteq> set (cl_participants c) \<Longrightarrow>
   \<exists>new. app_frame c c' new \<and> list_all (prepare_work c p) new"
proof (induction qs arbitrary: c)
  case Nil
  then show ?case by (auto intro: exI [of _ "[]"])
next
  case (Cons q qs)
  let ?b = "SetPrimaryShard (SetParticipants (cl_bclient c ! nat q) (cl_participants c)) (- 1)"
  from Cons.prems obtain a where q: "0 \<le> q" "nat q < length (cl_bclient c)" and a: "bc_Prepare ?b Timestamp_default p = Inr a"
    and rec: "prepare_each (add_action (put_bclient c (nat q) ?b) (nat q) a) (- 1) p qs = Inr c'"
    by (auto simp: bindr_eq_Inr Let_def)
  let ?c = "add_action (put_bclient c (nat q) ?b) (nat q) a"
  have f: "app_frame c ?c [(nat q, a)]"
    using app_frame_trans [OF app_frame_put app_frame_add, of ?b c "nat q" "nat q" a] by simp
  then have ps: "cl_participants ?c = cl_participants c" by (simp add: app_frame_def)
  with Cons.IH [OF rec] Cons.prems obtain new where new: "app_frame ?c c' new" "list_all (prepare_work ?c p) new" by auto
  have "prepare_work c p (nat q, a)"
    using a q Cons.prems by (auto simp: prepare_work_def bc_Prepare_def sc_Prepare_def bindr_eq_Inr)
  moreover have "list_all (prepare_work c p) new" using new(2) unfolding list_all_iff prepare_work_def ps .
  ultimately show ?case using app_frame_trans [OF f new(1)] by (intro exI [of _ "(nat q, a) # new"]) simp
qed

text \<open>A decision resets what the participants wait for and sends messages.\<close>

definition decision_frame :: "Client \<Rightarrow> Client \<Rightarrow> bool" where
  "decision_frame c c' \<longleftrightarrow> cl_tpcMode c' = cl_tpcMode c \<and> cl_mode c' = cl_mode c \<and>
     length (cl_bclient c') = length (cl_bclient c) \<and>
     (\<forall>j < length (cl_bclient c). shard_client c' j = shard_client c j \<or>
        shard_client c' j = (shard_client c j)\<lparr>sc_waiting := None\<rparr>) \<and>
     cl_actions c' = cl_actions c \<and> cl_participants c' = cl_participants c \<and> cl_next c' = cl_next c \<and>
     cl_heap c' = cl_heap c \<and> cl_app c' = cl_app c \<and> cl_t_id c' = cl_t_id c \<and> cl_results c' = cl_results c"

lemma decision_frame_refl [simp]: "decision_frame c c"
  by (simp add: decision_frame_def)

lemma decision_frame_trans: "decision_frame a b \<Longrightarrow> decision_frame b c \<Longrightarrow> decision_frame a c"
  unfolding decision_frame_def by fastforce

definition decision_op :: "LogEntryState \<Rightarrow> (BufferClient \<Rightarrow> ub + BufferClient \<times> lrc_out list) \<Rightarrow> bool" where
  "decision_op st f \<longleftrightarrow> (\<forall>b b' out. f b = Inr (b', out) \<longrightarrow> (\<exists>tid. bc_tid b = Some tid \<and>
     b' = b\<lparr>bc_txnclient := (bc_txnclient b)\<lparr>sc_waiting := None\<rparr>\<rparr> \<and>
     out = [CSend (ToReplica (int32 (word_of_int (sc_leader (bc_txnclient b)))))
              (LCommit \<lparr>cm_tid = tid, cm_state = st, cm_timestamp = 0\<rparr>)]))"

lemma decision_op_simps [simp]:
  "decision_op LOG_STATE_COMMIT (\<lambda>b. bc_Commit b ts)" "decision_op LOG_STATE_ABORT bc_Abort"
  by (auto simp: decision_op_def bc_Commit_def bc_Abort_def sc_Commit_def sc_Abort_def bc_lift_def sc_lift_def
      InvokeCommit_def bindr_eq_Inr)

lemma send_decision_frame:
  "send_decision f c ps = Inr c' \<Longrightarrow> decision_op st f \<Longrightarrow> decision_frame c c'"
proof (induction ps arbitrary: c)
  case (Cons p ps)
  from Cons.prems(1) obtain b out where p: "0 \<le> p" "nat p < length (cl_bclient c)"
    and f: "f (cl_bclient c ! nat p) = Inr (b, out)"
    and rec: "send_decision f ((put_bclient c (nat p) b)\<lparr>cl_sent := cl_sent c @ map (\<lambda>m. (nat p, m)) (sends out)\<rparr>) ps = Inr c'"
    by (auto simp: bindr_eq_Inr)
  have "b = (cl_bclient c ! nat p)\<lparr>bc_txnclient := (shard_client c (nat p))\<lparr>sc_waiting := None\<rparr>\<rparr>"
    using Cons.prems(2) f unfolding decision_op_def by blast
  then have "decision_frame c ((put_bclient c (nat p) b)\<lparr>cl_sent := cl_sent c @ map (\<lambda>m. (nat p, m)) (sends out)\<rparr>)"
    using p by (auto simp: decision_frame_def put_bclient_def nth_list_update)
  with Cons.IH [OF rec Cons.prems(2)] show ?case by (blast intro: decision_frame_trans)
qed simp

text \<open>The invariant outside of a wait for a prepare.\<close>

definition quiet :: "Client \<Rightarrow> bool" where
  "quiet c \<longleftrightarrow> fast_setup c \<and> parts_ok c \<and> fresh c \<and> no_gets c"

lemma quiet_inv: "quiet c \<Longrightarrow> cl_app c = Idle \<Longrightarrow> cl_inv H c"
  by (simp add: quiet_def cl_inv_def gets_ok_def one_get_def)

lemma inv_quiet:
  "cl_inv H c \<Longrightarrow> read_promise (cl_app c) = None \<Longrightarrow> quiet c"
  by (auto simp: quiet_def cl_inv_def gets_ok_def)

lemma quiet_read_done:
  "cl_inv H c \<Longrightarrow> read_promise (cl_app c) = Some p \<Longrightarrow> cl_heap c p = Some q \<Longrightarrow> prm_done q \<Longrightarrow> quiet c"
  by (auto simp: quiet_def cl_inv_def gets_ok_def)

lemma no_gets_frame:
  assumes "length (cl_bclient c') = length (cl_bclient c)"
    and "\<forall>j < length (cl_bclient c). sc_client (shard_client c' j) = sc_client (shard_client c j)"
    and "cl_actions c' = cl_actions c @ new" "list_all (\<lambda>x. \<not> is_get (snd x)) new"
  shows "no_gets c' \<longleftrightarrow> no_gets c"
  using assms by (auto simp: no_gets_def get_actions_def pending_gets_def list_all_iff)

lemma quiet_decision:
  assumes "quiet c" "decision_frame c c'"
  shows "quiet c'"
proof -
  have "no_gets c' \<longleftrightarrow> no_gets c" using assms(2) by (intro no_gets_frame [where new = "[]"]) (auto simp: decision_frame_def)
  then show ?thesis
    using assms unfolding quiet_def fast_setup_def parts_ok_def fresh_def decision_frame_def by fastforce
qed

lemma fresh_new_promise:
  assumes "fresh c"
  shows "fresh (c\<lparr>cl_heap := (cl_heap c)(cl_next c \<mapsto> q), cl_next := Suc (cl_next c)\<rparr>)"
proof -
  have "dom ((cl_heap c)(cl_next c \<mapsto> q)) \<subseteq> {..<Suc (cl_next c)}"
    using assms by (auto simp only: fresh_def dom_fun_upd) auto
  with assms show ?thesis by (fastforce simp: fresh_def)
qed

lemma quiet_new_promise:
  "quiet c \<Longrightarrow> new_promise c q = (p, c') \<Longrightarrow> quiet c' \<and> p = cl_next c \<and> cl_next c' = cl_next c + 1 \<and>
     cl_heap c' = (cl_heap c)(p \<mapsto> q) \<and> cl_app c' = cl_app c \<and> cl_participants c' = cl_participants c \<and> cl_t_id c' = cl_t_id c \<and>
     cl_bclient c' = cl_bclient c \<and> cl_actions c' = cl_actions c \<and> cl_tpcMode c' = cl_tpcMode c \<and> cl_results c' = cl_results c \<and>
     cl_mode c' = cl_mode c"
  unfolding new_promise_def quiet_def fast_setup_def parts_ok_def no_gets_def get_actions_def pending_gets_def
  by (auto intro: fresh_new_promise)

lemma results_frame [simp]:
  "cl_results (delete_promise c p) = cl_results c" "cl_results (put_bclient c j b) = cl_results c"
  "cl_results (add_participant c i) = cl_results c"
  by (simp_all add: delete_promise_def put_bclient_def add_participant_def)

lemma quiet_delete: "quiet c \<Longrightarrow> quiet (delete_promise c p)"
  by (auto simp: delete_promise_def quiet_def fast_setup_def parts_ok_def fresh_def no_gets_def get_actions_def pending_gets_def)

lemma quiet_return [simp]: "quiet (return c r) \<longleftrightarrow> quiet c" "cl_app (return c r) = Idle"
    "cl_results (return c r) = cl_results c @ [r]"
  by (simp_all add: return_def quiet_def fast_setup_def parts_ok_def fresh_def no_gets_def get_actions_def pending_gets_def)

lemma quiet_app [simp]: "quiet (c\<lparr>cl_app := a\<rparr>) \<longleftrightarrow> quiet c" "quiet (c\<lparr>cl_v := v\<rparr>) \<longleftrightarrow> quiet c"
    "quiet (c\<lparr>cl_value := x\<rparr>) \<longleftrightarrow> quiet c" "quiet (c\<lparr>cl_commit_sleep := y\<rparr>) \<longleftrightarrow> quiet c"
  by (simp_all add: quiet_def fast_setup_def parts_ok_def fresh_def no_gets_def get_actions_def pending_gets_def)

lemma quiet_app_frame:
  assumes "quiet c" "app_frame c c' new"
    and "list_all (\<lambda>x. \<not> is_get (snd x) \<and> \<not> is_parallel (snd x) \<and> (\<forall>p. act_ptr (snd x) = Some p \<longrightarrow> p < cl_next c)) new"
  shows "quiet c'"
proof -
  have "no_gets c' \<longleftrightarrow> no_gets c"
    using assms(2,3) by (intro no_gets_frame [where new = new]) (auto simp: app_frame_def list_all_iff)
  then show ?thesis
    using assms unfolding quiet_def fast_setup_def parts_ok_def fresh_def app_frame_def by (fastforce simp: list_all_iff)
qed

lemmas quiet_put = quiet_app_frame [OF _ app_frame_put, simplified]

lemma promise_ok_new:
  "length ps < 2 ^ 31 \<Longrightarrow> ps \<noteq> [] \<Longrightarrow> promise_ok H tid ps (Promise_prepare tid ps ms)"
  by (simp add: promise_ok_def Promise_prepare_def Promise_timeout_def signed_of_nat signed_take_bit_int_eq_self)

lemma quiet_parts:
  assumes "quiet c"
  shows "length (cl_participants c) < 2 ^ 31"
  using participants_bound(1) [of "{}" "c\<lparr>cl_app := Idle\<rparr>"] quiet_inv [of "c\<lparr>cl_app := Idle\<rparr>"] assms by simp

text \<open>Sending the prepare requests.\<close>

lemma cl_Prepare_fast:
  assumes q: "quiet c" and r: "cl_Prepare c = Inr (c', po)"
  shows "quiet c' \<and> cl_participants c' = cl_participants c \<and> cl_t_id c' = cl_t_id c \<and> cl_results c' = cl_results c \<and>
    (case po of None \<Rightarrow> cl_participants c = [] | Some p \<Rightarrow> prepare_ok H c' p)"
proof -
  have fast: "cl_tpcMode c = MODE_FAST" using q by (simp add: quiet_def fast_setup_def)
  obtain p d where d: "new_promise c (Promise_prepare (cl_t_id c) (cl_participants c) PREPARE_TIMEOUT) = (p, d)"
    by fastforce
  note n = quiet_new_promise [OF q d]
  show ?thesis
  proof (cases "cl_participants c = []")
    case True
    with r fast d n show ?thesis by (auto simp: cl_Prepare_def primary_shard_def)
  next
    case False
    from r fast d n False have po: "po = Some p" and each: "prepare_each d (- 1) p (cl_participants c) = Inr c'"
      by (auto simp: cl_Prepare_def primary_shard_def bindr_eq_Inr)
    obtain new where new: "app_frame d c' new" "list_all (prepare_work d p) new"
      using prepare_each_frame [OF each] n by auto
    have qc: "quiet c'"
      by (rule quiet_app_frame [OF _ new(1)]) (use n new(2) in \<open>auto simp: list_all_iff prepare_work_def\<close>)
    have fr: "fresh c" using q by (simp add: quiet_def)
    have "promise_ok H (cl_t_id c) (cl_participants c) (Promise_prepare (cl_t_id c) (cl_participants c) PREPARE_TIMEOUT)"
      using promise_ok_new quiet_parts [OF q] False by blast
    moreover have "act_ptr (snd x) = Some p \<longrightarrow> int (fst x) \<in> set (cl_participants c)" if "x \<in> set (cl_actions c')" for x
      using that fr n new by (auto simp: app_frame_def prepare_work_def list_all_iff fresh_def)
    moreover have "sc_waiting (shard_client c' j) \<noteq> Some p" if "j < length (cl_bclient c')" for j
      using that fr n new by (auto simp: app_frame_def fresh_def)
    ultimately have "prepare_ok H c' p"
      using n new(1) by (auto simp: prepare_ok_def app_frame_def)
    with qc po n new(1) show ?thesis by (auto simp: app_frame_def)
  qed
qed

text \<open>The decision.\<close>

lemma finish_commit_fast:
  assumes "quiet c" "finish_commit c ts retry = Inr c'"
  shows "cl_inv H c' \<and> cl_results c' = cl_results c @ [RCommit True]"
proof -
  obtain d where d: "send_decision (\<lambda>b. bc_Commit b ts) c (cl_participants c) = Inr d"
    "c' = return (d\<lparr>cl_v := cl_v d @ [int retry]\<rparr>) (RCommit True)"
    using assms(2) by (auto simp: finish_commit_def bindr_eq_Inr)
  have f: "decision_frame c d" using send_decision_frame [OF d(1) decision_op_simps(1)] .
  with quiet_decision [OF assms(1) f] d(2) show ?thesis
    by (auto intro!: quiet_inv simp: decision_frame_def)
qed

lemma cl_Abort_fast:
  assumes "quiet c" "cl_Abort c = Inr c'"
  shows "quiet c' \<and> cl_app c' = cl_app c \<and> cl_results c' = cl_results c"
  using assms send_decision_frame [OF _ decision_op_simps(2)] quiet_decision
  unfolding cl_Abort_def by (metis decision_frame_def)

lemma finish_abort_fast:
  assumes "quiet c" "finish_abort c retry = Inr c'"
  shows "cl_inv H c' \<and> cl_results c' = cl_results c @ [RCommit False]"
proof -
  obtain d where d: "cl_Abort c = Inr d" "c' = return (d\<lparr>cl_v := cl_v d @ [int retry]\<rparr>) (RCommit False)"
    using assms(2) by (auto simp: finish_abort_def bindr_eq_Inr)
  from cl_Abort_fast [OF assms(1) d(1)] d(2) show ?thesis
    by (auto intro!: quiet_inv)
qed

lemma decide_fast:
  assumes q: "quiet c" and r: "decide c t1 tnow status ts retry = Inr c'" and v: "status = REPLY_OK \<Longrightarrow> all_voted H c"
  shows "cl_inv H c' \<and> (cl_results c' = cl_results c @ [RCommit True] \<longrightarrow> all_voted H c)"
proof (cases "status = REPLY_OK")
  case False
  with r have "finish_abort c retry = Inr c'" by (simp add: decide_def)
  from finish_abort_fast [OF q this] show ?thesis by simp
next
  case ok: True
  show ?thesis
  proof (cases "cl_mode c = MODE_SPAN_OCC \<or> cl_mode c = MODE_SPAN_LOCK")
    case False
    with r ok have "finish_commit c ts retry = Inr c'" by (simp add: decide_def)
    from finish_commit_fast [OF q this] v [OF ok] show ?thesis by simp
  next
    case True
    then obtain e ts' a b where c': "c' = c\<lparr>cl_commit_sleep := a, cl_app := InCommitWait t1 e ts' b\<rparr>"
      using r ok by (auto simp: decide_def Let_def split: prod.splits)
    have "quiet c'" using q by (simp add: c')
    with v [OF ok] show ?thesis
      by (simp add: c' cl_inv_def quiet_def gets_ok_def one_get_def all_voted_def)
  qed
qed

lemma quiet_prepare_inv:
  assumes "quiet c" "prepare_ok H c p"
  shows "cl_inv H (c\<lparr>cl_app := InPrepare p r\<rparr>)"
proof -
  have "quiet (c\<lparr>cl_app := InPrepare p r\<rparr>)" "prepare_ok H (c\<lparr>cl_app := InPrepare p r\<rparr>) p"
    using assms by (simp_all add: prepare_ok_def)
  then show ?thesis by (simp add: cl_inv_def quiet_def gets_ok_def one_get_def)
qed

lemma try_prepare_fast:
  assumes q: "quiet c" and r: "try_prepare c t1 tnow retry = Inr c'"
  shows "cl_inv H c' \<and> (cl_results c' = cl_results c @ [RCommit True] \<longrightarrow> all_voted H c)"
proof -
  from r obtain d po where d: "cl_Prepare c = Inr (d, po)"
    and k: "(case po of None \<Rightarrow> decide d t1 tnow 0 0 retry | Some p \<Rightarrow> Inr (d\<lparr>cl_app := InPrepare p retry\<rparr>)) = Inr c'"
    by (auto simp: try_prepare_def bindr_eq_Inr)
  note p = cl_Prepare_fast [OF q d, of H]
  show ?thesis
  proof (cases po)
    case None
    with p have "all_voted H d" "all_voted H c" by (auto simp: all_voted_def)
    with decide_fast [of d t1 tnow 0 0 retry c' H] p k None show ?thesis by auto
  next
    case (Some x)
    with p k show ?thesis by (auto intro: quiet_prepare_inv)
  qed
qed

lemma resume_Prepare_fast:
  assumes inv: "cl_inv H c" and app: "cl_app c = InPrepare p retry" and r: "resume_Prepare c t1 tnow p retry = Inr c'"
  shows "cl_inv H c' \<and> (cl_results c' = cl_results c @ [RCommit True] \<longrightarrow> all_voted H c)"
proof -
  obtain q where q: "cl_heap c p = Some q" "promise_ok H (cl_t_id c) (cl_participants c) q"
    using inv app by (auto simp: cl_inv_def prepare_ok_def)
  let ?d = "delete_promise c p"
  have qd: "quiet ?d" using inv_quiet [OF inv] app by (simp add: quiet_delete)
  have same: "all_voted H ?d \<longleftrightarrow> all_voted H c" "cl_results ?d = cl_results c"
    by (simp_all add: all_voted_def delete_promise_def)
  show ?thesis
  proof (cases "GetPrepareReply q")
    case None
    with r q inv show ?thesis by (simp add: resume_Prepare_def bindr_eq_Inr)
  next
    case (Some status)
    have "status = REPLY_OK \<Longrightarrow> all_voted H ?d"
      using prepare_reply_all_voted [OF q(2) participants_bound(2) [OF inv]] Some same by (simp add: all_voted_def)
    with r q Some qd same show ?thesis
      using decide_fast [OF qd, of t1 tnow status _ _ c' H] try_prepare_fast [OF qd, of t1 tnow _ c' H]
      by (auto simp: resume_Prepare_def bindr_eq_Inr Let_def split: if_splits)
  qed
qed

text \<open>Reads and writes.\<close>

lemma fold_add_action: "fold (\<lambda>a c. add_action c j a) acts c = c\<lparr>cl_actions := cl_actions c @ map (Pair j) acts\<rparr>"
  by (induction acts arbitrary: c) (simp_all add: add_action_def)

lemma quiet_participant:
  "quiet c \<Longrightarrow> 0 \<le> i \<Longrightarrow> nat i < length (cl_bclient c) \<Longrightarrow> quiet (add_participant c i)"
  by (auto simp: add_participant_def quiet_def fast_setup_def parts_ok_def fresh_def no_gets_def get_actions_def
      pending_gets_def)

lemma start_read_inv:
  assumes q: "quiet c" and p: "h p = Some q'" "prm_tid q' = None" "read_promise a = Some p" "dom h \<subseteq> {..<cl_next c}"
    and acts: "acts = [] \<or> (\<exists>i ks. acts = [AGetData i ks (Some p)]) \<and> \<not> prm_done q'"
  shows "cl_inv H (c\<lparr>cl_heap := h, cl_app := a, cl_actions := cl_actions c @ map (Pair j) acts\<rparr>)"
proof -
  let ?c = "c\<lparr>cl_heap := h, cl_app := a, cl_actions := cl_actions c @ map (Pair j) acts\<rparr>"
  have pn: "p < cl_next c" using p by auto
  have acts': "list_all (\<lambda>x. \<not> is_parallel (snd x) \<and> (\<forall>p. act_ptr (snd x) = Some p \<longrightarrow> p < cl_next c)) (map (Pair j) acts)"
    "length (filter (\<lambda>x. is_get (snd x)) (map (Pair j) acts)) \<le> 1"
    using acts pn by auto
  have g: "get_actions ?c = filter (\<lambda>x. is_get (snd x)) (map (Pair j) acts)" "pending_gets ?c = {}"
    using q by (auto simp: quiet_def no_gets_def get_actions_def pending_gets_def)
  have "fast_setup ?c" "parts_ok ?c" "fresh ?c"
    using q acts'(1) p(4) by (auto simp: quiet_def fast_setup_def parts_ok_def fresh_def list_all_iff)
  moreover have "gets_ok ?c"
    using g acts acts'(2) p by (auto simp: gets_ok_def one_get_def no_gets_def)
  ultimately show ?thesis using p(3) by (cases a) (auto simp: cl_inv_def)
qed

lemma bc_Get_effect:
  assumes "bc_Get h b key p = Inr (h', acts, path)" "h p = Some (Promise_timeout ms)"
  shows "\<exists>q'. h' p = Some q' \<and> prm_tid q' = None \<and> dom h' = dom h \<and>
    (acts = [] \<or> (\<exists>i ks. acts = [AGetData i ks (Some p)]) \<and> \<not> prm_done q')"
  using assms
  by (auto simp: bc_Get_def bindr_eq_Inr reply_defs sc_Get_def sc_Get_at_def Promise_timeout_def insert_absorb
      domI split: option.splits)

lemma cl_Get_fast:
  assumes q: "quiet c" and r: "cl_Get c key = Inr c'"
  shows "cl_inv H c' \<and> cl_results c' = cl_results c"
proof -
  obtain i where i: "shard_of_key c key = Inr i" using r by (auto simp: cl_Get_def bindr_eq_Inr)
  let ?a = "add_participant c i"
  obtain p d where d: "new_promise ?a (Promise_timeout GET_TIMEOUT) = (p, d)" by fastforce
  from r i d obtain h acts path where
    idx: "0 \<le> i" "nat i < length (cl_bclient d)" and b: "bc_Get (cl_heap d) (cl_bclient d ! nat i) key p = Inr (h, acts, path)"
    and c': "c' = fold (\<lambda>a c. add_action c (nat i) a) acts (d\<lparr>cl_heap := h, cl_app := InGet (nat i) key p path\<rparr>)"
    by (auto simp: cl_Get_def bindr_eq_Inr)
  have "length (cl_bclient d) = length (cl_bclient c)" using d by (auto simp: new_promise_def add_participant_def)
  with idx q have qa: "quiet ?a" by (intro quiet_participant) auto
  note n = quiet_new_promise [OF qa d]
  have "cl_heap d p = Some (Promise_timeout GET_TIMEOUT)" using n by simp
  from bc_Get_effect [OF b this] obtain q' where q': "h p = Some q'" "prm_tid q' = None" "dom h = dom (cl_heap d)"
    "acts = [] \<or> (\<exists>i ks. acts = [AGetData i ks (Some p)]) \<and> \<not> prm_done q'"
    by blast
  have "fresh d" using n by (simp add: quiet_def)
  then have "dom (cl_heap d) \<subseteq> {..<cl_next d}" by (simp only: fresh_def)
  then have "cl_inv H (d\<lparr>cl_heap := h, cl_app := InGet (nat i) key p path, cl_actions := cl_actions d @ map (Pair (nat i)) acts\<rparr>)"
    using n q' by (intro start_read_inv) auto
  then show ?thesis
    using n by (simp add: c' fold_add_action)
qed

lemma resume_Get_fast:
  assumes inv: "cl_inv H c" and app: "cl_app c = InGet j key p path" and r: "resume_Get c j key p path = Inr c'"
  shows "cl_inv H c' \<and> cl_results c' \<noteq> cl_results c @ [RCommit True]"
proof -
  obtain q where q: "cl_heap c p = Some q" using r by (auto simp: resume_Get_def bindr_eq_Inr)
  show ?thesis
  proof (cases "prm_done q")
    case False
    with r q inv show ?thesis by (simp add: resume_Get_def bindr_eq_Inr)
  next
    case True
    have "quiet c" using quiet_read_done [OF inv _ q True] app by simp
    then have "quiet (put_bclient c j (bc_read (cl_bclient c ! j) [key] q))" by (rule quiet_put) simp
    with \<open>quiet c\<close> r q True show ?thesis
      by (auto simp: resume_Get_def bindr_eq_Inr Let_def split: if_splits intro!: quiet_inv quiet_delete)
  qed
qed

lemma group_keys_fast:
  "group_keys c ks g = Inr (c', g') \<Longrightarrow> length g = length (cl_bclient c) \<Longrightarrow> quiet c \<Longrightarrow>
   quiet c' \<and> cl_results c' = cl_results c"
proof (induction ks arbitrary: c g)
  case (Cons k ks)
  from Cons.prems(1) obtain i where i: "0 \<le> i" "nat i < length g"
    "group_keys (add_participant c i) ks (g[nat i := (nat i, snd (g ! nat i) @ [k])]) = Inr (c', g')"
    by (auto simp: bindr_eq_Inr split: if_splits)
  have l: "cl_bclient (add_participant c i) = cl_bclient c" "cl_results (add_participant c i) = cl_results c"
    by (simp_all add: add_participant_def)
  from Cons.IH [OF i(3)] Cons.prems i(1,2) quiet_participant [of c i] show ?case by (simp add: l)
qed simp

lemma multi_next_fast:
  "multi_next c p g = Inr c' \<Longrightarrow> quiet c \<Longrightarrow> cl_heap c p = Some q \<Longrightarrow> prm_tid q = None \<Longrightarrow>
   cl_inv H c' \<and> cl_results c' = cl_results c"
proof (induction g)
  case Nil
  have "cl_inv H (c\<lparr>cl_heap := cl_heap c, cl_app := InMultiGet 0 [] [] p, cl_actions := cl_actions c @ map (Pair 0) []\<rparr>)"
    using Nil by (intro start_read_inv) (auto simp: quiet_def fresh_def)
  with Nil show ?case by auto
next
  case (Cons x g)
  obtain j keys where x: "x = (j, keys)" by (cases x)
  show ?case
  proof (cases "keys = []")
    case True
    with Cons x show ?thesis by simp
  next
    case False
    let ?h = "(cl_heap c)(p \<mapsto> Promise_Reset q)"
    from Cons.prems x False obtain a where a: "bc_MultiGet (cl_bclient c ! j) keys p = Inr a"
      and c': "c' = add_action (c\<lparr>cl_heap := ?h, cl_app := InMultiGet j keys g p\<rparr>) j a"
      by (auto simp: bindr_eq_Inr)
    from a obtain i where "a = AGetData i keys (Some p)" by (auto simp: bc_MultiGet_def sc_MultiGet_def bindr_eq_Inr)
    moreover have "dom ?h \<subseteq> {..<cl_next c}"
      using Cons.prems by (auto simp only: quiet_def fresh_def dom_fun_upd) auto
    ultimately have "cl_inv H (c\<lparr>cl_heap := ?h, cl_app := InMultiGet j keys g p, cl_actions := cl_actions c @ map (Pair j) [a]\<rparr>)"
      using Cons.prems by (intro start_read_inv [where q' = "Promise_Reset q"]) (auto simp: Promise_Reset_def)
    with c' show ?thesis by (simp add: add_action_def)
  qed
qed

lemma cl_MultiGet_fast:
  assumes q: "quiet c" and r: "cl_MultiGet c keys = Inr c'"
  shows "cl_inv H c' \<and> cl_results c' = cl_results c"
proof -
  from r obtain d g where d: "group_keys c keys (map (\<lambda>i. (i, [])) [0..<length (cl_bclient c)]) = Inr (d, g)"
    by (auto simp: cl_MultiGet_def bindr_eq_Inr)
  have qd: "quiet d" "cl_results d = cl_results c" using group_keys_fast [OF d] q by auto
  obtain p e where e: "new_promise d (Promise_timeout GET_TIMEOUT) = (p, e)" by fastforce
  note n = quiet_new_promise [OF qd(1) e]
  have "multi_next (e\<lparr>cl_value := None\<rparr>) p g = Inr c'" using r d e by (simp add: cl_MultiGet_def)
  from multi_next_fast [OF this, of "Promise_timeout GET_TIMEOUT" H] n qd show ?thesis
    by (simp add: Promise_timeout_def)
qed

lemma resume_MultiGet_fast:
  assumes inv: "cl_inv H c" and app: "cl_app c = InMultiGet j keys g p" and r: "resume_MultiGet c j keys g p = Inr c'"
  shows "cl_inv H c' \<and> cl_results c' \<noteq> cl_results c @ [RCommit True]"
proof -
  obtain q where q: "cl_heap c p = Some q" "prm_tid q = None"
    using inv app by (auto simp: cl_inv_def gets_ok_def)
  show ?thesis
  proof (cases "prm_done q")
    case False
    with r q inv show ?thesis by (simp add: resume_MultiGet_def bindr_eq_Inr)
  next
    case True
    have qc: "quiet c" using quiet_read_done [OF inv _ q(1) True] app by simp
    let ?d = "put_bclient c j (bc_read (cl_bclient c ! j) keys q)"
    have qd: "quiet ?d" by (rule quiet_put [OF qc]) simp
    have h: "cl_heap (?d\<lparr>cl_value := Some (prm_value q)\<rparr>) p = Some q" using q by (simp add: put_bclient_def)
    show ?thesis
    proof (cases "keys = [] \<or> prm_reply q = 1")
      case True
      with qc qd r q \<open>prm_done q\<close> show ?thesis
        by (auto simp: resume_MultiGet_def bindr_eq_Inr Let_def split: if_splits intro!: quiet_inv quiet_delete)
    next
      case False
      with r q \<open>prm_done q\<close> have "multi_next (?d\<lparr>cl_value := Some (prm_value q)\<rparr>) p g = Inr c'"
        by (auto simp: resume_MultiGet_def bindr_eq_Inr Let_def split: if_splits)
      from multi_next_fast [OF this _ h q(2), of H] qd show ?thesis by simp
    qed
  qed
qed

lemma cl_Put_fast:
  assumes q: "quiet c" and r: "cl_Put c key val = Inr c'"
  shows "cl_inv H c' \<and> cl_results c' \<noteq> cl_results c @ [RCommit True]"
proof -
  from r obtain i where i: "0 \<le> i" "nat i < length (cl_bclient (add_participant c i))"
    and c': "c' = return (put_bclient (add_participant c i) (nat i) (bc_Put (cl_bclient (add_participant c i) ! nat i) key val)) (RPut REPLY_OK)"
    by (auto simp: cl_Put_def bindr_eq_Inr Let_def)
  have "quiet (add_participant c i)" using q i by (intro quiet_participant) (auto simp: add_participant_def split: if_splits)
  then have "quiet (put_bclient (add_participant c i) (nat i) (bc_Put (cl_bclient (add_participant c i) ! nat i) key val))"
    by (rule quiet_put) simp
  then show ?thesis by (auto simp: c' intro!: quiet_inv)
qed

lemma cl_Begin_fast: "quiet c \<Longrightarrow> quiet (cl_Begin c) \<and> cl_app (cl_Begin c) = cl_app c \<and> cl_results (cl_Begin c) = cl_results c"
  by (auto simp: cl_Begin_def Let_def quiet_def fast_setup_def parts_ok_def fresh_def no_gets_def get_actions_def
      pending_gets_def)

section \<open>Every step, every history\<close>

fun event_votes :: "cl_event \<Rightarrow> (nat \<times> PrepareTransactionReply) set" where
  "event_votes (TMessage j (MPrepareReply m)) = {(j, m)}"
| "event_votes e = {}"

lemma app_event_cases:
  "app_event c f = Inr c' \<Longrightarrow> cl_inv H c \<Longrightarrow> (c' = c) \<or> (quiet c \<and> cl_app c = Idle \<and> f c = Inr c')"
  by (auto simp: app_event_def dest: inv_quiet split: if_splits)

lemma cl_resume_fast:
  assumes inv: "cl_inv H c" and step: "cl_resume c t1 tnow = Inr c'"
  shows "cl_inv H c' \<and> (cl_results c' = cl_results c @ [RCommit True] \<longrightarrow> all_voted H c)"
proof (cases "cl_app c")
  case Idle
  with step inv show ?thesis by (simp add: cl_resume_def)
next
  case (InGet j key p path)
  with step show ?thesis using resume_Get_fast [OF inv InGet] by (simp add: cl_resume_def)
next
  case (InMultiGet j keys g p)
  with step show ?thesis using resume_MultiGet_fast [OF inv InMultiGet] by (simp add: cl_resume_def)
next
  case (InPrepare p retry)
  with step show ?thesis using resume_Prepare_fast [OF inv InPrepare] by (simp add: cl_resume_def)
next
  case (InCommitWait t0 err ts retry)
  have "quiet c" "all_voted H c" using inv InCommitWait inv_quiet [OF inv] by (auto simp: cl_inv_def)
  with step InCommitWait inv show ?thesis
    by (auto simp: cl_resume_def resume_CommitWait_def dest: finish_commit_fast [where H = H] split: if_splits)
qed

lemma on_shard_results: "on_shard c j f = Inr c' \<Longrightarrow> cl_results c' = cl_results c"
  by (auto simp: on_shard_Inr)

lemma run_deferred_results: "run_deferred c k ok = Inr c' \<Longrightarrow> cl_results c' = cl_results c"
  by (auto simp: run_deferred_def Let_def dest!: on_shard_results split: if_splits prod.splits)

lemma cl_step_fast:
  assumes inv: "cl_inv H c" and step: "cl_step c e = Inr c'"
    and shard: "\<And>j m. e = TMessage j (MPrepareReply m) \<Longrightarrow> int32 (pr_shard m) = int j"
  shows "cl_inv (H \<union> event_votes e) c' \<and> (cl_results c' = cl_results c @ [RCommit True] \<longrightarrow> all_voted H c)"
proof (cases e)
  case (TMessage j m)
  let ?H = "H \<union> event_votes e"
  have inv': "cl_inv ?H c" using inv by (rule cl_inv_mono) blast
  have on: "on_shard c j (\<lambda>s. sc_lift s (lrc_ReceiveMessage (sc_client s) m)) = Inr c'" using step TMessage by simp
  show ?thesis
  proof (cases "j < length (cl_bclient c)")
    case True
    with on obtain lc out h s where r: "lrc_ReceiveMessage (sc_client (shard_client c j)) m = Inr (lc, out)"
      "sc_callbacks (cl_heap c) ((shard_client c j)\<lparr>sc_client := lc\<rparr>) out = Inr (h, s)"
      "c' = upd_shard c j s h (map (\<lambda>m. (j, m)) (sends out))"
      by (auto simp: on_shard_Inr sc_lift_def bindr_eq_Inr)
    have "fast_effect ?H j (sc_client (shard_client c j)) lc out"
      using inv True shard TMessage by (intro fast_receive [OF _ _ r(1)]) (auto simp: cl_inv_def fast_setup_def)
    from fast_shard_step [OF inv' True this r(2)] r(3) on_shard_results [OF on] show ?thesis by simp
  qed (use on inv' in \<open>auto simp: on_shard_Inr\<close>)
next
  case (TTimer j t)
  have on: "on_shard c j (\<lambda>s. sc_lift s (lrc_fire (sc_client s) t)) = Inr c'" using step TTimer by simp
  show ?thesis
  proof (cases "j < length (cl_bclient c)")
    case True
    with on obtain lc out h s where r: "lrc_fire (sc_client (shard_client c j)) t = Inr (lc, out)"
      "sc_callbacks (cl_heap c) ((shard_client c j)\<lparr>sc_client := lc\<rparr>) out = Inr (h, s)"
      "c' = upd_shard c j s h (map (\<lambda>m. (j, m)) (sends out))"
      by (auto simp: on_shard_Inr sc_lift_def bindr_eq_Inr)
    have "fast_effect H j (sc_client (shard_client c j)) lc out"
      using inv True by (intro fast_fire [OF _ r(1)]) (auto simp: cl_inv_def fast_setup_def)
    from fast_shard_step [OF inv True this r(2)] r(3) on_shard_results [OF on] TTimer show ?thesis by simp
  qed (use on inv TTimer in \<open>auto simp: on_shard_Inr\<close>)
next
  case (TRun k ok)
  with step inv show ?thesis by (auto dest: run_deferred_inv run_deferred_results)
next
  case (AResume t1 tnow)
  with step inv show ?thesis by (auto dest: cl_resume_fast)
next
  case (ACommit t1 tnow)
  with step show ?thesis
    using app_event_cases [OF _ inv, of "\<lambda>c. cl_Commit c t1 tnow" c'] try_prepare_fast [of c t1 tnow 0 c' H] inv
    by (auto simp: cl_Commit_def)
next
  case (AGet key)
  with step show ?thesis
    using app_event_cases [OF _ inv, of "\<lambda>c. cl_Get c key" c'] cl_Get_fast [of c key c' H] inv by auto
next
  case (AMultiGet keys)
  with step show ?thesis
    using app_event_cases [OF _ inv, of "\<lambda>c. cl_MultiGet c keys" c'] cl_MultiGet_fast [of c keys c' H] inv by auto
next
  case (APut key val)
  with step show ?thesis
    using app_event_cases [OF _ inv, of "\<lambda>c. cl_Put c key val" c'] cl_Put_fast [of c key val c' H] inv by auto
next
  case AAbort
  with step show ?thesis
    using app_event_cases [OF _ inv, of cl_Abort c'] cl_Abort_fast [of c c'] inv by (auto intro: quiet_inv)
next
  case ABegin
  with step show ?thesis
    using app_event_cases [OF _ inv, of "\<lambda>c. Inr (cl_Begin c)" c'] cl_Begin_fast [of c] inv by (auto intro: quiet_inv)
qed

lemma make_bclients_fast:
  "make_bclients MODE_FAST cid closest i cs = Inr bs \<Longrightarrow> length bs = length cs \<and>
   (\<forall>b \<in> set bs. sc_tpcMode (bc_txnclient b) = MODE_FAST \<and> sc_waiting (bc_txnclient b) = None \<and>
      (\<exists>f. sc_client (bc_txnclient b) = LRClient_new f MODE_FAST))"
proof (induction cs arbitrary: i bs)
  case (Cons c cs)
  from Cons.prems obtain s bs' where s: "ShardClient_new MODE_FAST (fst c) (snd c) cid i closest = Inr s"
    and bs: "make_bclients MODE_FAST cid closest (i + 1) cs = Inr bs'" "bs = BufferClient_new s # bs'"
    by (auto simp: bindr_eq_Inr)
  from s have "sc_tpcMode s = MODE_FAST \<and> sc_waiting s = None \<and> sc_client s = LRClient_new (snd c) MODE_FAST"
    by (auto simp: ShardClient_new_def bindr_eq_Inr split: if_splits)
  with Cons.IH [OF bs(1)] bs(2) show ?case by (auto simp: BufferClient_new_def)
qed simp

lemma Client_new_inv:
  assumes "Client_new md MODE_FAST shards closest n tt tpcc jf cid = Inr c0" and "length shards < 2 ^ 31"
  shows "cl_inv {} c0"
proof -
  obtain bs where bs: "make_bclients MODE_FAST cid closest 0 shards = Inr bs" "cl_bclient c0 = bs"
    and c0: "cl_tpcMode c0 = MODE_FAST" "cl_actions c0 = []" "cl_participants c0 = []" "cl_heap c0 = Map.empty" "cl_app c0 = Idle"
    using assms(1) by (auto simp: Client_new_def bindr_eq_Inr)
  have "sc_tpcMode (shard_client c0 j) = MODE_FAST \<and> sc_waiting (shard_client c0 j) = None \<and>
      (\<exists>f. sc_client (shard_client c0 j) = LRClient_new f MODE_FAST)" if "j < length bs" for j
    using make_bclients_fast [OF bs(1)] bs(2) that by (auto simp: nth_mem)
  moreover have "length bs < 2 ^ 31" using make_bclients_fast [OF bs(1)] assms(2) by simp
  ultimately have "quiet c0"
    using c0 bs(2) by (fastforce simp: quiet_def fast_setup_def parts_ok_def fresh_def no_gets_def get_actions_def
        pending_gets_def LRClient_new_def)
  with c0 show ?thesis by (intro quiet_inv)
qed

definition votes_of :: "cl_event list \<Rightarrow> (nat \<times> PrepareTransactionReply) set" where
  "votes_of es = {(j, m). TMessage j (MPrepareReply m) \<in> set es}"

lemma event_votes_iff: "(j, m) \<in> event_votes e \<longleftrightarrow> e = TMessage j (MPrepareReply m)"
  by (cases e rule: event_votes.cases) auto

lemma cl_run_fast:
  assumes "cl_inv H c" "cl_run es c = Inr c'"
    and "\<forall>j m. TMessage j (MPrepareReply m) \<in> set es \<longrightarrow> int32 (pr_shard m) = int j"
  shows "cl_inv (H \<union> votes_of es) c'"
  using assms
proof (induction es arbitrary: H c)
  case Nil
  then show ?case by (simp add: votes_of_def)
next
  case (Cons e es)
  from Cons.prems(2) obtain d where d: "cl_step c e = Inr d" "cl_run es d = Inr c'" by (auto simp: bindr_eq_Inr)
  have "cl_inv (H \<union> event_votes e) d" using cl_step_fast [OF Cons.prems(1) d(1)] Cons.prems(3) by auto
  from Cons.IH [OF this d(2)] Cons.prems(3) have "cl_inv (H \<union> event_votes e \<union> votes_of es) c'" by simp
  moreover have "event_votes e \<union> votes_of es = votes_of (e # es)"
    using event_votes_iff by (auto simp: votes_of_def)
  ultimately show ?case by (simp add: Un_assoc)
qed

text \<open>Atomic commitment in fast mode: over all interleavings of the application thread, the work of
  the transport thread, the delivery of messages and the firing of timers, whenever
  \<^verbatim>\<open>Commit\<close> returns true, every participant of the transaction has voted: the client has received
  a \<^verbatim>\<open>PREPAREOK\<close> reply for this transaction from every shard it read or wrote. (The replicas of shard
  \<open>j\<close> put \<open>j\<close> into their replies.)\<close>

lemma commit_all_voted:
  assumes "Client_new md MODE_FAST shards closest n tt tpcc jf cid = Inr c0" and "length shards < 2 ^ 31"
    and "cl_run es c0 = Inr c" and "cl_step c e = Inr c'" and "cl_results c' = cl_results c @ [RCommit True]"
    and "\<forall>j m. TMessage j (MPrepareReply m) \<in> set (e # es) \<longrightarrow> int32 (pr_shard m) = int j"
  shows "all_voted (votes_of es) c"
proof -
  have "cl_inv (votes_of es) c"
    using cl_run_fast [OF Client_new_inv [OF assms(1,2)] assms(3)] assms(6) by simp
  from cl_step_fast [OF this assms(4)] assms(5,6) show ?thesis by auto
qed

section \<open>An example\<close>

definition demo_client :: Client where
  "demo_client = projr (Client_new MODE_OCC MODE_FAST [(3, 1), (3, 1)] 0 3 TrueTime_default False (\<lambda>t. Inl UninitRead) 50000)"

definition demo_ok :: "nat \<Rightarrow> cl_event" where
  "demo_ok j = TMessage j (MPrepareReply \<lparr>pr_tid = 50001, pr_state = LOG_STATE_PREPAREOK, pr_shard = of_nat j,
     pr_timestamp = 7, pr_reachFaultTolerance = 0, pr_replica = of_nat j\<rparr>)"

definition demo_time :: timeval where
  "demo_time = \<lparr>tv_sec = 1, tv_usec = 0\<rparr>"

definition demo_txn :: "cl_event list" where
  "demo_txn = [ABegin, APut ''x'' ''1'', APut ''y'' ''2'', ACommit demo_time demo_time, TRun 0 True, TRun 0 True,
     demo_ok 1, demo_ok 0]"

definition demo_waiting :: Client where
  "demo_waiting = projr (cl_run demo_txn demo_client)"

definition demo_done :: Client where
  "demo_done = projr (cl_step demo_waiting (AResume demo_time demo_time))"

lemma projr_Inr: "\<not> isl x \<Longrightarrow> x = Inr (projr x)"
  by (cases x) auto

end
