(* ===== verification/LRCommit.thy ===== *)
theory LRCommit
  imports LRReplica
begin

text \<open>
  Properties of the replica of a shard: what a decision does to the leader's and to a follower's
  store, that both install the same writes, what the timers and the cascade of aborts do.
\<close>

section \<open>The steps of a commit\<close>

lemma send_region_frame:
  "send_region env m ps s = Inr s' \<Longrightarrow> \<exists>out. s' = s\<lparr>lr_sent := out\<rparr>"
proof (induction ps arbitrary: s)
  case Nil
  then have "s' = s\<lparr>lr_sent := lr_sent s\<rparr>" by simp
  then show ?case by blast
next
  case (Cons p ps)
  then obtain i where "send_region env m ps (s\<lparr>lr_sent := lr_sent s @ [(DShard i (int32 (lr_replica_id s)), m)]\<rparr>) = Inr s'"
    by (auto simp: bindr_eq_Inr)
  from Cons.IH [OF this] show ?case by auto
qed

lemma notifyCommitToReplica_frame:
  assumes "notifyCommitToReplica env s req msg = Inr (req', s')"
  shows "\<exists>l out c. s' = s\<lparr>lr_log := l, lr_sent := out\<rparr> \<and> req' = req\<lparr>pt_send_confirms := c\<rparr> \<and>
    (lr_tpcMode s \<noteq> MODE_RC \<longrightarrow> out = lr_sent s @ [(DReplicas, SReplicateCommit
       \<lparr>rcm_tid = cm_tid msg, rcm_lsn = pt_lsn req, rcm_state = cm_state msg, rcm_timestamp = cm_timestamp msg\<rparr>)])"
proof -
  let ?s = "s\<lparr>lr_log := snd (SetStatus (lr_log s) (pt_tid req) (cm_state msg))\<rparr>"
  let ?m = "SReplicateCommit \<lparr>rcm_tid = cm_tid msg, rcm_lsn = pt_lsn req, rcm_state = cm_state msg,
    rcm_timestamp = cm_timestamp msg\<rparr>"
  show ?thesis
  proof (cases "lr_tpcMode s = MODE_RC")
    case True
    show ?thesis
    proof (cases "send_region env ?m (pt_participants req) ?s")
      case (Inr s1)
      from send_region_frame [OF this] obtain out where "s1 = ?s\<lparr>lr_sent := out\<rparr>" by blast
      moreover have "req' = req\<lparr>pt_send_confirms := pt_send_confirms req\<rparr>" "s' = s1"
        using assms True Inr by (simp_all add: notifyCommitToReplica_def Let_def)
      ultimately show ?thesis using True by blast
    qed (use assms True in \<open>simp add: notifyCommitToReplica_def Let_def\<close>)
  next
    case False
    let ?c = "if env_net env (length (lr_sent s)) then True else pt_send_confirms req"
    have "s' = ?s\<lparr>lr_sent := lr_sent s @ [(DReplicas, ?m)]\<rparr>" "req' = req\<lparr>pt_send_confirms := ?c\<rparr>"
      using assms False by (simp_all add: notifyCommitToReplica_def Let_def lr_send_def split: if_splits)
    then show ?thesis by blast
  qed
qed

lemma send_region_sent: "send_region env m ps s = Inr s' \<Longrightarrow> set (lr_sent s) \<subseteq> set (lr_sent s')"
proof (induction ps arbitrary: s)
  case (Cons p ps)
  then obtain i where "send_region env m ps (s\<lparr>lr_sent := lr_sent s @ [(DShard i (int32 (lr_replica_id s)), m)]\<rparr>) = Inr s'"
    by (auto simp: bindr_eq_Inr)
  from Cons.IH [OF this] show ?case by auto
qed simp

lemma notifyCommitToReplica_sent:
  assumes "notifyCommitToReplica env s req msg = Inr (req', s')"
  shows "set (lr_sent s) \<subseteq> set (lr_sent s')"
proof (cases "lr_tpcMode s = MODE_RC")
  case True
  with assms obtain m where "send_region env m (pt_participants req)
      (s\<lparr>lr_log := snd (SetStatus (lr_log s) (pt_tid req) (cm_state msg))\<rparr>) = Inr s'"
    by (auto simp: notifyCommitToReplica_def Let_def bindr_eq_Inr)
  from send_region_sent [OF this] show ?thesis by simp
next
  case False
  with assms show ?thesis
    by (auto simp: notifyCommitToReplica_def Let_def lr_send_def split: if_splits)
qed

lemma HandleCommit_participant:
  assumes "HandleCommit env s msg = Inr s'" and "lr_pendingTxns s (cm_tid msg) = Some req"
    and "pt_is_participant req"
  obtains e req1 s1 req2 s2 s3 where
    "log_Find (lr_log s) (pt_lsn req) = Some e"
    "(if pt_send_confirms req then Inr (req, (raise_ts s (cm_timestamp msg))\<lparr>lr_log :=
         set_entry (lr_log (raise_ts s (cm_timestamp msg))) (pt_lsn req) (e\<lparr>le_ts := Some (cm_timestamp msg)\<rparr>)\<rparr>)
      else notifyCommitToReplica env ((raise_ts s (cm_timestamp msg))\<lparr>lr_log :=
         set_entry (lr_log (raise_ts s (cm_timestamp msg))) (pt_lsn req) (e\<lparr>le_ts := Some (cm_timestamp msg)\<rparr>)\<rparr>) req msg) = Inr (req1, s1)"
    "(if pt_reach_commit_decision req1 then Inr (req1, s1) else applyToStore s1 req1 msg) = Inr (req2, s2)"
    "(if cm_state msg = LOG_STATE_COMMIT
      then notifyForFollowingDependenies env (put_pending (s2\<lparr>lr_activeTxns :=
        touch (lr_activeTxns s2) (cm_tid msg)\<rparr>) (cm_tid msg) req2) (cm_tid msg)
      else CascadeAbort env (put_pending (s2\<lparr>lr_activeTxns :=
        touch (lr_activeTxns s2) (cm_tid msg)\<rparr>) (cm_tid msg) req2) (cm_tid msg)) = Inr s3"
    "s' = erase_client ((erase_active (erase_pending s3 (cm_tid msg)) (cm_tid msg))\<lparr>lr_committedTxns :=
        (lr_committedTxns s3)(cm_tid msg \<mapsto> (cm_state msg, cm_timestamp msg))\<rparr>) (cm_tid msg)"
  using assms
  unfolding HandleCommit_def Let_def
  by (auto simp: bindr_eq_Inr erase_pending_def split: option.splits)

lemma HandleCommit_participantI:
  assumes "lr_pendingTxns s (cm_tid msg) = Some req" and "pt_is_participant req"
    and "log_Find (lr_log (raise_ts s (cm_timestamp msg))) (pt_lsn req) = Some e"
    and "(if pt_send_confirms req then Inr (req, (raise_ts s (cm_timestamp msg))\<lparr>lr_log :=
         set_entry (lr_log (raise_ts s (cm_timestamp msg))) (pt_lsn req) (e\<lparr>le_ts := Some (cm_timestamp msg)\<rparr>)\<rparr>)
      else notifyCommitToReplica env ((raise_ts s (cm_timestamp msg))\<lparr>lr_log :=
         set_entry (lr_log (raise_ts s (cm_timestamp msg))) (pt_lsn req) (e\<lparr>le_ts := Some (cm_timestamp msg)\<rparr>)\<rparr>) req msg) = Inr (req1, s1)"
    and "(if pt_reach_commit_decision req1 then Inr (req1, s1) else applyToStore s1 req1 msg) = Inr (req2, s2)"
    and "(if cm_state msg = LOG_STATE_COMMIT
      then notifyForFollowingDependenies env (put_pending (s2\<lparr>lr_activeTxns :=
        touch (lr_activeTxns s2) (cm_tid msg)\<rparr>) (cm_tid msg) req2) (cm_tid msg)
      else CascadeAbort env (put_pending (s2\<lparr>lr_activeTxns :=
        touch (lr_activeTxns s2) (cm_tid msg)\<rparr>) (cm_tid msg) req2) (cm_tid msg)) = Inr s3"
    and "active s3 (cm_tid msg) = Inr t"
  shows "HandleCommit env s msg = Inr (erase_client ((erase_active (erase_pending s3 (cm_tid msg)) (cm_tid msg))
    \<lparr>lr_committedTxns := (lr_committedTxns s3)(cm_tid msg \<mapsto> (cm_state msg, cm_timestamp msg))\<rparr>) (cm_tid msg))"
proof -
  have "(if lr_tpcMode (erase_pending s3 (cm_tid msg)) \<noteq> MODE_PARALLEL then active s3 (cm_tid msg)
      else Inr Transaction_default) = Inr (if lr_tpcMode s3 \<noteq> MODE_PARALLEL then t else Transaction_default)"
    by (simp add: assms(7) erase_pending_def)
  then show ?thesis
    unfolding HandleCommit_def Let_def
    by (simp only: assms(1-6) option.case not_True_eq_False if_False bindr_Inr prod.case) (simp add: erase_pending_def)
qed

lemma notifyForFollowing_frame:
  assumes "notifyForFollowingDependenies env s tid = Inr s'"
  shows "same_core s s' \<and> lr_store s' = lr_store s \<and> only_coordinator_sends s s'"
  using assms notify_outs_frame
  by (cases "lr_pendingTxns s tid") (auto simp: notifyForFollowingDependenies_def bindr_eq_Inr)

lemma applyToStore_commit:
  assumes "applyToStore s req msg = Inr (req', s')" and "cm_state msg = LOG_STATE_COMMIT"
  shows "s' = s\<lparr>lr_activeTxns := touch (lr_activeTxns s) (cm_tid msg),
    lr_store := (lr_store s)\<lparr>srv_store := store_Commit (srv_store (lr_store s)) (cm_tid msg) (cm_timestamp msg)\<rparr>\<rparr>"
  using assms by (auto simp: applyToStore_def Let_def CommitUpcall_def Request_new_def)

lemma leader_commit_all:
  assumes "HandleCommit env s msg = Inr s'" and "lr_pendingTxns s (cm_tid msg) = Some req"
    and "pt_is_participant req" and "\<not> pt_reach_commit_decision req" and "\<not> pt_send_confirms req"
    and "cm_state msg = LOG_STATE_COMMIT"
  shows "srv_store (lr_store s') = store_Commit (srv_store (lr_store s)) (cm_tid msg) (cm_timestamp msg) \<and>
    lr_pendingTxns s' = (lr_pendingTxns s)(cm_tid msg := None) \<and>
    lr_activeTxns s' (cm_tid msg) = None \<and> lr_clientList s' (cm_tid msg) = None \<and>
    lr_committedTxns s' = (lr_committedTxns s)(cm_tid msg \<mapsto> (LOG_STATE_COMMIT, cm_timestamp msg)) \<and>
    (lr_tpcMode s \<noteq> MODE_RC \<longrightarrow> (DReplicas, SReplicateCommit \<lparr>rcm_tid = cm_tid msg,
       rcm_lsn = pt_lsn req, rcm_state = LOG_STATE_COMMIT, rcm_timestamp = cm_timestamp msg\<rparr>) \<in> set (lr_sent s'))"
proof -
  let ?tid = "cm_tid msg"
  obtain e req1 s1 req2 s2 s3 where st:
    "notifyCommitToReplica env ((raise_ts s (cm_timestamp msg))\<lparr>lr_log :=
       set_entry (lr_log (raise_ts s (cm_timestamp msg))) (pt_lsn req) (e\<lparr>le_ts := Some (cm_timestamp msg)\<rparr>)\<rparr>) req msg = Inr (req1, s1)"
    "(if pt_reach_commit_decision req1 then Inr (req1, s1) else applyToStore s1 req1 msg) = Inr (req2, s2)"
    "notifyForFollowingDependenies env (put_pending (s2\<lparr>lr_activeTxns :=
        touch (lr_activeTxns s2) ?tid\<rparr>) ?tid req2) ?tid = Inr s3"
    "s' = erase_client ((erase_active (erase_pending s3 ?tid) ?tid)\<lparr>lr_committedTxns :=
        (lr_committedTxns s3)(?tid \<mapsto> (cm_state msg, cm_timestamp msg))\<rparr>) ?tid"
    by (rule HandleCommit_participant [OF assms(1-3)]) (use assms(5,6) in simp)
  obtain l out c where s1: "s1 = (raise_ts s (cm_timestamp msg))\<lparr>lr_log := l, lr_sent := out\<rparr>"
    and r1: "req1 = req\<lparr>pt_send_confirms := c\<rparr>"
    and out: "lr_tpcMode s \<noteq> MODE_RC \<longrightarrow> out = lr_sent s @ [(DReplicas, SReplicateCommit
       \<lparr>rcm_tid = ?tid, rcm_lsn = pt_lsn req, rcm_state = cm_state msg, rcm_timestamp = cm_timestamp msg\<rparr>)]"
    using notifyCommitToReplica_frame [OF st(1)] by auto
  have s2: "s2 = s1\<lparr>lr_activeTxns := touch (lr_activeTxns s1) ?tid,
      lr_store := (lr_store s1)\<lparr>srv_store := store_Commit (srv_store (lr_store s1)) ?tid (cm_timestamp msg)\<rparr>\<rparr>"
    using st(2) r1 assms(4,6) applyToStore_commit [of s1 req1 msg req2 s2] by simp
  note f = notifyForFollowing_frame [OF st(3)]
  have "set (lr_sent s2) \<subseteq> set (lr_sent s3)"
    using f by (auto simp: only_coordinator_sends_def put_pending_def)
  then show ?thesis
    using f out assms(6)
    by (auto simp: st(4) same_core_def lr_map_defs s2 s1)
qed

lemma leader_commit_store:
  assumes "HandleCommit env s msg = Inr s'" and "lr_pendingTxns s (cm_tid msg) = Some req"
    and "pt_is_participant req" and "\<not> pt_reach_commit_decision req" and "\<not> pt_send_confirms req"
    and "cm_state msg = LOG_STATE_COMMIT"
  shows "srv_store (lr_store s') = store_Commit (srv_store (lr_store s)) (cm_tid msg) (cm_timestamp msg)"
  using leader_commit_all [OF assms] by simp

section \<open>Properties\<close>

text \<open>A commit decision at the leader: for a pending, not yet decided transaction of a
  participant, a handled \<^verbatim>\<open>Commit\<close> applies exactly one commit of that transaction at the decided
  timestamp to the store, forgets the pending request, the active transaction and the client,
  records the decision, and (outside RC mode) tells the followers the same transaction and
  timestamp.\<close>

lemma leader_commit_effect:
  assumes "HandleCommit env s msg = Inr s'" and "lr_pendingTxns s (cm_tid msg) = Some req"
    and "pt_is_participant req" and "\<not> pt_reach_commit_decision req" and "\<not> pt_send_confirms req"
    and "cm_state msg = LOG_STATE_COMMIT"
  shows "srv_store (lr_store s') = store_Commit (srv_store (lr_store s)) (cm_tid msg) (cm_timestamp msg) \<and>
    lr_pendingTxns s' = (lr_pendingTxns s)(cm_tid msg := None) \<and>
    lr_activeTxns s' (cm_tid msg) = None \<and> lr_clientList s' (cm_tid msg) = None \<and>
    lr_committedTxns s' = (lr_committedTxns s)(cm_tid msg \<mapsto> (LOG_STATE_COMMIT, cm_timestamp msg)) \<and>
    (lr_tpcMode s \<noteq> MODE_RC \<longrightarrow> (DReplicas, SReplicateCommit \<lparr>rcm_tid = cm_tid msg,
       rcm_lsn = pt_lsn req, rcm_state = LOG_STATE_COMMIT, rcm_timestamp = cm_timestamp msg\<rparr>) \<in> set (lr_sent s'))"
  by (rule leader_commit_all [OF assms])

definition demo_env :: Env where
  "demo_env = \<lparr>env_net = (\<lambda>n. True), env_clk = demo_clk, env_depth = 5\<rparr>"

definition demo_replica :: "TpcMode \<Rightarrow> u64 \<Rightarrow> LRReplica" where
  "demo_replica tpc i = LRReplica_new 3 1 i 0 0 1 1 tpc
     \<lparr>srv_mode = MODE_OCC, srv_tpcMode = tpc, srv_store = OCC OCCStore_new\<rparr> 6"

definition demo_prepare :: PrepareTransaction where
  "demo_prepare = \<lparr>pm_tid = 9, pm_wset = [(''x'', ''1'')], pm_rset = [], pm_participants = [0],
     pm_primaryShard = 0, pm_mode = CM_FAST\<rparr>"

definition run_or :: "LRReplica \<Rightarrow> ub + LRReplica \<Rightarrow> LRReplica" where
  "run_or s r = (case r of Inl e \<Rightarrow> s | Inr s' \<Rightarrow> s')"

definition demo_leader :: "TpcMode \<Rightarrow> LRReplica" where
  "demo_leader tpc = run_or (demo_replica tpc 0) (HandlePrepareTxn demo_env (demo_replica tpc 0) 44 demo_prepare)"

definition demo_commit :: CommitMsg where
  "demo_commit = \<lparr>cm_tid = 9, cm_state = LOG_STATE_COMMIT, cm_timestamp = 12\<rparr>"

lemma run_or_Inr: "\<not> isl r \<Longrightarrow> r = Inr (run_or s r)"
  by (cases r) (simp_all add: run_or_def)

section \<open>Followers\<close>

lemma store_Prepare_unchecked:
  assumes "store_prepared s i = None"
  shows "\<exists>s'. store_Prepare clk s i t False = Inr (REPLY_OK, s') \<and> store_versions s' = store_versions s \<and>
    store_prepared s' = (store_prepared s)(i \<mapsto> t) \<and> store_precommitted s' = store_precommitted s"
  using assms by (cases s) (simp_all add: OCC_Prepare_def LS_Prepare_def)

lemma store_Commit_versions:
  assumes "store_precommitted s i = None" and "store_prepared s i = Some t"
  shows "store_versions (store_Commit s i ts) = commit_writes i (Timestamp_of ts) (txn_writeSet t) (store_versions s)"
  using assms by (cases s) (simp_all add: OCC_Commit_def LS_Commit_def)

lemma fold_addParticipant: "fold (\<lambda>q t. addParticipant t q) ps t = t\<lparr>txn_participants := txn_participants t @ ps\<rparr>"
  by (induction ps arbitrary: t) (simp_all add: addParticipant_def)

definition follower_txn :: "u64 \<Rightarrow> u64 \<Rightarrow> u64 \<Rightarrow> (string \<times> string) list \<Rightarrow> u64 list \<Rightarrow> Transaction" where
  "follower_txn tid ts r wset ps =
     fold (\<lambda>q t. addParticipant t q) ps (fold (\<lambda>(k, v) t. addWriteSet t k v) wset (Transaction_ts tid ts r))"

lemma follower_txn_writes:
  assumes "distinct (map fst wset)"
  shows "txn_wf (follower_txn tid ts r wset ps) \<and> txn_writeSet (follower_txn tid ts r wset ps) = wset"
proof -
  have "follower_txn tid ts r wset ps =
      (Transaction_ts tid ts r)\<lparr>txn_writeSet := wset, txn_participants := ps\<rparr>"
    using assms by (simp add: follower_txn_def fold_addParticipant fold_addWriteSet txn_ctor_defs)
  then show ?thesis using assms by (simp add: txn_wf_def txn_ctor_defs)
qed

text \<open>The state of a follower after it has stored a new log entry.\<close>

lemma HandleReplicateTransaction_new:
  assumes "\<not> lr_isLeader f" and "log_Find (lr_log f) (lp_lsn p) = None" and "rt_txnLog m = p"
    and "distinct (map fst (lp_wset p))" and "store_prepared (srv_store (lr_store f)) (lp_txnid p) = None"
  shows "\<exists>f1 t. HandleReplicateTransaction env f remote m = Inr f1 \<and> \<not> lr_isLeader f1 \<and>
    lr_activeTxns f1 = (lr_activeTxns f)(lp_txnid p \<mapsto> Some t) \<and>
    txn_writeSet (Transaction_of_msg (Transaction_serialize t)) = lp_wset p \<and>
    store_versions (srv_store (lr_store f1)) = store_versions (srv_store (lr_store f)) \<and>
    store_prepared (srv_store (lr_store f1)) = (store_prepared (srv_store (lr_store f)))
      (lp_txnid p \<mapsto> Transaction_of_msg (Transaction_serialize t)) \<and>
    store_precommitted (srv_store (lr_store f1)) = store_precommitted (srv_store (lr_store f))"
proof -
  let ?tid = "lp_txnid p"
  define t where "t = follower_txn ?tid (lp_timestamp p) (word_of_int (rt_replicaID m)) (lp_wset p) (rt_participants m)"
  have w: "txn_writeSet (Transaction_of_msg (Transaction_serialize t)) = lp_wset p"
    using follower_txn_writes [OF assms(4)] by (simp add: t_def Transaction_of_msg_serialize)
  obtain st where st: "store_Prepare (env_clk env) (srv_store (lr_store f)) ?tid
      (Transaction_of_msg (Transaction_serialize t)) False = Inr (REPLY_OK, st)"
    "store_versions st = store_versions (srv_store (lr_store f))"
    "store_prepared st = (store_prepared (srv_store (lr_store f)))(?tid \<mapsto> Transaction_of_msg (Transaction_serialize t))"
    "store_precommitted st = store_precommitted (srv_store (lr_store f))"
    using store_Prepare_unchecked [OF assms(5)] by blast
  have e: "entry_of_proto p = LogEntry_full (lp_term p) (lp_lsn p) ?tid (lp_wset p) (lp_state p) (lp_timestamp p)"
    by (rule entry_of_proto_eq [OF assms(4)])
  have up: "PrepareUpcall (env_clk env) (lr_store f)
      ((Request_new PREPARE ?tid)\<lparr>rq_prepare := Some (Transaction_serialize t)\<rparr>) False =
      Inr (status_reply REPLY_OK, True, (lr_store f)\<lparr>srv_store := st\<rparr>)"
    by (simp add: PrepareUpcall_def Request_new_def st(1))
  have "\<exists>f1. HandleReplicateTransaction env f remote m = Inr f1 \<and>
      lr_isLeader f1 = lr_isLeader f \<and> lr_activeTxns f1 = (lr_activeTxns f)(?tid \<mapsto> Some t) \<and>
      lr_store f1 = (lr_store f)\<lparr>srv_store := st\<rparr>"
    unfolding HandleReplicateTransaction_def Let_def assms(3)
    using assms(1,2) up
    by (auto simp: Log_Add_proto_def Log_Add_entry_def e LogEntry_full_def log_Find_def
        follower_txn_def [symmetric] t_def [symmetric] set_active_def)
  then show ?thesis using w st assms(1) by fastforce
qed

lemma follower_effect:
  assumes "\<not> lr_isLeader f" and "log_Find (lr_log f) (lp_lsn p) = None" and "rt_txnLog m = p"
    and "distinct (map fst (lp_wset p))" and "store_prepared (srv_store (lr_store f)) (lp_txnid p) = None"
    and "store_precommitted (srv_store (lr_store f)) (lp_txnid p) = None"
  shows "\<exists>f1 f2. lr_HandleMessage env f remote (LReplicateTransaction m) = Inr f1 \<and>
    lr_HandleMessage env f1 remote (LReplicateCommit \<lparr>rcm_tid = lp_txnid p, rcm_lsn = l,
      rcm_state = LOG_STATE_COMMIT, rcm_timestamp = ts\<rparr>) = Inr f2 \<and>
    store_versions (srv_store (lr_store f2)) =
      commit_writes (lp_txnid p) (Timestamp_of ts) (lp_wset p) (store_versions (srv_store (lr_store f))) \<and>
    store_prepared (srv_store (lr_store f2)) (lp_txnid p) = None \<and> lr_activeTxns f2 (lp_txnid p) = None"
proof -
  let ?tid = "lp_txnid p"
  obtain f1 t where f1: "HandleReplicateTransaction env f remote m = Inr f1" "\<not> lr_isLeader f1"
    "lr_activeTxns f1 = (lr_activeTxns f)(?tid \<mapsto> Some t)"
    "txn_writeSet (Transaction_of_msg (Transaction_serialize t)) = lp_wset p"
    "store_versions (srv_store (lr_store f1)) = store_versions (srv_store (lr_store f))"
    "store_prepared (srv_store (lr_store f1)) ?tid = Some (Transaction_of_msg (Transaction_serialize t))"
    "store_precommitted (srv_store (lr_store f1)) ?tid = None"
    using HandleReplicateTransaction_new [OF assms(1-5)] assms(6) by fastforce
  let ?c = "\<lparr>rcm_tid = ?tid, rcm_lsn = l, rcm_state = LOG_STATE_COMMIT, rcm_timestamp = ts\<rparr>"
  have "\<exists>f2. HandleReplicateCommit f1 ?c = Inr f2 \<and>
      srv_store (lr_store f2) = store_Commit (srv_store (lr_store f1)) ?tid ts \<and> lr_activeTxns f2 ?tid = None"
    using f1(2,3)
    by (auto simp: HandleReplicateCommit_def Let_def active_def deref_def touch_def CommitUpcall_def
        Request_new_def erase_active_def)
  then obtain f2 where f2: "HandleReplicateCommit f1 ?c = Inr f2"
    "srv_store (lr_store f2) = store_Commit (srv_store (lr_store f1)) ?tid ts" "lr_activeTxns f2 ?tid = None"
    by blast
  have "store_prepared (srv_store (lr_store f2)) ?tid = None"
    using f1(7) by (simp add: f2(2) store_Commit_view)
  then show ?thesis
    using f1 f2 store_Commit_versions [OF f1(7,6), of ts] by auto
qed

text \<open>A follower that receives the log entry of a new transaction and then its commit decision
  installs exactly the entry's writes at the decided timestamp, and keeps no trace of the
  transaction in its concurrency control.\<close>

lemma follower_installs_log_entry:
  assumes "\<not> lr_isLeader f" and "log_Find (lr_log f) (lp_lsn p) = None" and "rt_txnLog m = p"
    and "distinct (map fst (lp_wset p))" and "store_prepared (srv_store (lr_store f)) (lp_txnid p) = None"
    and "store_precommitted (srv_store (lr_store f)) (lp_txnid p) = None"
  shows "\<exists>f1 f2. lr_HandleMessage env f remote (LReplicateTransaction m) = Inr f1 \<and>
    lr_HandleMessage env f1 remote (LReplicateCommit \<lparr>rcm_tid = lp_txnid p, rcm_lsn = l,
      rcm_state = LOG_STATE_COMMIT, rcm_timestamp = ts\<rparr>) = Inr f2 \<and>
    store_versions (srv_store (lr_store f2)) =
      commit_writes (lp_txnid p) (Timestamp_of ts) (lp_wset p) (store_versions (srv_store (lr_store f))) \<and>
    store_prepared (srv_store (lr_store f2)) (lp_txnid p) = None \<and> lr_activeTxns f2 (lp_txnid p) = None"
  by (rule follower_effect [OF assms])

definition demo_entry :: LogEntryProto where
  "demo_entry = \<lparr>lp_wset = [(''x'', ''1'')], lp_state = LOG_STATE_PREPAREOK, lp_timestamp = 7, lp_term = 0,
     lp_lsn = 0, lp_txnid = 9\<rparr>"

definition demo_replicate :: ReplicateTransaction where
  "demo_replicate = \<lparr>rt_txnLog = demo_entry, rt_term = 0, rt_replicaID = 0, rt_primaryCoordinator = 0,
     rt_participants = [0], rt_primaryShard = 0, rt_vote = LOG_STATE_PREPAREOK, rt_hasPreCommit = False\<rparr>"

lemma demo_follower:
  "\<not> lr_isLeader (demo_replica tpc 1)" "log_Find (lr_log (demo_replica tpc 1)) i = None"
  "store_prepared (srv_store (lr_store (demo_replica tpc 1))) j = None"
  "store_precommitted (srv_store (lr_store (demo_replica tpc 1))) j = None"
  by (simp_all add: demo_replica_def LRReplica_new_def Log_new_def log_Find_def OCCStore_new_def)

text \<open>C16. Replicas of a shard converge: if the leader and a follower hold the same versions, the
  leader has prepared the transaction with the write set of its log entry, and the leader handles
  the commit while the follower receives the entry and the decision, then both hold the same
  versions again.\<close>

theorem replicas_converge:
  assumes "HandleCommit env s msg = Inr s'" and "lr_pendingTxns s (cm_tid msg) = Some req"
    and "pt_is_participant req" and "\<not> pt_reach_commit_decision req" and "\<not> pt_send_confirms req"
    and "cm_state msg = LOG_STATE_COMMIT"
    and "store_prepared (srv_store (lr_store s)) (cm_tid msg) = Some t"
    and "store_precommitted (srv_store (lr_store s)) (cm_tid msg) = None"
    and "\<not> lr_isLeader f" and "log_Find (lr_log f) (lp_lsn p) = None" and "rt_txnLog m = p"
    and "lp_txnid p = cm_tid msg" and "lp_wset p = txn_writeSet t" and "distinct (map fst (lp_wset p))"
    and "store_prepared (srv_store (lr_store f)) (cm_tid msg) = None"
    and "store_precommitted (srv_store (lr_store f)) (cm_tid msg) = None"
    and "store_versions (srv_store (lr_store f)) = store_versions (srv_store (lr_store s))"
  shows "\<exists>f1 f2. lr_HandleMessage env' f remote (LReplicateTransaction m) = Inr f1 \<and>
    lr_HandleMessage env' f1 remote (LReplicateCommit \<lparr>rcm_tid = cm_tid msg, rcm_lsn = pt_lsn req,
      rcm_state = LOG_STATE_COMMIT, rcm_timestamp = cm_timestamp msg\<rparr>) = Inr f2 \<and>
    store_versions (srv_store (lr_store f2)) = store_versions (srv_store (lr_store s'))"
proof -
  have "store_versions (srv_store (lr_store s')) =
      commit_writes (cm_tid msg) (Timestamp_of (cm_timestamp msg)) (txn_writeSet t) (store_versions (srv_store (lr_store s)))"
    using leader_commit_store [OF assms(1-6)] store_Commit_versions [OF assms(8,7)] by simp
  moreover have "\<exists>f1 f2. lr_HandleMessage env' f remote (LReplicateTransaction m) = Inr f1 \<and>
      lr_HandleMessage env' f1 remote (LReplicateCommit \<lparr>rcm_tid = lp_txnid p, rcm_lsn = pt_lsn req,
        rcm_state = LOG_STATE_COMMIT, rcm_timestamp = cm_timestamp msg\<rparr>) = Inr f2 \<and>
      store_versions (srv_store (lr_store f2)) = commit_writes (lp_txnid p) (Timestamp_of (cm_timestamp msg))
        (lp_wset p) (store_versions (srv_store (lr_store f)))"
    using follower_effect [OF assms(9-11,14), of env' remote "pt_lsn req" "cm_timestamp msg"] assms(12,15,16) by auto
  ultimately show ?thesis using assms(12,13,17) by auto
qed

text \<open>A follower that holds the versions of the leader.\<close>

definition demo_copy :: LRReplica where
  "demo_copy = (demo_replica MODE_FAST 1)\<lparr>lr_store := \<lparr>srv_mode = MODE_OCC, srv_tpcMode = MODE_FAST,
     srv_store = OCC (OCCStore_new\<lparr>occ_store := store_versions (srv_store (lr_store (demo_leader MODE_FAST)))\<rparr>)\<rparr>\<rparr>"

lemma demo_copy_state:
  "\<not> lr_isLeader demo_copy" "log_Find (lr_log demo_copy) i = None"
  "store_prepared (srv_store (lr_store demo_copy)) j = None"
  "store_precommitted (srv_store (lr_store demo_copy)) j = None"
  "store_versions (srv_store (lr_store demo_copy)) = store_versions (srv_store (lr_store (demo_leader MODE_FAST)))"
  by (simp_all add: demo_copy_def demo_replica_def LRReplica_new_def Log_new_def log_Find_def OCCStore_new_def)

theorem replicas_converge_witness:
  "\<exists>f1 f2. lr_HandleMessage demo_env demo_copy 40 (LReplicateTransaction demo_replicate) = Inr f1 \<and>
    lr_HandleMessage demo_env f1 40 (LReplicateCommit \<lparr>rcm_tid = 9, rcm_lsn = 0,
      rcm_state = LOG_STATE_COMMIT, rcm_timestamp = 12\<rparr>) = Inr f2 \<and>
    store_versions (srv_store (lr_store f2)) = store_versions (srv_store (lr_store
      (run_or (demo_leader MODE_FAST) (HandleCommit demo_env (demo_leader MODE_FAST) demo_commit))))"
proof -
  let ?s = "demo_leader MODE_FAST" and ?req = "the (lr_pendingTxns (demo_leader MODE_FAST) 9)"
  let ?t = "the (store_prepared (srv_store (lr_store (demo_leader MODE_FAST))) 9)"
  have r: "HandleCommit demo_env ?s demo_commit = Inr (run_or ?s (HandleCommit demo_env ?s demo_commit))"
    by (rule run_or_Inr) code_simp
  have h: "lr_pendingTxns ?s (cm_tid demo_commit) = Some ?req" "pt_is_participant ?req"
    "\<not> pt_reach_commit_decision ?req" "\<not> pt_send_confirms ?req" "cm_state demo_commit = LOG_STATE_COMMIT"
    "store_prepared (srv_store (lr_store ?s)) (cm_tid demo_commit) = Some ?t"
    "store_precommitted (srv_store (lr_store ?s)) (cm_tid demo_commit) = None"
    "rt_txnLog demo_replicate = demo_entry" "lp_txnid demo_entry = cm_tid demo_commit"
    "lp_wset demo_entry = txn_writeSet ?t" "distinct (map fst (lp_wset demo_entry))" "pt_lsn ?req = 0"
    by code_simp+
  from replicas_converge [OF r h(1-7) demo_copy_state(1,2) h(8-11) demo_copy_state(3-5), of demo_env 40] h(12)
  show ?thesis by (simp add: demo_commit_def)
qed

end
