(* ===== verification/LRFast.thy ===== *)
theory LRFast
  imports LRCommit
begin

text \<open>
  Histories of a replica that runs two-phase commit in fast mode (\<^verbatim>\<open>MODE_FAST\<close>): the messages
  that clients, the leader and the followers of a shard exchange in that mode, in any order, with
  repetitions and losses, and the firing of timers. One invariant (\<open>fast_inv\<close>) shows both that no
  handler leaves the defined part of the language and that a leader reports a transaction as
  prepared only after a quorum of replicas has acknowledged its log entry.
\<close>

section \<open>Events\<close>

datatype lr_event = EMsg addr lr_msg | ETimerTxn u64 | ETimerPrepare u64

fun lr_step :: "Env \<Rightarrow> LRReplica \<Rightarrow> lr_event \<Rightarrow> ub + LRReplica" where
  "lr_step env s (EMsg a m) = lr_HandleMessage env s a m"
| "lr_step env s (ETimerTxn tid) = lr_timeout_txn env s tid"
| "lr_step env s (ETimerPrepare tid) = lr_timeout_prepare env s tid"

primrec lr_run :: "(Env \<times> lr_event) list \<Rightarrow> LRReplica \<Rightarrow> ub + LRReplica" where
  "lr_run [] s = Inr s"
| "lr_run (x # xs) s = bindr (lr_step (fst x) s (snd x)) (lr_run xs)"

text \<open>
  The traffic of fast mode: requests carry a mode other than \<^verbatim>\<open>SLOW\<close> and \<^verbatim>\<open>RC\<close>, a decision
  commits or aborts, and the messages of the coordinator group and of \<^verbatim>\<open>ParallelModeCommit\<close> do
  not occur.
\<close>

fun fast_msg :: "lr_msg \<Rightarrow> bool" where
  "fast_msg (LPrepareTransaction m) = (pm_mode m \<noteq> CM_SLOW \<and> pm_mode m \<noteq> CM_RC)"
| "fast_msg (LCommit m) = (cm_state m = LOG_STATE_COMMIT \<or> cm_state m = LOG_STATE_ABORT)"
| "fast_msg (LNotifyDecision tid st ts) = False"
| "fast_msg (LNotifyReplicateResult tid ok ts) = False"
| "fast_msg (LParallelModeCommit tid ps) = False"
| "fast_msg m = True"

fun fast_event :: "Env \<times> lr_event \<Rightarrow> bool" where
  "fast_event (env, EMsg a m) = (0 < env_depth env \<and> fast_msg m)"
| "fast_event (env, e) = (0 < env_depth env)"

text \<open>The acknowledgements among the events of a history.\<close>

primrec acks :: "(Env \<times> lr_event) list \<Rightarrow> ReplicateTransactionReply list" where
  "acks [] = []"
| "acks (x # xs) = (case snd x of EMsg a (LReplicateTransactionReply m) \<Rightarrow> m # acks xs | _ \<Rightarrow> acks xs)"

definition replied :: "ReplicateTransactionReply set \<Rightarrow> u64 \<Rightarrow> u64 \<Rightarrow> int set" where
  "replied H tid term = rr_replicaID ` {m \<in> H. rr_txnid m = tid \<and> rr_term m = term}"

definition log_replicated :: "ReplicateTransactionReply set \<Rightarrow> int \<Rightarrow> u64 \<Rightarrow> bool" where
  "log_replicated H f tid \<longleftrightarrow> (\<exists>term. f + 1 \<le> int (card (replied H tid term)))"

section \<open>The stores stay usable\<close>

lemma PrepareUpcall_ok:
  assumes "store_ok (srv_store sv)"
  obtains rep ok sv' where "PrepareUpcall clk sv rq c = Inr (rep, ok, sv')" "store_ok (srv_store sv')"
proof -
  obtain r st where "store_Prepare clk (srv_store sv) (rq_txnid rq)
      (Transaction_of_msg (case rq_prepare rq of None \<Rightarrow> TransactionMessage_default | Some m \<Rightarrow> m)) c = Inr (r, st)"
    "store_ok st"
    using store_Prepare_ok [OF assms] by blast
  then show thesis
    by (intro that [of "status_reply r" "r = REPLY_OK \<or> r = REPLY_HAS_PRECOMMIT" "sv\<lparr>srv_store := st\<rparr>"])
      (simp_all add: PrepareUpcall_def Let_def)
qed

section \<open>Log entries have all their members\<close>

definition entry_full :: "LogEntry \<Rightarrow> bool" where
  "entry_full e \<longleftrightarrow> le_term e \<noteq> None \<and> le_id e \<noteq> None \<and> le_txn e \<noteq> None \<and> le_state e \<noteq> None \<and> le_ts e \<noteq> None"

definition log_full :: "Log \<Rightarrow> bool" where
  "log_full l \<longleftrightarrow> lg_last l \<noteq> None \<and> (\<forall>i e. log_Find l i = Some e \<longrightarrow> entry_full e)"

lemma entry_full_ctor [simp]:
  "entry_full (LogEntry_full t i x w st ts)" "entry_full (entry_of_proto p)"
proof -
  have "entry_full e \<Longrightarrow> entry_full (fold (\<lambda>(k, v) e. entry_addWriteSet e k v) ws e)" for ws e
    by (induction ws arbitrary: e) (auto simp: entry_full_def entry_addWriteSet_def)
  then show "entry_full (entry_of_proto p)"
    by (simp add: entry_of_proto_def entry_full_def setState_def LogEntry_ts_def)
qed (simp add: entry_full_def LogEntry_full_def)

lemma entry_of_proto_id [simp]: "le_id (entry_of_proto p) = Some (lp_lsn p)"
proof -
  have "le_id (fold (\<lambda>(k, v) e. entry_addWriteSet e k v) ws e) = le_id e" for ws e
    by (induction ws arbitrary: e) (auto simp: entry_addWriteSet_def)
  then show ?thesis by (simp add: entry_of_proto_def setState_def LogEntry_ts_def)
qed

lemma log_full_new [simp]: "log_full (Log_new 0)"
  by (simp add: log_full_def Log_new_def log_Find_def)

lemma log_Find_set_entry: "log_Find (set_entry l i e) = (log_Find l)(i \<mapsto> e)"
  by (simp add: fun_eq_iff log_Find_def set_entry_def)

lemma log_full_set_entry [inv_intro]: "log_full l \<Longrightarrow> entry_full e \<Longrightarrow> log_full (set_entry l i e)"
  by (simp add: log_full_def log_Find_set_entry) (simp add: set_entry_def)

lemma log_full_SetStatus [inv_intro]: "log_full l \<Longrightarrow> log_full (snd (SetStatus l i st))"
  by (auto simp: SetStatus_def split: option.split intro!: log_full_set_entry)
    (auto simp: log_full_def entry_full_def setState_def)

lemma log_Find_SetStatus: "(log_Find (snd (SetStatus l i st)) j = None) = (log_Find l j = None)"
  by (auto simp: SetStatus_def log_Find_set_entry split: option.split)

lemma Log_Add_total:
  assumes "log_full l"
  obtains i l' where "Log_Add l term txn w st ts = Inr (i, l')" "log_full l'"
    "log_Find l' = (log_Find l)(i \<mapsto> LogEntry_full term i txn w st ts)"
proof -
  obtain i where i: "lg_last l = Some i" using assms by (auto simp: log_full_def)
  let ?e = "LogEntry_full term i txn w st ts"
  let ?l = "l\<lparr>lg_last := Some (i + 1), lg_entries := smap_put i ?e (lg_entries l),
      lg_storedEntries := lg_storedEntries l @ [i]\<rparr>"
  have f: "log_Find ?l = (log_Find l)(i \<mapsto> ?e)" by (simp add: fun_eq_iff log_Find_def)
  have "Log_Add l term txn w st ts = Inr (i, ?l)"
    by (simp add: Log_Add_def Log_Add_entry_def i LogEntry_full_def)
  moreover have "log_full ?l" using assms f by (simp add: log_full_def)
  ultimately show thesis using f that by blast
qed

lemma Log_Add_proto_total:
  assumes "log_full l"
  obtains l' where "Log_Add_proto l p = Inr l'" "log_full l'"
    "log_Find l' = (log_Find l)(lp_lsn p \<mapsto> entry_of_proto p)"
proof -
  let ?l = "l\<lparr>lg_entries := smap_put (lp_lsn p) (entry_of_proto p) (lg_entries l),
      lg_storedEntries := lg_storedEntries l @ [lp_lsn p]\<rparr>"
  have f: "log_Find ?l = (log_Find l)(lp_lsn p \<mapsto> entry_of_proto p)" by (simp add: fun_eq_iff log_Find_def)
  have "Log_Add_proto l p = Inr ?l" by (simp add: Log_Add_proto_def Log_Add_entry_def)
  moreover have "log_full ?l" using assms f by (simp add: log_full_def)
  ultimately show thesis using f that by blast
qed

lemma EntryToProto_total:
  assumes "log_full l" and "log_Find l i \<noteq> None"
  obtains p where "EntryToProto l i = Inr (p, l)"
proof -
  obtain e where e: "log_Find l i = Some e" using assms(2) by auto
  then have "entry_full e" using assms(1) by (auto simp: log_full_def)
  then have "\<exists>p. entry_proto e = Inr p" by (auto simp: entry_full_def entry_proto_def)
  with e show thesis by (auto simp: EntryToProto_def intro: that)
qed

section \<open>The invariant\<close>

definition quorum_ok :: "ReplicateTransactionReply set \<Rightarrow> u64 \<Rightarrow> (u64, ReplicateTransactionReply) QuorumSet \<Rightarrow> bool" where
  "quorum_ok H tid q \<longleftrightarrow> qs_wf q \<and> (\<forall>term. fst ` set (qs_at q term) \<subseteq> replied H tid term)"

definition txn_req_ok :: "ReplicateTransactionReply set \<Rightarrow> int \<Rightarrow> u64 \<Rightarrow> PendingTransaction \<Rightarrow> bool" where
  "txn_req_ok H f tid req \<longleftrightarrow> pt_tid req = tid \<and> pt_primary_shard req \<noteq> None \<and> pt_timer req \<noteq> None \<and>
     int (pt_majority req) = f + 1 \<and> quorum_ok H tid (pt_quorum req) \<and>
     (pt_reach_consensus req \<longrightarrow> pt_finalResult req = Some LOG_STATE_PREPAREOK \<and> log_replicated H f tid) \<and>
     (\<forall>b. pt_timer req = Some (CB_ResendPrepareOK, b) \<longrightarrow> pt_reach_consensus req)"

definition pending_ok :: "ReplicateTransactionReply set \<Rightarrow> int \<Rightarrow> LRReplica \<Rightarrow> u64 \<Rightarrow> PendingTransaction \<Rightarrow> bool" where
  "pending_ok H f s tid req \<longleftrightarrow> txn_req_ok H f tid req \<and> lr_isLeader s \<and> log_Find (lr_log s) (pt_lsn req) \<noteq> None \<and>
     (\<exists>t. lr_activeTxns s tid = Some (Some t)) \<and> (\<exists>a. lr_clientList s tid = Some (Some a))"

definition lr_sends_ok :: "ReplicateTransactionReply set \<Rightarrow> int \<Rightarrow> LRReplica \<Rightarrow> bool" where
  "lr_sends_ok H f s \<longleftrightarrow> (\<forall>d r. (d, SPrepareTransactionReply r) \<in> set (lr_sent s) \<longrightarrow>
     pr_shard r = lr_shard_id s \<and> (pr_state r = LOG_STATE_PREPAREOK \<longrightarrow> log_replicated H f (pr_tid r)))"

definition fast_inv :: "ReplicateTransactionReply set \<Rightarrow> int \<Rightarrow> u64 \<Rightarrow> LRReplica \<Rightarrow> bool" where
  "fast_inv H f sh s \<longleftrightarrow> lr_tpcMode s = MODE_FAST \<and> lr_f s = f \<and> lr_shard_id s = sh \<and> (word_of_int (lr_n s) :: u64) \<noteq> 0 \<and>
     lr_pendingPrepares s = Map.empty \<and> store_ok (srv_store (lr_store s)) \<and> log_full (lr_log s) \<and>
     (\<forall>tid t. lr_activeTxns s tid = Some (Some t) \<longrightarrow> txn_out t = []) \<and>
     (\<forall>tid st ts. lr_committedTxns s tid = Some (st, ts) \<longrightarrow> st \<noteq> LOG_STATE_PREPAREOK) \<and>
     (\<forall>tid req. lr_pendingTxns s tid = Some req \<longrightarrow> pending_ok H f s tid req) \<and> lr_sends_ok H f s"

lemma quorum_ok_new [simp]: "quorum_ok H tid (QuorumSet_new n)"
  by (simp add: quorum_ok_def)

lemma quorum_ok_Add:
  "quorum_ok H (rr_txnid m) q \<Longrightarrow> m \<in> H \<Longrightarrow> quorum_ok H (rr_txnid m) (qs_Add q (rr_term m) (rr_replicaID m) m)"
  by (auto simp: quorum_ok_def qs_wf_Add qs_at_Add fst_set_smap_put) (auto simp: replied_def)

lemma quorum_ok_GetMessages:
  assumes "quorum_ok H tid q"
  shows "quorum_ok H tid (snd (GetMessages q term))"
proof -
  have "ascending (qs_messages q) \<Longrightarrow> ascending (smap_put term (qs_at q term) (qs_messages q))"
    by (rule ascending_smap_put)
  then show ?thesis
    using assms by (simp add: quorum_ok_def GetMessages_def qs_at_update qs_wf_def)
qed

lemma quorum_ok_replicated:
  assumes "quorum_ok H tid q" and "finite H" and "f + 1 \<le> int (length (qs_at q term))"
  shows "log_replicated H f tid"
proof -
  have "length (qs_at q term) = card (fst ` set (qs_at q term))"
    using assms(1) by (intro qs_count) (simp add: quorum_ok_def)
  also have "\<dots> \<le> card (replied H tid term)"
    using assms(1,2) by (intro card_mono) (auto simp: quorum_ok_def replied_def)
  finally show ?thesis using assms(3) unfolding log_replicated_def by (intro exI [of _ "term"]) simp
qed

text \<open>What each change of the state keeps.\<close>

lemma fast_inv_send:
  assumes "fast_inv H f sh s"
    and "\<And>r. m = SPrepareTransactionReply r \<Longrightarrow> pr_shard r = lr_shard_id s \<and>
      (pr_state r = LOG_STATE_PREPAREOK \<longrightarrow> log_replicated H f (pr_tid r))"
  shows "fast_inv H f sh (s\<lparr>lr_sent := lr_sent s @ [(d, m)]\<rparr>)"
  using assms by (auto simp: fast_inv_def lr_sends_ok_def pending_ok_def)

lemma fast_inv_raise [simp]: "fast_inv H f sh (raise_ts s ts) = fast_inv H f sh s"
  by (simp add: fast_inv_def pending_ok_def lr_sends_ok_def)

lemma fast_inv_ts [simp]: "fast_inv H f sh (s\<lparr>lr_current_ts := ts\<rparr>) = fast_inv H f sh s"
  by (simp add: fast_inv_def pending_ok_def lr_sends_ok_def)

lemma fast_inv_inDependency [simp]: "fast_inv H f sh (s\<lparr>lr_inDependency := d\<rparr>) = fast_inv H f sh s"
  by (simp add: fast_inv_def pending_ok_def lr_sends_ok_def)

lemma fast_inv_store: "fast_inv H f sh s \<Longrightarrow> store_ok (srv_store sv) \<Longrightarrow> fast_inv H f sh (s\<lparr>lr_store := sv\<rparr>)"
  by (simp add: fast_inv_def pending_ok_def lr_sends_ok_def)

lemma fast_inv_log:
  "fast_inv H f sh s \<Longrightarrow> log_full l \<Longrightarrow> (\<And>i. log_Find (lr_log s) i \<noteq> None \<Longrightarrow> log_Find l i \<noteq> None) \<Longrightarrow>
   fast_inv H f sh (s\<lparr>lr_log := l\<rparr>)"
  unfolding fast_inv_def pending_ok_def lr_sends_ok_def by simp

lemma fast_inv_client:
  "fast_inv H f sh s \<Longrightarrow> fast_inv H f sh (s\<lparr>lr_clientList := (lr_clientList s)(tid \<mapsto> Some a)\<rparr>)"
  by (auto simp: fast_inv_def pending_ok_def lr_sends_ok_def)

lemma fast_inv_active: "fast_inv H f sh s \<Longrightarrow> txn_out t = [] \<Longrightarrow> fast_inv H f sh (set_active s tid t)"
  by (auto simp: fast_inv_def pending_ok_def lr_sends_ok_def set_active_def)

lemma fast_inv_put: "fast_inv H f sh s \<Longrightarrow> pending_ok H f s tid req \<Longrightarrow> fast_inv H f sh (put_pending s tid req)"
  by (simp add: fast_inv_def pending_ok_def lr_sends_ok_def put_pending_def)

lemma fast_inv_erase_pending: "fast_inv H f sh s \<Longrightarrow> fast_inv H f sh (erase_pending s tid)"
  by (simp add: fast_inv_def pending_ok_def lr_sends_ok_def erase_pending_def)

lemma fast_inv_erase_active:
  "fast_inv H f sh s \<Longrightarrow> lr_pendingTxns s tid = None \<Longrightarrow> fast_inv H f sh (erase_active s tid)"
  by (auto simp: fast_inv_def pending_ok_def lr_sends_ok_def erase_active_def)

lemma fast_inv_erase_client:
  "fast_inv H f sh s \<Longrightarrow> lr_pendingTxns s tid = None \<Longrightarrow> fast_inv H f sh (erase_client s tid)"
  by (auto simp: fast_inv_def pending_ok_def lr_sends_ok_def erase_client_def)

lemma fast_inv_touch:
  "fast_inv H f sh s \<Longrightarrow> fast_inv H f sh (s\<lparr>lr_activeTxns := touch (lr_activeTxns s) tid\<rparr>)"
  by (fastforce simp: fast_inv_def pending_ok_def lr_sends_ok_def touch_def split: option.split)

lemma fast_inv_committed:
  "fast_inv H f sh s \<Longrightarrow> st \<noteq> LOG_STATE_PREPAREOK \<Longrightarrow>
   fast_inv H f sh (s\<lparr>lr_committedTxns := (lr_committedTxns s)(tid \<mapsto> (st, ts))\<rparr>)"
  by (simp add: fast_inv_def pending_ok_def lr_sends_ok_def)

lemma fast_invD:
  assumes "fast_inv H f sh s"
  shows "lr_tpcMode s = MODE_FAST" "lr_f s = f" "lr_pendingPrepares s = Map.empty"
    "store_ok (srv_store (lr_store s))" "log_full (lr_log s)" "umod x (lr_n s) = Inr (x mod word_of_int (lr_n s))"
    "lr_committedTxns s tid = Some (st, ts) \<Longrightarrow> st \<noteq> LOG_STATE_PREPAREOK"
    "lr_activeTxns s tid = Some (Some t) \<Longrightarrow> txn_out t = []"
    "lr_pendingTxns s tid = Some req \<Longrightarrow> pending_ok H f s tid req"
  using assms unfolding fast_inv_def umod_def by (simp_all, blast)

lemmas fast_inv_intros = fast_inv_store fast_inv_client fast_inv_active fast_inv_put
  fast_inv_erase_pending fast_inv_erase_active fast_inv_erase_client fast_inv_touch fast_inv_committed

lemma fast_active:
  "pending_ok H f s tid req \<Longrightarrow> \<exists>t. active s tid = Inr t \<and> lr_activeTxns s tid = Some (Some t)"
  by (auto simp: pending_ok_def active_def deref_def)

lemma fast_client: "pending_ok H f s tid req \<Longrightarrow> \<exists>a. deref (lr_clientList s) tid = Inr a"
  by (auto simp: pending_ok_def deref_def)

section \<open>Every handler keeps it\<close>

definition keeps :: "ReplicateTransactionReply set \<Rightarrow> int \<Rightarrow> u64 \<Rightarrow> ub + LRReplica \<Rightarrow> bool" where
  "keeps H f sh r \<longleftrightarrow> (\<exists>s. r = Inr s \<and> fast_inv H f sh s)"

lemma keeps_Inr [simp]: "keeps H f sh (Inr s) = fast_inv H f sh s"
  by (simp add: keeps_def)

lemma keeps_bindr: "keeps H f sh r \<Longrightarrow> (\<And>s. fast_inv H f sh s \<Longrightarrow> keeps H f sh (g s)) \<Longrightarrow> keeps H f sh (bindr r g)"
  by (auto simp: keeps_def)

lemma txn_req_ok_timer:
  "txn_req_ok H f tid req \<Longrightarrow> cb \<noteq> CB_ResendPrepareOK \<or> pt_reach_consensus req \<Longrightarrow>
   txn_req_ok H f tid (req\<lparr>pt_timer := Some (cb, b)\<rparr>)"
  by (auto simp: txn_req_ok_def)

lemma timer_Reset_ok:
  assumes "txn_req_ok H f tid req"
  obtains t where "timer_Reset (pt_timer req) = Inr t" "txn_req_ok H f tid (req\<lparr>pt_timer := t\<rparr>)"
proof -
  obtain cb b where t: "pt_timer req = Some (cb, b)" using assms by (auto simp: txn_req_ok_def)
  then have "txn_req_ok H f tid (req\<lparr>pt_timer := Some (cb, True)\<rparr>)"
    using assms by (intro txn_req_ok_timer) (auto simp: txn_req_ok_def)
  with t show thesis by (auto simp: timer_Reset_def intro: that)
qed

lemma pending_ok_sent [simp]: "pending_ok H f (s\<lparr>lr_sent := x\<rparr>) tid req = pending_ok H f s tid req"
  by (simp add: pending_ok_def)

lemma pending_ok_timer:
  "pending_ok H f s tid req \<Longrightarrow> txn_req_ok H f tid (req\<lparr>pt_timer := t\<rparr>) \<Longrightarrow> pending_ok H f s tid (req\<lparr>pt_timer := t\<rparr>)"
  by (simp add: pending_ok_def)

lemma pending_ok_req: "pending_ok H f s tid req \<Longrightarrow> txn_req_ok H f tid req"
  by (simp add: pending_ok_def)

lemma ReplicateTxn_fast:
  assumes inv: "fast_inv H f sh s" and ok: "pending_ok H f s tid req"
  shows "keeps H f sh (ReplicateTxn env s req)"
proof -
  have tid: "pt_tid req = tid" using ok by (simp add: pending_ok_def txn_req_ok_def)
  obtain p where p: "EntryToProto (lr_log s) (pt_lsn req) = Inr (p, lr_log s)"
    using EntryToProto_total [OF fast_invD(5) [OF inv]] ok by (auto simp: pending_ok_def)
  obtain ps where ps: "pt_primary_shard req = Some ps" using ok by (auto simp: pending_ok_def txn_req_ok_def)
  obtain t where t: "timer_Reset (pt_timer req) = Inr t" "txn_req_ok H f tid (req\<lparr>pt_timer := t\<rparr>)"
    using timer_Reset_ok [OF pending_ok_req [OF ok]] by blast
  have log: "s\<lparr>lr_log := lr_log s, lr_sent := x\<rparr> = s\<lparr>lr_sent := x\<rparr>" for x by simp
  show ?thesis
    unfolding ReplicateTxn_def p ps tid
    by (simp add: fast_invD(6) [OF inv] lr_send_def t(1) log split: bool.split)
      (auto intro!: fast_inv_intros fast_inv_send inv pending_ok_timer t(2) simp: ok)
qed

lemma ResendReplicateTxn_fast:
  "fast_inv H f sh s \<Longrightarrow> lr_pendingTxns s tid = Some req \<Longrightarrow> keeps H f sh (ResendReplicateTxn env s tid)"
  by (simp add: ResendReplicateTxn_def fast_invD(1) ReplicateTxn_fast [OF _ fast_invD(9)])

lemma pt_majority_new:
  assumes "0 \<le> f" and "f < 2 ^ 31 - 1"
  shows "int (unat (word_of_int (QuorumSize f) :: u64)) = f + 1"
proof -
  have "(f + 1) mod 2 ^ 64 = f + 1" using assms by (intro mod_pos_pos_trivial) auto
  then show ?thesis unfolding QuorumSize_def by (simp only: uint_nat [symmetric] uint_word_of_int) simp
qed

lemma InvokeReplicateTxn_fast:
  assumes inv: "fast_inv H f sh s" and f: "0 \<le> f" "f < 2 ^ 31 - 1" and leader: "lr_isLeader s"
    and t: "lr_activeTxns s tid = Some (Some t)" "txn_primary_shard t \<noteq> None"
    and log: "log_Find (lr_log s) lsn \<noteq> None" and cl: "lr_clientList s tid = Some (Some a)"
  shows "keeps H f sh (InvokeReplicateTxn env s tid lsn b)"
proof (cases "lr_pendingTxns s tid")
  case None
  let ?req = "(PendingTransaction_new (Some (CB_ResendReplicateTxn, False)) (QuorumSize (lr_f s)) lsn tid
      (txn_participants t) (txn_primary_shard t))\<lparr>pt_has_precommit := b\<rparr>"
  have "txn_req_ok H f tid ?req"
    using t(2) pt_majority_new [OF f] fast_invD(2) [OF inv]
    by (simp add: txn_req_ok_def PendingTransaction_new_def)
  then have ok: "pending_ok H f s tid ?req"
    using leader t log cl by (simp add: pending_ok_def PendingTransaction_new_def)
  have "pending_ok H f (put_pending s tid ?req) tid ?req"
    using ok by (simp add: pending_ok_def put_pending_def)
  then have "keeps H f sh (ReplicateTxn env (put_pending s tid ?req) ?req)"
    by (rule ReplicateTxn_fast [OF fast_inv_put [OF inv ok]])
  moreover have "active s tid = Inr t" by (simp add: active_def deref_def t(1))
  ultimately show ?thesis
    using None fast_invD(1) [OF inv] by (simp add: InvokeReplicateTxn_def Let_def put_pending_def)
next
  case (Some req)
  then have "pt_timer req \<noteq> None"
    using fast_invD(9) [OF inv] by (auto simp: pending_ok_def txn_req_ok_def)
  with Some show ?thesis
    using ResendReplicateTxn_fast [OF inv Some] by (auto simp: InvokeReplicateTxn_def)
qed

lemma fold_frame: "(\<And>x t. g (h x t) = g t) \<Longrightarrow> g (fold h xs t) = g t"
  by (induction xs arbitrary: t) simp_all

lemma txn_of_prepare_frame [simp]:
  "txn_out (txn_of_prepare t m) = txn_out t"
  "txn_primary_shard (txn_of_prepare t m) = txn_primary_shard t"
  by (simp_all add: txn_of_prepare_def fold_frame [of txn_out] fold_frame [of txn_primary_shard]
      addParticipant_def addReadSet_def addWriteSet_def split_beta)

lemma leader_replicate_fast:
  assumes inv: "fast_inv H f sh s" and f: "0 \<le> f" "f < 2 ^ 31 - 1" and leader: "lr_isLeader s"
    and t: "txn_primary_shard t \<noteq> None" "txn_out t = []" "txn_in t \<noteq> None"
  shows "keeps H f sh (leader_replicate env s remote tid t)"
proof -
  let ?s = "set_active (s\<lparr>lr_clientList := (lr_clientList s)(tid \<mapsto> Some remote)\<rparr>) tid t"
  have s: "fast_inv H f sh ?s" using inv t(2) by (intro fast_inv_intros)
  obtain n where n: "txn_in t = Some n" using t(3) by auto
  obtain i l where l: "Log_Add (lr_log ?s) (lr_term ?s) tid (txn_writeSet t) LOG_STATE_PREPAREOK
      (getTimestamp (txn_commitTs t)) = Inr (i, l)" "log_full l" "log_Find l = (log_Find (lr_log ?s))
      (i \<mapsto> LogEntry_full (lr_term ?s) i tid (txn_writeSet t) LOG_STATE_PREPAREOK (getTimestamp (txn_commitTs t)))"
    using Log_Add_total [OF fast_invD(5) [OF s]] by blast
  have "fast_inv H f sh (?s\<lparr>lr_log := l\<rparr>)"
    by (rule fast_inv_log [OF s l(2)]) (simp add: l(3))
  then have "keeps H f sh (InvokeReplicateTxn env (?s\<lparr>lr_log := l\<rparr>) tid i (n > 0))"
    by (rule InvokeReplicateTxn_fast [OF _ f]) (use leader t l(3) in \<open>simp_all add: set_active_def\<close>)
  then show ?thesis by (simp add: leader_replicate_def Let_def l(1) n)
qed

lemma prepare_new_fast:
  assumes inv: "fast_inv H f sh s" and f: "0 \<le> f" "f < 2 ^ 31 - 1"
  shows "keeps H f sh (prepare_new env s remote msg)"
proof -
  let ?tid = "pm_tid msg"
  let ?s = "s\<lparr>lr_current_ts := lr_current_ts s + 1, lr_inDependency := (lr_inDependency s)(?tid := None)\<rparr>"
  let ?txn = "setIn (txn_of_prepare (Transaction_primary ?tid (lr_current_ts s + 1) (lr_replica_id s)
      (pm_primaryShard msg)) msg) (word_of_int (case lr_inDependency s ?tid of None \<Rightarrow> 0 | Some n \<Rightarrow> n))"
  note mode = fast_invD(1) [OF inv]
  have s: "fast_inv H f sh ?s" using inv by simp
  then have st: "store_ok (srv_store (lr_store ?s))" by (rule fast_invD(4))
  obtain rep ok sv where up: "PrepareUpcall (env_clk env) (lr_store ?s)
      ((Request_new PREPARE ?tid)\<lparr>rq_prepare := Some (Transaction_serialize ?txn)\<rparr>) (lr_isLeader s) = Inr (rep, ok, sv)"
    "store_ok (srv_store sv)"
    by (rule PrepareUpcall_ok [OF st])
  have s1: "fast_inv H f sh (?s\<lparr>lr_store := sv\<rparr>)" by (rule fast_inv_store [OF s up(2)])
  have t: "txn_primary_shard ?txn \<noteq> None" "txn_out ?txn = []" "txn_in ?txn \<noteq> None"
    by (simp_all add: setIn_def txn_ctor_defs)
  have "prepare_new env s remote msg =
      (if \<not> ok then Inr (snd (lr_send env (?s\<lparr>lr_store := sv\<rparr>) (DAddr remote) (SPrepareTransactionReply
           ((prepare_reply (?s\<lparr>lr_store := sv\<rparr>) ?tid LOG_STATE_ABORT 0)\<lparr>pr_replica := lr_replica_id s,
             pr_reachFaultTolerance := 0\<rparr>))))
       else if lr_isLeader s then leader_replicate env (?s\<lparr>lr_store := sv\<rparr>) remote ?tid ?txn
       else Inr (?s\<lparr>lr_store := sv\<rparr>))"
    using up(1) mode by (simp add: prepare_new_def increaseTs_def Let_def)
  moreover have "fast_inv H f sh (snd (lr_send env (?s\<lparr>lr_store := sv\<rparr>) (DAddr remote) (SPrepareTransactionReply
           ((prepare_reply (?s\<lparr>lr_store := sv\<rparr>) ?tid LOG_STATE_ABORT 0)\<lparr>pr_replica := lr_replica_id s,
             pr_reachFaultTolerance := 0\<rparr>))))"
    unfolding lr_send_snd by (rule fast_inv_send [OF s1]) (auto simp: prepare_reply_def)
  moreover have "lr_isLeader s \<Longrightarrow> keeps H f sh (leader_replicate env (?s\<lparr>lr_store := sv\<rparr>) remote ?tid ?txn)"
    by (rule leader_replicate_fast [OF s1 f _ t]) simp
  ultimately show ?thesis using s1 by simp
qed

lemma answer_again_fast:
  assumes "fast_inv H f sh s"
    and "pr_shard reply = lr_shard_id s"
    and "pr_state reply = LOG_STATE_PREPAREOK \<Longrightarrow> log_replicated H f (pr_tid reply)"
  shows "keeps H f sh (answer_again env s remote msg reply)"
  using assms by (auto simp: answer_again_def fast_invD(1) intro!: fast_inv_send)

lemma HandlePrepareTxn_fast:
  assumes inv: "fast_inv H f sh s" and f: "0 \<le> f" "f < 2 ^ 31 - 1" and m: "fast_msg (LPrepareTransaction msg)"
  shows "keeps H f sh (HandlePrepareTxn env s remote msg)"
proof -
  let ?tid = "pm_tid msg"
  have again: "keeps H f sh (bindr (rd (pt_finalResult req)) (\<lambda>st. bindr (active s ?tid) (\<lambda>txn.
      answer_again env s remote msg (prepare_reply s ?tid st (getTimestamp (txn_commitTs txn))))))"
    if r: "lr_pendingTxns s ?tid = Some req" "pt_reach_consensus req" for req
  proof -
    have ok: "pending_ok H f s ?tid req" using fast_invD(9) [OF inv r(1)] .
    then have c: "pt_finalResult req = Some LOG_STATE_PREPAREOK" "log_replicated H f ?tid"
      using r(2) by (simp_all add: pending_ok_def txn_req_ok_def)
    show ?thesis
      using fast_active [OF ok] c by (auto intro!: answer_again_fast inv simp: prepare_reply_def)
  qed
  show ?thesis
    using m again prepare_new_fast [OF inv f] fast_invD(7) [OF inv] inv fast_invD(1) [OF inv]
    by (auto simp: HandlePrepareTxn_def Let_def prepare_reply_def split: option.split intro!: answer_again_fast)
qed

lemma follower_txn_out: "txn_out (follower_txn tid ts r ws ps) = []"
  by (simp add: follower_txn_def fold_frame [of txn_out] addParticipant_def addWriteSet_def split_beta txn_ctor_defs)

lemma HandleReplicateTransaction_fast:
  assumes "fast_inv H f sh s"
  shows "keeps H f sh (HandleReplicateTransaction env s remote msg)"
proof -
  let ?p = "rt_txnLog msg"
  let ?s = "raise_ts s (lp_timestamp ?p)"
  have inv: "fast_inv H f sh ?s" using assms by simp
  have reply: "keeps H f sh (Inr (snd (lr_send env x (DAddr remote) (SReplicateTransactionReply m))))"
    if "fast_inv H f sh x" for x m
    using that by (auto intro!: fast_inv_send)
  show ?thesis
  proof (cases "log_Find (lr_log s) (lp_lsn ?p)")
    case (Some e)
    then show ?thesis
      using reply [OF inv] fast_invD(1) [OF inv] by (simp add: HandleReplicateTransaction_def Let_def)
  next
    case None
    obtain l where l: "Log_Add_proto (lr_log ?s) ?p = Inr l" "log_full l"
      "log_Find l = (log_Find (lr_log ?s))(lp_lsn ?p \<mapsto> entry_of_proto ?p)"
      using Log_Add_proto_total [OF fast_invD(5) [OF inv]] by blast
    obtain ts where ts: "le_ts (entry_of_proto ?p) = Some ts"
      using entry_full_ctor(2) [of ?p] by (auto simp: entry_full_def)
    let ?t = "follower_txn (lp_txnid ?p) ts (word_of_int (rt_replicaID msg)) (lp_wset ?p) (rt_participants msg)"
    let ?s1 = "set_active (?s\<lparr>lr_log := l\<rparr>) (lp_txnid ?p) ?t"
    have "fast_inv H f sh (?s\<lparr>lr_log := l\<rparr>)" by (rule fast_inv_log [OF inv l(2)]) (simp add: l(3))
    then have s1: "fast_inv H f sh ?s1" by (intro fast_inv_active follower_txn_out)
    obtain rep ok sv where up: "PrepareUpcall (env_clk env) (lr_store ?s1) ((Request_new PREPARE (lp_txnid ?p))
        \<lparr>rq_prepare := Some (Transaction_serialize ?t)\<rparr>) (lr_isLeader ?s1) = Inr (rep, ok, sv)" "store_ok (srv_store sv)"
      by (rule PrepareUpcall_ok [OF fast_invD(4) [OF s1]])
    have s2: "fast_inv H f sh (?s1\<lparr>lr_store := sv\<rparr>)" by (rule fast_inv_store [OF s1 up(2)])
    then have "lr_tpcMode (?s1\<lparr>lr_store := sv\<rparr>) = MODE_FAST" by (rule fast_invD(1))
    then have "keeps H f sh (HandleReplicateTransaction env s remote msg) =
        keeps H f sh (Inr (snd (lr_send env (?s1\<lparr>lr_store := sv\<rparr>) (DAddr remote) (SReplicateTransactionReply
          \<lparr>rr_lsn = lp_lsn ?p, rr_term = lr_term s, rr_replicaID = int32 (lr_replica_id s), rr_txnid = lp_txnid ?p\<rparr>))))"
      using None l ts up(1) by (simp add: HandleReplicateTransaction_def Let_def follower_txn_def set_active_def)
    then show ?thesis using reply [OF s2] by simp
  qed
qed

lemma HandleConsensus_fast:
  assumes inv: "fast_inv H f sh s" and ok: "pending_ok H f s tid req" and c: "pt_reach_consensus req"
  shows "keeps H f sh (HandleConsensus env s tid req)"
proof -
  obtain t a where ta: "active s tid = Inr t" "deref (lr_clientList s) tid = Inr a"
    using fast_active [OF ok] fast_client [OF ok] by blast
  let ?r = "(prepare_reply s tid LOG_STATE_PREPAREOK (getTimestamp (txn_commitTs t)))\<lparr>pr_replica := lr_replica_id s\<rparr>"
  let ?s = "s\<lparr>lr_sent := lr_sent s @ [(DAddr a, SPrepareTransactionReply ?r)]\<rparr>"
  let ?req = "req\<lparr>pt_timer := Some (CB_ResendPrepareOK, True)\<rparr>"
  have "log_replicated H f tid" using ok c by (simp add: pending_ok_def txn_req_ok_def)
  then have s: "fast_inv H f sh ?s" by (intro fast_inv_send inv) (auto simp: prepare_reply_def)
  have "pending_ok H f ?s tid ?req"
    using ok c by (auto simp: pending_ok_def intro: txn_req_ok_timer)
  then have "fast_inv H f sh (put_pending ?s tid ?req)" by (rule fast_inv_put [OF s])
  moreover have "fast_inv H f sh (erase_client (erase_active (erase_pending ?s tid) tid) tid)"
    using s by (intro fast_inv_intros) (simp_all add: erase_pending_def erase_active_def)
  ultimately show ?thesis
    using ta fast_invD(1) [OF inv] by (simp add: HandleConsensus_def Let_def lr_send_def split: bool.split)
qed

lemma HandleReplicateTransactionReply_fast:
  assumes inv: "fast_inv H f sh s" and m: "msg \<in> H" "finite H"
  shows "keeps H f sh (HandleReplicateTransactionReply env s msg)"
proof (cases "lr_pendingTxns s (rr_txnid msg)")
  case None
  then show ?thesis using inv by (simp add: HandleReplicateTransactionReply_def Let_def)
next
  case (Some req)
  let ?tid = "rr_txnid msg"
  let ?q0 = "qs_Add (pt_quorum req) (rr_term msg) (rr_replicaID msg) msg"
  obtain msgs q where q: "GetMessages ?q0 (rr_term msg) = (msgs, q)" by fastforce
  have ok: "pending_ok H f s ?tid req" by (rule fast_invD(9) [OF inv Some])
  then have q0: "quorum_ok H ?tid ?q0" using m by (simp add: pending_ok_def txn_req_ok_def quorum_ok_Add)
  then have qq: "quorum_ok H ?tid q" using quorum_ok_GetMessages [OF q0, of "rr_term msg"] q by simp
  have msgs: "msgs = qs_at ?q0 (rr_term msg)" using q by (simp add: GetMessages_def)
  show ?thesis
  proof (cases "pt_reach_consensus req")
    case True
    then show ?thesis using Some inv by (simp add: HandleReplicateTransactionReply_def Let_def)
  next
    case nc: False
    let ?req = "req\<lparr>pt_quorum := q\<rparr>"
    let ?req2 = "?req\<lparr>pt_reach_consensus := True, pt_finalResult := Some LOG_STATE_PREPAREOK\<rparr>"
    have ok1: "pending_ok H f s ?tid ?req" using ok qq by (simp add: pending_ok_def txn_req_ok_def)
    have "pending_ok H f s ?tid ?req2" if "pt_majority req \<le> length msgs"
    proof -
      have "f + 1 \<le> int (length (qs_at ?q0 (rr_term msg)))"
        using that ok by (simp add: pending_ok_def txn_req_ok_def msgs)
      then have "log_replicated H f ?tid" by (rule quorum_ok_replicated [OF q0 m(2)])
      with ok1 show ?thesis by (simp add: pending_ok_def txn_req_ok_def)
    qed
    moreover have "pending_ok H f (put_pending s ?tid r) ?tid r" if "pending_ok H f s ?tid r" for r
      using that by (simp add: pending_ok_def put_pending_def)
    ultimately have "pt_majority req \<le> length msgs \<Longrightarrow> keeps H f sh (HandleConsensus env (put_pending s ?tid ?req2) ?tid ?req2)"
      by (intro HandleConsensus_fast fast_inv_put inv) simp_all
    with fast_inv_put [OF inv ok1] show ?thesis
      using Some nc q by (simp add: HandleReplicateTransactionReply_def Let_def)
  qed
qed

lemma ResendPrepareOK_fast:
  assumes inv: "fast_inv H f sh s" and r: "lr_pendingTxns s tid = Some req" "pt_timer req = Some (CB_ResendPrepareOK, b)"
  shows "keeps H f sh (ResendPrepareOK env s tid)"
proof -
  have ok: "pending_ok H f s tid req" by (rule fast_invD(9) [OF inv r(1)])
  obtain t a where ta: "active s tid = Inr t" "deref (lr_clientList s) tid = Inr a"
    using fast_active [OF ok] fast_client [OF ok] by blast
  have c: "pt_reach_consensus req" "log_replicated H f tid"
    using ok r(2) by (auto simp: pending_ok_def txn_req_ok_def)
  let ?s = "s\<lparr>lr_sent := lr_sent s @ [(DAddr a, SPrepareTransactionReply
      (prepare_reply s tid LOG_STATE_PREPAREOK (getTimestamp (txn_commitTs t))))]\<rparr>"
  have s: "fast_inv H f sh ?s" using c by (intro fast_inv_send inv) (auto simp: prepare_reply_def)
  have "pending_ok H f ?s tid (req\<lparr>pt_timer := Some (CB_ResendPrepareOK, True)\<rparr>)"
    using ok c by (auto simp: pending_ok_def intro: txn_req_ok_timer)
  then have "fast_inv H f sh (put_pending ?s tid (req\<lparr>pt_timer := Some (CB_ResendPrepareOK, True)\<rparr>))"
    by (rule fast_inv_put [OF s])
  with s show ?thesis
    using r ta fast_invD(1) [OF inv]
    by (simp add: ResendPrepareOK_def Let_def lr_send_def timer_Reset_def split: bool.split)
qed

lemma txn_req_ok_flags [simp]:
  "txn_req_ok H f tid (req\<lparr>pt_send_confirms := b\<rparr>) = txn_req_ok H f tid req"
  "txn_req_ok H f tid (req\<lparr>pt_reach_commit_decision := b\<rparr>) = txn_req_ok H f tid req"
  by (simp_all add: txn_req_ok_def)

lemma pending_ok_flags [simp]:
  "pending_ok H f s tid (req\<lparr>pt_send_confirms := b\<rparr>) = pending_ok H f s tid req"
  "pending_ok H f s tid (req\<lparr>pt_reach_commit_decision := b\<rparr>) = pending_ok H f s tid req"
  by (simp_all add: pending_ok_def)

lemma notifyCommitToReplica_fast:
  assumes inv: "fast_inv H f sh s" and ok: "pending_ok H f s tid req"
  obtains req' s' where "notifyCommitToReplica env s req msg = Inr (req', s')" "fast_inv H f sh s'"
    "pending_ok H f s' tid req'"
proof -
  let ?l = "snd (SetStatus (lr_log s) (pt_tid req) (cm_state msg))"
  let ?m = "SReplicateCommit \<lparr>rcm_tid = cm_tid msg, rcm_lsn = pt_lsn req, rcm_state = cm_state msg,
    rcm_timestamp = cm_timestamp msg\<rparr>"
  let ?s = "s\<lparr>lr_log := ?l, lr_sent := lr_sent s @ [(DReplicas, ?m)]\<rparr>"
  let ?req = "if env_net env (length (lr_sent s)) then req\<lparr>pt_send_confirms := True\<rparr> else req"
  have l: "fast_inv H f sh (s\<lparr>lr_log := ?l\<rparr>)"
    by (rule fast_inv_log [OF inv log_full_SetStatus [OF fast_invD(5) [OF inv]]]) (metis log_Find_SetStatus)
  have "fast_inv H f sh ?s" using fast_inv_send [OF l, of ?m DReplicas] by simp
  moreover have "pending_ok H f ?s tid req" using ok by (simp add: pending_ok_def log_Find_SetStatus [simplified])
  then have "pending_ok H f ?s tid ?req" by (simp only: pending_ok_flags split: if_split) simp
  moreover have "notifyCommitToReplica env s req msg = Inr (?req, ?s)"
    using fast_invD(1) [OF inv] by (simp add: notifyCommitToReplica_def Let_def lr_send_def)
  ultimately show thesis using that by blast
qed

lemma touch_active: "lr_activeTxns s tid = Some x \<Longrightarrow> s\<lparr>lr_activeTxns := touch (lr_activeTxns s) tid\<rparr> = s"
  by (simp add: touch_def)

lemma pending_ok_store [simp]: "pending_ok H f (s\<lparr>lr_store := sv\<rparr>) tid req = pending_ok H f s tid req"
  by (simp add: pending_ok_def)

lemma applyToStore_fast:
  assumes inv: "fast_inv H f sh s" and ok: "pending_ok H f s tid req" and tid: "cm_tid msg = tid"
    and st: "cm_state msg = LOG_STATE_COMMIT \<or> cm_state msg = LOG_STATE_ABORT"
  obtains req' s' where "applyToStore s req msg = Inr (req', s')" "fast_inv H f sh s'" "pending_ok H f s' tid req'"
proof -
  obtain t where t: "active s tid = Inr t" "lr_activeTxns s tid = Some (Some t)" using fast_active [OF ok] by blast
  let ?sv = "if cm_state msg = LOG_STATE_COMMIT
    then snd (CommitUpcall (lr_store s) ((Request_new COMMIT tid)\<lparr>rq_commit := Some (cm_timestamp msg)\<rparr>))
    else snd (AbortUpcall (lr_store s) ((Request_new ABORT tid)\<lparr>rq_abort := Some (Transaction_serialize t)\<rparr>))"
  have "store_ok (srv_store ?sv)"
    using store_decide_ok [OF fast_invD(4) [OF inv]] by (simp add: CommitUpcall_def AbortUpcall_def)
  then have "fast_inv H f sh (s\<lparr>lr_store := ?sv\<rparr>)" by (rule fast_inv_store [OF inv])
  moreover have "applyToStore s req msg = Inr (req\<lparr>pt_reach_commit_decision := True\<rparr>, s\<lparr>lr_store := ?sv\<rparr>)"
    using st by (auto simp: applyToStore_def Let_def tid touch_active [OF t(2)] t(1) abort_upcall_def)
  ultimately show thesis
    using that [of "req\<lparr>pt_reach_commit_decision := True\<rparr>" "s\<lparr>lr_store := ?sv\<rparr>"] ok by simp
qed

lemma abort_upcall_fast: "fast_inv H f sh s \<Longrightarrow> fast_inv H f sh (abort_upcall s rq)"
  unfolding abort_upcall_def
  by (rule fast_inv_store) (simp_all add: AbortUpcall_def store_decide_ok fast_invD(4))

lemma CascadeAbort_fast:
  assumes inv: "fast_inv H f sh s" and r: "lr_pendingTxns s tid = Some req" and d: "0 < env_depth env"
  shows "CascadeAbort env s tid = Inr (abort_upcall s (Request_new ABORT tid))"
proof -
  obtain t where t: "lr_activeTxns s tid = Some (Some t)" using fast_active [OF fast_invD(9) [OF inv r]] by blast
  obtain d' where "env_depth env = Suc d'" using d gr0_conv_Suc by blast
  with r t fast_invD(8) [OF inv t] show ?thesis
    by (simp add: CascadeAbort_def abort_upcall_def active_def deref_def)
qed

lemma notifyForFollowing_fast:
  assumes inv: "fast_inv H f sh s" and r: "lr_pendingTxns s tid = Some req"
  shows "notifyForFollowingDependenies env s tid = Inr s"
proof -
  obtain t where "active s tid = Inr t" "lr_activeTxns s tid = Some (Some t)"
    using fast_active [OF fast_invD(9) [OF inv r]] by blast
  with r fast_invD(8) [OF inv] show ?thesis by (simp add: notifyForFollowingDependenies_def)
qed

lemma finish_fast:
  assumes "fast_inv H f sh s" and "st \<noteq> LOG_STATE_PREPAREOK"
  shows "fast_inv H f sh (erase_client ((erase_active (erase_pending s tid) tid)\<lparr>lr_committedTxns :=
      (lr_committedTxns s)(tid \<mapsto> (st, ts))\<rparr>) tid)"
proof -
  have "fast_inv H f sh (erase_active (erase_pending s tid) tid)"
    using assms(1) by (intro fast_inv_intros) (simp_all add: erase_pending_def)
  from fast_inv_committed [OF this assms(2), of tid ts] show ?thesis
    by (intro fast_inv_erase_client) (simp_all add: erase_active_def erase_pending_def)
qed

lemma HandleCommit_fast:
  assumes "fast_inv H f sh s" and m: "fast_msg (LCommit msg)" and d: "0 < env_depth env"
  shows "keeps H f sh (HandleCommit env s msg)"
proof (cases "lr_pendingTxns s (cm_tid msg)")
  case None
  then show ?thesis using assms(1) by (simp add: HandleCommit_def Let_def)
next
  case (Some req)
  let ?tid = "cm_tid msg" and ?s = "raise_ts s (cm_timestamp msg)"
  have inv: "fast_inv H f sh ?s" using assms(1) by simp
  have ok: "pending_ok H f ?s ?tid req" using fast_invD(9) [OF inv] Some by simp
  then obtain e where e: "log_Find (lr_log s) (pt_lsn req) = Some e" by (auto simp: pending_ok_def)
  show ?thesis
  proof (cases "pt_is_participant req")
    case False
    have "fast_inv H f sh (erase_client (erase_pending ?s ?tid) ?tid)"
      using inv by (intro fast_inv_intros) (simp_all add: erase_pending_def)
    with False Some show ?thesis by (simp add: HandleCommit_def Let_def)
  next
    case True
    let ?s1 = "?s\<lparr>lr_log := set_entry (lr_log ?s) (pt_lsn req) (e\<lparr>le_ts := Some (cm_timestamp msg)\<rparr>)\<rparr>"
    have "entry_full e" using fast_invD(5) [OF inv] e by (auto simp: log_full_def)
    then have "entry_full (e\<lparr>le_ts := Some (cm_timestamp msg)\<rparr>)" by (simp add: entry_full_def)
    then have s1: "fast_inv H f sh ?s1"
      by (intro fast_inv_log inv log_full_set_entry fast_invD(5) [OF inv]) (auto simp: log_Find_set_entry)
    have ok1: "pending_ok H f ?s1 ?tid req" using ok by (auto simp: pending_ok_def log_Find_set_entry)
    obtain req1 s2 where s2: "(if pt_send_confirms req then Inr (req, ?s1) else notifyCommitToReplica env ?s1 req msg) = Inr (req1, s2)"
      "fast_inv H f sh s2" "pending_ok H f s2 ?tid req1"
      using notifyCommitToReplica_fast [OF s1 ok1, of env msg] s1 ok1 by (metis (no_types, lifting))
    obtain req2 s3 where s3: "(if pt_reach_commit_decision req1 then Inr (req1, s2) else applyToStore s2 req1 msg) = Inr (req2, s3)"
      "fast_inv H f sh s3" "pending_ok H f s3 ?tid req2"
      using applyToStore_fast [OF s2(2,3) refl] m s2(2,3) by (metis (no_types, lifting) fast_msg.simps(2))
    obtain t where t: "lr_activeTxns s3 ?tid = Some (Some t)" using fast_active [OF s3(3)] by blast
    let ?s4 = "put_pending s3 ?tid req2"
    have s4: "fast_inv H f sh ?s4" "lr_pendingTxns ?s4 ?tid = Some req2" "lr_activeTxns ?s4 ?tid = Some (Some t)"
      using fast_inv_put [OF s3(2,3)] t by (simp_all add: put_pending_def)
    let ?s5 = "if cm_state msg = LOG_STATE_COMMIT then ?s4 else abort_upcall ?s4 (Request_new ABORT ?tid)"
    have s5: "(if cm_state msg = LOG_STATE_COMMIT then notifyForFollowingDependenies env ?s4 ?tid
        else CascadeAbort env ?s4 ?tid) = Inr ?s5" "fast_inv H f sh ?s5" "active ?s5 ?tid = Inr t"
      using notifyForFollowing_fast [OF s4(1,2), of env] CascadeAbort_fast [OF s4(1,2) d] s4(1,3) abort_upcall_fast [OF s4(1)]
      by (auto simp: active_def deref_def abort_upcall_def)
    have "HandleCommit env s msg = Inr (erase_client ((erase_active (erase_pending ?s5 ?tid) ?tid)\<lparr>lr_committedTxns :=
        (lr_committedTxns ?s5)(?tid \<mapsto> (cm_state msg, cm_timestamp msg))\<rparr>) ?tid)"
      by (rule HandleCommit_participantI [OF Some True _ s2(1) s3(1) _ s5(3)])
        (simp_all only: e raise_ts_frame touch_active [OF t] s5(1))
    then show ?thesis using finish_fast [OF s5(2)] m by auto
  qed
qed

lemma HandleReplicateCommit_fast:
  assumes "fast_inv H f sh s"
  shows "keeps H f sh (HandleReplicateCommit s msg)"
proof (cases "lr_isLeader s")
  case True
  then show ?thesis using assms fast_invD(1) [OF assms] by (simp add: HandleReplicateCommit_def)
next
  case False
  let ?tid = "rcm_tid msg" and ?s = "s\<lparr>lr_activeTxns := touch (lr_activeTxns s) (rcm_tid msg)\<rparr>"
  have s: "fast_inv H f sh ?s" by (rule fast_inv_touch [OF assms])
  have none: "lr_pendingTxns s x = None" for x
    using fast_invD(9) [OF assms] False by (cases "lr_pendingTxns s x") (auto simp: pending_ok_def)
  have "fast_inv H f sh (erase_active (?s\<lparr>lr_store := sv\<rparr>) ?tid)" if "store_ok (srv_store sv)" for sv
    using s that none by (intro fast_inv_erase_active fast_inv_store) simp_all
  moreover have "fast_inv H f sh (erase_active ?s ?tid)" using s none by (intro fast_inv_erase_active) simp_all
  ultimately show ?thesis
    using False s fast_invD(1) [OF assms] store_decide_ok [OF fast_invD(4) [OF assms]]
    by (auto simp: HandleReplicateCommit_def Let_def CommitUpcall_def AbortUpcall_def abort_upcall_def
        split: sum.split LogEntryState.split)
qed

lemma read_keys_fast: "lr_tpcMode s \<noteq> MODE_PARALLEL \<Longrightarrow> snd (snd (read_keys tid keys acc s)) = s"
  by (induction keys arbitrary: acc) (simp_all add: Let_def)

lemma HandleRead_fast:
  assumes "fast_inv H f sh s"
  shows "keeps H f sh (HandleRead env s remote tid keys)"
proof -
  obtain ok kvs where "read_keys tid keys [] s = (ok, kvs, s)"
    using read_keys_fast [of s tid keys "[]"] fast_invD(1) [OF assms] by (cases "read_keys tid keys [] s") auto
  then show ?thesis using assms by (auto simp: HandleRead_def intro!: fast_inv_send)
qed

lemma lr_step_fast:
  assumes inv: "fast_inv H f sh s" and f: "0 \<le> f" "f < 2 ^ 31 - 1" and fin: "finite H"
    and e: "fast_event (env, e)" "set (acks [(env, e)]) \<subseteq> H"
  shows "keeps H f sh (lr_step env s e)"
proof (cases e)
  case (EMsg a m)
  with e inv show ?thesis
    by (cases m) (simp_all add: HandleReplicateTransaction_fast HandlePrepareTxn_fast [OF _ f]
        HandleReplicateTransactionReply_fast [OF _ _ fin] HandleCommit_fast HandleReplicateCommit_fast HandleRead_fast
        HandlePrepareTransactionReply_def Let_def fast_invD(3) [OF inv])
next
  case (ETimerTxn tid)
  show ?thesis
  proof (cases "lr_pendingTxns s tid")
    case (Some req)
    then show ?thesis
      using inv ETimerTxn ResendReplicateTxn_fast [OF inv Some] ResendPrepareOK_fast [OF inv Some]
      by (auto simp: lr_timeout_txn_def split: option.split timer_cb.split bool.split)
  qed (simp add: ETimerTxn lr_timeout_txn_def inv)
next
  case (ETimerPrepare tid)
  then show ?thesis using inv by (simp add: lr_timeout_prepare_def fast_invD(3) [OF inv])
qed

lemma lr_run_fast:
  assumes "fast_inv H f sh s" and "0 \<le> f" "f < 2 ^ 31 - 1" and "finite H"
    and "list_all fast_event evs" and "set (acks evs) \<subseteq> H"
  shows "keeps H f sh (lr_run evs s)"
  using assms(1,5,6)
proof (induction evs arbitrary: s)
  case (Cons x evs)
  obtain env e where x: "x = (env, e)" by (cases x)
  have "set (acks [(env, e)]) \<subseteq> H" "set (acks evs) \<subseteq> H"
    using Cons.prems(3) by (auto simp: x split: lr_event.splits lr_msg.splits)
  then show ?case
    using Cons lr_step_fast [OF Cons.prems(1) assms(2-4), of env e] by (auto simp: x intro: keeps_bindr)
qed simp

lemma fast_inv_new:
  assumes "0 < n" "n < 2 ^ 31" and "store_ok (srv_store sv)"
  shows "fast_inv H f shard (LRReplica_new n f r leader shard nshards nt MODE_FAST sv ts0)"
proof -
  have "n mod 2 ^ 64 = n" using assms by (intro mod_pos_pos_trivial) auto
  then have "uint (word_of_int n :: u64) \<noteq> 0" using assms(1) by (simp only: uint_word_of_int) simp
  then show ?thesis using assms(3) by (auto simp: fast_inv_def LRReplica_new_def lr_sends_ok_def)
qed

lemma fast_run_keeps:
  assumes "0 < n" "n < 2 ^ 31" and "0 \<le> f" "f < 2 ^ 31 - 1" and "store_reach (srv_store sv)"
    and "list_all fast_event evs"
  shows "keeps (set (acks evs)) f shard (lr_run evs (LRReplica_new n f r leader shard nshards nt MODE_FAST sv ts0))"
  by (rule lr_run_fast [OF fast_inv_new [OF assms(1,2) store_reach_ok [OF assms(5)]] assms(3,4) _ assms(6)]) simp_all

lemma fast_replies:
  assumes "0 < n" "n < 2 ^ 31" and "0 \<le> f" "f < 2 ^ 31 - 1" and "store_reach (srv_store sv)"
    and "list_all fast_event evs"
    and "lr_run evs (LRReplica_new n f r leader shard nshards nt MODE_FAST sv ts0) = Inr s'"
    and "(d, SPrepareTransactionReply reply) \<in> set (lr_sent s')"
  shows "pr_shard reply = shard \<and>
    (pr_state reply = LOG_STATE_PREPAREOK \<longrightarrow> log_replicated (set (acks evs)) f (pr_tid reply))"
proof -
  have "fast_inv (set (acks evs)) f shard s'"
    using fast_run_keeps [OF assms(1-6), of shard r leader nshards nt ts0] assms(7) by (auto simp: keeps_def)
  with assms(8) show ?thesis unfolding fast_inv_def lr_sends_ok_def by blast
qed

section \<open>Properties\<close>

text \<open>C7. A replica in fast mode never leaves the defined part of the language: whatever fast-mode
  messages it receives, in whatever order, and whenever its timers fire, with any outcome of its
  sends and any clock values, no handler dereferences a null pointer, divides by zero, indexes out of
  bounds or reads a member the constructor left without a value, with one exception: the timestamp
  counter \<^verbatim>\<open>current_ts\<close>, which the constructor never sets and the first prepare increments. Its
  value is the arbitrary \<open>ts0\<close>, and that read is not counted here.\<close>

theorem fast_mode_defined:
  assumes "0 < n" "n < 2 ^ 31" and "0 \<le> f" "f < 2 ^ 31 - 1" and "store_reach (srv_store sv)"
    and "list_all fast_event evs"
  shows "\<exists>s'. lr_run evs (LRReplica_new n f r leader shard nshards nt MODE_FAST sv ts0) = Inr s'"
  using fast_run_keeps [OF assms, of shard r leader nshards nt ts0] by (auto simp: keeps_def)

definition demo_ack :: "int \<Rightarrow> ReplicateTransactionReply" where
  "demo_ack i = \<lparr>rr_lsn = 0, rr_term = 0, rr_replicaID = i, rr_txnid = 9\<rparr>"

definition demo_events :: "(Env \<times> lr_event) list" where
  "demo_events = [(demo_env, EMsg 44 (LPrepareTransaction demo_prepare)),
     (demo_env, EMsg 1 (LReplicateTransactionReply (demo_ack 1))), (demo_env, ETimerTxn 9),
     (demo_env, EMsg 2 (LReplicateTransactionReply (demo_ack 2)))]"

definition demo_server :: Server where
  "demo_server = \<lparr>srv_mode = MODE_LOCK, srv_tpcMode = MODE_FAST, srv_store = LOCK LockStore_new\<rparr>"

lemma demo_server_reach: "store_reach (srv_store demo_server)"
  by (simp add: demo_server_def store_reach.new_lock)

lemma demo_events_fast: "list_all fast_event demo_events"
  by code_simp

theorem fast_mode_defined_witness:
  "\<exists>s'. lr_run demo_events (LRReplica_new 3 1 0 0 0 1 1 MODE_FAST demo_server 6) = Inr s'"
  by (rule fast_mode_defined [OF _ _ _ _ demo_server_reach demo_events_fast]) simp_all

text \<open>C6. Fault tolerance of a positive vote: in any fast-mode history, every
  \<^verbatim>\<open>PrepareTransactionReply\<close> with state \<^verbatim>\<open>PREPAREOK\<close> a replica has sent is for a
  transaction whose log entry at least \<open>f + 1\<close> different replicas have acknowledged in one term.\<close>

theorem fast_prepareok_replicated:
  assumes "0 < n" "n < 2 ^ 31" and "0 \<le> f" "f < 2 ^ 31 - 1" and "store_reach (srv_store sv)"
    and "list_all fast_event evs"
    and "lr_run evs (LRReplica_new n f r leader shard nshards nt MODE_FAST sv ts0) = Inr s'"
    and "(d, SPrepareTransactionReply reply) \<in> set (lr_sent s')" and "pr_state reply = LOG_STATE_PREPAREOK"
  shows "\<exists>term. f + 1 \<le> int (card {rr_replicaID m |m. m \<in> set (acks evs) \<and>
      rr_txnid m = pr_tid reply \<and> rr_term m = term})"
  using fast_replies [OF assms(1-8)] assms(9)
  unfolding log_replicated_def replied_def by (simp add: image_Collect)

text \<open>The leader of the example after both acknowledgements.\<close>

definition demo_prepared :: LRReplica where
  "demo_prepared = run_or (LRReplica_new 3 1 0 0 0 1 1 MODE_FAST demo_server 6)
     (lr_run demo_events (LRReplica_new 3 1 0 0 0 1 1 MODE_FAST demo_server 6))"

theorem fast_prepareok_replicated_witness:
  "\<exists>term. 2 \<le> card {rr_replicaID m |m. m \<in> set (acks demo_events) \<and> rr_txnid m = 9 \<and> rr_term m = term}"
proof -
  let ?r = "\<lparr>pr_tid = 9, pr_state = LOG_STATE_PREPAREOK, pr_shard = 0, pr_timestamp = 7,
    pr_reachFaultTolerance = 0, pr_replica = 0\<rparr>"
  have run: "lr_run demo_events (LRReplica_new 3 1 0 0 0 1 1 MODE_FAST demo_server 6) = Inr demo_prepared"
    unfolding demo_prepared_def by (rule run_or_Inr) code_simp
  have sent: "(DAddr 44, SPrepareTransactionReply ?r) \<in> set (lr_sent demo_prepared)"
    by code_simp
  from fast_prepareok_replicated [OF _ _ _ _ demo_server_reach demo_events_fast run sent] show ?thesis
    by simp
qed

end
