(* ===== verification/LRCascade.thy ===== *)
theory LRCascade
  imports LRCommit
begin

text \<open>
  Dependencies between pre-committed transactions (parallel mode). A transaction that reads the
  writes of a pre-committed one is entered in the \<^verbatim>\<open>out\<close> list of that transaction
  (\<open>read_keys\<close>); \<^verbatim>\<open>CascadeAbort\<close> follows these lists recursively. The recursion ends if the
  lists have no cycle; it then aborts exactly the transactions that depend on the first one, or
  dereferences a null pointer at a pending transaction without an object.
\<close>

section \<open>The dependency graph\<close>

definition dep_edge :: "LRReplica \<Rightarrow> u64 \<Rightarrow> u64 \<Rightarrow> bool" where
  "dep_edge s x y \<longleftrightarrow> lr_pendingTxns s x \<noteq> None \<and>
     (\<exists>t. lr_activeTxns s x = Some (Some t) \<and> y \<in> set (txn_out t)) \<and> lr_activeTxns s y \<noteq> None"

abbreviation dependents :: "LRReplica \<Rightarrow> u64 \<Rightarrow> u64 set" where
  "dependents s x \<equiv> {y. (dep_edge s)\<^sup>*\<^sup>* x y}"

definition same_deps :: "LRReplica \<Rightarrow> LRReplica \<Rightarrow> bool" where
  "same_deps s s' \<longleftrightarrow> lr_pendingTxns s' = lr_pendingTxns s \<and> lr_activeTxns s' = lr_activeTxns s"

lemma same_deps_refl [simp]: "same_deps s s"
  by (simp add: same_deps_def)

lemma same_deps_trans: "same_deps a b \<Longrightarrow> same_deps b c \<Longrightarrow> same_deps a c"
  by (simp add: same_deps_def)

lemma same_deps_edge: "same_deps s s' \<Longrightarrow> dep_edge s' = dep_edge s"
  by (simp add: same_deps_def dep_edge_def fun_eq_iff)

lemma dependents_unfold: "dependents s x = insert x (\<Union>y \<in> {y. dep_edge s x y}. dependents s y)"
  by (auto elim: converse_rtranclpE intro: converse_rtranclp_into_rtranclp)

section \<open>What a set of aborts does to a store\<close>

text \<open>The transactions of \<open>D\<close> are gone, the others are as they were.\<close>

definition aborts :: "u64 set \<Rightarrow> TxnStore \<Rightarrow> TxnStore \<Rightarrow> bool" where
  "aborts D s s' \<longleftrightarrow>
     (\<forall>x. store_precommitted s' x = (if x \<in> D then None else store_precommitted s x)) \<and>
     (\<forall>x. x \<notin> D \<longrightarrow> store_prepared s' x = store_prepared s x) \<and>
     (\<forall>x. x \<in> D \<longrightarrow> store_precommitted s x = None \<longrightarrow> store_prepared s' x = None) \<and>
     store_prepared s' \<subseteq>\<^sub>m store_prepared s"

lemma aborts_refl [simp]: "aborts {} s s"
  by (simp add: aborts_def)

lemma aborts_one: "aborts {i} s (store_Abort s i t)"
  unfolding store_Abort_txn [of s i t Transaction_default] aborts_def
  by (auto simp: store_Abort_view map_le_def)

lemma aborts_trans:
  assumes "aborts D s s1" and "aborts E s1 s2"
  shows "aborts (D \<union> E) s s2"
  unfolding aborts_def
proof (intro conjI allI impI)
  fix x
  show "store_precommitted s2 x = (if x \<in> D \<union> E then None else store_precommitted s x)"
    using assms by (auto simp: aborts_def)
  show "store_prepared s2 x = store_prepared s x" if "x \<notin> D \<union> E"
    using assms that by (simp add: aborts_def)
  show "store_prepared s2 x = None" if x: "x \<in> D \<union> E" "store_precommitted s x = None"
  proof (cases "x \<in> E")
    case True
    then show ?thesis using assms x by (auto simp: aborts_def split: if_splits)
  next
    case False
    then show ?thesis using assms x by (auto simp: aborts_def)
  qed
next
  show "store_prepared s2 \<subseteq>\<^sub>m store_prepared s"
    using assms unfolding aborts_def by (blast intro: map_le_trans)
qed

section \<open>The recursion\<close>

definition cascade_post :: "u64 set \<Rightarrow> LRReplica \<Rightarrow> ub + LRReplica \<Rightarrow> bool" where
  "cascade_post D s r \<longleftrightarrow> (\<exists>s'. r = Inr s' \<and> same_deps s s' \<and>
     aborts D (srv_store (lr_store s)) (srv_store (lr_store s')))"

lemma cascade_outs_post:
  assumes rec: "\<And>x s'. x \<in> set xs \<Longrightarrow> lr_activeTxns s0 x \<noteq> None \<Longrightarrow> same_deps s0 s' \<Longrightarrow>
      cascade_post (dependents s0 x) s' (rec x s')"
    and "same_deps s0 s"
  shows "cascade_post (\<Union>x \<in> {x \<in> set xs. lr_activeTxns s0 x \<noteq> None}. dependents s0 x) s (cascade_outs rec env tid xs s)"
  using assms
proof (induction xs arbitrary: s)
  case Nil
  then show ?case by (simp add: cascade_post_def)
next
  case (Cons x xs)
  have act: "lr_activeTxns s = lr_activeTxns s0" using Cons.prems(2) by (simp add: same_deps_def)
  show ?case
  proof (cases "lr_activeTxns s0 x = None")
    case True
    let ?s = "s\<lparr>lr_inDependency := (lr_inDependency s)(x \<mapsto> -1)\<rparr>"
    have "same_deps s0 ?s" using Cons.prems(2) by (simp add: same_deps_def)
    then have "cascade_post (\<Union>x \<in> {x \<in> set xs. lr_activeTxns s0 x \<noteq> None}. dependents s0 x) ?s (cascade_outs rec env tid xs ?s)"
      using Cons.prems(1) by (intro Cons.IH) simp_all
    moreover have "{y. (y = x \<or> y \<in> set xs) \<and> (\<exists>z. lr_activeTxns s0 y = Some z)} = {x \<in> set xs. \<exists>z. lr_activeTxns s0 x = Some z}"
      using True by auto
    ultimately show ?thesis using True act by (simp add: cascade_post_def same_deps_def)
  next
    case False
    obtain s1 where s1: "rec x s = Inr s1" "same_deps s s1"
      "aborts (dependents s0 x) (srv_store (lr_store s)) (srv_store (lr_store s1))"
      using Cons.prems False unfolding cascade_post_def by fastforce
    let ?s2 = "snd (lr_send env s1 DCoordinators (SCoordinator (MVote
            \<lparr>vo_tid = tid, vo_vote = CR_PREPARED, vo_shard = lr_shard_id s1, vo_participants = [],
             vo_primaryShard = 0, vo_primaryCoordinator = 0, vo_replica = 0, vo_timestamp = 0\<rparr>)))"
    have s2: "same_deps s0 ?s2" "same_deps s ?s2" "lr_store ?s2 = lr_store s1"
      using Cons.prems(2) s1(2) by (simp_all add: same_deps_def)
    then have "cascade_post (\<Union>x \<in> {x \<in> set xs. lr_activeTxns s0 x \<noteq> None}. dependents s0 x) ?s2 (cascade_outs rec env tid xs ?s2)"
      using Cons.prems(1) by (intro Cons.IH) simp_all
    then obtain s3 where s3: "cascade_outs rec env tid xs ?s2 = Inr s3" "same_deps ?s2 s3"
      "aborts (\<Union>x \<in> {x \<in> set xs. lr_activeTxns s0 x \<noteq> None}. dependents s0 x)
        (srv_store (lr_store s1)) (srv_store (lr_store s3))"
      using s2(3) unfolding cascade_post_def by auto
    have "(\<Union>x \<in> {y \<in> set (x # xs). lr_activeTxns s0 y \<noteq> None}. dependents s0 x) =
        dependents s0 x \<union> (\<Union>x \<in> {x \<in> set xs. lr_activeTxns s0 x \<noteq> None}. dependents s0 x)"
      using False by auto
    moreover have "cascade_outs rec env tid (x # xs) s = Inr s3" using False act s1(1) s3(1) by simp
    ultimately show ?thesis
      using aborts_trans [OF s1(3) s3(3)] same_deps_trans [OF s2(2) s3(2)] unfolding cascade_post_def by simp
  qed
qed

text \<open>Every pending transaction that the recursion reaches has a transaction object.\<close>

definition objects_exist :: "LRReplica \<Rightarrow> u64 \<Rightarrow> bool" where
  "objects_exist s tid \<longleftrightarrow> (\<forall>x. (dep_edge s)\<^sup>*\<^sup>* tid x \<longrightarrow> lr_pendingTxns s x \<noteq> None \<longrightarrow>
     (\<exists>t. lr_activeTxns s x = Some (Some t)))"

lemma objects_exist_edge: "objects_exist s x \<Longrightarrow> dep_edge s x y \<Longrightarrow> objects_exist s y"
  unfolding objects_exist_def by (meson converse_rtranclp_into_rtranclp)

definition cascade_result :: "LRReplica \<Rightarrow> u64 \<Rightarrow> LRReplica \<Rightarrow> ub + LRReplica \<Rightarrow> bool" where
  "cascade_result s0 tid s r \<longleftrightarrow>
     (if objects_exist s0 tid then cascade_post (dependents s0 tid) s r else r = Inl NullDeref)"

lemma cascade_outs_fails:
  assumes "\<And>x s'. x \<in> set xs \<Longrightarrow> lr_activeTxns s0 x \<noteq> None \<Longrightarrow> same_deps s0 s' \<Longrightarrow> cascade_result s0 x s' (rec x s')"
    and "\<exists>x \<in> set xs. lr_activeTxns s0 x \<noteq> None \<and> \<not> objects_exist s0 x" and "same_deps s0 s"
  shows "cascade_outs rec env tid xs s = Inl NullDeref"
  using assms
proof (induction xs arbitrary: s)
  case (Cons x xs)
  have act: "lr_activeTxns s = lr_activeTxns s0" using Cons.prems(3) by (simp add: same_deps_def)
  have IH: "cascade_outs rec env tid xs s' = Inl NullDeref"
    if "same_deps s0 s'" "\<exists>x \<in> set xs. lr_activeTxns s0 x \<noteq> None \<and> \<not> objects_exist s0 x" for s'
    using Cons.IH [OF Cons.prems(1)] that by simp
  consider "lr_activeTxns s0 x = None" | "lr_activeTxns s0 x \<noteq> None" "objects_exist s0 x"
    | "lr_activeTxns s0 x \<noteq> None" "\<not> objects_exist s0 x" by blast
  then show ?case
  proof cases
    case 1
    have "same_deps s0 (s\<lparr>lr_inDependency := (lr_inDependency s)(x \<mapsto> -1)\<rparr>)"
      using Cons.prems(3) by (simp add: same_deps_def)
    with 1 act IH Cons.prems(2) show ?thesis by simp
  next
    case 2
    then obtain s1 where s1: "rec x s = Inr s1" "same_deps s s1"
      using Cons.prems(1) [of x s] Cons.prems(3) by (auto simp: cascade_result_def cascade_post_def)
    have "same_deps s0 (snd (lr_send env s1 d m))" for d m
      using same_deps_trans [OF Cons.prems(3) s1(2)] by (simp add: same_deps_def)
    with 2 act IH Cons.prems(2) s1(1) show ?thesis by simp
  next
    case 3
    then have "rec x s = Inl NullDeref"
      using Cons.prems(1) [of x s] Cons.prems(3) by (simp add: cascade_result_def)
    with 3 act show ?thesis by simp
  qed
qed simp

text \<open>\<open>rank\<close> witnesses that the lists have no cycle; \<open>d\<close> is the recursion depth left.\<close>

lemma cascade_terminates:
  fixes rank :: "u64 \<Rightarrow> nat"
  assumes rank: "\<And>x y. dep_edge s0 x y \<Longrightarrow> rank y < rank x"
  shows "rank tid < d \<Longrightarrow> same_deps s0 s \<Longrightarrow> cascade_result s0 tid s (cascade d env tid s)"
proof (induction d arbitrary: tid s)
  case (Suc d)
  let ?s = "abort_upcall s (Request_new ABORT tid)"
  have s: "same_deps s ?s" "same_deps s0 ?s"
    using Suc.prems(2) by (simp_all add: same_deps_def abort_upcall_def)
  have ab: "aborts {tid} (srv_store (lr_store s)) (srv_store (lr_store ?s))"
    by (simp add: abort_upcall_def AbortUpcall_def Request_new_def aborts_one)
  have pend: "lr_pendingTxns ?s = lr_pendingTxns s0" "lr_activeTxns ?s = lr_activeTxns s0"
    using s(2) by (simp_all add: same_deps_def)
  consider "lr_pendingTxns s0 tid = None" | "lr_pendingTxns s0 tid \<noteq> None" "\<And>t. lr_activeTxns s0 tid \<noteq> Some (Some t)"
    | t where "lr_pendingTxns s0 tid \<noteq> None" "lr_activeTxns s0 tid = Some (Some t)" by blast
  then show ?case
  proof cases
    case 1
    then have "dependents s0 tid = {tid}" by (subst dependents_unfold) (auto simp: dep_edge_def)
    moreover from this 1 have "objects_exist s0 tid" unfolding objects_exist_def by (metis mem_Collect_eq singletonD)
    ultimately show ?thesis using 1 pend(1) ab s(1) by (simp add: cascade_result_def cascade_post_def Let_def)
  next
    case 2
    then have "\<not> objects_exist s0 tid" unfolding objects_exist_def by blast
    moreover have "cascade (Suc d) env tid s = Inl NullDeref"
      using 2 pend by (auto simp: Let_def active_def deref_def split: option.split)
    ultimately show ?thesis by (simp add: cascade_result_def)
  next
    case 3
    have edges: "{y. dep_edge s0 tid y} = {y \<in> set (txn_out t). lr_activeTxns s0 y \<noteq> None}"
      using 3 by (auto simp: dep_edge_def)
    have rec: "cascade_result s0 x s' (cascade d env x s')"
      if "x \<in> set (txn_out t)" "lr_activeTxns s0 x \<noteq> None" "same_deps s0 s'" for x s'
    proof -
      have "dep_edge s0 tid x" using that edges by blast
      then have "rank x < d" using rank Suc.prems(1) by fastforce
      then show ?thesis using that(3) by (rule Suc.IH)
    qed
    have body: "cascade (Suc d) env tid s = cascade_outs (cascade d env) env tid (txn_out t) ?s"
      using 3 pend by (auto simp: Let_def active_def deref_def)
    have deps: "dependents s0 tid = {tid} \<union> (\<Union>x \<in> {x \<in> set (txn_out t). lr_activeTxns s0 x \<noteq> None}. dependents s0 x)"
      by (subst dependents_unfold) (simp only: edges, simp)
    show ?thesis
    proof (cases "objects_exist s0 tid")
      case True
      have "cascade_post (\<Union>x \<in> {x \<in> set (txn_out t). lr_activeTxns s0 x \<noteq> None}. dependents s0 x) ?s
          (cascade_outs (cascade d env) env tid (txn_out t) ?s)"
      proof (rule cascade_outs_post [OF _ s(2)])
        fix x s'
        assume x: "x \<in> set (txn_out t)" "lr_activeTxns s0 x \<noteq> None" and "same_deps s0 s'"
        moreover have "objects_exist s0 x" using objects_exist_edge [OF True] x edges by blast
        ultimately show "cascade_post (dependents s0 x) s' (cascade d env x s')"
          using rec by (simp add: cascade_result_def)
      qed
      then show ?thesis
        using True aborts_trans [OF ab] same_deps_trans [OF s(1)]
        unfolding cascade_result_def cascade_post_def body deps by fastforce
    next
      case False
      have "\<exists>x \<in> set (txn_out t). lr_activeTxns s0 x \<noteq> None \<and> \<not> objects_exist s0 x"
      proof (rule ccontr)
        assume "\<not> ?thesis"
        then have "objects_exist s0 y" if "dep_edge s0 tid y" for y using that edges by blast
        then have "objects_exist s0 tid"
          using 3 unfolding objects_exist_def by (metis converse_rtranclpE)
        with False show False by blast
      qed
      from cascade_outs_fails [OF rec this s(2)] False show ?thesis
        unfolding cascade_result_def body by simp
    qed
  qed
qed simp

section \<open>Properties\<close>

text \<open>C8. \<^verbatim>\<open>CascadeAbort\<close>, when the dependency lists have no cycle and the stack is deep enough for the
  longest chain, has exactly two outcomes. If every pending transaction it reaches has a transaction
  object, it returns, and it has then aborted the transaction and every transaction that depends on
  it, directly or through others, and left all other transactions of the store and the replica's
  tables as they were. Otherwise it dereferences a null pointer.\<close>

theorem cascade_abort_exact:
  fixes rank :: "u64 \<Rightarrow> nat"
  assumes "\<And>x y. dep_edge s x y \<Longrightarrow> rank y < rank x" and "rank tid < env_depth env"
  shows "if \<forall>x. (dep_edge s)\<^sup>*\<^sup>* tid x \<longrightarrow> lr_pendingTxns s x \<noteq> None \<longrightarrow> (\<exists>t. lr_activeTxns s x = Some (Some t))
    then \<exists>s'. CascadeAbort env s tid = Inr s' \<and>
      lr_pendingTxns s' = lr_pendingTxns s \<and> lr_activeTxns s' = lr_activeTxns s \<and>
      (\<forall>x. (dep_edge s)\<^sup>*\<^sup>* tid x \<longrightarrow> store_precommitted (srv_store (lr_store s')) x = None \<and>
         (store_precommitted (srv_store (lr_store s)) x = None \<longrightarrow> store_prepared (srv_store (lr_store s')) x = None)) \<and>
      (\<forall>x. \<not> (dep_edge s)\<^sup>*\<^sup>* tid x \<longrightarrow>
         store_precommitted (srv_store (lr_store s')) x = store_precommitted (srv_store (lr_store s)) x \<and>
         store_prepared (srv_store (lr_store s')) x = store_prepared (srv_store (lr_store s)) x)
    else CascadeAbort env s tid = Inl NullDeref"
proof -
  have res: "cascade_result s tid s (CascadeAbort env s tid)"
    unfolding CascadeAbort_def by (rule cascade_terminates [of s rank, OF assms same_deps_refl])
  show ?thesis
  proof (cases "objects_exist s tid")
    case True
    then obtain s' where "CascadeAbort env s tid = Inr s'" "same_deps s s'"
      "aborts (dependents s tid) (srv_store (lr_store s)) (srv_store (lr_store s'))"
      using res unfolding cascade_result_def cascade_post_def by auto
    then show ?thesis
      using True unfolding objects_exist_def same_deps_def aborts_def by (simp add: if_P)
  next
    case False
    with res show ?thesis unfolding cascade_result_def objects_exist_def by (simp only: if_False)
  qed
qed

text \<open>Transaction 10 has read a write of the pre-committed transaction 9; 11 is independent.\<close>

definition demo_chain :: LRReplica where
  "demo_chain = (demo_replica MODE_PARALLEL 0)
     \<lparr>lr_pendingTxns := [9 \<mapsto> PendingTransaction_new None 2 0 9 [0] (Some 0)],
      lr_activeTxns := [9 \<mapsto> Some (addOut (Transaction_primary 9 7 0 0) 10), 10 \<mapsto> Some (Transaction_primary 10 8 0 0)],
      lr_store := \<lparr>srv_mode = MODE_OCC, srv_tpcMode = MODE_PARALLEL, srv_store = OCC (OCCStore_new
        \<lparr>occ_prepared := [(10, demo_x), (11, demo_y)], occ_precommitted := [(9, demo_x)]\<rparr>)\<rparr>\<rparr>"

lemma demo_chain_edge: "dep_edge demo_chain x y \<longleftrightarrow> x = 9 \<and> y = 10"
  by (auto simp: dep_edge_def demo_chain_def addOut_def txn_ctor_defs split: if_splits)

theorem cascade_abort_exact_witness:
  "\<exists>s'. CascadeAbort demo_env demo_chain 9 = Inr s' \<and>
     store_precommitted (srv_store (lr_store s')) 9 = None \<and> store_prepared (srv_store (lr_store s')) 10 = None \<and>
     store_prepared (srv_store (lr_store s')) 11 = Some demo_y"
proof -
  let ?rank = "\<lambda>x :: u64. if x = 9 then 1 else 0 :: nat"
  have r: "?rank y < ?rank x" if "dep_edge demo_chain x y" for x y using that by (simp add: demo_chain_edge)
  have a: "\<exists>t. lr_activeTxns demo_chain x = Some (Some t)" if "lr_pendingTxns demo_chain x \<noteq> None" for x
    using that by (auto simp: demo_chain_def split: if_splits)
  have d: "?rank 9 < env_depth demo_env" by (simp add: demo_env_def)
  have "(dep_edge demo_chain)\<^sup>*\<^sup>* 9 9" "(dep_edge demo_chain)\<^sup>*\<^sup>* 9 10"
    by (auto simp: demo_chain_edge)
  moreover have "\<not> (dep_edge demo_chain)\<^sup>*\<^sup>* 9 11"
    by (auto simp: demo_chain_edge elim: rtranclp.cases)
  moreover have "store_precommitted (srv_store (lr_store demo_chain)) 10 = None"
    "store_prepared (srv_store (lr_store demo_chain)) 11 = Some demo_y"
    by (simp_all add: demo_chain_def)
  ultimately show ?thesis
    using cascade_abort_exact [of demo_chain ?rank 9 demo_env, OF r d] a by (auto split: if_splits)
qed

text \<open>The second outcome is that of an ordinary parallel-mode state: the primary shard of a transaction
  it takes no part in keeps a pending record without a transaction object
  (\<^verbatim>\<open>HandleParallelModeCommit\<close>).\<close>

lemma cascade_abort_nonparticipant:
  "bindr (lr_HandleMessage demo_env (demo_replica MODE_PARALLEL 0) 44 (LParallelModeCommit 12 [1]))
     (\<lambda>s. CascadeAbort demo_env s 12) = Inl NullDeref"
proof -
  let ?r = "bindr (lr_HandleMessage demo_env (demo_replica MODE_PARALLEL 0) 44 (LParallelModeCommit 12 [1]))
     (\<lambda>s. CascadeAbort demo_env s 12)"
  have "isl ?r" "projl ?r = NullDeref" by code_simp+
  then show ?thesis by (cases ?r) auto
qed

end
