(* ===== verification/D2PCSystem.thy ===== *)
theory D2PCSystem
  imports LRFast LRCascade
begin

text \<open>
  The parts put together: a shard of three replicas and the coordinator group beside it, with the
  messages of one part handed to the other. \<^verbatim>\<open>SendMessageToAll\<close> leaves out the replica whose
  address equals the one the sender was registered with; a shard replica is registered last as a
  client of the coordinator group, so that its broadcasts reach itself as well.
\<close>

section \<open>Messages between a shard and the coordinator group\<close>

fun co_to_lr :: "co_out \<Rightarrow> lr_msg list" where
  "co_to_lr (ONotifyDecision tid st ts) = [LNotifyDecision tid st ts]"
| "co_to_lr (ONotifyReplicateResult tid ok ts) = [LNotifyReplicateResult tid ok ts]"
| "co_to_lr m = []"

fun co_to_co :: "co_out \<Rightarrow> co_msg list" where
  "co_to_co (OBypassLeaderReply tid shard replica) =
     [MBypassLeaderReply \<lparr>bl_tid = tid, bl_shard = shard, bl_replica = replica\<rparr>]"
| "co_to_co (OReplicateDecision tid st ts) = [MReplicateDecision tid st ts]"
| "co_to_co (OReplyDecision tid c ts) = [MReplyDecision tid c ts]"
| "co_to_co m = []"

fun lr_to_co :: "lr_dest \<times> lr_out \<Rightarrow> co_msg list" where
  "lr_to_co (d, SCoordinator m) = [m]"
| "lr_to_co p = []"

fun lr_to_lr :: "lr_dest \<times> lr_out \<Rightarrow> lr_msg list" where
  "lr_to_lr (d, SReplicateTransaction m) = [LReplicateTransaction m]"
| "lr_to_lr (d, SReplicateCommit m) = [LReplicateCommit m]"
| "lr_to_lr p = []"

primrec lr_deliver :: "Env \<Rightarrow> addr \<Rightarrow> lr_msg list \<Rightarrow> LRReplica \<Rightarrow> ub + LRReplica" where
  "lr_deliver env a [] s = Inr s"
| "lr_deliver env a (m # ms) s = bindr (lr_HandleMessage env s a m) (lr_deliver env a ms)"

text \<open>
  One transaction of one shard in parallel mode. The leader prepares; it and a follower store the
  log entry and vote, each to its coordinator; the second coordinator forwards the acknowledgement
  to the first, which decides; the leader receives the decisions.
\<close>

definition parallel_commit :: "Env \<Rightarrow> LRReplica \<Rightarrow> LRReplica \<Rightarrow> Coordinator \<Rightarrow> Coordinator \<Rightarrow>
    addr \<Rightarrow> PrepareTransaction \<Rightarrow> ub + LRReplica" where
  "parallel_commit env l f c0 c1 client prep =
     bindr (lr_HandleMessage env l client (LPrepareTransaction prep)) (\<lambda>l.
     let entries = concat (map lr_to_lr (lr_sent l)) in
     bindr (lr_deliver env 0 entries l) (\<lambda>l.
     bindr (lr_deliver env 0 entries f) (\<lambda>f.
     bindr (co_outcome (co_run c0 (concat (map lr_to_co (lr_sent l))))) (\<lambda>(c0, out0).
     bindr (co_outcome (co_run c1 (concat (map lr_to_co (lr_sent f))))) (\<lambda>(c1, out1).
     bindr (co_outcome (co_run c0 (concat (map (co_to_co \<circ> snd) (out0 @ out1))))) (\<lambda>(c0, out2).
       lr_deliver env 0 (concat (map (co_to_lr \<circ> snd) (out0 @ out2))) l))))))"

end
