(* ===== verification/FastSystem.thy ===== *)
theory FastSystem
  imports ClientFast D2PCSystem
begin

text \<open>
  A transaction client and the leaders of the shards in fast mode: each message that the client
  receives from a shard is one that the leader of that shard has sent.
\<close>

definition leader_history :: "int \<Rightarrow> int \<Rightarrow> nat \<Rightarrow> Server \<Rightarrow> (Env \<times> lr_event) list \<Rightarrow> LRReplica \<Rightarrow> bool" where
  "leader_history n f j sv evs s \<longleftrightarrow> 0 < n \<and> n < 2 ^ 31 \<and> 0 \<le> f \<and> f < 2 ^ 31 - 1 \<and> store_reach (srv_store sv) \<and>
     list_all fast_event evs \<and>
     (\<exists>r nshards nt ts0. lr_run evs (LRReplica_new n f r r (of_nat j) nshards nt MODE_FAST sv ts0) = Inr s)"

definition delivered :: "nat \<Rightarrow> cl_event list \<Rightarrow> (nat \<Rightarrow> LRReplica) \<Rightarrow> bool" where
  "delivered k es S \<longleftrightarrow> (\<forall>j m. TMessage j (MPrepareReply m) \<in> set es \<longrightarrow>
     j < k \<and> (\<exists>d. (d, SPrepareTransactionReply m) \<in> set (lr_sent (S j))))"

lemma int32_of_nat: "j < 2 ^ 31 \<Longrightarrow> int32 (of_nat j) = int j"
  by (simp add: int32_def signed_of_nat signed_take_bit_int_eq_self unsigned_of_nat take_bit_nat_eq_self)

lemma leader_history_reply:
  assumes "leader_history n f j sv evs s" and "(d, SPrepareTransactionReply m) \<in> set (lr_sent s)"
  shows "pr_shard m = of_nat j \<and> (pr_state m = LOG_STATE_PREPAREOK \<longrightarrow> log_replicated (set (acks evs)) f (pr_tid m))"
  using assms fast_replies unfolding leader_history_def by blast

lemma fast_commit_logged:
  assumes client: "Client_new md MODE_FAST shards closest k tt tpcc jf cid = Inr c0" "length shards < 2 ^ 31"
      "cl_run es c0 = Inr c" "cl_step c e = Inr c'" "cl_results c' = cl_results c @ [RCommit True]"
    and leaders: "\<And>j. j < length shards \<Longrightarrow> leader_history n f j (sv j) (evs j) (S j)"
    and net: "delivered (length shards) (e # es) S" and q: "q \<in> set (cl_participants c)"
  shows "log_replicated (set (acks (evs (nat q)))) f (cl_t_id c)"
proof -
  have shard: "int32 (pr_shard m) = int j" if "TMessage j (MPrepareReply m) \<in> set (e # es)" for j m
  proof -
    from net that obtain d where j: "j < length shards" "(d, SPrepareTransactionReply m) \<in> set (lr_sent (S j))"
      unfolding delivered_def by blast
    have "pr_shard m = of_nat j" using leader_history_reply [OF leaders [OF j(1)] j(2)] by simp
    moreover have "j < 2 ^ 31" using j(1) client(2) by simp
    ultimately show ?thesis by (simp only: int32_of_nat)
  qed
  have "all_voted (votes_of es) c"
    by (rule commit_all_voted [OF client]) (use shard in blast)
  with q obtain m where m: "TMessage (nat q) (MPrepareReply m) \<in> set es" "pr_tid m = cl_t_id c" "pr_state m = LOG_STATE_PREPAREOK"
    by (auto simp: all_voted_def shard_voted_def votes_of_def)
  then obtain d where "nat q < length shards" "(d, SPrepareTransactionReply m) \<in> set (lr_sent (S (nat q)))"
    using net by (auto simp: delivered_def)
  from leader_history_reply [OF leaders [OF this(1)] this(2)] m show ?thesis by simp
qed

section \<open>An example\<close>

text \<open>Two shards with three replicas each; the leader of shard \<open>j\<close> is its replica \<open>j\<close>.\<close>

definition demo_piece :: "nat \<Rightarrow> lr_msg" where
  "demo_piece j = hd [m. (i, d, m) \<leftarrow> cl_sent demo_waiting, i = j]"

definition demo_shard_ack :: "int \<Rightarrow> lr_msg" where
  "demo_shard_ack i = LReplicateTransactionReply \<lparr>rr_lsn = 0, rr_term = 0, rr_replicaID = i, rr_txnid = 50001\<rparr>"

definition demo_shard_events :: "nat \<Rightarrow> (Env \<times> lr_event) list" where
  "demo_shard_events j = [(demo_env, EMsg 44 (demo_piece j)), (demo_env, EMsg 1 (demo_shard_ack 1)), (demo_env, EMsg 2 (demo_shard_ack 2))]"

definition demo_shard_leader :: "nat \<Rightarrow> LRReplica" where
  "demo_shard_leader j = projr (lr_run (demo_shard_events j)
     (LRReplica_new 3 1 (of_nat j) (of_nat j) (of_nat j) 2 2 MODE_FAST demo_server 6))"

lemma demo_leaders:
  assumes "j < 2"
  shows "leader_history 3 1 j demo_server (demo_shard_events j) (demo_shard_leader j)"
proof -
  have "list_all fast_event (demo_shard_events 0)" "list_all fast_event (demo_shard_events 1)"
    by code_simp+
  moreover have "lr_run (demo_shard_events i) (LRReplica_new 3 1 (of_nat i) (of_nat i) (of_nat i) 2 2 MODE_FAST demo_server 6) =
      Inr (demo_shard_leader i)" if "i = 0 \<or> i = 1" for i
  proof -
    have "\<not> isl (lr_run (demo_shard_events 0) (LRReplica_new 3 1 (of_nat 0) (of_nat 0) (of_nat 0) 2 2 MODE_FAST demo_server 6))"
      "\<not> isl (lr_run (demo_shard_events 1) (LRReplica_new 3 1 (of_nat 1) (of_nat 1) (of_nat 1) 2 2 MODE_FAST demo_server 6))"
      by code_simp+
    with that show ?thesis unfolding demo_shard_leader_def by (intro projr_Inr) auto
  qed
  moreover have "j = 0 \<or> j = 1" using assms by auto
  ultimately show ?thesis using demo_server_reach unfolding leader_history_def by fastforce
qed

lemma demo_delivered: "delivered 2 (AResume demo_time demo_time # demo_txn) demo_shard_leader"
proof -
  let ?m = "\<lambda>j. \<lparr>pr_tid = 50001, pr_state = LOG_STATE_PREPAREOK, pr_shard = of_nat j, pr_timestamp = 7,
    pr_reachFaultTolerance = 0, pr_replica = of_nat j\<rparr>"
  have "(DAddr 44, SPrepareTransactionReply (?m 0)) \<in> set (lr_sent (demo_shard_leader 0))"
    "(DAddr 44, SPrepareTransactionReply (?m 1)) \<in> set (lr_sent (demo_shard_leader 1))"
    by code_simp+
  then show ?thesis by (auto simp: delivered_def demo_txn_def demo_ok_def)
qed

end
