(* ===== verification/ParallelLog.thy ===== *)
theory ParallelLog
  imports D2PCSystem
begin

text \<open>
  What the handlers of a shard replica do to its log and to the messages that others rely on: the
  transaction of a log entry never changes, a log entry that is sent is in the log, and a vote that
  acknowledges an entry is sent only by the handler that stores it.
\<close>

definition entry_key :: "LogEntry \<Rightarrow> u64 option \<times> u64 option" where
  "entry_key e = (le_id e, le_txn e)"

definition log_keys :: "Log \<Rightarrow> u64 \<Rightarrow> (u64 option \<times> u64 option) option" where
  "log_keys l i = map_option entry_key (log_Find l i)"

fun log_backed :: "Log \<Rightarrow> lr_out \<Rightarrow> bool" where
  "log_backed l (SReplicateTransaction m) \<longleftrightarrow>
     (\<exists>i. log_keys l i = Some (Some (lp_lsn (rt_txnLog m)), Some (lp_txnid (rt_txnLog m))))"
| "log_backed l (SCoordinator (MReplicateReplyAndVote m)) \<longleftrightarrow> False"
| "log_backed l (SCoordinator (MBypassLeaderReply b)) \<longleftrightarrow> False"
| "log_backed l (SCoordinator (MBypassLeaderReplyUnion b)) \<longleftrightarrow> False"
| "log_backed l (SCoordinator (MNotifyDecisionToPrimary d)) \<longleftrightarrow> False"
| "log_backed l (SParallelModeCommitReply tid st ts) \<longleftrightarrow> False"
| "log_backed l m \<longleftrightarrow> True"

text \<open>A step that stores nothing.\<close>

definition log_quiet :: "LRReplica \<Rightarrow> LRReplica \<Rightarrow> bool" where
  "log_quiet s t \<longleftrightarrow> lr_shard_id t = lr_shard_id s \<and> lr_replica_id t = lr_replica_id s \<and> lr_isLeader t = lr_isLeader s \<and>
     log_keys (lr_log t) = log_keys (lr_log s) \<and> lg_last (lr_log t) = lg_last (lr_log s) \<and>
     (\<exists>ms. lr_sent t = lr_sent s @ ms \<and> list_all (log_backed (lr_log s) \<circ> snd) ms)"

lemma backed_cong: "log_keys l = log_keys l' \<Longrightarrow> log_backed l m = log_backed l' m"
  by (cases "(l, m)" rule: log_backed.cases) simp_all

lemma quiet_refl [simp]: "log_quiet s s"
  by (simp add: log_quiet_def)

lemma quiet_trans: "log_quiet s t \<Longrightarrow> log_quiet t u \<Longrightarrow> log_quiet s u"
  unfolding log_quiet_def list_all_iff by (auto simp: backed_cong [of "lr_log t" "lr_log s"])

lemma quiet_update [simp]:
  "log_quiet s (t\<lparr>lr_store := v1\<rparr>) \<longleftrightarrow> log_quiet s t" "log_quiet s (t\<lparr>lr_pendingTxns := v2\<rparr>) \<longleftrightarrow> log_quiet s t"
  "log_quiet s (t\<lparr>lr_pendingPrepares := v3\<rparr>) \<longleftrightarrow> log_quiet s t" "log_quiet s (t\<lparr>lr_activeTxns := v4\<rparr>) \<longleftrightarrow> log_quiet s t"
  "log_quiet s (t\<lparr>lr_committedTxns := v5\<rparr>) \<longleftrightarrow> log_quiet s t" "log_quiet s (t\<lparr>lr_inDependency := v6\<rparr>) \<longleftrightarrow> log_quiet s t"
  "log_quiet s (t\<lparr>lr_clientList := v7\<rparr>) \<longleftrightarrow> log_quiet s t" "log_quiet s (t\<lparr>lr_prepareClientList := v8\<rparr>) \<longleftrightarrow> log_quiet s t"
  "log_quiet s (t\<lparr>lr_current_ts := v9\<rparr>) \<longleftrightarrow> log_quiet s t"
  by (simp_all add: log_quiet_def)

lemma quiet_maps [simp]:
  "log_quiet s (put_pending t tid req) \<longleftrightarrow> log_quiet s t" "log_quiet s (erase_pending t tid) \<longleftrightarrow> log_quiet s t"
  "log_quiet s (erase_active t tid) \<longleftrightarrow> log_quiet s t" "log_quiet s (erase_client t tid) \<longleftrightarrow> log_quiet s t"
  "log_quiet s (set_active t tid txn) \<longleftrightarrow> log_quiet s t" "log_quiet s (put_prepare t tid pr) \<longleftrightarrow> log_quiet s t"
  "log_quiet s (abort_upcall t rq) \<longleftrightarrow> log_quiet s t" "log_quiet s (raise_ts t ts) \<longleftrightarrow> log_quiet s t" "log_quiet s (lr_PreCommit t tid) \<longleftrightarrow> log_quiet s t"
  by (simp_all add: put_pending_def erase_pending_def erase_active_def erase_client_def set_active_def put_prepare_def
      abort_upcall_def raise_ts_def lr_PreCommit_def)

lemma quiet_send: "log_quiet s t \<Longrightarrow> log_backed (lr_log s) m \<Longrightarrow> log_quiet s (t\<lparr>lr_sent := lr_sent t @ [(d, m)]\<rparr>)"
  by (auto simp: log_quiet_def)

lemma quiet_log: "log_quiet s t \<Longrightarrow> log_keys l = log_keys (lr_log t) \<Longrightarrow> lg_last l = lg_last (lr_log t) \<Longrightarrow> log_quiet s (t\<lparr>lr_log := l\<rparr>)"
  by (simp add: log_quiet_def)

lemma log_keys_set_entry: "log_Find l i = Some e \<Longrightarrow> entry_key e' = entry_key e \<Longrightarrow> log_keys (set_entry l i e') = log_keys l"
  by (auto simp: log_keys_def log_Find_def set_entry_def fun_eq_iff)

lemma lg_last_set_entry [simp]: "lg_last (set_entry l i e) = lg_last l"
  by (simp add: set_entry_def)

lemma quiet_SetStatus: "log_quiet s t \<Longrightarrow> log_quiet s (t\<lparr>lr_log := snd (SetStatus (lr_log t) i st)\<rparr>)"
  by (rule quiet_log) (auto simp: SetStatus_def setState_def entry_key_def intro!: log_keys_set_entry split: option.split)

lemma EntryToProto_backed:
  assumes "EntryToProto l i = Inr (p, l')"
  shows "l' = l" and "log_keys l i = Some (Some (lp_lsn p), Some (lp_txnid p))"
  using assms by (auto simp: EntryToProto_def entry_proto_def LogEntry_default_def log_keys_def entry_key_def bindr_eq_Inr split: option.splits)

section \<open>The handlers\<close>

lemma ReplicateTxn_quiet: "log_quiet s t \<Longrightarrow> after (log_quiet s) (ReplicateTxn env t req)"
proof -
  assume q: "log_quiet s t"
  have "log_quiet s (t\<lparr>lr_log := l, lr_sent := lr_sent t @ [(d, SReplicateTransaction m)]\<rparr>)"
    if "EntryToProto (lr_log t) (pt_lsn req) = Inr (p, l)" "rt_txnLog m = p" for p l d m
  proof -
    note e = EntryToProto_backed [OF that(1)]
    have "log_backed (lr_log s) (SReplicateTransaction m)" using q e(2) that(2) by (auto simp: log_quiet_def)
    with quiet_send [OF q this] e(1) show ?thesis by simp
  qed
  then show ?thesis
    by (cases "EntryToProto (lr_log t) (pt_lsn req)")
      (auto simp: ReplicateTxn_def lr_send_def split: bool.split intro!: after_bindr_any)
qed

lemma ResendReplicateTxn_quiet: "log_quiet s t \<Longrightarrow> after (log_quiet s) (ResendReplicateTxn env t tid)"
  by (simp add: ResendReplicateTxn_def ReplicateTxn_quiet split: option.split)

lemma InvokeReplicateTxn_quiet: "log_quiet s t \<Longrightarrow> after (log_quiet s) (InvokeReplicateTxn env t tid lsn b)"
  by (auto simp: InvokeReplicateTxn_def Let_def ReplicateTxn_quiet ResendReplicateTxn_quiet split: option.split intro!: after_bindr_any)

lemma send_to_primary_quiet: "log_quiet s t \<Longrightarrow> log_backed (lr_log s) m \<Longrightarrow> after (\<lambda>(ok, t'). log_quiet s t') (send_to_primary env t ps m)"
  by (auto simp: send_to_primary_def lr_send_def quiet_send intro!: after_bindr_any)

lemma HandleConsensus_quiet: "log_quiet s t \<Longrightarrow> after (log_quiet s) (HandleConsensus env t tid req)"
  by (auto simp: HandleConsensus_def Let_def lr_send_def quiet_send split: bool.split
      intro!: after_bindr_any [where r = "active t' i" for t' i] after_bindr_any [where r = "rd x" for x]
        after_bindr_any [where r = "deref m i" for m i] after_bindr [OF send_to_primary_quiet])

lemma HandleReplicateTransactionReply_quiet: "log_quiet s t \<Longrightarrow> after (log_quiet s) (HandleReplicateTransactionReply env t m)"
  by (auto simp: HandleReplicateTransactionReply_def Let_def HandleConsensus_quiet split: option.split prod.split)

lemma ResendPrepareOK_quiet: "log_quiet s t \<Longrightarrow> after (log_quiet s) (ResendPrepareOK env t tid)"
  by (auto simp: ResendPrepareOK_def Let_def lr_send_def quiet_send split: option.split
      intro!: after_bindr_any [where r = "active t' i" for t' i] after_bindr_any [where r = "rd x" for x] after_bindr_any [where r = "timer_Reset x" for x]
        after_bindr_any [where r = "deref m i" for m i] after_bindr [OF send_to_primary_quiet])

lemma cascade_quiet: "log_quiet s t \<Longrightarrow> after (log_quiet s) (cascade d env tid t)"
proof (induction d arbitrary: tid t)
  case (Suc d)
  have "log_quiet s u \<Longrightarrow> after (log_quiet s) (cascade_outs (cascade d env) env tid xs u)" for xs u
  proof (induction xs arbitrary: u)
    case (Cons x xs)
    then show ?case by (auto simp: quiet_send intro!: after_bindr [OF Suc.IH])
  qed simp
  then show ?case using Suc.prems by (auto simp: Let_def intro!: after_bindr_any)
qed simp

lemma CascadeAbort_quiet: "log_quiet s t \<Longrightarrow> after (log_quiet s) (CascadeAbort env t tid)"
  by (simp add: CascadeAbort_def cascade_quiet)

lemma notify_outs_quiet: "log_quiet s t \<Longrightarrow> after (log_quiet s) (notify_outs env req xs t)"
proof (induction xs arbitrary: t)
  case (Cons x xs)
  then show ?case by (auto simp: Let_def quiet_send intro!: after_bindr_any)
qed simp

lemma notifyForFollowingDependenies_quiet: "log_quiet s t \<Longrightarrow> after (log_quiet s) (notifyForFollowingDependenies env t tid)"
  by (auto simp: notifyForFollowingDependenies_def notify_outs_quiet split: option.split intro!: after_bindr_any)

lemma send_region_quiet: "log_quiet s t \<Longrightarrow> log_backed (lr_log s) m \<Longrightarrow> after (log_quiet s) (send_region env m ps t)"
  by (induction ps arbitrary: t) (auto simp: quiet_send intro!: after_bindr_any)

lemma notifyCommitToReplica_quiet: "log_quiet s t \<Longrightarrow> after (\<lambda>(req, t'). log_quiet s t') (notifyCommitToReplica env t req m)"
proof -
  assume q: "log_quiet s t"
  note q1 = quiet_SetStatus [OF q, of "pt_tid req" "cm_state m"]
  show ?thesis
    using quiet_send [OF q1] by (auto simp: notifyCommitToReplica_def Let_def lr_send_def intro!: after_bindr [OF send_region_quiet] q1)
qed

lemma applyToStore_quiet: "log_quiet s t \<Longrightarrow> after (\<lambda>(req, t'). log_quiet s t') (applyToStore t req m)"
  by (auto simp: applyToStore_def Let_def split: LogEntryState.split intro!: after_bindr_any)

lemma HandleCommit_quiet: "log_quiet s t \<Longrightarrow> after (log_quiet s) (HandleCommit env t m)"
proof -
  assume q: "log_quiet s t"
  have entry: "log_quiet s ((raise_ts t x)\<lparr>lr_log := set_entry (lr_log t) i (e\<lparr>le_ts := y\<rparr>)\<rparr>)" if "log_Find (lr_log t) i = Some e" for x y i e
    using q that by (intro quiet_log) (auto simp: entry_key_def intro!: log_keys_set_entry)
  show ?thesis
    unfolding HandleCommit_def
    by (auto simp: Let_def q entry quiet_send split: option.split
        intro!: after_bindr [where P = "log_quiet s"] after_bindr [where P = "\<lambda>(req, t'). log_quiet s t'"]
          after_bindr_any [where r = "if b then active u v else Inr w" for b u v w]
          notifyCommitToReplica_quiet applyToStore_quiet notifyForFollowingDependenies_quiet CascadeAbort_quiet)
qed

lemma HandleReplicateCommit_quiet: "log_quiet s t \<Longrightarrow> after (log_quiet s) (HandleReplicateCommit t m)"
  by (auto simp: HandleReplicateCommit_def Let_def quiet_SetStatus split: sum.split LogEntryState.split)

lemma read_keys_quiet: "log_quiet s t \<Longrightarrow> read_keys tid keys acc t = (ok, kvs, t') \<Longrightarrow> log_quiet s t'"
proof (induction keys arbitrary: acc t)
  case (Cons k ks)
  from Cons.prems(2) show ?case
    using Cons.prems(1) by (auto simp: Let_def split: if_splits sum.splits dest!: Cons.IH [rotated])
qed simp

lemma HandleRead_quiet: "log_quiet s t \<Longrightarrow> after (log_quiet s) (HandleRead env t a tid keys)"
  by (auto simp: HandleRead_def quiet_send dest: read_keys_quiet split: prod.split)

lemma HandleDecision_quiet: "log_quiet s t \<Longrightarrow> after (log_quiet s) (HandleDecisionFromCoordinatorReplica env t tid st ts)"
  by (auto simp: HandleDecisionFromCoordinatorReplica_def split: option.split
      intro!: after_bindr [where P = "log_quiet s"] after_bindr_any [where r = "if b then active u v else Inr w" for b u v w]
        after_bindr_any [where r = "active u v" for u v] CascadeAbort_quiet)

text \<open>The leader answers the client on a result of the coordinator group, and then commits.\<close>

definition answered :: "u64 \<Rightarrow> LRReplica \<Rightarrow> LRReplica \<Rightarrow> bool" where
  "answered tid s u \<longleftrightarrow> lr_shard_id u = lr_shard_id s \<and> lr_replica_id u = lr_replica_id s \<and> lr_isLeader u = lr_isLeader s \<and>
     lr_log u = lr_log s \<and> (\<exists>ms. lr_sent u = lr_sent s @ ms \<and> list_all (\<lambda>m. \<exists>st ts. snd m = SParallelModeCommitReply tid st ts) ms)"

lemma HandleParallelCommitResult_answers: "after (answered tid s) (HandleParallelCommitResult env s tid ts st)"
  by (auto simp: HandleParallelCommitResult_def answered_def erase_client_def split: option.split intro!: after_bindr_any)

lemma HandleReplicateResult_answers:
  "after (\<lambda>t. \<exists>u. answered tid s u \<and> log_quiet u t) (HandleReplicateResultFromCoordinatorReplica env s tid ts)"
  unfolding HandleReplicateResultFromCoordinatorReplica_def
proof (rule after_bindr [OF HandleParallelCommitResult_answers])
  fix u assume a: "answered tid s u"
  have "after (log_quiet u) (HandleCommit env u m)" for m by (rule HandleCommit_quiet) simp
  with a show "after (\<lambda>t. \<exists>u. answered tid s u \<and> log_quiet u t) (HandleCommit env u \<lparr>cm_tid = tid, cm_state = LOG_STATE_COMMIT, cm_timestamp = ts\<rparr>)"
    by (auto simp: after_def)
qed

lemma HandleParallelModeCommit_quiet: "log_quiet s t \<Longrightarrow> log_quiet s (HandleParallelModeCommit env t a tid ps)"
proof -
  assume q: "log_quiet s t"
  have "log_quiet s ((put_pending t tid r)\<lparr>lr_clientList := c, lr_sent := lr_sent (put_pending t tid r) @ [(d, SCoordinator (MRequestCommitResult m))]\<rparr>)" for r c d m
    using quiet_send [of s "(put_pending t tid r)\<lparr>lr_clientList := c\<rparr>" "SCoordinator (MRequestCommitResult m)" d] q by simp
  then show ?thesis using q by (auto simp: HandleParallelModeCommit_def Let_def split: option.split)
qed

lemma send_pieces_quiet: "log_quiet s t \<Longrightarrow> after (log_quiet s) (send_pieces env tid ps gone t)"
proof (induction ps arbitrary: gone t)
  case (Cons p ps)
  then show ?case
    by (auto simp: lr_send_def quiet_send split: option.split bool.split intro!: after_bindr_any)
qed simp

lemma SendPrepare_quiet: "log_quiet s t \<Longrightarrow> after (log_quiet s) (SendPrepare env t tid)"
  by (auto simp: SendPrepare_def Let_def send_pieces_quiet split: option.split intro!: after_bindr_any)

lemma HandlePrepare_quiet: "log_quiet s t \<Longrightarrow> after (log_quiet s) (lr_HandlePrepare env t a m)"
  by (auto simp: lr_HandlePrepare_def Let_def SendPrepare_quiet split: option.split)

lemma final_decision_quiet: "log_quiet s t \<Longrightarrow> after (log_quiet s) (final_decision env t req)"
proof -
  assume q: "log_quiet s t"
  have one: "log_quiet s (t\<lparr>lr_sent := lr_sent t @ [(d, SPrepareTransactionReply m)]\<rparr>)" for d m
    using quiet_send [OF q] by simp
  have two: "log_quiet s (t\<lparr>lr_sent := lr_sent t @ [(d, SPrepareTransactionReply m), (d', SPrepareTransactionReply m')]\<rparr>)" for d m d' m'
    using quiet_send [OF one [of d m], of "SPrepareTransactionReply m'" d'] by simp
  show ?thesis
    by (auto simp: final_decision_def Let_def lr_send_def one two put_prepare_def split: bool.split
      intro!: after_bindr_any [where r = "rd x" for x] after_bindr_any [where r = "deref m i" for m i]
        after_bindr_any [where r = "timer_Stop x" for x] after_bindr [where P = "log_quiet s", OF HandleCommit_quiet] one)
qed

lemma HandlePrepareTransactionReply_quiet: "log_quiet s t \<Longrightarrow> after (log_quiet s) (HandlePrepareTransactionReply env t m)"
  by (auto simp: HandlePrepareTransactionReply_def ReplyFinalDecision_def Let_def split: option.split prod.split bool.split
      intro!: after_bindr_any [where r = "rd x" for x] after_bindr_any [where r = "timer_Stop x" for x]
        after_bindr [OF final_decision_quiet] after_bindr [OF HandleCommit_quiet])

lemma answer_again_quiet: "log_quiet s t \<Longrightarrow> after (log_quiet s) (answer_again env t a m rp)"
  by (auto simp: answer_again_def quiet_send intro!: after_bindr [OF send_to_primary_quiet])

lemma timeouts_quiet:
  "log_quiet s t \<Longrightarrow> after (log_quiet s) (lr_timeout_txn env t tid)" "log_quiet s t \<Longrightarrow> after (log_quiet s) (lr_timeout_prepare env t tid)"
  by (auto simp: lr_timeout_txn_def lr_timeout_prepare_def ResendPrepare_def ResendReplicateTxn_quiet ResendPrepareOK_quiet SendPrepare_quiet
      split: option.split prod.split timer_cb.split bool.split)

section \<open>Steps that store\<close>

text \<open>The leader appends an entry under the next number.\<close>

definition appended :: "LRReplica \<Rightarrow> LRReplica \<Rightarrow> bool" where
  "appended s t \<longleftrightarrow> lr_isLeader s \<and> (\<exists>i tid l. lg_last (lr_log s) = Some i \<and>
     log_keys l = (log_keys (lr_log s))(i \<mapsto> (Some i, Some tid)) \<and> lg_last l = Some (i + 1) \<and> log_quiet (s\<lparr>lr_log := l\<rparr>) t)"

lemma log_keys_put: "log_keys (l\<lparr>lg_entries := smap_put i e (lg_entries l), lg_storedEntries := xs\<rparr>) = (log_keys l)(i \<mapsto> entry_key e)"
  by (auto simp: log_keys_def log_Find_def fun_eq_iff)

lemma quiet_keys: "log_quiet s t \<Longrightarrow> log_keys (lr_log t) = log_keys (lr_log s)" "log_quiet s t \<Longrightarrow> lg_last (lr_log t) = lg_last (lr_log s)"
  "log_quiet s t \<Longrightarrow> lr_isLeader t = lr_isLeader s"
  by (simp_all add: log_quiet_def)

text \<open>What a replica has sent before it appends is still backed.\<close>

lemma backed_keys_mono:
  assumes "\<And>i x. log_keys l i = Some x \<Longrightarrow> log_keys l' i = Some x" and "log_backed l m" shows "log_backed l' m"
proof (cases m)
  case (SCoordinator x)
  then show ?thesis using assms by (cases x) auto
qed (use assms in auto)

lemma quiet_append:
  assumes "log_quiet s t" and "log_keys (lr_log s) i = None" and "log_keys l = (log_keys (lr_log s))(i \<mapsto> x)"
  shows "log_quiet (s\<lparr>lr_log := l\<rparr>) (t\<lparr>lr_log := l\<rparr>)"
proof -
  have "log_backed (lr_log s) m \<Longrightarrow> log_backed l m" for m
    by (rule backed_keys_mono [of "lr_log s"]) (use assms(2,3) in auto)
  then show ?thesis using assms(1) by (auto simp: log_quiet_def list_all_iff)
qed

lemma leader_replicate_appends:
  assumes q: "log_quiet s t" and "lr_isLeader s" and free: "\<And>i. lr_isLeader s \<Longrightarrow> lg_last (lr_log s) = Some i \<Longrightarrow> log_keys (lr_log s) i = None"
  shows "after (appended s) (leader_replicate env t a tid txn)"
proof -
  define t1 where "t1 = set_active (t\<lparr>lr_clientList := (lr_clientList t)(tid \<mapsto> Some a)\<rparr>) tid txn"
  have q1: "log_quiet s t1" using q by (simp add: t1_def)
  have "after (appended s) (InvokeReplicateTxn env (t1\<lparr>lr_log := l\<rparr>) tid lsn b)"
    if add: "Log_Add (lr_log t1) tm tid ws st ts = Inr (lsn, l)" for tm ws st ts lsn l b
  proof -
    have i: "lg_last (lr_log s) = Some lsn" and l: "log_keys l = (log_keys (lr_log s))(lsn \<mapsto> (Some lsn, Some tid))" "lg_last l = Some (lsn + 1)"
      using add quiet_keys [OF q1]
      by (auto simp: Log_Add_def Log_Add_entry_def bindr_eq_Inr log_keys_put LogEntry_full_def entry_key_def)
        (simp_all add: log_keys_def log_Find_def entry_key_def fun_eq_iff)
    have "log_quiet (s\<lparr>lr_log := l\<rparr>) (t1\<lparr>lr_log := l\<rparr>)" by (rule quiet_append [OF q1 free [OF assms(2) i] l(1)])
    from InvokeReplicateTxn_quiet [OF this, of env tid lsn b] show ?thesis
      using i l assms(2) by (auto simp: after_def appended_def)
  qed
  then show ?thesis
    unfolding leader_replicate_def Let_def t1_def [symmetric]
    by (cases "Log_Add (lr_log t1) (lr_term t1) tid (txn_writeSet txn) LOG_STATE_PREPAREOK (getTimestamp (txn_commitTs txn))")
      (auto intro!: after_bindr_any)
qed

definition stores_own :: "LRReplica \<Rightarrow> LRReplica \<Rightarrow> bool" where
  "stores_own s t \<longleftrightarrow> log_quiet s t \<or> appended s t"

lemma stores_own_quiet: "after (log_quiet s) r \<Longrightarrow> after (stores_own s) r"
  by (auto simp: after_def stores_own_def)

lemma prepare_new_stores:
  assumes q: "log_quiet s t" and free: "\<And>i. lr_isLeader s \<Longrightarrow> lg_last (lr_log s) = Some i \<Longrightarrow> log_keys (lr_log s) i = None"
  shows "after (stores_own s) (prepare_new env t a m)"
proof -
  have lead: "after (stores_own s) (leader_replicate env u a tid txn)" if "log_quiet s u" "lr_isLeader u" for u tid txn
  proof -
    have l: "lr_isLeader s" using quiet_keys(3) [OF that(1)] that(2) by simp
    have "after (appended s) (leader_replicate env u a tid txn)" by (rule leader_replicate_appends [OF that(1) l free])
    then show ?thesis by (simp add: after_def stores_own_def)
  qed
  have send: "log_quiet s (u\<lparr>lr_sent := lr_sent u @ [(d, SPrepareTransactionReply r)]\<rparr>)" if "log_quiet s u" for u d r
    using quiet_send [OF that] by simp
  have sent: "log_quiet s (t\<lparr>lr_current_ts := x, lr_inDependency := y, lr_store := z, lr_sent := lr_sent t @ [(d, SPrepareTransactionReply r)]\<rparr>)" for x y z d r
    using send [of "t\<lparr>lr_current_ts := x, lr_inDependency := y, lr_store := z\<rparr>" d r] q by simp
  show ?thesis
    unfolding prepare_new_def increaseTs_def Let_def
    by (auto simp: q send sent lr_send_def stores_own_def split: prod.split
        intro!: lead after_bindr_any [where r = "PrepareUpcall c sv rq b" for c sv rq b]
          after_bindr_any [where r = "shard_transport u i" for u i] after_bindr [where P = "\<lambda>(ok, u). log_quiet s u"])
qed

lemma HandlePrepareTxn_stores:
  assumes "log_quiet s t" and "\<And>i. lr_isLeader s \<Longrightarrow> lg_last (lr_log s) = Some i \<Longrightarrow> log_keys (lr_log s) i = None"
  shows "after (stores_own s) (HandlePrepareTxn env t a m)"
  using assms(1) prepare_new_stores [OF assms]
  by (auto simp: HandlePrepareTxn_def Let_def stores_own_def split: option.split prod.split
      intro!: stores_own_quiet HandlePrepare_quiet answer_again_quiet after_bindr_any)

text \<open>The messages whose senders matter: log entries and results of the coordinator group.\<close>

fun is_guarded :: "lr_msg \<Rightarrow> bool" where
  "is_guarded (LReplicateTransaction m) \<longleftrightarrow> True"
| "is_guarded (LNotifyReplicateResult tid ok ts) \<longleftrightarrow> True"
| "is_guarded m \<longleftrightarrow> False"

lemma HandleMessage_stores:
  assumes "\<not> is_guarded m" and "\<And>i. lr_isLeader s \<Longrightarrow> lg_last (lr_log s) = Some i \<Longrightarrow> log_keys (lr_log s) i = None"
  shows "after (stores_own s) (lr_HandleMessage env s a m)"
proof -
  have prepare: "after (stores_own s) (HandlePrepareTxn env s a p)" for p
    by (rule HandlePrepareTxn_stores [OF quiet_refl assms(2)])
  have parallel: "stores_own s (HandleParallelModeCommit env s a tid ps)" for tid ps
    by (simp add: stores_own_def HandleParallelModeCommit_quiet)
  show ?thesis
    using assms(1) by (cases m) (simp_all add: prepare parallel stores_own_quiet HandleReplicateTransactionReply_quiet
      HandlePrepareTransactionReply_quiet HandleCommit_quiet HandleReplicateCommit_quiet HandleRead_quiet HandleDecision_quiet)
qed

lemma lr_step_stores:
  assumes "\<And>a m. e = EMsg a m \<Longrightarrow> \<not> is_guarded m" and "\<And>i. lr_isLeader s \<Longrightarrow> lg_last (lr_log s) = Some i \<Longrightarrow> log_keys (lr_log s) i = None"
  shows "after (stores_own s) (lr_step env s e)"
proof (cases e)
  case (EMsg a m)
  then show ?thesis using HandleMessage_stores [OF assms(1,2)] by simp
qed (simp_all add: stores_own_quiet timeouts_quiet)

text \<open>A replica receives a log entry: it stores it unless the number is taken, and acknowledges it.\<close>

definition entry_sent :: "LRReplica \<Rightarrow> u64 \<Rightarrow> lr_out \<Rightarrow> bool" where
  "entry_sent s tid m \<longleftrightarrow> (case m of
     SCoordinator c \<Rightarrow> (\<exists>v. c = MReplicateReplyAndVote v \<and> rv_tid v = tid \<and> rv_shard v = lr_shard_id s \<and> rv_replica v = lr_replica_id s)
   | SReplicateTransaction r \<Rightarrow> False
   | SParallelModeCommitReply x st ts \<Rightarrow> False
   | _ \<Rightarrow> True)"

lemma entry_of_proto_key: "entry_key (entry_of_proto p) = (Some (lp_lsn p), Some (lp_txnid p))"
proof -
  have "entry_key (fold (\<lambda>(k, v) e. entry_addWriteSet e k v) ws e) = entry_key e" for ws e
    by (induction ws arbitrary: e) (auto simp: entry_addWriteSet_def entry_key_def)
  then show ?thesis by (simp add: entry_of_proto_def setState_def LogEntry_ts_def entry_key_def)
qed

definition same_keys :: "LRReplica \<Rightarrow> LogEntryProto \<Rightarrow> LRReplica \<Rightarrow> bool" where
  "same_keys s p t \<longleftrightarrow> lr_shard_id t = lr_shard_id s \<and> lr_replica_id t = lr_replica_id s \<and> lr_isLeader t = lr_isLeader s \<and>
     lg_last (lr_log t) = lg_last (lr_log s) \<and>
     log_keys (lr_log t) = (if log_keys (lr_log s) (lp_lsn p) = None
       then (log_keys (lr_log s))(lp_lsn p \<mapsto> (Some (lp_lsn p), Some (lp_txnid p))) else log_keys (lr_log s))"

definition entry_stored :: "LRReplica \<Rightarrow> LogEntryProto \<Rightarrow> LRReplica \<Rightarrow> bool" where
  "entry_stored s p t \<longleftrightarrow> same_keys s p t \<and> (\<exists>ms. lr_sent t = lr_sent s @ ms \<and> list_all (entry_sent s (lp_txnid p) \<circ> snd) ms)"

lemma same_keys_update [simp]:
  "same_keys s p (t\<lparr>lr_store := v1\<rparr>) \<longleftrightarrow> same_keys s p t" "same_keys s p (t\<lparr>lr_sent := v2\<rparr>) \<longleftrightarrow> same_keys s p t"
  by (simp_all add: same_keys_def)

lemma HandleReplicateTransaction_stores: "after (entry_stored s (rt_txnLog m)) (HandleReplicateTransaction env s a m)"
proof -
  define p where "p = rt_txnLog m"
  have id: "le_id (entry_of_proto p) = Some (lp_lsn p)" "le_txn (entry_of_proto p) = Some (lp_txnid p)"
    using entry_of_proto_key [of p] by (simp_all add: entry_key_def)
  have known: "same_keys s p (raise_ts s x)" if "log_Find (lr_log s) (lp_lsn p) = Some e" for x e
    using that by (simp add: same_keys_def raise_ts_def log_keys_def)
  have new: "same_keys s p (set_active ((raise_ts s x)\<lparr>lr_log := l\<rparr>) tid txn)"
    if "log_Find (lr_log s) (lp_lsn p) = None" "Log_Add_proto (lr_log s) p = Inr l" for x l tid txn
    using that by (auto simp: same_keys_def raise_ts_def set_active_def Log_Add_proto_def Log_Add_entry_def id log_keys_put entry_of_proto_key)
      (simp add: log_keys_def)
  have sends: "entry_stored s p (u\<lparr>lr_sent := lr_sent s @ ms\<rparr>)"
    if "same_keys s p u" "list_all (entry_sent s (lp_txnid p) \<circ> snd) ms" for u ms
    using that by (simp add: entry_stored_def)
  have raise_ts_log: "lr_log (raise_ts s x) = lr_log s" "lr_sent (raise_ts s x) = lr_sent s" for x by (simp_all add: raise_ts_def)
  have set_active_sent: "lr_sent (set_active u tid txn) = lr_sent u" for u tid txn by (simp add: set_active_def)
  show ?thesis
    unfolding HandleReplicateTransaction_def Let_def p_def [symmetric]
  proof (rule after_bindr [where P = "\<lambda>t. same_keys s p t \<and> lr_sent t = lr_sent s"], goal_cases)
    case 1
    show ?case
      by (cases "Log_Add_proto (lr_log s) p") (auto simp: raise_ts_log known new set_active_sent split: option.split prod.split
       intro!: after_bindr_any [where r = "PrepareUpcall c sv rq b" for c sv rq b] after_bindr_any [where r = "rd x" for x])
  next
    case (2 t)
    then have "lr_shard_id t = lr_shard_id s" "lr_replica_id t = lr_replica_id s" by (simp_all add: same_keys_def)
    then show ?case using 2 by (auto simp: lr_send_def entry_sent_def intro!: sends)
  qed
qed

end
