(* ===== verification/ParallelSystem.thy ===== *)
theory ParallelSystem
  imports ParallelLog
begin

text \<open>
  The whole of parallel mode: the shards with their replicas, and the coordinator group. The
  network hands a log entry only to replicas of the shard whose leader sent it, a result only if a
  coordinator has sent it, and to a coordinator only what a replica or a coordinator has sent to the
  group; it may lose, repeat and reorder messages. All other messages to a replica (requests of
  clients, pre-commit decisions) are arbitrary.
\<close>

section \<open>The system\<close>

record par_state =
  ps_rep :: "nat \<times> nat \<Rightarrow> LRReplica"
  ps_co :: "nat \<Rightarrow> Coordinator"
  ps_out :: "nat \<Rightarrow> co_sends"

text \<open>
  \<open>PLocal\<close>: replica \<open>(shard, i)\<close> takes any step but the receipt of a log entry or a result. \<open>PEntry\<close>: replica
  \<open>(shard, i)\<close> receives the \<open>k\<close>-th message replica \<open>(shard, j)\<close> has sent, if it is a log entry. \<open>PVote\<close>:
  coordinator \<open>c\<close> receives the \<open>k\<close>-th message of replica \<open>(shard, j)\<close>, if it is for the group.
  \<open>PForward\<close>: coordinator \<open>c\<close> receives the \<open>k\<close>-th message coordinator \<open>c'\<close> has sent, if it is for the group.
  \<open>PResult\<close>: replica \<open>(shard, i)\<close> receives the \<open>k\<close>-th message coordinator \<open>c\<close> has sent, if it is a result.
\<close>

datatype par_event =
    PLocal nat nat Env lr_event
  | PEntry nat nat nat nat Env addr
  | PVote nat nat nat nat
  | PForward nat nat nat
  | PResult nat nat nat nat Env addr

definition nth_opt :: "'a list \<Rightarrow> nat \<Rightarrow> 'a option" where
  "nth_opt xs k = (if k < length xs then Some (xs ! k) else None)"

definition set_rep :: "par_state \<Rightarrow> nat \<times> nat \<Rightarrow> LRReplica \<Rightarrow> par_state" where
  "set_rep S p r = S\<lparr>ps_rep := (ps_rep S)(p := r)\<rparr>"

definition co_receive :: "par_state \<Rightarrow> nat \<Rightarrow> co_msg \<Rightarrow> ub + par_state" where
  "co_receive S c m = bindr (co_outcome (co_HandleMessage (ps_co S c) m)) (\<lambda>(co, os).
     Inr (S\<lparr>ps_co := (ps_co S)(c := co), ps_out := (ps_out S)(c := ps_out S c @ os)\<rparr>))"

fun is_guarded_event :: "lr_event \<Rightarrow> bool" where
  "is_guarded_event (EMsg a m) \<longleftrightarrow> is_guarded m"
| "is_guarded_event e \<longleftrightarrow> False"

fun sent_entry :: "lr_dest \<times> lr_out \<Rightarrow> ReplicateTransaction option" where
  "sent_entry (d, SReplicateTransaction m) = Some m"
| "sent_entry p = None"

fun sent_vote :: "lr_dest \<times> lr_out \<Rightarrow> co_msg option" where
  "sent_vote (d, SCoordinator m) = Some m"
| "sent_vote p = None"

fun sent_result :: "co_dest \<times> co_out \<Rightarrow> (u64 \<times> bool \<times> u64) option" where
  "sent_result (d, ONotifyReplicateResult tid ok ts) = Some (tid, ok, ts)"
| "sent_result p = None"

text \<open>An event that names no replica, coordinator or message of the system changes nothing.\<close>

fun par_step :: "nat \<Rightarrow> nat \<Rightarrow> par_state \<Rightarrow> par_event \<Rightarrow> ub + par_state" where
  "par_step k n S (PLocal sh i env e) =
     (if sh < k \<and> i < n \<and> \<not> is_guarded_event e
      then bindr (lr_step env (ps_rep S (sh, i)) e) (\<lambda>r. Inr (set_rep S (sh, i) r)) else Inr S)"
| "par_step k n S (PEntry sh i j x env a) =
     (if sh < k \<and> i < n \<and> j < n
      then case Option.bind (nth_opt (lr_sent (ps_rep S (sh, j))) x) sent_entry of
          Some m \<Rightarrow> bindr (lr_HandleMessage env (ps_rep S (sh, i)) a (LReplicateTransaction m)) (\<lambda>r. Inr (set_rep S (sh, i) r))
        | None \<Rightarrow> Inr S
      else Inr S)"
| "par_step k n S (PVote c sh j x) =
     (if c < n \<and> sh < k \<and> j < n
      then case Option.bind (nth_opt (lr_sent (ps_rep S (sh, j))) x) sent_vote of Some m \<Rightarrow> co_receive S c m | None \<Rightarrow> Inr S
      else Inr S)"
| "par_step k n S (PForward c c' x) =
     (if c < n \<and> c' < n
      then case nth_opt (ps_out S c') x of
          Some (d, out) \<Rightarrow> (case co_to_co out of m # ms \<Rightarrow> co_receive S c m | [] \<Rightarrow> Inr S)
        | None \<Rightarrow> Inr S
      else Inr S)"
| "par_step k n S (PResult sh i c x env a) =
     (if sh < k \<and> i < n \<and> c < n
      then case Option.bind (nth_opt (ps_out S c) x) sent_result of
          Some (tid, ok, ts) \<Rightarrow> bindr (lr_HandleMessage env (ps_rep S (sh, i)) a (LNotifyReplicateResult tid ok ts)) (\<lambda>r. Inr (set_rep S (sh, i) r))
        | None \<Rightarrow> Inr S
      else Inr S)"

primrec par_run :: "nat \<Rightarrow> nat \<Rightarrow> par_event list \<Rightarrow> par_state \<Rightarrow> ub + par_state" where
  "par_run k n [] S = Inr S"
| "par_run k n (e # es) S = bindr (par_step k n S e) (par_run k n es)"

text \<open>\<open>k\<close> shards and the coordinator group, of \<open>n\<close> replicas each; replica \<open>ld sh\<close> leads shard \<open>sh\<close>.\<close>

definition par_init :: "nat \<Rightarrow> nat \<Rightarrow> int \<Rightarrow> (nat \<Rightarrow> nat) \<Rightarrow> nat \<Rightarrow> (nat \<times> nat \<Rightarrow> Server) \<Rightarrow> (nat \<times> nat \<Rightarrow> u64) \<Rightarrow> par_state" where
  "par_init k n f ld nt sv ts0 =
     \<lparr>ps_rep = (\<lambda>p. LRReplica_new (int n) f (of_nat (snd p)) (of_nat (ld (fst p))) (of_nat (fst p)) (int k) nt MODE_PARALLEL (sv p) (ts0 p)),
      ps_co = (\<lambda>c. Coordinator_new k n (of_nat c)), ps_out = (\<lambda>c. [])\<rparr>"

section \<open>What a replica has stored\<close>

definition has_entry :: "LRReplica \<Rightarrow> u64 \<Rightarrow> bool" where
  "has_entry r tid \<longleftrightarrow> list_ex (\<lambda>(i, e). le_txn e = Some tid) (lg_entries (lr_log r))"

text \<open>A majority of the replicas of shard \<open>sh\<close> have an entry of \<open>tid\<close> in the log.\<close>

definition majority_stored :: "nat \<Rightarrow> par_state \<Rightarrow> u64 \<Rightarrow> nat \<Rightarrow> bool" where
  "majority_stored n S tid sh \<longleftrightarrow> n div 2 + 1 \<le> card {i. i < n \<and> has_entry (ps_rep S (sh, i)) tid}"

text \<open>What the replicas have sent to the coordinator group.\<close>

definition sent_to_cos :: "nat \<Rightarrow> nat \<Rightarrow> par_state \<Rightarrow> co_msg set" where
  "sent_to_cos k n S = {m. \<exists>sh i d. sh < k \<and> i < n \<and> (d, SCoordinator m) \<in> set (lr_sent (ps_rep S (sh, i)))}"

definition keyed :: "LRReplica \<Rightarrow> u64 \<Rightarrow> bool" where
  "keyed r tid \<longleftrightarrow> (\<exists>i x. log_keys (lr_log r) i = Some (x, Some tid))"

lemma keyed_has_entry: "keyed r tid \<Longrightarrow> has_entry r tid"
  by (auto simp: keyed_def has_entry_def log_keys_def log_Find_def entry_key_def list_ex_iff dest: map_of_SomeD)

definition acks_stored :: "nat \<Rightarrow> nat \<Rightarrow> par_state \<Rightarrow> u64 \<Rightarrow> u64 \<Rightarrow> u64 \<Rightarrow> bool" where
  "acks_stored k n S tid shard replica \<longleftrightarrow>
     (\<exists>sh i. sh < k \<and> i < n \<and> shard = of_nat sh \<and> replica = of_nat i \<and> keyed (ps_rep S (sh, i)) tid)"

section \<open>Invariants\<close>

text \<open>One replica of a shard whose leader has the log \<open>L\<close>.\<close>

definition rep_inv :: "nat \<Rightarrow> nat \<Rightarrow> Log \<Rightarrow> LRReplica \<Rightarrow> bool" where
  "rep_inv sh i L r \<longleftrightarrow> lr_shard_id r = of_nat sh \<and> lr_replica_id r = of_nat i \<and>
     log_keys (lr_log r) \<subseteq>\<^sub>m log_keys L \<and>
     (\<forall>d m. (d, SReplicateTransaction m) \<in> set (lr_sent r) \<longrightarrow>
        log_keys L (lp_lsn (rt_txnLog m)) = Some (Some (lp_lsn (rt_txnLog m)), Some (lp_txnid (rt_txnLog m)))) \<and>
     (\<forall>d v. (d, SCoordinator (MReplicateReplyAndVote v)) \<in> set (lr_sent r) \<longrightarrow>
        rv_shard v = of_nat sh \<and> rv_replica v = of_nat i \<and> keyed r (rv_tid v)) \<and>
     (\<forall>d m. (d, SCoordinator m) \<in> set (lr_sent r) \<longrightarrow> \<not> is_notify_primary m \<and>
        (\<forall>x. m \<noteq> MBypassLeaderReply x) \<and> (\<forall>x. m \<noteq> MBypassLeaderReplyUnion x))"

text \<open>The log of a leader that has taken at most \<open>t\<close> steps.\<close>

definition leader_inv :: "nat \<Rightarrow> Log \<Rightarrow> bool" where
  "leader_inv t L \<longleftrightarrow> (\<exists>z\<le>t. lg_last L = Some (of_nat z) \<and>
     (\<forall>i x. log_keys L i = Some x \<longrightarrow> unat i < z \<and> fst x = Some i))"

definition shard_inv :: "nat \<Rightarrow> (nat \<Rightarrow> nat) \<Rightarrow> nat \<Rightarrow> nat \<Rightarrow> par_state \<Rightarrow> bool" where
  "shard_inv n ld t sh S \<longleftrightarrow> leader_inv t (lr_log (ps_rep S (sh, ld sh))) \<and>
     (\<forall>i<n. rep_inv sh i (lr_log (ps_rep S (sh, ld sh))) (ps_rep S (sh, i)) \<and> (lr_isLeader (ps_rep S (sh, i)) \<longleftrightarrow> i = ld sh))"

definition received_ok :: "nat \<Rightarrow> nat \<Rightarrow> par_state \<Rightarrow> co_msg \<Rightarrow> bool" where
  "received_ok k n S m \<longleftrightarrow> m \<in> sent_to_cos k n S \<or> (case m of
     MBypassLeaderReply b \<Rightarrow> acks_stored k n S (bl_tid b) (bl_shard b) (bl_replica b)
   | MReplicateDecision tid st ts \<Rightarrow> True
   | MReplyDecision tid c ts \<Rightarrow> True
   | _ \<Rightarrow> False)"

definition co_hist :: "nat \<Rightarrow> nat \<Rightarrow> par_state \<Rightarrow> nat \<Rightarrow> bool" where
  "co_hist k n S c \<longleftrightarrow> (\<exists>ms. co_run (Coordinator_new k n (of_nat c)) ms = Inr (ps_co S c, ps_out S c) \<and>
       list_all (received_ok k n S) ms) \<and>
     (\<forall>d tid sh r. (d, OBypassLeaderReply tid sh r) \<in> set (ps_out S c) \<longrightarrow> acks_stored k n S tid sh r)"

text \<open>A client is told only what a coordinator has decided.\<close>

definition reply_ok :: "nat \<Rightarrow> par_state \<Rightarrow> LRReplica \<Rightarrow> bool" where
  "reply_ok n S r \<longleftrightarrow> (\<forall>d tid st ts. (d, SParallelModeCommitReply tid st ts) \<in> set (lr_sent r) \<longrightarrow>
     (\<exists>c<n. tid \<in> commit_sent (ps_out S c)))"

definition par_inv :: "nat \<Rightarrow> nat \<Rightarrow> (nat \<Rightarrow> nat) \<Rightarrow> nat \<Rightarrow> par_state \<Rightarrow> bool" where
  "par_inv k n ld t S \<longleftrightarrow> (\<forall>sh<k. shard_inv n ld t sh S) \<and> (\<forall>c<n. co_hist k n S c) \<and>
     (\<forall>sh<k. \<forall>i<n. reply_ok n S (ps_rep S (sh, i)))"

lemma of_nat_u64_eq: "a < 2 ^ 64 \<Longrightarrow> b < 2 ^ 64 \<Longrightarrow> (of_nat a :: u64) = of_nat b \<longleftrightarrow> a = b"
  by (simp add: word_of_nat_eq_iff take_bit_nat_eq_self)

lemma par_inv_init:
  assumes "k < 2 ^ 64" "n < 2 ^ 64" "\<And>sh. sh < k \<Longrightarrow> ld sh < n"
  shows "par_inv k n ld 0 (par_init k n f ld nt sv ts0)"
proof -
  have "(of_nat i = (of_nat (ld sh) :: u64)) \<longleftrightarrow> i = ld sh" if "sh < k" "i < n" for sh i
    using assms(2) assms(3) [OF that(1)] that(2) by (intro of_nat_u64_eq) simp_all
  then show ?thesis
    by (auto simp: par_inv_def shard_inv_def par_init_def leader_inv_def rep_inv_def co_hist_def reply_ok_def LRReplica_new_def Log_new_def
        log_keys_def log_Find_def map_le_def intro!: exI [of _ "[]"])
qed

section \<open>Steps of the replicas\<close>

definition rep_grows :: "LRReplica \<Rightarrow> LRReplica \<Rightarrow> bool" where
  "rep_grows r r' \<longleftrightarrow> log_keys (lr_log r) \<subseteq>\<^sub>m log_keys (lr_log r') \<and> set (lr_sent r) \<subseteq> set (lr_sent r')"

lemma map_le_SomeD: "f \<subseteq>\<^sub>m g \<Longrightarrow> f x = Some y \<Longrightarrow> g x = Some y"
  by (auto simp: map_le_def dom_def)

lemma keyed_mono: "log_keys (lr_log r) \<subseteq>\<^sub>m log_keys (lr_log r') \<Longrightarrow> keyed r tid \<Longrightarrow> keyed r' tid"
  unfolding keyed_def by (blast dest: map_le_SomeD)

lemma leader_inv_cong:
  "leader_inv t L \<Longrightarrow> log_keys L' = log_keys L \<Longrightarrow> lg_last L' = lg_last L \<Longrightarrow> leader_inv t L'"
  "leader_inv t L \<Longrightarrow> leader_inv (Suc t) L"
  unfolding leader_inv_def by (simp, meson le_SucI)

lemma rep_inv_leader:
  assumes "rep_inv sh i L r" "log_keys L \<subseteq>\<^sub>m log_keys L'" shows "rep_inv sh i L' r"
  using assms unfolding rep_inv_def by (blast dest: map_le_SomeD intro: map_le_trans)

lemma rep_inv_quiet:
  assumes inv: "rep_inv sh i L r" "leader_inv t L" and q: "log_quiet r r'"
  shows "rep_inv sh i L r'"
proof -
  obtain ms where ms: "lr_sent r' = lr_sent r @ ms" "list_all (log_backed (lr_log r) \<circ> snd) ms" using q by (auto simp: log_quiet_def)
  have keys: "log_keys (lr_log r') = log_keys (lr_log r)" and ids: "lr_shard_id r' = lr_shard_id r" "lr_replica_id r' = lr_replica_id r"
    using q by (simp_all add: log_quiet_def)
  have k: "keyed r' tid \<longleftrightarrow> keyed r tid" for tid by (simp add: keyed_def keys)
  have le: "log_keys (lr_log r) \<subseteq>\<^sub>m log_keys L" using inv(1) by (simp add: rep_inv_def)
  have b: "log_backed (lr_log r) m" if "(d, m) \<in> set ms" for d m using ms(2) that by (auto simp: list_all_iff)
  have entry: "log_keys L (lp_lsn (rt_txnLog m)) = Some (Some (lp_lsn (rt_txnLog m)), Some (lp_txnid (rt_txnLog m)))"
    if m: "(d, SReplicateTransaction m) \<in> set ms" for d m
  proof -
    obtain x where "log_keys L x = Some (Some (lp_lsn (rt_txnLog m)), Some (lp_txnid (rt_txnLog m)))"
      using b [OF m] le by (auto dest: map_le_SomeD)
    moreover from this inv(2) have "x = lp_lsn (rt_txnLog m)" by (fastforce simp: leader_inv_def)
    ultimately show ?thesis by simp
  qed
  have vote: "\<not> is_notify_primary m" "\<And>x. m \<noteq> MBypassLeaderReply x" "\<And>x. m \<noteq> MBypassLeaderReplyUnion x" "\<And>x. m \<noteq> MReplicateReplyAndVote x"
    if m: "(d, SCoordinator m) \<in> set ms" for d m
    using b [OF m] by (cases m; simp add: is_notify_primary_def)+
  from inv(1) show ?thesis
    unfolding rep_inv_def keys ids k ms(1) set_append Un_iff using entry vote by blast
qed

lemma rep_inv_log:
  assumes "rep_inv sh i L r" "log_keys (lr_log r) \<subseteq>\<^sub>m log_keys l" "log_keys l \<subseteq>\<^sub>m log_keys L'" "log_keys L \<subseteq>\<^sub>m log_keys L'"
  shows "rep_inv sh i L' (r\<lparr>lr_log := l\<rparr>)"
proof -
  have "keyed r tid \<Longrightarrow> keyed (r\<lparr>lr_log := l\<rparr>) tid" for tid using assms(2) by (simp add: keyed_mono)
  with rep_inv_leader [OF assms(1,4)] assms(3) show ?thesis unfolding rep_inv_def by simp
qed

text \<open>An entry that the leader has sent.\<close>

lemma rep_inv_entry:
  assumes inv: "rep_inv sh i L r" and e: "entry_stored r p r'"
    and key: "log_keys L (lp_lsn p) = Some (Some (lp_lsn p), Some (lp_txnid p))"
  shows "rep_inv sh i L r'" and "rep_grows r r'"
proof -
  from e obtain ms where ms: "lr_sent r' = lr_sent r @ ms" "list_all (entry_sent r (lp_txnid p) \<circ> snd) ms"
    and k: "same_keys r p r'" by (auto simp: entry_stored_def)
  have le: "log_keys (lr_log r) \<subseteq>\<^sub>m log_keys L" using inv by (simp add: rep_inv_def)
  have mono: "log_keys (lr_log r) \<subseteq>\<^sub>m log_keys (lr_log r')" using k by (auto simp: same_keys_def map_le_def)
  have own: "keyed r' (lp_txnid p)"
    using k key le unfolding keyed_def same_keys_def
    by (metis (no_types, lifting) fun_upd_same map_le_SomeD not_None_eq)
  have le': "log_keys (lr_log r') \<subseteq>\<^sub>m log_keys L"
    using k key le by (auto simp: same_keys_def map_le_def)
  have s: "entry_sent r (lp_txnid p) m" if "(d, m) \<in> set ms" for d m using ms(2) that by (auto simp: list_all_iff)
  have ids: "lr_shard_id r' = lr_shard_id r" "lr_replica_id r' = lr_replica_id r" using k by (simp_all add: same_keys_def)
  have new: "(d, SReplicateTransaction m) \<notin> set ms" for d m using s by (fastforce simp: entry_sent_def)
  have vote: "\<exists>v. m = MReplicateReplyAndVote v \<and> rv_tid v = lp_txnid p \<and> rv_shard v = lr_shard_id r \<and> rv_replica v = lr_replica_id r"
    if m: "(d, SCoordinator m) \<in> set ms" for d m using s [OF m] by (simp add: entry_sent_def)
  have old: "keyed r tid \<Longrightarrow> keyed r' tid" for tid by (rule keyed_mono [OF mono])
  have vote_ok: "rv_shard v = of_nat sh \<and> rv_replica v = of_nat i \<and> keyed r' (rv_tid v)"
    if "(d, SCoordinator (MReplicateReplyAndVote v)) \<in> set ms" for d v
    using vote [OF that] inv own by (auto simp: rep_inv_def)
  have other: "\<not> is_notify_primary m \<and> (\<forall>x. m \<noteq> MBypassLeaderReply x) \<and> (\<forall>x. m \<noteq> MBypassLeaderReplyUnion x)"
    if m: "(d, SCoordinator m) \<in> set ms" for d m using vote [OF m] by (auto simp: is_notify_primary_def)
  from inv show "rep_inv sh i L r'"
    unfolding rep_inv_def ids ms(1) set_append Un_iff using le' new vote_ok other old by blast
  show "rep_grows r r'" using mono ms(1) by (simp add: rep_grows_def)
qed

lemma set_rep_simps [simp]:
  "ps_rep (set_rep S p r) = (ps_rep S)(p := r)" "ps_co (set_rep S p r) = ps_co S" "ps_out (set_rep S p r) = ps_out S"
  by (simp_all add: set_rep_def)

lemma shard_inv_leader:
  assumes "shard_inv n ld t sh S" and "ld sh < n"
    and "leader_inv (Suc t) (lr_log r)" "log_keys (lr_log (ps_rep S (sh, ld sh))) \<subseteq>\<^sub>m log_keys (lr_log r)"
      "rep_inv sh (ld sh) (lr_log r) r" "lr_isLeader r"
  shows "shard_inv n ld (Suc t) sh (set_rep S (sh, ld sh) r)"
  using assms unfolding shard_inv_def by (auto intro: rep_inv_leader)

lemma shard_inv_follower:
  assumes "shard_inv n ld t sh S" and "i \<noteq> ld sh" and "rep_inv sh i (lr_log (ps_rep S (sh, ld sh))) r" "\<not> lr_isLeader r"
  shows "shard_inv n ld (Suc t) sh (set_rep S (sh, i) r)"
  using assms unfolding shard_inv_def by (auto intro: leader_inv_cong)

lemma leader_inv_append:
  assumes "leader_inv t L" "t < 2 ^ 64 - 1" "lg_last L = Some i" "log_keys l = (log_keys L)(i \<mapsto> (Some i, Some tid))"
    "lg_last l = Some (i + 1)"
  shows "leader_inv (Suc t) l" "log_keys L \<subseteq>\<^sub>m log_keys l"
proof -
  obtain z where z: "z \<le> t" "i = of_nat z" "\<And>j x. log_keys L j = Some x \<Longrightarrow> unat j < z \<and> fst x = Some j"
    using assms(1,3) by (auto simp: leader_inv_def)
  have i: "unat i = z" using z(1,2) assms(2) by (simp add: unat_of_nat take_bit_nat_eq_self)
  then have "log_keys L i = None" using z(3) [of i] by (cases "log_keys L i") auto
  then show "log_keys L \<subseteq>\<^sub>m log_keys l" using assms(4) by (auto simp: map_le_def)
  have "lg_last l = Some (of_nat (Suc z))" using assms(5) z(2) by simp
  moreover have "unat j < Suc z \<and> fst x = Some j" if "log_keys l j = Some x" for j x
    using that assms(4) i z(3) [of j x] by (auto split: if_splits)
  ultimately show "leader_inv (Suc t) l" using z(1) unfolding leader_inv_def by (intro exI [of _ "Suc z"]) simp
qed

lemma leader_inv_free: "leader_inv t L \<Longrightarrow> t < 2 ^ 64 - 1 \<Longrightarrow> lg_last L = Some i \<Longrightarrow> log_keys L i = None"
  by (cases "log_keys L i") (fastforce simp: leader_inv_def unat_of_nat take_bit_nat_eq_self)+

lemma grows_quiet: "log_quiet r r' \<Longrightarrow> rep_grows r r'"
  by (auto simp: log_quiet_def rep_grows_def)

lemma appended_step:
  assumes inv: "rep_inv sh i (lr_log r) r" "leader_inv t (lr_log r)" "t < 2 ^ 64 - 1" and a: "appended r r'"
  shows "rep_inv sh i (lr_log r') r'" "leader_inv (Suc t) (lr_log r')" "rep_grows r r'" "lr_isLeader r'"
proof -
  from a obtain j tid l where l: "lg_last (lr_log r) = Some j" "log_keys l = (log_keys (lr_log r))(j \<mapsto> (Some j, Some tid))"
      "lg_last l = Some (j + 1)" and q: "log_quiet (r\<lparr>lr_log := l\<rparr>) r'" and "lr_isLeader r"
    by (auto simp: appended_def)
  note L = leader_inv_append [OF inv(2,3) l]
  have same: "log_keys (lr_log r') = log_keys l" "lg_last (lr_log r') = lg_last l" using q by (simp_all add: log_quiet_def)
  show li: "leader_inv (Suc t) (lr_log r')" by (rule leader_inv_cong(1) [OF L(1) same])
  have "rep_inv sh i (lr_log r') (r\<lparr>lr_log := l\<rparr>)" by (rule rep_inv_log [OF inv(1)]) (simp_all add: L(2) same)
  from rep_inv_quiet [OF this li q] show "rep_inv sh i (lr_log r') r'" .
  show "rep_grows r r'" using grows_quiet [OF q] L(2) by (simp add: rep_grows_def same)
  show "lr_isLeader r'" using q \<open>lr_isLeader r\<close> by (simp add: log_quiet_def)
qed

lemma quiet_step:
  assumes inv: "rep_inv sh i (lr_log r) r" "leader_inv t (lr_log r)" and q: "log_quiet r r'"
  shows "rep_inv sh i (lr_log r') r'" "leader_inv (Suc t) (lr_log r')"
proof -
  have same: "log_keys (lr_log r') = log_keys (lr_log r)" "lg_last (lr_log r') = lg_last (lr_log r)" using q by (simp_all add: log_quiet_def)
  show "leader_inv (Suc t) (lr_log r')" using leader_inv_cong(1) [OF inv(2) same] by (rule leader_inv_cong(2))
  show "rep_inv sh i (lr_log r') r'"
    by (rule rep_inv_leader [OF rep_inv_quiet [OF inv q]]) (simp add: same)
qed

lemma local_step:
  assumes inv: "shard_inv n ld t sh S" and i: "i < n" "ld sh < n" and t: "t < 2 ^ 64 - 1" and s: "stores_own (ps_rep S (sh, i)) r"
  shows "shard_inv n ld (Suc t) sh (set_rep S (sh, i) r) \<and> rep_grows (ps_rep S (sh, i)) r"
proof -
  let ?r = "ps_rep S (sh, i)" and ?L = "lr_log (ps_rep S (sh, ld sh))"
  have r: "rep_inv sh i ?L ?r" "lr_isLeader ?r \<longleftrightarrow> i = ld sh" and L: "leader_inv t ?L" using inv i by (simp_all add: shard_inv_def)
  show ?thesis
  proof (cases "i = ld sh")
    case True
    have "rep_inv sh i (lr_log r) r \<and> leader_inv (Suc t) (lr_log r) \<and> rep_grows ?r r \<and> lr_isLeader r"
    proof (cases "log_quiet ?r r")
      case q: True
      then have "lr_isLeader r" using r(2) True by (simp add: log_quiet_def)
      with q show ?thesis using quiet_step [of sh i ?r t r] grows_quiet r(1) L True by simp
    next
      case False
      then have "appended ?r r" using s by (simp add: stores_own_def)
      with r(1) L t True show ?thesis using appended_step [of sh i ?r t r] by simp
    qed
    then show ?thesis using shard_inv_leader [OF inv i(2)] True by (simp add: rep_grows_def)
  next
    case False
    then have q: "log_quiet ?r r" using s r(2) by (auto simp: stores_own_def appended_def)
    then have "\<not> lr_isLeader r" using r(2) False by (simp add: log_quiet_def)
    with shard_inv_follower [OF inv False rep_inv_quiet [OF r(1) L q]] grows_quiet [OF q] show ?thesis by simp
  qed
qed

lemma entry_step:
  assumes inv: "shard_inv n ld t sh S" and i: "i < n" "j < n" "ld sh < n"
    and m: "(d, SReplicateTransaction m) \<in> set (lr_sent (ps_rep S (sh, j)))" and s: "entry_stored (ps_rep S (sh, i)) (rt_txnLog m) r"
  shows "shard_inv n ld (Suc t) sh (set_rep S (sh, i) r) \<and> rep_grows (ps_rep S (sh, i)) r"
proof -
  let ?r = "ps_rep S (sh, i)" and ?L = "lr_log (ps_rep S (sh, ld sh))" and ?p = "rt_txnLog m"
  have r: "rep_inv sh i ?L ?r" "lr_isLeader ?r \<longleftrightarrow> i = ld sh" and L: "leader_inv t ?L" using inv i by (simp_all add: shard_inv_def)
  have key: "log_keys ?L (lp_lsn ?p) = Some (Some (lp_lsn ?p), Some (lp_txnid ?p))"
    using inv i(2) m unfolding shard_inv_def rep_inv_def by blast
  note e = rep_inv_entry [OF r(1) s key]
  have lead: "lr_isLeader r = lr_isLeader ?r" using s by (simp add: entry_stored_def same_keys_def)
  show ?thesis
  proof (cases "i = ld sh")
    case True
    then have same: "log_keys (lr_log r) = log_keys ?L" "lg_last (lr_log r) = lg_last ?L"
      using s key by (simp_all add: entry_stored_def same_keys_def)
    have "leader_inv (Suc t) (lr_log r)" using leader_inv_cong(1) [OF L same] by (rule leader_inv_cong(2))
    moreover have "rep_inv sh i (lr_log r) r" by (rule rep_inv_leader [OF e(1)]) (simp add: same)
    ultimately show ?thesis using shard_inv_leader [OF inv i(3)] True e(2) lead r(2) by (simp add: same)
  next
    case False
    with shard_inv_follower [OF inv False e(1)] e(2) lead r(2) show ?thesis by simp
  qed
qed

section \<open>Steps of the coordinators\<close>

lemma notify_sends:
  "NotifyCommitDecision c req = Inr ((), os) \<Longrightarrow> (d, OBypassLeaderReply tid sh r) \<notin> set os"
  "NotifyReplicateResult c req = Inr ((), os) \<Longrightarrow> (d, OBypassLeaderReply tid sh r) \<notin> set os"
  using NotifyCommitDecision_sends [of _ c req] NotifyReplicateResult_sends [of _ c req] by fastforce+

lemma close_sends:
  "abort_req c x req = Inr (c', os) \<Longrightarrow> (d, OBypassLeaderReply tid sh r) \<notin> set os"
  "commit_req c x req st = Inr (c', os) \<Longrightarrow> (d, OBypassLeaderReply tid sh r) \<notin> set os"
  by (auto simp: abort_req_def commit_req_def bindw_eq_Inr notify_sends)

lemma union_loop_sends:
  "union_loop c x rep qs seen req = Inr (c', os) \<Longrightarrow> (d, OBypassLeaderReply tid sh r) \<notin> set os"
  by (induction qs arbitrary: seen req) (auto simp: Let_def close_sends split: if_splits)

text \<open>A coordinator forwards only the acknowledgement it has just received.\<close>

lemma forwards_acknowledgement:
  assumes "co_HandleMessage c m = Inr (c', os)" and o: "(d, OBypassLeaderReply tid sh r) \<in> set os"
  shows "\<exists>v. m = MReplicateReplyAndVote v \<and> rv_tid v = tid \<and> rv_shard v = sh \<and> rv_replica v = r"
proof (cases m)
  case (MReplicateReplyAndVote v)
  then show ?thesis using assms
    by (auto simp: HandleReplicateReplyAndVote_def Let_def bindw_eq_Inr pure_eq_Inr notify_sends close_sends split: if_splits prod.splits bool.splits)
next
  case (MVote v)
  then show ?thesis using assms
    by (auto simp: HandleVote_def Let_def bindw_eq_Inr pure_eq_Inr notify_sends close_sends split: if_splits prod.splits bool.splits)
qed (use assms in \<open>auto simp: HandleBypassLeaderReply_def HandleReplicateDecision_def HandleReplyDecision_def HandleBypassLeaderReplyUnion_def
    HandleRequestCommitResult_def HandleNotifyDecision_def HandleNotifyDependenciesAreCleared_def Let_def bindw_eq_Inr pure_eq_Inr notify_sends close_sends union_loop_sends
    split: if_splits option.splits\<close>)

definition par_grown :: "par_state \<Rightarrow> par_state \<Rightarrow> bool" where
  "par_grown S S' \<longleftrightarrow> (\<forall>p. rep_grows (ps_rep S p) (ps_rep S' p))"

lemma rep_grows_refl [simp]: "rep_grows r r"
  by (simp add: rep_grows_def)

lemma grown_mono:
  assumes "par_grown S S'"
  shows "sent_to_cos k n S \<subseteq> sent_to_cos k n S'" "acks_stored k n S tid sh r \<Longrightarrow> acks_stored k n S' tid sh r"
    "received_ok k n S m \<Longrightarrow> received_ok k n S' m"
proof -
  have g: "rep_grows (ps_rep S p) (ps_rep S' p)" for p using assms unfolding par_grown_def by blast
  then show sub: "sent_to_cos k n S \<subseteq> sent_to_cos k n S'"
    unfolding sent_to_cos_def rep_grows_def by blast
  have ack: "acks_stored k n S tid sh r \<Longrightarrow> acks_stored k n S' tid sh r" for tid sh r
    using g keyed_mono unfolding acks_stored_def rep_grows_def by blast
  then show "acks_stored k n S tid sh r \<Longrightarrow> acks_stored k n S' tid sh r" .
  show "received_ok k n S m \<Longrightarrow> received_ok k n S' m"
    using sub ack by (auto simp: received_ok_def split: co_msg.splits)
qed

lemma co_hist_mono: "par_grown S S' \<Longrightarrow> ps_co S' c = ps_co S c \<Longrightarrow> ps_out S' c = ps_out S c \<Longrightarrow> co_hist k n S c \<Longrightarrow> co_hist k n S' c"
  unfolding co_hist_def using grown_mono [of S S' k n] by (metis (no_types, lifting) list.pred_mono_strong)

lemma rep_step_inv:
  assumes inv: "par_inv k n ld t S"
    and r: "shard_inv n ld (Suc t) sh (set_rep S (sh, i) r) \<and> rep_grows (ps_rep S (sh, i)) r" and ok: "reply_ok n S r"
  shows "par_inv k n ld (Suc t) (set_rep S (sh, i) r)"
proof -
  have "par_grown S (set_rep S (sh, i) r)" using r by (simp add: par_grown_def)
  then have "co_hist k n (set_rep S (sh, i) r) c" if "c < n" for c
    using inv that co_hist_mono [of S "set_rep S (sh, i) r" c k n] by (simp add: par_inv_def)
  moreover have "shard_inv n ld (Suc t) sh' (set_rep S (sh, i) r)" if "sh' < k" for sh'
  proof (cases "sh' = sh")
    case False
    have "shard_inv n ld t sh' S" using inv that by (simp add: par_inv_def)
    with False show ?thesis by (simp add: shard_inv_def leader_inv_cong(2))
  qed (use r in simp)
  moreover have "reply_ok n (set_rep S (sh, i) r) (ps_rep (set_rep S (sh, i) r) (sh', i'))" if "sh' < k" "i' < n" for sh' i'
    using inv ok that by (simp add: par_inv_def reply_ok_def)
  ultimately show ?thesis by (simp add: par_inv_def)
qed

text \<open>No other step sends a reply to a client.\<close>

lemma reply_ok_quiet: "log_quiet r r' \<Longrightarrow> reply_ok n S r \<Longrightarrow> reply_ok n S r'"
  by (fastforce simp: log_quiet_def reply_ok_def list_all_iff)

lemma reply_ok_stores_own: "stores_own r r' \<Longrightarrow> reply_ok n S r \<Longrightarrow> reply_ok n S r'"
  unfolding stores_own_def appended_def using reply_ok_quiet by (fastforce simp: reply_ok_def)

lemma reply_ok_entry: "entry_stored r p r' \<Longrightarrow> reply_ok n S r \<Longrightarrow> reply_ok n S r'"
  by (fastforce simp: entry_stored_def entry_sent_def reply_ok_def list_all_iff)

lemma reply_ok_answered: "answered tid r r' \<Longrightarrow> c < n \<Longrightarrow> tid \<in> commit_sent (ps_out S c) \<Longrightarrow> reply_ok n S r \<Longrightarrow> reply_ok n S r'"
  by (fastforce simp: answered_def reply_ok_def list_all_iff)

lemma answered_inv:
  assumes inv: "shard_inv n ld t sh S" and a: "answered tid (ps_rep S (sh, i)) r" and i: "i < n"
  shows "shard_inv n ld t sh (set_rep S (sh, i) r)" "rep_grows (ps_rep S (sh, i)) r"
proof -
  from a obtain ms where ms: "lr_sent r = lr_sent (ps_rep S (sh, i)) @ ms" "\<forall>m \<in> set ms. \<exists>st ts. snd m = SParallelModeCommitReply tid st ts"
    and l: "lr_log r = lr_log (ps_rep S (sh, i))" "lr_isLeader r = lr_isLeader (ps_rep S (sh, i))"
      "lr_shard_id r = lr_shard_id (ps_rep S (sh, i))" "lr_replica_id r = lr_replica_id (ps_rep S (sh, i))"
    by (auto simp: answered_def list_all_iff)
  have k: "keyed r = keyed (ps_rep S (sh, i))" by (simp add: keyed_def fun_eq_iff l)
  have sent: "(d, SReplicateTransaction m) \<in> set (lr_sent r) \<longleftrightarrow> (d, SReplicateTransaction m) \<in> set (lr_sent (ps_rep S (sh, i)))"
    "(d, SCoordinator v) \<in> set (lr_sent r) \<longleftrightarrow> (d, SCoordinator v) \<in> set (lr_sent (ps_rep S (sh, i)))" for d m v
    using ms by fastforce+
  have "rep_inv sh i L r \<longleftrightarrow> rep_inv sh i L (ps_rep S (sh, i))" for L by (simp add: rep_inv_def l k sent)
  then show "shard_inv n ld t sh (set_rep S (sh, i) r)" using inv i by (auto simp: shard_inv_def l)
  show "rep_grows (ps_rep S (sh, i)) r" by (simp add: rep_grows_def l ms(1))
qed

lemma co_receive_inv:
  assumes inv: "par_inv k n ld t S" and c: "c < n" and m: "received_ok k n S m" and step: "co_receive S c m = Inr S'"
  shows "par_inv k n ld (Suc t) S'"
proof -
  obtain co os where h: "co_HandleMessage (ps_co S c) m = Inr (co, os)"
    and S': "S' = S\<lparr>ps_co := (ps_co S)(c := co), ps_out := (ps_out S)(c := ps_out S c @ os)\<rparr>"
    using step by (auto simp: co_receive_def bindr_eq_Inr)
  have g: "par_grown S S'" by (simp add: par_grown_def S')
  have votes: "acks_stored k n S (rv_tid v) (rv_shard v) (rv_replica v)" if v: "m = MReplicateReplyAndVote v" for v
  proof -
    obtain sh i d where "sh < k" "i < n" "(d, SCoordinator (MReplicateReplyAndVote v)) \<in> set (lr_sent (ps_rep S (sh, i)))"
      using m unfolding v by (auto simp: received_ok_def sent_to_cos_def)
    moreover from this have "rep_inv sh i (lr_log (ps_rep S (sh, ld sh))) (ps_rep S (sh, i))" using inv by (simp add: par_inv_def shard_inv_def)
    ultimately show ?thesis unfolding rep_inv_def acks_stored_def by blast
  qed
  have "co_hist k n S' x" if x: "x < n" for x
  proof (cases "x = c")
    case True
    obtain ms where ms: "co_run (Coordinator_new k n (of_nat c)) ms = Inr (ps_co S c, ps_out S c)" "list_all (received_ok k n S) ms"
      and fwd: "\<And>d tid sh r. (d, OBypassLeaderReply tid sh r) \<in> set (ps_out S c) \<Longrightarrow> acks_stored k n S tid sh r"
      using inv c unfolding par_inv_def co_hist_def by blast
    have "list_all (received_ok k n S') (ms @ [m])" using ms(2) m grown_mono(3) [OF g] by (auto simp: list_all_iff)
    moreover have "acks_stored k n S' tid sh r" if "(d, OBypassLeaderReply tid sh r) \<in> set (ps_out S c @ os)" for d tid sh r
      using that fwd forwards_acknowledgement [OF h, of d tid sh r] votes grown_mono(2) [OF g] by auto
    ultimately show ?thesis unfolding co_hist_def True using co_run_snoc [OF ms(1) h] by (auto simp: S')
  next
    case False
    then show ?thesis using co_hist_mono [OF g, of x k n] inv x by (simp add: par_inv_def S')
  qed
  moreover have "shard_inv n ld (Suc t) sh S'" if "sh < k" for sh
  proof -
    have "shard_inv n ld t sh S" using inv that by (simp add: par_inv_def)
    then show ?thesis by (simp add: shard_inv_def leader_inv_cong(2) S')
  qed
  moreover have "reply_ok n S' (ps_rep S' (sh, i))" if "sh < k" "i < n" for sh i
  proof -
    have "reply_ok n S (ps_rep S (sh, i))" using inv that by (simp add: par_inv_def)
    moreover have "commit_sent (ps_out S x) \<subseteq> commit_sent (ps_out S' x)" for x by (auto simp: S' commit_sent_def)
    moreover have "ps_rep S' = ps_rep S" by (simp add: S')
    ultimately show ?thesis unfolding reply_ok_def by (metis subsetD)
  qed
  ultimately show ?thesis by (simp add: par_inv_def)
qed

lemma nth_opt_set: "nth_opt xs k = Some x \<Longrightarrow> x \<in> set xs"
  by (auto simp: nth_opt_def split: if_splits)

lemma sent_entry_Some: "sent_entry p = Some m \<longleftrightarrow> (\<exists>d. p = (d, SReplicateTransaction m))"
  by (cases p rule: sent_entry.cases) auto

lemma sent_result_Some: "sent_result p = Some (tid, ok, ts) \<longleftrightarrow> (\<exists>d. p = (d, ONotifyReplicateResult tid ok ts))"
  by (cases p rule: sent_result.cases) auto

lemma sent_vote_Some: "sent_vote p = Some m \<longleftrightarrow> (\<exists>d. p = (d, SCoordinator m))"
  by (cases p rule: sent_vote.cases) auto

lemma par_step_inv:
  assumes inv: "par_inv k n ld t S" and ld: "\<And>sh. sh < k \<Longrightarrow> ld sh < n" and t: "t < 2 ^ 64 - 1" and step: "par_step k n S e = Inr S'"
  shows "par_inv k n ld (Suc t) S'"
proof -
  have idle: "par_inv k n ld (Suc t) S"
    using inv leader_inv_cong(2) by (auto simp: par_inv_def shard_inv_def)
  have shard: "shard_inv n ld t sh S" if "sh < k" for sh using inv that by (simp add: par_inv_def)
  have reply: "reply_ok n S (ps_rep S (sh, i))" if "sh < k" "i < n" for sh i using inv that by (simp add: par_inv_def)
  show ?thesis
  proof (cases e)
    case (PLocal sh i env ev)
    show ?thesis
    proof (cases "sh < k \<and> i < n \<and> \<not> is_guarded_event ev")
      case True
      then obtain r where r: "lr_step env (ps_rep S (sh, i)) ev = Inr r" and S': "S' = set_rep S (sh, i) r"
        using step PLocal by (auto simp: bindr_eq_Inr)
      have L: "leader_inv t (lr_log (ps_rep S (sh, ld sh)))" "lr_isLeader (ps_rep S (sh, i)) \<longleftrightarrow> i = ld sh"
        using shard [of sh] True by (simp_all add: shard_inv_def)
      have "after (stores_own (ps_rep S (sh, i))) (lr_step env (ps_rep S (sh, i)) ev)"
        using True L leader_inv_free [OF _ t] by (intro lr_step_stores) auto
      then have own: "stores_own (ps_rep S (sh, i)) r" by (simp add: r)
      have "reply_ok n S r" using reply_ok_stores_own [OF own] reply True by blast
      with local_step [OF shard _ ld t own] True rep_step_inv [OF inv] show ?thesis unfolding S' by blast
    next
      case False
      then show ?thesis using step PLocal idle by auto
    qed
  next
    case (PEntry sh i j x env a)
    show ?thesis
    proof (cases "sh < k \<and> i < n \<and> j < n \<and> (\<exists>m. Option.bind (nth_opt (lr_sent (ps_rep S (sh, j))) x) sent_entry = Some m)")
      case True
      then obtain m where i: "sh < k" "i < n" "j < n" and m: "Option.bind (nth_opt (lr_sent (ps_rep S (sh, j))) x) sent_entry = Some m" by blast
      obtain d where d: "(d, SReplicateTransaction m) \<in> set (lr_sent (ps_rep S (sh, j)))"
        using m nth_opt_set by (fastforce simp: bind_eq_Some_conv sent_entry_Some)
      from step i m obtain r where r: "HandleReplicateTransaction env (ps_rep S (sh, i)) a m = Inr r" "S' = set_rep S (sh, i) r"
        by (simp add: PEntry bindr_eq_Inr) blast
      have e: "entry_stored (ps_rep S (sh, i)) (rt_txnLog m) r" using HandleReplicateTransaction_stores [of "ps_rep S (sh, i)" m env a] r(1) by simp
      from entry_step [OF shard [OF i(1)] i(2,3) ld [OF i(1)] d e] show ?thesis
        unfolding r(2) by (rule rep_step_inv [OF inv _ reply_ok_entry [OF e reply [OF i(1,2)]]])
    next
      case False
      then have "S' = S" using step by (auto simp: PEntry simp del: bind_eq_Some_conv split: if_splits option.splits)
      then show ?thesis by (simp add: idle)
    qed
  next
    case (PVote c sh j x)
    then consider "S' = S" | d m where "c < n" "sh < k" "j < n" "nth_opt (lr_sent (ps_rep S (sh, j))) x = Some (d, SCoordinator m)" "co_receive S c m = Inr S'"
      using step by (auto simp: bind_eq_Some_conv sent_vote_Some split: if_splits option.splits)
    then show ?thesis
    proof cases
      case (2 d m)
      have "received_ok k n S m" using 2(2,3) nth_opt_set [OF 2(4)] by (auto simp: received_ok_def sent_to_cos_def)
      from co_receive_inv [OF inv 2(1) this 2(5)] show ?thesis .
    qed (simp add: idle)
  next
    case (PForward c c' x)
    then consider "S' = S" | d out m ms where "c < n" "c' < n" "nth_opt (ps_out S c') x = Some (d, out)" "co_to_co out = m # ms" "co_receive S c m = Inr S'"
      using step by (auto split: if_splits option.splits list.splits)
    then show ?thesis
    proof cases
      case (2 d out m ms)
      have "acks_stored k n S tid sh r" if "out = OBypassLeaderReply tid sh r" for tid sh r
        using inv 2(2) nth_opt_set [OF 2(3)] that unfolding par_inv_def co_hist_def by blast
      then have "received_ok k n S m" using 2(4) by (cases out) (auto simp: received_ok_def)
      from co_receive_inv [OF inv 2(1) this 2(5)] show ?thesis .
    qed (simp add: idle)
  next
    case (PResult sh i c x env a)
    show ?thesis
    proof (cases "sh < k \<and> i < n \<and> c < n \<and> (\<exists>m. Option.bind (nth_opt (ps_out S c) x) sent_result = Some m)")
      case True
      then obtain tid ok ts where i: "sh < k" "i < n" "c < n" and m: "Option.bind (nth_opt (ps_out S c) x) sent_result = Some (tid, ok, ts)" by auto
      have com: "tid \<in> commit_sent (ps_out S c)"
        using m nth_opt_set by (fastforce simp: bind_eq_Some_conv sent_result_Some commit_sent_def)
      from step i m obtain r where r: "HandleReplicateResultFromCoordinatorReplica env (ps_rep S (sh, i)) tid ts = Inr r" "S' = set_rep S (sh, i) r"
        by (simp add: PResult bindr_eq_Inr) blast
      then obtain u where u: "answered tid (ps_rep S (sh, i)) u" "log_quiet u r"
        using HandleReplicateResult_answers [of tid "ps_rep S (sh, i)" env ts] by auto
      note a = answered_inv [OF shard [OF i(1)] u(1) i(2)]
      have "shard_inv n ld (Suc t) sh (set_rep (set_rep S (sh, i) u) (sh, i) r) \<and> rep_grows (ps_rep (set_rep S (sh, i) u) (sh, i)) r"
        by (rule local_step [OF a(1) i(2) ld [OF i(1)] t]) (simp add: stores_own_def u(2))
      then have "shard_inv n ld (Suc t) sh (set_rep S (sh, i) r) \<and> rep_grows (ps_rep S (sh, i)) r"
        using a(2) by (auto simp: set_rep_def rep_grows_def intro: map_le_trans)
      then show ?thesis
        unfolding r(2) by (rule rep_step_inv [OF inv _ reply_ok_quiet [OF u(2) reply_ok_answered [OF u(1) i(3) com reply [OF i(1,2)]]]])
    next
      case False
      then have "S' = S" using step by (auto simp: PResult simp del: bind_eq_Some_conv split: if_splits option.splits)
      then show ?thesis by (simp add: idle)
    qed
  qed
qed

lemma par_run_inv:
  assumes "\<And>sh. sh < k \<Longrightarrow> ld sh < n"
  shows "par_inv k n ld t S \<Longrightarrow> t + length es < 2 ^ 64 \<Longrightarrow> par_run k n es S = Inr S' \<Longrightarrow> par_inv k n ld (t + length es) S'"
proof (induction es arbitrary: t S)
  case (Cons e es)
  from Cons.prems(3) obtain S1 where s: "par_step k n S e = Inr S1" "par_run k n es S1 = Inr S'" by (auto simp: bindr_eq_Inr)
  have "par_inv k n ld (Suc t) S1" by (rule par_step_inv [OF Cons.prems(1) assms _ s(1)]) (use Cons.prems(2) in auto)
  from Cons.IH [OF this _ s(2)] Cons.prems(2) show ?case by simp
qed simp

section \<open>Durability\<close>

lemma acks_stored_has:
  assumes "acks_stored k n S tid s r" and "k < 2 ^ 64" "n < 2 ^ 64"
  shows "unat s < k" "unat r < n" "has_entry (ps_rep S (unat s, unat r)) tid"
proof -
  obtain sh i where "sh < k" "i < n" "s = of_nat sh" "r = of_nat i" "keyed (ps_rep S (sh, i)) tid"
    using assms(1) by (auto simp: acks_stored_def)
  moreover from this have "unat s = sh" "unat r = i" using assms(2,3) by (simp_all add: unat_of_nat take_bit_nat_eq_self)
  ultimately show "unat s < k" "unat r < n" "has_entry (ps_rep S (unat s, unat r)) tid" by (simp_all add: keyed_has_entry)
qed

lemma acks_durable:
  assumes R: "finite R" "n div 2 + 1 \<le> card R" and a: "\<And>r. r \<in> R \<Longrightarrow> acks_stored k n S tid s r" and "k < 2 ^ 64" "n < 2 ^ 64"
  shows "unat s < k \<and> majority_stored n S tid (unat s)"
proof -
  have "R \<noteq> {}" using R(2) by (cases "R = {}") auto
  then obtain r where "r \<in> R" by blast
  note has = acks_stored_has [OF a assms(4,5)]
  have "unat ` R \<subseteq> {i. i < n \<and> has_entry (ps_rep S (unat s, i)) tid}" using has by blast
  then have "card (unat ` R) \<le> card {i. i < n \<and> has_entry (ps_rep S (unat s, i)) tid}" by (intro card_mono) auto
  moreover have "card (unat ` R) = card R" by (rule card_image) (simp add: inj_on_def word_unat_eq_iff)
  ultimately show ?thesis using R(2) has(1) [OF \<open>r \<in> R\<close>] by (simp add: majority_stored_def)
qed

lemma par_inv_durable:
  assumes inv: "par_inv k n ld t S" and "k < 2 ^ 64" "n < 2 ^ 64" and c: "c < n" and o: "(d, ONotifyReplicateResult tid b ts) \<in> set (ps_out S c)"
  shows "\<exists>ps. ps \<noteq> [] \<and> named (sent_to_cos k n S) tid ps \<and> (\<forall>p \<in> set ps. voted (sent_to_cos k n S) tid p) \<and>
    length ps \<le> card {sh. sh < k \<and> majority_stored n S tid sh}"
proof -
  obtain ms where ms: "co_run (Coordinator_new k n (of_nat c)) ms = Inr (ps_co S c, ps_out S c)" "list_all (received_ok k n S) ms"
    using inv c unfolding par_inv_def co_hist_def by blast
  have no: "\<not> is_notify_primary m \<and> (\<forall>x. m \<noteq> MBypassLeaderReply x) \<and> (\<forall>x. m \<noteq> MBypassLeaderReplyUnion x)" if "m \<in> sent_to_cos k n S" for m
    using inv that unfolding par_inv_def shard_inv_def rep_inv_def sent_to_cos_def by blast
  have ok: "received_ok k n S m" if "m \<in> set ms" for m using ms(2) that by (simp add: list_all_iff)
  have "\<not> is_notify_primary m" if "m \<in> set ms" for m
    using ok [OF that] no [of m] by (auto simp: received_ok_def is_notify_primary_def split: co_msg.splits)
  then have "\<not> list_ex is_notify_primary ms" by (simp add: list_ex_iff)
  moreover have "tid \<in> commit_sent (ps_out S c)" using o by (auto simp: commit_sent_def)
  ultimately have "may_commit (set ms) (n div 2 + 1) tid" using co_run_commit_sent [OF ms(1)] by blast
  then obtain ps T where ps: "ps \<noteq> []" "named (set ms) tid ps" "\<forall>p \<in> set ps. voted (set ms) tid p"
    and T: "finite T" "card T = length ps" "\<forall>s \<in> T. \<exists>R. finite R \<and> n div 2 + 1 \<le> card R \<and> (\<forall>r \<in> R. acked (set ms) tid s r)"
    unfolding may_commit_def replicated_def by blast
  have ack: "acks_stored k n S tid s r" if a: "acked (set ms) tid s r" for s r
    using a ok no unfolding acked_def received_ok_def by fastforce
  have "unat s < k \<and> majority_stored n S tid (unat s)" if "s \<in> T" for s
    using T(3) that acks_durable [OF _ _ ack assms(2,3)] by blast
  then have "card (unat ` T) \<le> card {sh. sh < k \<and> majority_stored n S tid sh}" by (intro card_mono) auto
  moreover have "card (unat ` T) = card T" by (rule card_image) (simp add: inj_on_def word_unat_eq_iff)
  moreover have "named (sent_to_cos k n S) tid ps" using ps(2) ok unfolding named_def received_ok_def by fastforce
  moreover have "voted (sent_to_cos k n S) tid p" if "p \<in> set ps" for p
    using ps(3) that ok unfolding voted_def received_ok_def by fastforce
  ultimately show ?thesis using ps(1) T(2) by auto
qed

section \<open>An example\<close>

text \<open>Two shards and the coordinator group with three replicas each; replica \<open>j\<close> leads shard \<open>j\<close>. One
  follower of each shard and two coordinators take part.\<close>

definition par_demo_init :: par_state where
  "par_demo_init = par_init 2 3 1 id 2 (\<lambda>p. \<lparr>srv_mode = MODE_OCC, srv_tpcMode = MODE_PARALLEL, srv_store = OCC OCCStore_new\<rparr>) (\<lambda>p. 6)"

definition par_demo_prepare :: lr_event where
  "par_demo_prepare = EMsg 44 (LPrepareTransaction (demo_prepare\<lparr>pm_mode := CM_PARALLEL, pm_participants := [0, 1]\<rparr>))"

definition par_demo :: "par_event list" where
  "par_demo = [PLocal 0 0 demo_env par_demo_prepare, PEntry 0 0 0 0 demo_env 0, PEntry 0 1 0 0 demo_env 0,
     PLocal 1 1 demo_env par_demo_prepare, PEntry 1 1 1 0 demo_env 1, PEntry 1 0 1 0 demo_env 1,
     PVote 0 0 0 2, PVote 0 1 0 1, PVote 1 0 1 1, PVote 1 1 1 2,
     PForward 0 0 0, PForward 0 0 2, PForward 0 1 0, PForward 0 1 2, PResult 0 0 0 3 demo_env 0]"

definition par_demo_end :: par_state where
  "par_demo_end = projr (par_run 2 3 par_demo par_demo_init)"

section \<open>Properties\<close>

text \<open>C2. Durability of a commit in parallel mode, from the client's answer to the logs: in every
  interleaving of \<open>k\<close> shards and the coordinator group with \<open>n\<close> replicas each, if a shard has told a
  client that \<open>tid\<close> is committed, then the replicas have named a list of participants for \<open>tid\<close>, each of
  them has voted \<^verbatim>\<open>PREPARED\<close>, and as many shards as there are participants have an entry of \<open>tid\<close> in
  the logs of a majority of their replicas. Messages between the parts may be lost, repeated and
  reordered; the requests of clients are arbitrary.\<close>

theorem parallel_commit_durable:
  assumes "k < 2 ^ 64" "n < 2 ^ 64" "\<And>sh. sh < k \<Longrightarrow> ld sh < n"
    and "par_run k n es (par_init k n f ld nt sv ts0) = Inr S" "length es < 2 ^ 64"
    and "sh < k" "i < n" "(d, SParallelModeCommitReply tid st ts) \<in> set (lr_sent (ps_rep S (sh, i)))"
  shows "\<exists>ps. ps \<noteq> [] \<and> named (sent_to_cos k n S) tid ps \<and> (\<forall>p \<in> set ps. voted (sent_to_cos k n S) tid p) \<and>
    length ps \<le> card {sh. sh < k \<and> majority_stored n S tid sh}"
proof -
  have inv: "par_inv k n ld (length es) S"
    using par_run_inv [OF assms(3) par_inv_init [OF assms(1-3)] _ assms(4)] assms(5) by simp
  then obtain c where "c < n" "tid \<in> commit_sent (ps_out S c)"
    using assms(6-8) unfolding par_inv_def reply_ok_def by blast
  with par_inv_durable [OF inv assms(1,2)] show ?thesis unfolding commit_sent_def by blast
qed

theorem parallel_commit_durable_witness:
  "\<exists>ps. ps \<noteq> [] \<and> named (sent_to_cos 2 3 par_demo_end) 9 ps \<and> (\<forall>p \<in> set ps. voted (sent_to_cos 2 3 par_demo_end) 9 p) \<and>
    length ps \<le> card {sh. sh < 2 \<and> majority_stored 3 par_demo_end 9 sh}"
proof -
  have "\<not> isl (par_run 2 3 par_demo par_demo_init)" by code_simp
  then have run: "par_run 2 3 par_demo par_demo_init = Inr par_demo_end" unfolding par_demo_end_def by (rule sum.collapse(2) [symmetric])
  have "(DAddr 44, SParallelModeCommitReply 9 LOG_STATE_COMMIT 0) \<in> set (lr_sent (ps_rep par_demo_end (0, 0)))" by code_simp
  from parallel_commit_durable [OF _ _ _ run [unfolded par_demo_init_def] _ _ _ this] show ?thesis
    by (simp add: par_demo_def)
qed

end
