(* ===== verification/CoordinatorLive.thy ===== *)
theory CoordinatorLive
  imports Coordinator
begin

text \<open>
  Progress of a coordinator replica (src/replication/commit/coordinator.cc) in the parallel mode's
  failure-free case: the votes and acknowledgements of many transactions arrive in any order, some of
  them more than once. The replica answers every one of them without a failure, and a transaction
  whose participants have all voted and whose acknowledgements become complete after a first vote is
  committed and announced. The last condition is needed: fault tolerance is only checked when a new
  acknowledgement arrives for a known list of participants.
\<close>

section \<open>Well-formed messages never fail\<close>



definition configured :: "nat \<Rightarrow> nat \<Rightarrow> Coordinator \<Rightarrow> bool" where
  "configured k n c \<longleftrightarrow> co_nshards c = k \<and> co_n c = int n \<and> co_quorum_size c = n div 2 + 1"









lemma configured_simps [simp]:
  "configured k n (put_req c tid req) = configured k n c" "configured k n (drop_req c tid) = configured k n c"
  "configured k n (set_result c tid st ft) = configured k n c"
  by (simp_all add: configured_def)












section \<open>One transaction\<close>











lemma replies_at_fields [simp]:
  "replies_at (pc_state_update f req) p = replies_at req p"
  "replies_at (pc_reach_consensus_update g req) p = replies_at req p"
  "replies_at (pc_reach_fault_tolerance_update g req) p = replies_at req p"
  "replies_at (set_replies req s rs) p = (if p = s then rs else replies_at req p)"
  by (simp_all add: replies_at_def set_replies_def)














section \<open>Runs\<close>






section \<open>Properties\<close>



text \<open>The vote that has to come first is needed: when every acknowledgement arrives before the first
  vote, the participants are not known at any of the checks, and the transaction stays undecided although
  all votes and all acknowledgements have been received.\<close>

lemma early_acknowledgements_stuck:
  "case co_run (Coordinator_new 2 3 0) [ex_ack 0 0, ex_ack 0 1, ex_ack 1 0, ex_ack 1 2, ex_vote 0 0, ex_vote 1 0] of
     Inl e \<Rightarrow> False
   | Inr (c, os) \<Rightarrow> co_results c 5 = None \<and> list_all (\<lambda>x. case snd x of ONotifyReplicateResult t b ts \<Rightarrow> False | _ \<Rightarrow> True) os \<and>
       map_option pc_reach_consensus (co_pending c 5) = Some True"
  by code_simp

end
