(* ===== verification/ClientBehaviour.thy ===== *)
theory ClientBehaviour
  imports ClientFast
begin

text \<open>
  Further behaviour of the transaction client, in all modes: reads of its own writes, the bound on
  the number of attempts, and what happens when sends fail, requests are repeated and replies come
  late.
\<close>

section \<open>Reading one's own writes\<close>

lemma shard_of_key_frame [simp]:
  "shard_of_key (add_participant c i) k = shard_of_key c k" "shard_of_key (put_bclient c j b) k = shard_of_key c k"
  "shard_of_key (return c r) k = shard_of_key c k"
  by (simp_all add: shard_of_key_def add_participant_def put_bclient_def return_def)

lemma cl_Put_eq:
  assumes "shard_of_key c key = Inr i" and "0 \<le> i" "nat i < length (cl_bclient c)"
  shows "cl_Put c key val = Inr (return (put_bclient (add_participant c i) (nat i) (bc_Put (cl_bclient c ! nat i) key val)) (RPut REPLY_OK))"
  using assms by (simp add: cl_Put_def bclient_def) (simp add: add_participant_def)

lemma cl_Get_buffered:
  assumes "shard_of_key c key = Inr i" and "0 \<le> i" "nat i < length (cl_bclient c)" "i \<in> set (cl_participants c)"
    and "map_of (txn_writeSet (bc_txn (cl_bclient c ! nat i))) key = Some v"
  shows "cl_Get c key = Inr (c\<lparr>cl_heap := (cl_heap c)(cl_next c \<mapsto> Reply_value (Promise_timeout GET_TIMEOUT) REPLY_OK v),
    cl_next := cl_next c + 1, cl_app := InGet (nat i) key (cl_next c) Buffered\<rparr>)"
  using assms by (simp add: cl_Get_def add_participant_def new_promise_def bclient_def bc_Get_def load_def)

text \<open>A transaction reads its own writes: after \<^verbatim>\<open>Put\<close> of a key, \<^verbatim>\<open>Get\<close> of this key returns the
  value written, at once and without a message to any shard.\<close>

lemma read_your_writes:
  assumes "cl_app c = Idle" and "shard_of_key c key = Inr i" and "0 \<le> i" "nat i < length (cl_bclient c)"
  shows "\<exists>c'. cl_run [APut key val, AGet key, AResume t1 t2] c = Inr c' \<and> cl_app c' = Idle \<and>
    cl_results c' = cl_results c @ [RPut REPLY_OK, RGet REPLY_OK val] \<and>
    cl_actions c' = cl_actions c \<and> cl_sent c' = cl_sent c"
proof -
  let ?c = "return (put_bclient (add_participant c i) (nat i) (bc_Put (cl_bclient c ! nat i) key val)) (RPut REPLY_OK)"
  have c: "cl_bclient ?c ! nat i = bc_Put (cl_bclient c ! nat i) key val" "length (cl_bclient ?c) = length (cl_bclient c)"
    "i \<in> set (cl_participants ?c)" "cl_actions ?c = cl_actions c" "cl_sent ?c = cl_sent c"
    using assms(4) by (auto simp: return_def put_bclient_def add_participant_def)
  have "cl_Get ?c key = Inr (?c\<lparr>cl_heap := (cl_heap ?c)(cl_next ?c \<mapsto> Reply_value (Promise_timeout GET_TIMEOUT) REPLY_OK val),
    cl_next := cl_next ?c + 1, cl_app := InGet (nat i) key (cl_next ?c) Buffered\<rparr>)"
    using assms c by (intro cl_Get_buffered) (auto simp: bc_Put_def addWriteSet_def)
  then show ?thesis
    using assms(1) cl_Put_eq [OF assms(2-4), of val] c(4,5)
    by (simp add: app_event_def cl_resume_def resume_Get_def load_def reply_defs Promise_timeout_def delete_promise_def)
      (simp add: return_def)
qed

section \<open>Attempts to commit\<close>

definition attempts_ok :: "Client \<Rightarrow> bool" where
  "attempts_ok c \<longleftrightarrow> (case cl_app c of InPrepare p retry \<Rightarrow> retry < COMMIT_RETRIES
     | InCommitWait t err ts retry \<Rightarrow> retry < COMMIT_RETRIES | _ \<Rightarrow> True)"

lemma finish_commit_idle: "finish_commit c ts r = Inr c' \<Longrightarrow> cl_app c' = Idle"
  by (auto simp: finish_commit_def bindr_eq_Inr return_def)

lemma finish_abort_idle: "finish_abort c r = Inr c' \<Longrightarrow> cl_app c' = Idle"
  by (auto simp: finish_abort_def bindr_eq_Inr return_def)

lemma decide_app:
  "decide c t1 t2 st ts r = Inr c' \<Longrightarrow> cl_app c' = Idle \<or> st = REPLY_OK \<and> (\<exists>e ts'. cl_app c' = InCommitWait t1 e ts' r)"
  by (auto simp: decide_def Let_def dest: finish_commit_idle finish_abort_idle split: if_splits prod.splits)

lemma try_prepare_app:
  "try_prepare c t1 t2 r = Inr c' \<Longrightarrow> cl_app c' = Idle \<or> (\<exists>e ts'. cl_app c' = InCommitWait t1 e ts' r) \<or>
     (\<exists>p. cl_app c' = InPrepare p r)"
  by (auto simp: try_prepare_def bindr_eq_Inr dest: decide_app split: option.splits)

lemma resume_Prepare_app:
  assumes "resume_Prepare c t1 t2 p r = Inr c'" and "cl_heap c p = Some q" "GetPrepareReply q = Some st" and "r < COMMIT_RETRIES"
  shows "cl_app c' = Idle \<or> (\<exists>e ts' r'. cl_app c' = InCommitWait t1 e ts' r' \<and> r' < COMMIT_RETRIES) \<or>
    (\<exists>p'. cl_app c' = InPrepare p' (r + 1) \<and> r + 1 < COMMIT_RETRIES \<and> st \<noteq> REPLY_OK \<and> st \<noteq> REPLY_ABORT \<and> st \<noteq> REPLY_FAIL)"
  using assms
  by (auto simp: resume_Prepare_def Let_def bindr_eq_Inr dest!: decide_app try_prepare_app split: if_splits)

lemma send_decision_app: "send_decision f c ps = Inr c' \<Longrightarrow> cl_app c' = cl_app c"
  by (induction ps arbitrary: c) (fastforce simp: bindr_eq_Inr put_bclient_def)+

lemma multi_next_app: "multi_next c p g = Inr c' \<Longrightarrow> \<exists>j keys g'. cl_app c' = InMultiGet j keys g' p"
  by (induction c p g rule: multi_next.induct) (auto simp: bindr_eq_Inr add_action_def split: if_splits)

lemma on_shard_app: "on_shard c j f = Inr c' \<Longrightarrow> cl_app c' = cl_app c"
  by (auto simp: on_shard_Inr)

lemma run_deferred_app: "run_deferred c k ok = Inr c' \<Longrightarrow> cl_app c' = cl_app c"
  by (auto simp: run_deferred_def Let_def dest!: on_shard_app split: if_splits prod.splits)

lemma attempts_idle: "cl_app c = Idle \<Longrightarrow> attempts_ok c"
  by (simp add: attempts_ok_def)

lemma cl_resume_attempts:
  assumes "attempts_ok c" "cl_resume c t1 t2 = Inr c'"
  shows "attempts_ok c'"
proof (cases "cl_app c")
  case (InPrepare p r)
  obtain q where q: "cl_heap c p = Some q"
    using assms InPrepare by (auto simp: cl_resume_def resume_Prepare_def bindr_eq_Inr)
  show ?thesis
  proof (cases "GetPrepareReply q")
    case None
    with assms InPrepare q show ?thesis by (simp add: cl_resume_def resume_Prepare_def bindr_eq_Inr)
  next
    case (Some st)
    with resume_Prepare_app [OF _ q Some, of t1 t2 r c'] assms InPrepare show ?thesis
      by (auto simp: cl_resume_def attempts_ok_def)
  qed
next
  case (InMultiGet j keys g p)
  with assms show ?thesis
    by (auto simp: cl_resume_def resume_MultiGet_def bindr_eq_Inr Let_def attempts_ok_def dest!: multi_next_app split: if_splits)
next
  case (InCommitWait t e ts r)
  with assms show ?thesis
    by (auto simp: cl_resume_def resume_CommitWait_def attempts_ok_def dest: finish_commit_idle split: if_splits)
qed (use assms in \<open>auto simp: cl_resume_def resume_Get_def bindr_eq_Inr attempts_ok_def Let_def split: if_splits\<close>)

lemma cl_step_attempts:
  assumes "attempts_ok c" "cl_step c e = Inr c'"
  shows "attempts_ok c'"
proof (cases e)
  case (ACommit t1 t2)
  with assms show ?thesis
    by (auto simp: app_event_def cl_Commit_def attempts_ok_def COMMIT_RETRIES_def dest!: try_prepare_app split: if_splits)
next
  case AAbort
  with assms show ?thesis
    by (auto simp: app_event_def cl_Abort_def dest!: send_decision_app intro: attempts_idle split: if_splits)
next
  case (AMultiGet keys)
  with assms show ?thesis
    by (auto simp: app_event_def cl_MultiGet_def new_promise_def bindr_eq_Inr attempts_ok_def dest!: multi_next_app split: if_splits)
next
  case (AGet key)
  with assms show ?thesis
    by (auto simp: app_event_def cl_Get_def new_promise_def Let_def bindr_eq_Inr attempts_ok_def fold_add_action split: if_splits)
next
  case (AResume t1 t2)
  with assms show ?thesis by (auto dest: cl_resume_attempts)
next
  case (TRun k ok)
  with assms show ?thesis by (auto simp: attempts_ok_def dest: run_deferred_app)
next
  case (TMessage j m)
  with assms show ?thesis by (auto simp: attempts_ok_def dest: on_shard_app)
next
  case (TTimer j t)
  with assms show ?thesis by (auto simp: attempts_ok_def dest: on_shard_app)
qed (use assms in \<open>auto simp: app_event_def cl_Begin_def cl_Put_def return_def bindr_eq_Inr Let_def attempts_ok_def split: if_splits\<close>)

lemma cl_run_attempts: "attempts_ok c \<Longrightarrow> cl_run es c = Inr c' \<Longrightarrow> attempts_ok c'"
  by (induction es arbitrary: c) (auto simp: bindr_eq_Inr dest: cl_step_attempts)

lemma Client_new_idle: "Client_new md tpc shards closest n tt tpcc jf cid = Inr c0 \<Longrightarrow> cl_app c0 = Idle"
  by (auto simp: Client_new_def bindr_eq_Inr)

text \<open>C24. The loop of \<^verbatim>\<open>Commit\<close> ends: in every history, a client that waits for the replies of a
  prepare is in one of its first five attempts, and when the reply is there, the loop either ends
  (the decision is sent, or the commit wait begins) or goes on to the next attempt, below the bound,
  and this only for a status that is neither a success nor an abort nor a failure.\<close>

theorem commit_attempts_bounded:
  assumes "Client_new md tpc shards closest n tt tpcc jf cid = Inr c0" and "cl_run es c0 = Inr c"
    and "cl_app c = InPrepare p retry"
  shows "retry < 5 \<and> (\<forall>q st c' t1 t2. cl_heap c p = Some q \<longrightarrow> GetPrepareReply q = Some st \<longrightarrow>
    cl_step c (AResume t1 t2) = Inr c' \<longrightarrow>
      cl_app c' = Idle \<or> (\<exists>e ts r. cl_app c' = InCommitWait t1 e ts r) \<or>
      (\<exists>p'. cl_app c' = InPrepare p' (retry + 1) \<and> retry + 1 < 5 \<and> st \<noteq> REPLY_OK \<and> st \<noteq> REPLY_ABORT \<and> st \<noteq> REPLY_FAIL))"
proof -
  have "attempts_ok c" using cl_run_attempts [OF attempts_idle [OF Client_new_idle [OF assms(1)]] assms(2)] .
  then have r: "retry < COMMIT_RETRIES" using assms(3) by (simp add: attempts_ok_def)
  have "cl_app c' = Idle \<or> (\<exists>e ts r. cl_app c' = InCommitWait t1 e ts r) \<or>
      (\<exists>p'. cl_app c' = InPrepare p' (retry + 1) \<and> retry + 1 < 5 \<and> st \<noteq> REPLY_OK \<and> st \<noteq> REPLY_ABORT \<and> st \<noteq> REPLY_FAIL)"
    if "cl_heap c p = Some q" "GetPrepareReply q = Some st" "cl_step c (AResume t1 t2) = Inr c'" for q st c' t1 t2
  proof -
    have "resume_Prepare c t1 t2 p retry = Inr c'" using that(3) assms(3) by (simp add: cl_resume_def)
    from resume_Prepare_app [OF this that(1,2) r] show ?thesis unfolding COMMIT_RETRIES_def by blast
  qed
  with r show ?thesis unfolding COMMIT_RETRIES_def by blast
qed

theorem commit_attempts_bounded_witness:
  "\<exists>p retry. cl_run demo_txn demo_client = Inr demo_waiting \<and> cl_app demo_waiting = InPrepare p retry \<and> retry < 5"
proof -
  have new: "Client_new MODE_OCC MODE_FAST [(3, 1), (3, 1)] 0 3 TrueTime_default False (\<lambda>t. Inl UninitRead) 50000 = Inr demo_client"
    unfolding demo_client_def by (rule projr_Inr) code_simp
  have run: "cl_run demo_txn demo_client = Inr demo_waiting"
    unfolding demo_waiting_def by (rule projr_Inr) code_simp
  have app: "cl_app demo_waiting = InPrepare 0 0" by code_simp
  from commit_attempts_bounded [OF new run app] run app show ?thesis by blast
qed

section \<open>Lost sends\<close>

definition deaf :: "Client \<Rightarrow> bool" where
  "deaf c \<longleftrightarrow> cl_actions c = [] \<and>
     (\<forall>j < length (cl_bclient c). lc_pendingReqs (sc_client (shard_client c j)) = Map.empty \<and>
        lc_pendingParallelCommits (sc_client (shard_client c j)) = Map.empty)"

lemma on_shard_silent:
  assumes "\<And>s. j < length (cl_bclient c) \<Longrightarrow> s = shard_client c j \<Longrightarrow> f s = Inr (s, [])"
  shows "on_shard c j f = Inr c"
  using assms by (simp add: on_shard_def put_bclient_def)

lemma deaf_receive:
  "lc_pendingReqs s = Map.empty \<Longrightarrow> lc_pendingParallelCommits s = Map.empty \<Longrightarrow> lrc_ReceiveMessage s m = Inr (s, [])"
  by (cases m) (simp_all add: HandlePrepareTxnReply_def HandleGetDataReply_def HandleParallelModeCommitReply_def)

lemma deaf_fire:
  "lc_pendingReqs s = Map.empty \<Longrightarrow> lc_pendingParallelCommits s = Map.empty \<Longrightarrow> lrc_fire s t = Inr (s, [])"
  by (simp add: lrc_fire_def PrepareTimeoutCallback_def GetDateTimeoutCallback_def ParallelModeCommit_timeout_def
      split: lrc_timer.split)

lemma deaf_step:
  assumes "deaf c" "cl_app c = InPrepare p r" "cl_heap c p = Some q" "GetPrepareReply q = None"
  shows "cl_step c e = Inr c"
proof (cases e)
  case (TMessage j m)
  with assms(1) show ?thesis by (auto simp: deaf_def deaf_receive sc_lift_def intro!: on_shard_silent)
next
  case (TTimer j t)
  with assms(1) show ?thesis by (auto simp: deaf_def deaf_fire sc_lift_def intro!: on_shard_silent)
next
  case (TRun k ok)
  with assms(1) show ?thesis by (simp add: deaf_def run_deferred_def)
qed (use assms in \<open>simp_all add: app_event_def cl_resume_def resume_Prepare_def load_def\<close>)

text \<open>A lost send blocks the client for ever: \<^verbatim>\<open>LRClient\<close> drops a request whose send fails
  without calling a continuation, so when no request is left the application thread waits for a
  promise that no message, timer or other event will ever complete; no later event changes the
  client at all.\<close>

lemma lost_send_blocks:
  assumes "deaf c" and "cl_app c = InPrepare p r" and "cl_heap c p = Some q" and "GetPrepareReply q = None"
  shows "cl_run es c = Inr c"
  using deaf_step [OF assms] by (induction es) simp_all

definition demo_lost :: Client where
  "demo_lost = projr (cl_run [ABegin, APut ''x'' ''1'', ACommit demo_time demo_time, TRun 0 False] demo_client)"

section \<open>Repeated requests\<close>

lemma consensus_distinct:
  assumes "fst (ReachConsensus req)" and "distinct (map fst (pc_votes req))"
    and "fst ` set (pc_votes req) \<subseteq> set (pc_participants req)"
  shows "distinct (pc_participants req)"
proof -
  have "length (pc_participants req) = card (fst ` set (pc_votes req))"
    using assms(1) length_distinct_keys [OF assms(2)] by (auto simp: ReachConsensus_def split: if_splits)
  also have "\<dots> \<le> card (set (pc_participants req))" using assms(3) by (intro card_mono) auto
  finally show ?thesis using card_distinct [of "pc_participants req"] card_length [of "pc_participants req"] by simp
qed

text \<open>A repeated prepare request can never be committed by the coordinator group: a client that tries
  again appends the participants to the list of the transaction once more, and a coordinator with a
  list that names a shard twice never finds that all participants have voted, whatever the votes of
  the participants.\<close>

lemma repeated_participants_never_agree:
  assumes "\<not> distinct (pc_participants req)" and "distinct (map fst (pc_votes req))"
    and "fst ` set (pc_votes req) \<subseteq> set (pc_participants req)"
  shows "\<not> fst (ReachConsensus req)"
  using consensus_distinct [OF _ assms(2,3)] assms(1) by blast

text \<open>The first attempt times out; the participants of the second request.\<close>

definition demo_retry :: Client where
  "demo_retry = projr (cl_run [ABegin, APut ''x'' ''1'', ACommit demo_time demo_time, TRun 0 True,
     TTimer 1 (TPrepare 50001), AResume demo_time demo_time, TRun 0 True] demo_client)"

definition retry_participants :: "u64 list" where
  "retry_participants = last [pm_participants m. (j, d, LPrepareTransaction m) \<leftarrow> cl_sent demo_retry]"

definition retry_commit :: PendingCommit where
  "retry_commit = (PendingCommit_new 2 50001)\<lparr>pc_participants := retry_participants, pc_votes := [(1, CR_PREPARED)]\<rparr>"

lemma retry_never_agrees: "retry_participants = [1, 1] \<and> \<not> fst (ReachConsensus retry_commit)"
proof -
  have p: "retry_participants = [1, 1]" by code_simp
  have "\<not> fst (ReachConsensus retry_commit)"
    by (intro repeated_participants_never_agree) (simp_all add: retry_commit_def p)
  with p show ?thesis by simp
qed

section \<open>Late votes\<close>

definition demo_refusal :: cl_event where
  "demo_refusal = TMessage 1 (MPrepareReply \<lparr>pr_tid = 50001, pr_state = LOG_STATE_ABORT, pr_shard = 1,
     pr_timestamp = 0, pr_reachFaultTolerance = 0, pr_replica = 1\<rparr>)"

text \<open>A vote that comes after the decision leads to undefined behaviour: one shard refuses, the client
  aborts and begins the next transaction with a read from the other shard; when the vote of that
  shard for the first transaction arrives, \<^verbatim>\<open>PrepareCallback\<close> compares it with the transaction
  identifier of the promise of the read, which was never set. (The abort has been sent and reported.)\<close>

lemma late_vote_uninitialised:
  "cl_run [ABegin, APut ''x'' ''1'', APut ''y'' ''2'', ACommit demo_time demo_time, TRun 0 True, TRun 0 True, demo_refusal,
     AResume demo_time demo_time, ABegin, AGet ''y'', TRun 0 True, demo_ok 0] demo_client = Inl UninitRead"
  (is "?r = _")
proof -
  have "isl ?r" and "projl ?r = UninitRead" by code_simp+
  then show ?thesis by (metis sum.collapse(1))
qed

section \<open>Empty transactions\<close>

text \<open>Committing a transaction without reads and writes divides by zero in slow and RC mode.\<close>

lemma empty_commit_divides_by_zero:
  "cl_tpcMode c = MODE_SLOW \<or> cl_tpcMode c = MODE_RC \<Longrightarrow> cl_participants c = [] \<Longrightarrow> cl_Commit c t1 t2 = Inl DivByZero"
  by (auto simp: cl_Commit_def try_prepare_def cl_Prepare_def primary_shard_def)

end
