(* ===== verification/LRSlow.thy ===== *)
theory LRSlow
  imports LRCommit
begin

text \<open>
  The primary shard as coordinator of two-phase commit (slow and RC mode): how a transaction is
  divided among the shards, when the votes decide, and what the decision does at the primary shard.
  Also the answer a leader gives about a transaction the coordinator group has aborted.
\<close>

section \<open>Routing of keys\<close>

definition shard_of :: "int \<Rightarrow> string \<Rightarrow> nat" where
  "shard_of nshards key = unat (key_hash key) mod nat nshards"

lemma unat_word_of_int_small: "0 \<le> n \<Longrightarrow> n < 2 ^ 31 \<Longrightarrow> unat (word_of_int n :: u64) = nat n"
proof -
  assume "0 \<le> n" "n < 2 ^ 31"
  then have "n mod 2 ^ 64 = n" by (intro mod_pos_pos_trivial) auto
  then have "uint (word_of_int n :: u64) = n" by (simp only: uint_word_of_int) simp
  then show ?thesis by (metis nat_uint_eq)
qed

lemma int32_small:
  assumes "unat w < 2 ^ 31"
  shows "int32 w = int (unat w)"
proof -
  have "nat (uint w) < 2 ^ 31" using assms by (simp only: nat_uint_eq)
  then have u: "uint w < 2 ^ 31" by (subst (asm) nat_less_iff) simp_all
  have "uint (ucast w :: 32 word) = uint w"
    using u by (simp add: unsigned_ucast_eq take_bit_int_eq_self)
  moreover have "- (2 ^ 31) \<le> uint w" by (rule order_trans [of _ 0]) simp_all
  ultimately show ?thesis
    unfolding int32_def using u by (simp add: sint_uint signed_take_bit_int_eq_self)
qed

lemma key_to_shard_eq:
  assumes "0 < lr_nshards s" and "lr_nshards s < 2 ^ 31"
  shows "\<exists>h. key_to_shard s key = Inr h \<and> unat h = shard_of (lr_nshards s) key \<and>
    unat h < nat (lr_nshards s) \<and> word_of_int (int32 h) = h"
proof -
  let ?m = "word_of_int (lr_nshards s) :: u64"
  have m: "unat ?m = nat (lr_nshards s)" using assms by (simp add: unat_word_of_int_small)
  then have nz: "?m \<noteq> 0" using assms(1) by auto
  let ?h = "key_hash key mod ?m"
  have h: "unat ?h = shard_of (lr_nshards s) key" by (simp add: unat_mod m shard_of_def)
  have lt: "unat ?h < nat (lr_nshards s)" using assms(1) by (simp add: h shard_of_def)
  then have "unat ?h < 2 ^ 31" using assms by simp
  then have "word_of_int (int32 ?h) = ?h" by (simp add: int32_small)
  with nz h lt show ?thesis by (simp add: key_to_shard_def umod_def)
qed

section \<open>Dividing a transaction\<close>

definition piece :: "(u64 \<times> PrepareTransaction) list \<Rightarrow> u64 \<Rightarrow> PrepareTransaction" where
  "piece ms i = (case map_of ms i of None \<Rightarrow> PrepareTransaction_default | Some m \<Rightarrow> m)"

lemma piece_add: "piece (add_piece i g ms) j = (if j = i then g (piece ms i) else piece ms j)"
  by (simp add: piece_def add_piece_def)

lemma split_reads_pieces:
  assumes "0 < lr_nshards s" and "lr_nshards s < 2 ^ 31"
  shows "\<exists>ms'. split_reads s rs ms = Inr ms' \<and> (\<forall>i. piece ms' i =
    (piece ms i)\<lparr>pm_rset := pm_rset (piece ms i) @ filter (\<lambda>r. shard_of (lr_nshards s) (fst r) = unat i) rs\<rparr>)"
proof (induction rs arbitrary: ms)
  case Nil
  then show ?case by simp
next
  case (Cons r rs)
  obtain h where h: "key_to_shard s (fst r) = Inr h" "unat h = shard_of (lr_nshards s) (fst r)"
    "word_of_int (int32 h) = h"
    using key_to_shard_eq [OF assms] by blast
  let ?ms = "add_piece h (\<lambda>m. m\<lparr>pm_rset := pm_rset m @ [r]\<rparr>) ms"
  obtain ms' where "split_reads s rs ?ms = Inr ms'" "\<forall>i. piece ms' i =
    (piece ?ms i)\<lparr>pm_rset := pm_rset (piece ?ms i) @ filter (\<lambda>r. shard_of (lr_nshards s) (fst r) = unat i) rs\<rparr>"
    using Cons.IH by blast
  then show ?case using h by (auto simp: piece_add dest: word_unat_eq_iff [THEN iffD2])
qed

lemma split_writes_pieces:
  assumes "0 < lr_nshards s" and "lr_nshards s < 2 ^ 31"
  shows "\<exists>ms'. split_writes s ws ms = Inr ms' \<and> (\<forall>i. piece ms' i =
    (piece ms i)\<lparr>pm_wset := pm_wset (piece ms i) @
       map (\<lambda>w. (snd w, '''')) (filter (\<lambda>w. shard_of (lr_nshards s) (fst w) = unat i) ws)\<rparr>)"
proof (induction ws arbitrary: ms)
  case Nil
  then show ?case by simp
next
  case (Cons w ws)
  obtain h where h: "key_to_shard s (fst w) = Inr h" "unat h = shard_of (lr_nshards s) (fst w)"
    "word_of_int (int32 h) = h"
    using key_to_shard_eq [OF assms] by blast
  let ?ms = "add_piece h (\<lambda>m. m\<lparr>pm_wset := pm_wset m @ [(snd w, '''')]\<rparr>) ms"
  obtain ms' where "split_writes s ws ?ms = Inr ms'" "\<forall>i. piece ms' i =
    (piece ?ms i)\<lparr>pm_wset := pm_wset (piece ?ms i) @
       map (\<lambda>w. (snd w, '''')) (filter (\<lambda>w. shard_of (lr_nshards s) (fst w) = unat i) ws)\<rparr>"
    using Cons.IH by blast
  then show ?case using h by (auto simp: piece_add dest: word_unat_eq_iff [THEN iffD2])
qed

section \<open>Decisions\<close>

lemma check_replies_True:
  "fst (check_replies ps rs) \<longleftrightarrow> (\<forall>p \<in> set ps. map_of rs p = Some LOG_STATE_PREPAREOK)"
  by (induction ps) (auto split: option.split)

lemma applyToStore_undecided:
  "cm_state msg = LOG_STATE_PREPAREOK \<Longrightarrow> applyToStore s req msg = Inr (req', s') \<Longrightarrow>
   s' = s\<lparr>lr_activeTxns := touch (lr_activeTxns s) (cm_tid msg)\<rparr>"
  by (simp add: applyToStore_def Let_def)

lemma cascade_no_outs:
  assumes "CascadeAbort env s tid = Inr s'" and "lr_activeTxns s tid = Some (Some t)" and "txn_out t = []"
  shows "s' = abort_upcall s (Request_new ABORT tid)"
proof (cases "env_depth env")
  case (Suc d)
  with assms show ?thesis
    by (auto simp: CascadeAbort_def Let_def active_def deref_def abort_upcall_def split: if_splits)
qed (use assms(1) in \<open>simp add: CascadeAbort_def\<close>)

lemma undecided_commit_store:
  assumes "HandleCommit env s msg = Inr s'" and "lr_pendingTxns s (cm_tid msg) = Some req"
    and "pt_is_participant req" and "cm_state msg = LOG_STATE_PREPAREOK"
    and "lr_activeTxns s (cm_tid msg) = Some (Some t)" and "txn_out t = []"
  shows "srv_store (lr_store s') = store_Abort (srv_store (lr_store s)) (cm_tid msg) Transaction_default \<and>
    set (lr_sent s) \<subseteq> set (lr_sent s')"
proof -
  let ?tid = "cm_tid msg"
  obtain e req1 s1 req2 s2 s3 where st:
    "(if pt_send_confirms req then Inr (req, (raise_ts s (cm_timestamp msg))\<lparr>lr_log :=
         set_entry (lr_log (raise_ts s (cm_timestamp msg))) (pt_lsn req) (e\<lparr>le_ts := Some (cm_timestamp msg)\<rparr>)\<rparr>)
      else notifyCommitToReplica env ((raise_ts s (cm_timestamp msg))\<lparr>lr_log :=
         set_entry (lr_log (raise_ts s (cm_timestamp msg))) (pt_lsn req) (e\<lparr>le_ts := Some (cm_timestamp msg)\<rparr>)\<rparr>) req msg) = Inr (req1, s1)"
    "(if pt_reach_commit_decision req1 then Inr (req1, s1) else applyToStore s1 req1 msg) = Inr (req2, s2)"
    "CascadeAbort env (put_pending (s2\<lparr>lr_activeTxns := touch (lr_activeTxns s2) ?tid\<rparr>) ?tid req2) ?tid = Inr s3"
    "s' = erase_client ((erase_active (erase_pending s3 ?tid) ?tid)\<lparr>lr_committedTxns :=
        (lr_committedTxns s3)(?tid \<mapsto> (cm_state msg, cm_timestamp msg))\<rparr>) ?tid"
    by (rule HandleCommit_participant [OF assms(1-3)]) (use assms(4) in simp)
  have s1: "lr_store s1 = lr_store s \<and> lr_activeTxns s1 = lr_activeTxns s \<and> set (lr_sent s) \<subseteq> set (lr_sent s1)"
  proof (cases "pt_send_confirms req")
    case True
    then show ?thesis using st(1) by auto
  next
    case False
    then have n: "notifyCommitToReplica env ((raise_ts s (cm_timestamp msg))\<lparr>lr_log :=
       set_entry (lr_log (raise_ts s (cm_timestamp msg))) (pt_lsn req) (e\<lparr>le_ts := Some (cm_timestamp msg)\<rparr>)\<rparr>) req msg = Inr (req1, s1)"
      using st(1) by simp
    show ?thesis
      using notifyCommitToReplica_frame [OF n] notifyCommitToReplica_sent [OF n] by auto
  qed
  then have s2: "lr_store s2 = lr_store s \<and> lr_activeTxns s2 = lr_activeTxns s \<and> set (lr_sent s) \<subseteq> set (lr_sent s2)"
    using st(2) applyToStore_undecided [OF assms(4), of s1 req1 req2 s2] assms(5)
    by (auto simp: touch_def split: if_splits)
  have "s3 = abort_upcall (put_pending (s2\<lparr>lr_activeTxns := touch (lr_activeTxns s2) ?tid\<rparr>) ?tid req2) (Request_new ABORT ?tid)"
    by (rule cascade_no_outs [OF st(3) _ assms(6)]) (use s2 assms(5) in \<open>simp add: put_pending_def touch_def\<close>)
  then show ?thesis
    using s2 st(4) store_Abort_txn [of "srv_store (lr_store s)" ?tid]
    by (simp add: lr_map_defs AbortUpcall_def Request_new_def)
qed

lemma final_decision_slow:
  assumes "final_decision env s req = Inr s'" and "lr_tpcMode s = MODE_SLOW" and "pp_finalDecision req = Some dec"
  obtains a s1 where "HandleCommit env (put_prepare (s\<lparr>lr_sent := lr_sent s @ [(DAddr a, SPrepareTransactionReply
      ((prepare_reply s (pp_tid req) dec (pp_timestamp req))\<lparr>pr_replica := lr_replica_id s\<rparr>))]\<rparr>) (pp_tid req) req)
      \<lparr>cm_tid = pp_tid req, cm_state = dec, cm_timestamp = pp_timestamp req\<rparr> = Inr s1"
    "s' = s1\<lparr>lr_pendingPrepares := (lr_pendingPrepares s1)(pp_tid req := None)\<rparr>"
  using assms by (auto simp: final_decision_def bindr_eq_Inr Let_def put_prepare_def)

section \<open>Properties\<close>

text \<open>The primary shard decides to commit exactly when it has as many replies as participants
  and every participant has replied \<^verbatim>\<open>PREPAREOK\<close>.\<close>

lemma slow_decision_unanimous:
  "fst (ReachFinalDecision req) \<longleftrightarrow> length (pp_participants req) \<le> length (pp_participant_replies req) \<and>
     list_all (\<lambda>p. map_of (pp_participant_replies req) p = Some LOG_STATE_PREPAREOK) (pp_participants req)"
  using check_replies_True [of "pp_participants req" "pp_participant_replies req"]
  by (auto simp: ReachFinalDecision_def list_all_iff split: prod.split)

text \<open>The shard of a key is below the number of shards, so it can be used as an index.\<close>

lemma key_to_shard_bound:
  assumes "0 < lr_nshards s" and "lr_nshards s < 2 ^ 31"
  shows "\<exists>h. key_to_shard s key = Inr h \<and> unat h < nat (lr_nshards s)"
  using key_to_shard_eq [OF assms] by blast

text \<open>How \<^verbatim>\<open>SendPrepare\<close> divides a transaction: the message of shard \<open>i\<close> gets, in order, the
  reads whose key hashes to \<open>i\<close>, with the timestamps read, and an entry for each write whose key
  hashes to \<open>i\<close>; but that entry has the written value in the place of the key, and no value.\<close>

lemma prepare_pieces:
  assumes "0 < lr_nshards s" and "lr_nshards s < 2 ^ 31"
  shows "\<exists>ms1 ms2. split_writes s ws ms = Inr ms1 \<and> split_reads s rs ms1 = Inr ms2 \<and>
    (\<forall>i. pm_rset (piece ms2 i) = pm_rset (piece ms i) @ filter (\<lambda>r. shard_of (lr_nshards s) (fst r) = unat i) rs \<and>
         pm_wset (piece ms2 i) = pm_wset (piece ms i) @
           map (\<lambda>w. (snd w, '''')) (filter (\<lambda>w. shard_of (lr_nshards s) (fst w) = unat i) ws))"
proof -
  obtain ms1 where ms1: "split_writes s ws ms = Inr ms1" "\<forall>i. piece ms1 i = (piece ms i)\<lparr>pm_wset := pm_wset (piece ms i) @
       map (\<lambda>w. (snd w, '''')) (filter (\<lambda>w. shard_of (lr_nshards s) (fst w) = unat i) ws)\<rparr>"
    using split_writes_pieces [OF assms] by blast
  obtain ms2 where "split_reads s rs ms1 = Inr ms2" "\<forall>i. piece ms2 i =
    (piece ms1 i)\<lparr>pm_rset := pm_rset (piece ms1 i) @ filter (\<lambda>r. shard_of (lr_nshards s) (fst r) = unat i) rs\<rparr>"
    using split_reads_pieces [OF assms] by blast
  with ms1 show ?thesis by simp
qed

text \<open>C36. In slow mode the primary shard applies a unanimous decision to commit as an abort: it tells
  the client \<^verbatim>\<open>PREPAREOK\<close>, then handles a commit message that carries the same state, which
  neither commits nor aborts in \<^verbatim>\<open>applyToStore\<close> and leads to \<^verbatim>\<open>CascadeAbort\<close>; its own part
  of the transaction is discarded.\<close>

theorem slow_commit_discarded:
  assumes "final_decision env s req = Inr s'" and "lr_tpcMode s = MODE_SLOW"
    and "pp_finalDecision req = Some LOG_STATE_PREPAREOK"
    and "lr_pendingTxns s (pp_tid req) = Some preq" and "pt_is_participant preq"
    and "lr_activeTxns s (pp_tid req) = Some (Some t)" and "txn_out t = []"
  shows "(\<exists>a r. (DAddr a, SPrepareTransactionReply r) \<in> set (lr_sent s') \<and> pr_tid r = pp_tid req \<and>
      pr_state r = LOG_STATE_PREPAREOK) \<and>
    srv_store (lr_store s') = store_Abort (srv_store (lr_store s)) (pp_tid req) Transaction_default"
proof -
  let ?m = "\<lparr>cm_tid = pp_tid req, cm_state = LOG_STATE_PREPAREOK, cm_timestamp = pp_timestamp req\<rparr>"
  let ?r = "(prepare_reply s (pp_tid req) LOG_STATE_PREPAREOK (pp_timestamp req))\<lparr>pr_replica := lr_replica_id s\<rparr>"
  obtain a s1 where s1: "HandleCommit env (put_prepare (s\<lparr>lr_sent := lr_sent s @ [(DAddr a, SPrepareTransactionReply ?r)]\<rparr>)
      (pp_tid req) req) ?m = Inr s1"
    "s' = s1\<lparr>lr_pendingPrepares := (lr_pendingPrepares s1)(pp_tid req := None)\<rparr>"
    by (rule final_decision_slow [OF assms(1-3)])
  have "srv_store (lr_store s1) = store_Abort (srv_store (lr_store s)) (pp_tid req) Transaction_default \<and>
      (DAddr a, SPrepareTransactionReply ?r) \<in> set (lr_sent s1)"
    using undecided_commit_store [OF s1(1), of preq t] assms(4-7) by (auto simp: put_prepare_def)
  moreover have "pr_tid ?r = pp_tid req" "pr_state ?r = LOG_STATE_PREPAREOK" by (simp_all add: prepare_reply_def)
  ultimately show ?thesis unfolding s1(2) by fastforce
qed

definition slow_primary :: LRReplica where
  "slow_primary = (demo_leader MODE_SLOW)\<lparr>lr_prepareClientList := [9 \<mapsto> Some 44]\<rparr>"

definition slow_decided :: PendingPrepare where
  "slow_decided = (PendingPrepare_new (Some (CB_ResendPrepare, False)) [0] 9 demo_x)
     \<lparr>pp_timestamp := 7, pp_participant_replies := [(0, LOG_STATE_PREPAREOK)],
      pp_finalDecision := Some LOG_STATE_PREPAREOK\<rparr>"

theorem slow_commit_discarded_witness:
  "\<exists>s'. final_decision demo_env slow_primary slow_decided = Inr s' \<and>
     srv_store (lr_store s') = store_Abort (srv_store (lr_store slow_primary)) 9 Transaction_default"
proof -
  let ?s = slow_primary and ?req = "the (lr_pendingTxns slow_primary 9)"
  let ?t = "the (the (lr_activeTxns slow_primary 9))"
  have r: "final_decision demo_env ?s slow_decided = Inr (run_or ?s (final_decision demo_env ?s slow_decided))"
    by (rule run_or_Inr) code_simp
  have h: "lr_tpcMode ?s = MODE_SLOW" "pp_finalDecision slow_decided = Some LOG_STATE_PREPAREOK"
    "lr_pendingTxns ?s (pp_tid slow_decided) = Some ?req" "pt_is_participant ?req"
    "lr_activeTxns ?s (pp_tid slow_decided) = Some (Some ?t)" "txn_out ?t = []" "pp_tid slow_decided = 9"
    by code_simp+
  from slow_commit_discarded [OF r h(1-6)] r h(7) show ?thesis by auto
qed

text \<open>A transaction the coordinator group has aborted is remembered as committed: after a handled
  \<^verbatim>\<open>NotifyDecision\<close> with \<^verbatim>\<open>ABORT\<close> for a pending transaction, the leader answers a repeated
  prepare request of that transaction with \<^verbatim>\<open>COMMIT\<close>.\<close>

lemma aborted_answered_as_commit:
  assumes "lr_HandleMessage env s a (LNotifyDecision tid CR_ABORT ts) = Inr s1"
    and "lr_pendingTxns s tid \<noteq> None" and "lr_tpcMode s1 = MODE_PARALLEL"
    and "pm_tid m = tid" and "pm_mode m = CM_PARALLEL" and "lr_inDependency s1 tid \<noteq> Some (- 1)"
  shows "\<exists>s2 r. lr_HandleMessage env s1 client (LPrepareTransaction m) = Inr s2 \<and>
    lr_sent s2 = lr_sent s1 @ [(DAddr client, SPrepareTransactionReply r)] \<and> pr_tid r = tid \<and>
    pr_state r = LOG_STATE_COMMIT \<and> lr_store s2 = lr_store s1"
proof -
  have "lr_committedTxns s1 tid = Some (LOG_STATE_COMMIT, ts)"
    using assms(1,2) by (auto simp: HandleDecisionFromCoordinatorReplica_def bindr_eq_Inr split: if_splits)
  then show ?thesis
    using assms(3-6)
    by (simp add: HandlePrepareTxn_def Let_def answer_again_def lr_send_def prepare_reply_def)
qed

end
