(* ===== verification/VRLog.thy ===== *)
theory VRLog
  imports QuorumSets
begin

text \<open>
  src/replication/common/viewstamp.h, log.h, log.cc and log-impl.h: viewstamps and the log of a
  viewstamped-replication replica.

  \<^item> An entry has the members that the protocol uses; \<^verbatim>\<open>prevClientReqOpnum\<close> and
    \<^verbatim>\<open>replyMessage\<close> belong to protocols that are not in the repository. No code reads
    \<^verbatim>\<open>prevClientReqOpnum\<close>; the copy constructor copies it, unset, with the entry, and that copy is
    left out. The message form of an entry has the same members.
  \<^item> SHA-1 is a library function: the hash of an entry is a parameter, which a log without hashes does
    not use (\<open>vl_Append_nohash\<close>).
  \<^item> \<^verbatim>\<open>Append\<close> returns a reference to the entry it finds under the new operation number; when there
    is none, a null pointer is dereferenced. \<^verbatim>\<open>RemoveAfter\<close> shortens the vector; a request to
    lengthen it, possible only if the operation numbers have gaps, is the error \<open>VLength\<close>.
  \<^item> Loops over operation numbers run over the numbers as naturals; they differ from the code only at
    the last operation number \<open>2 ^ 64 - 1\<close>, after which the loops of the code do not end.
\<close>

datatype vr_err = VPanic | VLength | VUB ub

definition lift_ub :: "ub + 'a \<Rightarrow> vr_err + 'a" where
  "lift_ub = map_sum VUB id"

lemma lift_ub_simps [simp]: "lift_ub (Inl e) = Inl (VUB e)" "lift_ub (Inr a) = Inr a"
  by (simp_all add: lift_ub_def)

section \<open>Viewstamps\<close>

datatype viewstamp = Viewstamp (vs_view: u64) (vs_opnum: u64)

definition Viewstamp_Compare :: "viewstamp \<Rightarrow> viewstamp \<Rightarrow> int" where
  "Viewstamp_Compare a b =
     (if vs_view a < vs_view b then - 1 else if vs_view a > vs_view b then 1
      else if vs_opnum a < vs_opnum b then - 1 else if vs_opnum a > vs_opnum b then 1 else 0)"

instantiation viewstamp :: linorder
begin

definition less_viewstamp :: "viewstamp \<Rightarrow> viewstamp \<Rightarrow> bool" where
  "less_viewstamp a b \<longleftrightarrow> Viewstamp_Compare a b < 0"

definition less_eq_viewstamp :: "viewstamp \<Rightarrow> viewstamp \<Rightarrow> bool" where
  "less_eq_viewstamp a b \<longleftrightarrow> \<not> Viewstamp_Compare b a < 0"

instance
  by standard (auto simp: less_viewstamp_def less_eq_viewstamp_def Viewstamp_Compare_def
      intro: viewstamp.expand split: if_splits)

end

section \<open>The log\<close>

datatype VLogState = LOG_STATE_COMMITTED | LOG_STATE_PREPARED | LOG_STATE_SPECULATIVE | LOG_STATE_FASTPREPARED

record VRequest =
  vq_op :: string
  vq_clientid :: u64
  vq_clientreqid :: u64

record VLogEntry =
  ve_viewstamp :: viewstamp
  ve_state :: VLogState
  ve_request :: VRequest
  ve_hash :: string

abbreviation ve_view :: "VLogEntry \<Rightarrow> u64" where
  "ve_view e \<equiv> vs_view (ve_viewstamp e)"

abbreviation ve_opnum :: "VLogEntry \<Rightarrow> u64" where
  "ve_opnum e \<equiv> vs_opnum (ve_viewstamp e)"

record VLog =
  vl_entries :: "VLogEntry list"
  vl_initialHash :: string
  vl_start :: u64
  vl_useHash :: bool

definition VLog_new :: "bool \<Rightarrow> u64 \<Rightarrow> string \<Rightarrow> VLog" where
  "VLog_new useHash start initialHash =
     \<lparr>vl_entries = [], vl_initialHash = initialHash, vl_start = start, vl_useHash = useHash\<rparr>"

definition vl_LastOpnum :: "VLog \<Rightarrow> u64" where
  "vl_LastOpnum l = (if vl_entries l = [] then vl_start l - 1 else ve_opnum (last (vl_entries l)))"

definition vl_LastViewstamp :: "VLog \<Rightarrow> viewstamp" where
  "vl_LastViewstamp l =
     (if vl_entries l = [] then Viewstamp 0 (vl_start l - 1) else ve_viewstamp (last (vl_entries l)))"

definition vl_FirstOpnum :: "VLog \<Rightarrow> u64" where
  "vl_FirstOpnum l = vl_start l"

definition vl_Empty :: "VLog \<Rightarrow> bool" where
  "vl_Empty l \<longleftrightarrow> vl_entries l = []"

definition vl_Last :: "VLog \<Rightarrow> VLogEntry option" where
  "vl_Last l = (if vl_entries l = [] then None else Some (last (vl_entries l)))"

definition vl_LastHash :: "VLog \<Rightarrow> string" where
  "vl_LastHash l = (if vl_entries l = [] then vl_initialHash l else ve_hash (last (vl_entries l)))"

definition vl_index :: "VLog \<Rightarrow> u64 \<Rightarrow> nat option" where
  "vl_index l opnum =
     (if vl_entries l = [] then None
      else if opnum < vl_start l then None
      else if unat (opnum - vl_start l) > length (vl_entries l) - 1 then None
      else Some (unat (opnum - vl_start l)))"

definition vl_Find :: "VLog \<Rightarrow> u64 \<Rightarrow> VLogEntry option" where
  "vl_Find l opnum = map_option ((!) (vl_entries l)) (vl_index l opnum)"

definition vl_Append :: "(string \<Rightarrow> VLogEntry \<Rightarrow> string) \<Rightarrow> VLog \<Rightarrow> viewstamp \<Rightarrow> VRequest \<Rightarrow> VLogState \<Rightarrow> vr_err + VLog" where
  "vl_Append sha l vs req st =
     (let entry = \<lparr>ve_viewstamp = vs, ve_state = st, ve_request = req, ve_hash = []\<rparr>;
          entry = (if vl_useHash l then entry\<lparr>ve_hash := sha (vl_LastHash l) entry\<rparr> else entry);
          l = l\<lparr>vl_entries := vl_entries l @ [entry]\<rparr>
      in if vl_Find l (vs_opnum vs) = None then Inl (VUB NullDeref) else Inr l)"

definition vl_SetStatus :: "VLog \<Rightarrow> u64 \<Rightarrow> VLogState \<Rightarrow> bool \<times> VLog" where
  "vl_SetStatus l opnum st =
     (case vl_index l opnum of
        None \<Rightarrow> (False, l)
      | Some i \<Rightarrow> (True, l\<lparr>vl_entries := (vl_entries l)[i := (vl_entries l ! i)\<lparr>ve_state := st\<rparr>]\<rparr>))"

definition vl_SetRequest :: "VLog \<Rightarrow> u64 \<Rightarrow> VRequest \<Rightarrow> vr_err + bool \<times> VLog" where
  "vl_SetRequest l opnum req =
     (if vl_useHash l then Inl VPanic
      else Inr (case vl_index l opnum of
        None \<Rightarrow> (False, l)
      | Some i \<Rightarrow> (True, l\<lparr>vl_entries := (vl_entries l)[i := (vl_entries l ! i)\<lparr>ve_request := req\<rparr>]\<rparr>)))"

definition vl_RemoveAfter :: "VLog \<Rightarrow> u64 \<Rightarrow> vr_err + VLog" where
  "vl_RemoveAfter l opnum =
     (if opnum > vl_LastOpnum l then Inr l
      else if unat (opnum - vl_start l) > length (vl_entries l) then Inl VLength
      else Inr (l\<lparr>vl_entries := take (unat (opnum - vl_start l)) (vl_entries l)\<rparr>))"

primrec dump_entries :: "VLog \<Rightarrow> nat list \<Rightarrow> vr_err + VLogEntry list" where
  "dump_entries l [] = Inr []"
| "dump_entries l (i # is) =
     (case vl_Find l (of_nat i) of
        None \<Rightarrow> Inl (VUB NullDeref)
      | Some e \<Rightarrow> bindr (dump_entries l is) (\<lambda>es. Inr (e # es)))"

definition vl_Dump :: "VLog \<Rightarrow> u64 \<Rightarrow> vr_err + VLogEntry list" where
  "vl_Dump l from = dump_entries l [unat (max from (vl_start l))..<Suc (unat (vl_LastOpnum l))]"

text \<open>The first divergence, where the log is cut off, and the entries from there on.\<close>

fun first_divergence :: "VLog \<Rightarrow> VLogEntry list \<Rightarrow> vr_err + VLog \<times> VLogEntry list" where
  "first_divergence l [] = Inr (l, [])"
| "first_divergence l (e # es) =
     (case vl_Find l (ve_opnum e) of
        None \<Rightarrow> Inr (l, e # es)
      | Some oldEntry \<Rightarrow>
          if ve_view e \<noteq> ve_view oldEntry
          then bindr (vl_RemoveAfter l (ve_opnum e)) (\<lambda>l. Inr (l, e # es))
          else first_divergence l es)"

primrec install_entries :: "(string \<Rightarrow> VLogEntry \<Rightarrow> string) \<Rightarrow> VLog \<Rightarrow> VLogEntry list \<Rightarrow> vr_err + VLog" where
  "install_entries sha l [] = Inr l"
| "install_entries sha l (e # es) =
     bindr (vl_Append sha l (Viewstamp (ve_view e) (ve_opnum e)) (ve_request e) LOG_STATE_PREPARED)
       (\<lambda>l. install_entries sha l es)"

definition vl_Install :: "(string \<Rightarrow> VLogEntry \<Rightarrow> string) \<Rightarrow> VLog \<Rightarrow> VLogEntry list \<Rightarrow> vr_err + VLog" where
  "vl_Install sha l es = bindr (first_divergence l es) (\<lambda>(l, es). install_entries sha l es)"

lemma vl_Append_nohash: "\<not> vl_useHash l \<Longrightarrow> vl_Append sha l = vl_Append sha' l"
  by (simp add: vl_Append_def fun_eq_iff)

section \<open>Well-formed logs\<close>

text \<open>
  A log without gaps: the first entry has operation number 1, the next ones the numbers that follow.
  Its contents are the viewstamps and requests; the state of an entry is local to a replica.
\<close>

definition vl_wf :: "VLog \<Rightarrow> bool" where
  "vl_wf l \<longleftrightarrow> vl_start l = 1 \<and> \<not> vl_useHash l \<and> length (vl_entries l) < 2 ^ 64 - 1 \<and>
     (\<forall>i < length (vl_entries l). ve_opnum (vl_entries l ! i) = of_nat (Suc i))"

definition contents :: "VLog \<Rightarrow> (u64 \<times> VRequest) list" where
  "contents l = map (\<lambda>e. (ve_view e, ve_request e)) (vl_entries l)"

lemma length_contents [simp]: "length (contents l) = length (vl_entries l)"
  by (simp add: contents_def)

lemma unat_of_nat_u64: "i < 2 ^ 64 \<Longrightarrow> unat (of_nat i :: u64) = i"
  by (simp add: unsigned_of_nat take_bit_nat_eq_self)

lemma vl_wf_new [simp]: "vl_wf (VLog_new False 1 h)"
  by (simp add: vl_wf_def VLog_new_def)

lemma contents_new [simp]: "contents (VLog_new b st h) = []"
  by (simp add: contents_def VLog_new_def)

lemma vl_LastOpnum_wf:
  assumes "vl_wf l" shows "vl_LastOpnum l = of_nat (length (vl_entries l))"
proof (cases "vl_entries l = []")
  case False
  then have "ve_opnum (last (vl_entries l)) = of_nat (Suc (length (vl_entries l) - 1))"
    using assms by (simp add: vl_wf_def last_conv_nth del: of_nat_Suc)
  with False show ?thesis by (simp add: vl_LastOpnum_def del: of_nat_Suc)
qed (use assms in \<open>simp add: vl_LastOpnum_def vl_wf_def\<close>)

lemma unat_LastOpnum: "vl_wf l \<Longrightarrow> unat (vl_LastOpnum l) = length (vl_entries l)"
  by (simp add: vl_LastOpnum_wf vl_wf_def unat_of_nat_u64)

lemma vl_index_wf:
  assumes "vl_wf l"
  shows "vl_index l opnum = (if 0 < opnum \<and> unat opnum \<le> length (vl_entries l) then Some (unat opnum - 1) else None)"
proof -
  have "unat (opnum - 1) = unat opnum - 1" if "0 < opnum"
    using that by (simp add: unat_minus_one word_neq_0_conv)
  moreover have "opnum < 1 \<longleftrightarrow> \<not> 0 < opnum" by (simp add: word_less_nat_alt)
  moreover have "0 < opnum \<longleftrightarrow> 0 < unat opnum" by (simp add: word_less_nat_alt)
  ultimately show ?thesis
    using assms by (cases "vl_entries l") (auto simp: vl_index_def vl_wf_def)
qed

lemma vl_Find_wf:
  "vl_wf l \<Longrightarrow> vl_Find l opnum =
     (if 0 < opnum \<and> unat opnum \<le> length (vl_entries l) then Some (vl_entries l ! (unat opnum - 1)) else None)"
  by (simp add: vl_Find_def vl_index_wf)

lemma vl_Append_wf:
  assumes "vl_wf l" and "Suc (length (vl_entries l)) < 2 ^ 64 - 1" and "vs_opnum vs = of_nat (Suc (length (vl_entries l)))"
  obtains l' where "vl_Append sha l vs req st = Inr l'" and "vl_wf l'" and "contents l' = contents l @ [(vs_view vs, req)]"
    and "vl_entries l' = vl_entries l @ [\<lparr>ve_viewstamp = vs, ve_state = st, ve_request = req, ve_hash = []\<rparr>]"
proof -
  let ?e = "\<lparr>ve_viewstamp = vs, ve_state = st, ve_request = req, ve_hash = []\<rparr>"
  let ?l = "l\<lparr>vl_entries := vl_entries l @ [?e]\<rparr>"
  have wf: "vl_wf ?l"
    using assms by (auto simp: vl_wf_def nth_append less_Suc_eq simp del: of_nat_Suc)
  moreover have "vl_Find ?l (vs_opnum vs) \<noteq> None"
    using assms(2,3) by (simp add: vl_Find_wf [OF wf] unat_of_nat_u64 word_less_nat_alt del: of_nat_Suc)
  then have "vl_Append sha l vs req st = Inr ?l"
    using assms(1) by (simp add: vl_Append_def vl_wf_def Let_def)
  ultimately show thesis using that [of ?l] by (simp add: contents_def)
qed

lemma map_update_same: "f y = f (xs ! i) \<Longrightarrow> map f (xs[i := y]) = map f xs"
  by (cases "i < length xs") (simp_all add: map_update list_update_same_conv list_update_beyond)

lemma vl_SetStatus_wf:
  assumes "vl_wf l"
  shows "vl_wf (snd (vl_SetStatus l opnum st))" and "contents (snd (vl_SetStatus l opnum st)) = contents l"
    and "length (vl_entries (snd (vl_SetStatus l opnum st))) = length (vl_entries l)"
proof -
  have "ve_opnum (es[i := (es ! i)\<lparr>ve_state := st\<rparr>] ! j) = ve_opnum (es ! j)" if "j < length es" for es i j
    using that by (cases "i = j") auto
  then show "vl_wf (snd (vl_SetStatus l opnum st))"
    using assms by (simp add: vl_SetStatus_def vl_wf_def split: option.split)
qed (simp_all add: vl_SetStatus_def contents_def map_update_same split: option.split)

lemma vl_RemoveAfter_wf:
  assumes "vl_wf l" and "0 < opnum"
  obtains l' where "vl_RemoveAfter l opnum = Inr l'" and "vl_wf l'" and "contents l' = take (unat opnum - 1) (contents l)"
    and "vl_entries l' = take (unat opnum - 1) (vl_entries l)"
proof -
  have k: "unat (opnum - vl_start l) = unat opnum - 1"
    using assms by (simp add: vl_wf_def unat_minus_one word_neq_0_conv)
  show thesis
  proof (cases "opnum > vl_LastOpnum l")
    case True
    then have "length (vl_entries l) \<le> unat opnum - 1"
      using unat_LastOpnum [OF assms(1)] by (simp add: word_less_nat_alt)
    with True show thesis using that [of l] assms(1) by (simp add: vl_RemoveAfter_def)
  next
    case False
    then have "unat opnum - 1 \<le> length (vl_entries l)"
      using unat_LastOpnum [OF assms(1)] by (simp add: word_less_nat_alt)
    then show thesis
      using that [of "l\<lparr>vl_entries := take (unat opnum - 1) (vl_entries l)\<rparr>"] assms(1) False
      by (simp add: vl_RemoveAfter_def k vl_wf_def contents_def take_map)
  qed
qed

lemma dump_entries_wf:
  assumes "vl_wf l" and "\<forall>i \<in> set is. 0 < i \<and> i \<le> length (vl_entries l)"
  shows "dump_entries l is = Inr (map (\<lambda>i. vl_entries l ! (i - 1)) is)"
  using assms(2)
proof (induction "is")
  case (Cons i "is")
  moreover from Cons.prems have "i < 2 ^ 64" using assms(1) by (auto simp: vl_wf_def)
  ultimately show ?case
    by (simp add: vl_Find_wf [OF assms(1)] word_less_nat_alt unat_of_nat_u64)
qed simp

lemma vl_Dump_wf:
  assumes "vl_wf l"
  shows "vl_Dump l from = Inr (drop (unat (max from 1) - 1) (vl_entries l))"
proof -
  let ?a = "unat (max from 1)" and ?n = "length (vl_entries l)"
  have a: "0 < ?a" by (simp add: max_def word_le_nat_alt)
  have "vl_Dump l from = dump_entries l [?a..<Suc ?n]"
    using assms by (simp add: vl_Dump_def unat_LastOpnum vl_wf_def)
  also have "\<dots> = Inr (map (\<lambda>i. vl_entries l ! (i - 1)) [?a..<Suc ?n])"
    using a by (intro dump_entries_wf [OF assms]) auto
  also have "map (\<lambda>i. vl_entries l ! (i - 1)) [?a..<Suc ?n] = drop (?a - 1) (vl_entries l)"
    using a by (intro nth_equalityI) (auto simp del: upt_Suc)
  finally show ?thesis .
qed

section \<open>Installing the log of another replica\<close>

text \<open>Equal views at a position mean equal logs up to it.\<close>

definition log_matching :: "VLog \<Rightarrow> VLog \<Rightarrow> bool" where
  "log_matching l m \<longleftrightarrow> (\<forall>i < min (length (vl_entries l)) (length (vl_entries m)).
     fst (contents l ! i) = fst (contents m ! i) \<longrightarrow> take (Suc i) (contents l) = take (Suc i) (contents m))"

lemma contents_nth [simp]:
  "i < length (vl_entries l) \<Longrightarrow> contents l ! i = (ve_view (vl_entries l ! i), ve_request (vl_entries l ! i))"
  by (simp add: contents_def)

lemma install_entries_rest:
  assumes "vl_wf l" and "vl_wf m" and "contents l = take (length (vl_entries l)) (contents m)"
  obtains l' where "install_entries sha l (drop (length (vl_entries l)) (vl_entries m)) = Inr l'" and "vl_wf l'"
    and "contents l' = contents m"
  using assms
proof (induction "length (vl_entries m) - length (vl_entries l)" arbitrary: l thesis)
  case 0
  then show ?case by simp
next
  case (Suc k)
  let ?n = "length (vl_entries l)"
  let ?e = "vl_entries m ! ?n"
  have n: "?n < length (vl_entries m)" using Suc.hyps(2) by simp
  have op: "ve_opnum ?e = of_nat (Suc ?n)" and len: "Suc ?n < 2 ^ 64 - 1"
    using Suc.prems(3) n by (auto simp: vl_wf_def simp del: of_nat_Suc)
  obtain l1 where l1: "vl_Append sha l (Viewstamp (ve_view ?e) (ve_opnum ?e)) (ve_request ?e) LOG_STATE_PREPARED = Inr l1"
    "vl_wf l1" "contents l1 = contents l @ [(ve_view ?e, ve_request ?e)]"
    by (rule vl_Append_wf [OF Suc.prems(2) len, of "Viewstamp (ve_view ?e) (ve_opnum ?e)" sha "ve_request ?e"])
      (use op in auto)
  have len1: "length (vl_entries l1) = Suc ?n"
    using l1(3) by (metis length_append_singleton length_contents)
  have "take (Suc ?n) (contents m) = take ?n (contents m) @ [contents m ! ?n]"
    using n by (intro take_Suc_conv_app_nth) simp
  then have c1: "contents l1 = take (length (vl_entries l1)) (contents m)"
    using l1(3) Suc.prems(4) n len1 by simp
  have "k = length (vl_entries m) - length (vl_entries l1)" using Suc.hyps(2) len1 by simp
  from Suc.hyps(1) [OF this _ l1(2) Suc.prems(3) c1] obtain l' where
    "install_entries sha l1 (drop (Suc ?n) (vl_entries m)) = Inr l'" "vl_wf l'" "contents l' = contents m"
    using len1 by metis
  moreover have "drop ?n (vl_entries m) = ?e # drop (Suc ?n) (vl_entries m)"
    using n by (simp add: Cons_nth_drop_Suc)
  ultimately show ?case using Suc.prems(1) l1(1) by simp
qed

lemma take_length_le: "j \<le> length (vl_entries l) \<Longrightarrow> take j (contents l) = take j (contents m) \<Longrightarrow>
    length (vl_entries l) \<le> j \<Longrightarrow> contents l = take (length (vl_entries l)) (contents m)"
  by (metis length_contents order_antisym take_all_iff)

lemma first_divergence_rest:
  assumes "vl_wf l" and "vl_wf m" and "log_matching l m" and "length (vl_entries l) \<le> length (vl_entries m)"
    and "j \<le> length (vl_entries l)" and "take j (contents l) = take j (contents m)"
  obtains l' where "first_divergence l (drop j (vl_entries m)) = Inr (l', drop (length (vl_entries l')) (vl_entries m))"
    and "vl_wf l'" and "contents l' = take (length (vl_entries l')) (contents m)"
  using assms(5,6)
proof (induction "length (vl_entries m) - j" arbitrary: j thesis)
  case 0
  then have "length (vl_entries m) = length (vl_entries l)" "j = length (vl_entries l)" using assms(4) by simp_all
  with 0 show ?case using assms(1) by simp
next
  case (Suc k)
  let ?e = "vl_entries m ! j"
  have j: "j < length (vl_entries m)" using Suc.hyps(2) by simp
  then have es: "drop j (vl_entries m) = ?e # drop (Suc j) (vl_entries m)" by (simp add: Cons_nth_drop_Suc)
  have op: "ve_opnum ?e = of_nat (Suc j)" and u: "unat (ve_opnum ?e) = Suc j" and pos: "0 < ve_opnum ?e"
    using assms(2) j unat_of_nat_u64 [of "Suc j"] by (auto simp: vl_wf_def word_less_nat_alt simp del: of_nat_Suc)
  show ?case
  proof (cases "j = length (vl_entries l)")
    case True
    then have "vl_Find l (ve_opnum ?e) = None" using u by (simp add: vl_Find_wf [OF assms(1)])
    with True show ?thesis using Suc.prems es assms(1) by (intro Suc.prems(1) [of l]) (simp_all add: take_length_le)
  next
    case False
    then have jl: "j < length (vl_entries l)" using Suc.prems by simp
    then have find: "vl_Find l (ve_opnum ?e) = Some (vl_entries l ! j)"
      using u pos by (simp add: vl_Find_wf [OF assms(1)])
    show ?thesis
    proof (cases "ve_view ?e = ve_view (vl_entries l ! j)")
      case True
      then have "take (Suc j) (contents l) = take (Suc j) (contents m)"
        using assms(3) jl j by (simp add: log_matching_def)
      moreover have "k = length (vl_entries m) - Suc j" using Suc.hyps(2) by simp
      ultimately obtain l' where "first_divergence l (drop (Suc j) (vl_entries m)) = Inr (l', drop (length (vl_entries l')) (vl_entries m))"
        "vl_wf l'" "contents l' = take (length (vl_entries l')) (contents m)"
        using Suc.hyps(1) [of "Suc j"] jl by (metis Suc_leI)
      then show ?thesis using Suc.prems(1) es find True by simp
    next
      case False
      obtain l' where l': "vl_RemoveAfter l (ve_opnum ?e) = Inr l'" "vl_wf l'" "contents l' = take j (contents l)"
        using vl_RemoveAfter_wf [OF assms(1) pos] u by (metis diff_Suc_1)
      have "length (vl_entries l') = j" using l'(3) jl by (metis length_contents length_take min.absorb4 nat_less_le min.commute)
      with l' show ?thesis using Suc.prems es find False by simp
    qed
  qed
qed

section \<open>Properties\<close>

text \<open>C22. A view change transfers a log exactly: if the logs of two replicas agree below the position where
  the transferred part starts and equal views mean equal prefixes, then cutting the log of the
  receiver to the length of the sender's and installing the dump of the sender's log from that
  position gives the sender's log, entry by entry (viewstamps and requests), and never fails.\<close>

theorem log_install_exact:
  assumes "vl_wf l" and "vl_wf m" and "log_matching l m" and "unat (max from 1) \<le> Suc (length (vl_entries l))"
    and "unat (max from 1) \<le> Suc (length (vl_entries m))"
    and "take (unat (max from 1) - 1) (contents l) = take (unat (max from 1) - 1) (contents m)"
  shows "\<exists>es l1 l2. vl_Dump m from = Inr es \<and> vl_RemoveAfter l (vl_LastOpnum m + 1) = Inr l1 \<and>
    vl_Install sha l1 es = Inr l2 \<and> vl_wf l2 \<and> contents l2 = contents m"
proof -
  let ?j = "unat (max from 1) - 1" and ?n = "length (vl_entries m)"
  have n: "Suc ?n < 2 ^ 64" using assms(2) by (simp add: vl_wf_def)
  have last: "vl_LastOpnum m + 1 = of_nat (Suc ?n)" by (simp add: vl_LastOpnum_wf [OF assms(2)])
  have pos: "0 < vl_LastOpnum m + 1" and cut: "unat (vl_LastOpnum m + 1) - 1 = ?n"
    unfolding last using n by (simp_all add: word_less_nat_alt unat_of_nat_u64 del: of_nat_Suc)
  obtain l1 where l1: "vl_RemoveAfter l (vl_LastOpnum m + 1) = Inr l1" "vl_wf l1" "contents l1 = take ?n (contents l)"
    "vl_entries l1 = take ?n (vl_entries l)"
    using vl_RemoveAfter_wf [OF assms(1) pos] cut by metis
  have match: "log_matching l1 m" using assms(3) l1(3,4) by (auto simp: log_matching_def contents_def take_map)
  have "?j \<le> length (vl_entries l)" "?j \<le> ?n" using assms(4,5) by linarith+
  then have "?j \<le> length (vl_entries l1)" using l1(4) by simp
  moreover have "take ?j (contents l1) = take ?j (contents m)" using assms(5,6) l1(3) by (simp add: min_absorb1)
  ultimately obtain l2 where l2: "first_divergence l1 (drop ?j (vl_entries m)) = Inr (l2, drop (length (vl_entries l2)) (vl_entries m))"
    "vl_wf l2" "contents l2 = take (length (vl_entries l2)) (contents m)"
    using first_divergence_rest [OF l1(2) assms(2) match, of ?j] l1(4) by (metis length_take min.cobounded2)
  obtain l3 where l3: "install_entries sha l2 (drop (length (vl_entries l2)) (vl_entries m)) = Inr l3" "vl_wf l3" "contents l3 = contents m"
    using install_entries_rest [OF l2(2) assms(2) l2(3)] by metis
  have "vl_Install sha l1 (drop ?j (vl_entries m)) = Inr l3" using l2(1) l3(1) by (simp add: vl_Install_def)
  with l1(1) l3 vl_Dump_wf [OF assms(2)] show ?thesis by blast
qed

definition demo_log :: "(u64 \<times> string) list \<Rightarrow> VLog" where
  "demo_log xs = (VLog_new False 1 [])\<lparr>vl_entries := map (\<lambda>(i, v, x). \<lparr>ve_viewstamp = Viewstamp v (of_nat (Suc i)),
     ve_state = LOG_STATE_PREPARED, ve_request = \<lparr>vq_op = x, vq_clientid = 5, vq_clientreqid = of_nat (Suc i)\<rparr>, ve_hash = []\<rparr>)
     (zip [0..<length xs] xs)\<rparr>"

theorem log_install_exact_witness:
  "\<exists>es l1 l2. vl_Dump (demo_log [(0, ''a''), (2, ''c'')]) 1 = Inr es \<and>
     vl_RemoveAfter (demo_log [(0, ''a''), (1, ''b''), (1, ''d'')]) (vl_LastOpnum (demo_log [(0, ''a''), (2, ''c'')]) + 1) = Inr l1 \<and>
     vl_Install (\<lambda>h e. h) l1 es = Inr l2 \<and> contents l2 = contents (demo_log [(0, ''a''), (2, ''c'')])"
proof -
  have "vl_wf (demo_log [(0, ''a''), (1, ''b''), (1, ''d'')])" "vl_wf (demo_log [(0, ''a''), (2, ''c'')])"
    "log_matching (demo_log [(0, ''a''), (1, ''b''), (1, ''d'')]) (demo_log [(0, ''a''), (2, ''c'')])"
    by (auto simp: vl_wf_def log_matching_def contents_def demo_log_def VLog_new_def less_Suc_eq)
  from log_install_exact [OF this, of 1 "\<lambda>h e. h"] show ?thesis
    by (auto simp: demo_log_def)
qed

end
