(* ===== verification/VRReplica.thy ===== *)
theory VRReplica
  imports VRLog
begin

text \<open>
  src/replication/vr/replica.cc and replica.h, with the interface of the application in
  src/replication/common/replica.h, replica.cc and replica-inl.h: a replica of viewstamped
  replication, with batching, state transfer and view changes.

  \<^item> The application is an argument: its three upcalls on a state of its own. \<open>vr_executed\<close> records the
    calls of \<^verbatim>\<open>ReplicaUpcall\<close>.
  \<^item> Messages are appended to \<open>vr_sent\<close>; whether a send succeeds only changes a warning.
  \<^item> \<open>vr_timers\<close> holds the \<^verbatim>\<open>Timeout\<close> objects that are armed; they fire again and again until they
    are stopped.
  \<^item> \<^verbatim>\<open>HandleDoViewChange\<close> keeps a pointer to the loop variable of a loop over copies; when it
    selects the log of another replica it reads an object whose lifetime has ended
    (\<open>UseAfterFree\<close>).
  \<^item> The loop that should process the pending prepares after a state transfer runs over the list that
    has just been emptied.
\<close>

type_synonym vaddr = u64

datatype ReplicaStatus = STATUS_NORMAL | STATUS_VIEW_CHANGE | STATUS_RECOVERING

record 'a AppReplica =
  app_LeaderUpcall :: "'a \<Rightarrow> u64 \<Rightarrow> string \<Rightarrow> (bool \<times> string) \<times> 'a"
  app_ReplicaUpcall :: "'a \<Rightarrow> u64 \<Rightarrow> string \<Rightarrow> string \<times> 'a"
  app_UnloggedUpcall :: "'a \<Rightarrow> string \<Rightarrow> string \<times> 'a"

text \<open>The base class: a leader replicates every operation, the other upcalls do nothing.\<close>

definition AppReplica_default :: "unit AppReplica" where
  "AppReplica_default = \<lparr>app_LeaderUpcall = (\<lambda>a opnum str1. ((True, str1), a)),
     app_ReplicaUpcall = (\<lambda>a opnum str1. ([], a)), app_UnloggedUpcall = (\<lambda>a str1. ([], a))\<rparr>"

record VReplyMessage =
  vy_view :: u64
  vy_opnum :: u64
  vy_clientreqid :: u64
  vy_reply :: string

record VPrepareMessage =
  vp_view :: u64
  vp_opnum :: u64
  vp_batchstart :: u64
  vp_request :: "VRequest list"

record VPrepareOKMessage =
  vo_view :: u64
  vo_opnum :: u64
  vo_replicaIdx :: int

record VStartViewChangeMessage =
  vv_view :: u64
  vv_replicaIdx :: int
  vv_lastCommitted :: u64

record VDoViewChangeMessage =
  vd_view :: u64
  vd_lastNormalView :: u64
  vd_lastOp :: u64
  vd_lastCommitted :: u64
  vd_entries :: "VLogEntry list"
  vd_replicaIdx :: int

record VStartViewMessage =
  vw_view :: u64
  vw_lastOp :: u64
  vw_lastCommitted :: u64
  vw_entries :: "VLogEntry list"

datatype vr_msg =
    RequestMessage VRequest
  | ReplyMessage VReplyMessage
  | UnloggedRequestMessage VRequest
  | UnloggedReplyMessage string u64
  | PrepareMessage VPrepareMessage
  | PrepareOKMessage VPrepareOKMessage
  | CommitMessage u64 u64
  | RequestStateTransferMessage u64 u64
  | StateTransferMessage u64 u64 "VLogEntry list"
  | StartViewChangeMessage VStartViewChangeMessage
  | DoViewChangeMessage VDoViewChangeMessage
  | StartViewMessage VStartViewMessage

datatype vr_dest = VAddr vaddr | VReplica int | VAll

datatype vr_timer = TViewChange | TNullCommit | TStateTransfer | TResendPrepare | TCloseBatch

record ClientTableEntry =
  ct_lastReqId :: u64
  ct_replied :: bool
  ct_reply :: VReplyMessage

record 'a VRReplica =
  vr_n :: int
  vr_f :: int
  vr_myIdx :: int
  vr_status :: ReplicaStatus
  vr_view :: u64
  vr_lastCommitted :: u64
  vr_lastOp :: u64
  vr_lastRequestStateTransferView :: u64
  vr_lastRequestStateTransferOpnum :: u64
  vr_pendingPrepares :: "(vaddr \<times> VPrepareMessage) list"
  vr_lastPrepare :: VPrepareMessage
  vr_batchSize :: "32 word"
  vr_lastBatchEnd :: u64
  vr_log :: VLog
  vr_clientAddresses :: "u64 \<rightharpoonup> vaddr"
  vr_clientTable :: "u64 \<rightharpoonup> ClientTableEntry"
  vr_prepareOKQuorum :: "(viewstamp, VPrepareOKMessage) QuorumSet"
  vr_startViewChangeQuorum :: "(u64, VStartViewChangeMessage) QuorumSet"
  vr_doViewChangeQuorum :: "(u64, VDoViewChangeMessage) QuorumSet"
  vr_timers :: "vr_timer list"
  vr_app :: 'a
  vr_executed :: "(u64 \<times> VRequest) list"
  vr_sent :: "(vr_dest \<times> vr_msg) list"

type_synonym 'a vr_res = "vr_err + 'a VRReplica"

definition vr_send :: "'a VRReplica \<Rightarrow> vr_dest \<Rightarrow> vr_msg \<Rightarrow> 'a VRReplica" where
  "vr_send s d m = s\<lparr>vr_sent := vr_sent s @ [(d, m)]\<rparr>"

definition vr_start :: "vr_timer \<Rightarrow> 'a VRReplica \<Rightarrow> 'a VRReplica" where
  "vr_start t s = s\<lparr>vr_timers := List.insert t (vr_timers s)\<rparr>"

definition vr_stop :: "vr_timer \<Rightarrow> 'a VRReplica \<Rightarrow> 'a VRReplica" where
  "vr_stop t s = s\<lparr>vr_timers := removeAll t (vr_timers s)\<rparr>"

text \<open>The log of a replica has no hashes.\<close>

definition vr_Append :: "'a VRReplica \<Rightarrow> viewstamp \<Rightarrow> VRequest \<Rightarrow> 'a vr_res" where
  "vr_Append s vs req =
     bindr (vl_Append (\<lambda>h e. h) (vr_log s) vs req LOG_STATE_PREPARED) (\<lambda>l. Inr (s\<lparr>vr_log := l\<rparr>))"

section \<open>Leader and construction\<close>

definition leader_index :: "'a VRReplica \<Rightarrow> vr_err + int" where
  "leader_index s = lift_ub (GetLeaderIndex (vr_view s) (vr_n s))"

definition AmLeader :: "'a VRReplica \<Rightarrow> vr_err + bool" where
  "AmLeader s = bindr (leader_index s) (\<lambda>i. Inr (i = vr_myIdx s))"

definition VRReplica_init :: "int \<Rightarrow> int \<Rightarrow> int \<Rightarrow> 32 word \<Rightarrow> 'a \<Rightarrow> 'a VRReplica" where
  "VRReplica_init n f myIdx batchSize a =
     \<lparr>vr_n = n, vr_f = f, vr_myIdx = myIdx, vr_status = STATUS_NORMAL, vr_view = 0, vr_lastCommitted = 0,
      vr_lastOp = 0, vr_lastRequestStateTransferView = 0, vr_lastRequestStateTransferOpnum = 0,
      vr_pendingPrepares = [],
      vr_lastPrepare = \<lparr>vp_view = 0, vp_opnum = 0, vp_batchstart = 0, vp_request = []\<rparr>,
      vr_batchSize = batchSize, vr_lastBatchEnd = 0, vr_log = VLog_new False 1 (replicate 20 (CHR 0x00)),
      vr_clientAddresses = Map.empty, vr_clientTable = Map.empty,
      vr_prepareOKQuorum = QuorumSet_new (QuorumSize f - 1),
      vr_startViewChangeQuorum = QuorumSet_new (QuorumSize f - 1),
      vr_doViewChangeQuorum = QuorumSet_new (QuorumSize f - 1),
      vr_timers = [TStateTransfer], vr_app = a, vr_executed = [], vr_sent = []\<rparr>"

definition VRReplica_new :: "int \<Rightarrow> int \<Rightarrow> int \<Rightarrow> 32 word \<Rightarrow> 'a \<Rightarrow> 'a vr_res" where
  "VRReplica_new n f myIdx batchSize a =
     (let s = VRReplica_init n f myIdx batchSize a
      in bindr (AmLeader s) (\<lambda>b. Inr (if b then vr_start TNullCommit s else vr_start TViewChange s)))"

section \<open>Executing operations\<close>

definition client_entry :: "'a VRReplica \<Rightarrow> u64 \<Rightarrow> ClientTableEntry" where
  "client_entry s c = (case vr_clientTable s c of
     None \<Rightarrow> \<lparr>ct_lastReqId = 0, ct_replied = False,
               ct_reply = \<lparr>vy_view = 0, vy_opnum = 0, vy_clientreqid = 0, vy_reply = []\<rparr>\<rparr>
   | Some e \<Rightarrow> e)"

text \<open>One round of the loop of \<^verbatim>\<open>CommitUpTo\<close>.\<close>

definition commit_next :: "'a AppReplica \<Rightarrow> 'a VRReplica \<Rightarrow> 'a vr_res" where
  "commit_next app s =
     (let op = vr_lastCommitted s + 1; s = s\<lparr>vr_lastCommitted := op\<rparr> in
      case vl_Find (vr_log s) op of
        None \<Rightarrow> Inl VPanic
      | Some entry \<Rightarrow>
          let req = ve_request entry;
              (res, a) = app_ReplicaUpcall app (vr_app s) op (vq_op req);
              reply = \<lparr>vy_view = ve_view entry, vy_opnum = ve_opnum entry, vy_clientreqid = vq_clientreqid req, vy_reply = res\<rparr>;
              s = s\<lparr>vr_app := a, vr_executed := vr_executed s @ [(op, req)],
                    vr_log := snd (vl_SetStatus (vr_log s) op LOG_STATE_COMMITTED)\<rparr>;
              cte = client_entry s (vq_clientid req);
              cte = (if ct_lastReqId cte \<le> vq_clientreqid req
                     then \<lparr>ct_lastReqId = vq_clientreqid req, ct_replied = True, ct_reply = reply\<rparr> else cte);
              s = s\<lparr>vr_clientTable := (vr_clientTable s)(vq_clientid req \<mapsto> cte)\<rparr>
          in Inr (case vr_clientAddresses s (vq_clientid req) of
                    None \<Rightarrow> s
                  | Some addr \<Rightarrow> vr_send s (VAddr addr) (ReplyMessage reply)))"

primrec commit_loop :: "'a AppReplica \<Rightarrow> nat \<Rightarrow> 'a VRReplica \<Rightarrow> 'a vr_res" where
  "commit_loop app 0 s = Inr s"
| "commit_loop app (Suc k) s = bindr (commit_next app s) (commit_loop app k)"

definition CommitUpTo :: "'a AppReplica \<Rightarrow> 'a VRReplica \<Rightarrow> u64 \<Rightarrow> 'a vr_res" where
  "CommitUpTo app s op = commit_loop app (unat op - unat (vr_lastCommitted s)) s"

definition UpdateClientTable :: "'a VRReplica \<Rightarrow> VRequest \<Rightarrow> 'a VRReplica" where
  "UpdateClientTable s req =
     (let entry = client_entry s (vq_clientid req) in
      s\<lparr>vr_clientTable := (vr_clientTable s)(vq_clientid req \<mapsto>
         (if ct_lastReqId entry = vq_clientreqid req then entry
          else \<lparr>ct_lastReqId = vq_clientreqid req, ct_replied = False,
                 ct_reply = \<lparr>vy_view = 0, vy_opnum = 0, vy_clientreqid = 0, vy_reply = []\<rparr>\<rparr>))\<rparr>)"

primrec prepare_oks :: "nat list \<Rightarrow> 'a VRReplica \<Rightarrow> 'a vr_res" where
  "prepare_oks [] s = Inr s"
| "prepare_oks (i # is) s =
     (if of_nat i \<le> vr_lastCommitted s then prepare_oks is s
      else case vl_Find (vr_log s) (of_nat i) of
        None \<Rightarrow> Inl VPanic
      | Some entry \<Rightarrow>
          let s = UpdateClientTable s (ve_request entry);
              reply = \<lparr>vo_view = vr_view s, vo_opnum = of_nat i, vo_replicaIdx = vr_myIdx s\<rparr>
          in bindr (leader_index s) (\<lambda>l. prepare_oks is (vr_send s (VReplica l) (PrepareOKMessage reply))))"

definition SendPrepareOKs :: "'a VRReplica \<Rightarrow> u64 \<Rightarrow> 'a vr_res" where
  "SendPrepareOKs s oldLastOp = prepare_oks [unat oldLastOp..<Suc (unat (vr_lastOp s))] s"

definition RequestStateTransfer :: "'a VRReplica \<Rightarrow> 'a VRReplica" where
  "RequestStateTransfer s =
     (if vr_lastRequestStateTransferOpnum s \<noteq> 0 \<and> vr_lastRequestStateTransferView s = vr_view s \<and>
         vr_lastRequestStateTransferOpnum s = vr_lastCommitted s
      then s
      else vr_send (s\<lparr>vr_lastRequestStateTransferView := vr_view s,
                      vr_lastRequestStateTransferOpnum := vr_lastCommitted s\<rparr>)
             VAll (RequestStateTransferMessage (vr_view s) (vr_lastCommitted s)))"

section \<open>Views\<close>

definition EnterView :: "'a VRReplica \<Rightarrow> u64 \<Rightarrow> 'a vr_res" where
  "EnterView s newview =
     (let s = s\<lparr>vr_view := newview, vr_status := STATUS_NORMAL, vr_lastBatchEnd := vr_lastOp s\<rparr> in
      bindr (AmLeader s) (\<lambda>b.
        let s = (if b then vr_start TNullCommit (vr_stop TViewChange s)
                 else vr_stop TCloseBatch (vr_stop TResendPrepare (vr_stop TNullCommit (vr_start TViewChange s))))
        in Inr (s\<lparr>vr_prepareOKQuorum := qs_Clear (vr_prepareOKQuorum s),
                  vr_startViewChangeQuorum := qs_Clear (vr_startViewChangeQuorum s),
                  vr_doViewChangeQuorum := qs_Clear (vr_doViewChangeQuorum s)\<rparr>)))"

definition StartViewChange :: "'a VRReplica \<Rightarrow> u64 \<Rightarrow> 'a VRReplica" where
  "StartViewChange s newview =
     (let s = s\<lparr>vr_view := newview, vr_status := STATUS_VIEW_CHANGE\<rparr>;
          s = vr_stop TCloseBatch (vr_stop TResendPrepare (vr_stop TNullCommit (vr_start TViewChange s)))
      in vr_send s VAll (StartViewChangeMessage
           \<lparr>vv_view = newview, vv_replicaIdx = vr_myIdx s, vv_lastCommitted = vr_lastCommitted s\<rparr>))"

definition SendNullCommit :: "'a VRReplica \<Rightarrow> 'a VRReplica" where
  "SendNullCommit s = vr_send s VAll (CommitMessage (vr_view s) (vr_lastCommitted s))"

definition vr_ResendPrepare :: "'a VRReplica \<Rightarrow> 'a VRReplica" where
  "vr_ResendPrepare s =
     (if vr_lastOp s = vr_lastCommitted s then s else vr_send s VAll (PrepareMessage (vr_lastPrepare s)))"

primrec batch_requests :: "VLog \<Rightarrow> nat list \<Rightarrow> vr_err + VRequest list" where
  "batch_requests l [] = Inr []"
| "batch_requests l (i # is) =
     (case vl_Find l (of_nat i) of
        None \<Rightarrow> Inl (VUB NullDeref)
      | Some entry \<Rightarrow> bindr (batch_requests l is) (\<lambda>rs. Inr (ve_request entry # rs)))"

definition CloseBatch :: "'a VRReplica \<Rightarrow> 'a vr_res" where
  "CloseBatch s =
     (let batchStart = vr_lastBatchEnd s + 1 in
      bindr (batch_requests (vr_log s) [unat batchStart..<Suc (unat (vr_lastOp s))]) (\<lambda>rs.
        let p = \<lparr>vp_view = vr_view s, vp_opnum = vr_lastOp s, vp_batchstart = batchStart, vp_request = rs\<rparr>;
            s = vr_send (s\<lparr>vr_lastPrepare := p\<rparr>) VAll (PrepareMessage p)
        in Inr (vr_stop TCloseBatch (vr_start TResendPrepare (s\<lparr>vr_lastBatchEnd := vr_lastOp s\<rparr>)))))"

section \<open>Requests\<close>

text \<open>The leader gives an operation the next number and puts it into the current batch.\<close>

definition replicate_request :: "'a VRReplica \<Rightarrow> VRequest \<Rightarrow> 'a vr_res" where
  "replicate_request s request =
     (let s = s\<lparr>vr_lastOp := vr_lastOp s + 1\<rparr> in
      bindr (vr_Append s (Viewstamp (vr_view s) (vr_lastOp s)) request) (\<lambda>s.
      bindr (if vr_lastOp s - vr_lastBatchEnd s + 1 > ucast (vr_batchSize s) then CloseBatch s
             else Inr (vr_start TCloseBatch s)) (\<lambda>s.
        Inr (vr_start TNullCommit s))))"

definition vr_HandleRequest :: "'a AppReplica \<Rightarrow> 'a VRReplica \<Rightarrow> vaddr \<Rightarrow> VRequest \<Rightarrow> 'a vr_res" where
  "vr_HandleRequest app s remote req =
     (if vr_status s \<noteq> STATUS_NORMAL then Inr s
      else bindr (AmLeader s) (\<lambda>b.
        if \<not> b then Inr s
        else
          let s = s\<lparr>vr_clientAddresses := (vr_clientAddresses s)(vq_clientid req \<mapsto> remote)\<rparr>;
              fresh =
                (let s = UpdateClientTable s req;
                     ((replicate, res), a) = app_LeaderUpcall app (vr_app s) (vr_lastCommitted s) (vq_op req);
                     s = s\<lparr>vr_app := a\<rparr>
                 in if \<not> replicate then
                      let reply = \<lparr>vy_view = 0, vy_opnum = 0, vy_clientreqid = vq_clientreqid req, vy_reply = res\<rparr>;
                          cte = (client_entry s (vq_clientid req))\<lparr>ct_replied := True, ct_reply := reply\<rparr>
                      in Inr (vr_send (s\<lparr>vr_clientTable := (vr_clientTable s)(vq_clientid req \<mapsto> cte)\<rparr>)
                                (VAddr remote) (ReplyMessage reply))
                    else replicate_request s
                           \<lparr>vq_op = res, vq_clientid = vq_clientid req, vq_clientreqid = vq_clientreqid req\<rparr>)
          in case vr_clientTable s (vq_clientid req) of
               None \<Rightarrow> fresh
             | Some entry \<Rightarrow>
                 if vq_clientreqid req < ct_lastReqId entry then Inr s
                 else if vq_clientreqid req = ct_lastReqId entry then
                   Inr (if ct_replied entry then vr_send s (VAddr remote) (ReplyMessage (ct_reply entry)) else s)
                 else fresh))"

definition vr_HandleUnloggedRequest :: "'a AppReplica \<Rightarrow> 'a VRReplica \<Rightarrow> vaddr \<Rightarrow> VRequest \<Rightarrow> 'a vr_res" where
  "vr_HandleUnloggedRequest app s remote req =
     (if vr_status s \<noteq> STATUS_NORMAL then Inr s
      else
        let (res, a) = app_UnloggedUpcall app (vr_app s) (vq_op req)
        in Inr (vr_send (s\<lparr>vr_app := a\<rparr>) (VAddr remote) (UnloggedReplyMessage res (vq_clientreqid req))))"

section \<open>Normal operation\<close>

primrec append_batch :: "u64 \<Rightarrow> VRequest list \<Rightarrow> u64 \<Rightarrow> 'a VRReplica \<Rightarrow> 'a vr_res" where
  "append_batch view [] op s = Inr s"
| "append_batch view (req # reqs) op s =
     (let op = op + 1 in
      if op \<le> vr_lastOp s then append_batch view reqs op s
      else bindr (vr_Append (s\<lparr>vr_lastOp := vr_lastOp s + 1\<rparr>) (Viewstamp view op) req)
             (\<lambda>s. append_batch view reqs op (UpdateClientTable s req)))"

definition send_prepareOK :: "'a VRReplica \<Rightarrow> VPrepareMessage \<Rightarrow> 'a vr_res" where
  "send_prepareOK s msg = bindr (leader_index s) (\<lambda>l. Inr (vr_send s (VReplica l) (PrepareOKMessage
     \<lparr>vo_view = vp_view msg, vo_opnum = vp_opnum msg, vo_replicaIdx = vr_myIdx s\<rparr>)))"

definition vr_HandlePrepare :: "'a VRReplica \<Rightarrow> vaddr \<Rightarrow> VPrepareMessage \<Rightarrow> 'a vr_res" where
  "vr_HandlePrepare s remote msg =
     (if vr_status s \<noteq> STATUS_NORMAL then Inr s
      else if vp_view msg < vr_view s then Inr s
      else if vp_view msg > vr_view s
      then Inr ((RequestStateTransfer s)\<lparr>vr_pendingPrepares := vr_pendingPrepares s @ [(remote, msg)]\<rparr>)
      else bindr (AmLeader s) (\<lambda>b.
        if b then Inl VPanic
        else
          let s = vr_start TViewChange s in
          if vp_opnum msg \<le> vr_lastOp s then send_prepareOK s msg
          else if vp_batchstart msg > vr_lastOp s + 1
          then Inr ((RequestStateTransfer s)\<lparr>vr_pendingPrepares := vr_pendingPrepares s @ [(remote, msg)]\<rparr>)
          else bindr (append_batch (vp_view msg) (vp_request msg) (vp_batchstart msg - 1) s)
                 (\<lambda>s. send_prepareOK s msg)))"

definition vr_HandlePrepareOK :: "'a AppReplica \<Rightarrow> 'a VRReplica \<Rightarrow> VPrepareOKMessage \<Rightarrow> 'a vr_res" where
  "vr_HandlePrepareOK app s msg =
     (if vr_status s \<noteq> STATUS_NORMAL then Inr s
      else if vo_view msg < vr_view s then Inr s
      else if vo_view msg > vr_view s then Inr (RequestStateTransfer s)
      else bindr (AmLeader s) (\<lambda>b.
        if \<not> b then Inr s
        else
          case AddAndCheckForQuorum (vr_prepareOKQuorum s) (Viewstamp (vo_view msg) (vo_opnum msg)) (vo_replicaIdx msg) msg of
            (None, q) \<Rightarrow> Inr (s\<lparr>vr_prepareOKQuorum := q\<rparr>)
          | (Some msgs, q) \<Rightarrow>
              bindr (CommitUpTo app (s\<lparr>vr_prepareOKQuorum := q\<rparr>) (vo_opnum msg)) (\<lambda>s.
                if length msgs \<ge> unat (word_of_int (QuorumSize (vr_f s)) :: 32 word) then Inr s
                else Inr (vr_start TNullCommit (vr_send s VAll (CommitMessage (vr_view s) (vr_lastCommitted s)))))))"

definition vr_HandleCommit :: "'a AppReplica \<Rightarrow> 'a VRReplica \<Rightarrow> u64 \<Rightarrow> u64 \<Rightarrow> 'a vr_res" where
  "vr_HandleCommit app s view opnum =
     (if vr_status s \<noteq> STATUS_NORMAL then Inr s
      else if view < vr_view s then Inr s
      else if view > vr_view s then Inr (RequestStateTransfer s)
      else bindr (AmLeader s) (\<lambda>b.
        if b then Inl VPanic
        else
          let s = vr_start TViewChange s in
          if opnum \<le> vr_lastCommitted s then Inr s
          else if opnum > vr_lastOp s then Inr (RequestStateTransfer s)
          else CommitUpTo app s opnum))"

section \<open>State transfer\<close>

definition vr_HandleRequestStateTransfer :: "'a VRReplica \<Rightarrow> vaddr \<Rightarrow> u64 \<Rightarrow> u64 \<Rightarrow> 'a vr_res" where
  "vr_HandleRequestStateTransfer s remote view opnum =
     (if vr_status s \<noteq> STATUS_NORMAL then Inr s
      else if view > vr_view s then Inr (RequestStateTransfer s)
      else bindr (vl_Dump (vr_log s) (opnum + 1)) (\<lambda>es.
        Inr (vr_send s (VAddr remote) (StateTransferMessage (vr_view s) (vr_lastCommitted s) es))))"

fun install_transfer :: "VLogEntry list \<Rightarrow> u64 \<Rightarrow> 'a VRReplica \<Rightarrow> vr_err + 'a VRReplica \<times> u64" where
  "install_transfer [] oldLastOp s = Inr (s, oldLastOp)"
| "install_transfer (e # es) oldLastOp s =
     (if ve_opnum e \<le> vr_lastCommitted s then install_transfer es oldLastOp s
      else if ve_opnum e \<le> vr_lastOp s then
        case vl_Find (vr_log s) (ve_opnum e) of
          None \<Rightarrow> Inl (VUB NullDeref)
        | Some entry \<Rightarrow>
            if ve_view entry = ve_view e then install_transfer es oldLastOp s
            else
              bindr (vl_RemoveAfter (vr_log s) (ve_opnum e)) (\<lambda>l.
              bindr (vr_Append (s\<lparr>vr_log := l, vr_lastOp := ve_opnum e\<rparr>) (Viewstamp (ve_view e) (ve_opnum e)) (ve_request e))
                (install_transfer es (ve_opnum e)))
      else
        bindr (vr_Append (s\<lparr>vr_lastOp := vr_lastOp s + 1\<rparr>) (Viewstamp (ve_view e) (ve_opnum e)) (ve_request e))
          (install_transfer es oldLastOp))"

definition vr_HandleStateTransfer :: "'a AppReplica \<Rightarrow> 'a VRReplica \<Rightarrow> u64 \<Rightarrow> u64 \<Rightarrow> VLogEntry list \<Rightarrow> 'a vr_res" where
  "vr_HandleStateTransfer app s view opnum es =
     (if view < vr_view s then Inr s
      else
        bindr (install_transfer es (vr_lastOp s) s) (\<lambda>(s, oldLastOp).
        bindr (if view > vr_view s then EnterView s view else Inr s) (\<lambda>s.
        bindr (CommitUpTo app s opnum) (\<lambda>s.
        bindr (SendPrepareOKs s oldLastOp) (\<lambda>s. Inr (s\<lparr>vr_pendingPrepares := []\<rparr>))))))"

section \<open>View changes\<close>

definition min_of :: "u64 list \<Rightarrow> vr_err + u64" where
  "min_of xs = (case xs of [] \<Rightarrow> Inl (VUB EndDeref) | y # ys \<Rightarrow> Inr (fold min ys y))"

definition vr_HandleStartViewChange :: "'a VRReplica \<Rightarrow> VStartViewChangeMessage \<Rightarrow> 'a vr_res" where
  "vr_HandleStartViewChange s msg =
     (if vv_view msg < vr_view s then Inr s
      else if vv_view msg = vr_view s \<and> vr_status s \<noteq> STATUS_VIEW_CHANGE then Inr s
      else
        let s = (if vr_status s \<noteq> STATUS_VIEW_CHANGE \<or> vv_view msg > vr_view s then StartViewChange s (vv_view msg) else s) in
        case AddAndCheckForQuorum (vr_startViewChangeQuorum s) (vv_view msg) (vv_replicaIdx msg) msg of
          (None, q) \<Rightarrow> Inr (s\<lparr>vr_startViewChangeQuorum := q\<rparr>)
        | (Some msgs, q) \<Rightarrow>
            let s = s\<lparr>vr_startViewChangeQuorum := q\<rparr> in
            bindr (leader_index s) (\<lambda>leader.
              if leader \<noteq> vr_myIdx s then
                bindr (min_of (map (vv_lastCommitted \<circ> snd) msgs)) (\<lambda>minCommitted.
                bindr (vl_Dump (vr_log s) (min minCommitted (vr_lastCommitted s))) (\<lambda>es.
                  Inr (vr_send s (VReplica leader) (DoViewChangeMessage
                    \<lparr>vd_view = vr_view s, vd_lastNormalView = vs_view (vl_LastViewstamp (vr_log s)), vd_lastOp = vr_lastOp s,
                     vd_lastCommitted = vr_lastCommitted s, vd_entries = es, vd_replicaIdx = vr_myIdx s\<rparr>))))
              else Inr s))"

text \<open>The loop over the messages: the latest view and operation, and whether a message was selected.\<close>

definition latest_log :: "VLog \<Rightarrow> VDoViewChangeMessage list \<Rightarrow> u64 \<times> u64 \<times> bool" where
  "latest_log l msgs = fold (\<lambda>x (v, op, sel).
       if vd_lastNormalView x > v \<or> vd_lastNormalView x = v \<and> vd_lastOp x > op
       then (vd_lastNormalView x, vd_lastOp x, True) else (v, op, sel))
     msgs (vs_view (vl_LastViewstamp l), vs_opnum (vl_LastViewstamp l), False)"

definition vr_HandleDoViewChange :: "'a VRReplica \<Rightarrow> VDoViewChangeMessage \<Rightarrow> 'a vr_res" where
  "vr_HandleDoViewChange s msg =
     (if vd_view msg < vr_view s then Inr s
      else if vd_view msg = vr_view s \<and> vr_status s \<noteq> STATUS_VIEW_CHANGE then Inr s
      else
        let s = (if vr_status s \<noteq> STATUS_VIEW_CHANGE \<or> vd_view msg > vr_view s then StartViewChange s (vd_view msg) else s) in
        case AddAndCheckForQuorum (vr_doViewChangeQuorum s) (vd_view msg) (vd_replicaIdx msg) msg of
          (None, q) \<Rightarrow> Inr (s\<lparr>vr_doViewChangeQuorum := q\<rparr>)
        | (Some msgs, q) \<Rightarrow>
            let s = s\<lparr>vr_doViewChangeQuorum := q\<rparr>;
                (latestView, latestOp, selected) = latest_log (vr_log s) (map snd msgs)
            in if selected then Inl (VUB UseAfterFree)
               else
                 let (svcs, q) = GetMessages (vr_startViewChangeQuorum s) (vr_view s);
                     s = s\<lparr>vr_startViewChangeQuorum := q\<rparr>
                 in bindr (min_of (map (vv_lastCommitted \<circ> snd) svcs)) (\<lambda>minSVC.
                    bindr (min_of (map (vd_lastCommitted \<circ> snd) msgs)) (\<lambda>minDVC.
                      let minCommitted = min (min minSVC minDVC) (vr_lastCommitted s) in
                      bindr (EnterView s (vd_view msg)) (\<lambda>s.
                        let s = s\<lparr>vr_lastOp := latestOp\<rparr> in
                        bindr (vl_Dump (vr_log s) minCommitted) (\<lambda>es.
                          Inr (vr_send s VAll (StartViewMessage
                            \<lparr>vw_view = vr_view s, vw_lastOp = vr_lastOp s, vw_lastCommitted = vr_lastCommitted s, vw_entries = es\<rparr>)))))))"

definition vr_HandleStartView :: "'a AppReplica \<Rightarrow> 'a VRReplica \<Rightarrow> VStartViewMessage \<Rightarrow> 'a vr_res" where
  "vr_HandleStartView app s msg =
     (if vw_view msg < vr_view s then Inr s
      else if vw_view msg = vr_view s \<and> vr_status s \<noteq> STATUS_VIEW_CHANGE then Inr s
      else
        bindr (case vw_entries msg of
                 [] \<Rightarrow> Inr (vr_log s)
               | e # es \<Rightarrow>
                   if ve_opnum e > vr_lastCommitted s + 1 then Inl VPanic
                   else bindr (vl_RemoveAfter (vr_log s) (vw_lastOp msg + 1)) (\<lambda>l. vl_Install (\<lambda>h e. h) l (e # es))) (\<lambda>l.
        bindr (EnterView (s\<lparr>vr_log := l\<rparr>) (vw_view msg)) (\<lambda>s.
          let oldLastOp = vr_lastOp s; s = s\<lparr>vr_lastOp := vw_lastOp msg\<rparr> in
          bindr (CommitUpTo app s (vw_lastCommitted msg)) (\<lambda>s. SendPrepareOKs s oldLastOp))))"

section \<open>Dispatch and timers\<close>

fun vr_ReceiveMessage :: "'a AppReplica \<Rightarrow> 'a VRReplica \<Rightarrow> vaddr \<Rightarrow> vr_msg \<Rightarrow> 'a vr_res" where
  "vr_ReceiveMessage app s remote (RequestMessage req) = vr_HandleRequest app s remote req"
| "vr_ReceiveMessage app s remote (UnloggedRequestMessage req) = vr_HandleUnloggedRequest app s remote req"
| "vr_ReceiveMessage app s remote (PrepareMessage m) = vr_HandlePrepare s remote m"
| "vr_ReceiveMessage app s remote (PrepareOKMessage m) = vr_HandlePrepareOK app s m"
| "vr_ReceiveMessage app s remote (CommitMessage v op) = vr_HandleCommit app s v op"
| "vr_ReceiveMessage app s remote (RequestStateTransferMessage v op) = vr_HandleRequestStateTransfer s remote v op"
| "vr_ReceiveMessage app s remote (StateTransferMessage v op es) = vr_HandleStateTransfer app s v op es"
| "vr_ReceiveMessage app s remote (StartViewChangeMessage m) = vr_HandleStartViewChange s m"
| "vr_ReceiveMessage app s remote (DoViewChangeMessage m) = vr_HandleDoViewChange s m"
| "vr_ReceiveMessage app s remote (StartViewMessage m) = vr_HandleStartView app s m"
| "vr_ReceiveMessage app s remote (ReplyMessage m) = Inl VPanic"
| "vr_ReceiveMessage app s remote (UnloggedReplyMessage r i) = Inl VPanic"

fun vr_timeout :: "'a VRReplica \<Rightarrow> vr_timer \<Rightarrow> 'a vr_res" where
  "vr_timeout s TViewChange = Inr (StartViewChange s (vr_view s + 1))"
| "vr_timeout s TNullCommit = Inr (SendNullCommit s)"
| "vr_timeout s TStateTransfer =
     Inr (s\<lparr>vr_lastRequestStateTransferView := 0, vr_lastRequestStateTransferOpnum := 0\<rparr>)"
| "vr_timeout s TResendPrepare = Inr (vr_ResendPrepare s)"
| "vr_timeout s TCloseBatch = CloseBatch s"

datatype vr_event = VMsg vaddr vr_msg | VTimer vr_timer

fun vr_step :: "'a AppReplica \<Rightarrow> 'a VRReplica \<Rightarrow> vr_event \<Rightarrow> 'a vr_res" where
  "vr_step app s (VMsg remote m) = vr_ReceiveMessage app s remote m"
| "vr_step app s (VTimer t) = (if t \<in> set (vr_timers s) then vr_timeout s t else Inr s)"

primrec vr_run :: "'a AppReplica \<Rightarrow> vr_event list \<Rightarrow> 'a VRReplica \<Rightarrow> 'a vr_res" where
  "vr_run app [] s = Inr s"
| "vr_run app (e # es) s = bindr (vr_step app s e) (vr_run app es)"

end
