(* ===== verification/VRNormal.thy ===== *)
theory VRNormal
  imports VRReplica "HOL-Library.Sublist"
begin

text \<open>
  Viewstamped replication in one view: a group of replicas that exchange their messages, in any order,
  any number of times or never, while no view-change timer fires. Operations are executed in the
  order of the log of the leader by every replica, and only once they are stored by \<open>f + 1\<close> of them.
\<close>

section \<open>The group\<close>

text \<open>
  Replica \<open>i\<close> has the address \<open>i\<close>, clients have other ones. \<open>SDeliver j k i\<close> is the arrival at replica
  \<open>i\<close> of the message that \<open>j\<close> has sent as its \<open>k\<close>-th.
\<close>

datatype sys_event =
    SDeliver nat nat nat
  | SClient nat vaddr VRequest
  | SUnlogged nat vaddr VRequest
  | STimer nat vr_timer

fun reaches :: "vr_dest \<Rightarrow> nat \<Rightarrow> nat \<Rightarrow> bool" where
  "reaches (VAddr a) j i \<longleftrightarrow> unat a = i"
| "reaches (VReplica k) j i \<longleftrightarrow> k = int i"
| "reaches VAll j i \<longleftrightarrow> i \<noteq> j"

fun replica_event :: "'a VRReplica list \<Rightarrow> sys_event \<Rightarrow> (nat \<times> vr_event) option" where
  "replica_event R (SDeliver j k i) =
     (if i < length R \<and> j < length R \<and> k < length (vr_sent (R ! j)) \<and> reaches (fst (vr_sent (R ! j) ! k)) j i
      then Some (i, VMsg (of_nat j) (snd (vr_sent (R ! j) ! k))) else None)"
| "replica_event R (SClient i a req) = (if i < length R then Some (i, VMsg a (RequestMessage req)) else None)"
| "replica_event R (SUnlogged i a req) = (if i < length R then Some (i, VMsg a (UnloggedRequestMessage req)) else None)"
| "replica_event R (STimer i t) = (if i < length R then Some (i, VTimer t) else None)"

definition sys_step :: "'a AppReplica \<Rightarrow> 'a VRReplica list \<Rightarrow> sys_event \<Rightarrow> vr_err + 'a VRReplica list" where
  "sys_step app R e =
     (case replica_event R e of
        None \<Rightarrow> Inr R
      | Some (i, ev) \<Rightarrow> bindr (vr_step app (R ! i) ev) (\<lambda>s. Inr (R[i := s])))"

primrec sys_run :: "'a AppReplica \<Rightarrow> sys_event list \<Rightarrow> 'a VRReplica list \<Rightarrow> vr_err + 'a VRReplica list" where
  "sys_run app [] R = Inr R"
| "sys_run app (e # es) R = bindr (sys_step app R e) (sys_run app es)"

definition vr_group :: "nat \<Rightarrow> nat \<Rightarrow> 32 word \<Rightarrow> 'a \<Rightarrow> 'a VRReplica list" where
  "vr_group n f batchSize a = map (\<lambda>i. projr (VRReplica_new (int n) (int f) (int i) batchSize a)) [0..<n]"

fun normal_event :: "nat \<Rightarrow> sys_event \<Rightarrow> bool" where
  "normal_event n (SClient i a req) \<longleftrightarrow> n \<le> unat a"
| "normal_event n (SUnlogged i a req) \<longleftrightarrow> n \<le> unat a"
| "normal_event n (STimer i t) \<longleftrightarrow> t \<noteq> TViewChange"
| "normal_event n (SDeliver j k i) \<longleftrightarrow> True"

section \<open>What a replica may send\<close>

text \<open>Messages whose contents depend on the sender only; state transfers are treated separately.\<close>

definition batch_ok :: "(u64 \<times> VRequest) list \<Rightarrow> VPrepareMessage \<Rightarrow> bool" where
  "batch_ok L p \<longleftrightarrow> vp_view p = 0 \<and> 0 < vp_batchstart p \<and>
     unat (vp_opnum p) = unat (vp_batchstart p) - 1 + length (vp_request p) \<and> unat (vp_opnum p) \<le> length L \<and>
     vp_request p = map snd (take (length (vp_request p)) (drop (unat (vp_batchstart p) - 1) L))"

definition transfer_ok :: "(u64 \<times> VRequest) list \<Rightarrow> nat \<Rightarrow> VLogEntry list \<Rightarrow> bool" where
  "transfer_ok L k es \<longleftrightarrow> (es \<noteq> [] \<longrightarrow> k + length es \<le> length L) \<and>
     map (\<lambda>e. (ve_view e, ve_request e)) es = take (length es) (drop k L) \<and>
     (\<forall>i < length es. unat (ve_opnum (es ! i)) = k + i + 1)"

fun sent_ok :: "nat \<Rightarrow> nat \<Rightarrow> 'a VRReplica \<Rightarrow> vr_dest \<times> vr_msg \<Rightarrow> bool" where
  "sent_ok n i s (d, PrepareMessage p) \<longleftrightarrow> i = 0 \<and> d = VAll \<and> batch_ok (contents (vr_log s)) p"
| "sent_ok n i s (d, PrepareOKMessage m) \<longleftrightarrow> 0 < i \<and> d = VReplica 0 \<and> vo_view m = 0 \<and> vo_replicaIdx m = int i \<and>
     unat (vo_opnum m) \<le> length (contents (vr_log s))"
| "sent_ok n i s (d, CommitMessage v op) \<longleftrightarrow> i = 0 \<and> d = VAll \<and> v = 0 \<and> op \<le> vr_lastCommitted s"
| "sent_ok n i s (d, RequestStateTransferMessage v op) \<longleftrightarrow> 0 < i \<and> d = VAll \<and> v = 0 \<and> op \<le> vr_lastCommitted s"
| "sent_ok n i s (d, StateTransferMessage v op es) \<longleftrightarrow> False"
| "sent_ok n i s (d, ReplyMessage m) \<longleftrightarrow> (\<exists>a. d = VAddr a \<and> n \<le> unat a)"
| "sent_ok n i s (d, UnloggedReplyMessage r q) \<longleftrightarrow> (\<exists>a. d = VAddr a \<and> n \<le> unat a)"
| "sent_ok n i s (d, RequestMessage r) \<longleftrightarrow> False"
| "sent_ok n i s (d, UnloggedRequestMessage r) \<longleftrightarrow> False"
| "sent_ok n i s (d, StartViewChangeMessage m) \<longleftrightarrow> False"
| "sent_ok n i s (d, DoViewChangeMessage m) \<longleftrightarrow> False"
| "sent_ok n i s (d, StartViewMessage m) \<longleftrightarrow> False"

text \<open>A replica in view 0: its log has no gaps and no later views, and it has executed what it has committed.\<close>

definition base_ok :: "nat \<Rightarrow> nat \<Rightarrow> nat \<Rightarrow> 'a VRReplica \<Rightarrow> bool" where
  "base_ok n f i s \<longleftrightarrow> i < n \<and> n < 2 ^ 31 \<and> vr_n s = int n \<and> vr_f s = int f \<and> vr_myIdx s = int i \<and> vr_status s = STATUS_NORMAL \<and> vr_view s = 0 \<and>
     vl_wf (vr_log s) \<and> fst ` set (contents (vr_log s)) \<subseteq> {0} \<and>
     unat (vr_lastOp s) = length (contents (vr_log s)) \<and> vr_lastCommitted s \<le> vr_lastOp s \<and>
     vr_executed s = map (\<lambda>k. (of_nat (Suc k), snd (contents (vr_log s) ! k))) [0..<unat (vr_lastCommitted s)] \<and>
     (\<forall>c a. vr_clientAddresses s c = Some a \<longrightarrow> n \<le> unat a) \<and>
     vr_lastBatchEnd s \<le> vr_lastOp s \<and>
     (0 < i \<longrightarrow> set (vr_timers s) \<subseteq> {TViewChange, TStateTransfer}) \<and>
     (TResendPrepare \<in> set (vr_timers s) \<longrightarrow> batch_ok (contents (vr_log s)) (vr_lastPrepare s))"

definition grows :: "'a VRReplica \<Rightarrow> 'a VRReplica \<Rightarrow> bool" where
  "grows s s' \<longleftrightarrow> prefix (contents (vr_log s)) (contents (vr_log s')) \<and> vr_lastCommitted s \<le> vr_lastCommitted s'"

text \<open>The effect of a handler: it sends, extends the log and commits.\<close>

definition stepped :: "nat \<Rightarrow> nat \<Rightarrow> nat \<Rightarrow> 'a VRReplica \<Rightarrow> 'a VRReplica \<Rightarrow> bool" where
  "stepped n f i s s' \<longleftrightarrow> base_ok n f i s' \<and> grows s s' \<and> vr_prepareOKQuorum s' = vr_prepareOKQuorum s \<and>
     (\<exists>ms. vr_sent s' = vr_sent s @ ms \<and> list_all (sent_ok n i s') ms)"

lemma batch_ok_mono: "batch_ok L p \<Longrightarrow> prefix L L' \<Longrightarrow> batch_ok L' p"
  by (auto simp: batch_ok_def elim!: prefixE)

lemma transfer_ok_mono: "transfer_ok L k es \<Longrightarrow> prefix L L' \<Longrightarrow> transfer_ok L' k es"
  by (cases "es = []") (auto simp: transfer_ok_def elim!: prefixE)

lemma grows_length: "grows s s' \<Longrightarrow> length (vl_entries (vr_log s)) \<le> length (vl_entries (vr_log s'))"
  using prefix_length_le by (fastforce simp: grows_def)

lemma sent_ok_mono:
  assumes "sent_ok n i s x" and "grows s s'" shows "sent_ok n i s' x"
proof -
  obtain d m where x: "x = (d, m)" by (cases x)
  show ?thesis
    using assms grows_length [OF assms(2)] unfolding x
    by (cases m) (auto simp: grows_def intro: batch_ok_mono order_trans)
qed

lemma grows_refl [simp]: "grows s s"
  by (simp add: grows_def)

lemma grows_trans: "grows s s' \<Longrightarrow> grows s' s'' \<Longrightarrow> grows s s''"
  by (auto simp: grows_def intro: prefix_order.trans)

lemma stepped_refl: "base_ok n f i s \<Longrightarrow> stepped n f i s s"
  by (simp add: stepped_def)

lemma stepped_trans: "stepped n f i s s' \<Longrightarrow> stepped n f i s' s'' \<Longrightarrow> stepped n f i s s''"
  unfolding stepped_def list_all_iff by (auto intro: grows_trans) (blast intro: sent_ok_mono)

lemma stepped_base: "stepped n f i s s' \<Longrightarrow> base_ok n f i s'"
  by (simp add: stepped_def)

section \<open>The parts of a handler\<close>

lemma leader_index_ok:
  assumes "base_ok n f i s" shows "leader_index s = Inr 0" and "AmLeader s = Inr (i = 0)"
proof -
  have n: "0 < n" "n < 2 ^ 31" using assms by (auto simp: base_ok_def)
  then have "unat (of_nat n :: u64) = n" by (intro unat_of_nat_u64) simp
  with n(1) have "(of_nat n :: u64) \<noteq> 0" by fastforce
  then show "leader_index s = Inr 0"
    using assms by (simp add: leader_index_def GetLeaderIndex_def umod_def base_ok_def int32_def)
  then show "AmLeader s = Inr (i = 0)"
    using assms by (auto simp: AmLeader_def base_ok_def)
qed

lemma stepped_send:
  assumes "base_ok n f i s" and "sent_ok n i s (d, m)" shows "stepped n f i s (vr_send s d m)"
proof -
  have "sent_ok n i (vr_send s d m) (d, m)"
    by (rule sent_ok_mono [OF assms(2)]) (simp add: grows_def vr_send_def)
  then show ?thesis using assms(1) by (simp add: stepped_def grows_def base_ok_def vr_send_def)
qed

lemma stepped_then_send: "stepped n f i s s' \<Longrightarrow> sent_ok n i s' (d, m) \<Longrightarrow> stepped n f i s (vr_send s' d m)"
  by (blast intro: stepped_trans stepped_send stepped_base)

text \<open>Changes of members that the invariant does not mention.\<close>

lemma stepped_local:
  assumes "stepped n f i s0 s" and "base_ok n f i s'" and "vr_log s' = vr_log s" and "vr_lastCommitted s' = vr_lastCommitted s"
    and "vr_sent s' = vr_sent s" and "vr_prepareOKQuorum s' = vr_prepareOKQuorum s"
  shows "stepped n f i s0 s'"
proof (rule stepped_trans [OF assms(1)])
  show "stepped n f i s s'" using assms(2-) by (simp add: stepped_def grows_def)
qed

lemma base_ok_timer:
  "base_ok n f i s \<Longrightarrow> (0 < i \<longrightarrow> t = TViewChange \<or> t = TStateTransfer) \<Longrightarrow>
     (t = TResendPrepare \<longrightarrow> batch_ok (contents (vr_log s)) (vr_lastPrepare s)) \<Longrightarrow> base_ok n f i (vr_start t s)"
  "base_ok n f i s \<Longrightarrow> base_ok n f i (vr_stop t s)"
  by (auto simp: base_ok_def vr_start_def vr_stop_def)

lemma base_ok_clients:
  "base_ok n f i s \<Longrightarrow> base_ok n f i (s\<lparr>vr_clientTable := t\<rparr>)"
  "base_ok n f i s \<Longrightarrow> base_ok n f i (s\<lparr>vr_app := a\<rparr>)"
  "base_ok n f i s \<Longrightarrow> base_ok n f i (UpdateClientTable s req)"
  by (simp_all add: base_ok_def UpdateClientTable_def Let_def)

lemma stepped_transfer: "base_ok n f i s \<Longrightarrow> 0 < i \<Longrightarrow> stepped n f i s (RequestStateTransfer s)"
proof -
  assume ok: "base_ok n f i s" and "0 < i"
  let ?s = "s\<lparr>vr_lastRequestStateTransferView := vr_view s, vr_lastRequestStateTransferOpnum := vr_lastCommitted s\<rparr>"
  have "stepped n f i s ?s" using ok by (simp add: stepped_def base_ok_def grows_def)
  moreover have "sent_ok n i ?s (VAll, RequestStateTransferMessage (vr_view s) (vr_lastCommitted s))"
    using ok \<open>0 < i\<close> by (simp add: base_ok_def)
  ultimately have "stepped n f i s (vr_send ?s VAll (RequestStateTransferMessage (vr_view s) (vr_lastCommitted s)))"
    by (rule stepped_then_send)
  then show ?thesis using stepped_refl [OF ok] by (simp add: RequestStateTransfer_def)
qed

lemma unat_succ: "x < (y :: u64) \<Longrightarrow> unat (x + 1) = Suc (unat x)"
proof -
  assume "x < y"
  then have "unat x + 1 < 2 ^ 64" using unsigned_less [of y, where 'a = nat] by (simp add: word_less_nat_alt)
  then show ?thesis by (simp add: unat_word_ariths(1))
qed

lemma commit_next_ok:
  assumes ok: "base_ok n f i s" and less: "vr_lastCommitted s < vr_lastOp s"
  obtains s' where "commit_next app s = Inr s'" and "stepped n f i s s'" and "vr_lastCommitted s' = vr_lastCommitted s + 1"
    and "contents (vr_log s') = contents (vr_log s)" and "vr_lastOp s' = vr_lastOp s"
proof -
  let ?op = "vr_lastCommitted s + 1" and ?e = "vl_entries (vr_log s) ! unat (vr_lastCommitted s)"
  have op: "unat ?op = Suc (unat (vr_lastCommitted s))" using unat_succ [OF less] .
  have lt: "unat (vr_lastCommitted s) < length (vl_entries (vr_log s))"
    using assms by (simp add: base_ok_def word_less_nat_alt)
  have wf: "vl_wf (vr_log s)" using ok by (simp add: base_ok_def)
  have find: "vl_Find (vr_log s) ?op = Some ?e"
    using lt op by (simp add: vl_Find_wf [OF wf] word_less_nat_alt)
  let ?l = "snd (vl_SetStatus (vr_log s) ?op LOG_STATE_COMMITTED)"
  obtain res a where up: "app_ReplicaUpcall app (vr_app s) ?op (vq_op (ve_request ?e)) = (res, a)"
    by (cases "app_ReplicaUpcall app (vr_app s) ?op (vq_op (ve_request ?e))")
  define s1 where "s1 = s\<lparr>vr_lastCommitted := ?op, vr_app := a, vr_executed := vr_executed s @ [(?op, ve_request ?e)], vr_log := ?l\<rparr>"
  define reply where "reply = \<lparr>vy_view = ve_view ?e, vy_opnum = ve_opnum ?e, vy_clientreqid = vq_clientreqid (ve_request ?e), vy_reply = res\<rparr>"
  note l = vl_SetStatus_wf [OF wf, of ?op LOG_STATE_COMMITTED]
  have "?op \<le> vr_lastOp s" using less op by (simp add: word_le_nat_alt word_less_nat_alt)
  moreover have "?op = of_nat (Suc (unat (vr_lastCommitted s)))" by (simp add: op [symmetric])
  ultimately have base: "base_ok n f i s1"
    using ok l lt op by (simp add: base_ok_def s1_def del: of_nat_Suc)
  obtain t where res: "commit_next app s = Inr (case vr_clientAddresses s (vq_clientid (ve_request ?e)) of
        None \<Rightarrow> s1\<lparr>vr_clientTable := t\<rparr> | Some addr \<Rightarrow> vr_send (s1\<lparr>vr_clientTable := t\<rparr>) (VAddr addr) (ReplyMessage reply))"
    unfolding commit_next_def s1_def reply_def by (simp add: find up Let_def)
  have "vr_lastCommitted s \<le> ?op" using op by (simp add: word_le_nat_alt)
  then have st: "stepped n f i s (s1\<lparr>vr_clientTable := t\<rparr>)"
    using base_ok_clients(1) [OF base] l by (simp add: stepped_def grows_def s1_def)
  show thesis
  proof (cases "vr_clientAddresses s (vq_clientid (ve_request ?e))")
    case None
    then show thesis using that res st l by (simp add: s1_def)
  next
    case (Some addr)
    then have "n \<le> unat addr" using ok by (auto simp: base_ok_def)
    then have "stepped n f i s (vr_send (s1\<lparr>vr_clientTable := t\<rparr>) (VAddr addr) (ReplyMessage reply))"
      by (intro stepped_then_send [OF st]) simp
    then show thesis using that res Some l by (simp add: s1_def vr_send_def)
  qed
qed

lemma base_ok_committed: "base_ok n f i s \<Longrightarrow> unat (vr_lastCommitted s) \<le> unat (vr_lastOp s)"
  by (simp add: base_ok_def word_le_nat_alt)

lemma CommitUpTo_ok:
  assumes "base_ok n f i s" and "op \<le> vr_lastOp s"
  obtains s' where "CommitUpTo app s op = Inr s'" and "stepped n f i s s'" and "vr_lastCommitted s' = max op (vr_lastCommitted s)"
    and "contents (vr_log s') = contents (vr_log s)" and "vr_lastOp s' = vr_lastOp s"
proof -
  have "\<exists>s'. commit_loop app k s = Inr s' \<and> stepped n f i s s' \<and> unat (vr_lastCommitted s') = unat (vr_lastCommitted s) + k \<and>
      contents (vr_log s') = contents (vr_log s) \<and> vr_lastOp s' = vr_lastOp s"
    if "base_ok n f i s" "unat (vr_lastCommitted s) + k \<le> unat (vr_lastOp s)" for k s
    using that
  proof (induction k arbitrary: s)
    case 0
    then show ?case by (simp add: stepped_refl)
  next
    case (Suc k)
    then have less: "vr_lastCommitted s < vr_lastOp s" by (simp add: word_less_nat_alt)
    obtain s1 where s1: "commit_next app s = Inr s1" "stepped n f i s s1" "vr_lastCommitted s1 = vr_lastCommitted s + 1"
      "contents (vr_log s1) = contents (vr_log s)" "vr_lastOp s1 = vr_lastOp s"
      by (rule commit_next_ok [OF Suc.prems(1) less])
    have u: "unat (vr_lastCommitted s1) = Suc (unat (vr_lastCommitted s))" using s1(3) unat_succ [OF less] by simp
    obtain s2 where "commit_loop app k s1 = Inr s2" "stepped n f i s1 s2" "unat (vr_lastCommitted s2) = unat (vr_lastCommitted s1) + k"
      "contents (vr_log s2) = contents (vr_log s1)" "vr_lastOp s2 = vr_lastOp s1"
      using Suc.IH [OF stepped_base [OF s1(2)]] Suc.prems(2) u s1(5) by auto
    with s1 u show ?case using stepped_trans [OF s1(2)] by simp
  qed
  moreover have "unat (vr_lastCommitted s) + (unat op - unat (vr_lastCommitted s)) \<le> unat (vr_lastOp s)"
    using base_ok_committed [OF assms(1)] assms(2) by (simp add: word_le_nat_alt)
  ultimately obtain s' where s':
    "CommitUpTo app s op = Inr s'" "stepped n f i s s'"
    "unat (vr_lastCommitted s') = unat (vr_lastCommitted s) + (unat op - unat (vr_lastCommitted s))"
    "contents (vr_log s') = contents (vr_log s)" "vr_lastOp s' = vr_lastOp s"
    using assms(1) unfolding CommitUpTo_def by blast
  have "vr_lastCommitted s' = max op (vr_lastCommitted s)"
    using s'(3) by (simp add: max_def word_le_nat_alt word_unat_eq_iff)
  with s' show thesis using that by blast
qed

lemma vr_Append_ok:
  assumes ok: "base_ok n f i s" and len: "Suc (length (vl_entries (vr_log s))) < 2 ^ 64 - 1"
  obtains s' where "vr_Append (s\<lparr>vr_lastOp := vr_lastOp s + 1\<rparr>) (Viewstamp 0 (vr_lastOp s + 1)) req = Inr s'"
    and "stepped n f i s s'" and "contents (vr_log s') = contents (vr_log s) @ [(0, req)]" and "vr_lastOp s' = vr_lastOp s + 1"
    and "vr_sent s' = vr_sent s" and "vr_lastBatchEnd s' = vr_lastBatchEnd s" and "vr_lastCommitted s' = vr_lastCommitted s"
proof -
  have wf: "vl_wf (vr_log s)" and last: "unat (vr_lastOp s) = length (vl_entries (vr_log s))"
    using ok by (simp_all add: base_ok_def)
  have op: "vr_lastOp s + 1 = of_nat (Suc (length (vl_entries (vr_log s))))"
    by (simp add: last [symmetric])
  have u: "unat (vr_lastOp s + 1) = Suc (unat (vr_lastOp s))"
    unfolding op last using len by (intro unat_of_nat_u64) simp
  obtain l where l: "vl_Append (\<lambda>h e. h) (vr_log s) (Viewstamp 0 (vr_lastOp s + 1)) req LOG_STATE_PREPARED = Inr l"
    "vl_wf l" "contents l = contents (vr_log s) @ [(0, req)]"
    by (rule vl_Append_wf [OF wf len, of "Viewstamp 0 (vr_lastOp s + 1)" "\<lambda>h e. h" req LOG_STATE_PREPARED]) (use op in auto)
  let ?s = "s\<lparr>vr_lastOp := vr_lastOp s + 1, vr_log := l\<rparr>"
  have le: "vr_lastOp s \<le> vr_lastOp s + 1" using u by (simp add: word_le_nat_alt)
  have len': "length (vl_entries l) = Suc (length (vl_entries (vr_log s)))"
    using arg_cong [OF l(3), of length] by simp
  have nth: "contents l ! k = contents (vr_log s) ! k" if "k < unat (vr_lastCommitted s)" for k
    using that base_ok_committed [OF ok] last l(3) by (simp add: nth_append del: contents_nth)
  have "base_ok n f i ?s"
    using ok l(2,3) u last le len' nth unfolding base_ok_def
    by (auto simp del: contents_nth of_nat_Suc intro: order_trans elim: batch_ok_mono)
  then have "stepped n f i s ?s" using l(3) by (simp add: stepped_def grows_def)
  with l show thesis using that [of ?s] by (simp add: vr_Append_def)
qed

lemma append_batch_ok:
  assumes "base_ok n f i s" and "prefix (contents (vr_log s)) L" and "length L < 2 ^ 64 - 1" and "fst ` set L \<subseteq> {0}"
    and "k \<le> length (vl_entries (vr_log s))" and "k + length rs \<le> length L" and "rs = map snd (take (length rs) (drop k L))"
  shows "\<exists>s'. append_batch 0 rs (of_nat k) s = Inr s' \<and> stepped n f i s s' \<and> prefix (contents (vr_log s')) L \<and>
    k + length rs \<le> length (vl_entries (vr_log s')) \<and> vr_lastCommitted s' = vr_lastCommitted s"
  using assms
proof (induction rs arbitrary: k s)
  case Nil
  then show ?case by (simp add: stepped_refl)
next
  case (Cons r rs)
  let ?m = "length (vl_entries (vr_log s))"
  have last: "unat (vr_lastOp s) = ?m" using Cons.prems(1) by (simp add: base_ok_def)
  have k: "k < length L" using Cons.prems(6) by simp
  have op: "of_nat k + 1 = (of_nat (Suc k) :: u64)" and u: "unat (of_nat (Suc k) :: u64) = Suc k"
    using unat_of_nat_u64 [of "Suc k"] k Cons.prems(3) by simp_all
  have dropk: "drop k L = L ! k # drop (Suc k) L" using k by (simp add: Cons_nth_drop_Suc)
  have r: "r = snd (L ! k)" and rs: "rs = map snd (take (length rs) (drop (Suc k) L))" and rlen: "Suc k + length rs \<le> length L"
    using Cons.prems(6,7) by (simp_all add: dropk)
  show ?case
  proof (cases "Suc k \<le> ?m")
    case True
    then have "(of_nat (Suc k) :: u64) \<le> vr_lastOp s" using last u by (simp add: word_le_nat_alt)
    then show ?thesis
      using Cons.IH [OF Cons.prems(1-4) True rlen rs] by (simp add: op del: of_nat_Suc)
  next
    case False
    then have m: "?m = k" using Cons.prems(5) by simp
    have nle: "\<not> (of_nat (Suc k) :: u64) \<le> vr_lastOp s" using last u m by (simp add: word_le_nat_alt)
    have nxt: "vr_lastOp s + 1 = of_nat (Suc k)" by (simp add: m [symmetric] last [symmetric])
    have "Suc ?m < 2 ^ 64 - 1" using m k Cons.prems(3) by simp
    then obtain s1 where s1: "vr_Append (s\<lparr>vr_lastOp := vr_lastOp s + 1\<rparr>) (Viewstamp 0 (vr_lastOp s + 1)) r = Inr s1"
      "stepped n f i s s1" "contents (vr_log s1) = contents (vr_log s) @ [(0, r)]" "vr_lastCommitted s1 = vr_lastCommitted s"
      by (rule vr_Append_ok [OF Cons.prems(1)])
    let ?s = "UpdateClientTable s1 r"
    have st: "stepped n f i s ?s"
      by (rule stepped_local [OF s1(2) base_ok_clients(3) [OF stepped_base [OF s1(2)]]]) (simp_all add: UpdateClientTable_def Let_def)
    have "L ! k = (0, r)" using k r Cons.prems(4) by (cases "L ! k") (force dest: nth_mem)
    then have "contents (vr_log s) @ [(0, r)] = take (Suc k) L"
      using Cons.prems(2) m k by (simp add: prefix_def take_Suc_conv_app_nth) (metis append_eq_conv_conj length_contents)
    then have c: "contents (vr_log ?s) = take (Suc k) L" using s1(3) by (simp add: UpdateClientTable_def Let_def)
    then have "prefix (contents (vr_log ?s)) L" by (simp add: take_is_prefix)
    moreover have "Suc k \<le> length (vl_entries (vr_log ?s))" using arg_cong [OF c, of length] k by simp
    ultimately obtain s' where "append_batch 0 rs (of_nat (Suc k)) ?s = Inr s'" "stepped n f i ?s s'" "prefix (contents (vr_log s')) L"
      "Suc k + length rs \<le> length (vl_entries (vr_log s'))" "vr_lastCommitted s' = vr_lastCommitted ?s"
      using Cons.IH [OF stepped_base [OF st] _ Cons.prems(3,4) _ rlen rs] by blast
    moreover have "vr_lastCommitted ?s = vr_lastCommitted s" using s1(4) by (simp add: UpdateClientTable_def Let_def)
    ultimately show ?thesis
      using stepped_trans [OF st] s1(1) nle nxt by (simp add: op del: of_nat_Suc)
  qed
qed

lemma send_prepareOK_ok:
  assumes "base_ok n f i s" and "0 < i" and "vp_view p = 0" and "unat (vp_opnum p) \<le> length (vl_entries (vr_log s))"
  obtains s' where "send_prepareOK s p = Inr s'" and "stepped n f i s s'" and "vr_log s' = vr_log s"
    and "vr_lastCommitted s' = vr_lastCommitted s"
proof -
  let ?m = "PrepareOKMessage \<lparr>vo_view = vp_view p, vo_opnum = vp_opnum p, vo_replicaIdx = vr_myIdx s\<rparr>"
  have "sent_ok n i s (VReplica 0, ?m)" using assms by (simp add: base_ok_def)
  then have "stepped n f i s (vr_send s (VReplica 0) ?m)" by (rule stepped_send [OF assms(1)])
  then show thesis using that leader_index_ok(1) [OF assms(1)] by (simp add: send_prepareOK_def vr_send_def)
qed

section \<open>The handlers of a follower\<close>

lemma prefix_length: "prefix (contents l) L \<Longrightarrow> length (vl_entries l) \<le> length L"
  using prefix_length_le by fastforce

lemma HandlePrepare_ok:
  assumes ok: "base_ok n f i s" and "0 < i" and pre: "prefix (contents (vr_log s)) L" and L: "length L < 2 ^ 64 - 1" "fst ` set L \<subseteq> {0}"
    and p: "batch_ok L p"
  obtains s' where "vr_HandlePrepare s r p = Inr s'" and "stepped n f i s s'" and "prefix (contents (vr_log s')) L"
    and "vr_lastCommitted s' = vr_lastCommitted s"
proof -
  let ?s = "vr_start TViewChange s" and ?k = "unat (vp_batchstart p) - 1"
  have ok1: "base_ok n f i ?s" using base_ok_timer(1) [OF ok] by simp
  have st1: "stepped n f i s ?s" by (rule stepped_local [OF stepped_refl [OF ok] ok1]) (simp_all add: vr_start_def)
  have log1: "vr_log ?s = vr_log s" "vr_lastOp ?s = vr_lastOp s" "vr_lastCommitted ?s = vr_lastCommitted s" by (simp_all add: vr_start_def)
  have last: "unat (vr_lastOp s) = length (vl_entries (vr_log s))" using ok by (simp add: base_ok_def)
  have b: "vp_view p = 0" "0 < vp_batchstart p" "unat (vp_opnum p) = ?k + length (vp_request p)" "unat (vp_opnum p) \<le> length L"
    "vp_request p = map snd (take (length (vp_request p)) (drop ?k L))"
    using p by (simp_all add: batch_ok_def)
  have hd: "vr_HandlePrepare s r p =
      (if vp_opnum p \<le> vr_lastOp ?s then send_prepareOK ?s p
       else if vp_batchstart p > vr_lastOp ?s + 1
       then Inr ((RequestStateTransfer ?s)\<lparr>vr_pendingPrepares := vr_pendingPrepares ?s @ [(r, p)]\<rparr>)
       else bindr (append_batch 0 (vp_request p) (vp_batchstart p - 1) ?s) (\<lambda>s. send_prepareOK s p))"
    using ok \<open>0 < i\<close> leader_index_ok(2) [OF ok] b(1) by (simp add: vr_HandlePrepare_def base_ok_def Let_def)
  show thesis
  proof (cases "vp_opnum p \<le> vr_lastOp ?s")
    case True
    then have "unat (vp_opnum p) \<le> length (vl_entries (vr_log ?s))" using last log1 by (simp add: word_le_nat_alt)
    then obtain s' where "send_prepareOK ?s p = Inr s'" "stepped n f i ?s s'" "vr_log s' = vr_log ?s" "vr_lastCommitted s' = vr_lastCommitted ?s"
      by (rule send_prepareOK_ok [OF ok1 \<open>0 < i\<close> b(1)])
    then show thesis using that stepped_trans [OF st1] True hd pre log1 by simp
  next
    case False
    show thesis
    proof (cases "vp_batchstart p > vr_lastOp ?s + 1")
      case True
      let ?t = "(RequestStateTransfer ?s)\<lparr>vr_pendingPrepares := vr_pendingPrepares ?s @ [(r, p)]\<rparr>"
      have st2: "stepped n f i s (RequestStateTransfer ?s)"
        by (rule stepped_trans [OF st1 stepped_transfer [OF ok1 \<open>0 < i\<close>]])
      have "base_ok n f i ?t" using stepped_base [OF st2] by (simp add: base_ok_def)
      then have "stepped n f i s ?t" by (rule stepped_local [OF st2]) simp_all
      moreover have "vr_log ?t = vr_log s" "vr_lastCommitted ?t = vr_lastCommitted s"
        by (simp_all add: RequestStateTransfer_def vr_send_def log1)
      ultimately show thesis using that True False hd pre by simp
    next
      case nTrue: False
      have "unat (vp_opnum p) > unat (vr_lastOp s)" using False log1 by (simp add: word_le_nat_alt)
      then have "unat (vr_lastOp s + 1) = Suc (unat (vr_lastOp s))" by (intro unat_succ [of _ "vp_opnum p"]) (simp add: word_less_nat_alt)
      then have k: "?k \<le> length (vl_entries (vr_log ?s))" using nTrue last log1 by (simp add: word_less_nat_alt)
      have bs: "vp_batchstart p - 1 = of_nat ?k" using b(2) by (simp add: of_nat_diff word_less_nat_alt Suc_leI)
      obtain s2 where s2: "append_batch 0 (vp_request p) (of_nat ?k) ?s = Inr s2" "stepped n f i ?s s2" "prefix (contents (vr_log s2)) L"
        "?k + length (vp_request p) \<le> length (vl_entries (vr_log s2))" "vr_lastCommitted s2 = vr_lastCommitted ?s"
        using append_batch_ok [OF ok1 _ L k _ b(5)] pre b(3,4) log1 by auto
      obtain s' where s': "send_prepareOK s2 p = Inr s'" "stepped n f i s2 s'" "vr_log s' = vr_log s2" "vr_lastCommitted s' = vr_lastCommitted s2"
        by (rule send_prepareOK_ok [OF stepped_base [OF s2(2)] \<open>0 < i\<close> b(1)]) (use s2(4) b(3) in auto)
      have "vr_HandlePrepare s r p = Inr s'" using hd False nTrue bs s2(1) s'(1) by simp
      moreover have "stepped n f i s s'" using st1 s2(2) s'(2) stepped_trans by metis
      ultimately show thesis using that s2(3,5) s'(3,4) log1(3) by simp
    qed
  qed
qed

lemma HandleCommit_ok:
  assumes ok: "base_ok n f i s" and "0 < i"
  obtains s' where "vr_HandleCommit app s 0 op = Inr s'" and "stepped n f i s s'" and "contents (vr_log s') = contents (vr_log s)"
    and "vr_lastCommitted s' = vr_lastCommitted s \<or> vr_lastCommitted s' = op"
proof -
  let ?s = "vr_start TViewChange s"
  have ok1: "base_ok n f i ?s" using base_ok_timer(1) [OF ok] by simp
  have st1: "stepped n f i s ?s" by (rule stepped_local [OF stepped_refl [OF ok] ok1]) (simp_all add: vr_start_def)
  have log1: "vr_log ?s = vr_log s" "vr_lastOp ?s = vr_lastOp s" "vr_lastCommitted ?s = vr_lastCommitted s" by (simp_all add: vr_start_def)
  have hd: "vr_HandleCommit app s 0 op = (if op \<le> vr_lastCommitted ?s then Inr ?s
      else if op > vr_lastOp ?s then Inr (RequestStateTransfer ?s) else CommitUpTo app ?s op)"
    using ok \<open>0 < i\<close> leader_index_ok(2) [OF ok] by (simp add: vr_HandleCommit_def base_ok_def)
  consider "op \<le> vr_lastCommitted ?s" | "\<not> op \<le> vr_lastCommitted ?s" "op > vr_lastOp ?s" | "\<not> op \<le> vr_lastCommitted ?s" "op \<le> vr_lastOp ?s"
    by fastforce
  then show thesis
  proof cases
    case 1
    then show thesis using that st1 hd log1 by simp
  next
    case 2
    have "stepped n f i s (RequestStateTransfer ?s)"
      by (rule stepped_trans [OF st1 stepped_transfer [OF ok1 \<open>0 < i\<close>]])
    then show thesis using that [of "RequestStateTransfer ?s"] 2 hd log1 by (simp add: RequestStateTransfer_def vr_send_def)
  next
    case 3
    obtain s' where s': "CommitUpTo app ?s op = Inr s'" "stepped n f i ?s s'" "vr_lastCommitted s' = max op (vr_lastCommitted ?s)"
      "contents (vr_log s') = contents (vr_log ?s)"
      by (rule CommitUpTo_ok [OF ok1 3(2)])
    have "stepped n f i s s'" by (rule stepped_trans [OF st1 s'(2)])
    then show thesis using that s' 3 hd log1 by (simp add: max_def split: if_splits)
  qed
qed

lemma transfer_ok_Cons:
  assumes "transfer_ok L k (e # es)"
  shows "transfer_ok L (Suc k) es" and "k < length L" and "L ! k = (ve_view e, ve_request e)" and "unat (ve_opnum e) = Suc k"
proof -
  show k: "k < length L" using assms by (simp add: transfer_ok_def)
  then have d: "drop k L = L ! k # drop (Suc k) L" by (simp add: Cons_nth_drop_Suc)
  have op: "\<forall>i < Suc (length es). unat (ve_opnum ((e # es) ! i)) = k + i + 1" using assms by (simp add: transfer_ok_def)
  then have "\<forall>i < length es. unat (ve_opnum (es ! i)) = Suc k + i + 1" by auto
  then show "transfer_ok L (Suc k) es" using assms by (auto simp: transfer_ok_def d)
  show "L ! k = (ve_view e, ve_request e)" using assms by (simp add: transfer_ok_def d)
  show "unat (ve_opnum e) = Suc k" using op by auto
qed

lemma install_transfer_ok:
  assumes "base_ok n f i s" and "prefix (contents (vr_log s)) L" and "length L < 2 ^ 64 - 1" and "fst ` set L \<subseteq> {0}"
    and "k \<le> length (vl_entries (vr_log s))" and "transfer_ok L k es"
  shows "\<exists>s'. install_transfer es old s = Inr (s', old) \<and> stepped n f i s s' \<and> prefix (contents (vr_log s')) L \<and>
    k + length es \<le> length (vl_entries (vr_log s')) \<and> vr_lastCommitted s' = vr_lastCommitted s"
  using assms
proof (induction es arbitrary: k s)
  case Nil
  then show ?case by (simp add: stepped_refl)
next
  case (Cons e es)
  let ?m = "length (vl_entries (vr_log s))"
  note e = transfer_ok_Cons [OF Cons.prems(6)]
  have last: "unat (vr_lastOp s) = ?m" and wf: "vl_wf (vr_log s)" using Cons.prems(1) by (simp_all add: base_ok_def)
  have view: "ve_view e = 0" using e(2,3) Cons.prems(4) by (force dest: nth_mem)
  have op: "ve_opnum e = of_nat (Suc k)" by (simp add: e(4) [symmetric])
  show ?case
  proof (cases "Suc k \<le> ?m")
    case True
    have "(ve_opnum e \<le> vr_lastCommitted s) \<or> (ve_opnum e \<le> vr_lastOp s \<and> vl_Find (vr_log s) (ve_opnum e) = Some (vl_entries (vr_log s) ! k))"
      using True last e(4) by (simp add: vl_Find_wf [OF wf] word_le_nat_alt word_less_nat_alt)
    moreover have "ve_view (vl_entries (vr_log s) ! k) = 0"
      using True Cons.prems(1) by (force simp: base_ok_def contents_def dest: nth_mem)
    ultimately have "install_transfer (e # es) old s = install_transfer es old s" using view by auto
    then show ?thesis using Cons.IH [OF Cons.prems(1-4) True e(1)] by simp
  next
    case False
    then have m: "?m = k" using Cons.prems(5) by simp
    have n1: "\<not> ve_opnum e \<le> vr_lastOp s" using last e(4) m by (simp add: word_le_nat_alt)
    then have n2: "\<not> ve_opnum e \<le> vr_lastCommitted s" using Cons.prems(1) by (auto simp: base_ok_def)
    have nxt: "vr_lastOp s + 1 = ve_opnum e" unfolding op by (simp add: m [symmetric] last [symmetric])
    have "Suc ?m < 2 ^ 64 - 1" using m e(2) Cons.prems(3) by simp
    then obtain s1 where s1: "vr_Append (s\<lparr>vr_lastOp := vr_lastOp s + 1\<rparr>) (Viewstamp 0 (vr_lastOp s + 1)) (ve_request e) = Inr s1"
      "stepped n f i s s1" "contents (vr_log s1) = contents (vr_log s) @ [(0, ve_request e)]" "vr_lastCommitted s1 = vr_lastCommitted s"
      by (rule vr_Append_ok [OF Cons.prems(1)])
    have c: "contents (vr_log s1) = take (Suc k) L"
      using s1(3) Cons.prems(2) m e(2,3) view
      by (simp add: prefix_def take_Suc_conv_app_nth) (metis append_eq_conv_conj length_contents)
    then have "prefix (contents (vr_log s1)) L" by (simp add: take_is_prefix)
    moreover have "Suc k \<le> length (vl_entries (vr_log s1))" using arg_cong [OF c, of length] e(2) by simp
    ultimately obtain s' where "install_transfer es old s1 = Inr (s', old)" "stepped n f i s1 s'" "prefix (contents (vr_log s')) L"
      "Suc k + length es \<le> length (vl_entries (vr_log s'))" "vr_lastCommitted s' = vr_lastCommitted s1"
      using Cons.IH [OF stepped_base [OF s1(2)] _ Cons.prems(3,4) _ e(1)] by blast
    then show ?thesis
      using stepped_trans [OF s1(2)] s1(1,4) n1 n2 nxt view by simp
  qed
qed

lemma prepare_oks_ok:
  assumes "base_ok n f i s" and "0 < i" and "\<forall>k \<in> set is. k \<le> length (vl_entries (vr_log s))"
  shows "\<exists>s'. prepare_oks is s = Inr s' \<and> stepped n f i s s' \<and> vr_log s' = vr_log s \<and> vr_lastCommitted s' = vr_lastCommitted s"
  using assms(1,3)
proof (induction "is" arbitrary: s)
  case Nil
  then show ?case by (simp add: stepped_refl)
next
  case (Cons k ks)
  show ?case
  proof (cases "of_nat k \<le> vr_lastCommitted s")
    case True
    then show ?thesis using Cons by simp
  next
    case False
    have wf: "vl_wf (vr_log s)" using Cons.prems(1) by (simp add: base_ok_def)
    have u: "unat (of_nat k :: u64) = k" using Cons.prems(2) wf by (intro unat_of_nat_u64) (simp add: vl_wf_def)
    have "0 < k" using False by (cases k) simp_all
    then obtain e where find: "vl_Find (vr_log s) (of_nat k) = Some e"
      using Cons.prems(2) u by (simp add: vl_Find_wf [OF wf] word_less_nat_alt)
    let ?s = "UpdateClientTable s (ve_request e)"
    let ?m = "PrepareOKMessage \<lparr>vo_view = vr_view ?s, vo_opnum = of_nat k, vo_replicaIdx = vr_myIdx ?s\<rparr>"
    have ok1: "base_ok n f i ?s" by (rule base_ok_clients(3) [OF Cons.prems(1)])
    have same: "vr_log ?s = vr_log s" "vr_lastCommitted ?s = vr_lastCommitted s" "vr_sent ?s = vr_sent s"
      "vr_prepareOKQuorum ?s = vr_prepareOKQuorum s" by (simp_all add: UpdateClientTable_def Let_def)
    have st1: "stepped n f i s ?s" by (rule stepped_local [OF stepped_refl [OF Cons.prems(1)] ok1]) (use same in simp_all)
    have "sent_ok n i ?s (VReplica 0, ?m)"
      using ok1 assms(2) Cons.prems(2) u same by (simp add: base_ok_def)
    then have st2: "stepped n f i s (vr_send ?s (VReplica 0) ?m)" by (rule stepped_then_send [OF st1])
    have log2: "vr_log (vr_send ?s (VReplica 0) ?m) = vr_log s" "vr_lastCommitted (vr_send ?s (VReplica 0) ?m) = vr_lastCommitted s"
      using same by (simp_all add: vr_send_def)
    obtain s' where "prepare_oks ks (vr_send ?s (VReplica 0) ?m) = Inr s'" "stepped n f i (vr_send ?s (VReplica 0) ?m) s'"
      "vr_log s' = vr_log s" "vr_lastCommitted s' = vr_lastCommitted s"
      using Cons.IH [OF stepped_base [OF st2]] Cons.prems(2) log2 by auto
    then show ?thesis
      using False find leader_index_ok(1) [OF ok1] stepped_trans [OF st2] by (simp add: Let_def)
  qed
qed

lemma HandleStateTransfer_ok:
  assumes ok: "base_ok n f i s" and "0 < i" and pre: "prefix (contents (vr_log s)) L" and L: "length L < 2 ^ 64 - 1" "fst ` set L \<subseteq> {0}"
    and es: "transfer_ok L k es" "k \<le> unat (vr_lastCommitted s)" "unat op \<le> k + length es"
  obtains s' where "vr_HandleStateTransfer app s 0 op es = Inr s'" and "stepped n f i s s'" and "prefix (contents (vr_log s')) L"
    and "vr_lastCommitted s' = max op (vr_lastCommitted s)"
proof -
  have "k \<le> length (vl_entries (vr_log s))" using es(2) base_ok_committed [OF ok] ok by (simp add: base_ok_def)
  then obtain s1 where s1: "install_transfer es (vr_lastOp s) s = Inr (s1, vr_lastOp s)" "stepped n f i s s1" "prefix (contents (vr_log s1)) L"
    "k + length es \<le> length (vl_entries (vr_log s1))" "vr_lastCommitted s1 = vr_lastCommitted s"
    using install_transfer_ok [OF ok pre L _ es(1)] by blast
  note ok1 = stepped_base [OF s1(2)]
  have "op \<le> vr_lastOp s1" using es(3) s1(4) ok1 by (simp add: base_ok_def word_le_nat_alt)
  then obtain s2 where s2: "CommitUpTo app s1 op = Inr s2" "stepped n f i s1 s2" "vr_lastCommitted s2 = max op (vr_lastCommitted s1)"
    "contents (vr_log s2) = contents (vr_log s1)"
    by (rule CommitUpTo_ok [OF ok1])
  note ok2 = stepped_base [OF s2(2)]
  have "\<forall>j \<in> set [unat (vr_lastOp s)..<Suc (unat (vr_lastOp s2))]. j \<le> length (vl_entries (vr_log s2))"
    using ok2 by (auto simp: base_ok_def)
  then obtain s3 where s3: "SendPrepareOKs s2 (vr_lastOp s) = Inr s3" "stepped n f i s2 s3" "vr_log s3 = vr_log s2"
    "vr_lastCommitted s3 = vr_lastCommitted s2"
    using prepare_oks_ok [OF ok2 \<open>0 < i\<close>] unfolding SendPrepareOKs_def by blast
  let ?s = "s3\<lparr>vr_pendingPrepares := []\<rparr>"
  have "stepped n f i s s3" using s1(2) s2(2) s3(2) stepped_trans by metis
  moreover have "base_ok n f i ?s" using stepped_base [OF s3(2)] by (simp add: base_ok_def)
  ultimately have "stepped n f i s ?s" by (rule stepped_local) simp_all
  moreover have "vr_view s1 = 0" "vr_view s = 0" using ok1 ok by (simp_all add: base_ok_def)
  ultimately show thesis
    using that [of ?s] s1 s2 s3 by (simp add: vr_HandleStateTransfer_def)
qed

section \<open>The handlers of the leader and of all replicas\<close>

lemma batch_requests_ok:
  assumes "vl_wf l" and "\<forall>i \<in> set is. 0 < i \<and> i \<le> length (vl_entries l)"
  shows "batch_requests l is = Inr (map (\<lambda>i. ve_request (vl_entries l ! (i - 1))) is)"
  using assms(2)
proof (induction "is")
  case (Cons i "is")
  moreover from Cons.prems have "i < 2 ^ 64" using assms(1) by (auto simp: vl_wf_def)
  ultimately show ?case
    by (simp add: vl_Find_wf [OF assms(1)] word_less_nat_alt unat_of_nat_u64)
qed simp

lemma CloseBatch_ok:
  assumes ok: "base_ok n f 0 s"
  obtains s' where "CloseBatch s = Inr s'" and "stepped n f 0 s s'" and "vr_log s' = vr_log s"
    and "vr_lastCommitted s' = vr_lastCommitted s"
proof -
  let ?b = "unat (vr_lastBatchEnd s)" and ?m = "length (vl_entries (vr_log s))"
  have wf: "vl_wf (vr_log s)" and last: "unat (vr_lastOp s) = ?m" and bm: "?b \<le> ?m" and view: "vr_view s = 0"
    using ok by (simp_all add: base_ok_def word_le_nat_alt)
  have b1: "unat (vr_lastBatchEnd s + 1) = Suc ?b"
    using bm wf by (simp add: unat_word_ariths(1) vl_wf_def)
  let ?rs = "map (\<lambda>i. ve_request (vl_entries (vr_log s) ! (i - 1))) [Suc ?b..<Suc ?m]"
  let ?p = "\<lparr>vp_view = vr_view s, vp_opnum = vr_lastOp s, vp_batchstart = vr_lastBatchEnd s + 1, vp_request = ?rs\<rparr>"
  have batch: "batch_requests (vr_log s) [unat (vr_lastBatchEnd s + 1)..<Suc (unat (vr_lastOp s))] = Inr ?rs"
    unfolding b1 last by (rule batch_requests_ok [OF wf]) auto
  have "?rs = map snd (drop ?b (contents (vr_log s)))"
    using bm by (intro nth_equalityI) (auto simp del: upt_Suc)
  then have p: "batch_ok (contents (vr_log s)) ?p"
    using bm last b1 view unfolding batch_ok_def by (simp add: word_less_nat_alt del: upt_Suc)
  let ?t = "vr_send (s\<lparr>vr_lastPrepare := ?p\<rparr>) VAll (PrepareMessage ?p)"
  let ?s = "vr_stop TCloseBatch (vr_start TResendPrepare (?t\<lparr>vr_lastBatchEnd := vr_lastOp ?t\<rparr>))"
  have ok1: "base_ok n f 0 (s\<lparr>vr_lastPrepare := ?p\<rparr>)" using ok p by (simp add: base_ok_def)
  have st1: "stepped n f 0 s (s\<lparr>vr_lastPrepare := ?p\<rparr>)" by (rule stepped_local [OF stepped_refl [OF ok] ok1]) simp_all
  have st2: "stepped n f 0 s ?t" by (rule stepped_then_send [OF st1]) (use p in simp)
  have "base_ok n f 0 (?t\<lparr>vr_lastBatchEnd := vr_lastOp ?t\<rparr>)" using stepped_base [OF st2] by (simp add: base_ok_def)
  then have "base_ok n f 0 ?s" using p by (intro base_ok_timer) (simp_all add: vr_send_def)
  then have "stepped n f 0 s ?s" by (rule stepped_local [OF st2]) (simp_all add: vr_start_def vr_stop_def)
  moreover have "CloseBatch s = Inr ?s" unfolding CloseBatch_def Let_def batch by simp
  ultimately show thesis using that by (simp add: vr_start_def vr_stop_def vr_send_def)
qed

lemma replicate_request_ok:
  assumes ok: "base_ok n f 0 s" and len: "Suc (length (vl_entries (vr_log s))) < 2 ^ 64 - 1"
  obtains s' where "replicate_request s req = Inr s'" and "stepped n f 0 s s'"
    and "contents (vr_log s') = contents (vr_log s) @ [(0, req)]" and "vr_lastCommitted s' = vr_lastCommitted s"
proof -
  have view: "vr_view s = 0" using ok by (simp add: base_ok_def)
  obtain s1 where s1: "vr_Append (s\<lparr>vr_lastOp := vr_lastOp s + 1\<rparr>) (Viewstamp 0 (vr_lastOp s + 1)) req = Inr s1"
    "stepped n f 0 s s1" "contents (vr_log s1) = contents (vr_log s) @ [(0, req)]" "vr_lastCommitted s1 = vr_lastCommitted s"
    by (rule vr_Append_ok [OF ok len])
  let ?cond = "vr_lastOp s1 - vr_lastBatchEnd s1 + 1 > ucast (vr_batchSize s1)"
  have "\<exists>s2. (if ?cond then CloseBatch s1 else Inr (vr_start TCloseBatch s1)) = Inr s2 \<and> stepped n f 0 s1 s2 \<and>
      vr_log s2 = vr_log s1 \<and> vr_lastCommitted s2 = vr_lastCommitted s1"
  proof (cases ?cond)
    case True
    with CloseBatch_ok [OF stepped_base [OF s1(2)]] show ?thesis by metis
  next
    case False
    have "base_ok n f 0 (vr_start TCloseBatch s1)" by (rule base_ok_timer) (use stepped_base [OF s1(2)] in simp_all)
    then have "stepped n f 0 s1 (vr_start TCloseBatch s1)"
      by (rule stepped_local [OF stepped_refl [OF stepped_base [OF s1(2)]]]) (simp_all add: vr_start_def)
    with False show ?thesis by (simp add: vr_start_def)
  qed
  then obtain s2 where s2: "(if ?cond then CloseBatch s1 else Inr (vr_start TCloseBatch s1)) = Inr s2" "stepped n f 0 s1 s2"
    "vr_log s2 = vr_log s1" "vr_lastCommitted s2 = vr_lastCommitted s1" by blast
  have "base_ok n f 0 (vr_start TNullCommit s2)" by (rule base_ok_timer) (use stepped_base [OF s2(2)] in simp_all)
  then have "stepped n f 0 s (vr_start TNullCommit s2)"
    by (rule stepped_local [OF stepped_trans [OF s1(2) s2(2)]]) (simp_all add: vr_start_def)
  moreover have "replicate_request s req = Inr (vr_start TNullCommit s2)"
    using s1(1) s2(1) view by (simp add: replicate_request_def)
  ultimately show thesis using that s1(3,4) s2(3,4) by (simp add: vr_start_def)
qed

lemma HandleRequest_ok:
  assumes ok: "base_ok n f i s" and len: "Suc (length (vl_entries (vr_log s))) < 2 ^ 64 - 1" and a: "n \<le> unat a"
  obtains s' where "vr_HandleRequest app s a req = Inr s'" and "stepped n f i s s'" and "vr_lastCommitted s' = vr_lastCommitted s"
    and "0 < i \<longrightarrow> vr_log s' = vr_log s" and "length (vl_entries (vr_log s')) \<le> Suc (length (vl_entries (vr_log s)))"
proof (cases "i = 0")
  case False
  then have "vr_HandleRequest app s a req = Inr s"
    using ok leader_index_ok(2) [OF ok] by (simp add: vr_HandleRequest_def base_ok_def)
  then show thesis using that stepped_refl [OF ok] by simp
next
  case True
  let ?c = "vq_clientid req"
  define s1 where "s1 = s\<lparr>vr_clientAddresses := (vr_clientAddresses s)(?c \<mapsto> a)\<rparr>"
  have ok1: "base_ok n f i s1" using ok a by (simp add: base_ok_def s1_def)
  have st1: "stepped n f i s s1" by (rule stepped_local [OF stepped_refl [OF ok] ok1]) (simp_all add: s1_def)
  have same1: "vr_log s1 = vr_log s" "vr_lastCommitted s1 = vr_lastCommitted s" by (simp_all add: s1_def)
  obtain rep res ap where up: "app_LeaderUpcall app (vr_app (UpdateClientTable s1 req)) (vr_lastCommitted (UpdateClientTable s1 req)) (vq_op req) = ((rep, res), ap)"
    by (cases "app_LeaderUpcall app (vr_app (UpdateClientTable s1 req)) (vr_lastCommitted (UpdateClientTable s1 req)) (vq_op req)") auto
  define s2 where "s2 = (UpdateClientTable s1 req)\<lparr>vr_app := ap\<rparr>"
  have ok2: "base_ok n f i s2" unfolding s2_def by (intro base_ok_clients ok1)
  have st2: "stepped n f i s s2" by (rule stepped_local [OF st1 ok2]) (simp_all add: s2_def UpdateClientTable_def Let_def)
  have same2: "vr_log s2 = vr_log s" "vr_lastCommitted s2 = vr_lastCommitted s" using same1 by (simp_all add: s2_def UpdateClientTable_def Let_def)
  have t2: "vr_clientTable (UpdateClientTable s1 req) = vr_clientTable s2" by (simp add: s2_def)
  let ?m = "ReplyMessage \<lparr>vy_view = 0, vy_opnum = 0, vy_clientreqid = vq_clientreqid req, vy_reply = res\<rparr>"
  let ?r = "\<lparr>vq_op = res, vq_clientid = ?c, vq_clientreqid = vq_clientreqid req\<rparr>"
  let ?cte = "(client_entry s2 ?c)\<lparr>ct_replied := True, ct_reply := \<lparr>vy_view = 0, vy_opnum = 0, vy_clientreqid = vq_clientreqid req, vy_reply = res\<rparr>\<rparr>"
  let ?s3 = "s2\<lparr>vr_clientTable := (vr_clientTable s2)(?c \<mapsto> ?cte)\<rparr>"
  let ?fresh = "if \<not> rep then Inr (vr_send ?s3 (VAddr a) ?m) else replicate_request s2 ?r"
  have hd: "vr_HandleRequest app s a req = (case vr_clientTable s1 ?c of None \<Rightarrow> ?fresh
     | Some entry \<Rightarrow> if vq_clientreqid req < ct_lastReqId entry then Inr s1
         else if vq_clientreqid req = ct_lastReqId entry
         then Inr (if ct_replied entry then vr_send s1 (VAddr a) (ReplyMessage (ct_reply entry)) else s1) else ?fresh)"
    using ok True leader_index_ok(2) [OF ok] t2
    unfolding vr_HandleRequest_def Let_def s1_def [symmetric] up by (simp add: base_ok_def s2_def [symmetric] split: option.split)
  have "\<exists>s'. ?fresh = Inr s' \<and> stepped n f i s s' \<and> vr_lastCommitted s' = vr_lastCommitted s \<and>
      length (vl_entries (vr_log s')) \<le> Suc (length (vl_entries (vr_log s)))"
  proof (cases rep)
    case False
    have "stepped n f i s ?s3" by (rule stepped_local [OF st2 base_ok_clients(1) [OF ok2]]) simp_all
    then have "stepped n f i s (vr_send ?s3 (VAddr a) ?m)" by (rule stepped_then_send) (use a in simp)
    with False same2 show ?thesis by (simp add: vr_send_def)
  next
    case rep: True
    have "Suc (length (vl_entries (vr_log s2))) < 2 ^ 64 - 1" using len same2 by simp
    then obtain s' where s': "replicate_request s2 ?r = Inr s'" "stepped n f 0 s2 s'"
      "contents (vr_log s') = contents (vr_log s2) @ [(0, ?r)]" "vr_lastCommitted s' = vr_lastCommitted s2"
      by (rule replicate_request_ok [OF ok2 [unfolded True]])
    have "stepped n f i s s'" using stepped_trans [OF st2] s'(2) True by simp
    moreover have "length (vl_entries (vr_log s')) = Suc (length (vl_entries (vr_log s)))"
      using arg_cong [OF s'(3), of length] same2 by simp
    ultimately show ?thesis using rep s'(1,4) same2 by simp
  qed
  then obtain s4 where s4: "?fresh = Inr s4" "stepped n f i s s4" "vr_lastCommitted s4 = vr_lastCommitted s"
    "length (vl_entries (vr_log s4)) \<le> Suc (length (vl_entries (vr_log s)))" by blast
  have resend: "stepped n f i s (vr_send s1 (VAddr a) (ReplyMessage m))" for m
    by (rule stepped_then_send [OF st1]) (use a in simp)
  note hd = hd [unfolded s4(1)]
  show thesis
  proof (cases "vr_clientTable s1 ?c")
    case None
    then have "vr_HandleRequest app s a req = Inr s4" using hd by simp
    then show thesis by (rule that [OF _ s4(2,3) _ s4(4)]) (simp add: True)
  next
    case (Some entry)
    consider "vq_clientreqid req < ct_lastReqId entry" | "vq_clientreqid req = ct_lastReqId entry" "ct_replied entry"
      | "vq_clientreqid req = ct_lastReqId entry" "\<not> ct_replied entry" | "ct_lastReqId entry < vq_clientreqid req" by fastforce
    then show thesis
    proof cases
      case 1
      then have "vr_HandleRequest app s a req = Inr s1" using hd Some by simp
      then show thesis by (rule that [OF _ st1]) (simp_all add: same1)
    next
      case 2
      then have "vr_HandleRequest app s a req = Inr (vr_send s1 (VAddr a) (ReplyMessage (ct_reply entry)))"
        using hd Some by simp
      then show thesis by (rule that [OF _ resend]) (simp_all add: same1 vr_send_def)
    next
      case 3
      then have "vr_HandleRequest app s a req = Inr s1" using hd Some by simp
      then show thesis by (rule that [OF _ st1]) (simp_all add: same1)
    next
      case 4
      then have "vr_HandleRequest app s a req = Inr s4" using hd Some by simp
      then show thesis by (rule that [OF _ s4(2,3) _ s4(4)]) (simp add: True)
    qed
  qed
qed

lemma HandlePrepareOK_ok:
  assumes ok: "base_ok n f 0 s" and view: "vo_view m = 0" and op: "unat (vo_opnum m) \<le> length (vl_entries (vr_log s))"
    and q: "qs_numRequired (vr_prepareOKQuorum s) = int f"
  defines "q' \<equiv> qs_Add (vr_prepareOKQuorum s) (Viewstamp 0 (vo_opnum m)) (vo_replicaIdx m) m"
  obtains s' where "vr_HandlePrepareOK app s m = Inr s'" and "stepped n f 0 (s\<lparr>vr_prepareOKQuorum := q'\<rparr>) s'"
    and "contents (vr_log s') = contents (vr_log s)"
    and "vr_lastCommitted s' = vr_lastCommitted s \<or>
      vr_lastCommitted s' = vo_opnum m \<and> f \<le> length (qs_at q' (Viewstamp 0 (vo_opnum m)))"
proof -
  let ?vs = "Viewstamp 0 (vo_opnum m)" and ?s = "s\<lparr>vr_prepareOKQuorum := q'\<rparr>"
  have ok1: "base_ok n f 0 ?s" using ok by (simp add: base_ok_def)
  have leader: "AmLeader s = Inr True" using leader_index_ok(2) [OF ok] by simp
  have add: "AddAndCheckForQuorum (vr_prepareOKQuorum s) ?vs (vo_replicaIdx m) m =
      (if int f \<le> int (length (qs_at q' ?vs)) then Some (qs_at q' ?vs) else None, q')"
    using q unfolding q'_def by (simp add: qs_Add_def AddAndCheckForQuorum_def CheckForQuorum_def Let_def qs_at_def)
  show thesis
  proof (cases "f \<le> length (qs_at q' ?vs)")
    case False
    then have "vr_HandlePrepareOK app s m = Inr ?s"
      using ok leader view add by (simp add: vr_HandlePrepareOK_def base_ok_def)
    then show thesis using that stepped_refl [OF ok1] by simp
  next
    case True
    have "vo_opnum m \<le> vr_lastOp ?s" using op ok by (simp add: base_ok_def word_le_nat_alt)
    then obtain s1 where s1: "CommitUpTo app ?s (vo_opnum m) = Inr s1" "stepped n f 0 ?s s1"
      "vr_lastCommitted s1 = max (vo_opnum m) (vr_lastCommitted ?s)" "contents (vr_log s1) = contents (vr_log ?s)"
      by (rule CommitUpTo_ok [OF ok1])
    let ?m = "CommitMessage (vr_view s1) (vr_lastCommitted s1)"
    have "sent_ok n 0 s1 (VAll, ?m)" using stepped_base [OF s1(2)] by (simp add: base_ok_def)
    then have st: "stepped n f 0 ?s (vr_send s1 VAll ?m)" by (rule stepped_then_send [OF s1(2)])
    have "base_ok n f 0 (vr_start TNullCommit (vr_send s1 VAll ?m))" by (rule base_ok_timer) (use stepped_base [OF st] in simp_all)
    then have "stepped n f 0 ?s (vr_start TNullCommit (vr_send s1 VAll ?m))"
      by (rule stepped_local [OF st]) (simp_all add: vr_start_def)
    moreover have "vr_HandlePrepareOK app s m = Inr s1 \<or> vr_HandlePrepareOK app s m = Inr (vr_start TNullCommit (vr_send s1 VAll ?m))"
      using ok leader view add True s1(1) by (simp add: vr_HandlePrepareOK_def base_ok_def)
    moreover have "vr_lastCommitted s1 = vr_lastCommitted s \<or> vr_lastCommitted s1 = vo_opnum m" using s1(3) by (simp add: max_def)
    moreover have "vr_log (vr_start TNullCommit (vr_send s1 VAll ?m)) = vr_log s1"
      "vr_lastCommitted (vr_start TNullCommit (vr_send s1 VAll ?m)) = vr_lastCommitted s1"
      by (simp_all add: vr_start_def vr_send_def)
    moreover have "contents (vr_log s1) = contents (vr_log s)" using s1(4) by simp
    ultimately show thesis using that s1(2) True by metis
  qed
qed

lemma HandleUnloggedRequest_ok:
  assumes ok: "base_ok n f i s" and a: "n \<le> unat a"
  obtains s' where "vr_HandleUnloggedRequest app s a req = Inr s'" and "stepped n f i s s'" and "vr_log s' = vr_log s"
    and "vr_lastCommitted s' = vr_lastCommitted s"
proof -
  obtain res ap where up: "app_UnloggedUpcall app (vr_app s) (vq_op req) = (res, ap)"
    by (cases "app_UnloggedUpcall app (vr_app s) (vq_op req)")
  let ?s = "s\<lparr>vr_app := ap\<rparr>" and ?m = "UnloggedReplyMessage res (vq_clientreqid req)"
  have "stepped n f i s ?s" by (rule stepped_local [OF stepped_refl [OF ok] base_ok_clients(2) [OF ok]]) simp_all
  then have "stepped n f i s (vr_send ?s (VAddr a) ?m)" by (rule stepped_then_send) (use a in simp)
  moreover have "vr_HandleUnloggedRequest app s a req = Inr (vr_send ?s (VAddr a) ?m)"
    using ok up by (simp add: vr_HandleUnloggedRequest_def base_ok_def)
  ultimately show thesis using that by (simp add: vr_send_def)
qed

lemma HandleRequestStateTransfer_ok:
  assumes ok: "base_ok n f i s" and op: "unat op < 2 ^ 64 - 1"
  shows "vr_HandleRequestStateTransfer s remote 0 op =
      Inr (vr_send s (VAddr remote) (StateTransferMessage 0 (vr_lastCommitted s) (drop (unat op) (vl_entries (vr_log s)))))"
    and "transfer_ok (contents (vr_log s)) (unat op) (drop (unat op) (vl_entries (vr_log s)))"
proof -
  have wf: "vl_wf (vr_log s)" using ok by (simp add: base_ok_def)
  have u: "unat (op + 1) = Suc (unat op)" using op by (simp add: unat_word_ariths(1))
  then have "unat (max (op + 1) 1) - 1 = unat op" by (simp add: max_def word_le_nat_alt)
  then show "vr_HandleRequestStateTransfer s remote 0 op =
      Inr (vr_send s (VAddr remote) (StateTransferMessage 0 (vr_lastCommitted s) (drop (unat op) (vl_entries (vr_log s)))))"
    using ok vl_Dump_wf [OF wf, of "op + 1"] by (simp add: vr_HandleRequestStateTransfer_def base_ok_def)
  have "unat (ve_opnum (vl_entries (vr_log s) ! j)) = Suc j" if "j < length (vl_entries (vr_log s))" for j
    using that wf unat_of_nat_u64 [of "Suc j"] by (simp add: vl_wf_def del: of_nat_Suc)
  then show "transfer_ok (contents (vr_log s)) (unat op) (drop (unat op) (vl_entries (vr_log s)))"
    by (auto simp: transfer_ok_def contents_def drop_map)
qed

lemma timeout_ok:
  assumes ok: "base_ok n f i s" and "t \<in> set (vr_timers s)" and "t \<noteq> TViewChange"
  obtains s' where "vr_timeout s t = Inr s'" and "stepped n f i s s'" and "vr_log s' = vr_log s" and "vr_lastCommitted s' = vr_lastCommitted s"
proof (cases t)
  case TStateTransfer
  let ?s = "s\<lparr>vr_lastRequestStateTransferView := 0, vr_lastRequestStateTransferOpnum := 0\<rparr>"
  have "base_ok n f i ?s" using ok by (simp add: base_ok_def)
  then have "stepped n f i s ?s" by (rule stepped_local [OF stepped_refl [OF ok]]) simp_all
  then show thesis using that [of ?s] TStateTransfer by simp
next
  case TNullCommit
  then have "i = 0" using assms by (auto simp: base_ok_def)
  then have "stepped n f i s (SendNullCommit s)" unfolding SendNullCommit_def
    by (intro stepped_send [OF ok]) (use ok in \<open>simp add: base_ok_def\<close>)
  then show thesis using that [of "SendNullCommit s"] TNullCommit by (simp add: SendNullCommit_def vr_send_def)
next
  case TResendPrepare
  then have i: "i = 0" and p: "batch_ok (contents (vr_log s)) (vr_lastPrepare s)" using assms by (auto simp: base_ok_def)
  have "stepped n f i s (vr_send s VAll (PrepareMessage (vr_lastPrepare s)))"
    by (rule stepped_send [OF ok]) (use i p in simp)
  then show thesis using that [of "vr_ResendPrepare s"] TResendPrepare stepped_refl [OF ok] by (simp add: vr_ResendPrepare_def vr_send_def)
next
  case TCloseBatch
  then have i: "i = 0" using assms by (auto simp: base_ok_def)
  with ok have "base_ok n f 0 s" by simp
  from CloseBatch_ok [OF this] show thesis using that i TCloseBatch by (metis vr_timeout.simps(5))
qed (use assms in simp)

end
