(* ===== verification/VRGroup.thy ===== *)
theory VRGroup
  imports VRNormal
begin

text \<open>
  The invariant of a group of viewstamped-replication replicas that stays in its first view, and what
  follows for the operations they execute.
\<close>

section \<open>The invariant of the group\<close>

text \<open>Stored up to an operation number by \<open>f + 1\<close> replicas.\<close>

definition durable :: "nat \<Rightarrow> 'a VRReplica list \<Rightarrow> u64 \<Rightarrow> bool" where
  "durable f R c \<longleftrightarrow> c = 0 \<or> f + 1 \<le> card {j. j < length R \<and> unat c \<le> length (vl_entries (vr_log (R ! j)))}"

text \<open>A state transfer continues what the requester has committed with a part of the log of the leader.\<close>

definition state_transfer_ok :: "nat \<Rightarrow> 'a VRReplica list \<Rightarrow> vr_dest \<times> vr_msg \<Rightarrow> bool" where
  "state_transfer_ok f R x \<longleftrightarrow> (\<exists>a op es k. x = (VAddr a, StateTransferMessage 0 op es) \<and> 0 < unat a \<and> unat a < length R \<and>
     k \<le> unat (vr_lastCommitted (R ! unat a)) \<and> transfer_ok (contents (vr_log (R ! 0))) k es \<and> unat op \<le> k + length es \<and> durable f R op)"

definition member_ok :: "nat \<Rightarrow> nat \<Rightarrow> 'a VRReplica list \<Rightarrow> nat \<Rightarrow> bool" where
  "member_ok n f R i \<longleftrightarrow> base_ok n f i (R ! i) \<and> prefix (contents (vr_log (R ! i))) (contents (vr_log (R ! 0))) \<and>
     durable f R (vr_lastCommitted (R ! i)) \<and>
     (\<forall>x \<in> set (vr_sent (R ! i)). sent_ok n i (R ! i) x \<or> state_transfer_ok f R x)"

text \<open>The leader has collected acknowledgements of followers that have stored the operation.\<close>

definition votes_ok :: "'a VRReplica list \<Rightarrow> (viewstamp, VPrepareOKMessage) QuorumSet \<Rightarrow> bool" where
  "votes_ok R q \<longleftrightarrow> (\<forall>vs. \<forall>idx \<in> fst ` set (qs_at q vs).
     \<exists>j. idx = int j \<and> 0 < j \<and> j < length R \<and> unat (vs_opnum vs) \<le> length (vl_entries (vr_log (R ! j))))"

definition group_ok :: "nat \<Rightarrow> nat \<Rightarrow> 'a VRReplica list \<Rightarrow> bool" where
  "group_ok n f R \<longleftrightarrow> length R = n \<and> 0 < n \<and> (\<forall>i < n. member_ok n f R i) \<and>
     qs_wf (vr_prepareOKQuorum (R ! 0)) \<and> qs_numRequired (vr_prepareOKQuorum (R ! 0)) = int f \<and>
     votes_ok R (vr_prepareOKQuorum (R ! 0))"

text \<open>Every replica only grows.\<close>

definition all_grow :: "'a VRReplica list \<Rightarrow> 'a VRReplica list \<Rightarrow> bool" where
  "all_grow R R' \<longleftrightarrow> length R' = length R \<and> (\<forall>j < length R. grows (R ! j) (R' ! j))"

lemma all_grow_update: "grows (R ! i) s \<Longrightarrow> all_grow R (R[i := s])"
  by (simp add: all_grow_def nth_list_update split: if_split) (metis grows_refl nth_list_update_eq nth_list_update_neq)

lemma durable_mono:
  assumes "durable f R c" and "all_grow R R'" shows "durable f R' c"
proof -
  let ?S = "\<lambda>R. {j. j < length R \<and> unat c \<le> length (vl_entries (vr_log (R ! j)))}"
  have "?S R \<subseteq> ?S R'"
    using assms(2) by (auto simp: all_grow_def intro: order_trans [OF _ grows_length])
  then have "card (?S R) \<le> card (?S R')" by (intro card_mono) auto
  with assms(1) show ?thesis by (auto simp: durable_def)
qed

lemma state_transfer_ok_mono:
  assumes "state_transfer_ok f R x" and "all_grow R R'" shows "state_transfer_ok f R' x"
proof -
  from assms(1) obtain a op es k where x: "x = (VAddr a, StateTransferMessage 0 op es)" "0 < unat a" "unat a < length R"
    "k \<le> unat (vr_lastCommitted (R ! unat a))" "transfer_ok (contents (vr_log (R ! 0))) k es" "unat op \<le> k + length es" "durable f R op"
    unfolding state_transfer_ok_def by blast
  have g: "grows (R ! unat a) (R' ! unat a)" "grows (R ! 0) (R' ! 0)" and len: "length R' = length R"
    using assms(2) x(2,3) by (auto simp: all_grow_def dest: spec [of _ 0])
  have "k \<le> unat (vr_lastCommitted (R' ! unat a))" using x(4) g(1) by (simp add: grows_def word_le_nat_alt)
  moreover have "transfer_ok (contents (vr_log (R' ! 0))) k es" using transfer_ok_mono [OF x(5)] g(2) by (simp add: grows_def)
  ultimately show ?thesis
    using x(1-3,6) len durable_mono [OF x(7) assms(2)] unfolding state_transfer_ok_def by auto
qed

lemma votes_ok_mono: "votes_ok R q \<Longrightarrow> all_grow R R' \<Longrightarrow> votes_ok R' q"
  unfolding votes_ok_def all_grow_def by (metis (no_types, lifting) grows_length order_trans)

text \<open>A replica takes a step; the others keep their part of the invariant.\<close>

lemma member_ok_other:
  assumes "member_ok n f R j" and "j \<noteq> i" and "0 < length R" and "grows (R ! i) s" shows "member_ok n f (R[i := s]) j"
proof -
  note g = all_grow_update [OF assms(4)]
  have "grows (R ! 0) (R[i := s] ! 0)" using g assms(3) by (auto simp: all_grow_def)
  then show ?thesis
    using assms(1,2) durable_mono [OF _ g] state_transfer_ok_mono [OF _ g]
    by (auto simp: member_ok_def grows_def intro: prefix_order.trans)
qed

lemma group_ok_stepped:
  assumes R: "group_ok n f R" and i: "i < n" and st: "stepped n f i (R ! i) s"
    and pre: "0 < i \<longrightarrow> prefix (contents (vr_log s)) (contents (vr_log (R ! 0)))" and dur: "durable f (R[i := s]) (vr_lastCommitted s)"
  shows "group_ok n f (R[i := s])"
proof -
  have g: "grows (R ! i) s" and ok: "base_ok n f i s" and q: "vr_prepareOKQuorum s = vr_prepareOKQuorum (R ! i)"
    using st by (simp_all add: stepped_def)
  have len: "length R = n" "0 < n" and mem: "\<And>j. j < n \<Longrightarrow> member_ok n f R j" using R by (auto simp: group_ok_def)
  obtain ms where ms: "vr_sent s = vr_sent (R ! i) @ ms" "list_all (sent_ok n i s) ms" using st by (auto simp: stepped_def)
  have "sent_ok n i s x \<or> state_transfer_ok f (R[i := s]) x" if "x \<in> set (vr_sent s)" for x
  proof (cases "x \<in> set ms")
    case False
    with that ms(1) mem [OF i] have "sent_ok n i (R ! i) x \<or> state_transfer_ok f R x" by (simp add: member_ok_def)
    then show ?thesis using sent_ok_mono [OF _ g] state_transfer_ok_mono [OF _ all_grow_update [OF g]] by blast
  qed (use ms(2) in \<open>simp add: list_all_iff\<close>)
  then have "member_ok n f (R[i := s]) i"
    using i len ok pre dur by (cases "i = 0") (auto simp: member_ok_def)
  then have "member_ok n f (R[i := s]) j" if "j < n" for j
    using that member_ok_other [OF mem _ _ g] len by (cases "j = i") auto
  moreover have "vr_prepareOKQuorum (R[i := s] ! 0) = vr_prepareOKQuorum (R ! 0)"
    using q len i by (cases "i = 0") auto
  ultimately show ?thesis
    using R votes_ok_mono [OF _ all_grow_update [OF g]] by (simp add: group_ok_def)
qed

lemma group_ok_send_transfer:
  assumes R: "group_ok n f R" and i: "i < n" and x: "state_transfer_ok f R (d, m)"
  shows "group_ok n f (R[i := vr_send (R ! i) d m])"
proof -
  let ?s = "vr_send (R ! i) d m"
  have g: "grows (R ! i) ?s" by (simp add: grows_def vr_send_def)
  note ag = all_grow_update [OF g]
  have len: "length R = n" "0 < n" and mem: "\<And>j. j < n \<Longrightarrow> member_ok n f R j" using R by (auto simp: group_ok_def)
  have "base_ok n f i ?s" using mem [OF i] by (simp add: member_ok_def base_ok_def vr_send_def)
  then have "member_ok n f (R[i := ?s]) i"
    using mem [OF i] i len durable_mono [OF _ ag] state_transfer_ok_mono [OF _ ag] sent_ok_mono [OF _ g] x
    by (cases "i = 0") (auto simp: member_ok_def vr_send_def)
  then have "member_ok n f (R[i := ?s]) j" if "j < n" for j
    using that member_ok_other [OF mem _ _ g] len by (cases "j = i") auto
  moreover have "vr_prepareOKQuorum (R[i := ?s] ! 0) = vr_prepareOKQuorum (R ! 0)"
    using len i by (cases "i = 0") (auto simp: vr_send_def)
  ultimately show ?thesis using R votes_ok_mono [OF _ ag] by (simp add: group_ok_def)
qed

lemma group_ok_vote:
  assumes R: "group_ok n f R" and q: "qs_wf q" "qs_numRequired q = int f" "votes_ok R q"
  shows "group_ok n f (R[0 := (R ! 0)\<lparr>vr_prepareOKQuorum := q\<rparr>])"
proof -
  let ?s = "(R ! 0)\<lparr>vr_prepareOKQuorum := q\<rparr>"
  have g: "grows (R ! 0) ?s" by (simp add: grows_def)
  note ag = all_grow_update [OF g]
  have len: "length R = n" "0 < n" and mem: "\<And>j. j < n \<Longrightarrow> member_ok n f R j" using R by (auto simp: group_ok_def)
  have "base_ok n f 0 ?s" using mem [OF len(2)] by (simp add: member_ok_def base_ok_def)
  then have "member_ok n f (R[0 := ?s]) 0"
    using mem [OF len(2)] len durable_mono [OF _ ag] state_transfer_ok_mono [OF _ ag] sent_ok_mono [OF _ g]
    by (auto simp: member_ok_def)
  then have "member_ok n f (R[0 := ?s]) j" if "j < n" for j
    using that member_ok_other [OF mem _ _ g] len by (cases "j = 0") auto
  then show ?thesis using len q(1,2) votes_ok_mono [OF q(3) ag] by (simp add: group_ok_def)
qed

lemma durable_le:
  assumes "durable f R c" and "c' \<le> c" shows "durable f R c'"
proof (cases "c' = 0")
  case False
  then have "c \<noteq> 0" using assms(2) by auto
  let ?S = "\<lambda>c. {j. j < length R \<and> unat c \<le> length (vl_entries (vr_log (R ! j)))}"
  have "card (?S c) \<le> card (?S c')" using assms(2) by (intro card_mono) (auto simp: word_le_nat_alt)
  with assms(1) \<open>c \<noteq> 0\<close> show ?thesis by (simp add: durable_def)
qed (simp add: durable_def)

section \<open>Messages\<close>

text \<open>What a handler needs to know about the member it runs at.\<close>

lemma group_member:
  assumes "group_ok n f R" and "i < n"
  shows "base_ok n f i (R ! i)" and "prefix (contents (vr_log (R ! i))) (contents (vr_log (R ! 0)))"
    and "durable f R (vr_lastCommitted (R ! i))" and "length R = n" and "0 < n"
    and "\<And>x. x \<in> set (vr_sent (R ! i)) \<Longrightarrow> sent_ok n i (R ! i) x \<or> state_transfer_ok f R x"
  using assms by (auto simp: group_ok_def member_ok_def)

lemma leader_log:
  assumes "group_ok n f R"
  shows "length (contents (vr_log (R ! 0))) < 2 ^ 64 - 1" and "fst ` set (contents (vr_log (R ! 0))) \<subseteq> {0}"
  using group_member(1) [OF assms, of 0] assms by (auto simp: group_ok_def base_ok_def vl_wf_def)

lemma durable_update: "durable f R c \<Longrightarrow> stepped n f i (R ! i) s \<Longrightarrow> durable f (R[i := s]) c"
  by (erule durable_mono, rule all_grow_update) (simp add: stepped_def)

lemma follower_stepped:
  assumes "group_ok n f R" and "i < n" and "0 < i" and "stepped n f i (R ! i) s"
    and "prefix (contents (vr_log s)) (contents (vr_log (R ! 0)))" and "durable f R (vr_lastCommitted s)"
  shows "group_ok n f (R[i := s])"
  using assms by (intro group_ok_stepped durable_update) auto

lemma local_stepped:
  assumes "group_ok n f R" and "i < n" and "stepped n f i (R ! i) s" and "0 < i \<longrightarrow> vr_log s = vr_log (R ! i)"
    and "vr_lastCommitted s = vr_lastCommitted (R ! i)"
  shows "group_ok n f (R[i := s])"
  using assms group_member(2,3) [OF assms(1,2)] by (intro group_ok_stepped durable_update) auto

text \<open>An operation that \<open>f\<close> followers have acknowledged is stored by them and by the leader.\<close>

lemma votes_durable:
  assumes "votes_ok R q" and "qs_wf q" and "f \<le> length (qs_at q vs)" and "0 < length R"
    and "unat (vs_opnum vs) \<le> length (vl_entries (vr_log (R ! 0)))"
  shows "durable f R (vs_opnum vs)"
proof -
  let ?I = "fst ` set (qs_at q vs)" and ?S = "{j. j < length R \<and> unat (vs_opnum vs) \<le> length (vl_entries (vr_log (R ! j)))}"
  have I: "\<exists>j. idx = int j \<and> 0 < j \<and> j \<in> ?S" if "idx \<in> ?I" for idx
    using assms(1) that unfolding votes_ok_def by blast
  then have sub: "nat ` ?I \<subseteq> ?S - {0}" by fastforce
  have "inj_on nat ?I" using I by (force simp: inj_on_def)
  then have "card (nat ` ?I) = length (qs_at q vs)" by (simp add: card_image qs_count [OF assms(2)])
  moreover have "card (nat ` ?I) \<le> card (?S - {0})" using sub by (intro card_mono) auto
  moreover have "card ?S = Suc (card (?S - {0}))" using assms(4,5) by (intro card.remove) auto
  ultimately show ?thesis using assms(3) by (simp add: durable_def)
qed

lemma votes_ok_Add:
  assumes "votes_ok R q" and "0 < j" and "j < length R" and "unat op \<le> length (vl_entries (vr_log (R ! j)))"
  shows "votes_ok R (qs_Add q (Viewstamp v op) (int j) m)"
  unfolding votes_ok_def
proof (intro allI ballI)
  fix vs idx
  assume "idx \<in> fst ` set (qs_at (qs_Add q (Viewstamp v op) (int j) m) vs)"
  then have "vs = Viewstamp v op \<and> idx = int j \<or> idx \<in> fst ` set (qs_at q vs)"
    by (auto simp: qs_at_Add fst_set_smap_put split: if_splits)
  then show "\<exists>j. idx = int j \<and> 0 < j \<and> j < length R \<and> unat (vs_opnum vs) \<le> length (vl_entries (vr_log (R ! j)))"
    using assms unfolding votes_ok_def by auto
qed

lemma receive_PrepareOK:
  assumes R: "group_ok n f R" and j: "0 < j" "j < n" and m: "vo_view m = 0" "vo_replicaIdx m = int j"
    and op: "unat (vo_opnum m) \<le> length (vl_entries (vr_log (R ! j)))"
  obtains s where "vr_HandlePrepareOK app (R ! 0) m = Inr s" and "group_ok n f (R[0 := s])"
    and "contents (vr_log s) = contents (vr_log (R ! 0))"
proof -
  let ?q = "qs_Add (vr_prepareOKQuorum (R ! 0)) (Viewstamp 0 (vo_opnum m)) (vo_replicaIdx m) m"
  let ?s = "(R ! 0)\<lparr>vr_prepareOKQuorum := ?q\<rparr>" and ?R = "R[0 := (R ! 0)\<lparr>vr_prepareOKQuorum := ?q\<rparr>]"
  have q: "qs_wf (vr_prepareOKQuorum (R ! 0))" "qs_numRequired (vr_prepareOKQuorum (R ! 0)) = int f"
    "votes_ok R (vr_prepareOKQuorum (R ! 0))" and n: "0 < n" "length R = n" using R by (simp_all add: group_ok_def)
  note ok = group_member [OF R n(1)]
  have op0: "unat (vo_opnum m) \<le> length (vl_entries (vr_log (R ! 0)))"
    using op prefix_length [OF group_member(2) [OF R j(2)]] by simp
  obtain s where s: "vr_HandlePrepareOK app (R ! 0) m = Inr s" "stepped n f 0 ?s s" "contents (vr_log s) = contents (vr_log (R ! 0))"
    "vr_lastCommitted s = vr_lastCommitted (R ! 0) \<or> vr_lastCommitted s = vo_opnum m \<and> f \<le> length (qs_at ?q (Viewstamp 0 (vo_opnum m)))"
    by (rule HandlePrepareOK_ok [OF ok(1) m(1) op0 q(2)])
  have vq: "qs_wf ?q" "qs_numRequired ?q = int f" "votes_ok R ?q"
    using q qs_wf_Add votes_ok_Add [OF q(3) j(1) _ op] j n m
    by (simp_all add: qs_Add_def AddAndCheckForQuorum_def CheckForQuorum_def Let_def)
  have "durable f R (vr_lastCommitted s)"
    using s(4) ok(3) votes_durable [OF vq(3,1), of f "Viewstamp 0 (vo_opnum m)"] op0 n by auto
  moreover have "grows (R ! 0) s" using s(2) by (simp add: stepped_def grows_def)
  ultimately have "durable f (R[0 := s]) (vr_lastCommitted s)" using durable_mono all_grow_update by blast
  then have "group_ok n f (?R[0 := s])"
    using n s(2) by (intro group_ok_stepped [OF group_ok_vote [OF R vq]]) simp_all
  with s show thesis using that by simp
qed

lemma receive_RequestStateTransfer:
  assumes R: "group_ok n f R" and i: "i < n" and j: "0 < j" "j < n" and op: "op \<le> vr_lastCommitted (R ! j)"
  obtains s where "vr_HandleRequestStateTransfer (R ! i) (of_nat j) 0 op = Inr s" and "group_ok n f (R[i := s])"
    and "vr_log s = vr_log (R ! i)"
proof -
  let ?es = "drop (unat op) (vl_entries (vr_log (R ! i)))"
  note mi = group_member [OF R i] and mj = group_member [OF R j(2)]
  have "unat op \<le> unat (vr_lastOp (R ! j))" using op base_ok_committed [OF mj(1)] by (simp add: word_le_nat_alt)
  also have "\<dots> = length (vl_entries (vr_log (R ! j)))" using mj(1) by (simp add: base_ok_def)
  finally have "unat op < 2 ^ 64 - 1" using mj(1) by (simp add: base_ok_def vl_wf_def)
  note hd = HandleRequestStateTransfer_ok [OF mi(1) this]
  have a: "unat (of_nat j :: u64) = j" using j mj(1) by (intro unat_of_nat_u64) (simp add: base_ok_def)
  have "transfer_ok (contents (vr_log (R ! 0))) (unat op) ?es" by (rule transfer_ok_mono [OF hd(2) mi(2)])
  moreover have "unat (vr_lastCommitted (R ! i)) \<le> unat op + length ?es"
    using base_ok_committed [OF mi(1)] mi(1) by (simp add: base_ok_def)
  moreover have "unat op \<le> unat (vr_lastCommitted (R ! j))" using op by (simp add: word_le_nat_alt)
  ultimately have "state_transfer_ok f R (VAddr (of_nat j), StateTransferMessage 0 (vr_lastCommitted (R ! i)) ?es)"
    unfolding state_transfer_ok_def using a j mi(3,4)
    by (intro exI [of _ "of_nat j"] exI [of _ "vr_lastCommitted (R ! i)"] exI [of _ ?es] exI [of _ "unat op"]) simp
  from group_ok_send_transfer [OF R i this] show thesis using that hd(1) by (simp add: vr_send_def)
qed

lemma receive_StateTransfer:
  assumes R: "group_ok n f R" and i: "i < n" and x: "state_transfer_ok f R (VAddr a, m)" and a: "unat a = i"
  obtains s where "vr_ReceiveMessage app (R ! i) r m = Inr s" and "group_ok n f (R[i := s])" and "0 < i"
proof -
  note mi = group_member [OF R i]
  obtain op es k where m: "m = StateTransferMessage 0 op es" "0 < i" "k \<le> unat (vr_lastCommitted (R ! i))"
    "transfer_ok (contents (vr_log (R ! 0))) k es" "unat op \<le> k + length es" "durable f R op"
    using x a unfolding state_transfer_ok_def by auto
  obtain s where s: "vr_HandleStateTransfer app (R ! i) 0 op es = Inr s" "stepped n f i (R ! i) s"
    "prefix (contents (vr_log s)) (contents (vr_log (R ! 0)))" "vr_lastCommitted s = max op (vr_lastCommitted (R ! i))"
    by (rule HandleStateTransfer_ok [OF mi(1) m(2) mi(2) leader_log [OF R] m(4,3,5)])
  have "durable f R (vr_lastCommitted s)" using s(4) m(6) mi(3) by (simp add: max_def)
  then have "group_ok n f (R[i := s])" by (rule follower_stepped [OF R i m(2) s(2,3)])
  moreover have "vr_ReceiveMessage app (R ! i) r m = Inr s" using s(1) m(1) by simp
  ultimately show thesis using that m(2) by blast
qed

lemma receive_ok:
  assumes R: "group_ok n f R" and i: "i < n" and j: "j < n" and x: "(d, m) \<in> set (vr_sent (R ! j))" and to: "reaches d j i"
  obtains s where "vr_ReceiveMessage app (R ! i) (of_nat j) m = Inr s" and "group_ok n f (R[i := s])"
    and "i = 0 \<longrightarrow> contents (vr_log s) = contents (vr_log (R ! i))"
proof -
  note mi = group_member [OF R i] and mj = group_member [OF R j]
  consider "state_transfer_ok f R (d, m)" | "sent_ok n j (R ! j) (d, m)" using mj(6) [OF x] by blast
  then show thesis
  proof cases
    case 1
    then obtain a where "d = VAddr a" by (auto simp: state_transfer_ok_def)
    with 1 to have "state_transfer_ok f R (VAddr a, m)" "unat a = i" by simp_all
    then obtain s where "vr_ReceiveMessage app (R ! i) (of_nat j) m = Inr s" "group_ok n f (R[i := s])" "0 < i"
      by (rule receive_StateTransfer [OF R i])
    then show thesis using that by blast
  next
    case 2
    show thesis
    proof (cases m)
      case (PrepareMessage p)
      with 2 to have i0: "0 < i" and p: "batch_ok (contents (vr_log (R ! 0))) p" by auto
      obtain s where s: "vr_HandlePrepare (R ! i) (of_nat j) p = Inr s" "stepped n f i (R ! i) s"
        "prefix (contents (vr_log s)) (contents (vr_log (R ! 0)))" "vr_lastCommitted s = vr_lastCommitted (R ! i)"
        by (rule HandlePrepare_ok [OF mi(1) i0 mi(2) leader_log [OF R] p])
      have "group_ok n f (R[i := s])" by (rule follower_stepped [OF R i i0 s(2,3)]) (use s(4) mi(3) in simp)
      then show thesis using that [of s] s(1) PrepareMessage i0 by simp
    next
      case (PrepareOKMessage ok)
      with 2 to have "i = 0" "0 < j" "vo_view ok = 0" "vo_replicaIdx ok = int j" "unat (vo_opnum ok) \<le> length (vl_entries (vr_log (R ! j)))"
        by auto
      then obtain s where "vr_HandlePrepareOK app (R ! 0) ok = Inr s" "group_ok n f (R[0 := s])"
        "contents (vr_log s) = contents (vr_log (R ! 0))" using receive_PrepareOK [OF R _ j] by metis
      then show thesis using that [of s] PrepareOKMessage \<open>i = 0\<close> by simp
    next
      case (CommitMessage v op)
      with 2 to have i0: "0 < i" and op: "v = 0" "op \<le> vr_lastCommitted (R ! 0)" by auto
      obtain s where s: "vr_HandleCommit app (R ! i) 0 op = Inr s" "stepped n f i (R ! i) s" "contents (vr_log s) = contents (vr_log (R ! i))"
        "vr_lastCommitted s = vr_lastCommitted (R ! i) \<or> vr_lastCommitted s = op"
        by (rule HandleCommit_ok [OF mi(1) i0])
      have "durable f R (vr_lastCommitted s)" using s(4) mi(3) durable_le [OF group_member(3) [OF R mi(5)] op(2)] by auto
      then have "group_ok n f (R[i := s])" by (intro follower_stepped [OF R i i0 s(2)]) (use s(3) mi(2) in simp_all)
      then show thesis using that [of s] s(1) CommitMessage i0 op(1) by simp
    next
      case (RequestStateTransferMessage v op)
      with 2 have "0 < j" "v = 0" "op \<le> vr_lastCommitted (R ! j)" by auto
      then obtain s where "vr_HandleRequestStateTransfer (R ! i) (of_nat j) 0 op = Inr s" "group_ok n f (R[i := s])"
        "vr_log s = vr_log (R ! i)" using receive_RequestStateTransfer [OF R i _ j] by metis
      then show thesis using that [of s] RequestStateTransferMessage \<open>v = 0\<close> by simp
    qed (use 2 to i in auto)
  qed
qed

section \<open>Steps of the group\<close>

lemma sys_step_ok:
  assumes R: "group_ok n f R" and e: "normal_event n e" and len: "Suc (length (vl_entries (vr_log (R ! 0)))) < 2 ^ 64 - 1"
  obtains R' where "sys_step app R e = Inr R'" and "group_ok n f R'"
    and "length (vl_entries (vr_log (R' ! 0))) \<le> Suc (length (vl_entries (vr_log (R ! 0))))"
proof (cases "replica_event R e")
  case None
  then show thesis using that [of R] R by (simp add: sys_step_def)
next
  case (Some p)
  then obtain i ev where ev: "replica_event R e = Some (i, ev)" by (cases p) simp
  have n: "length R = n" "0 < n" using R by (simp_all add: group_ok_def)
  then have i: "i < n" using ev by (cases e) (auto split: if_splits)
  note mi = group_member [OF R i]
  have "\<exists>s. vr_step app (R ! i) ev = Inr s \<and> group_ok n f (R[i := s]) \<and>
      (i = 0 \<longrightarrow> length (vl_entries (vr_log s)) \<le> Suc (length (vl_entries (vr_log (R ! 0)))))"
  proof (cases e)
    case (SDeliver j k i')
    then have j: "j < n" and x: "vr_sent (R ! j) ! k \<in> set (vr_sent (R ! j))" "reaches (fst (vr_sent (R ! j) ! k)) j i"
      and e': "ev = VMsg (of_nat j) (snd (vr_sent (R ! j) ! k))" using ev n by (auto split: if_splits)
    obtain s where s: "vr_ReceiveMessage app (R ! i) (of_nat j) (snd (vr_sent (R ! j) ! k)) = Inr s" "group_ok n f (R[i := s])"
      "i = 0 \<longrightarrow> contents (vr_log s) = contents (vr_log (R ! i))"
      using receive_ok [OF R i j _ x(2)] x(1) by (metis prod.collapse)
    have "i = 0 \<longrightarrow> length (vl_entries (vr_log s)) = length (vl_entries (vr_log (R ! 0)))" using s(3) length_contents by metis
    with s e' show ?thesis by auto
  next
    case (SClient i' a req)
    then have a: "n \<le> unat a" and e': "ev = VMsg a (RequestMessage req)" using ev e by (auto split: if_splits)
    have "Suc (length (vl_entries (vr_log (R ! i)))) < 2 ^ 64 - 1" using len prefix_length [OF mi(2)] by simp
    then obtain s where s: "vr_HandleRequest app (R ! i) a req = Inr s" "stepped n f i (R ! i) s" "vr_lastCommitted s = vr_lastCommitted (R ! i)"
      "0 < i \<longrightarrow> vr_log s = vr_log (R ! i)" "length (vl_entries (vr_log s)) \<le> Suc (length (vl_entries (vr_log (R ! i))))"
      by (rule HandleRequest_ok [OF mi(1) _ a])
    with local_stepped [OF R i s(2,4,3)] e' show ?thesis by auto
  next
    case (SUnlogged i' a req)
    then have a: "n \<le> unat a" and e': "ev = VMsg a (UnloggedRequestMessage req)" using ev e by (auto split: if_splits)
    obtain s where s: "vr_HandleUnloggedRequest app (R ! i) a req = Inr s" "stepped n f i (R ! i) s" "vr_log s = vr_log (R ! i)"
      "vr_lastCommitted s = vr_lastCommitted (R ! i)" by (rule HandleUnloggedRequest_ok [OF mi(1) a])
    with local_stepped [OF R i s(2) _ s(4)] e' show ?thesis by auto
  next
    case (STimer i' t)
    then have t: "t \<noteq> TViewChange" and e': "ev = VTimer t" using ev e by (auto split: if_splits)
    show ?thesis
    proof (cases "t \<in> set (vr_timers (R ! i))")
      case True
      obtain s where s: "vr_timeout (R ! i) t = Inr s" "stepped n f i (R ! i) s" "vr_log s = vr_log (R ! i)"
        "vr_lastCommitted s = vr_lastCommitted (R ! i)" by (rule timeout_ok [OF mi(1) True t])
      with local_stepped [OF R i s(2) _ s(4)] e' True show ?thesis by auto
    next
      case False
      then show ?thesis using e' R by simp
    qed
  qed
  then obtain s where s: "vr_step app (R ! i) ev = Inr s" "group_ok n f (R[i := s])"
    "i = 0 \<longrightarrow> length (vl_entries (vr_log s)) \<le> Suc (length (vl_entries (vr_log (R ! 0))))" by blast
  have "length (vl_entries (vr_log (R[i := s] ! 0))) \<le> Suc (length (vl_entries (vr_log (R ! 0))))"
    using s(3) n by (cases "i = 0") auto
  then show thesis using that [of "R[i := s]"] s(1,2) ev by (simp add: sys_step_def)
qed

lemma sys_run_ok:
  assumes "group_ok n f R" and "list_all (normal_event n) es" and "length (vl_entries (vr_log (R ! 0))) + length es < 2 ^ 64 - 1"
  shows "\<exists>R'. sys_run app es R = Inr R' \<and> group_ok n f R'"
  using assms
proof (induction es arbitrary: R)
  case (Cons e es)
  then have "Suc (length (vl_entries (vr_log (R ! 0)))) < 2 ^ 64 - 1" "normal_event n e" by simp_all
  then obtain R1 where R1: "sys_step app R e = Inr R1" "group_ok n f R1"
    "length (vl_entries (vr_log (R1 ! 0))) \<le> Suc (length (vl_entries (vr_log (R ! 0))))"
    using sys_step_ok [OF Cons.prems(1), of e app] by blast
  with Cons.IH [OF R1(2)] Cons.prems show ?case by simp
qed simp

lemma vr_group_ok:
  assumes "0 < n" and "n < 2 ^ 31" shows "group_ok n f (vr_group n f b a)" and "contents (vr_log (vr_group n f b a ! 0)) = []"
    and "\<And>i. i < n \<Longrightarrow> VRReplica_new (int n) (int f) (int i) b a = Inr (vr_group n f b a ! i)"
proof -
  have new: "\<exists>s. VRReplica_new (int n) (int f) (int i) b a = Inr s \<and> base_ok n f i s \<and> contents (vr_log s) = [] \<and> vr_lastCommitted s = 0 \<and>
      vr_sent s = [] \<and> vr_prepareOKQuorum s = QuorumSet_new (int f)" if "i < n" for i
  proof -
    define s where "s = VRReplica_init (int n) (int f) (int i) b a"
    note defs = s_def VRReplica_init_def
    have "contents (vr_log s) = []" "vl_wf (vr_log s)" by (simp_all add: defs del: replicate.simps)
    moreover have "length (vl_entries (vr_log s)) = 0" using calculation(1) length_contents by (metis list.size(3))
    ultimately have ok: "base_ok n f i s" using that assms by (simp add: base_ok_def) (simp add: defs)
    have "VRReplica_new (int n) (int f) (int i) b a = Inr (if i = 0 then vr_start TNullCommit s else vr_start TViewChange s)"
      using leader_index_ok(2) [OF ok] unfolding VRReplica_new_def s_def [symmetric] Let_def by simp
    moreover have "base_ok n f i (if i = 0 then vr_start TNullCommit s else vr_start TViewChange s)"
      using base_ok_timer(1) [OF ok, of TNullCommit] base_ok_timer(1) [OF ok, of TViewChange] by simp
    moreover have "vr_prepareOKQuorum s = QuorumSet_new (int f)" by (simp add: defs QuorumSize_def)
    ultimately show ?thesis using \<open>contents (vr_log s) = []\<close> by (simp add: vr_start_def) (simp add: defs)
  qed
  let ?R = "vr_group n f b a"
  have R: "base_ok n f i (?R ! i)" "contents (vr_log (?R ! i)) = []" "vr_lastCommitted (?R ! i) = 0" "vr_sent (?R ! i) = []"
      "vr_prepareOKQuorum (?R ! i) = QuorumSet_new (int f)" if "i < n" for i
    using new [OF that] that by (auto simp: vr_group_def)
  have len: "length ?R = n" by (simp add: vr_group_def)
  have "qs_numRequired (vr_prepareOKQuorum (?R ! 0)) = int f" using R(5) assms(1) by (simp add: QuorumSet_new_def)
  then show "group_ok n f ?R"
    using R assms(1) len by (simp add: group_ok_def member_ok_def durable_def votes_ok_def)
  show "contents (vr_log (?R ! 0)) = []" by (rule R(2) [OF assms(1)])
  show "VRReplica_new (int n) (int f) (int i) b a = Inr (?R ! i)" if "i < n" for i
    using new [OF that] that by (auto simp: vr_group_def)
qed

section \<open>Properties\<close>

lemma executed_prefix:
  "c \<le> d \<Longrightarrow> prefix (map g [0..<c]) (map g [0..<d])"
  using map_mono_prefix [OF take_is_prefix [of c "[0..<d]"], of g] by (simp add: min_absorb1 take_upt)

text \<open>C20. Viewstamped replication without a view change: a group of replicas handles any sequence of
  client requests, of deliveries of the messages they send (in any order, repeated or lost) and of
  timers other than the view-change timer without a failure. Every replica executes the operations
  in the order of the log of the leader, with the numbers 1, 2, 3 and so on, so of any two replicas
  one has executed a prefix of what the other has; and an operation that was executed anywhere is at
  its position in the logs of at least \<open>f + 1\<close> replicas.\<close>

theorem vr_normal_operation:
  assumes "0 < n" and "n < 2 ^ 31" and "list_all (normal_event n) sched" and "length sched < 2 ^ 64 - 1"
  shows "\<exists>R. sys_run app sched (vr_group n f batchSize a) = Inr R \<and>
    (\<forall>i < n. vr_executed (R ! i) =
        map (\<lambda>k. (of_nat (Suc k), snd (contents (vr_log (R ! 0)) ! k))) [0..<unat (vr_lastCommitted (R ! i))] \<and>
      (\<forall>k < length (vr_executed (R ! i)).
        f + 1 \<le> card {j. j < n \<and> k < length (contents (vr_log (R ! j))) \<and> contents (vr_log (R ! j)) ! k = contents (vr_log (R ! 0)) ! k})) \<and>
    (\<forall>i < n. \<forall>j < n. prefix (vr_executed (R ! i)) (vr_executed (R ! j)) \<or> prefix (vr_executed (R ! j)) (vr_executed (R ! i)))"
proof -
  have init: "group_ok n f (vr_group n f batchSize a)" by (rule vr_group_ok(1) [OF assms(1,2)])
  have "length (vl_entries (vr_log (vr_group n f batchSize a ! 0))) = 0"
    using vr_group_ok(2) [OF assms(1,2)] length_contents by (metis list.size(3))
  then obtain R where run: "sys_run app sched (vr_group n f batchSize a) = Inr R" and R: "group_ok n f R"
    using sys_run_ok [OF init assms(3)] assms(4) by auto
  have nth: "contents (vr_log (R ! j)) ! k = contents (vr_log (R ! 0)) ! k" if "j < n" "k < length (vl_entries (vr_log (R ! j)))" for j k
    using group_member(2) [OF R that(1)] that(2) by (auto simp: prefix_def nth_append simp del: contents_nth)
  have ex: "vr_executed (R ! i) = map (\<lambda>k. (of_nat (Suc k), snd (contents (vr_log (R ! 0)) ! k))) [0..<unat (vr_lastCommitted (R ! i))]"
    if "i < n" for i
    using group_member(1) [OF R that] base_ok_committed [OF group_member(1) [OF R that]] nth [OF that]
    by (auto simp: base_ok_def simp del: contents_nth)
  have st: "f + 1 \<le> card {j. j < n \<and> k < length (contents (vr_log (R ! j))) \<and> contents (vr_log (R ! j)) ! k = contents (vr_log (R ! 0)) ! k}"
    if i: "i < n" and k: "k < unat (vr_lastCommitted (R ! i))" for i k
  proof -
    have "{j. j < n \<and> unat (vr_lastCommitted (R ! i)) \<le> length (vl_entries (vr_log (R ! j)))} \<subseteq>
        {j. j < n \<and> k < length (contents (vr_log (R ! j))) \<and> contents (vr_log (R ! j)) ! k = contents (vr_log (R ! 0)) ! k}"
      using k nth by (auto simp del: contents_nth)
    then have "card {j. j < n \<and> unat (vr_lastCommitted (R ! i)) \<le> length (vl_entries (vr_log (R ! j)))} \<le>
        card {j. j < n \<and> k < length (contents (vr_log (R ! j))) \<and> contents (vr_log (R ! j)) ! k = contents (vr_log (R ! 0)) ! k}"
      by (intro card_mono) auto
    moreover have "f + 1 \<le> card {j. j < n \<and> unat (vr_lastCommitted (R ! i)) \<le> length (vl_entries (vr_log (R ! j)))}"
      using group_member(3,4) [OF R i] k by (auto simp: durable_def)
    ultimately show ?thesis by simp
  qed
  have "prefix (vr_executed (R ! i)) (vr_executed (R ! j)) \<or> prefix (vr_executed (R ! j)) (vr_executed (R ! i))" if "i < n" "j < n" for i j
    unfolding ex [OF that(1)] ex [OF that(2)] using executed_prefix nat_le_linear by blast
  with run ex st show ?thesis by (intro exI [of _ R]) simp
qed

definition demo_req :: "string \<Rightarrow> u64 \<Rightarrow> VRequest" where
  "demo_req x c = \<lparr>vq_op = x, vq_clientid = c, vq_clientreqid = 1\<rparr>"

definition normal_schedule :: "sys_event list" where
  "normal_schedule = [SClient 0 8 (demo_req ''a'' 8), SDeliver 0 0 1, SDeliver 0 0 2, SDeliver 1 0 0, SDeliver 0 2 2,
     SClient 0 9 (demo_req ''b'' 9), SDeliver 0 3 1, SDeliver 1 1 0, SDeliver 0 5 2, SDeliver 2 1 0]"

theorem vr_normal_operation_witness:
  "\<exists>R. sys_run AppReplica_default normal_schedule (vr_group 3 1 1 ()) = Inr R \<and>
     map vr_executed R = [[(1, demo_req ''a'' 8), (2, demo_req ''b'' 9)], [], [(1, demo_req ''a'' 8)]] \<and>
     prefix (vr_executed (R ! 2)) (vr_executed (R ! 0)) \<and>
     2 \<le> card {j. j < 3 \<and> 1 < length (contents (vr_log (R ! j))) \<and> contents (vr_log (R ! j)) ! 1 = contents (vr_log (R ! 0)) ! 1}"
proof -
  have "list_all (normal_event 3) normal_schedule" by code_simp
  then obtain R where R: "sys_run AppReplica_default normal_schedule (vr_group 3 1 1 ()) = Inr R"
    "\<forall>i < 3. \<forall>k < length (vr_executed (R ! i)).
        1 + 1 \<le> card {j. j < 3 \<and> k < length (contents (vr_log (R ! j))) \<and> contents (vr_log (R ! j)) ! k = contents (vr_log (R ! 0)) ! k}"
    using vr_normal_operation [of 3 normal_schedule AppReplica_default 1 1 "()"] by (auto simp: normal_schedule_def)
  have "map_sum id (map vr_executed) (sys_run AppReplica_default normal_schedule (vr_group 3 1 1 ())) =
      Inr [[(1, demo_req ''a'' 8), (2, demo_req ''b'' 9)], [], [(1, demo_req ''a'' 8)]]" by code_simp
  then have ex: "map vr_executed R = [[(1, demo_req ''a'' 8), (2, demo_req ''b'' 9)], [], [(1, demo_req ''a'' 8)]]" using R(1) by simp
  then have "vr_executed (R ! 0) = [(1, demo_req ''a'' 8), (2, demo_req ''b'' 9)]" "vr_executed (R ! 2) = [(1, demo_req ''a'' 8)]"
    by (auto simp: map_eq_Cons_conv)
  moreover have "1 + 1 \<le> card {j. j < 3 \<and> 1 < length (contents (vr_log (R ! j))) \<and> contents (vr_log (R ! j)) ! 1 = contents (vr_log (R ! 0)) ! 1}"
    using calculation(1) by (intro R(2) [rule_format, of 0 1]) simp_all
  ultimately show ?thesis using R(1) ex by (intro exI [of _ R]) simp
qed

end
