(* ===== verification/VRViews.thy ===== *)
theory VRViews
  imports VRGroup
begin

text \<open>
  Viewstamped replication with view changes: what a replica executes for any sequence of messages
  and timers, and a run in which two replicas execute different operations under the same number.
\<close>

section \<open>The order of execution\<close>

text \<open>The operations executed are those with the numbers 1, 2, and so on up to the last committed one.\<close>

definition in_order :: "'a VRReplica \<Rightarrow> bool" where
  "in_order s \<longleftrightarrow> map fst (vr_executed s) = map of_nat [1..<Suc (unat (vr_lastCommitted s))]"

lemma in_order_cong:
  "vr_executed s' = vr_executed s \<Longrightarrow> vr_lastCommitted s' = vr_lastCommitted s \<Longrightarrow> in_order s' \<longleftrightarrow> in_order s"
  by (simp add: in_order_def)

lemma in_order_local [simp]:
  "in_order (vr_send s d m) \<longleftrightarrow> in_order s" "in_order (vr_start t s) \<longleftrightarrow> in_order s" "in_order (vr_stop t s) \<longleftrightarrow> in_order s"
  "in_order (UpdateClientTable s req) \<longleftrightarrow> in_order s" "in_order (RequestStateTransfer s) \<longleftrightarrow> in_order s"
  "in_order (StartViewChange s v) \<longleftrightarrow> in_order s"
  by (rule in_order_cong; simp add: vr_send_def vr_start_def vr_stop_def UpdateClientTable_def RequestStateTransfer_def StartViewChange_def Let_def)+

lemma in_order_update [simp]:
  "in_order (s\<lparr>vr_log := l\<rparr>) \<longleftrightarrow> in_order s" "in_order (s\<lparr>vr_lastOp := x\<rparr>) \<longleftrightarrow> in_order s"
  "in_order (s\<lparr>vr_app := a\<rparr>) \<longleftrightarrow> in_order s" "in_order (s\<lparr>vr_clientTable := t\<rparr>) \<longleftrightarrow> in_order s"
  "in_order (s\<lparr>vr_clientAddresses := t'\<rparr>) \<longleftrightarrow> in_order s" "in_order (s\<lparr>vr_pendingPrepares := p\<rparr>) \<longleftrightarrow> in_order s"
  "in_order (s\<lparr>vr_prepareOKQuorum := q\<rparr>) \<longleftrightarrow> in_order s" "in_order (s\<lparr>vr_startViewChangeQuorum := q'\<rparr>) \<longleftrightarrow> in_order s"
  "in_order (s\<lparr>vr_doViewChangeQuorum := q''\<rparr>) \<longleftrightarrow> in_order s" "in_order (s\<lparr>vr_view := v\<rparr>) \<longleftrightarrow> in_order s"
  "in_order (s\<lparr>vr_status := st\<rparr>) \<longleftrightarrow> in_order s" "in_order (s\<lparr>vr_lastBatchEnd := x\<rparr>) \<longleftrightarrow> in_order s"
  "in_order (s\<lparr>vr_lastPrepare := pm\<rparr>) \<longleftrightarrow> in_order s"
  "in_order (s\<lparr>vr_lastRequestStateTransferView := x\<rparr>) \<longleftrightarrow> in_order s"
  "in_order (s\<lparr>vr_lastRequestStateTransferOpnum := x\<rparr>) \<longleftrightarrow> in_order s"
  by (rule in_order_cong; simp)+

lemma commit_next_order:
  assumes "in_order s" and "unat (vr_lastCommitted s) < 2 ^ 64 - 1"
  shows "after (\<lambda>s'. in_order s' \<and> unat (vr_lastCommitted s') = Suc (unat (vr_lastCommitted s))) (commit_next app s)"
proof -
  let ?op = "vr_lastCommitted s + 1"
  have op: "unat ?op = Suc (unat (vr_lastCommitted s))" using assms(2) by (simp add: unat_word_ariths(1))
  then have up: "[1..<Suc (unat ?op)] = [1..<Suc (unat (vr_lastCommitted s))] @ [unat ?op]" by simp
  have "after (\<lambda>s'. vr_lastCommitted s' = ?op \<and> map fst (vr_executed s') = map fst (vr_executed s) @ [?op]) (commit_next app s)"
    by (simp add: commit_next_def Let_def vr_send_def split: option.split prod.split)
  moreover have "map of_nat [1..<Suc (unat ?op)] = map of_nat [1..<Suc (unat (vr_lastCommitted s))] @ [?op]"
    unfolding up by simp
  ultimately show ?thesis
    using assms(1) op unfolding after_def in_order_def by metis
qed

lemma commit_loop_order:
  "in_order s \<Longrightarrow> unat (vr_lastCommitted s) + k < 2 ^ 64 \<Longrightarrow> after in_order (commit_loop app k s)"
proof (induction k arbitrary: s)
  case (Suc k)
  then show ?case
    unfolding commit_loop.simps by (intro after_bindr [OF commit_next_order]) auto
qed simp

lemma CommitUpTo_order: "in_order s \<Longrightarrow> after in_order (CommitUpTo app s op)"
proof -
  assume s: "in_order s"
  have "unat op < 2 ^ 64" "unat (vr_lastCommitted s) < 2 ^ 64"
    using unsigned_less [of op, where 'a = nat] unsigned_less [of "vr_lastCommitted s", where 'a = nat] by simp_all
  then show ?thesis unfolding CommitUpTo_def by (intro commit_loop_order [OF s]) linarith
qed

lemma Append_order: "in_order s \<Longrightarrow> after in_order (vr_Append s vs req)"
  unfolding vr_Append_def by (rule after_bindr_any) simp

lemma prepare_oks_order: "in_order s \<Longrightarrow> after in_order (prepare_oks is s)"
proof (induction "is" arbitrary: s)
  case (Cons i "is")
  then show ?case by (auto simp: Let_def split: option.split intro!: after_bindr_any)
qed simp

lemma append_batch_order: "in_order s \<Longrightarrow> after in_order (append_batch v rs op s)"
proof (induction rs arbitrary: op s)
  case (Cons r rs)
  then show ?case by (auto simp: Let_def intro!: after_bindr [OF Append_order])
qed simp

lemma install_transfer_order: "in_order s \<Longrightarrow> after (\<lambda>(s', op). in_order s') (install_transfer es old s)"
proof (induction es arbitrary: old s)
  case (Cons e es)
  then show ?case
    by (auto split: option.split intro!: after_bindr_any [where r = "vl_RemoveAfter l x" for l x] after_bindr [OF Append_order])
qed simp

lemma EnterView_order: "in_order s \<Longrightarrow> after in_order (EnterView s v)"
  unfolding EnterView_def Let_def by (rule after_bindr_any) simp

lemma CloseBatch_order: "in_order s \<Longrightarrow> after in_order (CloseBatch s)"
  unfolding CloseBatch_def Let_def by (rule after_bindr_any) simp

lemma replicate_request_order: "in_order s \<Longrightarrow> after in_order (replicate_request s req)"
  unfolding replicate_request_def Let_def
  by (rule after_bindr [OF Append_order], simp) (rule after_bindr [where P = in_order], simp_all add: CloseBatch_order)

lemma send_prepareOK_order: "in_order s \<Longrightarrow> after in_order (send_prepareOK s m)"
  unfolding send_prepareOK_def by (rule after_bindr_any) simp

lemma HandleRequest_order: "in_order s \<Longrightarrow> after in_order (vr_HandleRequest app s a req)"
  by (auto simp: vr_HandleRequest_def Let_def replicate_request_order split: option.split prod.split intro!: after_bindr_any)

lemma HandlePrepare_order: "in_order s \<Longrightarrow> after in_order (vr_HandlePrepare s a p)"
  by (auto simp: vr_HandlePrepare_def Let_def intro!: after_bindr_any [where r = "AmLeader s" for s] send_prepareOK_order
      after_bindr [OF append_batch_order])

lemma HandlePrepareOK_order: "in_order s \<Longrightarrow> after in_order (vr_HandlePrepareOK app s m)"
  by (auto simp: vr_HandlePrepareOK_def split: prod.split option.split intro!: after_bindr_any [where r = "AmLeader s" for s]
      after_bindr [OF CommitUpTo_order])

lemma HandleCommit_order: "in_order s \<Longrightarrow> after in_order (vr_HandleCommit app s v op)"
  by (auto simp: vr_HandleCommit_def Let_def intro!: after_bindr_any CommitUpTo_order)

lemma HandleStateTransfer_order: "in_order s \<Longrightarrow> after in_order (vr_HandleStateTransfer app s v op es)"
  by (auto simp: vr_HandleStateTransfer_def SendPrepareOKs_def intro!: after_bindr [OF install_transfer_order]
      after_bindr [OF after_if [where P = in_order]] after_bindr [OF CommitUpTo_order] after_bindr [OF prepare_oks_order] EnterView_order)

lemma HandleStartViewChange_order: "in_order s \<Longrightarrow> after in_order (vr_HandleStartViewChange s m)"
  by (auto simp: vr_HandleStartViewChange_def Let_def split: prod.split option.split intro!: after_bindr_any)

lemma HandleDoViewChange_order: "in_order s \<Longrightarrow> after in_order (vr_HandleDoViewChange s m)"
  by (auto simp: vr_HandleDoViewChange_def Let_def split: prod.split option.split intro!: after_bindr_any [where r = "min_of xs" for xs]
      after_bindr [OF EnterView_order] after_bindr_any [where r = "vl_Dump l x" for l x])

lemma HandleStartView_order: "in_order s \<Longrightarrow> after in_order (vr_HandleStartView app s m)"
  unfolding vr_HandleStartView_def
  by (intro after_if, simp_all)
    (rule after_bindr_any, auto simp: Let_def SendPrepareOKs_def
      intro!: after_bindr [OF EnterView_order] after_bindr [OF CommitUpTo_order] prepare_oks_order)

lemma ReceiveMessage_order: "in_order s \<Longrightarrow> after in_order (vr_ReceiveMessage app s a m)"
  by (cases m) (auto simp: HandleRequest_order HandlePrepare_order HandlePrepareOK_order HandleCommit_order
      HandleStateTransfer_order HandleStartViewChange_order HandleDoViewChange_order HandleStartView_order
      vr_HandleUnloggedRequest_def vr_HandleRequestStateTransfer_def split: prod.split intro!: after_bindr_any)

lemma vr_step_order: "in_order s \<Longrightarrow> after in_order (vr_step app s e)"
proof (cases e)
  case (VTimer t)
  assume "in_order s"
  with VTimer show ?thesis by (cases t) (simp_all add: CloseBatch_order SendNullCommit_def vr_ResendPrepare_def)
qed (simp add: ReceiveMessage_order)

lemma vr_run_order: "in_order s \<Longrightarrow> after in_order (vr_run app es s)"
  by (induction es arbitrary: s) (auto intro!: after_bindr [OF vr_step_order])

section \<open>Properties\<close>

text \<open>C23. A replica of viewstamped replication executes every operation number once and in order: whatever
  messages arrive and whatever timers fire, view changes and state transfers included, the calls
  of the application are those for the numbers 1, 2, 3 and so on up to the last committed number.\<close>

theorem vr_executes_in_order:
  assumes "VRReplica_new n f myIdx batchSize a = Inr s0" and "vr_run app es s0 = Inr s"
  shows "map fst (vr_executed s) = map of_nat [1..<Suc (unat (vr_lastCommitted s))]"
proof -
  have "in_order s0" using assms(1)
    by (auto simp: VRReplica_new_def VRReplica_init_def in_order_def Let_def vr_start_def bindr_eq_Inr split: if_splits)
  then show ?thesis using vr_run_order [of s0 app es] assms(2) by (simp add: after_def in_order_def)
qed

text \<open>
  A run of three replicas with two clients. The leader of view 0 stores \<open>a\<close> and nobody else does;
  view 1 starts without it and its leader stores \<open>b\<close>, again alone. In view 3 the first replica leads
  again: \<open>a\<close> becomes operation 1, is stored by two replicas and executed. Then the leader of view 1
  leads view 4.
\<close>

definition view_schedule :: "sys_event list" where
  "view_schedule =
    [SClient 0 8 (demo_req ''a'' 8),
     STimer 1 TViewChange, SDeliver 1 0 2, SDeliver 2 0 1, SDeliver 2 1 1, SDeliver 1 1 2,
     SClient 1 9 (demo_req ''b'' 9),
     STimer 2 TViewChange, STimer 2 TViewChange, SDeliver 2 3 0, SDeliver 0 1 2, SDeliver 2 4 0,
     SDeliver 0 2 2, SDeliver 2 5 0,
     STimer 2 TViewChange, SDeliver 2 6 1, SDeliver 1 3 2, SDeliver 2 7 1, SDeliver 1 4 2, SDeliver 2 8 1]"

theorem vr_executes_in_order_witness:
  "\<exists>s0 s. VRReplica_new 3 1 0 1 () = Inr s0 \<and>
     vr_run AppReplica_default [VMsg 8 (RequestMessage (demo_req ''a'' 8)),
       VMsg 1 (PrepareOKMessage \<lparr>vo_view = 0, vo_opnum = 1, vo_replicaIdx = 1\<rparr>)] s0 = Inr s \<and>
     map fst (vr_executed s) = map of_nat [1..<Suc (unat (vr_lastCommitted s))] \<and> vr_executed s = [(1, demo_req ''a'' 8)]"
proof -
  let ?es = "[VMsg 8 (RequestMessage (demo_req ''a'' 8)), VMsg 1 (PrepareOKMessage \<lparr>vo_view = 0, vo_opnum = 1, vo_replicaIdx = 1\<rparr>)]"
  have "map_sum id vr_executed (bindr (VRReplica_new 3 1 0 1 ()) (vr_run AppReplica_default ?es)) = Inr [(1, demo_req ''a'' 8)]"
    by code_simp
  then obtain s0 s where s: "VRReplica_new 3 1 0 1 () = Inr s0" "vr_run AppReplica_default ?es s0 = Inr s" "vr_executed s = [(1, demo_req ''a'' 8)]"
    by (cases "VRReplica_new 3 1 0 1 ()"; cases "vr_run AppReplica_default ?es (projr (VRReplica_new 3 1 0 1 ()))") auto
  with vr_executes_in_order [OF s(1,2)] show ?thesis by blast
qed

text \<open>C34. A view change can lose an operation that was executed: the message that reports a log gives the
  view of its last entry as the view in which the replica last worked normally, so a log that the
  leader of an earlier view has kept to itself wins over a log that a later view has confirmed. In
  a run of three replicas without failures, replica 0 executes \<open>a\<close> as operation 1 and answers its
  client, and replica 1 executes \<open>b\<close> as operation 1 and answers another client.\<close>

theorem view_change_loses_operation:
  "\<exists>R. sys_run AppReplica_default view_schedule (vr_group 3 1 1 ()) = Inr R \<and>
     vr_executed (R ! 0) = [(1, demo_req ''a'' 8)] \<and> vr_executed (R ! 1) = [(1, demo_req ''b'' 9)] \<and>
     list_ex (\<lambda>(d, m). d = VAddr 8) (vr_sent (R ! 0)) \<and> list_ex (\<lambda>(d, m). d = VAddr 9) (vr_sent (R ! 1))"
proof -
  have "map_sum id (map (\<lambda>s. (vr_executed s, list_ex (\<lambda>(d, m). d = VAddr 8) (vr_sent s), list_ex (\<lambda>(d, m). d = VAddr 9) (vr_sent s))))
      (sys_run AppReplica_default view_schedule (vr_group 3 1 1 ())) =
      Inr [([(1, demo_req ''a'' 8)], True, False), ([(1, demo_req ''b'' 9)], False, True), ([], False, False)]"
    by code_simp
  then show ?thesis
    by (cases "sys_run AppReplica_default view_schedule (vr_group 3 1 1 ())") (auto simp: map_eq_Cons_conv)
qed

text \<open>
  When the log of another replica is the latest one, the new leader reads the message from a copy
  that no longer exists: here the leader of view 1 has not received the operation that replica 2 has.
\<close>

definition lagging_schedule :: "sys_event list" where
  "lagging_schedule = [SClient 0 8 (demo_req ''a'' 8), SDeliver 0 0 2, STimer 2 TViewChange, SDeliver 2 1 1, SDeliver 1 0 2, SDeliver 2 2 1]"

lemma failover_reads_dead_message:
  "sys_run AppReplica_default lagging_schedule (vr_group 3 1 1 ()) = Inl (VUB UseAfterFree)"
proof -
  have "map_sum id (\<lambda>R. ()) (sys_run AppReplica_default lagging_schedule (vr_group 3 1 1 ())) = Inl (VUB UseAfterFree)"
    by code_simp
  then show ?thesis by (cases "sys_run AppReplica_default lagging_schedule (vr_group 3 1 1 ())") simp_all
qed

end
