(* ===== verification/VRClients.thy ===== *)
theory VRClients
  imports VRViews
begin

text \<open>
  src/replication/vr/client.cc and client.h with src/replication/common/client.h and client.cc: the client of
  viewstamped replication, and what its repeated requests and the client table of the leader give
  together: an operation is executed at most once.

  \<^item> The continuations are code of the application; \<open>vc_outcomes\<close> records their calls. A continuation
    that starts another request does so after the finished one has left the table.
  \<^item> A pending request has a timer, which is armed or not; it fires again and again until it is stopped
    or deleted with its request.
  \<^item> Whether a send succeeds is an argument of the operations that send.
  \<^item> The random client identifier is an argument of the constructor; drawing it again while it is zero
    is left to the caller.
\<close>

section \<open>The client\<close>

datatype VErrorCode = VTIMEOUT | VMISMATCHED_CONSENSUS_VIEWS

fun VErrorCodeToString :: "VErrorCode \<Rightarrow> string" where
  "VErrorCodeToString VTIMEOUT = ''TIMEOUT''"
| "VErrorCodeToString VMISMATCHED_CONSENSUS_VIEWS = ''MISMATCHED_CONSENSUS_VIEWS''"

text \<open>An unlogged request has an error continuation, which may be null.\<close>

record VPendingRequest =
  pq_request :: string
  pq_clientReqId :: u64
  pq_armed :: bool
  pq_unlogged :: "bool option"

datatype vc_outcome = VReplied string string | VFailed string VErrorCode

record VRClient =
  vc_clientid :: u64
  vc_lastReqId :: u64
  vc_pendingReqs :: "u64 \<rightharpoonup> VPendingRequest"
  vc_sent :: "(vr_dest \<times> vr_msg) list"
  vc_outcomes :: "(u64 \<times> vc_outcome) list"

definition VRClient_new :: "u64 \<Rightarrow> VRClient" where
  "VRClient_new clientid =
     \<lparr>vc_clientid = clientid, vc_lastReqId = 0, vc_pendingReqs = Map.empty, vc_sent = [], vc_outcomes = []\<rparr>"

definition vc_message :: "VRClient \<Rightarrow> VPendingRequest \<Rightarrow> VRequest" where
  "vc_message c req = \<lparr>vq_op = pq_request req, vq_clientid = vc_clientid c, vq_clientreqid = pq_clientReqId req\<rparr>"

definition vc_SendRequest :: "VRClient \<Rightarrow> VPendingRequest \<Rightarrow> bool \<Rightarrow> VRClient" where
  "vc_SendRequest c req ok =
     (if ok then c\<lparr>vc_sent := vc_sent c @ [(VAll, RequestMessage (vc_message c req))],
                   vc_pendingReqs := (vc_pendingReqs c)(pq_clientReqId req \<mapsto> req\<lparr>pq_armed := True\<rparr>)\<rparr>
      else c\<lparr>vc_pendingReqs := (vc_pendingReqs c)(pq_clientReqId req := None)\<rparr>)"

definition vc_Invoke :: "VRClient \<Rightarrow> string \<Rightarrow> bool \<Rightarrow> VRClient" where
  "vc_Invoke c request ok =
     (let reqId = vc_lastReqId c + 1;
          req = \<lparr>pq_request = request, pq_clientReqId = reqId, pq_armed = False, pq_unlogged = None\<rparr>
      in vc_SendRequest (c\<lparr>vc_lastReqId := reqId, vc_pendingReqs := (vc_pendingReqs c)(reqId \<mapsto> req)\<rparr>) req ok)"

definition vc_InvokeUnlogged :: "VRClient \<Rightarrow> int \<Rightarrow> string \<Rightarrow> bool \<Rightarrow> bool \<Rightarrow> VRClient" where
  "vc_InvokeUnlogged c replicaIdx request has_error ok =
     (let reqId = vc_lastReqId c + 1; c = c\<lparr>vc_lastReqId := reqId\<rparr>;
          req = \<lparr>pq_request = request, pq_clientReqId = reqId, pq_armed = True, pq_unlogged = Some has_error\<rparr>
      in if ok then c\<lparr>vc_sent := vc_sent c @ [(VReplica replicaIdx, UnloggedRequestMessage (vc_message c req))],
                      vc_pendingReqs := (vc_pendingReqs c)(reqId \<mapsto> req)\<rparr>
         else c)"

definition vc_ResendRequest :: "VRClient \<Rightarrow> u64 \<Rightarrow> bool \<Rightarrow> VRClient" where
  "vc_ResendRequest c reqId ok =
     (case vc_pendingReqs c reqId of None \<Rightarrow> c | Some req \<Rightarrow> vc_SendRequest c req ok)"

definition vc_HandleReply :: "VRClient \<Rightarrow> u64 \<Rightarrow> string \<Rightarrow> VRClient" where
  "vc_HandleReply c reqId reply =
     (case vc_pendingReqs c reqId of
        None \<Rightarrow> c
      | Some req \<Rightarrow> c\<lparr>vc_pendingReqs := (vc_pendingReqs c)(reqId := None),
                      vc_outcomes := vc_outcomes c @ [(reqId, VReplied (pq_request req) reply)]\<rparr>)"

definition vc_HandleUnloggedReply :: "VRClient \<Rightarrow> u64 \<Rightarrow> string \<Rightarrow> VRClient" where
  "vc_HandleUnloggedReply c reqId reply =
     (case vc_pendingReqs c reqId of
        None \<Rightarrow> c
      | Some req \<Rightarrow> c\<lparr>vc_pendingReqs := (vc_pendingReqs c)(reqId := None),
                      vc_outcomes := vc_outcomes c @ [(reqId, VReplied (pq_request req) reply)]\<rparr>)"

text \<open>The callback casts the request to an unlogged one and reads a member that a logged one does not have.\<close>

definition vc_UnloggedRequestTimeoutCallback :: "VRClient \<Rightarrow> u64 \<Rightarrow> vr_err + VRClient" where
  "vc_UnloggedRequestTimeoutCallback c reqId =
     (case vc_pendingReqs c reqId of
        None \<Rightarrow> Inr c
      | Some req \<Rightarrow>
          (case pq_unlogged req of
             None \<Rightarrow> Inl (VUB OutOfBounds)
           | Some has_error \<Rightarrow>
               let c = c\<lparr>vc_pendingReqs := (vc_pendingReqs c)(reqId := None)\<rparr>
               in Inr (if has_error then c\<lparr>vc_outcomes := vc_outcomes c @ [(reqId, VFailed (pq_request req) VTIMEOUT)]\<rparr> else c)))"

fun vc_ReceiveMessage :: "VRClient \<Rightarrow> vr_msg \<Rightarrow> vr_err + VRClient" where
  "vc_ReceiveMessage c (ReplyMessage m) = Inr (vc_HandleReply c (vy_clientreqid m) (vy_reply m))"
| "vc_ReceiveMessage c (UnloggedReplyMessage reply reqId) = Inr (vc_HandleUnloggedReply c reqId reply)"
| "vc_ReceiveMessage c m = Inl VPanic"

datatype vc_event =
    CInvoke string bool
  | CInvokeUnlogged int string bool bool
  | CReceive vr_msg
  | CTimer u64 bool

text \<open>The timer of a request runs the callback it was created with.\<close>

fun vc_step :: "VRClient \<Rightarrow> vc_event \<Rightarrow> vr_err + VRClient" where
  "vc_step c (CInvoke request ok) = Inr (vc_Invoke c request ok)"
| "vc_step c (CInvokeUnlogged i request has_error ok) = Inr (vc_InvokeUnlogged c i request has_error ok)"
| "vc_step c (CReceive m) = vc_ReceiveMessage c m"
| "vc_step c (CTimer reqId ok) =
     (case vc_pendingReqs c reqId of
        None \<Rightarrow> Inr c
      | Some req \<Rightarrow>
          if \<not> pq_armed req then Inr c
          else if pq_unlogged req = None then Inr (vc_ResendRequest c reqId ok)
          else vc_UnloggedRequestTimeoutCallback c reqId)"

primrec vc_run :: "vc_event list \<Rightarrow> VRClient \<Rightarrow> vr_err + VRClient" where
  "vc_run [] c = Inr c"
| "vc_run (e # es) c = bindr (vc_step c e) (vc_run es)"

section \<open>The client table of the leader\<close>

definition request_key :: "VRequest \<Rightarrow> u64 \<times> u64" where
  "request_key r = (vq_clientid r, vq_clientreqid r)"

text \<open>No request is in the log twice, and the table knows the last request of every client in the log.\<close>

definition table_ok :: "'a VRReplica \<Rightarrow> bool" where
  "table_ok s \<longleftrightarrow> distinct (map (request_key \<circ> snd) (contents (vr_log s))) \<and>
     (\<forall>r \<in> snd ` set (contents (vr_log s)). \<exists>c. vr_clientTable s (vq_clientid r) = Some c \<and> vq_clientreqid r \<le> ct_lastReqId c)"

definition table_grows :: "'a VRReplica \<Rightarrow> 'a VRReplica \<Rightarrow> bool" where
  "table_grows s s' \<longleftrightarrow> contents (vr_log s') = contents (vr_log s) \<and>
     (\<forall>k c. vr_clientTable s k = Some c \<longrightarrow> (\<exists>c'. vr_clientTable s' k = Some c' \<and> ct_lastReqId c \<le> ct_lastReqId c'))"

lemma table_ok_grows: "table_ok s \<Longrightarrow> table_grows s s' \<Longrightarrow> table_ok s'"
  unfolding table_ok_def table_grows_def by (metis (no_types, lifting) order_trans)

lemma table_ok_cong: "vr_log s' = vr_log s \<Longrightarrow> vr_clientTable s' = vr_clientTable s \<Longrightarrow> table_ok s' \<longleftrightarrow> table_ok s"
  by (simp add: table_ok_def)

lemma table_ok_local [simp]:
  "table_ok (vr_send s d m) \<longleftrightarrow> table_ok s" "table_ok (vr_start t s) \<longleftrightarrow> table_ok s" "table_ok (vr_stop t s) \<longleftrightarrow> table_ok s"
  "table_ok (RequestStateTransfer s) \<longleftrightarrow> table_ok s" "table_ok (StartViewChange s v) \<longleftrightarrow> table_ok s"
  "table_ok (s\<lparr>vr_app := a\<rparr>) \<longleftrightarrow> table_ok s" "table_ok (s\<lparr>vr_clientAddresses := t'\<rparr>) \<longleftrightarrow> table_ok s"
  "table_ok (s\<lparr>vr_prepareOKQuorum := q\<rparr>) \<longleftrightarrow> table_ok s" "table_ok (s\<lparr>vr_lastBatchEnd := x\<rparr>) \<longleftrightarrow> table_ok s"
  "table_ok (s\<lparr>vr_lastPrepare := pm\<rparr>) \<longleftrightarrow> table_ok s"
  "table_ok (s\<lparr>vr_lastRequestStateTransferView := x, vr_lastRequestStateTransferOpnum := x'\<rparr>) \<longleftrightarrow> table_ok s"
  by (rule table_ok_cong; simp add: vr_send_def vr_start_def vr_stop_def RequestStateTransfer_def StartViewChange_def Let_def)+

lemma SetStatus_contents: "contents (snd (vl_SetStatus l op st)) = contents l"
  by (simp add: vl_SetStatus_def contents_def map_update_same split: option.split)

lemma commit_next_table: "table_ok s \<Longrightarrow> after table_ok (commit_next app s)"
proof -
  assume s: "table_ok s"
  have "after (table_grows s) (commit_next app s)"
    by (auto simp: commit_next_def table_grows_def client_entry_def Let_def vr_send_def SetStatus_contents split: option.split prod.split)
  with s show ?thesis unfolding after_def using table_ok_grows by blast
qed

lemma commit_loop_table: "table_ok s \<Longrightarrow> after table_ok (commit_loop app k s)"
  by (induction k arbitrary: s) (auto intro!: after_bindr [OF commit_next_table])

lemma CloseBatch_table: "table_ok s \<Longrightarrow> after table_ok (CloseBatch s)"
  unfolding CloseBatch_def Let_def by (rule after_bindr_any) simp

lemma Append_contents: "after (\<lambda>s'. contents (vr_log s') = contents (vr_log s) @ [(vs_view vs, req)] \<and> vr_clientTable s' = vr_clientTable s)
    (vr_Append s vs req)"
  by (auto simp: vr_Append_def vl_Append_def Let_def contents_def bindr_def)

lemma replicate_request_table:
  assumes "table_ok s" and "request_key req \<notin> (request_key \<circ> snd) ` set (contents (vr_log s))"
    and "vr_clientTable s (vq_clientid req) = Some c" and "vq_clientreqid req \<le> ct_lastReqId c"
  shows "after table_ok (replicate_request s req)"
proof -
  have "after table_ok (vr_Append (s\<lparr>vr_lastOp := op\<rparr>) vs req)" for op vs
    using assms Append_contents [of "s\<lparr>vr_lastOp := op\<rparr>" vs req] by (auto simp: after_def table_ok_def)
  then show ?thesis
    unfolding replicate_request_def Let_def
    by (rule after_bindr) (rule after_bindr [where P = table_ok], simp_all add: CloseBatch_table)
qed

lemma HandleRequest_table:
  assumes "table_ok s" shows "after table_ok (vr_HandleRequest app s a req)"
proof -
  let ?c = "vq_clientid req"
  define s1 where "s1 = s\<lparr>vr_clientAddresses := (vr_clientAddresses s)(?c \<mapsto> a)\<rparr>"
  define s2 where "s2 = UpdateClientTable s1 req"
  have s1: "table_ok s1" using assms by (simp add: s1_def)
  have log: "vr_log s2 = vr_log s1" by (simp add: s2_def UpdateClientTable_def Let_def)
  have entry: "\<exists>c. vr_clientTable s2 ?c = Some c \<and> ct_lastReqId c = vq_clientreqid req"
    by (simp add: s2_def UpdateClientTable_def Let_def)
  have other: "vr_clientTable s2 k = vr_clientTable s1 k" if "k \<noteq> ?c" for k
    using that by (simp add: s2_def UpdateClientTable_def Let_def)
  define F where "F = (let ((replicate, res), ap) = app_LeaderUpcall app (vr_app s2) (vr_lastCommitted s2) (vq_op req); s = s2\<lparr>vr_app := ap\<rparr>
                 in if \<not> replicate then
                      let reply = \<lparr>vy_view = 0, vy_opnum = 0, vy_clientreqid = vq_clientreqid req, vy_reply = res\<rparr>;
                          cte = (client_entry s ?c)\<lparr>ct_replied := True, ct_reply := reply\<rparr>
                      in Inr (vr_send (s\<lparr>vr_clientTable := (vr_clientTable s)(?c \<mapsto> cte)\<rparr>) (VAddr a) (ReplyMessage reply))
                    else replicate_request s \<lparr>vq_op = res, vq_clientid = ?c, vq_clientreqid = vq_clientreqid req\<rparr>)"
  have fresh: "after table_ok F" if new: "\<And>c. vr_clientTable s1 ?c = Some c \<Longrightarrow> ct_lastReqId c < vq_clientreqid req"
  proof -
    have less: "vq_clientreqid r < vq_clientreqid req" if "r \<in> snd ` set (contents (vr_log s1))" "vq_clientid r = ?c" for r
      using that s1 new unfolding table_ok_def by (metis order_le_less_trans)
    have ok2: "table_ok s2"
      unfolding table_ok_def log
    proof (intro conjI ballI)
      show "distinct (map (request_key \<circ> snd) (contents (vr_log s1)))" using s1 by (simp add: table_ok_def)
      fix r assume r: "r \<in> snd ` set (contents (vr_log s1))"
      show "\<exists>c. vr_clientTable s2 (vq_clientid r) = Some c \<and> vq_clientreqid r \<le> ct_lastReqId c"
      proof (cases "vq_clientid r = ?c")
        case True
        then show ?thesis using less [OF r] entry by (metis less_imp_le)
      next
        case False
        then show ?thesis using other s1 r unfolding table_ok_def by metis
      qed
    qed
    have new_key: "request_key r' \<notin> (request_key \<circ> snd) ` set (contents (vr_log s2))"
      if "vq_clientid r' = ?c" "vq_clientreqid r' = vq_clientreqid req" for r'
      using less that by (force simp: request_key_def log)
    obtain c where c: "vr_clientTable s2 ?c = Some c" "ct_lastReqId c = vq_clientreqid req" using entry by blast
    have "after table_ok (replicate_request (s2\<lparr>vr_app := ap\<rparr>) \<lparr>vq_op = res, vq_clientid = ?c, vq_clientreqid = vq_clientreqid req\<rparr>)" for ap res
      by (rule replicate_request_table [of _ _ c]) (use ok2 c new_key in auto)
    moreover have "table_ok (s2\<lparr>vr_app := ap, vr_clientTable := (vr_clientTable s2)(?c \<mapsto> (client_entry (s2\<lparr>vr_app := ap\<rparr>) ?c)\<lparr>ct_replied := True, ct_reply := rp\<rparr>)\<rparr>)" for ap rp
      by (rule table_ok_grows [OF ok2]) (use c in \<open>auto simp: table_grows_def client_entry_def\<close>)
    ultimately show ?thesis by (auto simp: F_def Let_def split: prod.split)
  qed
  have "vr_HandleRequest app s a req = (if vr_status s \<noteq> STATUS_NORMAL then Inr s else bindr (AmLeader s) (\<lambda>b. if \<not> b then Inr s
      else case vr_clientTable s1 ?c of None \<Rightarrow> F
        | Some entry \<Rightarrow> if vq_clientreqid req < ct_lastReqId entry then Inr s1
            else if vq_clientreqid req = ct_lastReqId entry
            then Inr (if ct_replied entry then vr_send s1 (VAddr a) (ReplyMessage (ct_reply entry)) else s1) else F))"
    unfolding vr_HandleRequest_def F_def s2_def s1_def Let_def by simp
  then show ?thesis using s1 assms fresh by (auto split: option.split intro!: after_bindr_any)
qed

text \<open>In normal operation a leader only receives requests, acknowledgements and requests for its log.\<close>

fun leader_event :: "vr_event \<Rightarrow> bool" where
  "leader_event (VMsg a (RequestMessage r)) \<longleftrightarrow> True"
| "leader_event (VMsg a (UnloggedRequestMessage r)) \<longleftrightarrow> True"
| "leader_event (VMsg a (PrepareOKMessage m)) \<longleftrightarrow> True"
| "leader_event (VMsg a (RequestStateTransferMessage v op)) \<longleftrightarrow> True"
| "leader_event (VMsg a m) \<longleftrightarrow> False"
| "leader_event (VTimer t) \<longleftrightarrow> True"

lemma leader_event_table:
  assumes "table_ok s" and "leader_event e" shows "after table_ok (vr_step app s e)"
proof (cases e)
  case (VMsg a m)
  then show ?thesis using assms
    by (cases m) (auto simp: HandleRequest_table vr_HandleUnloggedRequest_def vr_HandlePrepareOK_def vr_HandleRequestStateTransfer_def
        CommitUpTo_def split: prod.split option.split intro!: after_bindr_any [where r = "AmLeader s" for s]
        after_bindr_any [where r = "vl_Dump l x" for l x] after_bindr [OF commit_loop_table])
next
  case (VTimer t)
  then show ?thesis using assms by (cases t) (simp_all add: CloseBatch_table SendNullCommit_def vr_ResendPrepare_def)
qed

lemma leader_receives:
  assumes R: "group_ok n f R" and e: "normal_event n e" and ev: "replica_event R e = Some (0, ev)"
  shows "leader_event ev"
proof (cases e)
  case (SDeliver j k i)
  let ?x = "vr_sent (R ! j) ! k"
  have j: "j < n" and x: "?x \<in> set (vr_sent (R ! j))" and to: "reaches (fst ?x) j 0" and ev': "ev = VMsg (of_nat j) (snd ?x)" and n: "0 < n"
    using ev SDeliver R by (auto simp: group_ok_def split: if_splits)
  have "\<not> state_transfer_ok f R ?x" using to by (auto simp: state_transfer_ok_def)
  then have "sent_ok n j (R ! j) ?x" using group_member(6) [OF R j x] by blast
  then show ?thesis using to n unfolding ev' by (cases ?x; cases "snd ?x") auto
qed (use ev in \<open>auto split: if_splits\<close>)

lemma sys_run_table:
  assumes "group_ok n f R" and "list_all (normal_event n) es" and "length (vl_entries (vr_log (R ! 0))) + length es < 2 ^ 64 - 1"
    and "table_ok (R ! 0)"
  shows "\<exists>R'. sys_run app es R = Inr R' \<and> group_ok n f R' \<and> table_ok (R' ! 0)"
  using assms
proof (induction es arbitrary: R)
  case (Cons e es)
  then have e: "Suc (length (vl_entries (vr_log (R ! 0)))) < 2 ^ 64 - 1" "normal_event n e" by simp_all
  then obtain R1 where R1: "sys_step app R e = Inr R1" "group_ok n f R1"
    "length (vl_entries (vr_log (R1 ! 0))) \<le> Suc (length (vl_entries (vr_log (R ! 0))))"
    using sys_step_ok [OF Cons.prems(1), of e app] by blast
  have "table_ok (R1 ! 0)"
  proof (cases "\<exists>ev. replica_event R e = Some (0, ev)")
    case True
    then obtain ev s where ev: "replica_event R e = Some (0, ev)" and s: "vr_step app (R ! 0) ev = Inr s" "R1 = R[0 := s]"
      using R1(1) by (auto simp: sys_step_def bindr_eq_Inr)
    have "table_ok s"
      using leader_event_table [OF Cons.prems(4) leader_receives [OF Cons.prems(1) e(2) ev], of app] s(1) by (simp add: after_def)
    then show ?thesis using s(2) Cons.prems(1) by (simp add: group_ok_def)
  next
    case False
    then have "R1 ! 0 = R ! 0" using R1(1) by (auto simp: sys_step_def bindr_eq_Inr split: option.splits)
    then show ?thesis using Cons.prems(4) by simp
  qed
  with Cons.IH [OF R1(2)] R1 Cons.prems show ?case by simp
qed simp

lemma normal_run:
  assumes "0 < n" and "n < 2 ^ 31" and "list_all (normal_event n) sched" and "length sched < 2 ^ 64 - 1"
  shows "\<exists>R. sys_run app sched (vr_group n f batchSize a) = Inr R \<and> group_ok n f R \<and> table_ok (R ! 0)"
proof -
  note init = vr_group_ok [OF assms(1,2), where f = f and b = batchSize and a = a]
  have "length (vl_entries (vr_log (vr_group n f batchSize a ! 0))) = 0" using init(2) length_contents by (metis list.size(3))
  moreover have "table_ok (vr_group n f batchSize a ! 0)" using init(2) by (simp add: table_ok_def)
  ultimately show ?thesis using sys_run_table [OF init(1) assms(3)] assms(4) by auto
qed

section \<open>Histories of the client\<close>

text \<open>What a client has sent under a number does not change, and a finished request leaves the table.\<close>

definition requests_in :: "(vr_dest \<times> vr_msg) list \<Rightarrow> VRequest set" where
  "requests_in ms = {r. \<exists>d. (d, RequestMessage r) \<in> set ms}"

abbreviation vc_requests :: "VRClient \<Rightarrow> VRequest set" where
  "vc_requests c \<equiv> requests_in (vc_sent c)"

lemma requests_in_simps [simp]:
  "requests_in [] = {}" "requests_in (ms @ [(d, RequestMessage r)]) = insert r (requests_in ms)"
  "requests_in (ms @ [(d, UnloggedRequestMessage r)]) = requests_in ms"
  by (auto simp: requests_in_def)

definition history_ok :: "u64 \<Rightarrow> u64 \<Rightarrow> (u64 \<rightharpoonup> VPendingRequest) \<Rightarrow> u64 list \<Rightarrow> VRequest set \<Rightarrow> bool" where
  "history_ok cid lst pend outs reqs \<longleftrightarrow> distinct outs \<and> inj_on vq_clientreqid reqs \<and>
     (\<forall>k \<in> set outs. k \<le> lst \<and> pend k = None) \<and>
     (\<forall>k req. pend k = Some req \<longrightarrow> pq_clientReqId req = k \<and> k \<le> lst) \<and>
     (\<forall>r \<in> reqs. vq_clientid r = cid \<and> vq_clientreqid r \<le> lst \<and>
        (\<forall>req. pend (vq_clientreqid r) = Some req \<longrightarrow> vq_op r = pq_request req))"

abbreviation client_ok :: "VRClient \<Rightarrow> bool" where
  "client_ok c \<equiv> history_ok (vc_clientid c) (vc_lastReqId c) (vc_pendingReqs c) (map fst (vc_outcomes c)) (vc_requests c)"

lemma history_send:
  assumes "history_ok cid lst pend outs reqs" and "pend k = Some req"
  shows "history_ok cid lst (pend(k \<mapsto> req\<lparr>pq_armed := b\<rparr>)) outs
      (insert \<lparr>vq_op = pq_request req, vq_clientid = cid, vq_clientreqid = k\<rparr> reqs)"
proof -
  have "r = \<lparr>vq_op = pq_request req, vq_clientid = cid, vq_clientreqid = k\<rparr>" if "r \<in> reqs" "vq_clientreqid r = k" for r
    using assms that unfolding history_ok_def by (intro VRequest.equality) auto
  then have "inj_on vq_clientreqid (insert \<lparr>vq_op = pq_request req, vq_clientid = cid, vq_clientreqid = k\<rparr> reqs)"
    using assms(1) by (auto simp: history_ok_def inj_on_def)
  then show ?thesis using assms unfolding history_ok_def by auto
qed

lemma history_remove: "history_ok cid lst pend outs reqs \<Longrightarrow> history_ok cid lst (pend(k := None)) outs reqs"
  by (auto simp: history_ok_def)

lemma history_finish:
  "history_ok cid lst pend outs reqs \<Longrightarrow> pend k = Some req \<Longrightarrow> history_ok cid lst (pend(k := None)) (outs @ [k]) reqs"
  by (auto simp: history_ok_def)

lemma history_next:
  assumes h: "history_ok cid lst pend outs reqs" and less: "unat lst < 2 ^ 64 - 1"
  shows "history_ok cid (lst + 1) pend outs reqs"
    and "pq_clientReqId req = lst + 1 \<Longrightarrow> history_ok cid (lst + 1) (pend(lst + 1 \<mapsto> req)) outs reqs"
proof -
  have "unat (lst + 1) = Suc (unat lst)" using less by (simp add: unat_word_ariths(1))
  then have le: "k \<le> lst \<Longrightarrow> k \<le> lst + 1 \<and> k \<noteq> lst + 1" for k by (auto simp: word_le_nat_alt)
  show n: "history_ok cid (lst + 1) pend outs reqs" using h le unfolding history_ok_def by blast
  have "lst + 1 \<notin> set outs" "\<And>r. r \<in> reqs \<Longrightarrow> vq_clientreqid r \<noteq> lst + 1" using h le unfolding history_ok_def by blast+
  with n show "history_ok cid (lst + 1) (pend(lst + 1 \<mapsto> req)) outs reqs" if "pq_clientReqId req = lst + 1"
    using that unfolding history_ok_def by auto
qed

lemma SendRequest_client:
  assumes "client_ok c" and "vc_pendingReqs c (pq_clientReqId req) = Some req"
  shows "client_ok (vc_SendRequest c req ok)"
  using history_send [OF assms] history_remove [OF assms(1)] by (simp add: vc_SendRequest_def vc_message_def)

lemma vc_step_client:
  assumes c: "client_ok c" and less: "unat (vc_lastReqId c) < 2 ^ 64 - 1"
  shows "after (\<lambda>c'. client_ok c' \<and> unat (vc_lastReqId c') \<le> Suc (unat (vc_lastReqId c)) \<and> vc_clientid c' = vc_clientid c) (vc_step c e)"
proof -
  have u: "unat (vc_lastReqId c + 1) = Suc (unat (vc_lastReqId c))" using less by (simp add: unat_word_ariths(1))
  have send: "vc_lastReqId (vc_SendRequest c req ok) = vc_lastReqId c" "vc_clientid (vc_SendRequest c req ok) = vc_clientid c" for c req ok
    by (simp_all add: vc_SendRequest_def)
  show ?thesis
  proof (cases e)
    case (CInvoke request ok)
    let ?req = "\<lparr>pq_request = request, pq_clientReqId = vc_lastReqId c + 1, pq_armed = False, pq_unlogged = None\<rparr>"
    let ?c = "c\<lparr>vc_lastReqId := vc_lastReqId c + 1, vc_pendingReqs := (vc_pendingReqs c)(vc_lastReqId c + 1 \<mapsto> ?req)\<rparr>"
    have "client_ok (vc_SendRequest ?c ?req ok)"
      by (rule SendRequest_client) (use history_next(2) [OF c less, of ?req] in simp_all)
    then show ?thesis using CInvoke u by (simp add: vc_Invoke_def Let_def send)
  next
    case (CInvokeUnlogged i request has_error ok)
    then show ?thesis using history_next [OF c less] u by (simp add: vc_InvokeUnlogged_def Let_def)
  next
    case (CReceive m)
    then show ?thesis using c history_finish [OF c]
      by (cases m) (auto simp: vc_HandleReply_def vc_HandleUnloggedReply_def split: option.split)
  next
    case (CTimer k ok)
    have k: "vc_pendingReqs c (pq_clientReqId req) = Some req" if "vc_pendingReqs c k = Some req" for req
      using c that by (auto simp: history_ok_def)
    have "client_ok (vc_ResendRequest c k ok)" "vc_lastReqId (vc_ResendRequest c k ok) = vc_lastReqId c"
      "vc_clientid (vc_ResendRequest c k ok) = vc_clientid c"
      using c SendRequest_client [OF c k] by (simp_all add: vc_ResendRequest_def send split: option.split)
    then show ?thesis using CTimer c history_finish [OF c] history_remove [OF c, of k]
      by (auto simp: vc_UnloggedRequestTimeoutCallback_def Let_def split: option.split)
  qed
qed

text \<open>
  In any history of a client with fewer than \<open>2 ^ 64\<close> events no cast goes wrong, every request number has at
  most one outcome, and all request messages with the same number are the same message.
\<close>

lemma vr_client_history:
  assumes "vc_run es (VRClient_new clientid) = Inr c" and "length es < 2 ^ 64 - 1"
  shows "distinct (map fst (vc_outcomes c))" and "inj_on vq_clientreqid (vc_requests c)"
    and "\<And>r. r \<in> vc_requests c \<Longrightarrow> vq_clientid r = clientid"
proof -
  have "after (\<lambda>c'. client_ok c' \<and> vc_clientid c' = vc_clientid c) (vc_run es c)"
    if "client_ok c" "unat (vc_lastReqId c) + length es < 2 ^ 64 - 1" for c es
    using that
  proof (induction es arbitrary: c)
    case (Cons e es)
    show ?case
    proof (cases "vc_step c e")
      case (Inr c1)
      have "unat (vc_lastReqId c) < 2 ^ 64 - 1" using Cons.prems(2) by simp
      from vc_step_client [OF Cons.prems(1) this, of e] Inr
      have c1: "client_ok c1" "unat (vc_lastReqId c1) \<le> Suc (unat (vc_lastReqId c))" "vc_clientid c1 = vc_clientid c" by (auto simp: after_def)
      have "unat (vc_lastReqId c1) + length es < 2 ^ 64 - 1" using c1(2) Cons.prems(2) by simp
      from Cons.IH [OF c1(1) this] show ?thesis using Inr c1(3) by simp
    qed simp
  qed simp
  from this [of "VRClient_new clientid" es] assms
  have "client_ok c" "vc_clientid c = clientid" by (simp_all add: VRClient_new_def history_ok_def)
  then show "distinct (map fst (vc_outcomes c))" "inj_on vq_clientreqid (vc_requests c)"
    "\<And>r. r \<in> vc_requests c \<Longrightarrow> vq_clientid r = clientid" by (auto simp: history_ok_def)
qed

lemma vr_client_no_bad_cast: "vc_step c e \<noteq> Inl (VUB x)"
proof (cases e)
  case (CReceive m)
  then show ?thesis by (cases m) simp_all
qed (auto simp: vc_UnloggedRequestTimeoutCallback_def Let_def split: option.split)

section \<open>Properties\<close>

text \<open>At most once: while a group of replicas stays in its first view, no replica executes two operations
  with the same client and request number, however often clients repeat their requests and
  messages are delivered.\<close>

lemma vr_at_most_once:
  assumes "0 < n" and "n < 2 ^ 31" and "list_all (normal_event n) sched" and "length sched < 2 ^ 64 - 1"
  shows "\<exists>R. sys_run app sched (vr_group n f batchSize a) = Inr R \<and>
    (\<forall>i < n. distinct (map (request_key \<circ> snd) (vr_executed (R ! i))))"
proof -
  obtain R where run: "sys_run app sched (vr_group n f batchSize a) = Inr R" and R: "group_ok n f R" and t: "table_ok (R ! 0)"
    using normal_run [OF assms, of app f batchSize a] by blast
  have "distinct (map (request_key \<circ> snd) (vr_executed (R ! i)))" if i: "i < n" for i
  proof -
    note mi = group_member [OF R i]
    let ?L = "contents (vr_log (R ! i))"
    have len: "unat (vr_lastCommitted (R ! i)) \<le> length ?L" using base_ok_committed [OF mi(1)] mi(1) by (simp add: base_ok_def)
    then have "map (request_key \<circ> snd) (vr_executed (R ! i)) = take (unat (vr_lastCommitted (R ! i))) (map (request_key \<circ> snd) ?L)"
      using mi(1) by (intro nth_equalityI) (auto simp: base_ok_def simp del: contents_nth)
    moreover have "distinct (map (request_key \<circ> snd) ?L)"
      using t mi(2) by (auto simp: table_ok_def prefix_def)
    ultimately show ?thesis by (simp add: distinct_take)
  qed
  with run show ?thesis by blast
qed

end
