(* ===== verification/Configs.thy ===== *)
theory Configs
  imports D2PC_Prelude "HOL-Library.Char_ord" "HOL-Library.List_Lexorder" "HOL-Library.Product_Lexorder"
    "HOL-Library.Option_ord"
begin

text \<open>
  src/lib/configuration.cc and configuration.h: the configuration of a replica group, its file format
  and its order. (Quorum sizes are in \<open>QuorumSets\<close>.)

  \<^item> A file is the stream that \<^verbatim>\<open>std::ifstream\<close> makes of it: the characters still to be read and the
    two state bits. A file that cannot be opened is a stream in the failed state.
  \<^item> Positions in a line are kept in variables of type \<^verbatim>\<open>unsigned int\<close> and compared with
    \<^verbatim>\<open>std::string::npos\<close>, a value of 64 bits: positions are 32-bit words here, and the comparison is
    made at 64 bits.
  \<^item> A call of \<^verbatim>\<open>Panic\<close> ends the process, as does the exception \<^verbatim>\<open>std::out_of_range\<close>, which is
    not caught; both are error values.
  \<^item> The member \<^verbatim>\<open>multicastAddress\<close> is read only if \<^verbatim>\<open>hasMulticast\<close> is set; the two are one
    option.
\<close>

type_synonym u32 = "32 word"

datatype ReplicaAddress = ReplicaAddress (ra_host: string) (ra_port: string)

record Configuration =
  cfg_n :: int
  cfg_f :: int
  cfg_replicas :: "ReplicaAddress list"
  cfg_multicast :: "ReplicaAddress option"

datatype cfg_error = Panic string | OutOfRange | InvalidArgument

definition Configuration_new :: "int \<Rightarrow> int \<Rightarrow> ReplicaAddress list \<Rightarrow> ReplicaAddress option \<Rightarrow> Configuration" where
  "Configuration_new n f replicas multicastAddress =
     \<lparr>cfg_n = n, cfg_f = f, cfg_replicas = replicas, cfg_multicast = multicastAddress\<rparr>"

definition cfg_replica :: "Configuration \<Rightarrow> int \<Rightarrow> ub + ReplicaAddress" where
  "cfg_replica c idx =
     (if 0 \<le> idx \<and> nat idx < length (cfg_replicas c) then Inr (cfg_replicas c ! nat idx) else Inl OutOfBounds)"

section \<open>Strings and streams\<close>

definition blank :: "char \<Rightarrow> bool" where
  "blank c \<longleftrightarrow> c = CHR '' '' \<or> c = CHR 0x09"

definition find_from :: "(char \<Rightarrow> bool) \<Rightarrow> string \<Rightarrow> nat \<Rightarrow> nat option" where
  "find_from P s pos =
     (let k = length (takeWhile (\<lambda>c. \<not> P c) (drop pos s)) in if pos + k < length s then Some (pos + k) else None)"

definition u32_pos :: "nat option \<Rightarrow> u32" where
  "u32_pos p = (case p of None \<Rightarrow> - 1 | Some i \<Rightarrow> of_nat i)"

definition is_npos :: "u32 \<Rightarrow> bool" where
  "is_npos t \<longleftrightarrow> (ucast t :: u64) = - 1"

definition substr :: "string \<Rightarrow> u32 \<Rightarrow> nat \<Rightarrow> cfg_error + string" where
  "substr s pos len =
     (if length s < unat pos then Inl OutOfRange
      else Inr (take (min len (length s - unat pos)) (drop (unat pos) s)))"

abbreviation substr_to :: "string \<Rightarrow> u32 \<Rightarrow> cfg_error + string" where
  "substr_to s pos \<equiv> substr s pos (length s)"

definition tolower :: "char \<Rightarrow> char" where
  "tolower c = (if 65 \<le> (of_char c :: nat) \<and> (of_char c :: nat) \<le> 90 then char_of ((of_char c :: nat) + 32) else c)"

text \<open>\<^verbatim>\<open>strcasecmp\<close> with a lower-case word, on the C string that ends at the first null character.\<close>

definition is_cmd :: "string \<Rightarrow> string \<Rightarrow> bool" where
  "is_cmd cmd w \<longleftrightarrow> map tolower (takeWhile (\<lambda>c. c \<noteq> CHR 0x00) cmd) = w"

definition isspace :: "char \<Rightarrow> bool" where
  "isspace c \<longleftrightarrow> c = CHR '' '' \<or> 9 \<le> (of_char c :: nat) \<and> (of_char c :: nat) \<le> 13"

definition isdigit :: "char \<Rightarrow> bool" where
  "isdigit c \<longleftrightarrow> 48 \<le> (of_char c :: nat) \<and> (of_char c :: nat) \<le> 57"

definition digits_value :: "string \<Rightarrow> nat" where
  "digits_value ds = foldl (\<lambda>a d. 10 * a + (of_char d - 48)) 0 ds"

definition stoul :: "string \<Rightarrow> cfg_error + u64" where
  "stoul s =
     (let s = dropWhile isspace s;
          neg = (s \<noteq> [] \<and> hd s = CHR ''-'');
          s = (if s \<noteq> [] \<and> (hd s = CHR ''-'' \<or> hd s = CHR ''+'') then tl s else s);
          ds = takeWhile isdigit s
      in if ds = [] then Inl InvalidArgument
         else if 2 ^ 64 \<le> digits_value ds then Inl OutOfRange
         else Inr (if neg then - of_nat (digits_value ds) else of_nat (digits_value ds)))"

record ifstream =
  if_rest :: string
  if_eof :: bool
  if_fail :: bool

definition ifstream_open :: "string option \<Rightarrow> ifstream" where
  "ifstream_open file = (case file of None \<Rightarrow> \<lparr>if_rest = [], if_eof = False, if_fail = True\<rparr>
     | Some text \<Rightarrow> \<lparr>if_rest = text, if_eof = False, if_fail = False\<rparr>)"

text \<open>Extraction stops after a newline or at the end, which sets the end bit; extracting nothing fails.\<close>

definition getline :: "ifstream \<Rightarrow> string \<times> ifstream" where
  "getline st =
     (if if_eof st \<or> if_fail st then ([], st\<lparr>if_fail := True\<rparr>)
      else
        let line = takeWhile (\<lambda>c. c \<noteq> CHR 0x0A) (if_rest st); rest = drop (length line) (if_rest st) in
        if rest = [] then (line, \<lparr>if_rest = [], if_eof = True, if_fail = (line = [])\<rparr>)
        else (line, st\<lparr>if_rest := tl rest\<rparr>))"

section \<open>The file format\<close>

text \<open>The members the parser fills in: \<^verbatim>\<open>f\<close>, \<^verbatim>\<open>replicas\<close> and the multicast address.\<close>

type_synonym config_fields = "int \<times> ReplicaAddress list \<times> ReplicaAddress option"

definition config_f :: "string \<Rightarrow> u32 \<Rightarrow> cfg_error + int" where
  "config_f line t1 =
     (let t2 = u32_pos (find_from (\<lambda>c. \<not> blank c) line (unat t1)) in
      if is_npos t2 then Inl (Panic ''f configuration line requires an argument'')
      else bindr (substr_to line t2) (\<lambda>s.
        case stoul s of
          Inl InvalidArgument \<Rightarrow> Inl (Panic ''Invalid argument to f configuration line'')
        | Inl e \<Rightarrow> Inl e
        | Inr v \<Rightarrow> Inr (int32 v)))"

text \<open>The lines \<^verbatim>\<open>replica\<close> and \<^verbatim>\<open>multicast\<close> are taken apart by the same statements.\<close>

definition host_port :: "string \<Rightarrow> string \<Rightarrow> u32 \<Rightarrow> cfg_error + ReplicaAddress" where
  "host_port usage line t1 =
     (let t2 = u32_pos (find_from (\<lambda>c. \<not> blank c) line (unat t1)) in
      if is_npos t2 then Inl (Panic usage)
      else
        let t3 = u32_pos (find_from (\<lambda>c. c = CHR '':'') line (unat t2)) in
        if is_npos t3 then Inl (Panic ''Configuration line format: replica host:port'')
        else bindr (substr line t2 (unat (t3 - t2))) (\<lambda>host.
             bindr (substr_to line (t3 + 1)) (\<lambda>port. Inr (ReplicaAddress host port))))"

definition config_line :: "string \<Rightarrow> config_fields \<Rightarrow> cfg_error + config_fields" where
  "config_line line = (\<lambda>(f, replicas, mc).
     if line = [] \<or> hd line = CHR ''#'' then Inr (f, replicas, mc)
     else
       let t1 = u32_pos (find_from blank line 0) in
       bindr (substr line 0 (unat t1)) (\<lambda>cmd.
         if is_cmd cmd ''f'' then bindr (config_f line t1) (\<lambda>f. Inr (f, replicas, mc))
         else if is_cmd cmd ''replica''
         then bindr (host_port ''replica configuration line requires an argument'' line t1) (\<lambda>r. Inr (f, replicas @ [r], mc))
         else if is_cmd cmd ''multicast''
         then bindr (host_port ''multicast configuration line requires an argument'' line t1) (\<lambda>r. Inr (f, replicas, Some r))
         else Inl (Panic ''Unknown configuration directive'')))"

partial_function (option) config_loop :: "ifstream \<Rightarrow> config_fields \<Rightarrow> (cfg_error + config_fields) option" where
  "config_loop st c =
     (if if_eof st then Some (Inr c)
      else case config_line (fst (getline st)) c of
             Inl e \<Rightarrow> Some (Inl e)
           | Inr c' \<Rightarrow> config_loop (snd (getline st)) c')"

declare config_loop.simps [code]

definition config_check :: "config_fields \<Rightarrow> cfg_error + Configuration" where
  "config_check = (\<lambda>(f, replicas, mc).
     let n = int32 (of_nat (length replicas)) in
     if n = 0 then Inl (Panic ''Configuration did not specify any replicas'')
     else if f = - 1 then Inl (Panic ''Configuration did not specify a f parameter'')
     else Inr (Configuration_new n f replicas mc))"

definition Configuration_read :: "ifstream \<Rightarrow> (cfg_error + Configuration) option" where
  "Configuration_read file = map_option (\<lambda>r. bindr r config_check) (config_loop file (- 1, [], None))"

section \<open>Comparison\<close>

definition ra_eq :: "ReplicaAddress \<Rightarrow> ReplicaAddress \<Rightarrow> bool" where
  "ra_eq a b \<longleftrightarrow> ra_host a = ra_host b \<and> ra_port a = ra_port b"

definition ra_lt :: "ReplicaAddress \<Rightarrow> ReplicaAddress \<Rightarrow> bool" where
  "ra_lt a b \<longleftrightarrow> ra_host a < ra_host b \<or> \<not> ra_host b < ra_host a \<and> ra_port a < ra_port b"

fun vector_eq :: "ReplicaAddress list \<Rightarrow> ReplicaAddress list \<Rightarrow> bool" where
  "vector_eq [] [] = True"
| "vector_eq (a # as) (b # bs) = (ra_eq a b \<and> vector_eq as bs)"
| "vector_eq as bs = False"

fun vector_lt :: "ReplicaAddress list \<Rightarrow> ReplicaAddress list \<Rightarrow> bool" where
  "vector_lt as [] = False"
| "vector_lt [] (b # bs) = True"
| "vector_lt (a # as) (b # bs) = (if ra_lt a b then True else if ra_lt b a then False else vector_lt as bs)"

definition config_eq :: "Configuration \<Rightarrow> Configuration \<Rightarrow> bool" where
  "config_eq c d \<longleftrightarrow> cfg_n c = cfg_n d \<and> cfg_f c = cfg_f d \<and> vector_eq (cfg_replicas c) (cfg_replicas d) \<and>
     (case (cfg_multicast c, cfg_multicast d) of
        (None, None) \<Rightarrow> True | (Some a, Some b) \<Rightarrow> ra_eq a b | _ \<Rightarrow> False)"

text \<open>\<^verbatim>\<open>this_t < other_t\<close> and \<^verbatim>\<open>this_t == other_t\<close> of the tuples the operator builds.\<close>

definition tuple_lt :: "Configuration \<Rightarrow> Configuration \<Rightarrow> bool" where
  "tuple_lt c d \<longleftrightarrow> cfg_n c < cfg_n d \<or> \<not> cfg_n d < cfg_n c \<and> (cfg_f c < cfg_f d \<or> \<not> cfg_f d < cfg_f c \<and>
     (vector_lt (cfg_replicas c) (cfg_replicas d) \<or> \<not> vector_lt (cfg_replicas d) (cfg_replicas c) \<and>
      cfg_multicast c = None \<and> cfg_multicast d \<noteq> None))"

definition tuple_eq :: "Configuration \<Rightarrow> Configuration \<Rightarrow> bool" where
  "tuple_eq c d \<longleftrightarrow> cfg_n c = cfg_n d \<and> cfg_f c = cfg_f d \<and> vector_eq (cfg_replicas c) (cfg_replicas d) \<and>
     (cfg_multicast c = None) = (cfg_multicast d = None)"

definition config_lt :: "Configuration \<Rightarrow> Configuration \<Rightarrow> bool" where
  "config_lt c d =
     (if tuple_lt c d then True
      else if tuple_eq c d
      then (case (cfg_multicast c, cfg_multicast d) of (Some a, Some b) \<Rightarrow> ra_lt a b | _ \<Rightarrow> False)
      else False)"

definition config_le :: "Configuration \<Rightarrow> Configuration \<Rightarrow> bool" where
  "config_le c d \<longleftrightarrow> config_lt c d \<or> config_eq c d"

definition config_gt :: "Configuration \<Rightarrow> Configuration \<Rightarrow> bool" where
  "config_gt c d \<longleftrightarrow> \<not> config_le c d"

definition config_ge :: "Configuration \<Rightarrow> Configuration \<Rightarrow> bool" where
  "config_ge c d \<longleftrightarrow> \<not> config_lt c d"

section \<open>The order\<close>

instantiation ReplicaAddress :: linorder
begin

definition less_ReplicaAddress :: "ReplicaAddress \<Rightarrow> ReplicaAddress \<Rightarrow> bool" where
  "less_ReplicaAddress = ra_lt"

definition less_eq_ReplicaAddress :: "ReplicaAddress \<Rightarrow> ReplicaAddress \<Rightarrow> bool" where
  "less_eq_ReplicaAddress a b \<longleftrightarrow> ra_lt a b \<or> a = b"

instance
  by standard (auto simp: less_ReplicaAddress_def less_eq_ReplicaAddress_def ra_lt_def intro: ReplicaAddress.expand)

end

lemma ra_eq_iff: "ra_eq a b \<longleftrightarrow> a = b"
  by (cases a; cases b) (simp add: ra_eq_def)

lemma ra_lt_iff: "ra_lt a b \<longleftrightarrow> a < b"
  by (simp add: less_ReplicaAddress_def)

lemma vector_eq_iff: "vector_eq as bs \<longleftrightarrow> as = bs"
  by (induction as bs rule: vector_eq.induct) (simp_all add: ra_eq_iff)

lemma vector_lt_iff: "vector_lt as bs \<longleftrightarrow> as < bs"
  by (induction as bs rule: vector_lt.induct) (auto simp: ra_lt_iff)

lemmas comparison_iffs = ra_eq_iff ra_lt_iff vector_eq_iff vector_lt_iff

lemma config_eq_iff: "config_eq c d \<longleftrightarrow> c = d"
  by (auto simp: config_eq_def comparison_iffs split: option.splits)

text \<open>The comparison operators of configurations are the lexicographic order of size, number of
  tolerated failures, replica addresses and multicast address, a configuration without a multicast
  address coming before one with: they form a linear order, and equality is equality of all parts.\<close>

lemma configuration_order:
  "(config_lt c d \<longleftrightarrow> (cfg_n c, cfg_f c, cfg_replicas c, cfg_multicast c) < (cfg_n d, cfg_f d, cfg_replicas d, cfg_multicast d)) \<and>
   (config_le c d \<longleftrightarrow> (cfg_n c, cfg_f c, cfg_replicas c, cfg_multicast c) \<le> (cfg_n d, cfg_f d, cfg_replicas d, cfg_multicast d)) \<and>
   config_gt c d = config_lt d c \<and> config_ge c d = config_le d c \<and> (config_eq c d \<longleftrightarrow> c = d)"
proof -
  have lt: "config_lt c d \<longleftrightarrow> (cfg_n c, cfg_f c, cfg_replicas c, cfg_multicast c) < (cfg_n d, cfg_f d, cfg_replicas d, cfg_multicast d)"
    for c d
    by (auto simp: config_lt_def tuple_lt_def tuple_eq_def comparison_iffs less_prod_def' split: option.splits)
  have le: "config_le c d \<longleftrightarrow> (cfg_n c, cfg_f c, cfg_replicas c, cfg_multicast c) \<le> (cfg_n d, cfg_f d, cfg_replicas d, cfg_multicast d)"
    for c d
    unfolding config_le_def lt config_eq_iff by (auto simp: order.order_iff_strict)
  show ?thesis
    unfolding config_gt_def config_ge_def le unfolding lt config_eq_iff by auto
qed

section \<open>Reading a file\<close>

lemma config_line_empty [simp]: "config_line [] c = Inr c"
  by (cases c) (simp add: config_line_def)

lemma config_loop_failed:
  assumes "config_loop st c = Some r" shows "if_eof st \<or> \<not> if_fail st"
proof -
  have "if_fail st \<longrightarrow> if_eof st" if "config_loop st c = Some r" for st c r
    by (rule config_loop.raw_induct [where P = "\<lambda>st c r. if_fail st \<longrightarrow> if_eof st", OF _ that])
      (force simp: getline_def split: if_splits)
  with assms show ?thesis by blast
qed

lemma config_loop_good: "if_eof st \<or> \<not> if_fail st \<Longrightarrow> \<exists>r. config_loop st c = Some r"
proof (induction "length (if_rest st)" arbitrary: st c rule: less_induct)
  case less
  show ?case
  proof (cases "if_eof st")
    case True
    then show ?thesis by (simp add: config_loop.simps)
  next
    case False
    let ?line = "takeWhile (\<lambda>c. c \<noteq> CHR 0x0A) (if_rest st)" and ?st = "snd (getline st)"
    have "\<exists>r. config_loop ?st c' = Some r" for c'
    proof (cases "drop (length ?line) (if_rest st) = []")
      case True
      with False less.prems have "if_eof ?st" by (simp add: getline_def Let_def)
      then show ?thesis by (simp add: config_loop.simps)
    next
      case more: False
      then have "length (if_rest ?st) < length (if_rest st)" "\<not> if_fail ?st"
        using False less.prems by (auto simp: getline_def Let_def)
      then show ?thesis using less.hyps by blast
    qed
    then show ?thesis using False by (auto simp: config_loop.simps [of st] split: sum.split)
  qed
qed

text \<open>C27. Reading a configuration file returns, with a configuration or an error, for every file that can
  be opened, and does not return for one that cannot: the loop waits for the end of a stream whose
  failed state keeps it from ever being reached.\<close>

theorem configuration_read_returns:
  "(\<exists>r. Configuration_read (ifstream_open input) = Some r) \<longleftrightarrow> input \<noteq> None"
proof -
  have "(\<exists>r. config_loop (ifstream_open input) c = Some r) \<longleftrightarrow> if_eof (ifstream_open input) \<or> \<not> if_fail (ifstream_open input)"
    for c using config_loop_failed config_loop_good by blast
  then show ?thesis by (cases input) (simp_all add: Configuration_read_def ifstream_open_def)
qed

section \<open>Writing and reading back\<close>

fun show_nat :: "nat \<Rightarrow> string" where
  "show_nat n = (if n < 10 then [char_of (48 + n)] else show_nat (n div 10) @ [char_of (48 + n mod 10)])"

declare show_nat.simps [simp del]

definition address_text :: "ReplicaAddress \<Rightarrow> string" where
  "address_text a = ra_host a @ CHR '':'' # ra_port a"

definition config_text :: "Configuration \<Rightarrow> string" where
  "config_text c = ''f '' @ show_nat (nat (cfg_f c)) @ [CHR 0x0A] @
     concat (map (\<lambda>a. ''replica '' @ address_text a @ [CHR 0x0A]) (cfg_replicas c)) @
     (case cfg_multicast c of None \<Rightarrow> [] | Some a \<Rightarrow> ''multicast '' @ address_text a @ [CHR 0x0A])"

definition wf_address :: "ReplicaAddress \<Rightarrow> bool" where
  "wf_address a \<longleftrightarrow> CHR '':'' \<notin> set (ra_host a) \<and> (ra_host a = [] \<or> \<not> blank (hd (ra_host a))) \<and>
     CHR 0x0A \<notin> set (address_text a) \<and> length (address_text a) < 2 ^ 32 - 11"

definition wf_config :: "Configuration \<Rightarrow> bool" where
  "wf_config c \<longleftrightarrow> 0 \<le> cfg_f c \<and> cfg_f c < 2 ^ 31 \<and> cfg_replicas c \<noteq> [] \<and> length (cfg_replicas c) < 2 ^ 31 \<and>
     cfg_n c = int (length (cfg_replicas c)) \<and> list_all wf_address (cfg_replicas c) \<and>
     (case cfg_multicast c of None \<Rightarrow> True | Some a \<Rightarrow> wf_address a)"

lemma of_char_digit [simp]: "n < 10 \<Longrightarrow> (of_char (char_of (48 + n) :: char) :: nat) = 48 + n"
  by simp

lemma isdigit_char_of: "n < 10 \<Longrightarrow> isdigit (char_of (48 + n :: nat))"
  by (simp add: isdigit_def)

lemma show_nat_digits: "list_all isdigit (show_nat n)"
  by (induction n rule: show_nat.induct) (subst show_nat.simps, auto intro: isdigit_char_of)

lemma show_nat_nonempty [simp]: "show_nat n \<noteq> []"
  by (subst show_nat.simps) simp

lemma digits_value_show_nat: "digits_value (show_nat n) = n"
proof (induction n rule: show_nat.induct)
  case (1 n)
  then show ?case
    by (subst show_nat.simps) (simp add: digits_value_def)
qed

lemma stoul_show_nat:
  assumes "n < 2 ^ 64" shows "stoul (show_nat n) = Inr (of_nat n)"
proof -
  obtain d ds where s: "show_nat n = d # ds" by (cases "show_nat n") auto
  have "isdigit d" using show_nat_digits [of n] s by simp
  then have d: "\<not> isspace d" "d \<noteq> CHR ''-''" "d \<noteq> CHR ''+''" by (auto simp: isdigit_def isspace_def)
  moreover have tw: "takeWhile isdigit (show_nat n) = show_nat n"
    using show_nat_digits [of n] by (simp add: list_all_iff)
  moreover have "dropWhile isspace (show_nat n) = show_nat n" using d(1) s by simp
  moreover have "hd (show_nat n) = d" using s by simp
  ultimately show ?thesis using assms unfolding stoul_def
    by (simp add: digits_value_show_nat Let_def del: takeWhile_eq_all_conv)
qed

lemma is_npos_False [simp]: "\<not> is_npos t"
proof
  assume "is_npos t"
  then have "uint (ucast t :: u64) = uint (- 1 :: u64)" by (simp add: is_npos_def)
  moreover have "uint (ucast t :: u64) < 2 ^ 32"
    using uint_lt2p [of t] by (simp add: unsigned_ucast_eq take_bit_int_eq_self)
  ultimately show False by (simp add: unsigned_minus_1_eq_mask mask_eq_exp_minus_1)
qed

lemma unat_of_nat_u32: "i < 2 ^ 32 \<Longrightarrow> unat (of_nat i :: u32) = i"
  by (simp add: unsigned_of_nat take_bit_nat_eq_self)

lemma find_from_after:
  "(\<forall>c \<in> set xs. \<not> P c) \<Longrightarrow> P y \<Longrightarrow> find_from P (us @ xs @ y # ys) (length us) = Some (length us + length xs)"
  by (simp add: find_from_def takeWhile_append2)

lemma host_port_text:
  assumes "wf_address a" and "length cmd < 10"
  shows "host_port usage (cmd @ CHR '' '' # address_text a) (of_nat (length cmd)) = Inr a"
proof -
  let ?line = "cmd @ CHR '' '' # address_text a" and ?k = "length cmd + 1" and ?h = "length (ra_host a)"
  have wf: "CHR '':'' \<notin> set (ra_host a)" "ra_host a = [] \<or> \<not> blank (hd (ra_host a))" "length (address_text a) < 2 ^ 32 - 11"
    using assms(1) by (auto simp: wf_address_def)
  have len: "?k + ?h + 1 < 2 ^ 32" using wf(3) assms(2) by (simp add: address_text_def)
  have start: "find_from (\<lambda>c. \<not> blank c) ?line (length cmd) = Some ?k"
    using find_from_after [of "[CHR '' '']" "\<lambda>c. \<not> blank c" "hd (address_text a)" cmd "tl (address_text a)"] wf(2)
    by (cases "ra_host a") (auto simp: address_text_def blank_def)
  have colon: "find_from (\<lambda>c. c = CHR '':'') ?line ?k = Some (?k + ?h)"
    using find_from_after [of "ra_host a" "\<lambda>c. c = CHR '':''" "CHR '':''" "cmd @ [CHR '' '']" "ra_port a"] wf(1)
    by (auto simp: address_text_def)
  have pos: "unat (of_nat (length cmd) :: u32) = length cmd" "unat (of_nat ?k :: u32) = ?k"
    "unat (of_nat (?k + ?h) + 1 :: u32) = ?k + ?h + 1" "unat (of_nat (?k + ?h) - of_nat ?k :: u32) = ?h"
    using len unat_of_nat_u32 [of "?k + ?h + 1"] unat_of_nat_u32 [of ?h] unat_of_nat_u32 [of ?k] unat_of_nat_u32 [of "length cmd"]
    by (simp_all add: add.commute)
  show ?thesis
    unfolding host_port_def pos start u32_pos_def Let_def option.case colon substr_def
    by (simp add: address_text_def del: of_nat_add of_nat_Suc)
qed

lemma config_line_cmd:
  assumes "list_all (\<lambda>c. \<not> blank c) cmd" and "cmd \<noteq> []" and "length cmd < 10"
  shows "u32_pos (find_from blank (cmd @ CHR '' '' # s) 0) = of_nat (length cmd)"
    and "substr (cmd @ CHR '' '' # s) 0 (unat (of_nat (length cmd) :: u32)) = Inr cmd"
  using find_from_after [of cmd blank "CHR '' ''" "[]" s] assms unat_of_nat_u32 [of "length cmd"]
  by (auto simp: list_all_iff u32_pos_def blank_def substr_def)

lemma is_cmd_eval:
  "is_cmd ''f'' ''f''" "\<not> is_cmd ''replica'' ''f''" "is_cmd ''replica'' ''replica''" "\<not> is_cmd ''multicast'' ''f''"
  "\<not> is_cmd ''multicast'' ''replica''" "is_cmd ''multicast'' ''multicast''"
  by code_simp+

lemma config_line_replica:
  "wf_address a \<Longrightarrow> config_line (''replica'' @ CHR '' '' # address_text a) (f, rs, m) = Inr (f, rs @ [a], m)"
  using config_line_cmd [of "''replica''" "address_text a"] host_port_text [of a "''replica''"]
  unfolding config_line_def by (simp add: is_cmd_eval blank_def Let_def)

lemma config_line_multicast:
  "wf_address a \<Longrightarrow> config_line (''multicast'' @ CHR '' '' # address_text a) (f, rs, m) = Inr (f, rs, Some a)"
  using config_line_cmd [of "''multicast''" "address_text a"] host_port_text [of a "''multicast''"]
  unfolding config_line_def by (simp add: is_cmd_eval blank_def Let_def)

lemma config_f_text:
  assumes "n < 2 ^ 31" shows "config_f (''f'' @ CHR '' '' # show_nat n) 1 = Inr (int n)"
proof -
  obtain d ds where s: "show_nat n = d # ds" by (cases "show_nat n") auto
  have "isdigit d" using show_nat_digits [of n] s by simp
  then have "\<not> blank d" by (auto simp: isdigit_def blank_def)
  then have "find_from (\<lambda>c. \<not> blank c) (''f'' @ CHR '' '' # show_nat n) 1 = Some 2"
    using find_from_after [of "[CHR '' '']" "\<lambda>c. \<not> blank c" d "''f''" ds] s by (simp add: blank_def)
  moreover have "int32 (of_nat n) = int n"
    using assms by (simp add: int32_def signed_of_nat signed_take_bit_int_eq_self unsigned_of_nat take_bit_nat_eq_self)
  ultimately show ?thesis
    using assms stoul_show_nat [of n] by (simp add: config_f_def u32_pos_def substr_def)
qed

lemma config_line_f:
  "n < 2 ^ 31 \<Longrightarrow> config_line (''f'' @ CHR '' '' # show_nat n) (f, rs, m) = Inr (int n, rs, m)"
  using config_line_cmd [of "''f''" "show_nat n"] config_f_text [of n]
  unfolding config_line_def by (simp add: is_cmd_eval blank_def Let_def)

abbreviation good_stream :: "string \<Rightarrow> ifstream" where
  "good_stream s \<equiv> \<lparr>if_rest = s, if_eof = False, if_fail = False\<rparr>"

lemma config_loop_line:
  assumes "CHR 0x0A \<notin> set line" and "config_line line c = Inr c'"
  shows "config_loop (good_stream (line @ CHR 0x0A # rest)) c = config_loop (good_stream rest) c'"
proof -
  have "takeWhile (\<lambda>c. c \<noteq> CHR 0x0A) (line @ CHR 0x0A # rest) = line"
    using assms(1) by (subst takeWhile_append2) auto
  then have "getline (good_stream (line @ CHR 0x0A # rest)) = (line, good_stream rest)"
    by (simp add: getline_def)
  then show ?thesis using assms(2) by (simp add: config_loop.simps [of "good_stream (line @ CHR 0x0A # rest)"])
qed

lemma config_loop_end: "config_loop (good_stream []) c = Some (Inr c)"
  by (simp add: config_loop.simps getline_def)

lemma config_loop_replicas:
  "list_all wf_address as \<Longrightarrow>
   config_loop (good_stream (concat (map (\<lambda>a. ''replica '' @ address_text a @ [CHR 0x0A]) as) @ rest)) (f, rs, m) =
   config_loop (good_stream rest) (f, rs @ as, m)"
proof (induction as arbitrary: rs)
  case (Cons a as)
  have "config_loop (good_stream ((''replica'' @ CHR '' '' # address_text a) @ CHR 0x0A #
      concat (map (\<lambda>a. ''replica '' @ address_text a @ [CHR 0x0A]) as) @ rest)) (f, rs, m) =
    config_loop (good_stream (concat (map (\<lambda>a. ''replica '' @ address_text a @ [CHR 0x0A]) as) @ rest)) (f, rs @ [a], m)"
    using Cons.prems config_line_replica by (intro config_loop_line) (auto simp: wf_address_def)
  then show ?case using Cons by simp
qed simp

text \<open>C26. A configuration that is written in the format of configuration files and read back is the same,
  for any number of replicas and with or without a multicast address. (The host contains no colon
  and does not start with a blank, no address contains a newline, the numbers fit into an
  \<^verbatim>\<open>int\<close> and positions in a line into an \<^verbatim>\<open>unsigned int\<close>.)\<close>

theorem configuration_roundtrip:
  assumes "wf_config c"
  shows "Configuration_read (ifstream_open (Some (config_text c))) = Some (Inr c)"
proof -
  let ?f = "nat (cfg_f c)" and ?rs = "cfg_replicas c"
  let ?mc = "case cfg_multicast c of None \<Rightarrow> [] | Some a \<Rightarrow> ''multicast '' @ address_text a @ [CHR 0x0A]"
  let ?reps = "concat (map (\<lambda>a. ''replica '' @ address_text a @ [CHR 0x0A]) ?rs)"
  have wf: "0 \<le> cfg_f c" "?f < 2 ^ 31" "list_all wf_address ?rs" "?rs \<noteq> []" "length ?rs < 2 ^ 31" "cfg_n c = int (length ?rs)"
    using assms by (auto simp: wf_config_def)
  have digits: "CHR 0x0A \<notin> set (show_nat ?f)"
    using show_nat_digits [of ?f] by (auto simp: list_all_iff isdigit_def)
  have mc: "config_loop (good_stream ?mc) (f, rs, None) = Some (Inr (f, rs, cfg_multicast c))" for f rs
  proof (cases "cfg_multicast c")
    case (Some a)
    then have a: "wf_address a" using assms by (simp add: wf_config_def)
    have "config_loop (good_stream ((''multicast'' @ CHR '' '' # address_text a) @ CHR 0x0A # [])) (f, rs, None) =
      config_loop (good_stream []) (f, rs, Some a)"
      using a config_line_multicast by (intro config_loop_line) (auto simp: wf_address_def)
    then show ?thesis using Some by (simp add: config_loop_end)
  qed (simp add: config_loop_end)
  have "config_loop (good_stream ((''f'' @ CHR '' '' # show_nat ?f) @ CHR 0x0A # ?reps @ ?mc)) (- 1, [], None) =
      config_loop (good_stream (?reps @ ?mc)) (int ?f, [], None)"
    using wf(2) digits config_line_f by (intro config_loop_line) auto
  also have "\<dots> = Some (Inr (int ?f, ?rs, cfg_multicast c))"
    using config_loop_replicas [OF wf(3)] mc by simp
  finally have "config_loop (good_stream (config_text c)) (- 1, [], None) = Some (Inr (int ?f, ?rs, cfg_multicast c))"
    by (simp add: config_text_def)
  moreover have "int32 (of_nat (length ?rs)) = int (length ?rs)"
    using wf(5) by (simp add: int32_def signed_of_nat signed_take_bit_int_eq_self unsigned_of_nat take_bit_nat_eq_self)
  ultimately show ?thesis
    using wf by (simp add: Configuration_read_def ifstream_open_def config_check_def Configuration_new_def)
qed

definition demo_config :: Configuration where
  "demo_config = Configuration_new 3 1 [ReplicaAddress ''10.0.0.1'' ''51729'', ReplicaAddress ''10.0.0.2'' ''51729'',
     ReplicaAddress ''10.0.0.3'' ''51729''] (Some (ReplicaAddress ''10.0.0.255'' ''51730''))"

theorem configuration_roundtrip_witness:
  "Configuration_read (ifstream_open (Some (config_text demo_config))) = Some (Inr demo_config)"
proof (rule configuration_roundtrip)
  show "wf_config demo_config"
    by (simp add: demo_config_def Configuration_new_def wf_config_def wf_address_def address_text_def blank_def)
qed

text \<open>
  The checks for a missing argument or colon never fire, the comparison with \<^verbatim>\<open>npos\<close> being false for
  every 32-bit position (\<open>is_npos_False\<close>). A line without a colon is accepted: the position after the
  colon wraps around to 0, and the port is the whole line.
\<close>

lemma host_port_without_colon:
  assumes "CHR '':'' \<notin> set host" and "host \<noteq> []" and "\<not> blank (hd host)" and "length cmd < 10" and "length host < 2 ^ 32 - 11"
  shows "host_port usage (cmd @ CHR '' '' # host) (of_nat (length cmd)) = Inr (ReplicaAddress host (cmd @ CHR '' '' # host))"
proof -
  let ?line = "cmd @ CHR '' '' # host" and ?k = "length cmd + 1"
  have start: "find_from (\<lambda>c. \<not> blank c) ?line (length cmd) = Some ?k"
    using find_from_after [of "[CHR '' '']" "\<lambda>c. \<not> blank c" "hd host" cmd "tl host"] assms(2,3) by (simp add: blank_def)
  have "takeWhile (\<lambda>c. c \<noteq> CHR '':'') host = host" using assms(1) by (auto simp: takeWhile_eq_all_conv)
  then have colon: "find_from (\<lambda>c. c = CHR '':'') ?line ?k = None"
    by (simp add: find_from_def del: takeWhile_eq_all_conv)
  have k: "unat (of_nat (length cmd) :: u32) = length cmd" "unat (of_nat ?k :: u32) = ?k"
    using assms(4) unat_of_nat_u32 [of ?k] unat_of_nat_u32 [of "length cmd"] by simp_all
  have "unat (- 1 - of_nat ?k :: u32) = unat (- 1 :: u32) - ?k"
    using k(2) by (subst unat_sub) simp_all
  then have wrap: "unat (- 1 - of_nat ?k :: u32) \<ge> length host"
    using assms(4,5) by (simp add: unsigned_minus_1_eq_mask mask_eq_exp_minus_1)
  show ?thesis
    unfolding host_port_def k start u32_pos_def Let_def option.case colon substr_def
    using wrap by (simp del: of_nat_add of_nat_Suc add: min_absorb2)
qed

lemma replica_without_colon:
  "config_line ''replica host1'' (f, rs, m) = Inr (f, rs @ [ReplicaAddress ''host1'' ''replica host1''], m)"
  using config_line_cmd [of "''replica''" "''host1''"] host_port_without_colon [of "''host1''" "''replica''"]
  unfolding config_line_def by (simp add: is_cmd_eval blank_def Let_def)

lemma f_without_argument: "config_f ''f'' (- 1) = Inl OutOfRange"
  by (simp add: config_f_def find_from_def u32_pos_def substr_def unsigned_minus_1_eq_mask mask_eq_exp_minus_1)

end
