(* ===== verification/VRServices.thy ===== *)
theory VRServices
  imports VRClients VRViews Configs
begin

text \<open>
  Services on viewstamped replication: what the replies of a replica are, for any application that
  leaves the upcalls of the leader and of unlogged requests at their defaults, and the time server
  (src/timeserver/timeserver.cc), which is such an application. The time is a \<^verbatim>\<open>long\<close>; it counts the
  calls and would overflow after \<open>2 ^ 63\<close> of them.
\<close>

section \<open>The time server\<close>

text \<open>\<^verbatim>\<open>newTimeStamp\<close> increments the counter and prints it.\<close>

definition newTimeStamp :: "nat \<Rightarrow> string \<times> nat" where
  "newTimeStamp ts = (let ts = ts + 1 in (show_nat ts, ts))"

definition TimeStampServer :: "nat AppReplica" where
  "TimeStampServer =
     \<lparr>app_LeaderUpcall = (\<lambda>ts opnum str1. ((True, str1), ts)),
      app_ReplicaUpcall = (\<lambda>ts opnum str1. newTimeStamp ts),
      app_UnloggedUpcall = (\<lambda>ts str1. ([], ts))\<rparr>"

definition TimeStampServer_new :: nat where
  "TimeStampServer_new = 0"

section \<open>Replies\<close>

text \<open>The application after executing operations one after the other, on its own.\<close>

definition app_after :: "'a AppReplica \<Rightarrow> 'a \<Rightarrow> (u64 \<times> VRequest) list \<Rightarrow> 'a" where
  "app_after app a ops = fold (\<lambda>(k, req) a. snd (app_ReplicaUpcall app a k (vq_op req))) ops a"

text \<open>A reply gives the result of one of the operations, executed after those before it.\<close>

definition answers_op :: "'a AppReplica \<Rightarrow> 'a \<Rightarrow> (u64 \<times> VRequest) list \<Rightarrow> nat \<Rightarrow> VReplyMessage \<Rightarrow> bool" where
  "answers_op app a ops i m \<longleftrightarrow> i < length ops \<and> vy_clientreqid m = vq_clientreqid (snd (ops ! i)) \<and>
     vy_reply m = fst (app_ReplicaUpcall app (app_after app a (take i ops)) (fst (ops ! i)) (vq_op (snd (ops ! i))))"

definition default_upcalls :: "'a AppReplica \<Rightarrow> bool" where
  "default_upcalls app \<longleftrightarrow> (\<forall>a k x. app_LeaderUpcall app a k x = ((True, x), a)) \<and> (\<forall>a x. snd (app_UnloggedUpcall app a x) = a)"

definition serves :: "'a AppReplica \<Rightarrow> 'a \<Rightarrow> 'a VRReplica \<Rightarrow> bool" where
  "serves app a s \<longleftrightarrow> vr_app s = app_after app a (vr_executed s) \<and>
     (\<forall>d m. (d, ReplyMessage m) \<in> set (vr_sent s) \<longrightarrow> (\<exists>i. answers_op app a (vr_executed s) i m)) \<and>
     (\<forall>c e. vr_clientTable s c = Some e \<and> ct_replied e \<longrightarrow> (\<exists>i. answers_op app a (vr_executed s) i (ct_reply e)))"

lemma serves_cong:
  "vr_executed s' = vr_executed s \<Longrightarrow> vr_app s' = vr_app s \<Longrightarrow> vr_sent s' = vr_sent s \<Longrightarrow> vr_clientTable s' = vr_clientTable s \<Longrightarrow>
   serves app a s' \<longleftrightarrow> serves app a s"
  by (simp add: serves_def)

lemma serves_update [simp]:
  "serves app a (s\<lparr>vr_log := l\<rparr>) \<longleftrightarrow> serves app a s" "serves app a (s\<lparr>vr_lastOp := x\<rparr>) \<longleftrightarrow> serves app a s"
  "serves app a (s\<lparr>vr_lastCommitted := x\<rparr>) \<longleftrightarrow> serves app a s"
  "serves app a (s\<lparr>vr_clientAddresses := t'\<rparr>) \<longleftrightarrow> serves app a s" "serves app a (s\<lparr>vr_pendingPrepares := p\<rparr>) \<longleftrightarrow> serves app a s"
  "serves app a (s\<lparr>vr_prepareOKQuorum := q\<rparr>) \<longleftrightarrow> serves app a s" "serves app a (s\<lparr>vr_startViewChangeQuorum := q'\<rparr>) \<longleftrightarrow> serves app a s"
  "serves app a (s\<lparr>vr_doViewChangeQuorum := q''\<rparr>) \<longleftrightarrow> serves app a s" "serves app a (s\<lparr>vr_view := v\<rparr>) \<longleftrightarrow> serves app a s"
  "serves app a (s\<lparr>vr_status := st\<rparr>) \<longleftrightarrow> serves app a s" "serves app a (s\<lparr>vr_lastBatchEnd := x\<rparr>) \<longleftrightarrow> serves app a s"
  "serves app a (s\<lparr>vr_lastPrepare := pm\<rparr>) \<longleftrightarrow> serves app a s"
  "serves app a (s\<lparr>vr_lastRequestStateTransferView := x\<rparr>) \<longleftrightarrow> serves app a s"
  "serves app a (s\<lparr>vr_lastRequestStateTransferOpnum := x\<rparr>) \<longleftrightarrow> serves app a s"
  "serves app a (vr_start t s) \<longleftrightarrow> serves app a s" "serves app a (vr_stop t s) \<longleftrightarrow> serves app a s"
  by (rule serves_cong; simp add: vr_start_def vr_stop_def)+

lemma serves_send:
  "serves app a s \<Longrightarrow> (\<And>r. m = ReplyMessage r \<Longrightarrow> \<exists>i. answers_op app a (vr_executed s) i r) \<Longrightarrow> serves app a (vr_send s d m)"
  by (auto simp: serves_def vr_send_def)

lemma serves_send_other [simp]:
  "serves app a s \<Longrightarrow> serves app a (vr_send s d (PrepareOKMessage mo))" "serves app a s \<Longrightarrow> serves app a (vr_send s d (PrepareMessage mp))"
  "serves app a s \<Longrightarrow> serves app a (vr_send s d (CommitMessage v op))" "serves app a s \<Longrightarrow> serves app a (vr_send s d (UnloggedReplyMessage x i))"
  "serves app a s \<Longrightarrow> serves app a (vr_send s d (RequestStateTransferMessage v op))" "serves app a s \<Longrightarrow> serves app a (vr_send s d (StateTransferMessage v op es))"
  "serves app a s \<Longrightarrow> serves app a (vr_send s d (StartViewChangeMessage mv))" "serves app a s \<Longrightarrow> serves app a (vr_send s d (DoViewChangeMessage md))"
  "serves app a s \<Longrightarrow> serves app a (vr_send s d (StartViewMessage mw))"
  by (rule serves_send; simp)+

lemma serves_table:
  "serves app a s \<Longrightarrow> (ct_replied e \<Longrightarrow> \<exists>i. answers_op app a (vr_executed s) i (ct_reply e)) \<Longrightarrow>
   serves app a (s\<lparr>vr_clientTable := (vr_clientTable s)(c \<mapsto> e)\<rparr>)"
  by (auto simp: serves_def split: if_splits)

lemma client_entry_answers: "serves app a s \<Longrightarrow> ct_replied (client_entry s c) \<Longrightarrow> \<exists>i. answers_op app a (vr_executed s) i (ct_reply (client_entry s c))"
  by (auto simp: client_entry_def serves_def split: option.splits)

lemma serves_local [simp]:
  "serves app a s \<Longrightarrow> serves app a (UpdateClientTable s req)" "serves app a s \<Longrightarrow> serves app a (RequestStateTransfer s)"
  "serves app a s \<Longrightarrow> serves app a (StartViewChange s v)" "serves app a s \<Longrightarrow> serves app a (SendNullCommit s)"
  "serves app a s \<Longrightarrow> serves app a (vr_ResendPrepare s)"
  by (auto simp: UpdateClientTable_def RequestStateTransfer_def StartViewChange_def SendNullCommit_def vr_ResendPrepare_def Let_def
      intro!: serves_table client_entry_answers)

lemma answers_op_append: "answers_op app a ops i m \<Longrightarrow> answers_op app a (ops @ xs) i m"
  by (simp add: answers_op_def nth_append)

lemma serves_execute:
  assumes s: "serves app a s" and up: "app_ReplicaUpcall app (vr_app s) op (vq_op req) = (res, ap)"
  shows "serves app a (s\<lparr>vr_app := ap, vr_executed := vr_executed s @ [(op, req)]\<rparr>)"
    "vy_clientreqid m = vq_clientreqid req \<Longrightarrow> vy_reply m = res \<Longrightarrow> answers_op app a (vr_executed s @ [(op, req)]) (length (vr_executed s)) m"
proof -
  let ?ops = "vr_executed s @ [(op, req)]"
  have "\<exists>i. answers_op app a ?ops i m" if ans: "\<exists>i. answers_op app a (vr_executed s) i m" for m
  proof -
    from ans obtain i where "answers_op app a (vr_executed s) i m" by (rule exE)
    then have "answers_op app a ?ops i m" by (rule answers_op_append)
    then show ?thesis by (rule exI)
  qed
  note mono = this
  have "vr_app s = app_after app a (vr_executed s)" using s by (simp add: serves_def)
  then have "ap = app_after app a ?ops" using up by (simp add: app_after_def)
  moreover have "\<exists>i. answers_op app a ?ops i m" if "(d, ReplyMessage m) \<in> set (vr_sent s)" for d m
    by (rule mono) (use s that in \<open>auto simp: serves_def\<close>)
  moreover have "\<exists>i. answers_op app a ?ops i (ct_reply e)" if "vr_clientTable s c = Some e" "ct_replied e" for c e
    by (rule mono) (use s that in \<open>auto simp: serves_def\<close>)
  ultimately show "serves app a (s\<lparr>vr_app := ap, vr_executed := ?ops\<rparr>)" unfolding serves_def by (simp, metis)
  show "vy_clientreqid m = vq_clientreqid req \<Longrightarrow> vy_reply m = res \<Longrightarrow> answers_op app a ?ops (length (vr_executed s)) m"
    using s up by (simp add: answers_op_def serves_def)
qed

lemma commit_next_serves: "serves app a s \<Longrightarrow> after (serves app a) (commit_next app s)"
proof -
  assume s: "serves app a s"
  let ?op = "vr_lastCommitted s + 1"
  show ?thesis
  proof (cases "vl_Find (vr_log s) ?op")
    case (Some e)
    let ?req = "ve_request e"
    obtain res ap where up: "app_ReplicaUpcall app (vr_app s) ?op (vq_op ?req) = (res, ap)" by (cases "app_ReplicaUpcall app (vr_app s) ?op (vq_op ?req)")
    define s1 where "s1 = s\<lparr>vr_lastCommitted := ?op, vr_app := ap, vr_executed := vr_executed s @ [(?op, ?req)],
      vr_log := snd (vl_SetStatus (vr_log s) ?op LOG_STATE_COMMITTED)\<rparr>"
    define m where "m = \<lparr>vy_view = ve_view e, vy_opnum = ve_opnum e, vy_clientreqid = vq_clientreqid ?req, vy_reply = res\<rparr>"
    define cte where "cte = (if ct_lastReqId (client_entry s1 (vq_clientid ?req)) \<le> vq_clientreqid ?req
      then \<lparr>ct_lastReqId = vq_clientreqid ?req, ct_replied = True, ct_reply = m\<rparr> else client_entry s1 (vq_clientid ?req))"
    define s2 where "s2 = s1\<lparr>vr_clientTable := (vr_clientTable s1)(vq_clientid ?req \<mapsto> cte)\<rparr>"
    have s1: "serves app a s1"
      using serves_execute(1) [OF s up] by (rule back_subst) (simp add: s1_def serves_def)
    have "answers_op app a (vr_executed s1) (length (vr_executed s)) m"
      unfolding s1_def by (simp add: serves_execute(2) [OF s up] m_def)
    then have m: "\<exists>i. answers_op app a (vr_executed s1) i m" by blast
    have s2: "serves app a s2"
      unfolding s2_def by (rule serves_table [OF s1]) (use m client_entry_answers [OF s1] in \<open>auto simp: cte_def split: if_splits\<close>)
    have "commit_next app s = Inr (case vr_clientAddresses s2 (vq_clientid ?req) of None \<Rightarrow> s2 | Some addr \<Rightarrow> vr_send s2 (VAddr addr) (ReplyMessage m))"
      unfolding s2_def cte_def m_def s1_def using Some up by (simp add: commit_next_def Let_def cong: option.case_cong)
    moreover have "serves app a (vr_send s2 d (ReplyMessage m))" for d
      by (rule serves_send [OF s2]) (use m in \<open>simp add: s2_def\<close>)
    ultimately show ?thesis using s2 by (simp split: option.split)
  qed (simp add: commit_next_def Let_def)
qed

lemma CommitUpTo_serves: "serves app a s \<Longrightarrow> after (serves app a) (CommitUpTo app s op)"
proof -
  have "serves app a s \<Longrightarrow> after (serves app a) (commit_loop app k s)" for k s
    by (induction k arbitrary: s) (auto intro!: after_bindr [OF commit_next_serves [of app a]])
  then show "serves app a s \<Longrightarrow> after (serves app a) (CommitUpTo app s op)" by (simp add: CommitUpTo_def)
qed

lemma Append_serves: "serves app a s \<Longrightarrow> after (serves app a) (vr_Append s vs req)"
  unfolding vr_Append_def by (rule after_bindr_any) simp

lemma prepare_oks_serves: "serves app a s \<Longrightarrow> after (serves app a) (prepare_oks is s)"
proof (induction "is" arbitrary: s)
  case (Cons i "is")
  then show ?case by (auto simp: Let_def split: option.split intro!: after_bindr_any)
qed simp

lemma append_batch_serves: "serves app a s \<Longrightarrow> after (serves app a) (append_batch v rs op s)"
proof (induction rs arbitrary: op s)
  case (Cons r rs)
  then show ?case by (auto simp: Let_def intro!: after_bindr [OF Append_serves [of app a]])
qed simp

lemma install_transfer_serves: "serves app a s \<Longrightarrow> after (\<lambda>(s', op). serves app a s') (install_transfer es old s)"
proof (induction es arbitrary: old s)
  case (Cons e es)
  then show ?case
    by (auto split: option.split intro!: after_bindr_any [where r = "vl_RemoveAfter l x" for l x] after_bindr [OF Append_serves [of app a]])
qed simp

lemma EnterView_serves: "serves app a s \<Longrightarrow> after (serves app a) (EnterView s v)"
  unfolding EnterView_def Let_def by (rule after_bindr_any) simp

lemma CloseBatch_serves: "serves app a s \<Longrightarrow> after (serves app a) (CloseBatch s)"
  unfolding CloseBatch_def Let_def by (rule after_bindr_any) simp

lemma replicate_request_serves: "serves app a s \<Longrightarrow> after (serves app a) (replicate_request s req)"
  unfolding replicate_request_def Let_def
  by (rule after_bindr [OF Append_serves [of app a]], simp) (rule after_bindr [where P = "serves app a"], simp_all add: CloseBatch_serves)

lemma send_prepareOK_serves: "serves app a s \<Longrightarrow> after (serves app a) (send_prepareOK s m)"
  unfolding send_prepareOK_def by (rule after_bindr_any) simp

lemma HandleRequest_serves:
  assumes "default_upcalls app" "serves app a s"
  shows "after (serves app a) (vr_HandleRequest app s r req)"
proof -
  have "\<exists>i. answers_op app a (vr_executed s) i (ct_reply e)" if "vr_clientTable s c = Some e" "ct_replied e" for c e
    using assms(2) that by (auto simp: serves_def)
  moreover have "(s\<lparr>vr_app := vr_app s\<rparr>) = s" for s :: "'a VRReplica" by simp
  ultimately show ?thesis
    using assms by (auto simp: vr_HandleRequest_def Let_def default_upcalls_def split: option.split
      intro!: after_bindr_any replicate_request_serves serves_send)
qed

lemma HandleUnlogged_serves:
  assumes "default_upcalls app" "serves app a s"
  shows "after (serves app a) (vr_HandleUnloggedRequest app s r req)"
proof -
  obtain res where "app_UnloggedUpcall app (vr_app s) (vq_op req) = (res, vr_app s)"
    using assms(1) by (metis default_upcalls_def surjective_pairing)
  then show ?thesis using assms(2) by (simp add: vr_HandleUnloggedRequest_def)
qed

lemma HandlePrepare_serves: "serves app a s \<Longrightarrow> after (serves app a) (vr_HandlePrepare s r p)"
  by (auto simp: vr_HandlePrepare_def Let_def intro!: after_bindr_any [where r = "AmLeader s" for s] send_prepareOK_serves
      after_bindr [OF append_batch_serves [of app a]])

lemma HandlePrepareOK_serves: "serves app a s \<Longrightarrow> after (serves app a) (vr_HandlePrepareOK app s m)"
  by (auto simp: vr_HandlePrepareOK_def split: prod.split option.split intro!: after_bindr_any [where r = "AmLeader s" for s]
      after_bindr [OF CommitUpTo_serves [of app a]])

lemma HandleCommit_serves: "serves app a s \<Longrightarrow> after (serves app a) (vr_HandleCommit app s v op)"
  by (auto simp: vr_HandleCommit_def Let_def intro!: after_bindr_any CommitUpTo_serves)

lemma HandleStateTransfer_serves: "serves app a s \<Longrightarrow> after (serves app a) (vr_HandleStateTransfer app s v op es)"
  by (auto simp: vr_HandleStateTransfer_def SendPrepareOKs_def intro!: after_bindr [OF install_transfer_serves [of app a]]
      after_bindr [OF after_if [where P = "serves app a"]] after_bindr [OF CommitUpTo_serves [of app a]] after_bindr [OF prepare_oks_serves [of app a]] EnterView_serves)

lemma HandleStartViewChange_serves: "serves app a s \<Longrightarrow> after (serves app a) (vr_HandleStartViewChange s m)"
  by (auto simp: vr_HandleStartViewChange_def Let_def split: prod.split option.split intro!: after_bindr_any)

lemma HandleDoViewChange_serves: "serves app a s \<Longrightarrow> after (serves app a) (vr_HandleDoViewChange s m)"
  by (auto simp: vr_HandleDoViewChange_def Let_def split: prod.split option.split intro!: after_bindr_any [where r = "min_of xs" for xs]
      after_bindr [OF EnterView_serves [of app a]] after_bindr_any [where r = "vl_Dump l x" for l x])

lemma HandleStartView_serves: "serves app a s \<Longrightarrow> after (serves app a) (vr_HandleStartView app s m)"
  unfolding vr_HandleStartView_def
  by (intro after_if, simp_all)
    (rule after_bindr_any, auto simp: Let_def SendPrepareOKs_def
      intro!: after_bindr [OF EnterView_serves [of app a]] after_bindr [OF CommitUpTo_serves [of app a]] prepare_oks_serves)

lemma vr_step_serves: "default_upcalls app \<Longrightarrow> serves app a s \<Longrightarrow> after (serves app a) (vr_step app s e)"
proof (cases e)
  case (VTimer t)
  assume "serves app a s"
  with VTimer show ?thesis by (cases t) (simp_all add: CloseBatch_serves)
next
  case (VMsg r m)
  assume "default_upcalls app" "serves app a s"
  with VMsg show ?thesis
    by (cases m) (auto simp: HandleRequest_serves HandleUnlogged_serves HandlePrepare_serves HandlePrepareOK_serves HandleCommit_serves
      HandleStateTransfer_serves HandleStartViewChange_serves HandleDoViewChange_serves HandleStartView_serves
      vr_HandleRequestStateTransfer_def intro!: after_bindr_any)
qed

lemma serves_new: "VRReplica_new n f myIdx batchSize a = Inr s0 \<Longrightarrow> serves app a s0"
  by (auto simp: VRReplica_new_def VRReplica_init_def serves_def app_after_def Let_def vr_start_def bindr_eq_Inr split: if_splits)

lemma sys_run_serves:
  "default_upcalls app \<Longrightarrow> (\<forall>i < length R. serves app a (R ! i)) \<Longrightarrow> sys_run app es R = Inr R' \<Longrightarrow> \<forall>i < length R'. serves app a (R' ! i)"
proof (induction es arbitrary: R)
  case (Cons e es)
  from Cons.prems(3) obtain R1 where R1: "sys_step app R e = Inr R1" "sys_run app es R1 = Inr R'" by (auto simp: bindr_eq_Inr)
  have "\<forall>i < length R1. serves app a (R1 ! i)"
  proof (cases "replica_event R e")
    case (Some p)
    obtain i ev where p: "p = (i, ev)" by (cases p)
    then obtain s where s: "vr_step app (R ! i) ev = Inr s" "R1 = R[i := s]"
      using R1(1) Some by (auto simp: sys_step_def bindr_eq_Inr)
    have i: "i < length R" using Some p by (cases e) (auto split: if_splits)
    then have "serves app a s" using vr_step_serves [OF Cons.prems(1), of a "R ! i" ev] Cons.prems(2) s(1) by (simp add: after_def)
    then show ?thesis using Cons.prems(2) s(2) i by (auto simp: nth_list_update)
  qed (use R1(1) Cons.prems(2) in \<open>simp add: sys_step_def\<close>)
  then show ?case using Cons.IH [OF Cons.prems(1)] R1(2) by blast
qed simp

lemma answers_op_prefix: "answers_op app a xs i m \<Longrightarrow> prefix xs ys \<Longrightarrow> answers_op app a ys i m"
  by (auto simp: prefix_def intro: answers_op_append)

lemma single_server:
  assumes "default_upcalls app" and "0 < n" and "n < 2 ^ 31" and "list_all (normal_event n) sched" and "length sched < 2 ^ 64 - 1"
  shows "\<exists>R ops. sys_run app sched (vr_group n f batchSize a) = Inr R \<and> distinct (map (request_key \<circ> snd) ops) \<and>
    (\<forall>i < n. prefix (vr_executed (R ! i)) ops \<and>
      (\<forall>d m. (d, ReplyMessage m) \<in> set (vr_sent (R ! i)) \<longrightarrow> (\<exists>k. answers_op app a ops k m)))"
proof -
  obtain R where run: "sys_run app sched (vr_group n f batchSize a) = Inr R" and R: "group_ok n f R" and t: "table_ok (R ! 0)"
    using normal_run [OF assms(2-5), of app f batchSize a] by blast
  define g where "g k = (of_nat (Suc k) :: u64, snd (contents (vr_log (R ! 0)) ! k))" for k
  define ops where "ops = map g [0..<length (contents (vr_log (R ! 0)))]"
  have "map (request_key \<circ> snd) ops = map (request_key \<circ> snd) (contents (vr_log (R ! 0)))"
    by (rule nth_equalityI) (simp_all add: ops_def g_def del: contents_nth)
  then have dist: "distinct (map (request_key \<circ> snd) ops)" using t by (simp add: table_ok_def)
  have pre: "prefix (vr_executed (R ! i)) ops" if i: "i < n" for i
  proof -
    note mi = group_member [OF R i]
    have len: "unat (vr_lastCommitted (R ! i)) \<le> length (contents (vr_log (R ! i)))"
      using base_ok_committed [OF mi(1)] mi(1) by (simp add: base_ok_def)
    have "vr_executed (R ! i) = map g [0..<unat (vr_lastCommitted (R ! i))]"
      using mi(1,2) len by (auto simp: base_ok_def g_def prefix_def nth_append simp del: contents_nth)
    moreover have "unat (vr_lastCommitted (R ! i)) \<le> length (contents (vr_log (R ! 0)))"
      using len prefix_length_le [OF mi(2)] by simp
    ultimately show ?thesis by (simp add: ops_def executed_prefix)
  qed
  have "\<forall>i < length (vr_group n f batchSize a). serves app a (vr_group n f batchSize a ! i)"
    using serves_new [OF vr_group_ok(3) [OF assms(2,3), where f = f and b = batchSize and a = a]] by (simp add: vr_group_def)
  from sys_run_serves [OF assms(1) this run] have "\<forall>i < n. serves app a (R ! i)" using R by (simp add: group_ok_def)
  then have "\<exists>k. answers_op app a ops k m" if "i < n" "(d, ReplyMessage m) \<in> set (vr_sent (R ! i))" for i d m
    using that pre [OF that(1)] answers_op_prefix unfolding serves_def by meson
  with run dist pre show ?thesis by blast
qed

text \<open>The time server: the \<open>k\<close>-th operation gets the timestamp \<open>k\<close>.\<close>

lemma TimeStampServer_after: "app_after TimeStampServer ts ops = ts + length ops"
  by (induction ops arbitrary: ts) (auto simp: app_after_def TimeStampServer_def newTimeStamp_def)

lemma timestamp_answer:
  "answers_op TimeStampServer TimeStampServer_new ops i m \<longleftrightarrow>
   i < length ops \<and> vy_clientreqid m = vq_clientreqid (snd (ops ! i)) \<and> vy_reply m = show_nat (Suc i)"
  by (auto simp: answers_op_def TimeStampServer_after TimeStampServer_new_def) (simp_all add: TimeStampServer_def newTimeStamp_def)

lemma TimeStampServer_upcalls: "default_upcalls TimeStampServer"
  by (simp add: default_upcalls_def TimeStampServer_def)

lemma show_nat_inject: "show_nat m = show_nat n \<longleftrightarrow> m = n"
  by (metis digits_value_show_nat)

text \<open>A group of three replicas that executes two requests and answers one of them again.\<close>

definition service_schedule :: "sys_event list" where
  "service_schedule = [SClient 0 8 (demo_req ''a'' 8), SClient 0 9 (demo_req ''b'' 9), SDeliver 0 0 1, SDeliver 1 0 0, SClient 0 8 (demo_req ''a'' 8)]"

lemma service_replies:
  "map_sum id (\<lambda>R. ([(d, vy_clientreqid m, vy_reply m). (d, ReplyMessage m) \<leftarrow> vr_sent (R ! 0)], vr_executed (R ! 0)))
     (sys_run TimeStampServer service_schedule (vr_group 3 1 2 TimeStampServer_new)) =
   Inr ([(VAddr 8, 1, ''1''), (VAddr 9, 1, ''2''), (VAddr 8, 1, ''1'')], [(1, demo_req ''a'' 8), (2, demo_req ''b'' 9)])"
  by code_simp

lemma service_run:
  "list_all (normal_event 3) service_schedule" "length service_schedule < 2 ^ 64 - 1"
  "\<exists>R m. sys_run TimeStampServer service_schedule (vr_group 3 1 2 TimeStampServer_new) = Inr R \<and>
     vr_executed (R ! 0) = [(1, demo_req ''a'' 8), (2, demo_req ''b'' 9)] \<and>
     (VAddr 8, ReplyMessage m) \<in> set (vr_sent (R ! 0)) \<and> vy_reply m = ''1''"
proof -
  show "list_all (normal_event 3) service_schedule" by code_simp
  show "length service_schedule < 2 ^ 64 - 1" by (simp add: service_schedule_def)
  obtain R where R: "sys_run TimeStampServer service_schedule (vr_group 3 1 2 TimeStampServer_new) = Inr R"
    "vr_executed (R ! 0) = [(1, demo_req ''a'' 8), (2, demo_req ''b'' 9)]"
    "[(d, vy_clientreqid m, vy_reply m). (d, ReplyMessage m) \<leftarrow> vr_sent (R ! 0)] = [(VAddr 8, 1, ''1''), (VAddr 9, 1, ''2''), (VAddr 8, 1, ''1'')]"
    using service_replies by (cases "sys_run TimeStampServer service_schedule (vr_group 3 1 2 TimeStampServer_new)") auto
  have "(VAddr 8, 1, ''1'') \<in> set [(d, vy_clientreqid m, vy_reply m). (d, ReplyMessage m) \<leftarrow> vr_sent (R ! 0)]" unfolding R(3) by simp
  then obtain m where "(VAddr 8, ReplyMessage m) \<in> set (vr_sent (R ! 0))" "vy_reply m = ''1''" by (auto split: vr_msg.splits)
  with R show "\<exists>R m. sys_run TimeStampServer service_schedule (vr_group 3 1 2 TimeStampServer_new) = Inr R \<and>
     vr_executed (R ! 0) = [(1, demo_req ''a'' 8), (2, demo_req ''b'' 9)] \<and>
     (VAddr 8, ReplyMessage m) \<in> set (vr_sent (R ! 0)) \<and> vy_reply m = ''1''" by blast
qed

section \<open>Properties\<close>

text \<open>C21. A group of replicas behaves as one server: while it stays in its first view, there is one sequence of
  operations, in which no request occurs twice, such that every replica has executed a prefix of it,
  and every reply that any replica has sent is the one that a single, unreplicated application gives
  when it executes the sequence in its order. Requests may be repeated, and messages lost, repeated
  and reordered; the application is any one that keeps the default upcalls of the leader.\<close>

theorem vr_single_server:
  assumes "default_upcalls app" and "0 < n" and "n < 2 ^ 31" and "list_all (normal_event n) sched" and "length sched < 2 ^ 64 - 1"
  shows "\<exists>R ops. sys_run app sched (vr_group n f batchSize a) = Inr R \<and> distinct (map (request_key \<circ> snd) ops) \<and>
    (\<forall>i < n. prefix (vr_executed (R ! i)) ops \<and>
      (\<forall>d m. (d, ReplyMessage m) \<in> set (vr_sent (R ! i)) \<longrightarrow> (\<exists>k. answers_op app a ops k m)))"
  by (rule single_server [OF assms])

theorem vr_single_server_witness:
  "\<exists>R ops. sys_run TimeStampServer service_schedule (vr_group 3 1 2 TimeStampServer_new) = Inr R \<and>
     vr_executed (R ! 0) = [(1, demo_req ''a'' 8), (2, demo_req ''b'' 9)] \<and>
     distinct (map (request_key \<circ> snd) ops) \<and> prefix (vr_executed (R ! 0)) ops"
  using vr_single_server [OF TimeStampServer_upcalls _ _ service_run(1,2), of 1 2 TimeStampServer_new] service_run(3) by force

text \<open>The time server gives no timestamp twice: while the group stays in its first view, two replies with the
  same timestamp, from the same replica or different ones, answer the same request, and the timestamp
  is the number of the operation.\<close>

lemma timestamps_unique:
  assumes "0 < n" and "n < 2 ^ 31" and "list_all (normal_event n) sched" and "length sched < 2 ^ 64 - 1"
    and "sys_run TimeStampServer sched (vr_group n f batchSize TimeStampServer_new) = Inr R" and "i < n" and "j < n"
    and "(d, ReplyMessage m) \<in> set (vr_sent (R ! i))" and "(d', ReplyMessage m') \<in> set (vr_sent (R ! j))" and "vy_reply m = vy_reply m'"
  shows "\<exists>k req. vy_reply m = show_nat (Suc k) \<and> vy_clientreqid m = vq_clientreqid req \<and> vy_clientreqid m' = vq_clientreqid req \<and>
    (\<forall>l < n. k < length (vr_executed (R ! l)) \<longrightarrow> snd (vr_executed (R ! l) ! k) = req)"
proof -
  obtain ops where ops: "\<forall>i < n. prefix (vr_executed (R ! i)) ops \<and>
      (\<forall>d m. (d, ReplyMessage m) \<in> set (vr_sent (R ! i)) \<longrightarrow> (\<exists>k. answers_op TimeStampServer TimeStampServer_new ops k m))"
    using single_server [OF TimeStampServer_upcalls assms(1-4), of f batchSize TimeStampServer_new] assms(5) by auto
  obtain k k' where k: "answers_op TimeStampServer TimeStampServer_new ops k m" "answers_op TimeStampServer TimeStampServer_new ops k' m'"
    using ops assms(6-9) by meson
  then have "k' = k" using assms(10) by (simp add: timestamp_answer show_nat_inject)
  moreover have "snd (vr_executed (R ! l) ! k) = snd (ops ! k)" if "l < n" "k < length (vr_executed (R ! l))" for l
    using ops that by (auto simp: prefix_def nth_append)
  ultimately show ?thesis using k by (intro exI [of _ k] exI [of _ "snd (ops ! k)"]) (simp add: timestamp_answer)
qed

text \<open>A view change breaks this: in the run in which replicas 0 and 1 execute different operations as operation 1,
  both clients get the timestamp 1.\<close>

lemma timestamp_given_twice:
  "map_sum id (map (\<lambda>s. [(d, vy_reply m). (d, ReplyMessage m) \<leftarrow> vr_sent s]))
     (sys_run TimeStampServer view_schedule (vr_group 3 1 1 TimeStampServer_new)) =
   Inr [[(VAddr 8, ''1'')], [(VAddr 9, ''1'')], []]"
  by code_simp

end
