(* ===== verification/IRRecords.thy ===== *)
theory IRRecords
  imports VRLog "HOL-Library.Char_ord" "HOL-Library.List_Lexorder" "HOL-Library.Product_Lexorder"
begin

text \<open>
  src/replication/ir/record.h and record.cc: the record of a replica of inconsistent replication, a
  \<^verbatim>\<open>std::map\<close> from operation identifiers to entries, and its message form (ir-proto.proto). A
  pointer that \<^verbatim>\<open>Find\<close> returns is the entry under the identifier. The assertion of \<^verbatim>\<open>Add\<close> is
  compiled out: an entry replaces the one under its identifier.
\<close>

type_synonym opid = "u64 \<times> u64"

datatype RecordEntryState = RECORD_STATE_TENTATIVE | RECORD_STATE_FINALIZED

datatype RecordEntryType = RECORD_TYPE_INCONSISTENT | RECORD_TYPE_CONSENSUS

record RecordEntry =
  re_view :: u64
  re_opid :: opid
  re_state :: RecordEntryState
  re_type :: RecordEntryType
  re_request :: VRequest
  re_result :: string

type_synonym Record = "(opid \<times> RecordEntry) list"

record RecordEntryProto =
  rp_view :: u64
  rp_opid :: opid
  rp_state :: RecordEntryState
  rp_type :: RecordEntryType
  rp_op :: string
  rp_result :: string

definition record_Add :: "Record \<Rightarrow> RecordEntry \<Rightarrow> Record" where
  "record_Add r e = smap_put (re_opid e) e r"

definition record_Add_op :: "Record \<Rightarrow> u64 \<Rightarrow> opid \<Rightarrow> VRequest \<Rightarrow> RecordEntryState \<Rightarrow> RecordEntryType \<Rightarrow> Record" where
  "record_Add_op r view op request state type =
     record_Add r \<lparr>re_view = view, re_opid = op, re_state = state, re_type = type, re_request = request, re_result = ''''\<rparr>"

definition record_Find :: "Record \<Rightarrow> opid \<Rightarrow> RecordEntry option" where
  "record_Find r op = map_of r op"

text \<open>An assignment through the pointer that \<^verbatim>\<open>Find\<close> returns.\<close>

definition record_set :: "Record \<Rightarrow> opid \<Rightarrow> (RecordEntry \<Rightarrow> RecordEntry) \<Rightarrow> bool \<times> Record" where
  "record_set r op g = (case record_Find r op of None \<Rightarrow> (False, r) | Some e \<Rightarrow> (True, smap_put op (g e) r))"

definition record_SetStatus :: "Record \<Rightarrow> opid \<Rightarrow> RecordEntryState \<Rightarrow> bool \<times> Record" where
  "record_SetStatus r op state = record_set r op (\<lambda>e. e\<lparr>re_state := state\<rparr>)"

definition record_SetResult :: "Record \<Rightarrow> opid \<Rightarrow> string \<Rightarrow> bool \<times> Record" where
  "record_SetResult r op result = record_set r op (\<lambda>e. e\<lparr>re_result := result\<rparr>)"

definition record_SetRequest :: "Record \<Rightarrow> opid \<Rightarrow> VRequest \<Rightarrow> bool \<times> Record" where
  "record_SetRequest r op req = record_set r op (\<lambda>e. e\<lparr>re_request := req\<rparr>)"

definition record_Add_result :: "Record \<Rightarrow> u64 \<Rightarrow> opid \<Rightarrow> VRequest \<Rightarrow> RecordEntryState \<Rightarrow> RecordEntryType \<Rightarrow> string \<Rightarrow> Record" where
  "record_Add_result r view op request state type result =
     snd (record_SetResult (record_Add_op r view op request state type) op result)"

definition record_Remove :: "Record \<Rightarrow> opid \<Rightarrow> Record" where
  "record_Remove r op = AList.delete op r"

definition record_Empty :: "Record \<Rightarrow> bool" where
  "record_Empty r \<longleftrightarrow> r = []"

definition record_ToProto :: "Record \<Rightarrow> RecordEntryProto list" where
  "record_ToProto r = map (\<lambda>(op, e). \<lparr>rp_view = re_view e, rp_opid = re_opid e, rp_state = re_state e, rp_type = re_type e,
     rp_op = vq_op (re_request e), rp_result = re_result e\<rparr>) r"

definition Record_of_proto :: "RecordEntryProto list \<Rightarrow> Record" where
  "Record_of_proto ps = fold (\<lambda>p r. record_Add_result r (rp_view p) (rp_opid p)
     \<lparr>vq_op = rp_op p, vq_clientid = fst (rp_opid p), vq_clientreqid = snd (rp_opid p)\<rparr> (rp_state p) (rp_type p) (rp_result p)) ps []"

section \<open>Well-formed records\<close>

text \<open>The key of an entry is its identifier, and the identifier is that of the request.\<close>

definition entry_wf :: "opid \<times> RecordEntry \<Rightarrow> bool" where
  "entry_wf p \<longleftrightarrow> re_opid (snd p) = fst p \<and> vq_clientid (re_request (snd p)) = fst (fst p) \<and> vq_clientreqid (re_request (snd p)) = snd (fst p)"

definition record_wf :: "Record \<Rightarrow> bool" where
  "record_wf r \<longleftrightarrow> ascending r \<and> list_all entry_wf r"

lemma set_smap_put_subset: "set (smap_put k v m) \<subseteq> insert (k, v) (set m)"
  by (induction m) auto

lemma record_wf_put: "record_wf r \<Longrightarrow> entry_wf (op, e) \<Longrightarrow> record_wf (smap_put op e r)"
  using set_smap_put_subset [of op e r] by (auto simp: record_wf_def ascending_smap_put list_all_iff)

lemma record_wf_nil [simp]: "record_wf []"
  by (simp add: record_wf_def)

lemma record_wf_find: "record_wf r \<Longrightarrow> record_Find r op = Some e \<Longrightarrow> entry_wf (op, e)"
  by (auto simp: record_wf_def record_Find_def list_all_iff dest: map_of_SomeD)

lemma record_Add_result_eq:
  "record_Add_result r view op request state type result =
   smap_put op \<lparr>re_view = view, re_opid = op, re_state = state, re_type = type, re_request = request, re_result = result\<rparr> r"
proof -
  have "smap_put k v (smap_put k u m) = smap_put k v m" for k :: opid and u v :: RecordEntry and m by (induction m) auto
  then show ?thesis
    by (simp add: record_Add_result_def record_SetResult_def record_set_def record_Find_def record_Add_op_def record_Add_def)
qed

lemma entry_rebuild:
  "entry_wf (op, e) \<Longrightarrow> smap_put (re_opid e) \<lparr>re_view = re_view e, re_opid = re_opid e, re_state = re_state e, re_type = re_type e,
    re_request = \<lparr>vq_op = vq_op (re_request e), vq_clientid = fst (re_opid e), vq_clientreqid = snd (re_opid e)\<rparr>, re_result = re_result e\<rparr> r =
    smap_put op e r"
  by (cases e, cases "re_request e") (simp add: entry_wf_def)

lemma smap_put_last: "\<forall>x \<in> fst ` set m. x < k \<Longrightarrow> smap_put k v m = m @ [(k, v)]"
  by (induction m) auto

lemma record_rebuilt:
  assumes "record_wf r" shows "Record_of_proto (record_ToProto r) = r"
proof -
  have "Record_of_proto (record_ToProto r) = fold (\<lambda>(op, e) r. smap_put op e r) r []"
  proof -
    let ?f = "\<lambda>p r. record_Add_result r (rp_view p) (rp_opid p)
      \<lparr>vq_op = rp_op p, vq_clientid = fst (rp_opid p), vq_clientreqid = snd (rp_opid p)\<rparr> (rp_state p) (rp_type p) (rp_result p)"
    have "fold ?f (record_ToProto xs) acc = fold (\<lambda>(op, e) r. smap_put op e r) xs acc" if "list_all entry_wf xs" for xs acc
      using that
    proof (induction xs arbitrary: acc)
      case (Cons x xs)
      then show ?case
        using entry_rebuild [of "fst x" "snd x"] by (cases x) (simp add: record_ToProto_def record_Add_result_eq)
    qed (simp add: record_ToProto_def)
    then show ?thesis using assms by (simp add: Record_of_proto_def record_wf_def)
  qed
  also have "fold (\<lambda>(op, e) r. smap_put op e r) xs acc = acc @ xs" if "ascending (acc @ xs)" for xs acc :: Record
    using that
  proof (induction xs arbitrary: acc)
    case (Cons x xs)
    have "smap_put (fst x) (snd x) acc = acc @ [x]"
      using Cons.prems by (subst smap_put_last) (auto simp: sorted_wrt_append)
    with Cons show ?case by (cases x) simp
  qed simp
  from this [of "[]" r] have "fold (\<lambda>(op, e) r. smap_put op e r) r [] = r" using assms by (simp add: record_wf_def)
  finally show ?thesis .
qed

section \<open>Properties\<close>

text \<open>The message form of a record loses nothing: a replica that is sent a well-formed record
  rebuilds exactly that record.\<close>

lemma record_roundtrip: "record_wf r \<Longrightarrow> Record_of_proto (record_ToProto r) = r"
  by (rule record_rebuilt)

end
