(* ===== verification/IRReplica.thy ===== *)
theory IRReplica
  imports IRRecords VRReplica
begin

text \<open>
  src/replication/ir/replica.h and replica.cc, with src/lib/persistent_register.cc: a replica of
  inconsistent replication.

  \<^item> The application is an argument: its upcalls on a state of its own. An upcall may end the process
    (\<open>VPanic\<close>).
  \<^item> Messages are appended to \<open>ir_sent\<close>; whether a send succeeds only changes a warning.
  \<^item> \<open>ir_disk\<close> is the file of the persistent register, \<open>None\<close> before it is created. File operations
    succeed. \<^verbatim>\<open>PersistViewInfo\<close> serializes inside an \<^verbatim>\<open>ASSERT\<close>, which the build compiles out: it
    writes an empty string. \<^verbatim>\<open>fread\<close> of an empty file returns 0, on which \<^verbatim>\<open>Read\<close> panics. How
    protobuf parses a file is an argument of the constructor.
  \<^item> The view-change timer is always armed and fires again and again.
  \<^item> The threshold \<^verbatim>\<open>ceil(0.5 * f) + 1\<close> is computed in \<^verbatim>\<open>double\<close>, exactly for an \<^verbatim>\<open>int\<close>.
\<close>

type_synonym opid_groups = "(opid \<times> RecordEntry list) list"

record 'a IRAppReplica =
  ia_ExecInconsistentUpcall :: "'a \<Rightarrow> string \<Rightarrow> vr_err + 'a"
  ia_ExecConsensusUpcall :: "'a \<Rightarrow> string \<Rightarrow> vr_err + string \<times> 'a"
  ia_UnloggedUpcall :: "'a \<Rightarrow> string \<Rightarrow> vr_err + string \<times> 'a"
  ia_Sync :: "'a \<Rightarrow> Record \<Rightarrow> vr_err + 'a"
  ia_Merge :: "'a \<Rightarrow> opid_groups \<Rightarrow> opid_groups \<Rightarrow> (opid \<times> string) list \<Rightarrow> vr_err + (opid \<times> string) list \<times> 'a"

record ReplyInconsistentMessage =
  ri_view :: u64
  ri_replicaIdx :: int
  ri_opid :: opid
  ri_finalized :: bool

record ReplyConsensusMessage =
  rk_view :: u64
  rk_replicaIdx :: int
  rk_opid :: opid
  rk_result :: string
  rk_finalized :: bool

record ConfirmMessage =
  ic_view :: u64
  ic_replicaIdx :: int
  ic_opid :: opid

record IDoViewChangeMessage =
  iv_replicaIdx :: int
  iv_record :: "RecordEntryProto list option"
  iv_new_view :: u64
  iv_latest_normal_view :: u64

datatype ir_msg =
    ProposeInconsistentMessage VRequest
  | FinalizeInconsistentMessage opid
  | ProposeConsensusMessage VRequest
  | FinalizeConsensusMessage opid string
  | IDoViewChangeMessage IDoViewChangeMessage
  | IStartViewMessage "RecordEntryProto list" u64
  | IUnloggedRequestMessage VRequest
  | ReplyInconsistentMessage ReplyInconsistentMessage
  | ReplyConsensusMessage ReplyConsensusMessage
  | ConfirmMessage ConfirmMessage
  | IUnloggedReplyMessage string u64

record 'a IRReplica =
  ir_n :: int
  ir_f :: int
  ir_myIdx :: int
  ir_status :: ReplicaStatus
  ir_view :: u64
  ir_latest_normal_view :: u64
  ir_disk :: "string option"
  ir_record :: Record
  ir_quorum :: "(u64, IDoViewChangeMessage) QuorumSet"
  ir_app :: 'a
  ir_sent :: "(vr_dest \<times> ir_msg) list"

section \<open>The persistent register\<close>

definition register_Read :: "string option \<Rightarrow> vr_err + string" where
  "register_Read disk = (case disk of
     None \<Rightarrow> Inr ''''
   | Some bytes \<Rightarrow> if length bytes = 0 then Inl VPanic else Inr bytes)"

definition PersistViewInfo :: "'a IRReplica \<Rightarrow> 'a IRReplica" where
  "PersistViewInfo s = s\<lparr>ir_disk := Some ''''\<rparr>"

definition RecoverViewInfo :: "(string \<Rightarrow> u64 \<times> u64) \<Rightarrow> 'a IRReplica \<Rightarrow> vr_err + 'a IRReplica" where
  "RecoverViewInfo parse s = bindr (register_Read (ir_disk s)) (\<lambda>bytes.
     Inr (s\<lparr>ir_view := fst (parse bytes), ir_latest_normal_view := snd (parse bytes)\<rparr>))"

section \<open>Sending\<close>

definition ir_send :: "'a IRReplica \<Rightarrow> vr_dest \<Rightarrow> ir_msg \<Rightarrow> 'a IRReplica" where
  "ir_send s d m = s\<lparr>ir_sent := ir_sent s @ [(d, m)]\<rparr>"

definition BroadcastDoViewChangeMessages :: "'a IRReplica \<Rightarrow> vr_err + 'a IRReplica" where
  "BroadcastDoViewChangeMessages s =
     bindr (lift_ub (GetLeaderIndex (ir_view s) (ir_n s))) (\<lambda>leader_idx.
       let msg = \<lparr>iv_replicaIdx = ir_myIdx s, iv_record = None, iv_new_view = ir_view s,
                  iv_latest_normal_view = ir_latest_normal_view s\<rparr>;
           s = fold (\<lambda>i s. if i = ir_myIdx s \<or> i = leader_idx then s else ir_send s (VReplica i) (IDoViewChangeMessage msg))
                 [0..ir_n s - 1] s;
           msg = msg\<lparr>iv_record := Some (record_ToProto (ir_record s))\<rparr>
       in Inr (if leader_idx \<noteq> ir_myIdx s then ir_send s (VReplica leader_idx) (IDoViewChangeMessage msg) else s))"

section \<open>Start-up\<close>

definition IRReplica_new :: "(string \<Rightarrow> u64 \<times> u64) \<Rightarrow> int \<Rightarrow> int \<Rightarrow> int \<Rightarrow> 'a \<Rightarrow> string option \<Rightarrow> vr_err + 'a IRReplica" where
  "IRReplica_new parse n f myIdx app disk =
     (let s = \<lparr>ir_n = n, ir_f = f, ir_myIdx = myIdx, ir_status = STATUS_NORMAL, ir_view = 0, ir_latest_normal_view = 0,
               ir_disk = disk, ir_record = [], ir_quorum = QuorumSet_new f, ir_app = app, ir_sent = []\<rparr> in
      if disk \<noteq> None then
        bindr (RecoverViewInfo parse (s\<lparr>ir_status := STATUS_RECOVERING\<rparr>)) (\<lambda>s.
        let s = s\<lparr>ir_view := ir_view s + 1\<rparr> in
        bindr (lift_ub (GetLeaderIndex (ir_view s) n)) (\<lambda>leader.
        let s = (if myIdx = leader then s\<lparr>ir_view := ir_view s + 1\<rparr> else s) in
        BroadcastDoViewChangeMessages (PersistViewInfo s)))
      else Inr (PersistViewInfo s))"

section \<open>Operations\<close>

definition HandleProposeInconsistent :: "'a IRReplica \<Rightarrow> vaddr \<Rightarrow> VRequest \<Rightarrow> 'a IRReplica" where
  "HandleProposeInconsistent s remote req =
     (let op = (vq_clientid req, vq_clientreqid req);
          reply = (\<lambda>view fin. ReplyInconsistentMessage \<lparr>ri_view = view, ri_replicaIdx = ir_myIdx s, ri_opid = op, ri_finalized = fin\<rparr>)
      in case record_Find (ir_record s) op of
           Some entry \<Rightarrow> ir_send s (VAddr remote) (reply (re_view entry) (re_state entry = RECORD_STATE_FINALIZED))
         | None \<Rightarrow>
             let s = s\<lparr>ir_record := record_Add_op (ir_record s) (ir_view s) op req RECORD_STATE_TENTATIVE RECORD_TYPE_INCONSISTENT\<rparr>
             in ir_send s (VAddr remote) (reply (ir_view s) False))"

definition HandleFinalizeInconsistent :: "'a IRAppReplica \<Rightarrow> 'a IRReplica \<Rightarrow> vaddr \<Rightarrow> opid \<Rightarrow> vr_err + 'a IRReplica" where
  "HandleFinalizeInconsistent app s remote op =
     (case record_Find (ir_record s) op of
        None \<Rightarrow> Inr s
      | Some entry \<Rightarrow>
          if re_state entry = RECORD_STATE_TENTATIVE then
            let s = s\<lparr>ir_record := snd (record_SetStatus (ir_record s) op RECORD_STATE_FINALIZED)\<rparr> in
            bindr (ia_ExecInconsistentUpcall app (ir_app s) (vq_op (re_request entry))) (\<lambda>a.
              Inr (ir_send (s\<lparr>ir_app := a\<rparr>) (VAddr remote)
                (ConfirmMessage \<lparr>ic_view = ir_view s, ic_replicaIdx = ir_myIdx s, ic_opid = op\<rparr>)))
          else Inr s)"

definition HandleProposeConsensus :: "'a IRAppReplica \<Rightarrow> 'a IRReplica \<Rightarrow> vaddr \<Rightarrow> VRequest \<Rightarrow> vr_err + 'a IRReplica" where
  "HandleProposeConsensus app s remote req =
     (let op = (vq_clientid req, vq_clientreqid req);
          reply = (\<lambda>view res fin. ReplyConsensusMessage
            \<lparr>rk_view = view, rk_replicaIdx = ir_myIdx s, rk_opid = op, rk_result = res, rk_finalized = fin\<rparr>)
      in case record_Find (ir_record s) op of
           Some entry \<Rightarrow>
             Inr (ir_send s (VAddr remote) (reply (re_view entry) (re_result entry) (re_state entry = RECORD_STATE_FINALIZED)))
         | None \<Rightarrow>
             bindr (ia_ExecConsensusUpcall app (ir_app s) (vq_op req)) (\<lambda>(result, a).
               let s = s\<lparr>ir_app := a, ir_record := record_Add_result (ir_record s) (ir_view s) op req
                         RECORD_STATE_TENTATIVE RECORD_TYPE_CONSENSUS result\<rparr>
               in Inr (ir_send s (VAddr remote) (reply (ir_view s) result False))))"

definition HandleFinalizeConsensus :: "'a IRReplica \<Rightarrow> vaddr \<Rightarrow> opid \<Rightarrow> string \<Rightarrow> 'a IRReplica" where
  "HandleFinalizeConsensus s remote op result =
     (case record_Find (ir_record s) op of
        None \<Rightarrow> s
      | Some entry \<Rightarrow>
          let r = snd (record_SetStatus (ir_record s) op RECORD_STATE_FINALIZED);
              r = (if result \<noteq> re_result entry then snd (record_SetResult r op result) else r)
          in ir_send (s\<lparr>ir_record := r\<rparr>) (VAddr remote)
               (ConfirmMessage \<lparr>ic_view = ir_view s, ic_replicaIdx = ir_myIdx s, ic_opid = op\<rparr>))"

definition HandleUnlogged :: "'a IRAppReplica \<Rightarrow> 'a IRReplica \<Rightarrow> vaddr \<Rightarrow> VRequest \<Rightarrow> vr_err + 'a IRReplica" where
  "HandleUnlogged app s remote req =
     bindr (ia_UnloggedUpcall app (ir_app s) (vq_op req)) (\<lambda>(res, a).
       Inr (ir_send (s\<lparr>ir_app := a\<rparr>) (VAddr remote) (IUnloggedReplyMessage res (vq_clientreqid req))))"

section \<open>Merging records\<close>

definition group_at :: "opid_groups \<Rightarrow> opid \<Rightarrow> RecordEntry list" where
  "group_at g op = (case map_of g op of None \<Rightarrow> [] | Some es \<Rightarrow> es)"

text \<open>One entry of one record: \<open>R\<close> and \<^verbatim>\<open>entries_by_opid\<close>.\<close>

definition merge_entry :: "opid \<times> RecordEntry \<Rightarrow> Record \<times> opid_groups \<Rightarrow> Record \<times> opid_groups" where
  "merge_entry p acc =
     (let (R, g) = acc; op = fst p; entry = snd p in
      if re_type entry = RECORD_TYPE_INCONSISTENT then (if record_Find R op = None then record_Add R entry else R, g)
      else if re_state entry = RECORD_STATE_FINALIZED
      then (if record_Find R op = None then record_Add R entry else R, AList.delete op g)
      else (R, if map_of R (re_opid entry) = None then smap_put (re_opid entry) (group_at g (re_opid entry) @ [entry]) g else g))"

definition group_records :: "Record list \<Rightarrow> Record \<times> opid_groups" where
  "group_records rs = fold (fold merge_entry) rs ([], [])"

definition tally :: "string list \<Rightarrow> (string \<times> nat) list" where
  "tally rs = fold (\<lambda>r m. smap_put r ((case map_of m r of None \<Rightarrow> 0 | Some n \<Rightarrow> n) + 1) m) rs []"

definition result_counts :: "RecordEntry list \<Rightarrow> (string \<times> nat) list" where
  "result_counts es = tally (map re_result es)"

definition majority_result :: "int \<Rightarrow> RecordEntry list \<Rightarrow> string option" where
  "majority_result f es = map_option fst (find (\<lambda>c. int (snd c) \<ge> - ((- f) div 2) + 1) (result_counts es))"

definition latest_records :: "'a IRReplica \<Rightarrow> (int \<times> IDoViewChangeMessage) list \<Rightarrow> Record list" where
  "latest_records s records =
     (let mx = fold (\<lambda>(i, m) v. max v (iv_latest_normal_view m)) records (ir_latest_normal_view s) in
      map (\<lambda>(i, m). Record_of_proto (case iv_record m of None \<Rightarrow> [] | Some r \<Rightarrow> r))
        (filter (\<lambda>(i, m). iv_latest_normal_view m = mx) records) @
      (if ir_latest_normal_view s = mx then [ir_record s] else []))"

text \<open>Turning the results of the application into entries; an unknown identifier has no first entry.\<close>

primrec merged_record :: "u64 \<Rightarrow> opid_groups \<Rightarrow> (opid \<times> string) list \<Rightarrow> Record \<Rightarrow> vr_err + Record" where
  "merged_record view g [] m = Inr m"
| "merged_record view g (p # ps) m =
     (case group_at g (fst p) of
        [] \<Rightarrow> Inl (VUB OutOfBounds)
      | e # es \<Rightarrow> merged_record view g ps
          (record_Add_result m view (fst p) (re_request e) RECORD_STATE_FINALIZED (re_type e) (snd p)))"

definition IrMergeRecords :: "'a IRAppReplica \<Rightarrow> 'a IRReplica \<Rightarrow> (int \<times> IDoViewChangeMessage) list \<Rightarrow> vr_err + Record \<times> 'a" where
  "IrMergeRecords app s records =
     (let (R, g) = group_records (latest_records s records);
          d = filter (\<lambda>(op, es). majority_result (ir_f s) es \<noteq> None) g;
          u = filter (\<lambda>(op, es). majority_result (ir_f s) es = None) g;
          maj = map (\<lambda>(op, es). (op, case majority_result (ir_f s) es of None \<Rightarrow> '''' | Some r \<Rightarrow> r)) d
      in bindr (ia_Sync app (ir_app s) R) (\<lambda>a.
         bindr (ia_Merge app a d u maj) (\<lambda>(results, a).
         bindr (merged_record (ir_view s) g results []) (\<lambda>merged.
           Inr (fold (\<lambda>(op, e) R. record_Add R e) merged R, a)))))"

section \<open>View changes\<close>

definition HandleDoViewChange :: "'a IRAppReplica \<Rightarrow> 'a IRReplica \<Rightarrow> IDoViewChangeMessage \<Rightarrow> vr_err + 'a IRReplica" where
  "HandleDoViewChange app s msg =
     (if iv_new_view msg < ir_view s then Inr s
      else if iv_new_view msg = ir_view s \<and> ir_status s = STATUS_NORMAL then Inr s
      else
        bindr (if iv_new_view msg = ir_view s then Inr s
               else let s = PersistViewInfo (s\<lparr>ir_view := iv_new_view msg\<rparr>);
                        s = (if ir_status s = STATUS_NORMAL then s\<lparr>ir_status := STATUS_VIEW_CHANGE\<rparr> else s)
                    in BroadcastDoViewChangeMessages s)
          (\<lambda>s.
        bindr (lift_ub (GetLeaderIndex (ir_view s) (ir_n s))) (\<lambda>leader.
          if ir_myIdx s \<noteq> leader then Inr s
          else
            case AddAndCheckForQuorum (ir_quorum s) (iv_new_view msg) (iv_replicaIdx msg) msg of
              (None, q) \<Rightarrow> Inr (s\<lparr>ir_quorum := q\<rparr>)
            | (Some quorum, q) \<Rightarrow>
                bindr (IrMergeRecords app (s\<lparr>ir_quorum := q\<rparr>) quorum) (\<lambda>(R, a).
                  let s = PersistViewInfo (s\<lparr>ir_quorum := q, ir_app := a, ir_record := R, ir_status := STATUS_NORMAL,
                        ir_view := iv_new_view msg, ir_latest_normal_view := iv_new_view msg\<rparr>)
                  in Inr (ir_send s VAll (IStartViewMessage (record_ToProto (ir_record s)) (ir_view s)))))))"

definition HandleStartView :: "'a IRAppReplica \<Rightarrow> 'a IRReplica \<Rightarrow> RecordEntryProto list \<Rightarrow> u64 \<Rightarrow> vr_err + 'a IRReplica" where
  "HandleStartView app s record new_view =
     (if new_view < ir_view s then Inr s
      else if new_view = ir_view s \<and> ir_status s = STATUS_NORMAL then Inr s
      else
        let s = s\<lparr>ir_record := Record_of_proto record\<rparr> in
        bindr (ia_Sync app (ir_app s) (ir_record s)) (\<lambda>a.
          Inr (PersistViewInfo (s\<lparr>ir_app := a, ir_status := STATUS_NORMAL, ir_view := new_view, ir_latest_normal_view := new_view\<rparr>))))"

definition HandleViewChangeTimeout :: "'a IRReplica \<Rightarrow> vr_err + 'a IRReplica" where
  "HandleViewChangeTimeout s =
     (let s = (if ir_status s = STATUS_NORMAL then s\<lparr>ir_status := STATUS_VIEW_CHANGE\<rparr> else s);
          s = s\<lparr>ir_view := ir_view s + 1\<rparr>
      in BroadcastDoViewChangeMessages (PersistViewInfo s))"

fun ir_HandleMessage :: "'a IRAppReplica \<Rightarrow> 'a IRReplica \<Rightarrow> vaddr \<Rightarrow> ir_msg \<Rightarrow> vr_err + 'a IRReplica" where
  "ir_HandleMessage app s remote (ProposeInconsistentMessage req) = Inr (HandleProposeInconsistent s remote req)"
| "ir_HandleMessage app s remote (FinalizeInconsistentMessage op) = HandleFinalizeInconsistent app s remote op"
| "ir_HandleMessage app s remote (ProposeConsensusMessage req) = HandleProposeConsensus app s remote req"
| "ir_HandleMessage app s remote (FinalizeConsensusMessage op result) = Inr (HandleFinalizeConsensus s remote op result)"
| "ir_HandleMessage app s remote (IDoViewChangeMessage m) = HandleDoViewChange app s m"
| "ir_HandleMessage app s remote (IStartViewMessage record view) = HandleStartView app s record view"
| "ir_HandleMessage app s remote (IUnloggedRequestMessage req) = HandleUnlogged app s remote req"
| "ir_HandleMessage app s remote m = Inl VPanic"

datatype ir_event = IMsg vaddr ir_msg | ITimeout

fun ir_step :: "'a IRAppReplica \<Rightarrow> 'a IRReplica \<Rightarrow> ir_event \<Rightarrow> vr_err + 'a IRReplica" where
  "ir_step app s (IMsg a m) = ir_HandleMessage app s a m"
| "ir_step app s ITimeout = HandleViewChangeTimeout s"

primrec ir_run :: "'a IRAppReplica \<Rightarrow> ir_event list \<Rightarrow> 'a IRReplica \<Rightarrow> vr_err + 'a IRReplica" where
  "ir_run app [] s = Inr s"
| "ir_run app (e # es) s = bindr (ir_step app s e) (ir_run app es)"

end
