(* ===== verification/IRMerge.thy ===== *)
theory IRMerge
  imports IRReplica
begin

text \<open>
  What a view change of inconsistent replication does to the records: an operation that a fast quorum
  has with one result, or a quorum has finalized, is finalized by the merge, with the result that is
  finalized in a merged record or else with the one the application answers for the majority result.
\<close>

section \<open>One operation through the merge\<close>

text \<open>The merge treats each operation by itself: this is what it does to the entry in \<open>R\<close> and to the
  group of one operation.\<close>

definition op_step :: "RecordEntry \<Rightarrow> RecordEntry option \<times> RecordEntry list option \<Rightarrow> RecordEntry option \<times> RecordEntry list option" where
  "op_step e acc =
     (let (Ro, go) = acc in
      if re_type e = RECORD_TYPE_INCONSISTENT then (if Ro = None then Some e else Ro, go)
      else if re_state e = RECORD_STATE_FINALIZED then (if Ro = None then Some e else Ro, None)
      else (Ro, if Ro = None then Some ((case go of None \<Rightarrow> [] | Some es \<Rightarrow> es) @ [e]) else go))"

definition at_op :: "opid \<Rightarrow> Record \<times> opid_groups \<Rightarrow> RecordEntry option \<times> RecordEntry list option" where
  "at_op op acc = (map_of (fst acc) op, map_of (snd acc) op)"

definition op_entries :: "Record list \<Rightarrow> opid \<Rightarrow> RecordEntry list" where
  "op_entries rs op = List.map_filter (\<lambda>r. record_Find r op) rs"

lemma merge_entry_at: "entry_wf p \<Longrightarrow> at_op op (merge_entry p acc) = (if fst p = op then op_step (snd p) (at_op op acc) else at_op op acc)"
  by (auto simp: merge_entry_def at_op_def op_step_def entry_wf_def record_Find_def record_Add_def group_at_def Let_def split: prod.split)

lemma fold_merge_entry_at:
  "list_all entry_wf r \<Longrightarrow> distinct (map fst r) \<Longrightarrow>
   at_op op (fold merge_entry r acc) = (case map_of r op of None \<Rightarrow> at_op op acc | Some e \<Rightarrow> op_step e (at_op op acc))"
proof (induction r arbitrary: acc)
  case (Cons p r)
  moreover have "map_of r (fst p) = None" using Cons.prems(2) by (simp add: map_of_eq_None_iff)
  ultimately show ?case by (cases p) (auto simp: merge_entry_at split: option.split)
qed simp

lemma group_records_at: "list_all record_wf rs \<Longrightarrow> at_op op (group_records rs) = fold op_step (op_entries rs op) (None, None)"
proof -
  have "list_all record_wf rs \<Longrightarrow> at_op op (fold (fold merge_entry) rs acc) = fold op_step (op_entries rs op) (at_op op acc)" for acc
  proof (induction rs arbitrary: acc)
    case (Cons r rs)
    then have "at_op op (fold merge_entry r acc) = (case record_Find r op of None \<Rightarrow> at_op op acc | Some e \<Rightarrow> op_step e (at_op op acc))"
      by (simp add: fold_merge_entry_at record_wf_def ascending_distinct record_Find_def)
    with Cons show ?case by (simp add: op_entries_def map_filter_simps split: option.split)
  qed (simp add: op_entries_def map_filter_simps)
  then show "list_all record_wf rs \<Longrightarrow> ?thesis" by (simp add: group_records_def at_op_def)
qed

lemma group_records_ascending: "ascending (snd (group_records rs))"
proof -
  have "ascending (snd (merge_entry p acc))" if "ascending (snd acc)" for p acc
    using that by (auto simp: merge_entry_def Let_def ascending_smap_put ascending_delete split: prod.split)
  then have "ascending (snd acc) \<Longrightarrow> ascending (snd (fold merge_entry r acc))" for r acc
    by (induction r arbitrary: acc) auto
  then have "ascending (snd acc) \<Longrightarrow> ascending (snd (fold (fold merge_entry) rs acc))" for acc
    by (induction rs arbitrary: acc) auto
  then show ?thesis by (simp add: group_records_def)
qed

text \<open>A consensus operation ends in \<open>R\<close> with a finalized entry if there is one, and otherwise in the
  groups with all its entries.\<close>

lemma fold_op_step_finalized:
  "\<forall>e \<in> set es. re_type e = RECORD_TYPE_CONSENSUS \<Longrightarrow> fold op_step es (Some e0, None) = (Some e0, None)"
  by (induction es) (auto simp: op_step_def)

lemma fold_op_step_tentative:
  "\<forall>e \<in> set es. re_type e = RECORD_TYPE_CONSENSUS \<and> re_state e = RECORD_STATE_TENTATIVE \<Longrightarrow>
   fold op_step es (None, go) = (None, if es = [] then go else Some ((case go of None \<Rightarrow> [] | Some x \<Rightarrow> x) @ es))"
  by (induction es arbitrary: go) (auto simp: op_step_def)

lemma fold_op_step_consensus:
  assumes c: "\<forall>e \<in> set es. re_type e = RECORD_TYPE_CONSENSUS" and f: "\<exists>e \<in> set es. re_state e = RECORD_STATE_FINALIZED"
  shows "\<exists>e \<in> set es. re_state e = RECORD_STATE_FINALIZED \<and> fold op_step es (None, None) = (Some e, None)"
proof -
  obtain xs e ys where es: "es = xs @ e # ys" "re_state e = RECORD_STATE_FINALIZED" "\<forall>x \<in> set xs. re_state x \<noteq> RECORD_STATE_FINALIZED"
    using split_list_first_prop [OF f] by auto
  have "\<forall>x \<in> set xs. re_state x = RECORD_STATE_TENTATIVE" using es(3) by (metis RecordEntryState.exhaust)
  then have "fold op_step xs (None, None) = (None, if xs = [] then None else Some xs)"
    using c es(1) by (subst fold_op_step_tentative) auto
  then have "fold op_step es (None, None) = (Some e, None)"
    using c es(1,2) fold_op_step_finalized [of ys e] by (simp add: op_step_def)
  with es show ?thesis by auto
qed

section \<open>Counting results\<close>

lemma map_of_tally: "map_of (tally rs) x = (let n = count_list rs x in if n = 0 then None else Some n)"
proof (induction rs rule: rev_induct)
  case (snoc r rs)
  then show ?case by (auto simp: tally_def Let_def split: option.split if_splits)
qed (simp add: tally_def)

lemma ascending_tally: "ascending (tally rs)"
  by (induction rs rule: rev_induct) (auto simp: tally_def ascending_smap_put)

lemma count_list_map: "count_list (map f xs) y = length (filter (\<lambda>x. f x = y) xs)"
  by (induction xs) auto

lemma map_of_result_counts:
  "map_of (result_counts es) x = (let n = length (filter (\<lambda>e. re_result e = x) es) in if n = 0 then None else Some n)"
  by (simp add: result_counts_def map_of_tally count_list_map)

lemma ascending_result_counts: "ascending (result_counts es)"
  by (simp add: result_counts_def ascending_tally)

lemma majority_unique:
  assumes m: "f + 2 \<le> 2 * length (filter (\<lambda>e. re_result e = r) es)" and l: "length es \<le> f + 1"
  shows "majority_result (int f) es = Some r"
proof -
  have t: "- ((- int f) div 2) + 1 = int ((f + 1) div 2 + 1)" by linarith
  define P where "P = (\<lambda>c :: string \<times> nat. int (snd c) \<ge> - ((- int f) div 2) + 1)"
  have P: "P c \<longleftrightarrow> (f + 1) div 2 + 1 \<le> snd c" for c unfolding P_def t of_nat_le_iff by (rule refl)
  let ?n = "\<lambda>x. length (filter (\<lambda>e. re_result e = x) es)"
  have "(r, ?n r) \<in> set (result_counts es)" using m by (intro map_of_SomeD) (auto simp: map_of_result_counts Let_def)
  moreover have "P (r, ?n r)" using m unfolding P by simp
  ultimately have "find P (result_counts es) \<noteq> None" unfolding find_None_iff by blast
  then obtain c where c: "find P (result_counts es) = Some c" by blast
  then have "c \<in> set (result_counts es)" "P c" by (auto simp: find_Some_iff)
  then have "map_of (result_counts es) (fst c) = Some (snd c)"
    using ascending_distinct [OF ascending_result_counts] by (simp add: map_of_eq_Some_iff)
  then have n: "?n (fst c) = snd c" by (auto simp: map_of_result_counts Let_def split: if_splits)
  have "fst c = r"
  proof (rule ccontr)
    assume "fst c \<noteq> r"
    then have "?n (fst c) + ?n r \<le> length es" by (induction es) auto
    then show False using n m l \<open>P c\<close> unfolding P by linarith
  qed
  then show ?thesis using c by (simp add: majority_result_def P_def)
qed

section \<open>The merged record\<close>

text \<open>What the replica relies on: the application returns a result for each operation it is given and for
  no other. Which result is its own business: \<^verbatim>\<open>LockServer::Merge\<close> refuses a granted lock that is held.\<close>

definition merge_answers :: "'a IRAppReplica \<Rightarrow> bool" where
  "merge_answers app \<longleftrightarrow> (\<forall>a d u maj results a'. distinct (map fst (d @ u)) \<and> map fst maj = map fst d \<and> ia_Merge app a d u maj = Inr (results, a') \<longrightarrow>
     ascending results \<and> fst ` set results = fst ` set d \<union> fst ` set u)"

text \<open>The operations with a majority result, and that result, as the application is given them.\<close>

definition merge_majorities :: "'a IRReplica \<Rightarrow> (int \<times> IDoViewChangeMessage) list \<Rightarrow> (opid \<times> string) list" where
  "merge_majorities s ms =
     map (\<lambda>(op, es). (op, case majority_result (ir_f s) es of None \<Rightarrow> '''' | Some r \<Rightarrow> r))
       (filter (\<lambda>(op, es). majority_result (ir_f s) es \<noteq> None) (snd (group_records (latest_records s ms))))"

lemma merged_record_at:
  "merged_record view g ps m = Inr m' \<Longrightarrow> distinct (map fst ps) \<Longrightarrow> map_of m' op = (case map_of ps op of
     None \<Rightarrow> map_of m op
   | Some r \<Rightarrow> Some \<lparr>re_view = view, re_opid = op, re_state = RECORD_STATE_FINALIZED, re_type = re_type (hd (group_at g op)),
       re_request = re_request (hd (group_at g op)), re_result = r\<rparr>)"
proof (induction ps arbitrary: m)
  case (Cons p ps)
  have "map_of ps (fst p) = None" using Cons.prems(2) by (simp add: map_of_eq_None_iff)
  with Cons show ?case by (cases p) (auto simp: record_Add_result_eq split: list.splits option.split)
qed simp

lemma merged_record_wf:
  "merged_record view g ps m = Inr m' \<Longrightarrow> \<forall>p \<in> set m. re_opid (snd p) = fst p \<Longrightarrow> \<forall>p \<in> set m'. re_opid (snd p) = fst p"
proof (induction ps arbitrary: m)
  case (Cons p ps)
  then obtain e es where g: "group_at g (fst p) = e # es" by (auto split: list.splits)
  show ?case
    by (rule Cons.IH [of "record_Add_result m view (fst p) (re_request e) RECORD_STATE_FINALIZED (re_type e) (snd p)"])
      (use Cons.prems g set_smap_put_subset in \<open>fastforce simp: record_Add_result_eq\<close>)+
qed simp

lemma fold_record_Add_at:
  "\<forall>p \<in> set m. re_opid (snd p) = fst p \<Longrightarrow> distinct (map fst m) \<Longrightarrow>
   map_of (fold (\<lambda>(op, e) R. record_Add R e) m R) op = (case map_of m op of None \<Rightarrow> map_of R op | Some e \<Rightarrow> Some e)"
proof (induction m arbitrary: R)
  case (Cons p m)
  have "map_of m (fst p) = None" using Cons.prems(2) by (simp add: map_of_eq_None_iff)
  with Cons show ?case by (cases p) (auto simp: record_Add_def split: option.split)
qed simp

lemma merged_record_ascending: "merged_record view g ps m = Inr m' \<Longrightarrow> ascending m \<Longrightarrow> ascending m'"
  by (induction ps arbitrary: m) (auto simp: record_Add_result_eq ascending_smap_put split: list.splits)

text \<open>The result of the merge for one operation.\<close>

lemma merge_records_at:
  assumes app: "merge_answers app" and merge: "IrMergeRecords app s ms = Inr (R', a)"
    and g: "group_records (latest_records s ms) = (R, g)"
  obtains results a1 d u where "fst ` set results = fst ` set g"
    "ia_Merge app a1 d u (merge_majorities s ms) = Inr (results, a)"
    "\<And>op. map_of R' op = (case map_of results op of None \<Rightarrow> map_of R op | Some r \<Rightarrow>
       Some \<lparr>re_view = ir_view s, re_opid = op, re_state = RECORD_STATE_FINALIZED, re_type = re_type (hd (group_at g op)),
         re_request = re_request (hd (group_at g op)), re_result = r\<rparr>)"
proof -
  define d where "d = filter (\<lambda>(op, es). majority_result (ir_f s) es \<noteq> None) g"
  define u where "u = filter (\<lambda>(op, es). majority_result (ir_f s) es = None) g"
  have maj: "merge_majorities s ms = map (\<lambda>(op, es). (op, case majority_result (ir_f s) es of None \<Rightarrow> '''' | Some r \<Rightarrow> r)) d"
    by (simp add: merge_majorities_def g d_def)
  from merge obtain a1 results m where r: "ia_Merge app a1 d u (merge_majorities s ms) = Inr (results, a)"
    and m: "merged_record (ir_view s) g results [] = Inr m" and R': "R' = fold (\<lambda>(op, e) R. record_Add R e) m R"
    by (auto simp: IrMergeRecords_def g Let_def bindr_eq_Inr d_def u_def merge_majorities_def)
  have "distinct (map fst g)" using ascending_distinct [OF group_records_ascending [of "latest_records s ms"]] by (simp add: g)
  then have dist: "distinct (map fst (d @ u))" "map fst (merge_majorities s ms) = map fst d"
    by (auto simp: d_def u_def maj distinct_map_filter dest: eq_key_imp_eq_value)
  have c: "ascending results" "fst ` set results = fst ` set d \<union> fst ` set u"
    using app r dist unfolding merge_answers_def by blast+
  have "fst ` set d \<union> fst ` set u = fst ` set g" by (force simp: d_def u_def)
  moreover have "map_of R' op = (case map_of results op of None \<Rightarrow> map_of R op | Some r \<Rightarrow>
       Some \<lparr>re_view = ir_view s, re_opid = op, re_state = RECORD_STATE_FINALIZED, re_type = re_type (hd (group_at g op)),
         re_request = re_request (hd (group_at g op)), re_result = r\<rparr>)" for op
    unfolding R' using fold_record_Add_at [OF merged_record_wf [OF m] ascending_distinct [OF merged_record_ascending [OF m]], of R op]
      merged_record_at [OF m ascending_distinct [OF c(1)], of op] by (simp split: option.split)
  ultimately show ?thesis using that [OF _ r] c(2) by metis
qed

lemma merge_majorities_at:
  assumes "map_of (snd (group_records (latest_records s ms))) op = Some es" and "majority_result (ir_f s) es = Some r"
  shows "map_of (merge_majorities s ms) op = Some r"
proof -
  let ?g = "snd (group_records (latest_records s ms))"
  have "distinct (map fst ?g)" by (rule ascending_distinct [OF group_records_ascending])
  then have "distinct (map fst (merge_majorities s ms))"
    by (auto simp: merge_majorities_def distinct_map_filter comp_def case_prod_beta)
  moreover have "(op, es) \<in> set ?g" using assms(1) by (rule map_of_SomeD)
  then have "(op, r) \<in> set (merge_majorities s ms)" using assms(2) by (force simp: merge_majorities_def)
  ultimately show ?thesis by simp
qed

text \<open>A consensus operation after the merge.\<close>

lemma merge_consensus:
  assumes app: "merge_answers app" and merge: "IrMergeRecords app s ms = Inr (R, a)" and f: "ir_f s = int f"
    and wf: "list_all record_wf (latest_records s ms)" and len: "length (latest_records s ms) \<le> f + 1"
    and c: "\<forall>e \<in> set es. re_type e = RECORD_TYPE_CONSENSUS \<and> (re_state e = RECORD_STATE_FINALIZED \<longrightarrow> re_result e = r)"
    and es: "es = op_entries (latest_records s ms) op"
    and dec: "(\<exists>e \<in> set es. re_state e = RECORD_STATE_FINALIZED) \<or> f + 2 \<le> 2 * length (filter (\<lambda>e. re_result e = r) es)"
  shows "\<exists>e. record_Find R op = Some e \<and> re_type e = RECORD_TYPE_CONSENSUS \<and> re_state e = RECORD_STATE_FINALIZED \<and>
    (if \<exists>e \<in> set es. re_state e = RECORD_STATE_FINALIZED then re_result e = r
     else map_of (merge_majorities s ms) op = Some r \<and>
       (\<exists>a1 d u results. ia_Merge app a1 d u (merge_majorities s ms) = Inr (results, a) \<and> map_of results op = Some (re_result e)))"
proof -
  obtain R0 g where g: "group_records (latest_records s ms) = (R0, g)" by (cases "group_records (latest_records s ms)")
  have at: "(map_of R0 op, map_of g op) = fold op_step es (None, None)"
    using group_records_at [OF wf, of op] by (simp add: g at_op_def es)
  obtain results a1 d u where res: "fst ` set results = fst ` set g"
    "ia_Merge app a1 d u (merge_majorities s ms) = Inr (results, a)"
    "\<And>op. map_of R op = (case map_of results op of None \<Rightarrow> map_of R0 op | Some r \<Rightarrow>
       Some \<lparr>re_view = ir_view s, re_opid = op, re_state = RECORD_STATE_FINALIZED, re_type = re_type (hd (group_at g op)),
         re_request = re_request (hd (group_at g op)), re_result = r\<rparr>)"
    using merge_records_at [OF app merge g] by blast
  have len: "length es \<le> f + 1"
  proof -
    have "length (op_entries rs op) \<le> length rs" for rs by (induction rs) (auto simp: op_entries_def map_filter_simps split: option.split)
    then show ?thesis using len es by (meson le_trans)
  qed
  show ?thesis
  proof (cases "\<exists>e \<in> set es. re_state e = RECORD_STATE_FINALIZED")
    case True
    then obtain e where e: "e \<in> set es" "re_state e = RECORD_STATE_FINALIZED" "fold op_step es (None, None) = (Some e, None)"
      using fold_op_step_consensus [of es] c by auto
    then have "op \<notin> fst ` set g" using at by (auto simp: map_of_eq_None_iff [symmetric])
    then have "map_of results op = None" using res(1) by (simp add: map_of_eq_None_iff)
    then show ?thesis using res(3) [of op] at e c True by (auto simp: record_Find_def)
  next
    case False
    then have n: "f + 2 \<le> 2 * length (filter (\<lambda>e. re_result e = r) es)" using dec by blast
    then have ne: "es \<noteq> []" by auto
    have "\<forall>e \<in> set es. re_type e = RECORD_TYPE_CONSENSUS \<and> re_state e = RECORD_STATE_TENTATIVE"
      using False c by (metis RecordEntryState.exhaust)
    from fold_op_step_tentative [OF this, of None] at ne have go: "map_of g op = Some es" by simp
    have "map_of (merge_majorities s ms) op = Some r"
      by (rule merge_majorities_at [of s ms op es]) (simp_all add: g go f majority_unique [OF n len])
    moreover obtain r' where r': "map_of results op = Some r'"
      using res(1) map_of_SomeD [OF go] by (metis fst_conv image_eqI map_of_eq_None_iff option.exhaust)
    moreover have "re_type (hd (group_at g op)) = RECORD_TYPE_CONSENSUS" using c ne by (simp add: group_at_def go)
    ultimately show ?thesis using res(3) [of op] res(2) False by (auto simp: record_Find_def)
  qed
qed

section \<open>Quorums\<close>

text \<open>A client has been given the result \<open>r\<close>: on the fast path a fast quorum of the records has it, on
  the slow path a quorum has it finalized.\<close>

definition op_decided :: "int \<Rightarrow> int \<Rightarrow> (int \<Rightarrow> Record) \<Rightarrow> opid \<Rightarrow> string \<Rightarrow> bool" where
  "op_decided n f rec op r \<longleftrightarrow>
     (\<exists>Q \<subseteq> {0..<n}. FastQuorumSize f \<le> int (card Q) \<and> (\<forall>i \<in> Q. \<exists>e. record_Find (rec i) op = Some e \<and> re_result e = r)) \<or>
     (\<exists>Q \<subseteq> {0..<n}. QuorumSize f \<le> int (card Q) \<and>
       (\<forall>i \<in> Q. \<exists>e. record_Find (rec i) op = Some e \<and> re_state e = RECORD_STATE_FINALIZED))"

text \<open>The new leader has a message with the record from \<open>f\<close> other replicas, whose latest normal view is
  its own.\<close>

definition records_collected :: "nat \<Rightarrow> 'a IRReplica \<Rightarrow> (int \<times> IDoViewChangeMessage) list \<Rightarrow> (int \<Rightarrow> Record) \<Rightarrow> bool" where
  "records_collected f s ms rec \<longleftrightarrow> ir_n s = 2 * int f + 1 \<and> ir_f s = int f \<and> ir_myIdx s \<in> {0..<ir_n s} \<and> rec (ir_myIdx s) = ir_record s \<and>
     length ms = f \<and> distinct (map fst ms) \<and>
     list_all (\<lambda>(i, m). i \<in> {0..<ir_n s} \<and> i \<noteq> ir_myIdx s \<and> iv_record m = Some (record_ToProto (rec i)) \<and>
       iv_latest_normal_view m = ir_latest_normal_view s) ms"

lemma records_collected_latest:
  assumes "records_collected f s ms rec" and wf: "\<And>i. record_wf (rec i)"
  shows "latest_records s ms = map rec (map fst ms @ [ir_myIdx s])"
proof -
  have m: "iv_record m = Some (record_ToProto (rec i))" "iv_latest_normal_view m = ir_latest_normal_view s" if "(i, m) \<in> set ms" for i m
    using assms(1) that by (auto simp: records_collected_def list_all_iff)
  have "fold (\<lambda>(i, m) v. max v (iv_latest_normal_view m)) xs (ir_latest_normal_view s) = ir_latest_normal_view s" if "set xs \<subseteq> set ms" for xs
    using that by (induction xs) (auto simp: m(2))
  moreover have "filter (\<lambda>(i, m). iv_latest_normal_view m = ir_latest_normal_view s) ms = ms"
    by (rule filter_True) (auto simp: m(2))
  moreover have "map (\<lambda>(i, m). Record_of_proto (case iv_record m of None \<Rightarrow> [] | Some r \<Rightarrow> r)) ms = map rec (map fst ms)"
    by (auto simp: m(1) record_rebuilt wf)
  ultimately show ?thesis using assms(1) by (simp add: latest_records_def Let_def records_collected_def)
qed

lemma op_entries_in: "e \<in> set (op_entries rs op) \<Longrightarrow> \<exists>r \<in> set rs. record_Find r op = Some e"
  by (induction rs) (auto simp: op_entries_def map_filter_simps split: option.splits)

lemma op_entries_iff:
  "(\<exists>e \<in> set (op_entries (map rec ids) op). P e) \<longleftrightarrow> (\<exists>i e. i \<in> set ids \<and> record_Find (rec i) op = Some e \<and> P e)"
  by (induction "ids") (auto simp: op_entries_def map_filter_simps split: option.splits)

lemma count_op_entries:
  "length (filter P (op_entries (map rec ids) op)) = length (filter (\<lambda>i. \<exists>e. record_Find (rec i) op = Some e \<and> P e) ids)"
  by (induction "ids") (auto simp: op_entries_def map_filter_simps split: option.split)

lemma quorum_overlap:
  fixes Q S :: "int set"
  assumes "Q \<subseteq> {0..<2 * int f + 1}" "S \<subseteq> {0..<2 * int f + 1}" "card S = f + 1" "f + k \<le> card Q"
  shows "k \<le> card (Q \<inter> S)"
proof -
  have fin: "finite Q" "finite S" using assms(1,2) finite_subset by blast+
  have "card (Q \<union> S) \<le> card {0..<2 * int f + 1}" using assms(1,2) by (intro card_mono) auto
  moreover have "card Q + card S = card (Q \<union> S) + card (Q \<inter> S)" using fin by (rule card_Un_Int)
  ultimately show ?thesis using assms(3,4) by simp
qed

section \<open>Properties\<close>

text \<open>C28. Decided operations survive a view change of inconsistent replication. Let a consensus operation
  be decided with result \<open>r\<close>: a fast quorum of the records has it with \<open>r\<close>, or \<open>f + 1\<close> records have it
  finalized. Suppose no record has it finalized with another result, and the new leader merges its own
  record with those of \<open>f\<close> other replicas, all with the leader's latest normal view. If the
  application's merge answers for the operations it is given, then the merged record has the operation
  finalized: with \<open>r\<close> if one of the merged records has it finalized, and otherwise with what the
  application's merge answers when it is handed \<open>r\<close> as the operation's majority result.\<close>

theorem ir_decided_results_survive:
  assumes "merge_answers app" "IrMergeRecords app s ms = Inr (R, a)" "records_collected f s ms rec" "\<And>i. record_wf (rec i)"
    and c: "\<And>i e. record_Find (rec i) op = Some e \<Longrightarrow>
      re_type e = RECORD_TYPE_CONSENSUS \<and> (re_state e = RECORD_STATE_FINALIZED \<longrightarrow> re_result e = r)"
    and "op_decided (ir_n s) (int f) rec op r"
  shows "\<exists>e. record_Find R op = Some e \<and> re_type e = RECORD_TYPE_CONSENSUS \<and> re_state e = RECORD_STATE_FINALIZED \<and>
    (if \<exists>i e'. i \<in> insert (ir_myIdx s) (fst ` set ms) \<and> record_Find (rec i) op = Some e' \<and> re_state e' = RECORD_STATE_FINALIZED
     then re_result e = r
     else map_of (merge_majorities s ms) op = Some r \<and>
       (\<exists>a1 d u results. ia_Merge app a1 d u (merge_majorities s ms) = Inr (results, a) \<and> map_of results op = Some (re_result e)))"
proof -
  define ids where "ids = map fst ms @ [ir_myIdx s]"
  have L: "latest_records s ms = map rec ids" using records_collected_latest [OF assms(3,4)] by (simp add: ids_def)
  have n: "ir_n s = 2 * int f + 1" "ir_f s = int f" and "length ids = f + 1" "distinct ids" "set ids \<subseteq> {0..<2 * int f + 1}"
    using assms(3) by (auto simp: records_collected_def ids_def list_all_iff)
  then have S: "set ids \<subseteq> {0..<2 * int f + 1}" "card (set ids) = f + 1" by (simp_all add: distinct_card)
  have at_least: "card (Q \<inter> set ids) \<le> length (filter P (op_entries (map rec ids) op))"
    if "\<And>i. i \<in> Q \<Longrightarrow> \<exists>e. record_Find (rec i) op = Some e \<and> P e" for Q P
  proof -
    have "card (Q \<inter> set ids) \<le> card (set (filter (\<lambda>i. \<exists>e. record_Find (rec i) op = Some e \<and> P e) ids))"
      by (rule card_mono) (use that in auto)
    then show ?thesis
      using distinct_card [OF distinct_filter [OF \<open>distinct ids\<close>], of "\<lambda>i. \<exists>e. record_Find (rec i) op = Some e \<and> P e"] unfolding count_op_entries by simp
  qed
  have dec: "(\<exists>e \<in> set (op_entries (map rec ids) op). re_state e = RECORD_STATE_FINALIZED) \<or>
      f + 2 \<le> 2 * length (filter (\<lambda>e. re_result e = r) (op_entries (map rec ids) op))"
  proof -
    from assms(6) consider Q where "Q \<subseteq> {0..<2 * int f + 1}" "f + (f + 1) div 2 + 1 \<le> card Q" "\<And>i. i \<in> Q \<Longrightarrow> \<exists>e. record_Find (rec i) op = Some e \<and> re_result e = r"
      | Q where "Q \<subseteq> {0..<2 * int f + 1}" "f + 1 \<le> card Q" "\<And>i. i \<in> Q \<Longrightarrow> \<exists>e. record_Find (rec i) op = Some e \<and> re_state e = RECORD_STATE_FINALIZED"
      unfolding op_decided_def n FastQuorumSize_nat QuorumSize_def by force
    then show ?thesis
    proof cases
      case 1
      have "(f + 1) div 2 + 1 \<le> card (Q \<inter> set ids)" by (rule quorum_overlap [OF 1(1) S]) (use 1(2) in simp)
      with at_least [of Q "\<lambda>e. re_result e = r", OF 1(3)] show ?thesis by linarith
    next
      case 2
      have "1 \<le> card (Q \<inter> set ids)" by (rule quorum_overlap [OF 2(1) S 2(2)])
      with at_least [of Q "\<lambda>e. re_state e = RECORD_STATE_FINALIZED", OF 2(3)] have "filter (\<lambda>e. re_state e = RECORD_STATE_FINALIZED) (op_entries (map rec ids) op) \<noteq> []" by force
      then show ?thesis by (auto simp: filter_empty_conv)
    qed
  qed
  have cons: "\<forall>e \<in> set (op_entries (map rec ids) op). re_type e = RECORD_TYPE_CONSENSUS \<and> (re_state e = RECORD_STATE_FINALIZED \<longrightarrow> re_result e = r)"
    using c by (fastforce dest: op_entries_in)
  have fin: "(\<exists>e \<in> set (op_entries (map rec ids) op). re_state e = RECORD_STATE_FINALIZED) \<longleftrightarrow>
      (\<exists>i e'. i \<in> insert (ir_myIdx s) (fst ` set ms) \<and> record_Find (rec i) op = Some e' \<and> re_state e' = RECORD_STATE_FINALIZED)"
    unfolding op_entries_iff by (auto simp: ids_def)
  have "list_all record_wf (latest_records s ms)" "length (latest_records s ms) \<le> f + 1"
    by (simp_all add: L assms(4) list_all_iff \<open>length ids = f + 1\<close>)
  from merge_consensus [OF assms(1,2) n(2) this cons _ dec] show ?thesis unfolding fin L by blast
qed

text \<open>An application that answers every operation with \<^verbatim>\<open>ok\<close> and keeps majority results.\<close>

definition demo_app :: "unit IRAppReplica" where
  "demo_app = \<lparr>ia_ExecInconsistentUpcall = (\<lambda>a op. Inr a), ia_ExecConsensusUpcall = (\<lambda>a op. Inr (''ok'', a)),
     ia_UnloggedUpcall = (\<lambda>a op. Inr ([], a)), ia_Sync = (\<lambda>a r. Inr a),
     ia_Merge = (\<lambda>a d u maj. Inr (fold (\<lambda>(op, r) m. smap_put op r m) maj (fold (\<lambda>(op, es) m. smap_put op [] m) (d @ u) []), a))\<rparr>"

definition demo_request :: VRequest where
  "demo_request = \<lparr>vq_op = ''set'', vq_clientid = 7, vq_clientreqid = 1\<rparr>"

text \<open>Numbers in front of a string, for concrete encodings of requests and replies.\<close>

definition unary :: "nat \<Rightarrow> string \<Rightarrow> string" where
  "unary n key = replicate n CHR ''a'' @ CHR ''.'' # key"

lemma unary_simps [simp]:
  "takeWhile (\<lambda>c. c = CHR ''a'') (unary n key) = replicate n CHR ''a''"
  "dropWhile (\<lambda>c. c = CHR ''a'') (unary n key) = CHR ''.'' # key"
  by (induction n) (simp_all add: unary_def)

text \<open>Three replicas that have executed one operation in view 0; replica 1 leads the change to view 1 and
  has the record of replica 2.\<close>

definition demo_ir :: "int \<Rightarrow> unit IRReplica" where
  "demo_ir i = projr (IRReplica_new (\<lambda>x. (0, 0)) 3 1 i () None)"

definition demo_done_ir :: "int \<Rightarrow> unit IRReplica" where
  "demo_done_ir i = projr (ir_run demo_app [IMsg 44 (ProposeConsensusMessage demo_request)] (demo_ir i))"

definition demo_change :: "int \<times> IDoViewChangeMessage" where
  "demo_change = (2, \<lparr>iv_replicaIdx = 2, iv_record = Some (record_ToProto (ir_record (demo_done_ir 2))), iv_new_view = 1, iv_latest_normal_view = 0\<rparr>)"

lemma fold_smap_put_keys: "fst ` set (fold (\<lambda>(k, v) m. smap_put k v m) xs m) = fst ` set xs \<union> fst ` set m"
  by (induction xs arbitrary: m) (simp_all add: case_prod_beta fst_set_smap_put)

lemma fold_smap_put_at:
  "distinct (map fst xs) \<Longrightarrow> map_of (fold (\<lambda>(k, v) m. smap_put k v m) xs m) k = (case map_of xs k of None \<Rightarrow> map_of m k | Some v \<Rightarrow> Some v)"
proof (induction xs arbitrary: m)
  case (Cons x xs)
  moreover have "map_of xs (fst x) = None" using Cons.prems by (simp add: map_of_eq_None_iff)
  ultimately show ?case by (cases x) (auto split: option.split)
qed simp

lemma fold_smap_put_ascending: "ascending m \<Longrightarrow> ascending (fold (\<lambda>(k, v) m. smap_put k v m) xs m)"
  by (induction xs arbitrary: m) (auto simp: ascending_smap_put)

lemma demo_app_answers: "merge_answers demo_app"
proof -
  have m: "fold (\<lambda>(op, es) m. smap_put op [] m) xs m = fold (\<lambda>(k, v) m. smap_put k v m) (map (\<lambda>(op, es). (op, [])) xs) m" for xs :: opid_groups and m :: "(opid \<times> string) list"
    by (induction xs arbitrary: m) auto
  have k: "fst ` set maj = fst ` set d" if "map fst maj = map fst d" for maj :: "(opid \<times> string) list" and d :: opid_groups
    using that by (metis set_map)
  have i: "fst ` set (map (\<lambda>(op, es). (op, [])) xs) = fst ` set xs" for xs :: opid_groups by (force simp: image_image)
  show ?thesis
  proof (unfold merge_answers_def, intro allI impI)
    fix a d u maj results a' assume h: "distinct (map fst (d @ u)) \<and> map fst maj = map fst d \<and> ia_Merge demo_app a d u maj = Inr (results, a')"
    let ?e = "map (\<lambda>(op, es). (op, [])) (d @ u)"
    have res: "results = fold (\<lambda>(k, v) m. smap_put k v m) maj (fold (\<lambda>(k, v) m. smap_put k v m) ?e [])"
      using h by (simp add: demo_app_def m)
    have "ascending results" by (simp add: res fold_smap_put_ascending)
    moreover have "fst ` set results = fst ` set d \<union> fst ` set u"
      using k [of maj d] h unfolding res fold_smap_put_keys i by auto
    ultimately show "ascending results \<and> fst ` set results = fst ` set d \<union> fst ` set u" by blast
  qed
qed

lemma demo_app_keeps_majorities:
  assumes "ia_Merge demo_app a1 d u maj = Inr (results, a)" and "distinct (map fst maj)" and "map_of maj op = Some r"
  shows "map_of results op = Some r"
  using assms by (auto simp: demo_app_def fold_smap_put_at)

theorem ir_decided_results_survive_witness:
  "\<exists>R a e. IrMergeRecords demo_app (demo_done_ir 1) [demo_change] = Inr (R, a) \<and>
     record_Find R (7, 1) = Some e \<and> re_state e = RECORD_STATE_FINALIZED \<and> re_result e = ''ok''"
proof -
  let ?rec = "\<lambda>i. ir_record (demo_done_ir i)" and ?s = "demo_done_ir 1"
  obtain R a where m: "IrMergeRecords demo_app ?s [demo_change] = Inr (R, a)"
  proof -
    have "\<not> isl (IrMergeRecords demo_app ?s [demo_change])" by code_simp
    then show ?thesis using that by (cases "IrMergeRecords demo_app ?s [demo_change]") auto
  qed
  have rec: "?rec i = [((7, 1), \<lparr>re_view = 0, re_opid = (7, 1), re_state = RECORD_STATE_TENTATIVE, re_type = RECORD_TYPE_CONSENSUS,
      re_request = demo_request, re_result = ''ok''\<rparr>)]" for i
    by (simp add: demo_done_ir_def demo_ir_def IRReplica_new_def PersistViewInfo_def HandleProposeConsensus_def demo_app_def demo_request_def
        record_Find_def record_Add_result_eq ir_send_def Let_def)
  have c: "records_collected 1 ?s [demo_change] ?rec"
  proof -
    have "ir_n ?s = 3" "ir_f ?s = 1" "ir_myIdx ?s = 1" "ir_latest_normal_view ?s = 0" by code_simp+
    then show ?thesis by (simp add: records_collected_def demo_change_def)
  qed
  have wf: "record_wf (?rec i)" for i by (simp add: rec record_wf_def entry_wf_def demo_request_def)
  have fin: "\<not> (\<exists>i e'. i \<in> insert (ir_myIdx ?s) (fst ` set [demo_change]) \<and> record_Find (?rec i) (7, 1) = Some e' \<and>
      re_state e' = RECORD_STATE_FINALIZED)" by (auto simp: rec record_Find_def)
  have "op_decided (ir_n ?s) (int 1) ?rec (7, 1) ''ok''"
  proof -
    have "FastQuorumSize 1 = 3" by code_simp
    moreover have "ir_n ?s = 3" by code_simp
    ultimately have "{0..<3} \<subseteq> {0..<ir_n ?s} \<and> FastQuorumSize (int 1) \<le> int (card {0::int..<3})" by simp
    moreover have "\<forall>i \<in> {0..<3}. \<exists>e. record_Find (?rec i) (7, 1) = Some e \<and> re_result e = ''ok''" by (simp add: rec record_Find_def)
    ultimately show ?thesis unfolding op_decided_def by blast
  qed
  from ir_decided_results_survive [OF demo_app_answers m c wf _ this] fin
  obtain e a1 d u results where e: "record_Find R (7, 1) = Some e" "re_state e = RECORD_STATE_FINALIZED"
    "map_of (merge_majorities ?s [demo_change]) (7, 1) = Some ''ok''"
    "ia_Merge demo_app a1 d u (merge_majorities ?s [demo_change]) = Inr (results, a)" "map_of results (7, 1) = Some (re_result e)"
    by (auto simp: rec record_Find_def)
  have "distinct (map fst (merge_majorities ?s [demo_change]))" by code_simp
  from demo_app_keeps_majorities [OF e(4) this e(3)] e m show ?thesis by auto
qed

definition lost_before :: "int \<Rightarrow> unit IRReplica" where
  "lost_before i = projr (ir_run demo_app [ITimeout, IMsg 44 (ProposeConsensusMessage demo_request),
     IMsg 44 (FinalizeConsensusMessage (7, 1) ''ok'')] (demo_ir i))"




section \<open>Restart\<close>

lemma disk_send [simp]: "ir_disk (ir_send s d m) = ir_disk s"
  by (simp add: ir_send_def)

lemma disk_step: "ir_disk s = Some '''' \<Longrightarrow> after (\<lambda>t. ir_disk t = Some '''') (ir_step app s e)"
proof -
  assume d: "ir_disk s = Some ''''"
  have fold: "ir_disk (fold (\<lambda>i s. if i = ir_myIdx s \<or> i = l then s else ir_send s (VReplica i) m) xs t) = ir_disk t" for l m xs and t :: "'a IRReplica"
    by (induction xs arbitrary: t) simp_all
  have cast: "after (\<lambda>t. ir_disk t = Some '''') (BroadcastDoViewChangeMessages t)" if "ir_disk t = Some ''''" for t :: "'a IRReplica"
    using that unfolding BroadcastDoViewChangeMessages_def Let_def by (intro after_bindr_any) (simp add: fold)
  have dvc: "after (\<lambda>t. ir_disk t = Some '''') (HandleDoViewChange app s m)" for m
    using d by (auto simp: HandleDoViewChange_def Let_def PersistViewInfo_def split: option.split prod.split
        intro!: after_bindr [where P = "\<lambda>t. ir_disk t = Some ''''"] cast after_bindr_any [where r = "lift_ub x" for x]
          after_bindr_any [where r = "IrMergeRecords a t q" for a t q])
  show ?thesis
  proof (cases e)
    case (IMsg a m)
    then show ?thesis
      using d dvc by (cases m) (auto simp: HandleProposeInconsistent_def HandleFinalizeInconsistent_def HandleProposeConsensus_def
          HandleFinalizeConsensus_def HandleUnlogged_def HandleStartView_def PersistViewInfo_def Let_def
          split: option.split intro!: after_bindr_any)
  next
    case ITimeout
    then show ?thesis by (simp add: HandleViewChangeTimeout_def Let_def cast PersistViewInfo_def)
  qed
qed

text \<open>C40. A replica of inconsistent replication cannot be restarted: what it persists in its first run is
  always the empty string, because the call that serializes the view is the argument of an assertion,
  and reading an empty register ends the process. So the recovery protocol never runs.\<close>

theorem ir_restart_panics:
  assumes "IRReplica_new parse n f i a None = Inr s0" "ir_run app es s0 = Inr s"
  shows "IRReplica_new parse' n' f' i' a' (ir_disk s) = Inl VPanic"
proof -
  have "ir_disk s0 = Some ''''" using assms(1) by (auto simp: IRReplica_new_def Let_def PersistViewInfo_def)
  moreover have "ir_disk t = Some '''' \<Longrightarrow> ir_run app xs t = Inr u \<Longrightarrow> ir_disk u = Some ''''" for xs t u
  proof (induction xs arbitrary: t)
    case (Cons e xs)
    then obtain v where "ir_step app t e = Inr v" "ir_run app xs v = Inr u" by (auto simp: bindr_eq_Inr)
    moreover have "after (\<lambda>t. ir_disk t = Some '''') (ir_step app t e)" using Cons.prems(1) by (rule disk_step)
    ultimately show ?case using Cons.IH by (simp add: after_def)
  qed simp
  ultimately have "ir_disk s = Some ''''" using assms(2) by blast
  then show ?thesis by (simp add: IRReplica_new_def Let_def RecoverViewInfo_def register_Read_def)
qed

theorem ir_restart_panics_witness: "IRReplica_new (\<lambda>x. (0, 0)) 3 1 0 () (ir_disk (lost_before 0)) = Inl VPanic"
proof -
  have run: "ir_run demo_app [ITimeout, IMsg 44 (ProposeConsensusMessage demo_request), IMsg 44 (FinalizeConsensusMessage (7, 1) ''ok'')] (demo_ir 0) = Inr (lost_before 0)"
    unfolding lost_before_def by (rule sum.collapse(2) [symmetric]) code_simp
  have start: "IRReplica_new (\<lambda>x. (0, 0)) 3 1 0 () None = Inr (demo_ir 0)"
    unfolding demo_ir_def by (rule sum.collapse(2) [symmetric]) code_simp
  show ?thesis by (rule ir_restart_panics [OF start run])
qed

end
