(* ===== verification/IRClients.thy ===== *)
theory IRClients
  imports IRMerge VRClients
begin

text \<open>
  src/replication/ir/client.h and client.cc: the client of inconsistent replication.

  \<^item> The three classes of pending requests are one record with a variant part (\<open>ip_kind\<close>). A request lives
    exactly as long as it is in \<^verbatim>\<open>pendingReqs\<close>, and its timers with it.
  \<^item> A timer is the callback it was created with and whether it is armed; it fires again and again. The
    timer that leaves the fast path is armed until it is deleted. \<^verbatim>\<open>TransitionToConsensusSlowPath\<close>, its
    callback, deletes the timer it is called from; the callback reads nothing of the timer afterwards,
    and the deletion is the flag being cleared.
  \<^item> The function that decides among results is an argument of the operation; it may fail.
  \<^item> The continuations are code of the application; \<open>ik_outcomes\<close> records their calls. One that starts
    another operation does so after the handler.
  \<^item> Each event sends at most one message; whether that succeeds is an argument.
\<close>

section \<open>State\<close>

type_synonym decide_t = "(string \<times> nat) list \<Rightarrow> vr_err + string"

record PendingConsensusRequest =
  pk_consensusReplyQuorum :: "(u64, ReplyConsensusMessage) QuorumSet"
  pk_decide :: decide_t
  pk_decideResult :: string
  pk_quorumSize :: int
  pk_superQuorumSize :: int
  pk_on_slow_path :: bool
  pk_has_error :: bool
  pk_transition_timer :: bool
  pk_reply_consensus_view :: u64
  pk_sent_confirms :: bool

datatype ip_kind =
    PendingUnlogged bool
  | PendingInconsistent "(viewstamp, ReplyInconsistentMessage) QuorumSet"
  | PendingConsensus PendingConsensusRequest

datatype ip_callback =
    OnResendInconsistent
  | OnResendConsensus
  | OnResendConfirmation bool
  | OnUnloggedTimeout

record IRPendingRequest =
  ip_request :: string
  ip_clientReqId :: u64
  ip_continuationInvoked :: bool
  ip_timer :: "ip_callback \<times> bool"
  ip_confirmQuorum :: "(viewstamp, ConfirmMessage) QuorumSet"
  ip_kind :: ip_kind

record IRClient =
  ik_clientid :: u64
  ik_f :: int
  ik_lastReqId :: u64
  ik_pendingReqs :: "u64 \<rightharpoonup> IRPendingRequest"
  ik_sent :: "(vr_dest \<times> ir_msg) list"
  ik_outcomes :: "(u64 \<times> vc_outcome) list"

definition IRClient_new :: "u64 \<Rightarrow> int \<Rightarrow> IRClient" where
  "IRClient_new clientid f =
     \<lparr>ik_clientid = clientid, ik_f = f, ik_lastReqId = 0, ik_pendingReqs = Map.empty, ik_sent = [], ik_outcomes = []\<rparr>"

definition PendingRequest_new :: "string \<Rightarrow> u64 \<Rightarrow> ip_callback \<Rightarrow> int \<Rightarrow> ip_kind \<Rightarrow> IRPendingRequest" where
  "PendingRequest_new request reqId cb quorumSize kind =
     \<lparr>ip_request = request, ip_clientReqId = reqId, ip_continuationInvoked = False, ip_timer = (cb, False),
      ip_confirmQuorum = QuorumSet_new quorumSize, ip_kind = kind\<rparr>"

definition ik_put :: "IRClient \<Rightarrow> IRPendingRequest \<Rightarrow> IRClient" where
  "ik_put c req = c\<lparr>ik_pendingReqs := (ik_pendingReqs c)(ip_clientReqId req \<mapsto> req)\<rparr>"

definition ik_drop :: "IRClient \<Rightarrow> u64 \<Rightarrow> IRClient" where
  "ik_drop c reqId = c\<lparr>ik_pendingReqs := (ik_pendingReqs c)(reqId := None)\<rparr>"

definition ik_send :: "IRClient \<Rightarrow> vr_dest \<Rightarrow> ir_msg \<Rightarrow> IRClient" where
  "ik_send c d m = c\<lparr>ik_sent := ik_sent c @ [(d, m)]\<rparr>"

definition ik_outcome :: "IRClient \<Rightarrow> u64 \<Rightarrow> vc_outcome \<Rightarrow> IRClient" where
  "ik_outcome c reqId r = c\<lparr>ik_outcomes := ik_outcomes c @ [(reqId, r)]\<rparr>"

definition timer_on :: "IRPendingRequest \<Rightarrow> IRPendingRequest" where
  "timer_on req = req\<lparr>ip_timer := (fst (ip_timer req), True)\<rparr>"

definition ik_message :: "IRClient \<Rightarrow> IRPendingRequest \<Rightarrow> VRequest" where
  "ik_message c req = \<lparr>vq_op = ip_request req, vq_clientid = ik_clientid c, vq_clientreqid = ip_clientReqId req\<rparr>"

section \<open>Requests\<close>

text \<open>A send followed by a restart of the timer, or by the end of the request.\<close>

definition send_or_drop :: "IRClient \<Rightarrow> IRPendingRequest \<Rightarrow> ir_msg \<Rightarrow> bool \<Rightarrow> IRClient" where
  "send_or_drop c req m ok =
     (if ok then ik_put (ik_send c VAll m) (timer_on req) else ik_drop c (ip_clientReqId req))"

definition SendInconsistent :: "IRClient \<Rightarrow> IRPendingRequest \<Rightarrow> bool \<Rightarrow> IRClient" where
  "SendInconsistent c req ok = send_or_drop c req (ProposeInconsistentMessage (ik_message c req)) ok"

definition SendConsensus :: "IRClient \<Rightarrow> IRPendingRequest \<Rightarrow> bool \<Rightarrow> IRClient" where
  "SendConsensus c req ok = send_or_drop c req (ProposeConsensusMessage (ik_message c req)) ok"

definition InvokeInconsistent :: "IRClient \<Rightarrow> string \<Rightarrow> bool \<Rightarrow> IRClient" where
  "InvokeInconsistent c request ok =
     (let reqId = ik_lastReqId c + 1; c = c\<lparr>ik_lastReqId := reqId\<rparr>;
          req = PendingRequest_new request reqId OnResendInconsistent (QuorumSize (ik_f c))
                  (PendingInconsistent (QuorumSet_new (QuorumSize (ik_f c))))
      in SendInconsistent (ik_put c req) req ok)"

definition ik_Invoke :: "IRClient \<Rightarrow> string \<Rightarrow> bool \<Rightarrow> IRClient" where
  "ik_Invoke c request ok = InvokeInconsistent c request ok"

definition InvokeConsensus :: "IRClient \<Rightarrow> string \<Rightarrow> decide_t \<Rightarrow> bool \<Rightarrow> bool \<Rightarrow> IRClient" where
  "InvokeConsensus c request decide has_error ok =
     (let reqId = ik_lastReqId c + 1; c = c\<lparr>ik_lastReqId := reqId\<rparr>;
          k = \<lparr>pk_consensusReplyQuorum = QuorumSet_new (QuorumSize (ik_f c)), pk_decide = decide, pk_decideResult = '''',
               pk_quorumSize = QuorumSize (ik_f c), pk_superQuorumSize = FastQuorumSize (ik_f c), pk_on_slow_path = False,
               pk_has_error = has_error, pk_transition_timer = True, pk_reply_consensus_view = 0, pk_sent_confirms = False\<rparr>;
          req = PendingRequest_new request reqId OnResendConsensus (QuorumSize (ik_f c)) (PendingConsensus k)
      in SendConsensus (ik_put c req) req ok)"

definition ik_InvokeUnlogged :: "IRClient \<Rightarrow> int \<Rightarrow> string \<Rightarrow> bool \<Rightarrow> bool \<Rightarrow> IRClient" where
  "ik_InvokeUnlogged c replicaIdx request has_error ok =
     (let reqId = ik_lastReqId c + 1; c = c\<lparr>ik_lastReqId := reqId\<rparr>;
          req = PendingRequest_new request reqId OnUnloggedTimeout 1 (PendingUnlogged has_error)
      in if ok then ik_put (ik_send c (VReplica replicaIdx) (IUnloggedRequestMessage (ik_message c req))) (timer_on req) else c)"

text \<open>The callbacks look the request up with \<^verbatim>\<open>operator[]\<close>, which creates a null pointer.\<close>

definition ResendInconsistent :: "IRClient \<Rightarrow> u64 \<Rightarrow> bool \<Rightarrow> vr_err + IRClient" where
  "ResendInconsistent c reqId ok = (case ik_pendingReqs c reqId of
     None \<Rightarrow> Inl (VUB NullDeref) | Some req \<Rightarrow> Inr (SendInconsistent c req ok))"

definition ResendConsensus :: "IRClient \<Rightarrow> u64 \<Rightarrow> bool \<Rightarrow> vr_err + IRClient" where
  "ResendConsensus c reqId ok = (case ik_pendingReqs c reqId of
     None \<Rightarrow> Inl (VUB NullDeref) | Some req \<Rightarrow> Inr (SendConsensus c req ok))"

section \<open>Consensus\<close>

definition reply_counts :: "(int \<times> ReplyConsensusMessage) list \<Rightarrow> (string \<times> nat) list" where
  "reply_counts msgs = tally (map (\<lambda>(i, m). rk_result m) msgs)"

text \<open>The view of the replies: the first that is not zero.\<close>

definition replies_view :: "(int \<times> ReplyConsensusMessage) list \<Rightarrow> u64" where
  "replies_view msgs = fold (\<lambda>(i, m) view. if view = 0 then rk_view m else view) msgs 0"

definition finalize_message :: "IRClient \<Rightarrow> u64 \<Rightarrow> string \<Rightarrow> ir_msg" where
  "finalize_message c reqid result = FinalizeConsensusMessage (ik_clientid c, reqid) result"

definition HandleSlowPathConsensus ::
  "IRClient \<Rightarrow> u64 \<Rightarrow> (int \<times> ReplyConsensusMessage) list \<Rightarrow> bool \<Rightarrow> IRPendingRequest \<Rightarrow> PendingConsensusRequest \<Rightarrow> bool \<Rightarrow>
   vr_err + IRClient" where
  "HandleSlowPathConsensus c reqid msgs finalized_result_found req k ok =
     bindr (if finalized_result_found then Inr k
            else bindr (pk_decide k (reply_counts msgs)) (\<lambda>r.
              Inr (k\<lparr>pk_decideResult := r, pk_reply_consensus_view := replies_view msgs\<rparr>)))
       (\<lambda>k. Inr (send_or_drop c
          (req\<lparr>ip_timer := (OnResendConfirmation True, False), ip_kind := PendingConsensus (k\<lparr>pk_sent_confirms := True\<rparr>)\<rparr>)
          (finalize_message c reqid (pk_decideResult k)) ok))"

text \<open>If the message cannot be sent the request is deleted, and then read.\<close>

definition HandleFastPathConsensus ::
  "IRClient \<Rightarrow> u64 \<Rightarrow> (int \<times> ReplyConsensusMessage) list \<Rightarrow> IRPendingRequest \<Rightarrow> PendingConsensusRequest \<Rightarrow> bool \<Rightarrow> vr_err + IRClient" where
  "HandleFastPathConsensus c reqid msgs req k ok =
     (case find (\<lambda>r. \<not> int (snd r) < pk_superQuorumSize k) (reply_counts msgs) of
        Some (result, n) \<Rightarrow>
          if \<not> ok then Inl (VUB UseAfterFree)
          else
            let k = k\<lparr>pk_decideResult := result, pk_sent_confirms := True\<rparr>;
                req = timer_on (req\<lparr>ip_timer := (OnResendConfirmation True, False), ip_kind := PendingConsensus k\<rparr>);
                c = ik_send c VAll (finalize_message c reqid result)
            in Inr (if ip_continuationInvoked req then ik_put c req
                    else ik_put (ik_outcome c reqid (VReplied (ip_request req) result)) (req\<lparr>ip_continuationInvoked := True\<rparr>))
      | None \<Rightarrow> HandleSlowPathConsensus c reqid msgs False req (k\<lparr>pk_on_slow_path := True, pk_transition_timer := False\<rparr>) ok)"

definition TransitionToConsensusSlowPath :: "IRClient \<Rightarrow> u64 \<Rightarrow> bool \<Rightarrow> vr_err + IRClient" where
  "TransitionToConsensusSlowPath c reqId ok =
     (case ik_pendingReqs c reqId of
        None \<Rightarrow> Inl (VUB NullDeref)
      | Some req \<Rightarrow>
          (case ip_kind req of
             PendingConsensus k \<Rightarrow>
               let k = k\<lparr>pk_on_slow_path := True, pk_transition_timer := False\<rparr> in
               (case CheckForQuorum_any (pk_consensusReplyQuorum k) of
                  None \<Rightarrow> Inr (ik_put c (req\<lparr>ip_kind := PendingConsensus k\<rparr>))
                | Some quorum \<Rightarrow> HandleSlowPathConsensus c reqId quorum False req k ok)
           | _ \<Rightarrow> Inl (VUB NullDeref)))"

definition HandleConsensusReply :: "IRClient \<Rightarrow> ReplyConsensusMessage \<Rightarrow> bool \<Rightarrow> vr_err + IRClient" where
  "HandleConsensusReply c msg ok =
     (let reqId = snd (rk_opid msg) in
      case ik_pendingReqs c reqId of
        None \<Rightarrow> Inr c
      | Some req \<Rightarrow>
          (case ip_kind req of
             PendingConsensus k \<Rightarrow>
               if pk_sent_confirms k then Inr c
               else
                 let (msgs, q) = GetMessages (qs_Add (pk_consensusReplyQuorum k) (rk_view msg) (rk_replicaIdx msg) msg) (rk_view msg);
                     k = k\<lparr>pk_consensusReplyQuorum := q\<rparr>
                 in if rk_finalized msg then
                      HandleSlowPathConsensus c reqId msgs True req
                        (k\<lparr>pk_on_slow_path := True, pk_transition_timer := False, pk_decideResult := rk_result msg,
                           pk_reply_consensus_view := rk_view msg\<rparr>) ok
                    else if pk_on_slow_path k \<and> int (length msgs) \<ge> pk_quorumSize k then
                      HandleSlowPathConsensus c reqId msgs False req k ok
                    else if \<not> pk_on_slow_path k \<and> int (length msgs) \<ge> pk_superQuorumSize k then
                      HandleFastPathConsensus c reqId msgs req k ok
                    else Inr (ik_put c (req\<lparr>ip_kind := PendingConsensus k\<rparr>))
           | _ \<Rightarrow> Inl (VUB NullDeref)))"

section \<open>Inconsistent operations, confirmations and unlogged requests\<close>

definition ResendConfirmation :: "IRClient \<Rightarrow> u64 \<Rightarrow> bool \<Rightarrow> bool \<Rightarrow> vr_err + IRClient" where
  "ResendConfirmation c reqId isConsensus ok =
     (case ik_pendingReqs c reqId of
        None \<Rightarrow> Inr c
      | Some req \<Rightarrow>
          if isConsensus then
            (case ip_kind req of
               PendingConsensus k \<Rightarrow> Inr (send_or_drop c req (finalize_message c (ip_clientReqId req) (pk_decideResult k)) ok)
             | _ \<Rightarrow> Inl (VUB OutOfBounds))
          else Inr (send_or_drop c req (FinalizeInconsistentMessage (ik_clientid c, ip_clientReqId req)) ok))"

definition HandleInconsistentReply :: "IRClient \<Rightarrow> ReplyInconsistentMessage \<Rightarrow> bool \<Rightarrow> vr_err + IRClient" where
  "HandleInconsistentReply c msg ok =
     (let reqId = snd (ri_opid msg) in
      case ik_pendingReqs c reqId of
        None \<Rightarrow> Inr c
      | Some req \<Rightarrow>
          (case ip_kind req of
             PendingInconsistent q \<Rightarrow>
               (case AddAndCheckForQuorum q (Viewstamp (ri_view msg) reqId) (ri_replicaIdx msg) msg of
                  (quorum, q) \<Rightarrow>
                    let req = req\<lparr>ip_kind := PendingInconsistent q\<rparr> in
                    Inr (if quorum = None \<or> ip_continuationInvoked req then ik_put c req
                         else
                           let req = req\<lparr>ip_timer := (OnResendConfirmation False, ok), ip_continuationInvoked := True\<rparr>;
                               c = (if ok then ik_send c VAll (FinalizeInconsistentMessage (ri_opid msg)) else c)
                           in ik_put (ik_outcome c reqId (VReplied (ip_request req) '''')) req))
           | _ \<Rightarrow> Inl (VUB NullDeref)))"

definition HandleConfirm :: "IRClient \<Rightarrow> ConfirmMessage \<Rightarrow> vr_err + IRClient" where
  "HandleConfirm c msg =
     (let reqId = snd (ic_opid msg) in
      case ik_pendingReqs c reqId of
        None \<Rightarrow> Inr c
      | Some req \<Rightarrow>
          (case AddAndCheckForQuorum (ip_confirmQuorum req) (Viewstamp (ic_view msg) reqId) (ic_replicaIdx msg) msg of
             (None, q) \<Rightarrow> Inr (ik_put c (req\<lparr>ip_confirmQuorum := q\<rparr>))
           | (Some quorum, q) \<Rightarrow>
               let c = ik_drop c reqId in
               if ip_continuationInvoked req then Inr c
               else
                 (case ip_kind req of
                    PendingConsensus k \<Rightarrow>
                      Inr (if ic_view msg = pk_reply_consensus_view k
                           then ik_outcome c reqId (VReplied (ip_request req) (pk_decideResult k))
                           else if pk_has_error k then ik_outcome c reqId (VFailed (ip_request req) VMISMATCHED_CONSENSUS_VIEWS)
                           else c)
                  | _ \<Rightarrow> Inl (VUB NullDeref))))"

definition ik_HandleUnloggedReply :: "IRClient \<Rightarrow> string \<Rightarrow> u64 \<Rightarrow> IRClient" where
  "ik_HandleUnloggedReply c reply reqId =
     (case ik_pendingReqs c reqId of
        None \<Rightarrow> c
      | Some req \<Rightarrow> ik_outcome (ik_drop c reqId) reqId (VReplied (ip_request req) reply))"

definition ik_UnloggedRequestTimeoutCallback :: "IRClient \<Rightarrow> u64 \<Rightarrow> vr_err + IRClient" where
  "ik_UnloggedRequestTimeoutCallback c reqId =
     (case ik_pendingReqs c reqId of
        None \<Rightarrow> Inr c
      | Some req \<Rightarrow>
          (case ip_kind req of
             PendingUnlogged has_error \<Rightarrow>
               Inr (if has_error then ik_outcome (ik_drop c reqId) reqId (VFailed (ip_request req) VTIMEOUT) else ik_drop c reqId)
           | _ \<Rightarrow> Inl (VUB OutOfBounds)))"

fun ik_ReceiveMessage :: "IRClient \<Rightarrow> ir_msg \<Rightarrow> bool \<Rightarrow> vr_err + IRClient" where
  "ik_ReceiveMessage c (ReplyInconsistentMessage m) ok = HandleInconsistentReply c m ok"
| "ik_ReceiveMessage c (ReplyConsensusMessage m) ok = HandleConsensusReply c m ok"
| "ik_ReceiveMessage c (ConfirmMessage m) ok = HandleConfirm c m"
| "ik_ReceiveMessage c (IUnloggedReplyMessage reply reqId) ok = Inr (ik_HandleUnloggedReply c reply reqId)"
| "ik_ReceiveMessage c m ok = Inl VPanic"

section \<open>Histories\<close>

datatype ik_event =
    KInvoke string bool
  | KInvokeConsensus string decide_t bool bool
  | KInvokeUnlogged int string bool bool
  | KReceive ir_msg bool
  | KTimer u64 bool
  | KTransition u64 bool

fun run_callback :: "IRClient \<Rightarrow> u64 \<Rightarrow> ip_callback \<Rightarrow> bool \<Rightarrow> vr_err + IRClient" where
  "run_callback c reqId OnResendInconsistent ok = ResendInconsistent c reqId ok"
| "run_callback c reqId OnResendConsensus ok = ResendConsensus c reqId ok"
| "run_callback c reqId (OnResendConfirmation isConsensus) ok = ResendConfirmation c reqId isConsensus ok"
| "run_callback c reqId OnUnloggedTimeout ok = ik_UnloggedRequestTimeoutCallback c reqId"

fun transition_armed :: "IRPendingRequest \<Rightarrow> bool" where
  "transition_armed req = (case ip_kind req of PendingConsensus k \<Rightarrow> pk_transition_timer k | _ \<Rightarrow> False)"

fun ik_step :: "IRClient \<Rightarrow> ik_event \<Rightarrow> vr_err + IRClient" where
  "ik_step c (KInvoke request ok) = Inr (ik_Invoke c request ok)"
| "ik_step c (KInvokeConsensus request decide has_error ok) = Inr (InvokeConsensus c request decide has_error ok)"
| "ik_step c (KInvokeUnlogged i request has_error ok) = Inr (ik_InvokeUnlogged c i request has_error ok)"
| "ik_step c (KReceive m ok) = ik_ReceiveMessage c m ok"
| "ik_step c (KTimer reqId ok) =
     (case ik_pendingReqs c reqId of
        None \<Rightarrow> Inr c
      | Some req \<Rightarrow> if snd (ip_timer req) then run_callback c reqId (fst (ip_timer req)) ok else Inr c)"
| "ik_step c (KTransition reqId ok) =
     (case ik_pendingReqs c reqId of
        None \<Rightarrow> Inr c
      | Some req \<Rightarrow> if transition_armed req then TransitionToConsensusSlowPath c reqId ok else Inr c)"

primrec ik_run :: "ik_event list \<Rightarrow> IRClient \<Rightarrow> vr_err + IRClient" where
  "ik_run [] c = Inr c"
| "ik_run (e # es) c = bindr (ik_step c e) (ik_run es)"

end
