(* ===== verification/IRClientSafety.thy ===== *)
theory IRClientSafety
  imports IRClients
begin

text \<open>
  What the client of inconsistent replication promises. An invariant over its histories ties each pending
  request to the messages the client has sent for it and to the replies and confirmations it has
  received; from it follow that results are backed by quorums of replicas, and that the client is
  defined while its sends succeed. Two failures: the request that is read after it was deleted, and the
  result that is replaced after it was returned.
\<close>

section \<open>Answers\<close>

text \<open>Which messages answer a message, and that a replica sends nothing else to a client.\<close>

fun answers_to :: "ir_msg \<Rightarrow> ir_msg \<Rightarrow> bool" where
  "answers_to (ProposeInconsistentMessage q) a =
     (case a of ReplyInconsistentMessage m \<Rightarrow> ri_opid m = (vq_clientid q, vq_clientreqid q) | _ \<Rightarrow> False)"
| "answers_to (ProposeConsensusMessage q) a =
     (case a of ReplyConsensusMessage m \<Rightarrow> rk_opid m = (vq_clientid q, vq_clientreqid q) | _ \<Rightarrow> False)"
| "answers_to (FinalizeInconsistentMessage op) a = (case a of ConfirmMessage m \<Rightarrow> ic_opid m = op | _ \<Rightarrow> False)"
| "answers_to (FinalizeConsensusMessage op r) a = (case a of ConfirmMessage m \<Rightarrow> ic_opid m = op | _ \<Rightarrow> False)"
| "answers_to (IUnloggedRequestMessage q) a = (case a of IUnloggedReplyMessage r i \<Rightarrow> i = vq_clientreqid q | _ \<Rightarrow> False)"
| "answers_to _ a = False"

definition to_clients :: "'a IRReplica \<Rightarrow> (vaddr \<times> ir_msg) list" where
  "to_clients s = [(b, m). (VAddr b, m) \<leftarrow> ir_sent s]"

lemma to_clients_send [simp]:
  "to_clients (ir_send s (VReplica i) m) = to_clients s" "to_clients (ir_send s VAll m) = to_clients s"
  "to_clients (ir_send s (VAddr b) m) = to_clients s @ [(b, m)]"
  by (simp_all add: to_clients_def ir_send_def)

lemma to_clients_update [simp]:
  "to_clients (s\<lparr>ir_record := x1\<rparr>) = to_clients s" "to_clients (s\<lparr>ir_app := x2\<rparr>) = to_clients s"
  "to_clients (s\<lparr>ir_status := x3\<rparr>) = to_clients s" "to_clients (s\<lparr>ir_view := x4\<rparr>) = to_clients s"
  "to_clients (s\<lparr>ir_latest_normal_view := x5\<rparr>) = to_clients s" "to_clients (s\<lparr>ir_quorum := x6\<rparr>) = to_clients s"
  "to_clients (PersistViewInfo s) = to_clients s"
  by (simp_all add: to_clients_def PersistViewInfo_def)

lemma broadcast_to_clients: "after (\<lambda>t. to_clients t = to_clients s) (BroadcastDoViewChangeMessages s)"
proof -
  have fold: "to_clients (fold (\<lambda>i s. if i = ir_myIdx s \<or> i = l then s else ir_send s (VReplica i) m) xs t) = to_clients t" for l m xs t
    by (induction xs arbitrary: t) simp_all
  show ?thesis unfolding BroadcastDoViewChangeMessages_def Let_def by (intro after_bindr_any) (simp add: fold)
qed

lemma DoViewChange_to_clients: "after (\<lambda>t. to_clients t = to_clients s) (HandleDoViewChange app s m)"
proof -
  have cast: "after (\<lambda>t. to_clients t = to_clients s) (BroadcastDoViewChangeMessages t)" if "to_clients t = to_clients s" for t
    using broadcast_to_clients [of t] that by simp
  show ?thesis
    by (auto simp: HandleDoViewChange_def Let_def split: option.split prod.split
      intro!: after_bindr [where P = "\<lambda>t. to_clients t = to_clients s"] cast after_bindr_any [where r = "lift_ub x" for x]
        after_bindr_any [where r = "IrMergeRecords a t q" for a t q])
qed

lemma after_mono: "after P r \<Longrightarrow> (\<And>s. P s \<Longrightarrow> Q s) \<Longrightarrow> after Q r"
  by (simp add: after_def)

lemma replica_answers:
  assumes "ir_step app s (IMsg from m) = Inr s'"
  shows "\<exists>new. to_clients s' = to_clients s @ new \<and> (\<forall>(b, a) \<in> set new. b = from \<and> answers_to m a)"
proof -
  have "after (\<lambda>s'. \<exists>new. to_clients s' = to_clients s @ new \<and> (\<forall>(b, a) \<in> set new. b = from \<and> answers_to m a)) (ir_step app s (IMsg from m))"
    by (cases m) (auto simp: HandleProposeInconsistent_def HandleFinalizeInconsistent_def HandleProposeConsensus_def
        HandleFinalizeConsensus_def HandleUnlogged_def HandleStartView_def Let_def
        split: option.split intro!: after_bindr_any after_mono [OF DoViewChange_to_clients])
  with assms show ?thesis by (simp add: after_def)
qed

section \<open>What the client has ik_heard\<close>

definition ik_heard :: "ik_event set \<Rightarrow> ir_msg \<Rightarrow> bool" where
  "ik_heard E m \<longleftrightarrow> (\<exists>ok. KReceive m ok \<in> E)"

text \<open>Replicas that gave a result in a view, and replicas that confirmed in a view.\<close>

definition repliers :: "ik_event set \<Rightarrow> opid \<Rightarrow> u64 \<Rightarrow> string \<Rightarrow> int set" where
  "repliers E op v r = {rk_replicaIdx m |m. ik_heard E (ReplyConsensusMessage m) \<and> rk_opid m = op \<and> rk_view m = v \<and> rk_result m = r}"

definition confirmers :: "ik_event set \<Rightarrow> opid \<Rightarrow> u64 \<Rightarrow> int set" where
  "confirmers E op v = {ic_replicaIdx m |m. ik_heard E (ConfirmMessage m) \<and> ic_opid m = op \<and> ic_view m = v}"

text \<open>Replies of different replicas in one view.\<close>

definition replies_heard :: "ik_event set \<Rightarrow> opid \<Rightarrow> u64 \<Rightarrow> (int \<times> ReplyConsensusMessage) list \<Rightarrow> bool" where
  "replies_heard E op v msgs \<longleftrightarrow> distinct (map fst msgs) \<and>
     (\<forall>(i, m) \<in> set msgs. ik_heard E (ReplyConsensusMessage m) \<and> rk_opid m = op \<and> rk_view m = v \<and> rk_replicaIdx m = i)"

definition finalized_heard :: "ik_event set \<Rightarrow> opid \<Rightarrow> u64 \<Rightarrow> string \<Rightarrow> bool" where
  "finalized_heard E op v r \<longleftrightarrow>
     (\<exists>m. ik_heard E (ReplyConsensusMessage m) \<and> rk_opid m = op \<and> rk_view m = v \<and> rk_finalized m \<and> rk_result m = r)"

definition decided_heard :: "ik_event set \<Rightarrow> int \<Rightarrow> opid \<Rightarrow> string \<Rightarrow> u64 \<Rightarrow> string \<Rightarrow> bool" where
  "decided_heard E f op request v r \<longleftrightarrow>
     (\<exists>msgs decide has_error ok. replies_heard E op v msgs \<and> f + 1 \<le> int (length msgs) \<and>
        KInvokeConsensus request decide has_error ok \<in> E \<and> decide (reply_counts msgs) = Inr r)"

text \<open>The evidence for a result: a fast quorum with that result; or a quorum of confirmations in the view
  in which the result was found finalized or decided from a quorum of replies.\<close>

definition consensus_backed :: "ik_event set \<Rightarrow> int \<Rightarrow> opid \<Rightarrow> string \<Rightarrow> string \<Rightarrow> bool" where
  "consensus_backed E f op request r \<longleftrightarrow>
     (\<exists>v. FastQuorumSize f \<le> int (card (repliers E op v r))) \<or>
     (\<exists>v. f + 1 \<le> int (card (confirmers E op v)) \<and> (finalized_heard E op v r \<or> decided_heard E f op request v r))"

lemma finite_heard: "finite E \<Longrightarrow> finite {m. ik_heard E m}"
proof -
  assume "finite E"
  then have "finite ((\<lambda>e. case e of KReceive m ok \<Rightarrow> m | _ \<Rightarrow> IUnloggedReplyMessage [] 0) ` E)" by simp
  moreover have "{m. ik_heard E m} \<subseteq> (\<lambda>e. case e of KReceive m ok \<Rightarrow> m | _ \<Rightarrow> IUnloggedReplyMessage [] 0) ` E"
    by (force simp: ik_heard_def)
  ultimately show ?thesis by (rule finite_subset [rotated])
qed

lemma finite_repliers: "finite E \<Longrightarrow> finite (repliers E op v r)"
proof -
  assume "finite E"
  then have "finite ((\<lambda>x. case x of ReplyConsensusMessage m \<Rightarrow> rk_replicaIdx m | _ \<Rightarrow> 0) ` {m. ik_heard E m})" by (simp add: finite_heard)
  moreover have "repliers E op v r \<subseteq> (\<lambda>x. case x of ReplyConsensusMessage m \<Rightarrow> rk_replicaIdx m | _ \<Rightarrow> 0) ` {m. ik_heard E m}"
    by (force simp: repliers_def)
  ultimately show ?thesis by (rule finite_subset [rotated])
qed

lemma finite_confirmers: "finite E \<Longrightarrow> finite (confirmers E op v)"
proof -
  assume "finite E"
  then have "finite ((\<lambda>x. case x of ConfirmMessage m \<Rightarrow> ic_replicaIdx m | _ \<Rightarrow> 0) ` {m. ik_heard E m})" by (simp add: finite_heard)
  moreover have "confirmers E op v \<subseteq> (\<lambda>x. case x of ConfirmMessage m \<Rightarrow> ic_replicaIdx m | _ \<Rightarrow> 0) ` {m. ik_heard E m}"
    by (force simp: confirmers_def)
  ultimately show ?thesis by (rule finite_subset [rotated])
qed

lemma ik_heard_mono: "ik_heard E m \<Longrightarrow> E \<subseteq> E' \<Longrightarrow> ik_heard E' m"
  by (auto simp: ik_heard_def)

lemma replies_heard_mono: "replies_heard E op v msgs \<Longrightarrow> E \<subseteq> E' \<Longrightarrow> replies_heard E' op v msgs"
  using ik_heard_mono [of E _ E'] by (auto simp: replies_heard_def)

lemma evidence_heard_mono:
  assumes "E \<subseteq> E'"
  shows "finalized_heard E op v r \<Longrightarrow> finalized_heard E' op v r"
    and "decided_heard E f op q v r \<Longrightarrow> decided_heard E' f op q v r"
proof -
  show "finalized_heard E op v r \<Longrightarrow> finalized_heard E' op v r"
    unfolding finalized_heard_def using ik_heard_mono [OF _ assms] by blast
  show "decided_heard E f op q v r \<Longrightarrow> decided_heard E' f op q v r"
    unfolding decided_heard_def using replies_heard_mono [OF _ assms] assms by blast
qed

lemma consensus_backed_mono:
  assumes "consensus_backed E f op q r" "E \<subseteq> E'" "finite E'"
  shows "consensus_backed E' f op q r"
proof -
  have "repliers E op v r \<subseteq> repliers E' op v r" "confirmers E op v \<subseteq> confirmers E' op v" for v
    unfolding repliers_def confirmers_def using ik_heard_mono [OF _ assms(2)] by blast+
  then have "card (repliers E op v r) \<le> card (repliers E' op v r)" "card (confirmers E op v) \<le> card (confirmers E' op v)" for v
    by (simp_all add: card_mono finite_repliers finite_confirmers assms(3))
  then show ?thesis
    using assms(1) evidence_heard_mono [OF assms(2)] unfolding consensus_backed_def by (meson dual_order.trans of_nat_mono)
qed

text \<open>Counting replies.\<close>

lemma reply_count_repliers:
  assumes "replies_heard E op v msgs" "finite E" "(r, n) \<in> set (reply_counts msgs)"
  shows "n \<le> card (repliers E op v r)"
proof -
  have "map_of (reply_counts msgs) r = Some n"
    using assms(3) ascending_distinct [OF ascending_tally] by (simp add: reply_counts_def map_of_eq_Some_iff)
  then have n: "n = length (filter (\<lambda>(i, m). rk_result m = r) msgs)"
    by (auto simp: reply_counts_def map_of_tally count_list_map Let_def case_prod_unfold split: if_splits)
  let ?ms = "filter (\<lambda>(i, m). rk_result m = r) msgs"
  have "distinct (map fst ?ms)" using assms(1) by (simp add: replies_heard_def distinct_map_filter)
  then have "n = card (fst ` set ?ms)" using distinct_card [of "map fst ?ms"] by (simp add: n)
  also have "\<dots> \<le> card (repliers E op v r)"
    by (rule card_mono [OF finite_repliers [OF assms(2)]]) (use assms(1) in \<open>fastforce simp: replies_heard_def repliers_def\<close>)
  finally show ?thesis .
qed

lemma replies_view_eq:
  assumes "replies_heard E op v msgs" "msgs \<noteq> []"
  shows "replies_view msgs = v"
proof -
  have "\<forall>(i, m) \<in> set msgs. rk_view m = v" using assms(1) by (auto simp: replies_heard_def)
  then have "fold (\<lambda>(i, m) view. if view = 0 then rk_view m else view) msgs x = (if msgs = [] then x else if x = 0 then v else x)" for x
    by (induction msgs arbitrary: x) (auto split: if_splits)
  then show ?thesis using assms(2) by (simp add: replies_view_def)
qed

section \<open>The invariant of the client\<close>

definition is_consensus :: "IRPendingRequest \<Rightarrow> bool" where
  "is_consensus req \<longleftrightarrow> (case ip_kind req of PendingConsensus k \<Rightarrow> True | _ \<Rightarrow> False)"

fun message_for :: "ir_msg \<Rightarrow> opid option" where
  "message_for (ProposeInconsistentMessage q) = Some (vq_clientid q, vq_clientreqid q)"
| "message_for (ProposeConsensusMessage q) = Some (vq_clientid q, vq_clientreqid q)"
| "message_for (FinalizeInconsistentMessage op) = Some op"
| "message_for (FinalizeConsensusMessage op r) = Some op"
| "message_for (IUnloggedRequestMessage q) = Some (vq_clientid q, vq_clientreqid q)"
| "message_for _ = None"

text \<open>What having sent a message says of the request, while it is pending.\<close>

fun belongs :: "ir_msg \<Rightarrow> IRPendingRequest \<Rightarrow> bool" where
  "belongs (ProposeInconsistentMessage q) req = (case ip_kind req of PendingInconsistent x \<Rightarrow> True | _ \<Rightarrow> False)"
| "belongs (ProposeConsensusMessage q) req = is_consensus req"
| "belongs (FinalizeInconsistentMessage op) req =
     (case ip_kind req of PendingInconsistent x \<Rightarrow> ip_continuationInvoked req | _ \<Rightarrow> False)"
| "belongs (FinalizeConsensusMessage op r) req = (case ip_kind req of PendingConsensus k \<Rightarrow> pk_sent_confirms k | _ \<Rightarrow> False)"
| "belongs (IUnloggedRequestMessage q) req = (case ip_kind req of PendingUnlogged x \<Rightarrow> True | _ \<Rightarrow> False)"
| "belongs _ req = False"

fun callback_ok :: "ip_callback \<Rightarrow> IRPendingRequest \<Rightarrow> bool" where
  "callback_ok OnResendInconsistent req = (case ip_kind req of PendingInconsistent x \<Rightarrow> True | _ \<Rightarrow> False)"
| "callback_ok OnResendConsensus req = is_consensus req"
| "callback_ok (OnResendConfirmation b) req =
     (case ip_kind req of PendingInconsistent x \<Rightarrow> \<not> b \<and> ip_continuationInvoked req
      | PendingConsensus k \<Rightarrow> b \<and> pk_sent_confirms k | _ \<Rightarrow> False)"
| "callback_ok OnUnloggedTimeout req = (case ip_kind req of PendingUnlogged x \<Rightarrow> True | _ \<Rightarrow> False)"

definition replies_ok :: "ik_event set \<Rightarrow> opid \<Rightarrow> (u64, ReplyConsensusMessage) QuorumSet \<Rightarrow> bool" where
  "replies_ok E op q \<longleftrightarrow> qs_wf q \<and> (\<forall>v. replies_heard E op v (qs_at q v))"

definition confirms_ok :: "ik_event set \<Rightarrow> opid \<Rightarrow> (viewstamp, ConfirmMessage) QuorumSet \<Rightarrow> bool" where
  "confirms_ok E op q \<longleftrightarrow> qs_wf q \<and> (\<forall>v x. \<forall>(i, m) \<in> set (qs_at q (Viewstamp v x)).
     ik_heard E (ConfirmMessage m) \<and> ic_opid m = op \<and> ic_view m = v \<and> ic_replicaIdx m = i)"

text \<open>A consensus request whose result the application does not have yet.\<close>

definition consensus_ok :: "ik_event set \<Rightarrow> int \<Rightarrow> opid \<Rightarrow> IRPendingRequest \<Rightarrow> PendingConsensusRequest \<Rightarrow> bool" where
  "consensus_ok E f op req k \<longleftrightarrow>
     replies_ok E op (pk_consensusReplyQuorum k) \<and> qs_numRequired (pk_consensusReplyQuorum k) = f + 1 \<and>
     pk_quorumSize k = f + 1 \<and> pk_superQuorumSize k = FastQuorumSize f \<and> qs_numRequired (ip_confirmQuorum req) = f + 1 \<and>
     (\<exists>has_error ok. KInvokeConsensus (ip_request req) (pk_decide k) has_error ok \<in> E) \<and>
     (pk_sent_confirms k \<and> \<not> ip_continuationInvoked req \<longrightarrow>
        finalized_heard E op (pk_reply_consensus_view k) (pk_decideResult k) \<or>
        decided_heard E f op (ip_request req) (pk_reply_consensus_view k) (pk_decideResult k))"

definition ik_req_ok :: "ik_event set \<Rightarrow> int \<Rightarrow> opid \<Rightarrow> IRPendingRequest \<Rightarrow> bool" where
  "ik_req_ok E f op req \<longleftrightarrow> ip_clientReqId req = snd op \<and> confirms_ok E op (ip_confirmQuorum req) \<and>
     callback_ok (fst (ip_timer req)) req \<and>
     (case ip_kind req of PendingConsensus k \<Rightarrow> consensus_ok E f op req k | _ \<Rightarrow> True)"

definition ik_sent_ok :: "u64 \<Rightarrow> u64 \<Rightarrow> (u64 \<rightharpoonup> IRPendingRequest) \<Rightarrow> ir_msg \<Rightarrow> bool" where
  "ik_sent_ok cid n P m \<longleftrightarrow> (\<exists>i. message_for m = Some (cid, i) \<and> i \<le> n \<and> (\<forall>req. P i = Some req \<longrightarrow> belongs m req))"

text \<open>Operations that are no consensus operations have nothing to back.\<close>

definition other_operation :: "IRClient \<Rightarrow> u64 \<Rightarrow> bool" where
  "other_operation c i \<longleftrightarrow> (\<forall>req. ik_pendingReqs c i = Some req \<longrightarrow> \<not> is_consensus req) \<and>
     (\<forall>d q. (d, ProposeConsensusMessage q) \<in> set (ik_sent c) \<longrightarrow> vq_clientreqid q \<noteq> i)"

definition outcome_ok :: "ik_event set \<Rightarrow> IRClient \<Rightarrow> u64 \<times> vc_outcome \<Rightarrow> bool" where
  "outcome_ok E c x \<longleftrightarrow> fst x \<le> ik_lastReqId c \<and> (\<forall>request r. snd x = VReplied request r \<longrightarrow>
     other_operation c (fst x) \<or> consensus_backed E (ik_f c) (ik_clientid c, fst x) request r)"

definition ik_inv :: "ik_event set \<Rightarrow> IRClient \<Rightarrow> bool" where
  "ik_inv E c \<longleftrightarrow> finite E \<and>
     (\<forall>i req. ik_pendingReqs c i = Some req \<longrightarrow> i \<le> ik_lastReqId c \<and> ik_req_ok E (ik_f c) (ik_clientid c, i) req) \<and>
     (\<forall>x \<in> set (ik_sent c). ik_sent_ok (ik_clientid c) (ik_lastReqId c) (ik_pendingReqs c) (snd x)) \<and>
     (\<forall>x \<in> set (ik_outcomes c). outcome_ok E c x)"

lemma ik_inv_new: "ik_inv {} (IRClient_new cid f)"
  by (simp add: ik_inv_def IRClient_new_def)

lemma confirms_ok_mono: "confirms_ok E op q \<Longrightarrow> E \<subseteq> E' \<Longrightarrow> confirms_ok E' op q"
  unfolding confirms_ok_def using ik_heard_mono [of E _ E'] by fast

lemma replies_ok_mono: "replies_ok E op q \<Longrightarrow> E \<subseteq> E' \<Longrightarrow> replies_ok E' op q"
  unfolding replies_ok_def using replies_heard_mono [of E _ _ _ E'] by blast

lemma consensus_ok_mono: "consensus_ok E f op req k \<Longrightarrow> E \<subseteq> E' \<Longrightarrow> consensus_ok E' f op req k"
  unfolding consensus_ok_def using replies_ok_mono [of E op _ E'] evidence_heard_mono [of E E'] by blast

lemma ik_req_ok_mono: "ik_req_ok E f op req \<Longrightarrow> E \<subseteq> E' \<Longrightarrow> ik_req_ok E' f op req"
  unfolding ik_req_ok_def using confirms_ok_mono [of E op _ E'] consensus_ok_mono [of E f op req _ E'] by (auto split: ip_kind.splits)

lemma outcome_ok_mono: "outcome_ok E c x \<Longrightarrow> E \<subseteq> E' \<Longrightarrow> finite E' \<Longrightarrow> outcome_ok E' c x"
  unfolding outcome_ok_def using consensus_backed_mono [of E _ _ _ _ E'] by blast

lemma ik_inv_mono: "ik_inv E c \<Longrightarrow> E \<subseteq> E' \<Longrightarrow> finite E' \<Longrightarrow> ik_inv E' c"
  unfolding ik_inv_def using ik_req_ok_mono [of E _ _ _ E'] outcome_ok_mono [of E c _ E'] by blast

text \<open>One request of the table changes: what is to be shown of it, of the messages sent and of the calls
  of its continuation.\<close>

definition evolves :: "IRPendingRequest \<Rightarrow> IRPendingRequest \<Rightarrow> bool" where
  "evolves req req' \<longleftrightarrow> (\<forall>m. belongs m req \<longrightarrow> belongs m req') \<and> (is_consensus req' \<longleftrightarrow> is_consensus req)"

lemma ik_inv_change:
  assumes inv: "ik_inv E c" and p: "ik_pendingReqs c i = Some req"
    and c': "ik_clientid c' = ik_clientid c" "ik_f c' = ik_f c" "ik_lastReqId c' = ik_lastReqId c"
    and p': "ik_pendingReqs c' = (ik_pendingReqs c)(i := r')"
    and s': "ik_sent c' = ik_sent c @ ms" and o': "ik_outcomes c' = ik_outcomes c @ map (Pair i) os"
    and r': "\<And>x. r' = Some x \<Longrightarrow> evolves req x \<and> ik_req_ok E (ik_f c) (ik_clientid c, i) x"
    and ms: "\<And>x. x \<in> set ms \<Longrightarrow> message_for (snd x) = Some (ik_clientid c, i) \<and> (\<forall>y. r' = Some y \<longrightarrow> belongs (snd x) y) \<and>
       ((\<exists>q. snd x = ProposeConsensusMessage q) \<longrightarrow> is_consensus req)"
    and os: "\<And>request r. VReplied request r \<in> set os \<Longrightarrow> is_consensus req \<Longrightarrow> consensus_backed E (ik_f c) (ik_clientid c, i) request r"
  shows "ik_inv E c'"
proof -
  have i: "i \<le> ik_lastReqId c" using inv p by (auto simp: ik_inv_def)
  have pend: "\<forall>j x. ik_pendingReqs c' j = Some x \<longrightarrow> j \<le> ik_lastReqId c' \<and> ik_req_ok E (ik_f c') (ik_clientid c', j) x"
    using inv r' i by (auto simp: p' c' ik_inv_def)
  have "ik_sent_ok (ik_clientid c) (ik_lastReqId c) (ik_pendingReqs c') (snd x)" if "x \<in> set (ik_sent c)" for x
  proof -
    obtain j where j: "message_for (snd x) = Some (ik_clientid c, j)" "j \<le> ik_lastReqId c" "\<forall>y. ik_pendingReqs c j = Some y \<longrightarrow> belongs (snd x) y"
      using inv \<open>x \<in> set (ik_sent c)\<close> by (auto simp: ik_inv_def ik_sent_ok_def)
    then have "\<forall>y. ik_pendingReqs c' j = Some y \<longrightarrow> belongs (snd x) y" using r' p by (auto simp: p' evolves_def)
    with j show ?thesis by (auto simp: ik_sent_ok_def)
  qed
  moreover have "ik_sent_ok (ik_clientid c) (ik_lastReqId c) (ik_pendingReqs c') (snd x)" if "x \<in> set ms" for x
    using ms [OF that] i by (auto simp: ik_sent_ok_def p')
  ultimately have sent: "\<forall>x \<in> set (ik_sent c'). ik_sent_ok (ik_clientid c') (ik_lastReqId c') (ik_pendingReqs c') (snd x)"
    by (auto simp: s' c')
  have op: "vq_clientreqid q = i \<and> is_consensus req" if "(d, ProposeConsensusMessage q) \<in> set ms" for d q
    using ms [OF that] by simp
  have other: "other_operation c' j" if "other_operation c j" for j
    using that r' p unfolding other_operation_def by (auto simp: p' s' evolves_def dest: op split: if_splits)
  have other_i: "other_operation c' i" if "\<not> is_consensus req"
  proof -
    have "vq_clientreqid q \<noteq> i" if "(d, ProposeConsensusMessage q) \<in> set (ik_sent c)" for d q
      using inv that p \<open>\<not> is_consensus req\<close> by (force simp: ik_inv_def ik_sent_ok_def)
    then show ?thesis using that r' by (auto simp: other_operation_def p' s' evolves_def dest: op)
  qed
  have "outcome_ok E c' x" if "x \<in> set (ik_outcomes c)" for x
    using inv that other by (auto simp: ik_inv_def outcome_ok_def c')
  moreover have "outcome_ok E c' x" if "x \<in> Pair i ` set os" for x
    using that other_i os i by (cases "is_consensus req") (auto simp: outcome_ok_def c')
  ultimately have "\<forall>x \<in> set (ik_outcomes c'). outcome_ok E c' x" by (auto simp: o')
  with pend sent inv show ?thesis by (simp add: ik_inv_def)
qed

section \<open>Every step keeps the invariant\<close>

lemma timer_on_simps [simp]:
  "ip_kind (timer_on req) = ip_kind req" "ip_clientReqId (timer_on req) = ip_clientReqId req"
  "ip_request (timer_on req) = ip_request req" "ip_continuationInvoked (timer_on req) = ip_continuationInvoked req"
  "fst (ip_timer (timer_on req)) = fst (ip_timer req)" "ip_confirmQuorum (timer_on req) = ip_confirmQuorum req"
  by (simp_all add: timer_on_def)

lemma belongs_cong: "ip_kind a = ip_kind b \<Longrightarrow> ip_continuationInvoked a = ip_continuationInvoked b \<Longrightarrow> belongs m a = belongs m b"
  by (cases m) (simp_all add: is_consensus_def split: ip_kind.split)

lemma callback_ok_cong: "ip_kind a = ip_kind b \<Longrightarrow> ip_continuationInvoked a = ip_continuationInvoked b \<Longrightarrow> callback_ok t a = callback_ok t b"
  by (cases t) (simp_all add: is_consensus_def split: ip_kind.split)

lemma evolves_same: "ip_kind b = ip_kind a \<Longrightarrow> ip_continuationInvoked b = ip_continuationInvoked a \<Longrightarrow> evolves a b"
  using belongs_cong [of a b] by (simp add: evolves_def is_consensus_def)

lemma evolves_consensus:
  "ip_kind a = PendingConsensus k \<Longrightarrow> ip_kind b = PendingConsensus k' \<Longrightarrow> (pk_sent_confirms k \<Longrightarrow> pk_sent_confirms k') \<Longrightarrow> evolves a b"
  unfolding evolves_def
proof (intro conjI allI impI)
  fix m assume "ip_kind a = PendingConsensus k" "ip_kind b = PendingConsensus k'" "pk_sent_confirms k \<Longrightarrow> pk_sent_confirms k'" "belongs m a"
  then show "belongs m b" by (cases m) (auto simp: is_consensus_def)
qed (simp add: is_consensus_def)

lemma evolves_inconsistent:
  "ip_kind a = PendingInconsistent q \<Longrightarrow> ip_kind b = PendingInconsistent q' \<Longrightarrow> (ip_continuationInvoked a \<Longrightarrow> ip_continuationInvoked b) \<Longrightarrow> evolves a b"
  unfolding evolves_def
proof (intro conjI allI impI)
  fix m assume "ip_kind a = PendingInconsistent q" "ip_kind b = PendingInconsistent q'" "ip_continuationInvoked a \<Longrightarrow> ip_continuationInvoked b" "belongs m a"
  then show "belongs m b" by (cases m) (auto simp: is_consensus_def)
qed (simp add: is_consensus_def)

lemma ik_req_ok_timer_on [simp]: "ik_req_ok E f op (timer_on req) = ik_req_ok E f op req"
  using callback_ok_cong [of "timer_on req" req] by (simp add: ik_req_ok_def consensus_ok_def split: ip_kind.split)

lemma ik_fields [simp]:
  "ik_clientid (ik_put c r) = ik_clientid c" "ik_f (ik_put c r) = ik_f c" "ik_lastReqId (ik_put c r) = ik_lastReqId c"
  "ik_sent (ik_put c r) = ik_sent c" "ik_outcomes (ik_put c r) = ik_outcomes c"
  "ik_pendingReqs (ik_put c r) = (ik_pendingReqs c)(ip_clientReqId r \<mapsto> r)"
  "ik_clientid (ik_drop c i) = ik_clientid c" "ik_f (ik_drop c i) = ik_f c" "ik_lastReqId (ik_drop c i) = ik_lastReqId c"
  "ik_sent (ik_drop c i) = ik_sent c" "ik_outcomes (ik_drop c i) = ik_outcomes c"
  "ik_pendingReqs (ik_drop c i) = (ik_pendingReqs c)(i := None)"
  "ik_clientid (ik_send c d m) = ik_clientid c" "ik_f (ik_send c d m) = ik_f c" "ik_lastReqId (ik_send c d m) = ik_lastReqId c"
  "ik_sent (ik_send c d m) = ik_sent c @ [(d, m)]" "ik_outcomes (ik_send c d m) = ik_outcomes c"
  "ik_pendingReqs (ik_send c d m) = ik_pendingReqs c"
  "ik_clientid (ik_outcome c i x) = ik_clientid c" "ik_f (ik_outcome c i x) = ik_f c" "ik_lastReqId (ik_outcome c i x) = ik_lastReqId c"
  "ik_sent (ik_outcome c i x) = ik_sent c" "ik_outcomes (ik_outcome c i x) = ik_outcomes c @ [(i, x)]"
  "ik_pendingReqs (ik_outcome c i x) = ik_pendingReqs c"
  by (simp_all add: ik_put_def ik_drop_def ik_send_def ik_outcome_def)

lemma inv_request: "ik_inv E c \<Longrightarrow> ik_pendingReqs c i = Some req \<Longrightarrow> ik_req_ok E (ik_f c) (ik_clientid c, i) req \<and> ip_clientReqId req = i"
  by (auto simp: ik_inv_def ik_req_ok_def)

lemma inv_put:
  assumes "ik_inv E c" "ik_pendingReqs c i = Some req" "evolves req req'" "ik_req_ok E (ik_f c) (ik_clientid c, i) req'"
  shows "ik_inv E (ik_put c req')"
  by (rule ik_inv_change [OF assms(1,2), where r' = "Some req'" and ms = "[]" and os = "[]"]) (use assms(3,4) in \<open>auto simp: ik_req_ok_def\<close>)

lemma inv_drop:
  assumes "ik_inv E c" "ik_pendingReqs c i = Some req"
  shows "ik_inv E (ik_drop c i)"
  by (rule ik_inv_change [OF assms, where r' = None and ms = "[]" and os = "[]"]) auto

lemma inv_finish:
  assumes "ik_inv E c" "ik_pendingReqs c i = Some req"
    and "\<And>request r. x = VReplied request r \<Longrightarrow> is_consensus req \<Longrightarrow> consensus_backed E (ik_f c) (ik_clientid c, i) request r"
  shows "ik_inv E (ik_outcome (ik_drop c i) i x)"
  by (rule ik_inv_change [OF assms(1,2), where r' = None and ms = "[]" and os = "[x]"]) (use assms(3) in auto)

lemma inv_send_or_drop:
  assumes "ik_inv E c" "ik_pendingReqs c i = Some req" "evolves req req'" "ik_req_ok E (ik_f c) (ik_clientid c, i) req'"
    and "message_for m = Some (ik_clientid c, i)" "belongs m req'"
  shows "ik_inv E (send_or_drop c req' m ok)"
proof (cases ok)
  case True
  have i: "ip_clientReqId req' = i" using assms(4) by (simp add: ik_req_ok_def)
  have "is_consensus req' \<longleftrightarrow> is_consensus req" using assms(3) by (simp add: evolves_def)
  with assms(6) have "\<exists>q. m = ProposeConsensusMessage q \<Longrightarrow> is_consensus req" by auto
  moreover have "belongs m (timer_on req')" using assms(6) belongs_cong [of "timer_on req'" req' m] by simp
  moreover have "evolves req (timer_on req')"
    using assms(3) belongs_cong [of "timer_on req'" req'] by (simp add: evolves_def is_consensus_def)
  ultimately show ?thesis
    using assms(4,5) i True unfolding send_or_drop_def
    by (intro ik_inv_change [OF assms(1,2), where r' = "Some (timer_on req')" and ms = "[(VAll, m)]" and os = "[]"]) auto
next
  case False
  then show ?thesis using inv_drop [OF assms(1,2)] assms(4) by (simp add: send_or_drop_def ik_req_ok_def)
qed

lemma next_id:
  fixes n i :: u64
  assumes "n \<noteq> - 1" "i \<le> n"
  shows "i < n + 1"
proof -
  have "n < - 1" using assms(1) word_n1_ge [of n] by (simp add: less_le)
  then have "unat (n + 1) = Suc (unat n)" by (rule unat_succ)
  with assms(2) show ?thesis unfolding word_less_nat_alt word_le_nat_alt by linarith
qed

lemma inv_grow:
  assumes inv: "ik_inv E c" and n: "ik_lastReqId c \<noteq> - 1"
    and r: "\<And>x. r = Some x \<Longrightarrow> ik_req_ok E (ik_f c) (ik_clientid c, ik_lastReqId c + 1) x"
  shows "ik_inv E (c\<lparr>ik_lastReqId := ik_lastReqId c + 1, ik_pendingReqs := (ik_pendingReqs c)(ik_lastReqId c + 1 := r)\<rparr>)"
proof -
  note lt = next_id [OF n]
  have "other_operation (c\<lparr>ik_lastReqId := ik_lastReqId c + 1, ik_pendingReqs := (ik_pendingReqs c)(ik_lastReqId c + 1 := r)\<rparr>) i"
    if "other_operation c i" "i \<le> ik_lastReqId c" for i
    using that lt [OF that(2)] by (auto simp: other_operation_def)
  moreover have "ik_sent_ok (ik_clientid c) (ik_lastReqId c + 1) ((ik_pendingReqs c)(ik_lastReqId c + 1 := r)) m"
    if so: "ik_sent_ok (ik_clientid c) (ik_lastReqId c) (ik_pendingReqs c) m" for m
  proof -
    obtain i where "message_for m = Some (ik_clientid c, i)" "i \<le> ik_lastReqId c" "\<forall>req. ik_pendingReqs c i = Some req \<longrightarrow> belongs m req"
      using so by (auto simp: ik_sent_ok_def)
    then show ?thesis using lt [of i] by (auto simp: ik_sent_ok_def)
  qed
  ultimately show ?thesis
    using inv r lt by (auto simp: ik_inv_def outcome_ok_def less_imp_le)
qed

section \<open>Collected replies\<close>

lemma AddAndCheckForQuorum_eq:
  "AddAndCheckForQuorum q v i m =
     (let q' = qs_Add q v i m in (if int (length (qs_at q' v)) \<ge> qs_numRequired q then Some (qs_at q' v) else None, q'))"
  unfolding Let_def qs_at_Add
  by (simp add: AddAndCheckForQuorum_def CheckForQuorum_def qs_Add_def Let_def qs_at_update)

lemma numRequired_Add [simp]: "qs_numRequired (qs_Add q v i m) = qs_numRequired q"
  by (simp add: qs_Add_def AddAndCheckForQuorum_def CheckForQuorum_def Let_def)

lemma GetMessages_eq: "GetMessages q v = (qs_at q v, q\<lparr>qs_messages := smap_put v (qs_at q v) (qs_messages q)\<rparr>)"
  by (simp add: GetMessages_def)

lemma replies_ok_GetMessages: "replies_ok E op q \<Longrightarrow> replies_ok E op (q\<lparr>qs_messages := smap_put v (qs_at q v) (qs_messages q)\<rparr>)"
  by (auto simp: replies_ok_def qs_wf_def qs_at_update ascending_smap_put)

lemma replies_ok_Add:
  assumes "replies_ok E op q" "ik_heard E (ReplyConsensusMessage m)" "rk_opid m = op"
  shows "replies_ok E op (qs_Add q (rk_view m) (rk_replicaIdx m) m)"
proof -
  have wf: "qs_wf (qs_Add q (rk_view m) (rk_replicaIdx m) m)" using assms(1) by (simp add: replies_ok_def qs_wf_Add)
  then have "distinct (map fst (qs_at (qs_Add q (rk_view m) (rk_replicaIdx m) m) v))" for v
    by (simp add: qs_wf_def ascending_distinct)
  moreover have "ik_heard E (ReplyConsensusMessage x) \<and> rk_opid x = op \<and> rk_view x = v \<and> rk_replicaIdx x = i"
    if x: "(i, x) \<in> set (qs_at (qs_Add q (rk_view m) (rk_replicaIdx m) m) v)" for v i x
  proof -
    have "(i, x) \<in> set (qs_at q v) \<or> v = rk_view m \<and> i = rk_replicaIdx m \<and> x = m"
      using x set_smap_put_subset [of "rk_replicaIdx m" m "qs_at q (rk_view m)"] by (auto simp: qs_at_Add split: if_splits)
    moreover have "ik_heard E (ReplyConsensusMessage x) \<and> rk_opid x = op \<and> rk_view x = v \<and> rk_replicaIdx x = i" if "(i, x) \<in> set (qs_at q v)"
      using assms(1) that unfolding replies_ok_def replies_heard_def by blast
    ultimately show ?thesis using assms(2,3) by blast
  qed
  ultimately show ?thesis using wf unfolding replies_ok_def replies_heard_def by blast
qed

lemma confirms_ok_Add:
  assumes "confirms_ok E op q" "ik_heard E (ConfirmMessage m)" "ic_opid m = op"
  shows "confirms_ok E op (qs_Add q (Viewstamp (ic_view m) x) (ic_replicaIdx m) m)"
proof -
  have "ik_heard E (ConfirmMessage y) \<and> ic_opid y = op \<and> ic_view y = v \<and> ic_replicaIdx y = i"
    if y: "(i, y) \<in> set (qs_at (qs_Add q (Viewstamp (ic_view m) x) (ic_replicaIdx m) m) (Viewstamp v u))" for v u i y
  proof -
    have "(i, y) \<in> set (qs_at q (Viewstamp v u)) \<or> v = ic_view m \<and> i = ic_replicaIdx m \<and> y = m"
      using y set_smap_put_subset [of "ic_replicaIdx m" m "qs_at q (Viewstamp (ic_view m) x)"] by (auto simp: qs_at_Add split: if_splits)
    moreover have "ik_heard E (ConfirmMessage y) \<and> ic_opid y = op \<and> ic_view y = v \<and> ic_replicaIdx y = i" if "(i, y) \<in> set (qs_at q (Viewstamp v u))"
      using assms(1) that unfolding confirms_ok_def by blast
    ultimately show ?thesis using assms(2,3) by blast
  qed
  moreover have "qs_wf (qs_Add q (Viewstamp (ic_view m) x) (ic_replicaIdx m) m)" using assms(1) by (simp add: confirms_ok_def qs_wf_Add)
  ultimately show ?thesis unfolding confirms_ok_def by blast
qed

lemma confirms_ok_card:
  assumes "confirms_ok E op q" "finite E"
  shows "length (qs_at q (Viewstamp v x)) \<le> card (confirmers E op v)"
proof -
  have "length (qs_at q (Viewstamp v x)) = card (fst ` set (qs_at q (Viewstamp v x)))"
    using assms(1) by (intro qs_count) (simp add: confirms_ok_def)
  also have "\<dots> \<le> card (confirmers E op v)"
    by (rule card_mono [OF finite_confirmers [OF assms(2)]]) (use assms(1) in \<open>fastforce simp: confirms_ok_def confirmers_def\<close>)
  finally show ?thesis .
qed

lemma find_SomeD: "find P xs = Some y \<Longrightarrow> y \<in> set xs \<and> P y"
  by (induction xs) (auto split: if_splits)

lemma CheckForQuorum_any_at:
  assumes "CheckForQuorum_any q = Some msgs" "qs_wf q"
  obtains v where "msgs = qs_at q v" "int (length msgs) \<ge> qs_numRequired q"
proof -
  obtain v where "find (\<lambda>p. int (length (snd p)) \<ge> qs_numRequired q) (qs_messages q) = Some (v, msgs)"
    using assms(1) by (auto simp: CheckForQuorum_any_def)
  then have "(v, msgs) \<in> set (qs_messages q)" "int (length msgs) \<ge> qs_numRequired q" by (auto dest: find_SomeD)
  moreover have "distinct (map fst (qs_messages q))" using assms(2) by (simp add: qs_wf_def ascending_distinct)
  ultimately show thesis by (intro that [of v]) (simp_all add: qs_at_def)
qed

section \<open>Handlers\<close>

lemma inv_slow_path:
  assumes inv: "ik_inv E c" and p: "ik_pendingReqs c i = Some req" and k0: "ip_kind req = PendingConsensus k0"
    and ok: "consensus_ok E (ik_f c) (ik_clientid c, i) req (k\<lparr>pk_sent_confirms := False\<rparr>)"
    and msgs: "\<not> finalized \<Longrightarrow> replies_heard E (ik_clientid c, i) v msgs \<and> ik_f c + 1 \<le> int (length msgs)"
    and fin: "finalized \<Longrightarrow> finalized_heard E (ik_clientid c, i) (pk_reply_consensus_view k) (pk_decideResult k)"
    and f: "0 \<le> ik_f c"
  shows "after (ik_inv E) (HandleSlowPathConsensus c i msgs finalized req k b)"
proof -
  have rok: "ik_req_ok E (ik_f c) (ik_clientid c, i) req" and i: "ip_clientReqId req = i" using inv_request [OF inv p] by auto
  have main: "ik_inv E (send_or_drop c (req\<lparr>ip_timer := (OnResendConfirmation True, False), ip_kind := PendingConsensus (k'\<lparr>pk_sent_confirms := True\<rparr>)\<rparr>)
       (finalize_message c i (pk_decideResult k')) b)"
    if "consensus_ok E (ik_f c) (ik_clientid c, i) req (k'\<lparr>pk_sent_confirms := True\<rparr>)" for k'
  proof (rule inv_send_or_drop [OF inv p])
    show "evolves req (req\<lparr>ip_timer := (OnResendConfirmation True, False), ip_kind := PendingConsensus (k'\<lparr>pk_sent_confirms := True\<rparr>)\<rparr>)"
      by (rule evolves_consensus [OF k0, where k' = "k'\<lparr>pk_sent_confirms := True\<rparr>"]) simp_all
    show "ik_req_ok E (ik_f c) (ik_clientid c, i) (req\<lparr>ip_timer := (OnResendConfirmation True, False), ip_kind := PendingConsensus (k'\<lparr>pk_sent_confirms := True\<rparr>)\<rparr>)"
      using rok that by (simp add: ik_req_ok_def consensus_ok_def)
  qed (simp_all add: finalize_message_def)
  show ?thesis
  proof (cases finalized)
    case True
    have "consensus_ok E (ik_f c) (ik_clientid c, i) req (k\<lparr>pk_sent_confirms := True\<rparr>)"
      using ok fin [OF True] by (simp add: consensus_ok_def)
    then show ?thesis using True main [of k] by (simp add: HandleSlowPathConsensus_def)
  next
    case False
    have "msgs \<noteq> []" using msgs [OF False] f by auto
    then have v: "replies_view msgs = v" using msgs [OF False] by (intro replies_view_eq) auto
    have "consensus_ok E (ik_f c) (ik_clientid c, i) req (k\<lparr>pk_decideResult := r, pk_reply_consensus_view := replies_view msgs, pk_sent_confirms := True\<rparr>)"
      if "pk_decide k (reply_counts msgs) = Inr r" for r
    proof -
      obtain he b' where "KInvokeConsensus (ip_request req) (pk_decide k) he b' \<in> E" using ok by (auto simp: consensus_ok_def)
      then have "decided_heard E (ik_f c) (ik_clientid c, i) (ip_request req) v r"
        using msgs [OF False] that unfolding decided_heard_def by blast
      then show ?thesis using ok v by (simp add: consensus_ok_def)
    qed
    then show ?thesis
      using False main [of "k\<lparr>pk_decideResult := r, pk_reply_consensus_view := replies_view msgs\<rparr>" for r]
      by (cases "pk_decide k (reply_counts msgs)") (simp_all add: HandleSlowPathConsensus_def)
  qed
qed

lemma inv_fast_path:
  assumes inv: "ik_inv E c" and p: "ik_pendingReqs c i = Some req" and k0: "ip_kind req = PendingConsensus k0"
    and ok: "consensus_ok E (ik_f c) (ik_clientid c, i) req k" "\<not> pk_sent_confirms k"
    and msgs: "replies_heard E (ik_clientid c, i) v msgs" "FastQuorumSize (ik_f c) \<le> int (length msgs)" and f: "0 \<le> ik_f c"
  shows "after (ik_inv E) (HandleFastPathConsensus c i msgs req k b)"
proof -
  have rok: "ik_req_ok E (ik_f c) (ik_clientid c, i) req" and i: "ip_clientReqId req = i" using inv_request [OF inv p] by auto
  have fin: "finite E" using inv by (simp add: ik_inv_def)
  have super: "pk_superQuorumSize k = FastQuorumSize (ik_f c)" using ok(1) by (simp add: consensus_ok_def)
  show ?thesis
  proof (cases "find (\<lambda>r. \<not> int (snd r) < pk_superQuorumSize k) (reply_counts msgs)")
    case None
    have "ik_f c + 1 \<le> FastQuorumSize (ik_f c)" using f FastQuorumSize_nat [of "nat (ik_f c)"] by simp
    then have "after (ik_inv E) (HandleSlowPathConsensus c i msgs False req (k\<lparr>pk_on_slow_path := True, pk_transition_timer := False\<rparr>) b)"
      by (intro inv_slow_path [OF inv p k0, where v = v]) (use ok msgs f in \<open>auto simp: consensus_ok_def\<close>)
    then show ?thesis by (simp add: HandleFastPathConsensus_def None)
  next
    case (Some x)
    obtain result n where x: "x = (result, n)" by (cases x)
    from find_SomeD [OF Some] have "(result, n) \<in> set (reply_counts msgs)" "FastQuorumSize (ik_f c) \<le> int n" by (auto simp: x super)
    with reply_count_repliers [OF msgs(1) fin this(1)] have backed: "consensus_backed E (ik_f c) (ik_clientid c, i) q result" for q
      unfolding consensus_backed_def by (meson dual_order.trans of_nat_mono)
    define req' where "req' = timer_on (req\<lparr>ip_timer := (OnResendConfirmation True, False),
      ip_kind := PendingConsensus (k\<lparr>pk_decideResult := result, pk_sent_confirms := True\<rparr>)\<rparr>)"
    have req': "ip_kind req' = PendingConsensus (k\<lparr>pk_decideResult := result, pk_sent_confirms := True\<rparr>)"
      "fst (ip_timer req') = OnResendConfirmation True" "ip_clientReqId req' = i" "ip_request req' = ip_request req"
      "ip_confirmQuorum req' = ip_confirmQuorum req" "ip_continuationInvoked req' = ip_continuationInvoked req"
      using i by (simp_all add: req'_def)
    have put: "ik_inv E c'" if "ip_continuationInvoked y" "ip_kind y = ip_kind req'" "ip_timer y = ip_timer req'" "ip_clientReqId y = i"
        "ip_request y = ip_request req" "ip_confirmQuorum y = ip_confirmQuorum req"
        "c' = ik_put (if ip_continuationInvoked req then ik_send c VAll (finalize_message c i result)
           else ik_outcome (ik_send c VAll (finalize_message c i result)) i (VReplied (ip_request req) result)) y" for y c'
    proof (rule ik_inv_change [OF inv p, where r' = "Some y" and ms = "[(VAll, finalize_message c i result)]"
          and os = "if ip_continuationInvoked req then [] else [VReplied (ip_request req) result]"])
      fix z assume "Some y = Some z"
      moreover have "evolves req y" by (rule evolves_consensus [OF k0, where k' = "k\<lparr>pk_decideResult := result, pk_sent_confirms := True\<rparr>"]) (use that(2) req' in simp_all)
      moreover have "ik_req_ok E (ik_f c) (ik_clientid c, i) y"
        using rok ok that req'(1,2) by (simp add: ik_req_ok_def consensus_ok_def)
      ultimately show "evolves req z \<and> ik_req_ok E (ik_f c) (ik_clientid c, i) z" by simp
    qed (use that req' backed in \<open>auto simp: finalize_message_def\<close>)
    show ?thesis
    proof (cases b)
      case True
      define y where "y = req'\<lparr>ip_continuationInvoked := True\<rparr>"
      have y: "ip_continuationInvoked req \<Longrightarrow> y = req'" using req'(6) by (simp add: y_def)
      have "HandleFastPathConsensus c i msgs req k b = Inr (ik_put (if ip_continuationInvoked req then ik_send c VAll (finalize_message c i result)
          else ik_outcome (ik_send c VAll (finalize_message c i result)) i (VReplied (ip_request req) result))
        (if ip_continuationInvoked req then req' else y))"
        by (simp add: HandleFastPathConsensus_def Some x True Let_def req'_def y_def)
      moreover have "(if ip_continuationInvoked req then req' else y) = y" using y by simp
      moreover have "ik_inv E (ik_put (if ip_continuationInvoked req then ik_send c VAll (finalize_message c i result)
          else ik_outcome (ik_send c VAll (finalize_message c i result)) i (VReplied (ip_request req) result)) y)"
        by (rule put [of y, OF _ _ _ _ _ _ refl]) (use req' in \<open>simp_all add: y_def\<close>)
      ultimately show ?thesis by simp
    qed (simp add: HandleFastPathConsensus_def Some x)
  qed
qed

lemma inv_transition:
  assumes inv: "ik_inv E c" and p: "ik_pendingReqs c i = Some req" and k: "ip_kind req = PendingConsensus k" and f: "0 \<le> ik_f c"
  shows "after (ik_inv E) (TransitionToConsensusSlowPath c i b)"
proof -
  have rok: "ik_req_ok E (ik_f c) (ik_clientid c, i) req" using inv_request [OF inv p] by auto
  then have ok: "consensus_ok E (ik_f c) (ik_clientid c, i) req k" by (simp add: ik_req_ok_def k)
  let ?k = "k\<lparr>pk_on_slow_path := True, pk_transition_timer := False\<rparr>"
  show ?thesis
  proof (cases "CheckForQuorum_any (pk_consensusReplyQuorum k)")
    case None
    have "evolves req (req\<lparr>ip_kind := PendingConsensus ?k\<rparr>)" by (rule evolves_consensus [OF k, where k' = ?k]) simp_all
    moreover have "ik_req_ok E (ik_f c) (ik_clientid c, i) (req\<lparr>ip_kind := PendingConsensus ?k\<rparr>)"
      using rok ok by (cases "fst (ip_timer req)") (auto simp: ik_req_ok_def consensus_ok_def k is_consensus_def)
    ultimately show ?thesis
      using inv_put [OF inv p] by (simp add: TransitionToConsensusSlowPath_def p k None)
  next
    case (Some msgs)
    have "qs_wf (pk_consensusReplyQuorum k)" using ok by (simp add: consensus_ok_def replies_ok_def)
    from CheckForQuorum_any_at [OF Some this] obtain v where v: "msgs = qs_at (pk_consensusReplyQuorum k) v"
      "int (length msgs) \<ge> qs_numRequired (pk_consensusReplyQuorum k)" .
    have "after (ik_inv E) (HandleSlowPathConsensus c i msgs False req ?k b)"
      by (rule inv_slow_path [OF inv p k, where v = v]) (use ok v f in \<open>auto simp: consensus_ok_def replies_ok_def\<close>)
    then show ?thesis by (simp add: TransitionToConsensusSlowPath_def p k Some)
  qed
qed

lemma inv_consensus_reply:
  assumes inv: "ik_inv E c" and p: "ik_pendingReqs c i = Some req" and k: "ip_kind req = PendingConsensus k" and f: "0 \<le> ik_f c"
    and m: "ik_heard E (ReplyConsensusMessage m)" "rk_opid m = (ik_clientid c, i)"
  shows "after (ik_inv E) (HandleConsensusReply c m b)"
proof (cases "pk_sent_confirms k")
  case False
  have rok: "ik_req_ok E (ik_f c) (ik_clientid c, i) req" using inv_request [OF inv p] by auto
  then have ok: "consensus_ok E (ik_f c) (ik_clientid c, i) req k" by (simp add: ik_req_ok_def k)
  define q where "q = qs_Add (pk_consensusReplyQuorum k) (rk_view m) (rk_replicaIdx m) m"
  define q' where "q' = q\<lparr>qs_messages := smap_put (rk_view m) (qs_at q (rk_view m)) (qs_messages q)\<rparr>"
  have q: "replies_ok E (ik_clientid c, i) q" using ok m by (simp add: q_def consensus_ok_def replies_ok_Add)
  then have q': "replies_ok E (ik_clientid c, i) q'" unfolding q'_def by (rule replies_ok_GetMessages)
  let ?msgs = "qs_at q (rk_view m)" and ?k = "k\<lparr>pk_consensusReplyQuorum := q'\<rparr>"
  have msgs: "replies_heard E (ik_clientid c, i) (rk_view m) ?msgs" using q by (simp add: replies_ok_def)
  have okk: "consensus_ok E (ik_f c) (ik_clientid c, i) req ?k"
    using ok q' by (simp add: consensus_ok_def q'_def q_def)
  have evo: "evolves req (req\<lparr>ip_kind := PendingConsensus ?k\<rparr>)" by (rule evolves_consensus [OF k, where k' = ?k]) simp_all
  have "ik_req_ok E (ik_f c) (ik_clientid c, i) (req\<lparr>ip_kind := PendingConsensus ?k\<rparr>)"
    using rok okk by (cases "fst (ip_timer req)") (auto simp: ik_req_ok_def consensus_ok_def k is_consensus_def)
  then have put: "ik_inv E (ik_put c (req\<lparr>ip_kind := PendingConsensus ?k\<rparr>))" by (rule inv_put [OF inv p evo])
  have eq: "HandleConsensusReply c m b =
      (if rk_finalized m then HandleSlowPathConsensus c i ?msgs True req (?k\<lparr>pk_on_slow_path := True, pk_transition_timer := False,
           pk_decideResult := rk_result m, pk_reply_consensus_view := rk_view m\<rparr>) b
       else if pk_on_slow_path ?k \<and> int (length ?msgs) \<ge> pk_quorumSize ?k then HandleSlowPathConsensus c i ?msgs False req ?k b
       else if \<not> pk_on_slow_path ?k \<and> int (length ?msgs) \<ge> pk_superQuorumSize ?k then HandleFastPathConsensus c i ?msgs req ?k b
       else Inr (ik_put c (req\<lparr>ip_kind := PendingConsensus ?k\<rparr>)))"
    by (simp add: HandleConsensusReply_def m(2) p k False GetMessages_eq Let_def q_def [symmetric] q'_def [symmetric])
  have slow_fin: "after (ik_inv E) (HandleSlowPathConsensus c i ?msgs True req (?k\<lparr>pk_on_slow_path := True, pk_transition_timer := False,
           pk_decideResult := rk_result m, pk_reply_consensus_view := rk_view m\<rparr>) b)" if "rk_finalized m"
    by (rule inv_slow_path [OF inv p k, where v = 0]) (use okk m that f in \<open>auto simp: consensus_ok_def finalized_heard_def\<close>)
  have slow: "after (ik_inv E) (HandleSlowPathConsensus c i ?msgs False req ?k b)" if "int (length ?msgs) \<ge> pk_quorumSize ?k"
    by (rule inv_slow_path [OF inv p k, where v = "rk_view m"]) (use okk msgs that f in \<open>auto simp: consensus_ok_def\<close>)
  have fast: "after (ik_inv E) (HandleFastPathConsensus c i ?msgs req ?k b)" if "int (length ?msgs) \<ge> pk_superQuorumSize ?k"
    by (rule inv_fast_path [OF inv p k okk _ msgs _ f]) (use False okk that in \<open>auto simp: consensus_ok_def\<close>)
  show ?thesis unfolding eq using slow_fin slow fast put by (auto intro!: after_if)
qed (simp add: HandleConsensusReply_def m(2) p k inv)

lemma inv_inconsistent_reply:
  assumes inv: "ik_inv E c" and p: "ik_pendingReqs c i = Some req" and k: "ip_kind req = PendingInconsistent q"
    and m: "ri_opid m = (ik_clientid c, i)"
  shows "after (ik_inv E) (HandleInconsistentReply c m b)"
proof -
  have rok: "ik_req_ok E (ik_f c) (ik_clientid c, i) req" and i: "ip_clientReqId req = i" using inv_request [OF inv p] by auto
  obtain quorum q' where q': "AddAndCheckForQuorum q (Viewstamp (ri_view m) i) (ri_replicaIdx m) m = (quorum, q')" by force
  let ?r = "req\<lparr>ip_kind := PendingInconsistent q'\<rparr>"
  let ?r' = "?r\<lparr>ip_timer := (OnResendConfirmation False, b), ip_continuationInvoked := True\<rparr>"
  have "callback_ok (fst (ip_timer req)) ?r" using rok k by (cases "fst (ip_timer req)") (auto simp: ik_req_ok_def is_consensus_def)
  then have r: "ik_req_ok E (ik_f c) (ik_clientid c, i) ?r" using rok by (simp add: ik_req_ok_def)
  have "evolves req ?r" "evolves req ?r'" by (rule evolves_inconsistent [OF k, where q' = q'], simp_all)+
  moreover have r': "ik_req_ok E (ik_f c) (ik_clientid c, i) ?r'" using rok by (simp add: ik_req_ok_def)
  ultimately have put: "ik_inv E (ik_put c ?r)" and
    done': "ik_inv E (ik_put (ik_outcome (if b then ik_send c VAll (FinalizeInconsistentMessage (ri_opid m)) else c) i (VReplied (ip_request req) '''')) ?r')"
    using inv_put [OF inv p _ r] i k
    by (auto simp: m is_consensus_def intro!: ik_inv_change [OF inv p, where r' = "Some ?r'" and os = "[VReplied (ip_request req) '''']"
        and ms = "if b then [(VAll, FinalizeInconsistentMessage (ri_opid m))] else []"] split: if_splits)
  then show ?thesis by (simp add: HandleInconsistentReply_def m p k q' Let_def)
qed

lemma inv_confirm:
  assumes inv: "ik_inv E c" and p: "ik_pendingReqs c i = Some req" and f: "0 \<le> ik_f c"
    and m: "ik_heard E (ConfirmMessage m)" "ic_opid m = (ik_clientid c, i)"
    and solicited: "\<And>k. ip_kind req = PendingConsensus k \<Longrightarrow> pk_sent_confirms k"
  shows "after (ik_inv E) (HandleConfirm c m)"
proof -
  have rok: "ik_req_ok E (ik_f c) (ik_clientid c, i) req" and i: "ip_clientReqId req = i" using inv_request [OF inv p] by auto
  have fin: "finite E" using inv by (simp add: ik_inv_def)
  define q where "q = qs_Add (ip_confirmQuorum req) (Viewstamp (ic_view m) i) (ic_replicaIdx m) m"
  have q: "confirms_ok E (ik_clientid c, i) q"
    using rok m unfolding q_def by (intro confirms_ok_Add) (simp_all add: ik_req_ok_def)
  have qn: "qs_numRequired q = qs_numRequired (ip_confirmQuorum req)" by (simp add: q_def)
  let ?n = "int (length (qs_at q (Viewstamp (ic_view m) i)))"
  have add: "AddAndCheckForQuorum (ip_confirmQuorum req) (Viewstamp (ic_view m) i) (ic_replicaIdx m) m =
      (if ?n \<ge> qs_numRequired (ip_confirmQuorum req) then Some (qs_at q (Viewstamp (ic_view m) i)) else None, q)"
    by (simp add: AddAndCheckForQuorum_eq Let_def q_def)
  show ?thesis
  proof (cases "?n \<ge> qs_numRequired (ip_confirmQuorum req)")
    case False
    let ?r = "req\<lparr>ip_confirmQuorum := q\<rparr>"
    have "callback_ok (fst (ip_timer req)) ?r" using rok callback_ok_cong [of ?r req] by (simp add: ik_req_ok_def)
    then have "ik_req_ok E (ik_f c) (ik_clientid c, i) ?r"
      using rok q qn by (auto simp: ik_req_ok_def consensus_ok_def split: ip_kind.splits)
    then have "ik_inv E (ik_put c ?r)" by (intro inv_put [OF inv p]) (auto intro: evolves_same)
    then show ?thesis by (simp add: HandleConfirm_def m(2) p add False)
  next
    case True
    have done': "ik_inv E (ik_outcome (ik_drop c i) i (VReplied (ip_request req) (pk_decideResult k)))"
      if "ip_kind req = PendingConsensus k" "\<not> ip_continuationInvoked req" "ic_view m = pk_reply_consensus_view k" for k
    proof (rule inv_finish [OF inv p])
      have ok: "consensus_ok E (ik_f c) (ik_clientid c, i) req k" using rok that(1) by (simp add: ik_req_ok_def)
      have "ik_f c + 1 \<le> int (card (confirmers E (ik_clientid c, i) (ic_view m)))"
        using True ok confirms_ok_card [OF q fin, of "ic_view m" i] by (simp add: consensus_ok_def)
      then have "consensus_backed E (ik_f c) (ik_clientid c, i) (ip_request req) (pk_decideResult k)"
        using ok that solicited [OF that(1)] unfolding consensus_backed_def consensus_ok_def by metis
      then show "VReplied (ip_request req) (pk_decideResult k) = VReplied request r \<Longrightarrow>
          consensus_backed E (ik_f c) (ik_clientid c, i) request r" for request r by simp
    qed
    have "ik_inv E (ik_drop c i)" by (rule inv_drop [OF inv p])
    moreover have "ik_inv E (ik_outcome (ik_drop c i) i (VFailed x y))" for x y by (rule inv_finish [OF inv p]) simp
    ultimately show ?thesis using done' by (auto simp: HandleConfirm_def m(2) p add True Let_def split: ip_kind.split)
  qed
qed

section \<open>Histories in which every message is an answer\<close>

definition ik_answered :: "IRClient \<Rightarrow> ir_msg \<Rightarrow> bool" where
  "ik_answered c m \<longleftrightarrow> list_ex (\<lambda>x. answers_to (snd x) m) (ik_sent c)"

primrec solicited :: "ik_event list \<Rightarrow> IRClient \<Rightarrow> bool" where
  "solicited [] c = True"
| "solicited (e # es) c = ((case e of KReceive m ok \<Rightarrow> ik_answered c m | _ \<Rightarrow> True) \<and>
     (case ik_step c e of Inl err \<Rightarrow> True | Inr c' \<Rightarrow> solicited es c'))"

lemma ik_answered_for:
  assumes "ik_inv E c" "ik_answered c m"
  obtains s j where "message_for s = Some (ik_clientid c, j)" "answers_to s m" "\<And>req. ik_pendingReqs c j = Some req \<Longrightarrow> belongs s req"
proof -
  obtain x where "x \<in> set (ik_sent c)" "answers_to (snd x) m" using assms(2) by (auto simp: ik_answered_def list_ex_iff)
  then show thesis using assms(1) that unfolding ik_inv_def ik_sent_ok_def by blast
qed

lemma answer_unknown:
  assumes "message_for s = Some (x, j)" "answers_to s m" "ik_pendingReqs c j = None"
  shows "ik_ReceiveMessage c m b = Inr c"
  using assms by (cases s; cases m) (auto simp: HandleInconsistentReply_def HandleConsensusReply_def HandleConfirm_def ik_HandleUnloggedReply_def)

lemma receive_inv:
  assumes inv: "ik_inv E c" and f: "0 \<le> ik_f c" and m: "ik_heard E m" "ik_answered c m"
  shows "after (ik_inv E) (ik_ReceiveMessage c m b)"
proof -
  obtain s j where s: "message_for s = Some (ik_clientid c, j)" "answers_to s m" "\<And>req. ik_pendingReqs c j = Some req \<Longrightarrow> belongs s req"
    using ik_answered_for [OF inv m(2)] by metis
  show ?thesis
  proof (cases "ik_pendingReqs c j")
    case None
    then show ?thesis using inv answer_unknown [OF s(1,2)] by simp
  next
    case (Some req)
    note b = s(3) [OF Some]
    have c1: "after (ik_inv E) (HandleConsensusReply c x b)" if "m = ReplyConsensusMessage x" "rk_opid x = (ik_clientid c, j)" "is_consensus req" for x
      using that m(1) f by (auto simp: is_consensus_def split: ip_kind.splits intro!: inv_consensus_reply [OF inv Some])
    have c2: "after (ik_inv E) (HandleInconsistentReply c x b)" if "ri_opid x = (ik_clientid c, j)" "ip_kind req = PendingInconsistent q" for x q
      using that by (intro inv_inconsistent_reply [OF inv Some])
    have c3: "after (ik_inv E) (HandleConfirm c x)" if "m = ConfirmMessage x" "ic_opid x = (ik_clientid c, j)"
        "\<And>k. ip_kind req = PendingConsensus k \<Longrightarrow> pk_sent_confirms k" for x
      using that m(1) f by (intro inv_confirm [OF inv Some]) auto
    have c4: "ik_inv E (ik_HandleUnloggedReply c r j)" if "\<not> is_consensus req" for r
      using inv_finish [OF inv Some] that by (simp add: ik_HandleUnloggedReply_def Some)
    show ?thesis
      using s(1,2) b c1 c2 c3 c4
      by (cases s; cases m) (auto simp: is_consensus_def split: ip_kind.splits)
  qed
qed

lemma send_kind:
  assumes "ik_inv E c" "ik_pendingReqs c i = Some req"
  shows "(case ip_kind req of PendingInconsistent x \<Rightarrow> True | _ \<Rightarrow> False) \<Longrightarrow> ik_inv E (SendInconsistent c req ok)"
    and "is_consensus req \<Longrightarrow> ik_inv E (SendConsensus c req ok)"
  using inv_request [OF assms] unfolding SendInconsistent_def SendConsensus_def
  by (auto intro!: inv_send_or_drop [OF assms] evolves_same simp: ik_message_def)

lemma confirmation_inv:
  assumes "ik_inv E c" "ik_pendingReqs c i = Some req" "callback_ok (OnResendConfirmation b) req"
  shows "after (ik_inv E) (ResendConfirmation c i b ok)"
  using inv_request [OF assms(1,2)] assms(3) unfolding ResendConfirmation_def
  by (auto simp: assms(2) finalize_message_def split: ip_kind.splits intro!: inv_send_or_drop [OF assms(1,2)] evolves_same)

lemma timer_inv:
  assumes inv: "ik_inv E c" and p: "ik_pendingReqs c i = Some req"
  shows "after (ik_inv E) (run_callback c i (fst (ip_timer req)) ok)"
proof -
  have cb: "callback_ok (fst (ip_timer req)) req" using inv_request [OF inv p] by (simp add: ik_req_ok_def)
  have "ik_inv E (ik_outcome (ik_drop c i) i (VFailed x y))" for x y by (rule inv_finish [OF inv p]) simp
  then show ?thesis
    using cb send_kind [OF inv p] confirmation_inv [OF inv p] inv_drop [OF inv p]
    by (cases "fst (ip_timer req)")
      (auto simp: ResendInconsistent_def ResendConsensus_def ik_UnloggedRequestTimeoutCallback_def p split: ip_kind.split)
qed

lemma confirms_ok_new [simp]: "confirms_ok E op (QuorumSet_new n)"
  by (simp add: confirms_ok_def)

lemma invoke_inv:
  assumes inv: "ik_inv E c" and n: "ik_lastReqId c \<noteq> - 1"
  shows "ik_inv E (ik_Invoke c request ok)"
    and "KInvokeConsensus request decide he ok \<in> E \<Longrightarrow> ik_inv E (InvokeConsensus c request decide he ok)"
    and "ik_inv E (ik_InvokeUnlogged c r request he ok)"
proof -
  let ?i = "ik_lastReqId c + 1"
  note grow = inv_grow [OF inv n]
  show "ik_inv E (ik_Invoke c request ok)"
    unfolding ik_Invoke_def InvokeInconsistent_def Let_def
    by (rule send_kind(1) [where i = ?i])
      (use grow [of "Some (PendingRequest_new request ?i OnResendInconsistent (QuorumSize (ik_f c)) (PendingInconsistent (QuorumSet_new (QuorumSize (ik_f c)))))"]
        in \<open>simp_all add: ik_put_def PendingRequest_new_def ik_req_ok_def\<close>)
  let ?k = "\<lparr>pk_consensusReplyQuorum = QuorumSet_new (QuorumSize (ik_f c)), pk_decide = decide, pk_decideResult = '''',
      pk_quorumSize = QuorumSize (ik_f c), pk_superQuorumSize = FastQuorumSize (ik_f c), pk_on_slow_path = False,
      pk_has_error = he, pk_transition_timer = True, pk_reply_consensus_view = 0, pk_sent_confirms = False\<rparr>"
  let ?req = "PendingRequest_new request ?i OnResendConsensus (QuorumSize (ik_f c)) (PendingConsensus ?k)"
  show "ik_inv E (InvokeConsensus c request decide he ok)" if "KInvokeConsensus request decide he ok \<in> E"
  proof -
    have "consensus_ok E (ik_f c) (ik_clientid c, ?i) ?req ?k"
      using that by (auto simp: consensus_ok_def replies_ok_def replies_heard_def PendingRequest_new_def QuorumSize_def)
        (simp_all add: QuorumSet_new_def)
    then have "ik_req_ok E (ik_f c) (ik_clientid c, ?i) ?req"
      by (simp add: ik_req_ok_def PendingRequest_new_def is_consensus_def)
    then show ?thesis
      unfolding InvokeConsensus_def Let_def
      by (intro send_kind(2) [where i = ?i]) (use grow [of "Some ?req"] in \<open>simp_all add: ik_put_def PendingRequest_new_def is_consensus_def\<close>)
  qed
  let ?u = "PendingRequest_new request ?i OnUnloggedTimeout 1 (PendingUnlogged he)"
  have u: "ik_req_ok E (ik_f c) (ik_clientid c, ?i) ?u" by (simp add: ik_req_ok_def PendingRequest_new_def)
  have free: "ik_pendingReqs c ?i = None"
    using inv next_id [OF n] by (cases "ik_pendingReqs c ?i") (auto simp: ik_inv_def dest!: leD)
  show "ik_inv E (ik_InvokeUnlogged c r request he ok)"
  proof (cases ok)
    case True
    have "ik_inv E (ik_put (ik_send (c\<lparr>ik_lastReqId := ?i\<rparr>) (VReplica r) (IUnloggedRequestMessage (ik_message (c\<lparr>ik_lastReqId := ?i\<rparr>) ?u))) (timer_on ?u))"
      by (rule ik_inv_change [OF grow [of "Some ?u"], where i = ?i and req = ?u and r' = "Some (timer_on ?u)"
            and ms = "[(VReplica r, IUnloggedRequestMessage (ik_message (c\<lparr>ik_lastReqId := ?i\<rparr>) ?u))]" and os = "[]"])
        (use u in \<open>auto simp: PendingRequest_new_def ik_message_def intro!: evolves_same\<close>)
    then show ?thesis using True by (simp add: ik_InvokeUnlogged_def Let_def)
  next
    case False
    have "(ik_pendingReqs c)(?i := None) = ik_pendingReqs c" using free by (simp add: fun_upd_idem)
    then show ?thesis using False grow [of None] by (simp add: ik_InvokeUnlogged_def Let_def)
  qed
qed

lemma ik_step_inv:
  assumes inv: "ik_inv E c" and f: "0 \<le> ik_f c" and n: "ik_lastReqId c \<noteq> - 1"
    and s: "case e of KReceive m ok \<Rightarrow> ik_answered c m | _ \<Rightarrow> True"
  shows "after (ik_inv (insert e E)) (ik_step c e)"
proof -
  have inv': "ik_inv (insert e E) c" by (rule ik_inv_mono [OF inv]) (use inv in \<open>auto simp: ik_inv_def\<close>)
  show ?thesis
  proof (cases e)
    case (KReceive m ok)
    then show ?thesis using receive_inv [OF inv' f, of m ok] s by (auto simp: ik_heard_def)
  next
    case (KTimer i ok)
    then show ?thesis using timer_inv [OF inv'] inv' by (simp split: option.split)
  next
    case (KTransition i ok)
    then show ?thesis using inv_transition [OF inv' _ _ f] inv' by (auto split: option.split ip_kind.splits)
  qed (use invoke_inv [OF inv' n] in auto)
qed

definition same_client :: "IRClient \<Rightarrow> IRClient \<Rightarrow> bool" where
  "same_client c c' \<longleftrightarrow> ik_clientid c' = ik_clientid c \<and> ik_f c' = ik_f c \<and> ik_lastReqId c' = ik_lastReqId c"

lemma same_send_or_drop [simp]: "same_client c (send_or_drop c req m ok)"
  by (simp add: send_or_drop_def same_client_def)

lemma same_slow_path: "after (same_client c) (HandleSlowPathConsensus c i msgs fin req k ok)"
  unfolding HandleSlowPathConsensus_def by (intro after_bindr_any) simp

lemma same_consensus:
  "after (same_client c) (HandleFastPathConsensus c i msgs req k ok)"
  "after (same_client c) (HandleConsensusReply c m ok)"
  "after (same_client c) (TransitionToConsensusSlowPath c i ok)"
proof -
  show fast: "after (same_client c) (HandleFastPathConsensus c i msgs req k ok)" for i msgs req k
    unfolding HandleFastPathConsensus_def by (auto simp: Let_def same_client_def [of c "ik_put _ _"] intro: same_slow_path split: option.split)
  show "after (same_client c) (HandleConsensusReply c m ok)"
    unfolding HandleConsensusReply_def Let_def
    by (auto simp: same_client_def [of c "ik_put _ _"] same_client_def [of c c] intro!: same_slow_path fast after_if split: option.split ip_kind.split prod.split)
  show "after (same_client c) (TransitionToConsensusSlowPath c i ok)"
    unfolding TransitionToConsensusSlowPath_def Let_def
    by (auto simp: same_client_def [of c "ik_put _ _"] intro: same_slow_path split: option.split ip_kind.split)
qed

lemma same_receive: "after (same_client c) (ik_ReceiveMessage c m ok)"
  by (cases m) (auto simp: same_consensus HandleInconsistentReply_def HandleConfirm_def ik_HandleUnloggedReply_def same_client_def Let_def
      split: option.split ip_kind.split prod.split)

lemma same_callback: "after (same_client c) (run_callback c i t ok)"
  by (cases t) (auto simp: ResendInconsistent_def ResendConsensus_def ResendConfirmation_def ik_UnloggedRequestTimeoutCallback_def
      SendInconsistent_def SendConsensus_def same_client_def [of c "ik_drop _ _"] same_client_def [of c "ik_outcome _ _ _"] same_client_def [of c c]
      split: option.split ip_kind.split)

lemma ik_step_frame:
  "after (\<lambda>c'. ik_clientid c' = ik_clientid c \<and> ik_f c' = ik_f c \<and> (ik_lastReqId c' = ik_lastReqId c \<or> ik_lastReqId c' = ik_lastReqId c + 1)) (ik_step c e)"
  (is "after ?P _")
proof -
  have same: "after ?P r" if "after (same_client c) r" for r
    using that by (rule after_mono) (simp add: same_client_def)
  have [simp]: "same_client c c" by (simp add: same_client_def)
  show ?thesis
  proof (cases e)
    case (KReceive m ok)
    then show ?thesis using same [OF same_receive] by simp
  next
    case (KTimer i ok)
    have "after (same_client c) (ik_step c e)" by (simp add: KTimer same_callback split: option.split)
    then show ?thesis by (rule same)
  next
    case (KTransition i ok)
    have "after (same_client c) (ik_step c e)" by (simp add: KTransition same_consensus(3) split: option.split)
    then show ?thesis by (rule same)
  qed (simp_all add: ik_Invoke_def InvokeInconsistent_def InvokeConsensus_def ik_InvokeUnlogged_def
        SendInconsistent_def SendConsensus_def send_or_drop_def Let_def)
qed

lemma next_last:
  fixes n m :: u64
  assumes "unat n + Suc k < 2 ^ 64"
  shows "n \<noteq> - 1" and "m = n \<or> m = n + 1 \<Longrightarrow> unat m + k < 2 ^ 64"
proof -
  have "unat (- 1 :: u64) = 2 ^ 64 - 1" by (simp add: unsigned_minus_1_eq_mask mask_eq_exp_minus_1)
  then show "n \<noteq> - 1" using assms by auto
  have "unat (n + 1) = unat n + 1" using assms by (simp add: unat_word_ariths(1))
  then show "unat m + k < 2 ^ 64" if "m = n \<or> m = n + 1" using assms that by auto
qed

lemma ik_step_next:
  assumes "ik_inv E c" "0 \<le> ik_f c" "case e of KReceive m ok \<Rightarrow> ik_answered c m | _ \<Rightarrow> True"
    and "ik_step c e = Inr c1" "unat (ik_lastReqId c) + Suc k < 2 ^ 64"
  shows "ik_inv (insert e E) c1" "ik_clientid c1 = ik_clientid c" "ik_f c1 = ik_f c" "unat (ik_lastReqId c1) + k < 2 ^ 64"
  using ik_step_inv [OF assms(1,2) next_last(1) [OF assms(5)] assms(3)] ik_step_frame [of c e] next_last(2) [OF assms(5), of "ik_lastReqId c1"] assms(4)
  by (simp_all add: after_def)

lemma ik_run_inv:
  assumes "ik_inv E c" "0 \<le> ik_f c" "solicited es c" "ik_run es c = Inr c'" "unat (ik_lastReqId c) + length es < 2 ^ 64"
  shows "ik_inv (E \<union> set es) c' \<and> ik_clientid c' = ik_clientid c \<and> ik_f c' = ik_f c"
  using assms
proof (induction es arbitrary: E c)
  case (Cons e es)
  obtain c1 where c1: "ik_step c e = Inr c1" "ik_run es c1 = Inr c'" using Cons.prems(4) by (auto simp: bindr_eq_Inr)
  note nxt = ik_step_next [OF Cons.prems(1,2) _ c1(1), of "length es"]
  have "ik_inv (insert e E \<union> set es) c' \<and> ik_clientid c' = ik_clientid c1 \<and> ik_f c' = ik_f c1"
    using Cons.IH [OF nxt(1) _ _ c1(2)] nxt Cons.prems c1(1) by simp
  then show ?case using nxt Cons.prems by simp
qed simp

section \<open>Definedness\<close>

text \<open>No send fails, and the functions that decide return.\<close>

fun event_ok :: "ik_event \<Rightarrow> bool" where
  "event_ok (KInvoke r ok) = ok"
| "event_ok (KInvokeConsensus r d he ok) = (ok \<and> (\<forall>x. \<not> isl (d x)))"
| "event_ok (KInvokeUnlogged i r he ok) = ok"
| "event_ok (KReceive m ok) = ok"
| "event_ok (KTimer i ok) = ok"
| "event_ok (KTransition i ok) = ok"

lemma slow_path_defined: "\<not> isl (pk_decide k (reply_counts msgs)) \<Longrightarrow> \<not> isl (HandleSlowPathConsensus c i msgs fin req k ok)"
  by (cases "pk_decide k (reply_counts msgs)") (auto simp: HandleSlowPathConsensus_def)

lemma ik_step_defined:
  assumes inv: "ik_inv E c" and E: "\<forall>e \<in> E. event_ok e" and e: "event_ok e"
    and s: "case e of KReceive m ok \<Rightarrow> ik_answered c m | _ \<Rightarrow> True"
  shows "\<not> isl (ik_step c e)"
proof -
  have decide: "\<not> isl (pk_decide k x)" if pk: "ik_pendingReqs c i = Some req" "ip_kind req = PendingConsensus k" for i req k x
  proof -
    obtain he ok where "KInvokeConsensus (ip_request req) (pk_decide k) he ok \<in> E"
      using inv_request [OF inv pk(1)] pk(2) by (auto simp: ik_req_ok_def consensus_ok_def)
    then show ?thesis using E by fastforce
  qed
  have slow: "\<not> isl (HandleSlowPathConsensus c i msgs fin req k' ok)"
    if "ik_pendingReqs c i = Some req" "ip_kind req = PendingConsensus k" "pk_decide k' = pk_decide k" for i req k k' msgs fin ok
    by (rule slow_path_defined) (simp add: that(3) decide [OF that(1,2)])
  show ?thesis
  proof (cases e)
    case (KReceive m ok)
    then have ok: ok "ik_answered c m" using e s by auto
    obtain x j where x: "message_for x = Some (ik_clientid c, j)" "answers_to x m" "\<And>req. ik_pendingReqs c j = Some req \<Longrightarrow> belongs x req"
      using ik_answered_for [OF inv ok(2)] by metis
    have "\<not> isl (ik_ReceiveMessage c m ok)"
    proof (cases "ik_pendingReqs c j")
      case None
      then show ?thesis using answer_unknown [OF x(1,2)] by simp
    next
      case (Some req)
      have "\<not> isl (HandleConsensusReply c y ok)" if "snd (rk_opid y) = j" "is_consensus req" for y
        using that ok(1) Some by (auto simp: HandleConsensusReply_def HandleFastPathConsensus_def GetMessages_eq Let_def is_consensus_def slow
            split: option.split ip_kind.splits)
      moreover have "\<not> isl (HandleInconsistentReply c y ok)" if "snd (ri_opid y) = j" "ip_kind req = PendingInconsistent q" for y q
        using that Some by (auto simp: HandleInconsistentReply_def Let_def split: prod.split)
      moreover have "\<not> isl (HandleConfirm c y)" if "snd (ic_opid y) = j" "is_consensus req \<or> ip_continuationInvoked req" for y
        using that Some by (auto simp: HandleConfirm_def Let_def is_consensus_def split: option.split ip_kind.splits prod.split)
      ultimately show ?thesis
        using x(1,2) x(3) [OF Some] by (cases x; cases m) (auto simp: is_consensus_def split: ip_kind.splits)
    qed
    then show ?thesis by (simp add: KReceive)
  next
    case (KTimer i ok)
    have "\<not> isl (run_callback c i (fst (ip_timer req)) ok)" if p: "ik_pendingReqs c i = Some req" for req
    proof -
      have "callback_ok (fst (ip_timer req)) req" using inv_request [OF inv p] by (simp add: ik_req_ok_def)
      then show ?thesis
        by (cases "fst (ip_timer req)") (auto simp: p ResendInconsistent_def ResendConsensus_def ResendConfirmation_def ik_UnloggedRequestTimeoutCallback_def
            split: ip_kind.splits)
    qed
    then show ?thesis by (simp add: KTimer split: option.split)
  next
    case (KTransition i ok)
    then show ?thesis using slow by (auto simp: TransitionToConsensusSlowPath_def Let_def split: option.split ip_kind.splits)
  qed simp_all
qed

section \<open>Properties\<close>

text \<open>Two of three replicas give different results; the client leaves the fast path, decides and has its
  decision confirmed.\<close>

definition demo_reply :: "int \<Rightarrow> string \<Rightarrow> ik_event" where
  "demo_reply i r = KReceive (ReplyConsensusMessage \<lparr>rk_view = 0, rk_replicaIdx = i, rk_opid = (7, 1), rk_result = r, rk_finalized = False\<rparr>) True"

definition demo_confirm :: "int \<Rightarrow> ik_event" where
  "demo_confirm i = KReceive (ConfirmMessage \<lparr>ic_view = 0, ic_replicaIdx = i, ic_opid = (7, 1)\<rparr>) True"

definition demo_history :: "ik_event list" where
  "demo_history = [KInvokeConsensus ''lock'' (\<lambda>rs. Inr ''no'') True True, demo_reply 0 ''ok'', demo_reply 1 ''no'', KTransition 1 True,
     demo_confirm 0, demo_confirm 1]"

definition demo_ik :: IRClient where
  "demo_ik = projr (ik_run demo_history (IRClient_new 7 1))"

lemma demo_ik_run: "ik_run demo_history (IRClient_new 7 1) = Inr demo_ik"
  unfolding demo_ik_def by (rule sum.collapse(2) [symmetric]) code_simp

lemma demo_solicited: "solicited demo_history (IRClient_new 7 1)"
  by code_simp

lemma client_backed:
  assumes "ik_run es (IRClient_new cid f) = Inr c" "solicited es (IRClient_new cid f)" "length es < 2 ^ 64" "0 \<le> f"
    and "(i, VReplied request r) \<in> set (ik_outcomes c)" "(d, ProposeConsensusMessage q) \<in> set (ik_sent c)" "vq_clientreqid q = i"
  shows "consensus_backed (set es) f (cid, i) request r"
proof -
  have "ik_inv ({} \<union> set es) c \<and> ik_clientid c = ik_clientid (IRClient_new cid f) \<and> ik_f c = ik_f (IRClient_new cid f)"
    by (rule ik_run_inv [OF ik_inv_new _ assms(2,1)]) (use assms(3,4) in \<open>simp_all add: IRClient_new_def\<close>)
  then have inv: "ik_inv (set es) c" "ik_clientid c = cid" "ik_f c = f" by (simp_all add: IRClient_new_def)
  then have "outcome_ok (set es) c (i, VReplied request r)" using assms(5) by (auto simp: ik_inv_def)
  then show ?thesis using assms(6,7) inv(2,3) by (auto simp: outcome_ok_def other_operation_def)
qed

text \<open>C29. What the client of inconsistent replication reports as the result of a consensus operation is
  backed by replicas: if every message it receives answers one it has sent, as replicas do
  (\<open>replica_answers\<close>), then a result that reaches the application was given by a fast quorum of replicas
  in one view, or a quorum of replicas confirmed it in the view in which the client had found it
  finalized, or had decided it from the replies of a quorum.\<close>

theorem ir_client_consensus_backed:
  assumes "ik_run es (IRClient_new cid f) = Inr c" "solicited es (IRClient_new cid f)" "length es < 2 ^ 64" "0 \<le> f"
    and "(i, VReplied request r) \<in> set (ik_outcomes c)" "(d, ProposeConsensusMessage q) \<in> set (ik_sent c)" "vq_clientreqid q = i"
  shows "(\<exists>v. FastQuorumSize f \<le> int (card (repliers (set es) (cid, i) v r))) \<or>
    (\<exists>v. QuorumSize f \<le> int (card (confirmers (set es) (cid, i) v)) \<and>
      (finalized_heard (set es) (cid, i) v r \<or> decided_heard (set es) f (cid, i) request v r))"
  using client_backed [OF assms] by (simp add: consensus_backed_def QuorumSize_def)

theorem ir_client_consensus_backed_witness:
  "ik_outcomes demo_ik = [(1, VReplied ''lock'' ''no'')] \<and>
   ((\<exists>v. FastQuorumSize 1 \<le> int (card (repliers (set demo_history) (7, 1) v ''no''))) \<or>
    (\<exists>v. QuorumSize 1 \<le> int (card (confirmers (set demo_history) (7, 1) v)) \<and>
      (finalized_heard (set demo_history) (7, 1) v ''no'' \<or> decided_heard (set demo_history) 1 (7, 1) ''lock'' v ''no'')))"
proof -
  have out: "ik_outcomes demo_ik = [(1, VReplied ''lock'' ''no'')]" by code_simp
  have sent: "(VAll, ProposeConsensusMessage \<lparr>vq_op = ''lock'', vq_clientid = 7, vq_clientreqid = 1\<rparr>) \<in> set (ik_sent demo_ik)" by code_simp
  from ir_client_consensus_backed [OF demo_ik_run demo_solicited _ _ _ sent, of 1 "''lock''" "''no''"] out
  show ?thesis by (simp add: demo_history_def)
qed

text \<open>C32. The client of inconsistent replication has no undefined behaviour while its sends succeed: every
  history in which the received messages answer sent ones and the functions that decide return ends in
  a state of the client.\<close>

theorem ir_client_defined:
  assumes "solicited es (IRClient_new cid f)" "length es < 2 ^ 64" "0 \<le> f" "list_all event_ok es"
  shows "\<exists>c. ik_run es (IRClient_new cid f) = Inr c"
proof -
  have "\<exists>c'. ik_run xs c = Inr c'"
    if "ik_inv E c" "0 \<le> ik_f c" "\<forall>e \<in> E. event_ok e" "solicited xs c" "list_all event_ok xs" "unat (ik_lastReqId c) + length xs < 2 ^ 64" for xs E c
    using that
  proof (induction xs arbitrary: E c)
    case (Cons e es)
    obtain c1 where c1: "ik_step c e = Inr c1"
      using ik_step_defined [OF Cons.prems(1,3), of e] Cons.prems(4,5) by (cases "ik_step c e") auto
    note nxt = ik_step_next [OF Cons.prems(1,2) _ c1, of "length es"]
    show ?case using Cons.IH [OF nxt(1)] nxt Cons.prems c1 by simp
  qed simp
  from this [OF ik_inv_new, of cid f es] assms show ?thesis by (simp add: IRClient_new_def)
qed

theorem ir_client_defined_witness: "\<exists>c. ik_run demo_history (IRClient_new 7 1) = Inr c"
  by (rule ir_client_defined [OF demo_solicited]) (simp_all add: demo_history_def demo_reply_def demo_confirm_def)

text \<open>If the finalization that follows a fast quorum cannot be sent, the request is deleted and then
  read.\<close>

lemma failed_finalize_reads_deleted:
  "(case ik_run [KInvokeConsensus ''lock'' (\<lambda>rs. Inr ''no'') True True, demo_reply 0 ''ok'', demo_reply 1 ''ok'',
     KReceive (ReplyConsensusMessage \<lparr>rk_view = 0, rk_replicaIdx = 2, rk_opid = (7, 1), rk_result = ''ok'', rk_finalized = False\<rparr>) False]
     (IRClient_new 7 1) of Inl e \<Rightarrow> e = VUB UseAfterFree | Inr c \<Rightarrow> False)"
  by code_simp

definition demo_overwritten :: IRClient where
  "demo_overwritten = projr (ik_run
     (KInvokeConsensus ''lock'' (\<lambda>rs. Inr (fst (hd rs))) True True # demo_reply 0 ''old'' # demo_reply 1 ''old'' #
      map (\<lambda>i. KReceive (ReplyConsensusMessage \<lparr>rk_view = 1, rk_replicaIdx = i, rk_opid = (7, 1), rk_result = ''new'', rk_finalized = False\<rparr>) True) [0, 1, 2] @
      [KTransition 1 True]) (IRClient_new 7 1))"

text \<open>The fast path leaves the timer of the slow path armed. When it fires the client decides again, from the
  first view with a quorum, and has the replicas finalize a result other than the one it has returned.\<close>

lemma fast_result_overwritten:
  "ik_outcomes demo_overwritten = [(1, VReplied ''lock'' ''new'')] \<and>
   snd (last (ik_sent demo_overwritten)) = FinalizeConsensusMessage (7, 1) ''old''"
  by code_simp

end
