(* ===== verification/LockService.thy ===== *)
theory LockService
  imports IRClientSafety Promises
begin

text \<open>
  src/lockserver/server.cc and client.cc: the lock service on inconsistent replication.

  \<^item> How protobuf writes and reads a request and a reply is an argument (\<open>lock_codec\<close>); \<open>codec_ok\<close> says
    that what is written is read back.
  \<^item> The lock table is a map. \<^verbatim>\<open>Sync\<close> iterates two unordered sets of clients: the order in which the
    library iterates the elements inserted so far is an argument, which \<open>order_ok\<close> says is a list of them.
    It passes these ranges to \<^verbatim>\<open>std::set_difference\<close>, which is specified for sorted ranges;
    \<open>set_difference\<close> is the merge that the library runs.
  \<^item> The client has two threads. \<^verbatim>\<open>waiting\<close> is a pointer into a heap of promises; the operations of
    the application thread are split where it blocks.
\<close>

section \<open>Messages\<close>

record LockRequest =
  lq_clientid :: u64
  lq_key :: string
  lq_type :: bool

record LockReply =
  ly_key :: string
  ly_status :: int

record lock_codec =
  lc_parse_request :: "string \<Rightarrow> LockRequest"
  lc_print_request :: "LockRequest \<Rightarrow> string"
  lc_parse_reply :: "string \<Rightarrow> LockReply"
  lc_print_reply :: "LockReply \<Rightarrow> string"

definition codec_ok :: "lock_codec \<Rightarrow> bool" where
  "codec_ok P \<longleftrightarrow> (\<forall>q. lc_parse_request P (lc_print_request P q) = q) \<and> (\<forall>r. lc_parse_reply P (lc_print_reply P r) = r)"

section \<open>Server\<close>

type_synonym lock_table = "string \<rightharpoonup> u64"

definition lock_ExecInconsistentUpcall :: "lock_codec \<Rightarrow> lock_table \<Rightarrow> string \<Rightarrow> lock_table" where
  "lock_ExecInconsistentUpcall P locks str1 =
     (let request = lc_parse_request P str1; key = lq_key request in
      if lq_type request then locks
      else if locks key = Some (lq_clientid request) then locks(key := None)
      else locks)"

definition lock_ExecConsensusUpcall :: "lock_codec \<Rightarrow> lock_table \<Rightarrow> string \<Rightarrow> string \<times> lock_table" where
  "lock_ExecConsensusUpcall P locks str1 =
     (let request = lc_parse_request P str1; key = lq_key request; client_id = lq_clientid request;
          (status, locks) =
            (if lq_type request then
               (case locks key of
                  None \<Rightarrow> (0, locks(key \<mapsto> client_id))
                | Some holder \<Rightarrow> (if holder \<noteq> client_id then - 1 else 0, locks))
             else
               (case locks key of
                  None \<Rightarrow> (- 2, locks)
                | Some holder \<Rightarrow> if holder \<noteq> client_id then (- 2, locks) else (0, locks(key := None))))
      in (lc_print_reply P \<lparr>ly_key = key, ly_status = status\<rparr>, locks))"

fun set_difference :: "u64 list \<Rightarrow> u64 list \<Rightarrow> u64 list" where
  "set_difference [] ys = []"
| "set_difference (x # xs) [] = x # xs"
| "set_difference (x # xs) (y # ys) =
     (if x < y then x # set_difference xs (y # ys)
      else if y < x then set_difference (x # xs) ys
      else set_difference xs ys)"

text \<open>The clients that locked and unlocked a key, in the order of the record.\<close>

definition lockers :: "lock_codec \<Rightarrow> bool \<Rightarrow> Record \<Rightarrow> string \<Rightarrow> u64 list" where
  "lockers P type record key = [lq_clientid q. (op, e) \<leftarrow> record, q \<leftarrow> [lc_parse_request P (vq_op (re_request e))],
     lq_key q = key \<and> lq_type q = type \<and> ly_status (lc_parse_reply P (re_result e)) = 0]"

definition sync_owner :: "lock_codec \<Rightarrow> (u64 list \<Rightarrow> u64 list) \<Rightarrow> Record \<Rightarrow> string \<Rightarrow> u64 option" where
  "sync_owner P ord record key =
     (case remdups (set_difference (ord (lockers P True record key)) (ord (lockers P False record key))) of
        [client_id] \<Rightarrow> Some client_id
      | _ \<Rightarrow> None)"

definition lock_Sync :: "lock_codec \<Rightarrow> (u64 list \<Rightarrow> u64 list) \<Rightarrow> Record \<Rightarrow> lock_table" where
  "lock_Sync P ord record = (\<lambda>key.
     if key \<in> set (map (\<lambda>(op, e). lq_key (lc_parse_request P (vq_op (re_request e)))) record)
     then sync_owner P ord record key else None)"

text \<open>One operation with a majority result.\<close>

definition merge_decided ::
  "lock_codec \<Rightarrow> (opid \<times> string) list \<Rightarrow> opid \<times> RecordEntry list \<Rightarrow> (opid \<times> string) list \<times> lock_table \<Rightarrow>
   vr_err + (opid \<times> string) list \<times> lock_table" where
  "merge_decided P majority_results p acc =
     (let (op, entries) = p; (results, locks) = acc in
      case (entries, map_of majority_results op) of
        (entry # es, Some result) \<Rightarrow>
          let request = lc_parse_request P (vq_op (re_request entry)); reply = lc_parse_reply P result in
          Inr (if ly_status reply = 0 then
                 if locks (ly_key reply) = None
                 then (smap_put op result results, locks(ly_key reply \<mapsto> lq_clientid request))
                 else (smap_put op (lc_print_reply P (reply\<lparr>ly_status := - 1\<rparr>)) results, locks)
               else (smap_put op result results, locks))
      | _ \<Rightarrow> Inl (VUB EndDeref))"

definition merge_undecided :: "lock_codec \<Rightarrow> opid \<times> RecordEntry list \<Rightarrow> (opid \<times> string) list \<Rightarrow> vr_err + (opid \<times> string) list" where
  "merge_undecided P p results =
     (case p of
        (op, entry # es) \<Rightarrow>
          Inr (smap_put op (lc_print_reply P \<lparr>ly_key = lq_key (lc_parse_request P (vq_op (re_request entry))), ly_status = - 1\<rparr>) results)
      | (op, []) \<Rightarrow> Inl (VUB EndDeref))"

primrec foldr_err :: "('x \<Rightarrow> 's \<Rightarrow> 'e + 's) \<Rightarrow> 'x list \<Rightarrow> 's \<Rightarrow> 'e + 's" where
  "foldr_err f [] s = Inr s"
| "foldr_err f (x # xs) s = bindr (f x s) (foldr_err f xs)"

definition lock_Merge ::
  "lock_codec \<Rightarrow> lock_table \<Rightarrow> opid_groups \<Rightarrow> opid_groups \<Rightarrow> (opid \<times> string) list \<Rightarrow> vr_err + (opid \<times> string) list \<times> lock_table" where
  "lock_Merge P locks d u majority_results_in_d =
     bindr (foldr_err (merge_decided P majority_results_in_d) d ([], locks)) (\<lambda>(results, locks).
     bindr (foldr_err (merge_undecided P) u results) (\<lambda>results. Inr (results, locks)))"

definition lock_app :: "lock_codec \<Rightarrow> (u64 list \<Rightarrow> u64 list) \<Rightarrow> lock_table IRAppReplica" where
  "lock_app P ord = \<lparr>ia_ExecInconsistentUpcall = (\<lambda>locks str1. Inr (lock_ExecInconsistentUpcall P locks str1)),
     ia_ExecConsensusUpcall = (\<lambda>locks str1. Inr (lock_ExecConsensusUpcall P locks str1)),
     ia_UnloggedUpcall = (\<lambda>locks str1. Inr ([], locks)),
     ia_Sync = (\<lambda>locks record. Inr (lock_Sync P ord record)),
     ia_Merge = lock_Merge P\<rparr>"

section \<open>Client\<close>

text \<open>The counter is an \<^verbatim>\<open>int\<close>; a reply's key is that of the last result.\<close>

definition lock_Decide :: "lock_codec \<Rightarrow> (string \<times> nat) list \<Rightarrow> string" where
  "lock_Decide P results =
     (let success_count = sum_list (map (\<lambda>(s, count). if ly_status (lc_parse_reply P s) = 0 then count else 0) results);
          key = (if results = [] then [] else ly_key (lc_parse_reply P (fst (last results))))
      in lc_print_reply P \<lparr>ly_key = key, ly_status = if success_count \<ge> 2 then 0 else - 1\<rparr>)"

datatype lock_action = DoLock string | DoUnlock string

record LockClient =
  lk_client_id :: u64
  lk_client :: IRClient
  lk_promises :: "Promise option list"
  lk_waiting :: "nat option"
  lk_deferred :: "lock_action list"
  lk_blocked :: "nat option"
  lk_results :: "bool list"

definition LockClient_new :: "u64 \<Rightarrow> int \<Rightarrow> LockClient" where
  "LockClient_new client_id f =
     \<lparr>lk_client_id = client_id, lk_client = IRClient_new client_id f, lk_promises = [], lk_waiting = None, lk_deferred = [],
      lk_blocked = None, lk_results = []\<rparr>"

definition lk_request :: "lock_codec \<Rightarrow> LockClient \<Rightarrow> string \<Rightarrow> bool \<Rightarrow> string" where
  "lk_request P c key type = lc_print_request P \<lparr>lq_clientid = lk_client_id c, lq_key = key, lq_type = type\<rparr>"

definition lk_new_promise :: "LockClient \<Rightarrow> LockClient" where
  "lk_new_promise c = c\<lparr>lk_promises := lk_promises c @ [Some (Promise_timeout 1000)], lk_waiting := Some (length (lk_promises c))\<rparr>"

definition lock_async :: "lock_codec \<Rightarrow> LockClient \<Rightarrow> string \<Rightarrow> LockClient" where
  "lock_async P c key = (lk_new_promise c)\<lparr>lk_deferred := lk_deferred c @ [DoLock (lk_request P c key True)]\<rparr>"

definition unlock_async :: "lock_codec \<Rightarrow> LockClient \<Rightarrow> string \<Rightarrow> LockClient" where
  "unlock_async P c key = (lk_new_promise c)\<lparr>lk_deferred := lk_deferred c @ [DoUnlock (lk_request P c key False)]\<rparr>"

text \<open>The first statement of \<^verbatim>\<open>lock_wait\<close> and of \<^verbatim>\<open>unlock_wait\<close> blocks on the promise; the rest deletes what
  \<^verbatim>\<open>waiting\<close> then points to. Only \<^verbatim>\<open>lock_wait\<close> looks at the reply.\<close>

definition wait_begin :: "LockClient \<Rightarrow> vr_err + LockClient" where
  "wait_begin c = (case lk_waiting c of None \<Rightarrow> Inl (VUB NullDeref) | Some p \<Rightarrow> Inr (c\<lparr>lk_blocked := Some p\<rparr>))"

definition wait_end :: "LockClient \<Rightarrow> vr_err + LockClient" where
  "wait_end c =
     (case lk_blocked c of
        None \<Rightarrow> Inr c
      | Some p \<Rightarrow>
          (case lk_promises c ! p of
             None \<Rightarrow> Inl (VUB UseAfterFree)
           | Some promise \<Rightarrow>
               (case GetReply promise of
                  None \<Rightarrow> Inr c
                | Some status \<Rightarrow>
                    let ps = (case lk_waiting c of None \<Rightarrow> lk_promises c | Some w \<Rightarrow> (lk_promises c)[w := None])
                    in Inr (c\<lparr>lk_promises := ps, lk_waiting := None, lk_blocked := None, lk_results := lk_results c @ [status = 0]\<rparr>))))"

text \<open>The callbacks: the promise is replied to through the pointer.\<close>

definition reply_waiting :: "LockClient \<Rightarrow> int \<Rightarrow> vr_err + LockClient" where
  "reply_waiting c status =
     (case lk_waiting c of
        None \<Rightarrow> Inl (VUB NullDeref)
      | Some w \<Rightarrow>
          (case lk_promises c ! w of
             None \<Rightarrow> Inl (VUB UseAfterFree)
           | Some promise \<Rightarrow> Inr (c\<lparr>lk_waiting := None, lk_promises := (lk_promises c)[w := Some (Reply_status promise status)]\<rparr>)))"

definition LockCallback :: "lock_codec \<Rightarrow> LockClient \<Rightarrow> string \<Rightarrow> vr_err + LockClient" where
  "LockCallback P c reply_str = reply_waiting c (ly_status (lc_parse_reply P reply_str))"

definition UnlockCallback :: "LockClient \<Rightarrow> vr_err + LockClient" where
  "UnlockCallback c = reply_waiting c 0"

definition ErrorCallback :: "LockClient \<Rightarrow> vr_err + LockClient" where
  "ErrorCallback c = reply_waiting c (- 3)"

text \<open>A continuation is called with the request it was given with: that of \<^verbatim>\<open>InvokeConsensus\<close> is
  \<^verbatim>\<open>LockCallback\<close>, that of \<^verbatim>\<open>InvokeInconsistent\<close> is \<^verbatim>\<open>UnlockCallback\<close>.\<close>

definition lk_continue :: "lock_codec \<Rightarrow> LockClient \<Rightarrow> vc_outcome \<Rightarrow> vr_err + LockClient" where
  "lk_continue P c x =
     (case x of
        VReplied request reply \<Rightarrow> if lq_type (lc_parse_request P request) then LockCallback P c reply else UnlockCallback c
      | VFailed request e \<Rightarrow> ErrorCallback c)"

datatype lk_event = LLock string | LUnlock string | LWaitBegin | LWaitEnd | LDeferred bool | LClient ik_event

text \<open>A step of the client of inconsistent replication, with the continuations that it calls.\<close>

definition lk_ik_step :: "lock_codec \<Rightarrow> LockClient \<Rightarrow> ik_event \<Rightarrow> vr_err + LockClient" where
  "lk_ik_step P c e =
     bindr (ik_step (lk_client c) e) (\<lambda>ik.
       foldr_err (\<lambda>x c. lk_continue P c (snd x)) (drop (length (ik_outcomes (lk_client c))) (ik_outcomes ik)) (c\<lparr>lk_client := ik\<rparr>))"

fun lk_step :: "lock_codec \<Rightarrow> LockClient \<Rightarrow> lk_event \<Rightarrow> vr_err + LockClient" where
  "lk_step P c (LLock key) = Inr (lock_async P c key)"
| "lk_step P c (LUnlock key) = Inr (unlock_async P c key)"
| "lk_step P c LWaitBegin = wait_begin c"
| "lk_step P c LWaitEnd = wait_end c"
| "lk_step P c (LDeferred ok) =
     (case lk_deferred c of
        [] \<Rightarrow> Inr c
      | DoLock request # rest \<Rightarrow>
          lk_ik_step P (c\<lparr>lk_deferred := rest\<rparr>) (KInvokeConsensus request (\<lambda>results. Inr (lock_Decide P results)) True ok)
      | DoUnlock request # rest \<Rightarrow> lk_ik_step P (c\<lparr>lk_deferred := rest\<rparr>) (KInvoke request ok))"
| "lk_step P c (LClient e) = lk_ik_step P c e"

primrec lk_run :: "lock_codec \<Rightarrow> lk_event list \<Rightarrow> LockClient \<Rightarrow> vr_err + LockClient" where
  "lk_run P [] c = Inr c"
| "lk_run P (e # es) c = bindr (lk_step P c e) (lk_run P es)"

section \<open>Merging\<close>

abbreviation granted :: "lock_codec \<Rightarrow> string \<Rightarrow> bool" where
  "granted P r \<equiv> ly_status (lc_parse_reply P r) = 0"

abbreviation key_of :: "lock_codec \<Rightarrow> string \<Rightarrow> string" where
  "key_of P r \<equiv> ly_key (lc_parse_reply P r)"

definition requester :: "lock_codec \<Rightarrow> RecordEntry list \<Rightarrow> u64" where
  "requester P es = lq_clientid (lc_parse_request P (vq_op (re_request (hd es))))"

text \<open>Every granted operation has its key, which was free, and no two have the same.\<close>

definition grants_ok :: "lock_codec \<Rightarrow> lock_table \<Rightarrow> opid_groups \<Rightarrow> (opid \<times> string) list \<times> lock_table \<Rightarrow> bool" where
  "grants_ok P locks d acc \<longleftrightarrow> locks \<subseteq>\<^sub>m snd acc \<and>
     (\<forall>op r. map_of (fst acc) op = Some r \<and> granted P r \<longrightarrow>
        locks (key_of P r) = None \<and> (\<exists>es. (op, es) \<in> set d \<and> snd acc (key_of P r) = Some (requester P es))) \<and>
     (\<forall>op op' r r'. map_of (fst acc) op = Some r \<and> map_of (fst acc) op' = Some r' \<and> granted P r \<and> granted P r' \<and>
        key_of P r = key_of P r' \<longrightarrow> op = op')"

lemma grants_ok_refuse:
  assumes "grants_ok P locks d (results, t)" "\<not> granted P r"
  shows "grants_ok P locks d (smap_put op r results, t)"
  using assms unfolding grants_ok_def by (auto split: if_splits)

lemma grants_ok_grant:
  assumes g: "grants_ok P locks d (results, t)" and d: "(op, es) \<in> set d" and r: "granted P r" "t (key_of P r) = None"
  shows "grants_ok P locks d (smap_put op r results, t(key_of P r \<mapsto> requester P es))"
proof -
  have sub: "locks \<subseteq>\<^sub>m t" using g by (simp add: grants_ok_def)
  have free: "locks (key_of P r) = None" using sub r(2) by (metis domIff map_le_def)
  have old: "key_of P x \<noteq> key_of P r" if "map_of results op' = Some x" "granted P x" for op' x
    using g r(2) that unfolding grants_ok_def by (metis fst_conv option.distinct(1) snd_conv)
  have "locks \<subseteq>\<^sub>m t(key_of P r \<mapsto> requester P es)" using sub free by (auto simp: map_le_def)
  moreover have "locks (key_of P x) = None \<and> (\<exists>ys. (op', ys) \<in> set d \<and> (t(key_of P r \<mapsto> requester P es)) (key_of P x) = Some (requester P ys))"
    if "map_of (smap_put op r results) op' = Some x" "granted P x" for op' x
  proof (cases "op' = op")
    case True
    then show ?thesis using that(1) free d by auto
  next
    case False
    then have x: "map_of results op' = Some x" using that(1) by simp
    then have "locks (key_of P x) = None \<and> (\<exists>ys. (op', ys) \<in> set d \<and> t (key_of P x) = Some (requester P ys))"
      using g that(2) unfolding grants_ok_def fst_conv snd_conv by blast
    then show ?thesis using old [OF x that(2)] by simp
  qed
  moreover have "op1 = op2" if "map_of (smap_put op r results) op1 = Some x1" "map_of (smap_put op r results) op2 = Some x2"
      "granted P x1" "granted P x2" "key_of P x1 = key_of P x2" for op1 op2 x1 x2
  proof -
    consider "op1 = op2" | "op1 = op" "op2 \<noteq> op" | "op1 \<noteq> op" "op2 = op" | "op1 \<noteq> op" "op2 \<noteq> op" by blast
    then show ?thesis
    proof cases
      case 2 then show ?thesis using that old [of op2 x2] by simp
    next
      case 3 then show ?thesis using that old [of op1 x1] by simp
    next
      case 4
      then have "map_of results op1 = Some x1" "map_of results op2 = Some x2" using that(1,2) by simp_all
      then show ?thesis using that(3-5) g unfolding grants_ok_def fst_conv snd_conv by blast
    qed
  qed
  ultimately show ?thesis unfolding grants_ok_def fst_conv snd_conv by blast
qed

lemma merge_decided_grants:
  assumes c: "codec_ok P" and g: "grants_ok P locks d acc" and p: "p \<in> set d"
  shows "after (grants_ok P locks d) (merge_decided P maj p acc)"
proof -
  obtain op es results t where eq: "p = (op, es)" "acc = (results, t)" by (cases p, cases acc)
  show ?thesis
  proof (cases es)
    case (Cons e rest)
    show ?thesis
    proof (cases "map_of maj op")
      case (Some r)
      have "\<not> granted P (lc_print_reply P (lc_parse_reply P r\<lparr>ly_status := - 1\<rparr>))" using c by (simp add: codec_ok_def)
      then show ?thesis
        using g grants_ok_refuse [of P locks d results t] grants_ok_grant [of P locks d results t op es r] p
        by (auto simp: merge_decided_def eq Cons Some Let_def requester_def)
    qed (simp add: merge_decided_def eq Cons)
  qed (simp add: merge_decided_def eq)
qed

lemma merge_undecided_grants:
  assumes "codec_ok P" "grants_ok P locks d (results, t)"
  shows "after (\<lambda>results. grants_ok P locks d (results, t)) (merge_undecided P p results)"
  using assms by (auto simp: merge_undecided_def codec_ok_def split: prod.split list.split intro!: grants_ok_refuse)

lemma after_foldr_err:
  assumes "I s" "\<And>x s. x \<in> set xs \<Longrightarrow> I s \<Longrightarrow> after I (f x s)"
  shows "after I (foldr_err f xs s)"
  using assms
proof (induction xs arbitrary: s)
  case (Cons x xs)
  show ?case unfolding foldr_err.simps by (rule after_bindr [of I]) (use Cons in auto)
qed simp

text \<open>The lock server's merge answers for exactly the operations it is given.\<close>

lemma merge_decided_keys:
  "foldr_err (merge_decided P maj) d acc = Inr acc' \<Longrightarrow> ascending (fst acc) \<Longrightarrow>
   ascending (fst acc') \<and> fst ` set (fst acc') = fst ` set (fst acc) \<union> fst ` set d"
proof (induction d arbitrary: acc)
  case (Cons p d)
  then obtain acc1 where s: "merge_decided P maj p acc = Inr acc1" "foldr_err (merge_decided P maj) d acc1 = Inr acc'"
    by (auto simp: bindr_eq_Inr)
  then obtain v where "fst acc1 = smap_put (fst p) v (fst acc)"
    by (auto simp: merge_decided_def Let_def split: prod.splits list.splits option.splits if_splits)
  then have "ascending (fst acc1)" "fst ` set (fst acc1) = insert (fst p) (fst ` set (fst acc))"
    using Cons.prems(2) by (simp_all add: ascending_smap_put fst_set_smap_put)
  with Cons.IH [OF s(2)] show ?case by simp
qed simp

lemma merge_undecided_keys:
  "foldr_err (merge_undecided P) u results = Inr results' \<Longrightarrow> ascending results \<Longrightarrow>
   ascending results' \<and> fst ` set results' = fst ` set results \<union> fst ` set u"
proof (induction u arbitrary: results)
  case (Cons p u)
  then obtain r1 where s: "merge_undecided P p results = Inr r1" "foldr_err (merge_undecided P) u r1 = Inr results'"
    by (auto simp: bindr_eq_Inr)
  then obtain v where "r1 = smap_put (fst p) v results"
    by (auto simp: merge_undecided_def split: prod.splits list.splits)
  then have "ascending r1" "fst ` set r1 = insert (fst p) (fst ` set results)"
    using Cons.prems(2) by (simp_all add: ascending_smap_put fst_set_smap_put)
  with Cons.IH [OF s(2)] show ?case by simp
qed simp

lemma lock_app_answers: "merge_answers (lock_app P ord)"
  unfolding merge_answers_def
proof (intro allI impI)
  fix locks d u maj results locks'
  assume "distinct (map fst (d @ u)) \<and> map fst maj = map fst d \<and> ia_Merge (lock_app P ord) locks d u maj = Inr (results, locks')"
  then obtain r1 where "foldr_err (merge_decided P maj) d ([], locks) = Inr (r1, locks')" "foldr_err (merge_undecided P) u r1 = Inr results"
    by (auto simp: lock_app_def lock_Merge_def bindr_eq_Inr)
  from merge_decided_keys [OF this(1)] merge_undecided_keys [OF this(2)]
  show "ascending results \<and> fst ` set results = fst ` set d \<union> fst ` set u" by simp
qed

lemma lock_merge_grants: "codec_ok P \<Longrightarrow> after (grants_ok P locks d) (lock_Merge P locks d u maj)"
  unfolding lock_Merge_def
proof (rule after_bindr [where P = "grants_ok P locks d"])
  assume c: "codec_ok P"
  show "after (grants_ok P locks d) (foldr_err (merge_decided P maj) d ([], locks))"
  proof (rule after_foldr_err)
    show "grants_ok P locks d ([], locks)" by (simp add: grants_ok_def)
  qed (rule merge_decided_grants [OF c])
  show "after (grants_ok P locks d) (case acc of (results, t) \<Rightarrow> bindr (foldr_err (merge_undecided P) u results) (\<lambda>results. Inr (results, t)))"
    if "grants_ok P locks d acc" for acc
  proof -
    obtain results t where acc: "acc = (results, t)" by (cases acc)
    have "after (\<lambda>results. grants_ok P locks d (results, t)) (foldr_err (merge_undecided P) u results)"
      by (rule after_foldr_err) (use that acc merge_undecided_grants [OF c] in auto)
    then show ?thesis unfolding acc prod.case by (rule after_bindr) simp
  qed
qed

section \<open>Grants of the client\<close>

definition granters :: "ik_event set \<Rightarrow> lock_codec \<Rightarrow> opid \<Rightarrow> u64 \<Rightarrow> int set" where
  "granters E P op v = {rk_replicaIdx m |m. ik_heard E (ReplyConsensusMessage m) \<and> rk_opid m = op \<and> rk_view m = v \<and> granted P (rk_result m)}"

lemma finite_granters: "finite E \<Longrightarrow> finite (granters E P op v)"
proof -
  assume "finite E"
  then have "finite ((\<lambda>x. case x of ReplyConsensusMessage m \<Rightarrow> rk_replicaIdx m | _ \<Rightarrow> 0) ` {m. ik_heard E m})" by (simp add: finite_heard)
  moreover have "granters E P op v \<subseteq> (\<lambda>x. case x of ReplyConsensusMessage m \<Rightarrow> rk_replicaIdx m | _ \<Rightarrow> 0) ` {m. ik_heard E m}"
    by (force simp: granters_def)
  ultimately show ?thesis by (rule finite_subset [rotated])
qed

lemma sum_smap_put:
  fixes g :: "'k::linorder \<times> 'v \<Rightarrow> nat"
  assumes "ascending m"
  shows "sum_list (map g (smap_put k v m)) + (case map_of m k of None \<Rightarrow> 0 | Some w \<Rightarrow> g (k, w)) = sum_list (map g m) + g (k, v)"
  using assms
proof (induction m)
  case (Cons x m)
  have "k < fst x \<Longrightarrow> map_of m k = None" using Cons.prems by (auto simp: map_of_eq_None_iff)
  moreover have "ascending m" using Cons.prems by simp
  ultimately show ?case using Cons.IH by (cases x) (auto split: option.split)
qed simp

lemma tally_sum: "sum_list (map (\<lambda>(s, n). if Q s then n else 0) (tally rs)) = length (filter Q rs)"
proof (induction rs rule: rev_induct)
  case (snoc r rs)
  let ?m = "tally rs" and ?g = "\<lambda>(s, n). if Q s then n else (0 :: nat)"
  let ?n = "case map_of ?m r of None \<Rightarrow> 0 | Some n \<Rightarrow> n"
  have "tally (rs @ [r]) = smap_put r (?n + 1) ?m" by (simp add: tally_def)
  moreover have "sum_list (map ?g (smap_put r (?n + 1) ?m)) + (if Q r then ?n else 0) = sum_list (map ?g ?m) + (if Q r then ?n + 1 else 0)"
    using sum_smap_put [OF ascending_tally [of rs], of ?g r "?n + 1"] by (cases "map_of ?m r") auto
  ultimately show ?case using snoc by (cases "Q r") auto
qed (simp add: tally_def)

lemma decide_granters:
  assumes "codec_ok P" "replies_heard E op v msgs" "finite E" "granted P (lock_Decide P (reply_counts msgs))"
  shows "2 \<le> card (granters E P op v)"
proof -
  let ?ms = "filter (\<lambda>(i, m). granted P (rk_result m)) msgs"
  have "2 \<le> sum_list (map (\<lambda>(s, n). if granted P s then n else 0) (reply_counts msgs))"
    using assms(1,4) by (simp add: lock_Decide_def codec_ok_def Let_def split: if_splits)
  then have "2 \<le> length (filter (granted P) (map (\<lambda>(i, m). rk_result m) msgs))" unfolding reply_counts_def tally_sum .
  then have "2 \<le> length ?ms" by (simp add: filter_map comp_def case_prod_unfold)
  also have "length ?ms = card (fst ` set ?ms)"
    using assms(2) distinct_card [of "map fst ?ms"] by (simp add: replies_heard_def distinct_map_filter)
  also have "\<dots> \<le> card (granters E P op v)"
    by (rule card_mono [OF finite_granters [OF assms(3)]]) (use assms(2) in \<open>fastforce simp: replies_heard_def granters_def\<close>)
  finally show ?thesis .
qed

section \<open>Locks over a view change\<close>

definition order_ok :: "(u64 list \<Rightarrow> u64 list) \<Rightarrow> bool" where
  "order_ok ord \<longleftrightarrow> (\<forall>xs. distinct (ord xs) \<and> set (ord xs) = set xs)"

lemma set_difference_self: "set_difference xs xs = []"
  by (induction xs) auto

text \<open>A client that alone has used a key and released it once has lost it after a view change, however often it
  has locked it since.\<close>

lemma sync_forgets_relock:
  assumes "order_ok ord" "set (lockers P True record key) = {c}" "set (lockers P False record key) = {c}"
  shows "lock_Sync P ord record key = None"
proof -
  have "ord xs = [c]" if "set xs = {c}" for xs
  proof -
    have "distinct (ord xs)" "set (ord xs) = {c}" using assms(1) that by (auto simp: order_ok_def)
    then have "length (ord xs) = 1" using distinct_card [of "ord xs"] by simp
    then show ?thesis using \<open>set (ord xs) = {c}\<close> by (auto simp: length_Suc_conv)
  qed
  with assms(2,3) show ?thesis by (simp add: lock_Sync_def sync_owner_def set_difference_self)
qed

section \<open>A concrete encoding\<close>

definition demo_codec :: lock_codec where
  "demo_codec = \<lparr>
     lc_parse_request = (\<lambda>s. \<lparr>lq_clientid = of_nat (length (takeWhile (\<lambda>c. c = CHR ''a'') (drop 1 s))),
        lq_key = drop 1 (dropWhile (\<lambda>c. c = CHR ''a'') (drop 1 s)), lq_type = (take 1 s = ''L'')\<rparr>),
     lc_print_request = (\<lambda>q. (if lq_type q then CHR ''L'' else CHR ''U'') # unary (unat (lq_clientid q)) (lq_key q)),
     lc_parse_reply = (\<lambda>s. \<lparr>ly_key = drop 1 (dropWhile (\<lambda>c. c = CHR ''a'') (drop 1 s)),
        ly_status = (if take 1 s = ''m'' then - 1 else 1) * int (length (takeWhile (\<lambda>c. c = CHR ''a'') (drop 1 s)))\<rparr>),
     lc_print_reply = (\<lambda>r. (if ly_status r < 0 then CHR ''m'' else CHR ''p'') # unary (nat \<bar>ly_status r\<bar>) (ly_key r))\<rparr>"

lemma demo_codec_ok: "codec_ok demo_codec"
  by (auto simp: codec_ok_def demo_codec_def)

definition demo_lock :: "u64 \<Rightarrow> bool \<Rightarrow> u64 \<Rightarrow> VRequest" where
  "demo_lock client type n = \<lparr>vq_op = lc_print_request demo_codec \<lparr>lq_clientid = client, lq_key = ''k'', lq_type = type\<rparr>,
     vq_clientid = client, vq_clientreqid = n\<rparr>"

definition demo_granted :: string where
  "demo_granted = lc_print_reply demo_codec \<lparr>ly_key = ''k'', ly_status = 0\<rparr>"






section \<open>Properties\<close>

text \<open>C31. A lock that the client of the lock service is granted is backed by replicas: with three replicas and
  the decision function of the lock client, an operation that reaches the application as successful was
  granted by two replicas in one view, or a replica had it as finalized.\<close>

theorem lock_grant_backed:
  assumes "codec_ok P" "ik_run es (IRClient_new cid 1) = Inr c" "solicited es (IRClient_new cid 1)" "length es < 2 ^ 64"
    and "\<And>request d he ok. KInvokeConsensus request d he ok \<in> set es \<Longrightarrow> d = (\<lambda>results. Inr (lock_Decide P results))"
    and "(i, VReplied request r) \<in> set (ik_outcomes c)" "(d, ProposeConsensusMessage q) \<in> set (ik_sent c)" "vq_clientreqid q = i"
    and "ly_status (lc_parse_reply P r) = 0"
  shows "\<exists>v. 2 \<le> card (granters (set es) P (cid, i) v) \<or> finalized_heard (set es) (cid, i) v r"
proof -
  have "repliers (set es) (cid, i) v r \<subseteq> granters (set es) P (cid, i) v" for v
    using assms(9) by (auto simp: repliers_def granters_def)
  then have fast: "card (repliers (set es) (cid, i) v r) \<le> card (granters (set es) P (cid, i) v)" for v
    by (intro card_mono finite_granters) simp_all
  have slow: "2 \<le> card (granters (set es) P (cid, i) v)" if dh: "decided_heard (set es) 1 (cid, i) request v r" for v
  proof -
    obtain msgs d' he ok where m: "replies_heard (set es) (cid, i) v msgs" "KInvokeConsensus request d' he ok \<in> set es" "d' (reply_counts msgs) = Inr r"
      using dh unfolding decided_heard_def by blast
    then have "lock_Decide P (reply_counts msgs) = r" using assms(5) [OF m(2)] by simp
    then show ?thesis using decide_granters [OF assms(1) m(1)] assms(9) by simp
  qed
  have three: "FastQuorumSize 1 = 3" by (simp add: FastQuorumSize_def signed_divide_int_def)
  have "2 \<le> card (granters (set es) P (cid, i) v)" if "FastQuorumSize 1 \<le> int (card (repliers (set es) (cid, i) v r))" for v
    using that fast [of v] unfolding three by linarith
  moreover have "consensus_backed (set es) 1 (cid, i) request r" by (rule client_backed [OF assms(2-4) _ assms(6-8)]) simp
  ultimately show ?thesis unfolding consensus_backed_def using slow by blast
qed

text \<open>Two of three replicas grant the lock; the client decides and has it confirmed.\<close>

definition lock_history :: "ik_event list" where
  "lock_history = [KInvokeConsensus (vq_op (demo_lock 7 True 1)) (\<lambda>results. Inr (lock_Decide demo_codec results)) True True,
     demo_reply 0 demo_granted, demo_reply 1 demo_granted, KTransition 1 True, demo_confirm 0, demo_confirm 1]"

definition lock_done :: IRClient where
  "lock_done = projr (ik_run lock_history (IRClient_new 7 1))"

theorem lock_grant_backed_witness:
  "ik_outcomes lock_done = [(1, VReplied (vq_op (demo_lock 7 True 1)) demo_granted)] \<and>
   (\<exists>v. 2 \<le> card (granters (set lock_history) demo_codec (7, 1) v) \<or> finalized_heard (set lock_history) (7, 1) v demo_granted)"
proof -
  have run: "ik_run lock_history (IRClient_new 7 1) = Inr lock_done"
    unfolding lock_done_def by (rule sum.collapse(2) [symmetric]) code_simp
  have sol: "solicited lock_history (IRClient_new 7 1)" by code_simp
  have out: "ik_outcomes lock_done = [(1, VReplied (vq_op (demo_lock 7 True 1)) demo_granted)]" by code_simp
  then have o: "(1, VReplied (vq_op (demo_lock 7 True 1)) demo_granted) \<in> set (ik_outcomes lock_done)" by simp
  have sent: "(VAll, ProposeConsensusMessage (demo_lock 7 True 1)) \<in> set (ik_sent lock_done)" by code_simp
  have st: "ly_status (lc_parse_reply demo_codec demo_granted) = 0" by code_simp
  have len: "length lock_history < 2 ^ 64" by (simp add: lock_history_def)
  have dec: "d = (\<lambda>results. Inr (lock_Decide demo_codec results))" if "KInvokeConsensus request d he ok \<in> set lock_history" for request d he ok
    using that by (auto simp: lock_history_def demo_reply_def demo_confirm_def)
  from lock_grant_backed [OF demo_codec_ok run sol len dec o sent _ st] out show ?thesis by (simp add: demo_lock_def)
qed

text \<open>Two clients with a majority of positive results for the same key.\<close>

definition demo_groups :: opid_groups where
  "demo_groups = map (\<lambda>c. ((c, 1), [\<lparr>re_view = 0, re_opid = (c, 1), re_state = RECORD_STATE_TENTATIVE, re_type = RECORD_TYPE_CONSENSUS,
     re_request = demo_lock c True 1, re_result = demo_granted\<rparr>])) [1, 2]"

text \<open>The merge of a view change grants a lock at most once: what \<^verbatim>\<open>Merge\<close> answers with success was free
  before, is then held by the client that asked, and is answered with success for no other operation.\<close>

lemma lock_merge_exclusive:
  assumes "codec_ok P" "lock_Merge P locks d u maj = Inr (results, locks')"
    and "map_of results op = Some r" "ly_status (lc_parse_reply P r) = 0"
  shows "locks (ly_key (lc_parse_reply P r)) = None \<and>
    (\<exists>es. (op, es) \<in> set d \<and> locks' (ly_key (lc_parse_reply P r)) = Some (requester P es)) \<and>
    {op'. \<exists>r'. map_of results op' = Some r' \<and> ly_status (lc_parse_reply P r') = 0 \<and>
       ly_key (lc_parse_reply P r') = ly_key (lc_parse_reply P r)} = {op}"
proof -
  have g: "grants_ok P locks d (results, locks')" using lock_merge_grants [OF assms(1), of locks d u maj] assms(2) by (simp add: after_def)
  then have "op' = op" if "map_of results op' = Some r'" "granted P r'" "key_of P r' = key_of P r" for op' r'
    using that assms(3,4) unfolding grants_ok_def fst_conv snd_conv by blast
  moreover have "locks (key_of P r) = None \<and> (\<exists>es. (op, es) \<in> set d \<and> locks' (key_of P r) = Some (requester P es))"
    using g assms(3,4) unfolding grants_ok_def fst_conv snd_conv by blast
  ultimately show ?thesis using assms(3,4) by blast
qed


text \<open>The reply may come before the application waits: the callback has then cleared the pointer that
  \<^verbatim>\<open>lock_wait\<close> dereferences.\<close>

lemma early_reply_crashes:
  "(case lk_run demo_codec [LLock ''k'', LDeferred True, LClient (demo_reply 0 demo_granted), LClient (demo_reply 1 demo_granted),
      LClient (demo_reply 2 demo_granted), LWaitBegin] (LockClient_new 7 1) of Inl e \<Rightarrow> e = VUB NullDeref | Inr c \<Rightarrow> False)"
  by code_simp

text \<open>The decision function takes two grants for a majority. Of five replicas, 0 and 1 grant the lock to one client
  and 3 and 4 to another; each client has a quorum of three replies and decides that it holds the lock.\<close>

lemma five_replicas_two_holders:
  "QuorumSize 2 = 3 \<and>
   list_all (\<lambda>granting. granted demo_codec (lock_Decide demo_codec (reply_counts (map (\<lambda>i. (i,
      \<lparr>rk_view = 0, rk_replicaIdx = i, rk_opid = (7, 1), rk_result = (if i \<in> set granting then demo_granted
         else lc_print_reply demo_codec \<lparr>ly_key = ''k'', ly_status = - 1\<rparr>), rk_finalized = False\<rparr>)) (granting @ [2]))))) [[0, 1], [3, 4]]"
  by code_simp

end
