(* ===== verification/TapirStore.thy ===== *)
theory TapirStore
  imports VersionStore
begin

text \<open>
  src/store/tapirstore/store.h and store.cc: the store of TAPIR, optimistic concurrency control in
  the order of timestamps. A transaction prepares at a timestamp its client proposes; the store
  answers with \<^verbatim>\<open>OK\<close>, \<^verbatim>\<open>FAIL\<close>, \<^verbatim>\<open>ABSTAIN\<close>, or \<^verbatim>\<open>RETRY\<close> and another timestamp. The out-parameter
  \<^verbatim>\<open>proposed\<close> is passed in and returned.
\<close>

record TapirStore =
  tp_linearizable :: bool
  tp_store :: VersionedKVStore
  tp_prepared :: "(u64 \<times> Timestamp \<times> Transaction) list"

definition TapirStore_new :: "bool \<Rightarrow> TapirStore" where
  "TapirStore_new linearizable =
     \<lparr>tp_linearizable = linearizable, tp_store = VersionedKVStore_new, tp_prepared = []\<rparr>"

definition tp_Get :: "TapirStore \<Rightarrow> u64 \<Rightarrow> string \<Rightarrow> Timestamp \<times> string \<Rightarrow> int \<times> (Timestamp \<times> string)" where
  "tp_Get s i key val = (case vs_get (tp_store s) key of Some v \<Rightarrow> (REPLY_OK, v) | None \<Rightarrow> (REPLY_FAIL, val))"

definition tp_Get_at ::
  "TapirStore \<Rightarrow> u64 \<Rightarrow> string \<Rightarrow> Timestamp \<Rightarrow> Timestamp \<times> string \<Rightarrow> int \<times> (Timestamp \<times> string)" where
  "tp_Get_at s i key ts val =
     (case vs_get_at (tp_store s) key ts of Some v \<Rightarrow> (REPLY_OK, v) | None \<Rightarrow> (REPLY_FAIL, val))"

text \<open>
  \<^verbatim>\<open>map<string, set<Timestamp>>\<close>: for each key the ascending list of the timestamps, empty for a
  key that is not in the map.
\<close>

definition tp_GetPreparedWrites :: "TapirStore \<Rightarrow> string \<Rightarrow> Timestamp list" where
  "tp_GetPreparedWrites s k =
     sort (remdups [ts. (i, ts, txn) \<leftarrow> tp_prepared s, k \<in> fst ` set (txn_writeSet txn)])"

definition tp_GetPreparedReads :: "TapirStore \<Rightarrow> string \<Rightarrow> Timestamp list" where
  "tp_GetPreparedReads s k =
     sort (remdups [ts. (i, ts, txn) \<leftarrow> tp_prepared s, k \<in> fst ` set (txn_readSet txn)])"

text \<open>The elements from \<^verbatim>\<open>set::upper_bound\<close> on.\<close>

definition above :: "Timestamp \<Rightarrow> Timestamp list \<Rightarrow> Timestamp list" where
  "above t xs = dropWhile (\<lambda>x. \<not> t < x) xs"

text \<open>One element of the read set: the code to return, or \<open>None\<close> to go on.\<close>

definition tp_check_read :: "TapirStore \<Rightarrow> Timestamp \<Rightarrow> string \<times> Timestamp \<Rightarrow> int option" where
  "tp_check_read s ts r =
     (let key = fst r; pWrites = tp_GetPreparedWrites s key in
      case vs_getRange (tp_store s) key (snd r) (Timestamp_default, Timestamp_default) of
        (False, rng) \<Rightarrow> None
      | (True, lo, hi) \<Rightarrow>
          if ts_ne lo (snd r) then None
          else if \<not> isValid hi then
            if pWrites \<noteq> [] \<and> (tp_linearizable s \<or> length (above ts pWrites) \<noteq> length pWrites)
            then Some REPLY_ABSTAIN else None
          else if tp_linearizable s \<or> ts_gt ts hi then Some REPLY_FAIL
          else if list_ex (\<lambda>w. ts_gt w lo \<and> ts_lt w ts) pWrites then Some REPLY_ABSTAIN
          else None)"

primrec tp_check_reads :: "TapirStore \<Rightarrow> Timestamp \<Rightarrow> (string \<times> Timestamp) list \<Rightarrow> int option" where
  "tp_check_reads s ts [] = None"
| "tp_check_reads s ts (r # rs) =
     (case tp_check_read s ts r of Some code \<Rightarrow> Some code | None \<Rightarrow> tp_check_reads s ts rs)"

text \<open>One element of the write set: the code and the proposed timestamp to return, or \<open>None\<close>.\<close>

definition tp_check_write ::
  "TapirStore \<Rightarrow> Timestamp \<Rightarrow> Timestamp \<Rightarrow> string \<Rightarrow> ub + (int \<times> Timestamp) option" where
  "tp_check_write s ts proposed key =
     bindr
       (case vs_get (tp_store s) key of
          None \<Rightarrow> Inr None
        | Some (newest, val) \<Rightarrow>
            if tp_linearizable s \<and> ts_gt newest ts then Inr (Some (REPLY_RETRY, newest))
            else
              bindr (if tp_linearizable s then Inr (vs_getLastRead (tp_store s) key)
                     else vs_getLastRead_at (tp_store s) key ts)
                (\<lambda>lastRead. Inr (case lastRead of
                   None \<Rightarrow> None
                 | Some r \<Rightarrow> if ts_gt r ts then Some (REPLY_RETRY, r) else None)))
       (\<lambda>res. case res of
          Some p \<Rightarrow> Inr (Some p)
        | None \<Rightarrow>
            if tp_linearizable s \<and> above ts (tp_GetPreparedWrites s key) \<noteq> []
            then Inr (Some (REPLY_RETRY, hd (above ts (tp_GetPreparedWrites s key))))
            else if above ts (tp_GetPreparedReads s key) \<noteq> [] then Inr (Some (REPLY_ABSTAIN, proposed))
            else Inr None)"

primrec tp_check_writes ::
  "TapirStore \<Rightarrow> Timestamp \<Rightarrow> Timestamp \<Rightarrow> string list \<Rightarrow> ub + (int \<times> Timestamp) option" where
  "tp_check_writes s ts proposed [] = Inr None"
| "tp_check_writes s ts proposed (k # ks) =
     bindr (tp_check_write s ts proposed k) (\<lambda>res. case res of
       Some p \<Rightarrow> Inr (Some p) | None \<Rightarrow> tp_check_writes s ts proposed ks)"

definition tp_validate :: "TapirStore \<Rightarrow> u64 \<Rightarrow> Transaction \<Rightarrow> Timestamp \<Rightarrow> Timestamp \<Rightarrow> ub + int \<times> Timestamp \<times> TapirStore" where
  "tp_validate s i txn ts proposed =
     (case tp_check_reads s ts (txn_readSet txn) of
        Some code \<Rightarrow> Inr (code, proposed, s)
      | None \<Rightarrow>
          bindr (tp_check_writes s ts proposed (map fst (txn_writeSet txn))) (\<lambda>res. case res of
            Some (code, p) \<Rightarrow> Inr (code, p, s)
          | None \<Rightarrow> Inr (REPLY_OK, proposed, s\<lparr>tp_prepared := AList.update i (ts, txn) (tp_prepared s)\<rparr>)))"

definition tp_Prepare :: "TapirStore \<Rightarrow> u64 \<Rightarrow> Transaction \<Rightarrow> Timestamp \<Rightarrow> Timestamp \<Rightarrow> ub + int \<times> Timestamp \<times> TapirStore" where
  "tp_Prepare s i txn ts proposed =
     (case map_of (tp_prepared s) i of
        Some (t, x) \<Rightarrow>
          if ts_eq t ts then Inr (REPLY_OK, proposed, s)
          else tp_validate (s\<lparr>tp_prepared := AList.delete i (tp_prepared s)\<rparr>) i txn ts proposed
      | None \<Rightarrow> tp_validate s i txn ts proposed)"

definition tp_commit_txn :: "Timestamp \<Rightarrow> Transaction \<Rightarrow> VersionedKVStore \<Rightarrow> VersionedKVStore" where
  "tp_commit_txn ts txn st =
     fold (\<lambda>(k, v) st. vs_put st k v ts) (txn_writeSet txn)
       (fold (\<lambda>(k, r) st. vs_commitGet st k r ts) (txn_readSet txn) st)"

text \<open>
  \<^verbatim>\<open>prepared[id]\<close> creates a default pair for a transaction that is not prepared; the timestamp of
  the call is not used.
\<close>

definition tp_Commit :: "TapirStore \<Rightarrow> u64 \<Rightarrow> u64 \<Rightarrow> TapirStore" where
  "tp_Commit s i timestamp =
     (let p = (case map_of (tp_prepared s) i of None \<Rightarrow> (Timestamp_default, Transaction_default) | Some p \<Rightarrow> p) in
      s\<lparr>tp_store := tp_commit_txn (fst p) (snd p) (tp_store s), tp_prepared := AList.delete i (tp_prepared s)\<rparr>)"

definition tp_Abort :: "TapirStore \<Rightarrow> u64 \<Rightarrow> Transaction \<Rightarrow> TapirStore" where
  "tp_Abort s i txn = s\<lparr>tp_prepared := AList.delete i (tp_prepared s)\<rparr>"

definition tp_Load :: "TapirStore \<Rightarrow> string \<Rightarrow> string \<Rightarrow> Timestamp \<Rightarrow> TapirStore" where
  "tp_Load s key val ts = s\<lparr>tp_store := vs_put (tp_store s) key val ts\<rparr>"

section \<open>Histories\<close>

datatype tp_op = TPrepare u64 Transaction Timestamp Timestamp | TCommit u64 u64 | TAbort u64 Transaction

fun tp_step :: "TapirStore \<Rightarrow> tp_op \<Rightarrow> ub + TapirStore" where
  "tp_step s (TPrepare i txn ts p) = map_sum id (snd \<circ> snd) (tp_Prepare s i txn ts p)"
| "tp_step s (TCommit i t) = Inr (tp_Commit s i t)"
| "tp_step s (TAbort i txn) = Inr (tp_Abort s i txn)"

primrec tp_run :: "tp_op list \<Rightarrow> TapirStore \<Rightarrow> ub + TapirStore" where
  "tp_run [] s = Inr s"
| "tp_run (x # xs) s = bindr (tp_step s x) (tp_run xs)"

text \<open>The store after start-up: every key is loaded at the default timestamp.\<close>

definition tp_loaded :: "bool \<Rightarrow> (string \<times> string) list \<Rightarrow> TapirStore" where
  "tp_loaded linearizable kvs = fold (\<lambda>(k, v) s. tp_Load s k v Timestamp_default) kvs (TapirStore_new linearizable)"

fun op_txn :: "tp_op \<Rightarrow> u64" where
  "op_txn (TPrepare i txn ts p) = i"
| "op_txn (TCommit i t) = i"
| "op_txn (TAbort i txn) = i"

fun valid_op :: "tp_op \<Rightarrow> bool" where
  "valid_op (TPrepare i txn ts p) \<longleftrightarrow> isValid ts"
| "valid_op e \<longleftrightarrow> True"

definition tp_versions :: "TapirStore \<Rightarrow> string \<Rightarrow> Timestamp set" where
  "tp_versions s k = fst ` set (vs_at (tp_store s) k)"

section \<open>Invariants\<close>

text \<open>Sorted versions, one entry per prepared transaction, and no timestamp that looks unset but the
  one of start-up. Reads are never recorded.\<close>

definition tp_inv :: "TapirStore \<Rightarrow> bool" where
  "tp_inv s \<longleftrightarrow> vs_wf (tp_store s) \<and> distinct (map fst (tp_prepared s)) \<and> vs_lastReads (tp_store s) = Map.empty \<and>
     (\<forall>k. \<forall>w \<in> tp_versions s k. w = Timestamp_default \<or> isValid w) \<and>
     (\<forall>(i, ts, txn) \<in> set (tp_prepared s). isValid ts)"

lemma set_above: "sorted xs \<Longrightarrow> set (above t xs) = {x \<in> set xs. t < x}"
  by (induction xs) (auto simp: above_def)

lemma above_short: "sorted xs \<Longrightarrow> length (above t xs) = length xs \<longleftrightarrow> (\<forall>x \<in> set xs. t < x)"
proof (cases xs)
  case (Cons a ys)
  then show "sorted xs \<Longrightarrow> ?thesis"
    using length_dropWhile_le [of "\<lambda>x. \<not> t < x" ys] by (auto simp: above_def intro: less_le_trans)
qed (simp add: above_def)

lemma set_prepared_writes: "set (tp_GetPreparedWrites s k) = {ts. \<exists>i txn. (i, ts, txn) \<in> set (tp_prepared s) \<and> k \<in> fst ` set (txn_writeSet txn)}"
  by (auto simp: tp_GetPreparedWrites_def)

lemma set_prepared_reads: "set (tp_GetPreparedReads s k) = {ts. \<exists>i txn. (i, ts, txn) \<in> set (tp_prepared s) \<and> k \<in> fst ` set (txn_readSet txn)}"
  by (auto simp: tp_GetPreparedReads_def)

lemma sorted_prepared [simp]: "sorted (tp_GetPreparedWrites s k)" "sorted (tp_GetPreparedReads s k)"
  by (simp_all add: tp_GetPreparedWrites_def tp_GetPreparedReads_def)

lemma ascending_split: "ascending (ys @ x # zs) \<Longrightarrow> (\<forall>y \<in> set ys. fst y < fst x) \<and> (\<forall>z \<in> set zs. fst x < fst z) \<and> ascending zs"
  by (induction ys) auto

text \<open>The validity interval of a version that the store has.\<close>

lemma getRange_version:
  assumes a: "ascending (vs_at st k)" and v: "v \<in> fst ` set (vs_at st k)"
  obtains hi where "vs_getRange st k v rng = (True, v, hi)"
    "hi = snd rng \<and> (\<forall>w \<in> fst ` set (vs_at st k). w \<le> v) \<or> hi \<in> fst ` set (vs_at st k) \<and> v < hi \<and> (\<forall>w \<in> fst ` set (vs_at st k). w \<le> v \<or> hi \<le> w)"
proof -
  obtain x where "(v, x) \<in> set (vs_at st k)" using v by auto
  then obtain ys zs where vs: "vs_at st k = ys @ (v, x) # zs" by (meson split_list)
  have o: "\<forall>y \<in> set ys. fst y < v" "\<forall>z \<in> set zs. v < fst z" "ascending zs"
    using ascending_split [of ys "(v, x)" zs] a vs by auto
  have "takeWhile (\<lambda>u. \<not> v < fst u) zs = []" using o(2) by (cases zs) auto
  then have "takeWhile (\<lambda>u. \<not> v < fst u) (vs_at st k) = ys @ [(v, x)]"
    unfolding vs by (subst takeWhile_append2) (use o(1) in \<open>auto dest: less_asym\<close>)
  then have g: "getValue st k v = Some (length ys)" by (simp add: getValue_def vset_upper_bound_def)
  show ?thesis
  proof (cases zs)
    case Nil
    have "vs_getRange st k v rng = (True, v, snd rng)" by (simp add: vs_getRange_def g inStore_iff vs Nil)
    moreover have "\<forall>w \<in> fst ` set (vs_at st k). w \<le> v" using o(1) by (auto simp: vs Nil dest: less_imp_le)
    ultimately show ?thesis using that by blast
  next
    case (Cons z us)
    have "vs_getRange st k v rng = (True, v, fst z)" by (simp add: vs_getRange_def g inStore_iff vs Cons nth_append)
    moreover have "\<forall>w \<in> fst ` set (vs_at st k). w \<le> v \<or> fst z \<le> w"
      using o(1,3) by (auto simp: vs Cons dest: less_imp_le)
    moreover have "fst z \<in> fst ` set (vs_at st k)" "v < fst z" using o(2) by (auto simp: vs Cons)
    ultimately show ?thesis using that by blast
  qed
qed

lemma commitGets_unrecorded:
  "vs_lastReads st = Map.empty \<Longrightarrow> fold (\<lambda>(k, r) st. vs_commitGet st k r ts) rs st = st"
  by (induction rs) (auto simp: vs_commitGet_def Let_def split: option.split)

lemma puts_simps:
  "vs_lastReads (fold (\<lambda>(k, v) st. vs_put st k v ts) ws st) = vs_lastReads st"
  "vs_wf st \<Longrightarrow> vs_wf (fold (\<lambda>(k, v) st. vs_put st k v ts) ws st)"
  "fst ` set (vs_at (fold (\<lambda>(k, v) st. vs_put st k v ts) ws st) k) = fst ` set (vs_at st k) \<union> (if k \<in> fst ` set ws then {ts} else {})"
proof (induction ws arbitrary: st)
  case (Cons p ws)
  { case 1 show ?case using Cons(1) [of "case p of (k, v) \<Rightarrow> vs_put st k v ts"] by (cases p) (simp add: vs_put_def) }
  { case 2 then show ?case using Cons(2) [of "case p of (k, v) \<Rightarrow> vs_put st k v ts"] by (cases p) (simp add: vs_wf_put) }
  { case 3 show ?case using Cons(3) [of "case p of (k, v) \<Rightarrow> vs_put st k v ts"] by (cases p) (auto simp: keys_vset_insert) }
qed simp_all

definition prepared_at :: "TapirStore \<Rightarrow> u64 \<Rightarrow> Timestamp \<times> Transaction" where
  "prepared_at s i = (case map_of (tp_prepared s) i of None \<Rightarrow> (Timestamp_default, Transaction_default) | Some p \<Rightarrow> p)"

lemma versions_Commit:
  assumes "tp_inv s"
  shows "tp_versions (tp_Commit s i t) k = tp_versions s k \<union>
    (if k \<in> fst ` set (txn_writeSet (snd (prepared_at s i))) then {fst (prepared_at s i)} else {})"
  using assms by (simp add: tp_inv_def tp_versions_def tp_Commit_def Let_def tp_commit_txn_def prepared_at_def [symmetric] commitGets_unrecorded puts_simps(3))

lemma set_delete_subset: "set (AList.delete i xs) \<subseteq> set xs"
  by (auto simp: AList.delete_eq)

lemma prepared_at_cases:
  "prepared_at s i = (Timestamp_default, Transaction_default) \<or> (\<exists>ts txn. prepared_at s i = (ts, txn) \<and> (i, ts, txn) \<in> set (tp_prepared s))"
  by (auto simp: prepared_at_def split: option.split dest: map_of_SomeD)

lemma tp_inv_Commit: assumes "tp_inv s" shows "tp_inv (tp_Commit s i t)"
proof -
  have "isValid (fst (prepared_at s i))" if "k \<in> fst ` set (txn_writeSet (snd (prepared_at s i)))" for k
    using prepared_at_cases [of s i] assms that by (auto simp: tp_inv_def Transaction_default_def)
  then have v: "\<forall>k. \<forall>w \<in> tp_versions (tp_Commit s i t) k. w = Timestamp_default \<or> isValid w"
    using assms by (auto simp: versions_Commit [OF assms] tp_inv_def split: if_splits)
  have p: "tp_prepared (tp_Commit s i t) = AList.delete i (tp_prepared s)" by (simp add: tp_Commit_def Let_def)
  have st: "vs_wf (tp_store (tp_Commit s i t))" "vs_lastReads (tp_store (tp_Commit s i t)) = Map.empty"
    using assms by (simp_all add: tp_inv_def tp_Commit_def Let_def tp_commit_txn_def commitGets_unrecorded puts_simps)
  show ?thesis
    unfolding tp_inv_def using st v assms set_delete_subset [of i "tp_prepared s"] by (auto simp: p tp_inv_def distinct_delete)
qed

lemma update_cases: "x \<in> set (AList.update i p xs) \<Longrightarrow> x = (i, p) \<or> x \<in> set xs"
  by (induction xs) (auto split: if_splits)

lemma in_update_other: "(i, x) \<in> set xs \<Longrightarrow> j \<noteq> i \<Longrightarrow> (i, x) \<in> set (AList.update j p xs)"
  by (induction xs) auto

lemma tp_validate_cases:
  assumes "tp_validate s i txn ts p = Inr (code, q, s')"
  obtains "s' = s" "code \<noteq> REPLY_OK"
  | "s' = s\<lparr>tp_prepared := AList.update i (ts, txn) (tp_prepared s)\<rparr>" "tp_check_reads s ts (txn_readSet txn) = None"
    "tp_check_writes s ts p (map fst (txn_writeSet txn)) = Inr None"
proof -
  have r: "tp_check_reads s ts rs = Some REPLY_OK \<Longrightarrow> False" for rs
    by (induction rs) (auto simp: tp_check_read_def Let_def split: option.splits if_splits prod.splits bool.splits)
  have w1: "tp_check_write s ts p k = Inr (Some (REPLY_OK, q)) \<Longrightarrow> False" for k q
    by (auto simp: tp_check_write_def bindr_eq_Inr split: option.splits if_splits)
  have w: "tp_check_writes s ts p ks = Inr (Some (REPLY_OK, q)) \<Longrightarrow> False" for ks q
    by (induction ks) (use w1 in \<open>auto simp: bindr_eq_Inr split: option.splits\<close>)
  from assms show ?thesis
    using that r w by (fastforce simp: tp_validate_def bindr_eq_Inr split: option.splits)
qed

lemma tp_inv_validate:
  assumes "tp_inv s" "isValid ts" "tp_validate s i txn ts p = Inr (code, q, s')" shows "tp_inv s'"
  using assms(3)
proof (cases rule: tp_validate_cases)
  case 2
  then show ?thesis
    using assms(1,2) by (auto simp: tp_inv_def tp_versions_def distinct_update dest!: update_cases)
qed (use assms(1) in simp)

lemma tp_inv_delete: "tp_inv s \<Longrightarrow> tp_inv (s\<lparr>tp_prepared := AList.delete i (tp_prepared s)\<rparr>)"
  using set_delete_subset [of i "tp_prepared s"] by (auto simp: tp_inv_def tp_versions_def distinct_delete)

lemma tp_Prepare_cases:
  assumes "tp_Prepare s i txn ts p = Inr (code, q, s')"
  obtains x where "s' = s" "map_of (tp_prepared s) i = Some (ts, x)"
  | s0 where "s0 = s \<or> s0 = s\<lparr>tp_prepared := AList.delete i (tp_prepared s)\<rparr>" "tp_validate s0 i txn ts p = Inr (code, q, s')"
proof (cases "map_of (tp_prepared s) i")
  case None
  then show ?thesis using assms that(2) by (auto simp: tp_Prepare_def)
next
  case (Some y)
  obtain t x where y: "y = (t, x)" by (cases y)
  show ?thesis
  proof (cases "t = ts")
    case True
    then show ?thesis using assms that(1) Some y by (simp add: tp_Prepare_def ts_eq_iff)
  next
    case False
    then have "tp_validate (s\<lparr>tp_prepared := AList.delete i (tp_prepared s)\<rparr>) i txn ts p = Inr (code, q, s')"
      using assms Some y by (simp add: tp_Prepare_def ts_eq_iff)
    then show ?thesis using that(2) by blast
  qed
qed

lemma tp_step_inv:
  assumes inv: "tp_inv s" and v: "valid_op e" and step: "tp_step s e = Inr s'" shows "tp_inv s'"
proof (cases e)
  case (TPrepare i txn ts p)
  then obtain code q where prep: "tp_Prepare s i txn ts p = Inr (code, q, s')"
    using step by (cases "tp_Prepare s i txn ts p") auto
  then show ?thesis
    using inv v TPrepare tp_inv_delete [OF inv, of i] by (cases rule: tp_Prepare_cases) (auto dest: tp_inv_validate [rotated 2])
next
  case (TAbort i txn)
  then show ?thesis using step tp_inv_delete [OF inv] by (auto simp: tp_Abort_def)
qed (use step tp_inv_Commit [OF inv] in auto)

lemma tp_run_inv: "tp_inv s \<Longrightarrow> list_all valid_op es \<Longrightarrow> tp_run es s = Inr s' \<Longrightarrow> tp_inv s'"
  by (induction es arbitrary: s) (auto simp: bindr_eq_Inr dest: tp_step_inv)

lemma tp_inv_loaded: "tp_inv (tp_loaded lin kvs)"
proof -
  have "tp_inv (fold (\<lambda>(k, v) s. tp_Load s k v Timestamp_default) kvs s)" if "tp_inv s" for s
    using that
  proof (induction kvs arbitrary: s)
    case (Cons p kvs)
    have "tp_inv (tp_Load s k v Timestamp_default)" for k v
    proof -
      have "tp_versions (tp_Load s k v Timestamp_default) j \<subseteq> insert Timestamp_default (tp_versions s j)" for j
        using keys_vset_insert [of "(Timestamp_default, v)" "vs_at (tp_store s) k"] by (simp add: tp_versions_def tp_Load_def subset_insertI)
      then show ?thesis using Cons.prems by (fastforce simp: tp_inv_def tp_Load_def vs_wf_put vs_put_def [THEN arg_cong [where f = vs_lastReads]])
    qed
    with Cons.IH show ?case by (cases p) simp
  qed simp
  moreover have "tp_inv (TapirStore_new lin)"
    by (simp add: tp_inv_def TapirStore_new_def tp_versions_def VersionedKVStore_new_def vs_wf_def vs_at_def)
  ultimately show ?thesis by (simp add: tp_loaded_def)
qed

section \<open>The reads of a prepared transaction\<close>

text \<open>\<open>v\<close> is the newest version of \<open>k\<close> below \<open>ts\<close>, and no prepared transaction can change that.\<close>

definition read_safe :: "TapirStore \<Rightarrow> u64 \<Rightarrow> Timestamp \<Rightarrow> string \<Rightarrow> Timestamp \<Rightarrow> bool" where
  "read_safe s i ts k v \<longleftrightarrow> (\<forall>w \<in> tp_versions s k. w < ts \<longrightarrow> w \<le> v) \<and>
     (\<forall>(j, t, txn) \<in> set (tp_prepared s). j \<noteq> i \<and> k \<in> fst ` set (txn_writeSet txn) \<longrightarrow> t \<le> v \<or> ts \<le> t)"

lemma ts_lt_iff: "ts_lt a b \<longleftrightarrow> a < b"
  by (simp add: less_Timestamp_def)

lemma check_read_safe:
  assumes inv: "tp_inv s" and c: "tp_check_read s ts (k, v) = None" and v: "v \<in> tp_versions s k"
  shows "read_safe s i ts k v"
proof -
  have a: "ascending (vs_at (tp_store s) k)" using inv by (simp add: tp_inv_def vs_wf_def)
  obtain hi where g: "vs_getRange (tp_store s) k v (Timestamp_default, Timestamp_default) = (True, v, hi)"
    and hi: "hi = Timestamp_default \<and> (\<forall>w \<in> tp_versions s k. w \<le> v) \<or> hi \<in> tp_versions s k \<and> v < hi \<and> (\<forall>w \<in> tp_versions s k. w \<le> v \<or> hi \<le> w)"
    using getRange_version [OF a, of v "(Timestamp_default, Timestamp_default)"] v unfolding tp_versions_def by auto
  have dflt: "\<not> isValid Timestamp_default" by (simp add: isValid_def Timestamp_default_def)
  have w: "t \<in> set (tp_GetPreparedWrites s k)" if "(j, t, txn) \<in> set (tp_prepared s)" "k \<in> fst ` set (txn_writeSet txn)" for j t txn
    using that by (auto simp: set_prepared_writes)
  have safe: "read_safe s i ts k v"
    if "\<And>u. u \<in> tp_versions s k \<Longrightarrow> u < ts \<Longrightarrow> u \<le> v" "\<And>t. t \<in> set (tp_GetPreparedWrites s k) \<Longrightarrow> t \<le> v \<or> ts \<le> t"
    unfolding read_safe_def using that(1) that(2) [OF w] by blast
  show ?thesis
  proof (cases "isValid hi")
    case False
    have "hi = Timestamp_default" if "hi \<in> tp_versions s k" using inv that False by (auto simp: tp_inv_def)
    then have "\<not> hi \<in> tp_versions s k \<or> \<not> v < hi" using leD [OF Timestamp_default_least [of v]] by metis
    then have "\<forall>w \<in> tp_versions s k. w \<le> v" using hi by blast
    moreover have "\<forall>t \<in> set (tp_GetPreparedWrites s k). ts < t"
      using c False g above_short [of "tp_GetPreparedWrites s k" ts] by (auto simp: tp_check_read_def Let_def ts_ne_iff split: if_splits)
    ultimately show ?thesis by (intro safe) (auto dest: less_imp_le)
  next
    case True
    then have "ts \<le> hi" "\<forall>t \<in> set (tp_GetPreparedWrites s k). t \<le> v \<or> ts \<le> t"
      using c g by (auto simp: tp_check_read_def Let_def ts_ne_iff ts_gt_iff ts_lt_iff list_ex_iff not_less split: if_splits)
    moreover have "\<forall>w \<in> tp_versions s k. w \<le> v \<or> hi \<le> w" using hi True dflt by blast
    ultimately show ?thesis by (intro safe) (metis leD order_trans)+
  qed
qed

lemma check_writes_reads:
  assumes "tp_check_writes s ts p ks = Inr None" "k \<in> set ks" "(i, t, txn) \<in> set (tp_prepared s)" "k \<in> fst ` set (txn_readSet txn)"
  shows "t \<le> ts"
proof -
  have "tp_check_write s ts p k = Inr None"
    using assms(1,2) by (induction ks) (auto simp: bindr_eq_Inr split: option.splits, metis not_None_eq surj_pair)
  then have "above ts (tp_GetPreparedReads s k) = []"
    by (auto simp: tp_check_write_def bindr_eq_Inr split: option.splits if_splits)
  then have "{x \<in> set (tp_GetPreparedReads s k). ts < x} = {}" by (metis list.set(1) set_above sorted_prepared(2))
  moreover have "t \<in> set (tp_GetPreparedReads s k)" using assms(3,4) unfolding set_prepared_reads by blast
  ultimately show ?thesis by (auto simp: not_less)
qed

lemma check_reads_one: "tp_check_reads s ts rs = None \<Longrightarrow> r \<in> set rs \<Longrightarrow> tp_check_read s ts r = None"
  by (induction rs) (auto split: option.splits)

lemma prepare_read_safe:
  assumes inv: "tp_inv s" "isValid ts" and new: "\<And>x. map_of (tp_prepared s) i \<noteq> Some (ts, x)"
    and p: "tp_Prepare s i txn ts p = Inr (REPLY_OK, q, s')"
  shows "(i, ts, txn) \<in> set (tp_prepared s')" and "\<And>k v. (k, v) \<in> set (txn_readSet txn) \<Longrightarrow> v \<in> tp_versions s k \<Longrightarrow> read_safe s' i ts k v"
proof -
  obtain s0 where s0: "tp_inv s0" "tp_store s0 = tp_store s" "tp_validate s0 i txn ts p = Inr (REPLY_OK, q, s')"
    using p
  proof (cases rule: tp_Prepare_cases)
    case (2 s0)
    then show ?thesis using that [of s0] inv(1) tp_inv_delete [OF inv(1), of i] by auto
  qed (use new in simp)
  from s0(3) have s': "s' = s0\<lparr>tp_prepared := AList.update i (ts, txn) (tp_prepared s0)\<rparr>" and r: "tp_check_reads s0 ts (txn_readSet txn) = None"
    by (cases rule: tp_validate_cases; simp)+
  show "(i, ts, txn) \<in> set (tp_prepared s')" unfolding s' by (simp add: map_of_SomeD update_conv')
  show "read_safe s' i ts k v" if k: "(k, v) \<in> set (txn_readSet txn)" "v \<in> tp_versions s k" for k v
  proof -
    have "v \<in> tp_versions s0 k" using k(2) by (simp add: tp_versions_def s0(2))
    from check_read_safe [OF s0(1) check_reads_one [OF r k(1)] this, of i] show ?thesis
      unfolding s' read_safe_def by (auto simp: tp_versions_def dest!: update_cases)
  qed
qed

lemma step_read_safe:
  assumes inv: "tp_inv s" and me: "(i, ts, txn) \<in> set (tp_prepared s)" "(k, v) \<in> set (txn_readSet txn)" and safe: "read_safe s i ts k v"
    and e: "op_txn e \<noteq> i" "tp_step s e = Inr s'"
  shows "(i, ts, txn) \<in> set (tp_prepared s') \<and> read_safe s' i ts k v"
proof -
  have del: "(i, ts, txn) \<in> set (AList.delete j (tp_prepared s))" "read_safe (s\<lparr>tp_prepared := AList.delete j (tp_prepared s)\<rparr>) i ts k v" if "j \<noteq> i" for j
    using me(1) safe that set_delete_subset [of j "tp_prepared s"] by (auto simp: AList.delete_eq read_safe_def tp_versions_def)
  show ?thesis
  proof (cases e)
    case (TPrepare j txn' t p)
    then obtain code q where "tp_Prepare s j txn' t p = Inr (code, q, s')" using e(2) by (cases "tp_Prepare s j txn' t p") auto
    then show ?thesis
    proof (cases rule: tp_Prepare_cases)
      case s0: (2 s0)
      have 2: "(i, ts, txn) \<in> set (tp_prepared s0)" "read_safe s0 i ts k v"
        using s0(1) me(1) safe del [of j] e(1) TPrepare by auto
      from s0(2) show ?thesis
      proof (cases rule: tp_validate_cases)
        case w: 2
        have "k \<in> fst ` set (txn_readSet txn)" using me(2) by force
        then have "ts \<le> t" if "k \<in> fst ` set (txn_writeSet txn')"
          using check_writes_reads [OF w(3) _ 2(1), of k] that by simp
        moreover have "(i, ts, txn) \<in> set (AList.update j (t, txn') (tp_prepared s0))"
          using in_update_other [OF 2(1), of j "(t, txn')"] e(1) TPrepare by simp
        ultimately show ?thesis using 2(2) unfolding w(1) read_safe_def by (auto simp: tp_versions_def dest!: update_cases)
      qed (use 2 in simp)
    qed (use me safe in simp)
  next
    case (TCommit j t)
    have "w \<le> v" if "w \<in> tp_versions (tp_Commit s j t) k" "w < ts" for w
    proof (cases "w \<in> tp_versions s k")
      case True
      then show ?thesis using safe that(2) by (simp add: read_safe_def)
    next
      case False
      then have wr: "w = fst (prepared_at s j)" "k \<in> fst ` set (txn_writeSet (snd (prepared_at s j)))"
        using that(1) by (simp_all add: versions_Commit [OF inv] split: if_splits)
      then obtain tj where "(j, w, tj) \<in> set (tp_prepared s)" "k \<in> fst ` set (txn_writeSet tj)"
        using prepared_at_cases [of s j] by (fastforce simp: Transaction_default_def)
      moreover have "j \<noteq> i" using e(1) TCommit by simp
      ultimately have "w \<le> v \<or> ts \<le> w" using safe unfolding read_safe_def by blast
      then show ?thesis using that(2) by (auto dest: leD)
    qed
    moreover have "tp_prepared (tp_Commit s j t) = AList.delete j (tp_prepared s)" by (simp add: tp_Commit_def Let_def)
    moreover have "s' = tp_Commit s j t" "j \<noteq> i" using e TCommit by simp_all
    ultimately show ?thesis using del [of j] unfolding read_safe_def by simp
  next
    case (TAbort j txn')
    then show ?thesis using del [of j] e by (auto simp: tp_Abort_def)
  qed
qed

text \<open>A repeated prepare at the timestamp of the first one changes nothing.\<close>

fun prepares_again :: "u64 \<Rightarrow> Timestamp \<Rightarrow> tp_op \<Rightarrow> bool" where
  "prepares_again i ts (TPrepare j txn t p) \<longleftrightarrow> j = i \<and> t = ts"
| "prepares_again i ts e \<longleftrightarrow> False"

lemma step_prepares_again:
  assumes "tp_inv s" "(i, ts, txn) \<in> set (tp_prepared s)" "prepares_again i ts e" "tp_step s e = Inr s'"
  shows "s' = s"
proof -
  obtain x p where e: "e = TPrepare i x ts p" using assms(3) by (cases e) auto
  have "map_of (tp_prepared s) i = Some (ts, txn)" using assms(1,2) by (simp add: tp_inv_def)
  then show ?thesis using assms(4) by (simp add: e tp_Prepare_def ts_eq_iff)
qed

lemma run_read_safe:
  "tp_inv s \<Longrightarrow> (i, ts, txn) \<in> set (tp_prepared s) \<Longrightarrow> (k, v) \<in> set (txn_readSet txn) \<Longrightarrow> read_safe s i ts k v \<Longrightarrow>
   list_all valid_op es \<Longrightarrow> list_all (\<lambda>e. op_txn e \<noteq> i \<or> prepares_again i ts e) es \<Longrightarrow> tp_run es s = Inr s' \<Longrightarrow> read_safe s' i ts k v"
proof (induction es arbitrary: s)
  case (Cons e es)
  then obtain s1 where s1: "tp_step s e = Inr s1" "tp_run es s1 = Inr s'" by (auto simp: bindr_eq_Inr)
  have "tp_inv s1" using tp_step_inv [OF Cons.prems(1) _ s1(1)] Cons.prems(5) by simp
  moreover have "(i, ts, txn) \<in> set (tp_prepared s1) \<and> read_safe s1 i ts k v"
  proof (cases "op_txn e = i")
    case True
    then have "s1 = s" using step_prepares_again [OF Cons.prems(1,2) _ s1(1)] Cons.prems(6) by simp
    then show ?thesis using Cons.prems(2,4) by simp
  qed (rule step_read_safe [OF Cons.prems(1-4) _ s1(1)])
  ultimately show ?case using Cons.IH [of s1] Cons.prems(3,5,6) s1(2) by simp
qed simp

section \<open>Properties\<close>

text \<open>The reads of a prepared transaction are stable: if the store answers \<^verbatim>\<open>OK\<close> to a transaction that
  prepares at \<open>ts\<close> and the version \<open>v\<close> of \<open>k\<close> that it read is in the store, then whatever other
  transactions prepare, commit and abort, \<open>v\<close> stays the newest version of \<open>k\<close> below \<open>ts\<close> as long as the
  transaction is prepared. So its commit at \<open>ts\<close> reads what a serial execution in the order of
  timestamps would read. The timestamps that clients propose have non-zero parts.\<close>

lemma tapir_prepared_reads_stable:
  assumes "tp_run es (tp_loaded lin kvs) = Inr s" "list_all valid_op es" "isValid ts"
    and "tp_Prepare s i txn ts p = Inr (REPLY_OK, q, s1)" "\<And>x. map_of (tp_prepared s) i \<noteq> Some (ts, x)"
    and "tp_run es' s1 = Inr s2" "list_all valid_op es'" "list_all (\<lambda>e. op_txn e \<noteq> i \<or> prepares_again i ts e) es'"
    and "(k, v) \<in> set (txn_readSet txn)" "v \<in> tp_versions s k"
  shows "{w \<in> tp_versions s2 k. w < ts} \<subseteq> {..v}"
proof -
  have inv: "tp_inv s" by (rule tp_run_inv [OF tp_inv_loaded assms(2,1)])
  note safe = prepare_read_safe [OF inv assms(3,5,4)]
  have "tp_step s (TPrepare i txn ts p) = Inr s1" by (simp add: assms(4))
  then have "tp_inv s1" by (rule tp_step_inv [OF inv, rotated]) (simp add: assms(3))
  from run_read_safe [OF this safe(1) assms(9) safe(2) [OF assms(9,10)] assms(7,8,6)] show ?thesis by (auto simp: read_safe_def)
qed

text \<open>Two keys; transaction 1 reads \<open>x\<close> and writes \<open>y\<close> at time 10, transaction 2 reads \<open>y\<close> and writes
  \<open>x\<close> at time 5, transaction 3 writes \<open>x\<close> at time 20.\<close>

definition tp_demo_txn :: "string \<Rightarrow> string \<Rightarrow> Transaction" where
  "tp_demo_txn r w = addWriteSet (addReadSet Transaction_default r Timestamp_default) w ''1''"

definition tp_demo_ops :: "tp_op list" where
  "tp_demo_ops = [TPrepare 2 (tp_demo_txn ''y'' ''x'') (Timestamp 5 2) Timestamp_default,
     TPrepare 3 (tp_demo_txn ''z'' ''x'') (Timestamp 20 3) Timestamp_default, TCommit 3 0]"

definition tp_demo_prepared :: "bool \<Rightarrow> TapirStore" where
  "tp_demo_prepared lin = snd (snd (projr (tp_Prepare (tp_loaded lin [(''x'', ''0''), (''y'', ''0'')]) 1 (tp_demo_txn ''x'' ''y'') (Timestamp 10 1) Timestamp_default)))"

text \<open>After the commit nothing protects the reads: the commit does not record them, so a later
  transaction may write below them. In serializable mode two transactions that each read what the
  other writes both commit, in neither order of which the reads are right.\<close>

lemma tapir_commits_write_skew:
  "let s = tp_Commit (tp_demo_prepared False) 1 0; r = tp_Prepare s 2 (tp_demo_txn ''y'' ''x'') (Timestamp 5 2) Timestamp_default;
       s' = tp_Commit (snd (snd (projr r))) 2 0 in
   map_of (tp_prepared (tp_demo_prepared False)) 1 \<noteq> None \<and> \<not> isl r \<and> fst (projr r) = REPLY_OK \<and>
   tp_versions s ''y'' = {Timestamp_default, Timestamp 10 1} \<and> tp_versions s' ''x'' = {Timestamp_default, Timestamp 5 2} \<and>
   tp_versions s' ''y'' = {Timestamp_default, Timestamp 10 1} \<and>
   txn_readSet (tp_demo_txn ''x'' ''y'') = [(''x'', Timestamp_default)] \<and> txn_readSet (tp_demo_txn ''y'' ''x'') = [(''y'', Timestamp_default)]"
  by code_simp

end
