(* ===== verification/TapirServer.thy ===== *)
theory TapirServer
  imports IRClientSafety TapirStore
begin

text \<open>
  src/store/tapirstore/server.cc: the TAPIR server as application of inconsistent replication, and what the
  store promises seen at a replica. How protobuf writes and reads requests and replies is an argument
  (\<open>tapir_codec\<close>); an absent submessage reads as its default. \<^verbatim>\<open>Sync\<close> and \<^verbatim>\<open>Merge\<close> end the process.
\<close>

section \<open>Messages\<close>

datatype TapirOperation = TAPIR_GET | TAPIR_PREPARE | TAPIR_COMMIT | TAPIR_ABORT

record TapirRequest =
  tq_op :: TapirOperation
  tq_txnid :: u64
  tq_get_key :: string
  tq_get_timestamp :: "TimestampMessage option"
  tq_prepare_txn :: TransactionMessage
  tq_prepare_timestamp :: TimestampMessage
  tq_commit_timestamp :: u64
  tq_abort_txn :: TransactionMessage

record TapirReply =
  ty_status :: int
  ty_value :: "string option"
  ty_timestamp :: "TimestampMessage option"

record tapir_codec =
  tk_parse_request :: "string \<Rightarrow> TapirRequest"
  tk_print_request :: "TapirRequest \<Rightarrow> string"
  tk_parse_reply :: "string \<Rightarrow> TapirReply"
  tk_print_reply :: "TapirReply \<Rightarrow> string"

text \<open>What is read of a reply is what was written.\<close>

definition tapir_codec_ok :: "tapir_codec \<Rightarrow> bool" where
  "tapir_codec_ok K \<longleftrightarrow> (\<forall>r. tk_parse_reply K (tk_print_reply K r) = r)"

section \<open>Upcalls\<close>

definition tapir_ExecInconsistentUpcall :: "tapir_codec \<Rightarrow> TapirStore \<Rightarrow> string \<Rightarrow> vr_err + TapirStore" where
  "tapir_ExecInconsistentUpcall K s str1 =
     (let request = tk_parse_request K str1 in
      case tq_op request of
        TAPIR_COMMIT \<Rightarrow> Inr (tp_Commit s (tq_txnid request) (tq_commit_timestamp request))
      | TAPIR_ABORT \<Rightarrow> Inr (tp_Abort s (tq_txnid request) (Transaction_of_msg (tq_abort_txn request)))
      | _ \<Rightarrow> Inl VPanic)"

definition tapir_ExecConsensusUpcall :: "tapir_codec \<Rightarrow> TapirStore \<Rightarrow> string \<Rightarrow> vr_err + string \<times> TapirStore" where
  "tapir_ExecConsensusUpcall K s str1 =
     (let request = tk_parse_request K str1 in
      case tq_op request of
        TAPIR_PREPARE \<Rightarrow>
          bindr (lift_ub (tp_Prepare s (tq_txnid request) (Transaction_of_msg (tq_prepare_txn request))
              (Timestamp_of_msg (tq_prepare_timestamp request)) Timestamp_default)) (\<lambda>(status, proposed, s).
            Inr (tk_print_reply K \<lparr>ty_status = status, ty_value = None,
              ty_timestamp = (if isValid proposed then Some (Timestamp_serialize proposed) else None)\<rparr>, s))
      | _ \<Rightarrow> Inl VPanic)"

definition tapir_UnloggedUpcall :: "tapir_codec \<Rightarrow> TapirStore \<Rightarrow> string \<Rightarrow> vr_err + string \<times> TapirStore" where
  "tapir_UnloggedUpcall K s str1 =
     (let request = tk_parse_request K str1; val = (Timestamp_default, '''') in
      case tq_op request of
        TAPIR_GET \<Rightarrow>
          (case tq_get_timestamp request of
             Some t \<Rightarrow>
               let (status, val) = tp_Get_at s (tq_txnid request) (tq_get_key request) (Timestamp_of_msg t) val
               in Inr (tk_print_reply K \<lparr>ty_status = status, ty_value = (if status = 0 then Some (snd val) else None), ty_timestamp = None\<rparr>, s)
           | None \<Rightarrow>
               let (status, val) = tp_Get s (tq_txnid request) (tq_get_key request) val
               in Inr (tk_print_reply K \<lparr>ty_status = status, ty_value = (if status = 0 then Some (snd val) else None),
                    ty_timestamp = (if status = 0 then Some (Timestamp_serialize (fst val)) else None)\<rparr>, s))
      | _ \<Rightarrow> Inl VPanic)"

definition tapir_Sync :: "TapirStore \<Rightarrow> Record \<Rightarrow> vr_err + TapirStore" where
  "tapir_Sync s record = Inl VPanic"

definition tapir_Merge ::
  "TapirStore \<Rightarrow> opid_groups \<Rightarrow> opid_groups \<Rightarrow> (opid \<times> string) list \<Rightarrow> vr_err + (opid \<times> string) list \<times> TapirStore" where
  "tapir_Merge s d u majority_results_in_d = Inl VPanic"

definition tapir_app :: "tapir_codec \<Rightarrow> TapirStore IRAppReplica" where
  "tapir_app K = \<lparr>ia_ExecInconsistentUpcall = tapir_ExecInconsistentUpcall K, ia_ExecConsensusUpcall = tapir_ExecConsensusUpcall K,
     ia_UnloggedUpcall = tapir_UnloggedUpcall K, ia_Sync = tapir_Sync, ia_Merge = tapir_Merge\<rparr>"

definition TapirServer_Load :: "TapirStore \<Rightarrow> string \<Rightarrow> string \<Rightarrow> Timestamp \<Rightarrow> TapirStore" where
  "TapirServer_Load s key val ts = tp_Load s key val ts"

section \<open>A replica performs operations of the store\<close>

text \<open>The requests that clients propose, and the operation of the store that a request asks for.\<close>

fun proposed_request :: "ir_event \<Rightarrow> string list" where
  "proposed_request (IMsg a (ProposeInconsistentMessage q)) = [vq_op q]"
| "proposed_request (IMsg a (ProposeConsensusMessage q)) = [vq_op q]"
| "proposed_request _ = []"

definition proposed_requests :: "ir_event list \<Rightarrow> string set" where
  "proposed_requests es = set (concat (map proposed_request es))"

definition store_op :: "tapir_codec \<Rightarrow> string \<Rightarrow> tp_op option" where
  "store_op K str1 =
     (let request = tk_parse_request K str1 in
      case tq_op request of
        TAPIR_GET \<Rightarrow> None
      | TAPIR_PREPARE \<Rightarrow> Some (TPrepare (tq_txnid request) (Transaction_of_msg (tq_prepare_txn request))
          (Timestamp_of_msg (tq_prepare_timestamp request)) Timestamp_default)
      | TAPIR_COMMIT \<Rightarrow> Some (TCommit (tq_txnid request) (tq_commit_timestamp request))
      | TAPIR_ABORT \<Rightarrow> Some (TAbort (tq_txnid request) (Transaction_of_msg (tq_abort_txn request))))"

definition recorded_requests :: "'a IRReplica \<Rightarrow> string set" where
  "recorded_requests s = (\<lambda>p. vq_op (re_request (snd p))) ` set (ir_record s)"

text \<open>The operations come from new requests, or, unless they prepare, from the record.\<close>

definition requested :: "tapir_codec \<Rightarrow> string set \<Rightarrow> string set \<Rightarrow> tp_op set" where
  "requested K N R = {x. \<exists>r. store_op K r = Some x \<and> (r \<in> N \<or> r \<in> R \<and> tq_op (tk_parse_request K r) \<noteq> TAPIR_PREPARE)}"

definition performs :: "tapir_codec \<Rightarrow> string set \<Rightarrow> string set \<Rightarrow> TapirStore IRReplica \<Rightarrow> TapirStore IRReplica \<Rightarrow> bool" where
  "performs K N R s s' \<longleftrightarrow> recorded_requests s' \<subseteq> R \<and> (\<exists>ops. tp_run ops (ir_app s) = Inr (ir_app s') \<and> set ops \<subseteq> requested K N R)"

lemma performs_same: "recorded_requests s' \<subseteq> R \<Longrightarrow> ir_app s' = ir_app s \<Longrightarrow> performs K N R s s'"
  unfolding performs_def by (auto intro: exI [of _ "[]"])

lemma performs_one: "recorded_requests s' \<subseteq> R \<Longrightarrow> r \<in> N \<or> r \<in> R \<and> tq_op (tk_parse_request K r) \<noteq> TAPIR_PREPARE \<Longrightarrow>
   store_op K r = Some x \<Longrightarrow> tp_step (ir_app s) x = Inr (ir_app s') \<Longrightarrow> performs K N R s s'"
  unfolding performs_def requested_def by (auto intro!: exI [of _ "[x]"])

lemma recorded_put: "set (ir_record s') \<subseteq> insert (op, e) (set (ir_record s)) \<Longrightarrow> recorded_requests s \<subseteq> R \<Longrightarrow> vq_op (re_request e) \<in> R \<Longrightarrow> recorded_requests s' \<subseteq> R"
  unfolding recorded_requests_def by fastforce

lemma ir_send_record [simp]: "ir_record (ir_send s d m) = ir_record s" "ir_app (ir_send s d m) = ir_app s"
  by (simp_all add: ir_send_def)

lemma broadcast_keeps: "after (\<lambda>t. ir_app t = ir_app s \<and> ir_record t = ir_record s) (BroadcastDoViewChangeMessages s)"
proof -
  have fold: "ir_app (fold (\<lambda>i s. if i = ir_myIdx s \<or> i = l then s else ir_send s (VReplica i) m) xs t) = ir_app t \<and>
      ir_record (fold (\<lambda>i s. if i = ir_myIdx s \<or> i = l then s else ir_send s (VReplica i) m) xs t) = ir_record t" for l m xs and t :: "'a IRReplica"
    by (induction xs arbitrary: t) simp_all
  show ?thesis unfolding BroadcastDoViewChangeMessages_def Let_def by (intro after_bindr_any) (simp add: fold)
qed

text \<open>A view change ends the process.\<close>

lemma tapir_merge_panics: "IrMergeRecords (tapir_app K) s records = Inl VPanic"
  by (simp add: IrMergeRecords_def tapir_app_def tapir_Sync_def Let_def split: prod.split)

lemma tapir_DoViewChange_keeps:
  "after (\<lambda>t. ir_app t = ir_app s \<and> ir_record t = ir_record s) (HandleDoViewChange (tapir_app K) s m)"
proof -
  have cast: "after (\<lambda>t. ir_app t = ir_app s \<and> ir_record t = ir_record s) (BroadcastDoViewChangeMessages t)"
    if "ir_app t = ir_app s \<and> ir_record t = ir_record s" for t
    using broadcast_keeps [of t] that by simp
  show ?thesis
    by (auto simp: HandleDoViewChange_def Let_def PersistViewInfo_def tapir_merge_panics split: option.split prod.split
      intro!: after_bindr [where P = "\<lambda>t. ir_app t = ir_app s \<and> ir_record t = ir_record s"] cast after_bindr_any [where r = "lift_ub x" for x])
qed
lemma recorded_send [simp]: "recorded_requests (ir_send s d m) = recorded_requests s" "recorded_requests (s\<lparr>ir_app := a\<rparr>) = recorded_requests s"
  by (simp_all add: recorded_requests_def)

lemma recorded_smap_put:
  "recorded_requests s \<subseteq> R \<Longrightarrow> vq_op (re_request e) \<in> R \<Longrightarrow> recorded_requests (s\<lparr>ir_record := smap_put op e (ir_record s)\<rparr>) \<subseteq> R"
  by (rule recorded_put [where op = op and e = e and s = s]) (simp_all add: set_smap_put_subset)

lemma recorded_find: "recorded_requests s \<subseteq> R \<Longrightarrow> record_Find (ir_record s) op = Some e \<Longrightarrow> vq_op (re_request e) \<in> R"
  by (force simp: recorded_requests_def record_Find_def dest: map_of_SomeD)

lemma recorded_set:
  assumes "recorded_requests s \<subseteq> R"
  shows "recorded_requests (s\<lparr>ir_record := snd (record_SetStatus (ir_record s) op st)\<rparr>) \<subseteq> R"
    and "recorded_requests (s\<lparr>ir_record := snd (record_SetResult (ir_record s) op r)\<rparr>) \<subseteq> R"
  using assms recorded_find [OF assms] recorded_smap_put [OF assms]
  by (auto simp: record_SetStatus_def record_SetResult_def record_set_def split: option.split)

lemma finalize_consensus_performs:
  assumes "recorded_requests s \<subseteq> R"
  shows "performs K N R s (HandleFinalizeConsensus s remote op result)"
proof -
  note s = recorded_set(1) [OF assms, of op RECORD_STATE_FINALIZED]
  from s recorded_set(2) [OF s, of op result] assms show ?thesis
    by (auto simp: HandleFinalizeConsensus_def Let_def intro!: performs_same split: option.split)
qed

lemma finalize_inconsistent_performs:
  assumes "recorded_requests s \<subseteq> R"
  shows "after (performs K N R s) (HandleFinalizeInconsistent (tapir_app K) s remote op)"
proof (cases "record_Find (ir_record s) op")
  case (Some e)
  let ?r = "vq_op (re_request e)"
  let ?s = "s\<lparr>ir_record := snd (record_SetStatus (ir_record s) op RECORD_STATE_FINALIZED)\<rparr>"
  have s: "recorded_requests ?s \<subseteq> R" using assms by (rule recorded_set)
  have "performs K N R s (ir_send (?s\<lparr>ir_app := a\<rparr>) d m)" if up: "tapir_ExecInconsistentUpcall K (ir_app s) ?r = Inr a" for a d m
  proof -
    obtain x where "store_op K ?r = Some x" "tp_step (ir_app s) x = Inr a" "tq_op (tk_parse_request K ?r) \<noteq> TAPIR_PREPARE"
      using up by (auto simp: tapir_ExecInconsistentUpcall_def store_op_def Let_def split: TapirOperation.splits)
    then show ?thesis using s recorded_find [OF assms Some] by (intro performs_one) auto
  qed
  then show ?thesis
    using assms by (cases "tapir_ExecInconsistentUpcall K (ir_app s) ?r")
      (auto simp: HandleFinalizeInconsistent_def Some Let_def tapir_app_def intro!: performs_same)
qed (use assms in \<open>auto simp: HandleFinalizeInconsistent_def intro!: performs_same\<close>)

lemma propose_consensus_performs:
  assumes "recorded_requests s \<subseteq> R" "vq_op q \<in> N" "N \<subseteq> R"
  shows "after (performs K N R s) (HandleProposeConsensus (tapir_app K) s remote q)"
proof (cases "record_Find (ir_record s) (vq_clientid q, vq_clientreqid q)")
  case None
  have "performs K N R s (ir_send (s\<lparr>ir_app := a, ir_record := smap_put op e (ir_record s)\<rparr>) d m)"
    if up: "tapir_ExecConsensusUpcall K (ir_app s) (vq_op q) = Inr (r, a)" "re_request e = q" for r a op e d m
  proof -
    obtain x where x: "store_op K (vq_op q) = Some x" "tp_step (ir_app s) x = Inr a"
      using up(1) by (auto simp: tapir_ExecConsensusUpcall_def store_op_def Let_def bindr_eq_Inr lift_ub_def map_sum_def
          split: TapirOperation.splits sum.splits)
    have "recorded_requests (s\<lparr>ir_app := a, ir_record := smap_put op e (ir_record s)\<rparr>) \<subseteq> R"
      using recorded_smap_put [OF assms(1), of e op] assms(2,3) up(2) by (auto simp: recorded_requests_def)
    then show ?thesis using x assms(2) by (intro performs_one) auto
  qed
  then show ?thesis
    by (cases "tapir_ExecConsensusUpcall K (ir_app s) (vq_op q)")
      (auto simp: HandleProposeConsensus_def None Let_def tapir_app_def record_Add_result_eq split: prod.split)
qed (use assms in \<open>auto simp: HandleProposeConsensus_def intro!: performs_same\<close>)

lemma tapir_step_performs:
  assumes "recorded_requests s \<subseteq> R" "set (proposed_request e) \<subseteq> N" "N \<subseteq> R"
  shows "after (performs K N R s) (ir_step (tapir_app K) s e)"
proof -
  have keep: "after (performs K N R s) r" if "after (\<lambda>t. ir_app t = ir_app s \<and> ir_record t = ir_record s) r" for r
    using that by (rule after_mono) (use assms(1) in \<open>auto simp: recorded_requests_def intro!: performs_same\<close>)
  show ?thesis
  proof (cases e)
    case ITimeout
    show ?thesis
      unfolding ITimeout ir_step.simps HandleViewChangeTimeout_def Let_def
      by (rule keep, rule after_mono [OF broadcast_keeps]) (simp add: PersistViewInfo_def)
  next
    case (IMsg a m)
    show ?thesis
    proof (cases m)
      case (ProposeInconsistentMessage q)
      have "vq_op q \<in> R" using assms(2,3) by (auto simp: IMsg ProposeInconsistentMessage)
      then have "recorded_requests (s\<lparr>ir_record := record_Add_op (ir_record s) (ir_view s) op q RECORD_STATE_TENTATIVE RECORD_TYPE_INCONSISTENT\<rparr>) \<subseteq> R" for op
        unfolding record_Add_op_def record_Add_def by (intro recorded_smap_put [OF assms(1)]) simp
      then have "performs K N R s (HandleProposeInconsistent s a q)"
        using assms(1) by (simp add: HandleProposeInconsistent_def Let_def performs_same split: option.split)
      then show ?thesis by (simp add: IMsg ProposeInconsistentMessage)
    next
      case (ProposeConsensusMessage q)
      then show ?thesis using propose_consensus_performs [OF assms(1), of q N] assms(2,3) by (simp add: IMsg)
    next
      case (IUnloggedRequestMessage q)
      have "after (\<lambda>t. ir_app t = ir_app s \<and> ir_record t = ir_record s) (HandleUnlogged (tapir_app K) s a q)"
        by (auto simp: HandleUnlogged_def tapir_app_def tapir_UnloggedUpcall_def Let_def split: TapirOperation.split option.split prod.split)
      then show ?thesis using keep by (simp add: IMsg IUnloggedRequestMessage)
    next
      case (IStartViewMessage r v)
      have "after (\<lambda>t. ir_app t = ir_app s \<and> ir_record t = ir_record s) (HandleStartView (tapir_app K) s r v)"
        by (simp add: HandleStartView_def tapir_app_def tapir_Sync_def Let_def)
      then show ?thesis using keep by (simp add: IMsg IStartViewMessage)
    next
      case (IDoViewChangeMessage x)
      then show ?thesis using keep [OF tapir_DoViewChange_keeps] by (simp add: IMsg)
    next
      case (FinalizeInconsistentMessage op)
      then show ?thesis using finalize_inconsistent_performs [OF assms(1)] by (simp add: IMsg)
    next
      case (FinalizeConsensusMessage op r)
      then show ?thesis using finalize_consensus_performs [OF assms(1)] by (simp add: IMsg)
    qed (simp_all add: IMsg)
  qed
qed

lemma tp_run_append: "tp_run (xs @ ys) s = bindr (tp_run xs s) (tp_run ys)"
  by (induction xs arbitrary: s) (auto simp: bindr_def split: sum.split)

lemma performs_trans: "performs K N R s s1 \<Longrightarrow> performs K N R s1 s2 \<Longrightarrow> performs K N R s s2"
  unfolding performs_def
proof (elim conjE exE, intro conjI)
  fix xs ys assume "tp_run xs (ir_app s) = Inr (ir_app s1)" "tp_run ys (ir_app s1) = Inr (ir_app s2)"
    "set xs \<subseteq> requested K N R" "set ys \<subseteq> requested K N R"
  then show "\<exists>ops. tp_run ops (ir_app s) = Inr (ir_app s2) \<and> set ops \<subseteq> requested K N R"
    by (intro exI [of _ "xs @ ys"]) (simp add: tp_run_append)
qed

lemma tapir_run_performs:
  "ir_run (tapir_app K) es s = Inr s' \<Longrightarrow> recorded_requests s \<subseteq> R \<Longrightarrow> proposed_requests es \<subseteq> N \<Longrightarrow> N \<subseteq> R \<Longrightarrow> performs K N R s s'"
proof (induction es arbitrary: s)
  case Nil
  then show ?case by (auto intro: performs_same)
next
  case (Cons e es)
  obtain s1 where s1: "ir_step (tapir_app K) s e = Inr s1" "ir_run (tapir_app K) es s1 = Inr s'" using Cons.prems(1) by (auto simp: bindr_eq_Inr)
  have "performs K N R s s1" using tapir_step_performs [of s R e N K] Cons.prems s1(1) by (simp add: after_def proposed_requests_def)
  moreover from this have "performs K N R s1 s'"
    using Cons.IH [OF s1(2)] Cons.prems(3,4) by (simp add: performs_def proposed_requests_def)
  ultimately show ?case by (rule performs_trans)
qed

section \<open>Prepared transactions at a replica\<close>

lemma prepared_from:
  "tp_run ops s = Inr s' \<Longrightarrow> map_of (tp_prepared s') i = Some (ts, x) \<Longrightarrow>
   map_of (tp_prepared s) i = Some (ts, x) \<or> (\<exists>p. TPrepare i x ts p \<in> set ops)"
proof (induction ops arbitrary: s)
  case (Cons y ops)
  obtain s1 where s1: "tp_step s y = Inr s1" "tp_run ops s1 = Inr s'" using Cons.prems by (auto simp: bindr_eq_Inr)
  have "map_of (tp_prepared s) i = Some (ts, x) \<or> (\<exists>p. y = TPrepare i x ts p)" if m: "map_of (tp_prepared s1) i = Some (ts, x)"
  proof (cases y)
    case (TPrepare j txn t p)
    then obtain code q where "tp_Prepare s j txn t p = Inr (code, q, s1)" using s1(1) by (cases "tp_Prepare s j txn t p") auto
    then show ?thesis
    proof (cases rule: tp_Prepare_cases)
      case (2 s0)
      have s0: "map_of (tp_prepared s0) i = Some (ts, x) \<Longrightarrow> map_of (tp_prepared s) i = Some (ts, x)"
        using 2(1) by (auto split: if_splits)
      from 2(2) show ?thesis by (cases rule: tp_validate_cases) (use m s0 TPrepare in \<open>auto split: if_splits\<close>)
    qed (use m in simp)
  next
    case (TCommit j t)
    then show ?thesis using m s1(1) by (auto simp: tp_Commit_def Let_def split: if_splits)
  next
    case (TAbort j txn)
    then show ?thesis using m s1(1) by (auto simp: tp_Abort_def split: if_splits)
  qed
  with Cons.IH [OF s1(2) Cons.prems(2)] show ?case by auto
qed simp

lemma prepared_loaded [simp]: "tp_prepared (tp_loaded lin kvs) = []"
proof -
  have "tp_prepared (fold (\<lambda>(k, v) s. tp_Load s k v Timestamp_default) kvs s) = tp_prepared s" for s
    by (induction kvs arbitrary: s) (auto simp: tp_Load_def)
  then show ?thesis by (simp add: tp_loaded_def TapirStore_new_def)
qed

lemma IRReplica_new_fresh: "IRReplica_new parse n f i a None = Inr s \<Longrightarrow> ir_app s = a \<and> ir_record s = []"
  by (auto simp: IRReplica_new_def Let_def PersistViewInfo_def)

lemma requested_txn: "x \<in> requested K N R \<Longrightarrow> \<exists>r \<in> N \<union> R. op_txn x = tq_txnid (tk_parse_request K r) \<and> tq_op (tk_parse_request K r) \<noteq> TAPIR_GET"
  unfolding requested_def store_op_def Let_def by (force split: TapirOperation.splits)

lemma requested_valid:
  assumes "x \<in> requested K N R" "\<And>r. r \<in> N \<Longrightarrow> tq_op (tk_parse_request K r) = TAPIR_PREPARE \<Longrightarrow> isValid (Timestamp_of_msg (tq_prepare_timestamp (tk_parse_request K r)))"
  shows "valid_op x"
proof -
  obtain r where "store_op K r = Some x" "r \<in> N \<or> tq_op (tk_parse_request K r) \<noteq> TAPIR_PREPARE"
    using assms(1) by (auto simp: requested_def)
  then show ?thesis using assms(2) [of r] by (cases "tq_op (tk_parse_request K r)") (auto simp: store_op_def Let_def)
qed

lemma prepare_answered:
  assumes "tapir_codec_ok K" "record_Find (ir_record s) (vq_clientid q, vq_clientreqid q) = None"
    and "ir_step (tapir_app K) s (IMsg a (ProposeConsensusMessage q)) = Inr s1"
    and "last (ir_sent s1) = (VAddr a, ReplyConsensusMessage m)" "ty_status (tk_parse_reply K (rk_result m)) = REPLY_OK"
  shows "tq_op (tk_parse_request K (vq_op q)) = TAPIR_PREPARE \<and> (\<exists>p. tp_Prepare (ir_app s) (tq_txnid (tk_parse_request K (vq_op q)))
    (Transaction_of_msg (tq_prepare_txn (tk_parse_request K (vq_op q)))) (Timestamp_of_msg (tq_prepare_timestamp (tk_parse_request K (vq_op q))))
    Timestamp_default = Inr (REPLY_OK, p, ir_app s1)) \<and> recorded_requests s1 \<subseteq> insert (vq_op q) (recorded_requests s)"
proof -
  have "recorded_requests s1 \<subseteq> insert (vq_op q) (recorded_requests s)"
    using propose_consensus_performs [of s "insert (vq_op q) (recorded_requests s)" q "{vq_op q}" K a] assms(3)
    by (auto simp: after_def performs_def)
  moreover obtain r b where up: "tapir_ExecConsensusUpcall K (ir_app s) (vq_op q) = Inr (r, b)"
    "ir_app s1 = b" "m = \<lparr>rk_view = ir_view s, rk_replicaIdx = ir_myIdx s, rk_opid = (vq_clientid q, vq_clientreqid q), rk_result = r, rk_finalized = False\<rparr>"
    using assms(2-4) by (auto simp: HandleProposeConsensus_def tapir_app_def Let_def bindr_eq_Inr ir_send_def)
  moreover have "ty_status (tk_parse_reply K r) = REPLY_OK" using assms(5) up(3) by simp
  ultimately show ?thesis
    using assms(1) by (auto simp: tapir_ExecConsensusUpcall_def Let_def bindr_eq_Inr lift_ub_def map_sum_def tapir_codec_ok_def
        split: TapirOperation.splits sum.splits)
qed

section \<open>View changes\<close>

definition first_view :: "'a IRReplica \<Rightarrow> bool" where
  "first_view s \<longleftrightarrow> ir_latest_normal_view s = 0 \<and> (ir_status s = STATUS_NORMAL \<longrightarrow> ir_view s = 0)"

lemma first_view_update [simp]:
  "first_view (ir_send s d m) = first_view s" "first_view (s\<lparr>ir_app := x1\<rparr>) = first_view s" "first_view (s\<lparr>ir_record := x2\<rparr>) = first_view s"
  "first_view (s\<lparr>ir_quorum := x3\<rparr>) = first_view s" "first_view (PersistViewInfo s) = first_view s"
  by (simp_all add: first_view_def ir_send_def PersistViewInfo_def)

lemma first_view_broadcast: "first_view s \<Longrightarrow> after first_view (BroadcastDoViewChangeMessages s)"
proof -
  assume s: "first_view s"
  have fold: "first_view (fold (\<lambda>i s. if i = ir_myIdx s \<or> i = l then s else ir_send s (VReplica i) m) xs t) = first_view t" for l m xs and t :: "'a IRReplica"
    by (induction xs arbitrary: t) simp_all
  from s show ?thesis unfolding BroadcastDoViewChangeMessages_def Let_def by (intro after_bindr_any) (simp add: fold)
qed

lemma first_view_change: "first_view s \<Longrightarrow> after first_view (HandleDoViewChange (tapir_app K) s m)"
proof -
  assume s: "first_view s"
  have merge: "after first_view (case AddAndCheckForQuorum (ir_quorum t) v i x of
       (None, q) \<Rightarrow> Inr (t\<lparr>ir_quorum := q\<rparr>)
     | (Some quorum, q) \<Rightarrow> bindr (IrMergeRecords (tapir_app K) (t\<lparr>ir_quorum := q\<rparr>) quorum) (g q))" if "first_view t" for t v i x g
    using that by (auto simp: tapir_merge_panics split: option.split prod.split)
  have enter: "after first_view (BroadcastDoViewChangeMessages
      (if ir_status (PersistViewInfo (s\<lparr>ir_view := v\<rparr>)) = STATUS_NORMAL
       then PersistViewInfo (s\<lparr>ir_view := v\<rparr>)\<lparr>ir_status := STATUS_VIEW_CHANGE\<rparr> else PersistViewInfo (s\<lparr>ir_view := v\<rparr>)))" for v
    using s by (intro first_view_broadcast) (simp add: first_view_def PersistViewInfo_def)
  show ?thesis
    unfolding HandleDoViewChange_def Let_def
    by (intro after_if after_bindr [where P = first_view] after_bindr_any [where r = "lift_ub x" for x] merge enter) (simp_all add: s)
qed

lemma first_view_step: "first_view s \<Longrightarrow> after first_view (ir_step (tapir_app K) s e)"
proof (cases e)
  case ITimeout
  assume s: "first_view s"
  then have "first_view (PersistViewInfo (s\<lparr>ir_status := STATUS_VIEW_CHANGE, ir_view := v\<rparr>))"
    "ir_status s \<noteq> STATUS_NORMAL \<Longrightarrow> first_view (PersistViewInfo (s\<lparr>ir_view := v\<rparr>))" for v
    by (simp_all add: first_view_def PersistViewInfo_def)
  then show ?thesis by (auto simp: ITimeout HandleViewChangeTimeout_def Let_def intro!: first_view_broadcast)
next
  case (IMsg a m)
  assume s: "first_view s"
  show ?thesis
  proof (cases m)
    case (IDoViewChangeMessage x)
    then show ?thesis using first_view_change [OF s] by (simp add: IMsg)
  qed (use s in \<open>auto simp: IMsg HandleProposeInconsistent_def HandleFinalizeInconsistent_def HandleProposeConsensus_def HandleFinalizeConsensus_def
        HandleUnlogged_def HandleStartView_def Let_def tapir_app_def tapir_Sync_def split: option.split intro!: after_bindr_any\<close>)
qed

text \<open>A TAPIR replica never completes a view change: it is in its first view, or between views for ever; the
  message that would complete the change ends it.\<close>

lemma tapir_stays_in_first_view:
  "IRReplica_new parse n f idx a None = Inr s0 \<Longrightarrow> ir_run (tapir_app K) es s0 = Inr s \<Longrightarrow>
   ir_latest_normal_view s = 0 \<and> (ir_status s = STATUS_NORMAL \<longrightarrow> ir_view s = 0)"
proof -
  assume start: "IRReplica_new parse n f idx a None = Inr s0" and run: "ir_run (tapir_app K) es s0 = Inr s"
  have "first_view s0" using start by (auto simp: IRReplica_new_def Let_def PersistViewInfo_def first_view_def)
  moreover have "first_view t \<Longrightarrow> ir_run (tapir_app K) xs t = Inr u \<Longrightarrow> first_view u" for xs t u
  proof (induction xs arbitrary: t)
    case (Cons e xs)
    obtain v where v: "ir_step (tapir_app K) t e = Inr v" "ir_run (tapir_app K) xs v = Inr u" using Cons.prems(2) by (auto simp: bindr_eq_Inr)
    have "first_view v" using first_view_step [OF Cons.prems(1), of K e] v(1) by (simp add: after_def)
    then show ?case using v(2) by (rule Cons.IH)
  qed simp
  ultimately have "first_view s" using run by blast
  then show ?thesis by (simp add: first_view_def)
qed

section \<open>A concrete server\<close>

text \<open>A reply is its status, the optional timestamp and the optional value. Three requests: transaction 1 reads
  \<open>x\<close> and writes \<open>y\<close> at time 10, transaction 3 reads \<open>z\<close> and writes \<open>x\<close> at time 20 and commits.\<close>

definition print_demo_reply :: "TapirReply \<Rightarrow> string" where
  "print_demo_reply r =
     (let val = (case ty_value r of None \<Rightarrow> ''n'' | Some v \<Rightarrow> CHR ''s'' # v);
          ts = (case ty_timestamp r of None \<Rightarrow> CHR ''n'' # unary 0 (unary 0 val)
                | Some t \<Rightarrow> CHR ''s'' # unary (unat (tm_timestamp t)) (unary (unat (tm_id t)) val))
      in (if ty_status r < 0 then CHR ''m'' else CHR ''p'') # unary (nat \<bar>ty_status r\<bar>) ts)"

definition digits :: "string \<Rightarrow> nat" where
  "digits s = length (takeWhile (\<lambda>c. c = CHR ''a'') s)"

definition after_digits :: "string \<Rightarrow> string" where
  "after_digits s = drop 1 (dropWhile (\<lambda>c. c = CHR ''a'') s)"

definition parse_demo_reply :: "string \<Rightarrow> TapirReply" where
  "parse_demo_reply s =
     (let n = digits (drop 1 s); ts = after_digits (drop 1 s); a = digits (drop 1 ts); b = digits (after_digits (drop 1 ts));
          val = after_digits (after_digits (drop 1 ts))
      in \<lparr>ty_status = (if take 1 s = ''m'' then - int n else int n),
          ty_value = (if take 1 val = ''n'' then None else Some (drop 1 val)),
          ty_timestamp = (if take 1 ts = ''n'' then None else Some \<lparr>tm_id = of_nat b, tm_timestamp = of_nat a\<rparr>)\<rparr>)"

lemma digits_simps [simp]: "digits (unary n s) = n" "after_digits (unary n s) = s"
  by (simp_all add: digits_def after_digits_def)

lemma parse_demo_reply: "parse_demo_reply (print_demo_reply r) = r"
  by (cases r) (auto simp: parse_demo_reply_def print_demo_reply_def Let_def split: option.split)

definition demo_tapir_request :: TapirRequest where
  "demo_tapir_request = \<lparr>tq_op = TAPIR_COMMIT, tq_txnid = 3, tq_get_key = '''', tq_get_timestamp = None, tq_prepare_txn = TransactionMessage_default,
     tq_prepare_timestamp = \<lparr>tm_id = 0, tm_timestamp = 0\<rparr>, tq_commit_timestamp = 0, tq_abort_txn = TransactionMessage_default\<rparr>"

definition demo_tapir_codec :: tapir_codec where
  "demo_tapir_codec = \<lparr>
     tk_parse_request = (\<lambda>s.
       if s = ''p1'' then demo_tapir_request\<lparr>tq_op := TAPIR_PREPARE, tq_txnid := 1, tq_prepare_txn := Transaction_serialize (tp_demo_txn ''x'' ''y''),
         tq_prepare_timestamp := \<lparr>tm_id = 1, tm_timestamp = 10\<rparr>\<rparr>
       else if s = ''p3'' then demo_tapir_request\<lparr>tq_op := TAPIR_PREPARE, tq_prepare_txn := Transaction_serialize (tp_demo_txn ''z'' ''x''),
         tq_prepare_timestamp := \<lparr>tm_id = 3, tm_timestamp = 20\<rparr>\<rparr>
       else demo_tapir_request),
     tk_print_request = (\<lambda>q. ''''), tk_parse_reply = parse_demo_reply, tk_print_reply = print_demo_reply\<rparr>"

definition tapir_message :: "string \<Rightarrow> u64 \<Rightarrow> VRequest" where
  "tapir_message s n = \<lparr>vq_op = s, vq_clientid = 7, vq_clientreqid = n\<rparr>"

definition demo_tapir :: "TapirStore IRReplica" where
  "demo_tapir = projr (IRReplica_new (\<lambda>x. (0, 0)) 3 1 0 (tp_loaded False [(''x'', ''0''), (''y'', ''0'')]) None)"

definition demo_voted :: "TapirStore IRReplica" where
  "demo_voted = projr (ir_step (tapir_app demo_tapir_codec) demo_tapir (IMsg 44 (ProposeConsensusMessage (tapir_message ''p1'' 1))))"

definition demo_tapir_events :: "ir_event list" where
  "demo_tapir_events = [IMsg 44 (ProposeConsensusMessage (tapir_message ''p3'' 2)), IMsg 44 (ProposeInconsistentMessage (tapir_message ''c3'' 3)),
     IMsg 44 (FinalizeInconsistentMessage (7, 3))]"

definition demo_tapir_done :: "TapirStore IRReplica" where
  "demo_tapir_done = projr (ir_run (tapir_app demo_tapir_codec) demo_tapir_events demo_voted)"

section \<open>Properties\<close>

text \<open>C30. A replica of the TAPIR server that has voted for a transaction keeps its reads valid as long as it
  is prepared: if the replica answers \<^verbatim>\<open>OK\<close> to a new request to prepare at \<open>ts\<close> a transaction that read
  version \<open>v\<close> of \<open>k\<close>, and it has that version itself, then whatever messages it handles next, it has
  no version of \<open>k\<close> between \<open>v\<close> and \<open>ts\<close>. A replica that does not have the version read skips the
  checks for that read, so nothing is said of it. The messages before and after are arbitrary except
  for the requests that concern the transaction itself: no commit or abort of it is proposed, before
  the vote it is not prepared at \<open>ts\<close> (retries at other timestamps are allowed), and after the vote only
  at \<open>ts\<close> (repetitions are allowed). The timestamps that clients propose have non-zero parts.\<close>

theorem tapir_replica_reads_stable:
  assumes codec: "tapir_codec_ok K"
    and start: "IRReplica_new parse n f idx (tp_loaded lin kvs) None = Inr s0" and before: "ir_run (tapir_app K) es s0 = Inr s"
    and new: "record_Find (ir_record s) (vq_clientid q, vq_clientreqid q) = None"
    and step: "ir_step (tapir_app K) s (IMsg a (ProposeConsensusMessage q)) = Inr s1"
    and reply: "last (ir_sent s1) = (VAddr a, ReplyConsensusMessage m)" "ty_status (tk_parse_reply K (rk_result m)) = REPLY_OK"
    and later: "ir_run (tapir_app K) es' s1 = Inr s2"
    and req: "req = tk_parse_request K (vq_op q)" "ts = Timestamp_of_msg (tq_prepare_timestamp req)"
    and valid: "\<And>r. r \<in> insert (vq_op q) (proposed_requests (es @ es')) \<Longrightarrow> tq_op (tk_parse_request K r) = TAPIR_PREPARE \<Longrightarrow>
       isValid (Timestamp_of_msg (tq_prepare_timestamp (tk_parse_request K r)))"
    and undecided: "\<And>r. r \<in> proposed_requests (es @ es') \<Longrightarrow> tq_txnid (tk_parse_request K r) = tq_txnid req \<Longrightarrow>
       tq_op (tk_parse_request K r) \<noteq> TAPIR_COMMIT \<and> tq_op (tk_parse_request K r) \<noteq> TAPIR_ABORT"
    and first: "\<And>r. r \<in> proposed_requests es \<Longrightarrow> tq_txnid (tk_parse_request K r) = tq_txnid req \<Longrightarrow>
       tq_op (tk_parse_request K r) = TAPIR_PREPARE \<Longrightarrow> Timestamp_of_msg (tq_prepare_timestamp (tk_parse_request K r)) \<noteq> ts"
    and again: "\<And>r. r \<in> proposed_requests es' \<Longrightarrow> tq_txnid (tk_parse_request K r) = tq_txnid req \<Longrightarrow>
       tq_op (tk_parse_request K r) = TAPIR_PREPARE \<Longrightarrow> Timestamp_of_msg (tq_prepare_timestamp (tk_parse_request K r)) = ts"
    and read: "(k, v) \<in> set (txn_readSet (Transaction_of_msg (tq_prepare_txn req)))" "v \<in> tp_versions (ir_app s) k"
  shows "{w \<in> tp_versions (ir_app s2) k. w < ts} \<subseteq> {..v}"
proof -
  let ?N = "proposed_requests es" and ?N' = "proposed_requests es'" and ?R = "insert (vq_op q) (proposed_requests (es @ es'))"
  have sub: "?N \<subseteq> ?R" "?N' \<subseteq> ?R" by (auto simp: proposed_requests_def)
  have "performs K ?N ?N s0 s"
    by (rule tapir_run_performs [OF before]) (use IRReplica_new_fresh [OF start] in \<open>auto simp: recorded_requests_def\<close>)
  then obtain ops where ops: "tp_run ops (tp_loaded lin kvs) = Inr (ir_app s)" "set ops \<subseteq> requested K ?N ?N" "recorded_requests s \<subseteq> ?N"
    using IRReplica_new_fresh [OF start] by (auto simp: performs_def)
  have in1: "r \<in> proposed_requests (es @ es')" if "r \<in> ?N \<or> r \<in> ?N'" for r using that by (auto simp: proposed_requests_def)
  have vops: "list_all valid_op ops" using ops(2) valid in1 by (auto simp: list_all_iff intro!: requested_valid)
  have fresh: "map_of (tp_prepared (ir_app s)) (tq_txnid req) \<noteq> Some (ts, x)" for x
  proof
    assume "map_of (tp_prepared (ir_app s)) (tq_txnid req) = Some (ts, x)"
    from prepared_from [OF ops(1) this] obtain p where "TPrepare (tq_txnid req) x ts p \<in> requested K ?N ?N" using ops(2) by auto
    then obtain r where r: "r \<in> ?N" "store_op K r = Some (TPrepare (tq_txnid req) x ts p)" by (auto simp: requested_def)
    then show False using first [OF r(1)] by (auto simp: store_op_def Let_def split: TapirOperation.splits)
  qed
  from prepare_answered [OF codec new step reply] obtain p where p:
    "tp_Prepare (ir_app s) (tq_txnid req) (Transaction_of_msg (tq_prepare_txn req)) ts Timestamp_default = Inr (REPLY_OK, p, ir_app s1)"
    "tq_op req = TAPIR_PREPARE" "recorded_requests s1 \<subseteq> insert (vq_op q) (recorded_requests s)"
    using req by auto
  have inv: "tp_inv (ir_app s)" by (rule tp_run_inv [OF tp_inv_loaded vops ops(1)])
  have vts: "isValid ts" using valid [of "vq_op q"] req p(2) by simp
  note safe = prepare_read_safe [OF inv vts fresh p(1)]
  have "tp_step (ir_app s) (TPrepare (tq_txnid req) (Transaction_of_msg (tq_prepare_txn req)) ts Timestamp_default) = Inr (ir_app s1)" by (simp add: p(1))
  then have inv1: "tp_inv (ir_app s1)" by (rule tp_step_inv [OF inv, rotated]) (simp add: vts)
  have "performs K ?N' ?R s1 s2" by (rule tapir_run_performs [OF later _ subset_refl sub(2)]) (use p(3) ops(3) sub(1) in blast)
  then obtain ops' where ops': "tp_run ops' (ir_app s1) = Inr (ir_app s2)" "set ops' \<subseteq> requested K ?N' ?R" by (auto simp: performs_def)
  have vops': "list_all valid_op ops'" using ops'(2) valid in1 by (auto simp: list_all_iff intro!: requested_valid)
  have "op_txn x \<noteq> tq_txnid req \<or> prepares_again (tq_txnid req) ts x" if x: "x \<in> set ops'" for x
  proof -
    obtain r where r: "store_op K r = Some x" "r \<in> ?N' \<or> r \<in> ?R \<and> tq_op (tk_parse_request K r) \<noteq> TAPIR_PREPARE"
      using ops'(2) x by (auto simp: requested_def)
    then have "r \<in> proposed_requests (es @ es')" using p(2) req(1) in1 by auto
    with r undecided [of r] again [of r] show ?thesis by (auto simp: store_op_def Let_def split: TapirOperation.splits)
  qed
  then have "list_all (\<lambda>e. op_txn e \<noteq> tq_txnid req \<or> prepares_again (tq_txnid req) ts e) ops'" by (simp add: list_all_iff)
  from run_read_safe [OF inv1 safe(1) read(1) safe(2) [OF read] vops' this ops'(1)] show ?thesis by (auto simp: read_safe_def)
qed

theorem tapir_replica_reads_stable_witness:
  "tp_versions (ir_app demo_tapir_done) ''x'' = {Timestamp_default, Timestamp 20 3} \<and>
   {w \<in> tp_versions (ir_app demo_tapir_done) ''x''. w < Timestamp 10 1} \<subseteq> {..Timestamp_default}"
proof -
  let ?K = demo_tapir_codec and ?q = "tapir_message ''p1'' 1"
  have codec: "tapir_codec_ok ?K" by (simp add: tapir_codec_ok_def demo_tapir_codec_def parse_demo_reply)
  have start: "IRReplica_new (\<lambda>x. (0, 0)) 3 1 0 (tp_loaded False [(''x'', ''0''), (''y'', ''0'')]) None = Inr demo_tapir"
    unfolding demo_tapir_def by (rule sum.collapse(2) [symmetric]) code_simp
  have step: "ir_step (tapir_app ?K) demo_tapir (IMsg 44 (ProposeConsensusMessage ?q)) = Inr demo_voted"
    unfolding demo_voted_def by (rule sum.collapse(2) [symmetric]) code_simp
  have later: "ir_run (tapir_app ?K) demo_tapir_events demo_voted = Inr demo_tapir_done"
    unfolding demo_tapir_done_def by (rule sum.collapse(2) [symmetric]) code_simp
  have before: "ir_run (tapir_app ?K) [] demo_tapir = Inr demo_tapir" by simp
  have new: "record_Find (ir_record demo_tapir) (vq_clientid ?q, vq_clientreqid ?q) = None" by code_simp
  have reply: "last (ir_sent demo_voted) = (VAddr 44, ReplyConsensusMessage \<lparr>rk_view = 0, rk_replicaIdx = 0, rk_opid = (7, 1), rk_result = ''p.n..n'', rk_finalized = False\<rparr>)"
    by code_simp
  have ok: "ty_status (tk_parse_reply ?K (rk_result \<lparr>rk_view = 0, rk_replicaIdx = 0, rk_opid = (7, 1), rk_result = ''p.n..n'', rk_finalized = False\<rparr>)) = REPLY_OK"
    by code_simp
  have reqs: "proposed_requests demo_tapir_events = {''p3'', ''c3''}" by (simp add: proposed_requests_def demo_tapir_events_def tapir_message_def)
  have q: "vq_op ?q = ''p1''" by (simp add: tapir_message_def)
  have "Timestamp 10 1 = Timestamp_of_msg (tq_prepare_timestamp (tk_parse_request ?K (vq_op ?q)))" by code_simp
  note stable = tapir_replica_reads_stable [OF codec start before new step reply ok later refl this]
  have read: "(''x'', Timestamp_default) \<in> set (txn_readSet (Transaction_of_msg (tq_prepare_txn (tk_parse_request ?K (vq_op ?q)))))"
    "Timestamp_default \<in> tp_versions (ir_app demo_tapir) ''x''" by code_simp+
  have "{w \<in> tp_versions (ir_app demo_tapir_done) ''x''. w < Timestamp 10 1} \<subseteq> {..Timestamp_default}"
    by (rule stable [OF _ _ _ _ read]) (auto simp: reqs proposed_requests_def [of "[]"] q demo_tapir_codec_def demo_tapir_request_def isValid_def Timestamp_of_msg_def)
  moreover have "tp_versions (ir_app demo_tapir_done) ''x'' = {Timestamp_default, Timestamp 20 3}" by code_simp
  ultimately show ?thesis by blast
qed

end
