(* ===== verification/Spec2Isabelle.thy ===== *)
theory Spec2Isabelle
  imports FastSystem ParallelSystem CoordinatorLive ClientBehaviour LRSlow VRServices LockService TapirServer
begin

text \<open>
  D2PC is a geo-replicated transactional key-value store built on the TAPIR code base. Data is
  divided into shards, each replicated by a leader and followers; a transaction that touches several
  shards runs two-phase commit in one of five modes (fast, slow, parallel, Carousel, RC). In parallel
  mode, the contribution of D2PC, a group of coordinator replicas placed beside the shard replicas
  collects votes and acknowledgements, lets leaders end concurrency control early (pre-commit) and
  decides the transaction. This development models the stores, the shard replicas with their logs, the
  coordinator group, and the client library with its buffers, promises and clocks.

  \<^bold>\<open>Conventions.\<close> A C++ integer of type \<^verbatim>\<open>uint64_t\<close> is a 64-bit word. A handler takes the
  state of its object and a decoded message and returns the new state; what it sends is appended to
  the state (\<open>lr_sent\<close>) or returned (coordinator, where a failure also returns what was sent before it). Null dereference, use after free, reading a
  member no constructor has set, an iterator at the end, an index out of bounds, division by zero and
  stack overflow are values of the type \<open>ub\<close>; a step that can do one of these returns a sum. The one
  exception is \<^verbatim>\<open>current_ts\<close> of a shard replica: the constructor does not set it and the first prepare
  reads it; the value found there is an arbitrary argument of \<open>LRReplica_new\<close>, and reading it is not a
  failure. The source is built with \<^verbatim>\<open>NASSERT\<close>, so assertions are no guards. Containers that the code iterates
  are association lists, the others maps. Nothing is assumed of the network: messages are delivered
  in any order, any number of times or never, and whether a send succeeds, the clock values that lock
  queues see, and the depth of the stack are parameters (\<open>Env\<close>, \<open>lock_clock\<close>).

  \<^bold>\<open>Theories, the sources they model and what they show.\<close>

  \<^item> \<open>D2PC_Prelude\<close>: results with undefined behaviour (\<open>bindr\<close>, \<open>rd\<close>), conversions between
    integer types, ordered and unordered maps as association lists, and their lemmas.
  \<^item> \<open>Timestamps\<close> (src/store/common/timestamp.cc, timestamp.h): the class \<^verbatim>\<open>Timestamp\<close> as a
    linear order.
  \<^item> \<open>Transactions\<close> (src/store/common/transaction.cc, transaction.h): the class
    \<^verbatim>\<open>Transaction\<close>, reply codes, modes; the wire form keeps both sets.
  \<^item> \<open>VersionStore\<close> (src/store/common/backend/versionstore.cc): the multi-version store. The locale
    \<open>mvstore\<close> states what a store of versions promises; a timestamped read returns the newest version
    not above the timestamp, a commit installs exactly its writes, and a second write at the same
    timestamp is lost.
  \<^item> \<open>LockServer\<close> (src/store/common/backend/lockserver.cc): the lock table with its wait queues. The
    locale \<open>rw_locks\<close> is the contract of a reader-writer lock, the operations refine it; write locks
    exclude, and no history of operations is undefined.
  \<^item> \<open>TxnStores\<close> (src/store/common/backend/txnstore.h): the contract \<open>txn_store\<close> of a store with
    concurrency control. \<open>OCCStore\<close> and \<open>LockStore\<close> (src/store/strongstore/occstore.cc,
    lockstore.cc) interpret it; \<open>StoreServer\<close> (src/store/strongstore/server.cc) is the object behind
    the base-class pointer, with the upcalls a replica makes, and interprets it too. \<open>store_reach\<close> are
    the stores after any operations: in them a prepare always answers. \<open>checked_reach\<close> are those of a
    leader, whose prepares are checked and read keys the store has: there prepared
    transactions never conflict, and their reads stay valid until they are decided. Two examples show
    what happens at a follower and when a key is missing.
  \<^item> \<open>Coordinator\<close> (src/replication/commit/coordinator.cc): every handler of the coordinator
    replica. A history invariant ties each commit and pre-commit it announces to the votes and
    acknowledgements it has received, to a decision it was told, or to a request for the result of a
    transaction it has decided. \<open>CoordinatorLive\<close>: the votes and acknowledgements of any transactions
    are handled without a failure, and a transaction that has all of its own is committed, unless its
    acknowledgements were complete before the first vote.
  \<^item> \<open>QuorumSets\<close> (src/replication/common/quorumset.h, src/lib/configuration.cc): quorum sizes and
    the reply collector; the locale \<open>quorum_system\<close> and its two interpretations.
  \<^item> \<open>LRLog\<close> (src/replication/lr/log.cc, log.h): the log of a shard replica.
  \<^item> \<open>LRReplica\<close> (src/replication/lr/replica.cc, replica.h): every handler, timer and helper of a
    shard replica. \<open>LRCommit\<close>: what a decision does at the leader and at a follower, and that both
    end with the same versions. \<open>LRFast\<close>: all histories of a fast-mode replica are defined, and a
    positive vote implies a quorum of acknowledgements. \<open>LRCascade\<close>: the cascade of aborts returns
    and has aborted exactly the dependent transactions, or reaches a pending transaction without an
    object and dereferences a null pointer. \<open>LRSlow\<close>: the primary shard as two-phase-commit
    coordinator.
  \<^item> \<open>Configs\<close> (src/lib/configuration.cc, configuration.h): the parser of configuration files, which
    reads back what is written in its format and returns exactly if the file can be opened, and the
    linear order of configurations.
  \<^item> \<open>Promises\<close> (src/store/common/promise.cc): the object on which the application thread waits, as
    collector of the votes of the shards. \<open>Clocks\<close> (src/store/common/truetime.cc): the simulated
    clock, monotone.
  \<^item> \<open>LRClients\<close> (src/replication/lr/client.cc, client.h): the client of one shard: requests, replies,
    timeouts and continuations in all modes. A success it reports is backed by the votes its mode
    asks for, and a request has at most one outcome.
  \<^item> \<open>ShardClients\<close> (src/store/strongstore/shardclient.cc, src/store/common/frontend/bufferclient.cc):
    continuations turned into replies of promises, which live in a heap, and the buffered read and
    write sets. \<open>TxnClients\<close> (src/store/strongstore/client.cc, src/store/common/frontend/client.h): the
    transaction client, whose two threads are interleaved steps.
  \<^item> \<open>ClientFast\<close>: an invariant over all interleavings in fast mode: a commit has the votes of all
    participants. \<open>ClientBehaviour\<close>: reads of own writes, the bound on attempts, lost and late messages.
  \<^item> \<open>VRLog\<close> (src/replication/common/log.cc, log-impl.h, viewstamp.h), \<open>VRReplica\<close>
    (src/replication/vr/replica.cc, src/replication/common/replica.h): viewstamped replication, which the
    repository inherits from TAPIR. Installing the log of another replica is exact.
    \<open>VRNormal\<close> and \<open>VRGroup\<close>: a group of replicas that stays in its first view executes the log of the
    leader, in its order, and only what \<open>f + 1\<close> replicas have stored. \<open>VRViews\<close>: the order of execution
    in any history, and a run in which a view change replaces an operation that was executed.
    \<open>VRClients\<close> (src/replication/vr/client.cc, src/replication/common/client.cc): the client, and execution
    at most once.
    \<open>VRServices\<close>: a group that stays in its first view answers as one server would; the time server
    (src/timeserver/timeserver.cc), whose timestamps are unique until a view change goes wrong.
  \<^item> \<open>TapirStore\<close> (src/store/tapirstore/store.cc): the store of TAPIR, with validation by timestamps. The
    reads of a prepared transaction stay valid; those of a committed one do not.
  \<^item> \<open>IRRecords\<close> and \<open>IRReplica\<close> (src/replication/ir/record.cc, replica.cc, src/lib/persistent_register.cc):
    inconsistent replication, its records, handlers and view changes, over any application. \<open>IRMerge\<close>:
    which results the merge of records keeps, for any application whose merge answers for the operations
    it is given (the lock server's does, \<open>lock_app_answers\<close>; TAPIR's ends the process), and two failures: an acknowledged operation that a view
    change loses, and the start after a stop.
    \<open>IRClients\<close> (src/replication/ir/client.cc): the client, with the fast and the slow path of consensus
    operations. \<open>IRClientSafety\<close>: what it reports is backed by replicas, and when it is defined.
  \<^item> \<open>TapirServer\<close> (src/store/tapirstore/server.cc) and \<open>LockService\<close> (src/lockserver/server.cc, client.cc):
    the two applications of inconsistent replication. The validation of the TAPIR store holds at a
    replica that has the version read, whatever messages of other transactions it handles. A lock that a client is granted has the grants of replicas,
    and a merge grants a key once; but a view change can forget a lock that is held.
  \<^item> \<open>D2PCSystem\<close>, \<open>FastSystem\<close> and this theory: clients, shard replicas and coordinators exchanging
    messages. \<open>ParallelLog\<close> and \<open>ParallelSystem\<close>: all shards and the coordinator group in parallel mode.
    Each handler either leaves the keys of the log alone, or appends at the leader, or stores an entry
    received from the leader; the invariant of the system follows the acknowledgements from the logs
    through the coordinators to the answer of the client. The bound of \<open>2 ^ 64\<close> steps keeps the log
    sequence numbers from wrapping.

  \<^bold>\<open>Bounds.\<close> All loops of the modelled code run over finite containers and are structural
  recursions, but for three. The recursion on data, \<^verbatim>\<open>CascadeAbort\<close>, has the stack depth
  \<open>env_depth\<close> as fuel and overflows when it is used up; a depth above the longest dependency chain is
  enough (\<open>cascade_abort_exact\<close>), and in fast mode, where there are no dependencies, depth one. The
  loop over the lines of a configuration file is a partial function whose domain is
  \<open>configuration_read_returns\<close>. The retry loop of \<^verbatim>\<open>Commit\<close> is spread over the steps of the
  application thread and makes at most \<open>COMMIT_RETRIES\<close> attempts (\<open>commit_attempts_bounded\<close>).

  \<^bold>\<open>Not modelled.\<close> The byte encoding of messages (protobuf), sockets and event loops
  (src/lib/*transport*), process start-up and option parsing, debug output and latency measurement,
  the benchmark drivers. src/store/strongstore/commitclient.cc is not compiled. Of the code
  inherited from TAPIR, the TAPIR client (src/store/tapirstore/client.cc, shardclient.cc), whose classes
  lack the method \<^verbatim>\<open>MultiGet\<close> of their base classes and cannot be instantiated, and the weak store
  (src/store/weakstore), which has no transactions and no replication.
\<close>

section \<open>One transaction through a shard and the coordinator group\<close>







section \<open>Properties\<close>


text \<open>C1. Fault tolerance of a commit in fast mode, from the client to the logs: if each reply a client
  receives from a shard is one that the shard's leader has sent, then whenever \<^verbatim>\<open>Commit\<close> returns
  true, the log entry of the transaction has been acknowledged, in every shard it read or wrote, by
  at least \<open>f + 1\<close> different replicas in one term, over all interleavings of the client's threads and
  all histories of the leaders.\<close>

theorem fast_commit_fault_tolerant:
  assumes "Client_new md MODE_FAST shards closest k tt tpcc jf cid = Inr c0" and "length shards < 2 ^ 31"
    and "cl_run es c0 = Inr c" and "cl_step c e = Inr c'" and "cl_results c' = cl_results c @ [RCommit True]"
    and "\<And>j. j < length shards \<Longrightarrow> leader_history n f j (sv j) (evs j) (S j)"
    and "delivered (length shards) (e # es) S"
  shows "\<forall>q \<in> set (cl_participants c). \<exists>term. f + 1 \<le> int (card {rr_replicaID m |m. m \<in> set (acks (evs (nat q))) \<and>
      rr_txnid m = cl_t_id c \<and> rr_term m = term})"
  using fast_commit_logged [OF assms] unfolding log_replicated_def replied_def by (simp add: image_Collect)

theorem fast_commit_fault_tolerant_witness:
  "cl_participants demo_waiting = [1, 0] \<and> cl_results demo_done = [RPut 0, RPut 0, RCommit True] \<and>
   (\<exists>term. 2 \<le> card {rr_replicaID m |m. m \<in> set (acks (demo_shard_events 1)) \<and> rr_txnid m = 50001 \<and> rr_term m = term})"
proof -
  have new: "Client_new MODE_OCC MODE_FAST [(3, 1), (3, 1)] 0 3 TrueTime_default False (\<lambda>t. Inl UninitRead) 50000 = Inr demo_client"
    unfolding demo_client_def by (rule projr_Inr) code_simp
  have run: "cl_run demo_txn demo_client = Inr demo_waiting"
    unfolding demo_waiting_def by (rule projr_Inr) code_simp
  have step: "cl_step demo_waiting (AResume demo_time demo_time) = Inr demo_done"
    unfolding demo_done_def by (rule projr_Inr) code_simp
  have res: "cl_results demo_done = cl_results demo_waiting @ [RCommit True]"
    "cl_results demo_done = [RPut 0, RPut 0, RCommit True]" "cl_participants demo_waiting = [1, 0]" "cl_t_id demo_waiting = 50001"
    by code_simp+
  have net: "delivered (length [(3 :: int, 1 :: int), (3, 1)]) (AResume demo_time demo_time # demo_txn) demo_shard_leader"
    using demo_delivered by (simp add: numeral_2_eq_2)
  have "\<exists>term. 1 + 1 \<le> int (card {rr_replicaID m |m. m \<in> set (acks (demo_shard_events (nat 1))) \<and>
      rr_txnid m = cl_t_id demo_waiting \<and> rr_term m = term})"
    by (rule fast_commit_fault_tolerant [OF new _ run step res(1) _ net, rule_format, where n = 3 and sv = "\<lambda>_. demo_server"])
      (use demo_leaders res(3) in auto)
  with res show ?thesis by simp
qed


end
